(* ===== verification/Prelude.thy ===== *)
theory Prelude
  imports Main "HOL-Library.Word"
begin

text \<open>
  What every component shares: the result type of fallible code, the machine integers,
  wakers and \<open>Poll\<close>, the helper \<open>update_waker_ref\<close> of \<^verbatim>\<open>src/utils/mod.rs\<close>, a small calculus
  for "this code returns, and its result satisfies Q" (\<open>returns\<close>), and the interface of
  transition systems, from which every primitive gets its reachable-state invariant.
\<close>

section \<open>Results of fallible code\<close>

text \<open>
  Addresses of pinned nodes. Rust's \<open>NonNull\<close> pointers are addresses; \<open>Option<NonNull<_>>\<close> is
  \<open>addr option\<close>.
\<close>

type_synonym addr = nat

text \<open>
  The three ways in which code does not return a value: a panic (\<open>panic!\<close>, \<open>assert!\<close>,
  \<open>debug_assert!\<close>, \<open>expect\<close>, an arithmetic overflow: the model is that of a build with debug
  assertions), the dereference of a pointer to a node that is no longer alive (undefined
  behaviour of the \<open>unsafe\<close> code), and a loop that does not end.
\<close>

datatype fault = Panic string | Dangling addr | Diverges

type_synonym 'a res = "fault + 'a"

definition and_then :: "'a res \<Rightarrow> ('a \<Rightarrow> 'b res) \<Rightarrow> 'b res" where
  "and_then m f = (case m of Inl e \<Rightarrow> Inl e | Inr x \<Rightarrow> f x)"

definition assert_that :: "bool \<Rightarrow> string \<Rightarrow> unit res" where
  "assert_that b msg = (if b then Inr () else Inl (Panic msg))"

text \<open>A loop is a \<open>partial_function (option)\<close>: \<open>None\<close> means that it does not end.\<close>

definition run_loop :: "'a res option \<Rightarrow> 'a res" where
  "run_loop r = (case r of None \<Rightarrow> Inl Diverges | Some x \<Rightarrow> x)"

lemma and_then_simps [simp]:
  "and_then (Inr x) f = f x"
  "and_then (Inl e) f = Inl e"
  by (simp_all add: and_then_def)

lemma assert_that_simps [simp]:
  "assert_that True msg = Inr ()"
  "assert_that False msg = Inl (Panic msg)"
  by (simp_all add: assert_that_def)

lemma run_loop_simps [simp]:
  "run_loop (Some x) = x"
  "run_loop None = Inl Diverges"
  by (simp_all add: run_loop_def)

lemma and_then_eq_Inr:
  "and_then m f = Inr y \<longleftrightarrow> (\<exists>x. m = Inr x \<and> f x = Inr y)"
  by (cases m) simp_all

section \<open>Total correctness of fallible code\<close>

text \<open>\<open>returns m Q\<close>: the code \<open>m\<close> returns (no panic, no dangling access, no divergence) a result
  for which \<open>Q\<close> holds.\<close>

definition returns :: "'a res \<Rightarrow> ('a \<Rightarrow> bool) \<Rightarrow> bool" where
  "returns m Q \<longleftrightarrow> (case m of Inl _ \<Rightarrow> False | Inr x \<Rightarrow> Q x)"

named_theorems wp \<open>rules that push \<open>returns\<close> through the operations of the model\<close>

lemma returns_simps [simp]:
  "returns (Inr x) Q \<longleftrightarrow> Q x"
  "returns (Inl e) Q \<longleftrightarrow> False"
  by (simp_all add: returns_def)

lemma returns_and_then [simp]:
  "returns (and_then m f) Q \<longleftrightarrow> returns m (\<lambda>x. returns (f x) Q)"
  by (cases m) simp_all

lemma returns_assert_that [simp]:
  "returns (assert_that b msg) Q \<longleftrightarrow> b \<and> Q ()"
  by (cases b) simp_all

lemma returns_iff: "returns m Q \<longleftrightarrow> (\<exists>x. m = Inr x \<and> Q x)"
  by (cases m) simp_all

lemma returns_mono: "returns m P \<Longrightarrow> (\<And>x. P x \<Longrightarrow> Q x) \<Longrightarrow> returns m Q"
  by (cases m) simp_all

lemma returns_exI: "returns m Q \<Longrightarrow> \<exists>x. m = Inr x"
  by (auto simp: returns_iff)

section \<open>The store of pinned nodes\<close>

text \<open>
  Nodes are pinned, live inside the futures of the clients and are shared through raw pointers:
  a store maps the address of every live node to its contents. Reading or writing through a
  pointer to a node that is not in the store is a dangling access.
\<close>

definition deref :: "(addr \<rightharpoonup> 'n) \<Rightarrow> addr \<Rightarrow> 'n res" where
  "deref h p = (case h p of None \<Rightarrow> Inl (Dangling p) | Some n \<Rightarrow> Inr n)"

definition update_node :: "addr \<Rightarrow> ('n \<Rightarrow> 'n) \<Rightarrow> (addr \<rightharpoonup> 'n) \<Rightarrow> (addr \<rightharpoonup> 'n) res" where
  "update_node p f h = (case h p of None \<Rightarrow> Inl (Dangling p) | Some n \<Rightarrow> Inr (h(p \<mapsto> f n)))"

lemma deref_Some [simp]: "h p = Some n \<Longrightarrow> deref h p = Inr n"
  by (simp add: deref_def)

lemma update_node_Some [simp]: "h p = Some n \<Longrightarrow> update_node p f h = Inr (h(p \<mapsto> f n))"
  by (simp add: update_node_def)

lemma deref_eq_Inr: "deref h p = Inr n \<longleftrightarrow> h p = Some n"
  by (auto simp: deref_def split: option.splits)

lemma update_node_eq_Inr:
  "update_node p f h = Inr h' \<longleftrightarrow> (\<exists>n. h p = Some n \<and> h' = h(p \<mapsto> f n))"
  by (auto simp: update_node_def split: option.splits)

section \<open>Queues as lists\<close>

lemma remove1_eq_Nil: "remove1 a xs = [] \<longleftrightarrow> xs = [] \<or> xs = [a]"
  by (cases xs) auto

lemma last_remove1: "last xs \<noteq> a \<Longrightarrow> xs \<noteq> [] \<Longrightarrow> last (remove1 a xs) = last xs"
  by (induction xs) (auto simp: remove1_eq_Nil split: if_splits)

section \<open>Pairs\<close>

lemma ex_pair_eq:
  "(\<exists>y. p = (x, y) \<and> P y) \<longleftrightarrow> x = fst p \<and> P (snd p)"
  by (cases p) auto

section \<open>Integers, wakers, polls\<close>

text \<open>\<open>usize\<close> of a 64-bit target, and \<open>u64\<close>.\<close>

type_synonym usize = "64 word"
type_synonym u64 = "64 word"

definition usize_add :: "usize \<Rightarrow> usize \<Rightarrow> usize res" where
  "usize_add a b =
     (if unat a + unat b < 2 ^ 64 then Inr (a + b)
      else Inl (Panic ''attempt to add with overflow''))"

definition usize_sub :: "usize \<Rightarrow> usize \<Rightarrow> usize res" where
  "usize_sub a b =
     (if b \<le> a then Inr (a - b) else Inl (Panic ''attempt to subtract with overflow''))"

lemma unat_usize_less: "unat (a :: usize) < 2 ^ 64"
proof -
  have "unat a < 2 ^ LENGTH(64)" by (rule unsigned_less)
  then show ?thesis by simp
qed

lemma unat_add_no_overflow:
  "unat (a :: usize) + unat b < 2 ^ 64 \<Longrightarrow> unat (a + b) = unat a + unat b"
  by (subst unat_add_lem [symmetric]) simp

text \<open>Reference counts, which clone refuses to raise beyond \<open>isize::MAX\<close>.\<close>

abbreviation isize_max :: usize where
  "isize_max \<equiv> 0x7FFFFFFFFFFFFFFF"

lemma count_up:
  assumes "unat n < 2 ^ 63"
  shows "\<not> n > isize_max" "unat (n + 1) = unat n + 1"
  using assms unat_add_lem [of n "1 :: usize"] by (simp_all add: word_less_nat_alt not_less word_le_nat_alt)

lemma count_down: "0 < unat (n :: usize) \<Longrightarrow> unat (n - 1) = unat n - 1"
  by (simp add: unat_sub word_le_nat_alt)

lemma returns_usize_add [simp]:
  "returns (usize_add a b) Q \<longleftrightarrow> unat a + unat b < 2 ^ 64 \<and> Q (a + b)"
  by (simp add: usize_add_def)

lemma returns_usize_sub [simp]:
  "returns (usize_sub a b) Q \<longleftrightarrow> b \<le> a \<and> Q (a - b)"
  by (simp add: usize_sub_def)

text \<open>
  \<open>core::task::Waker\<close>: a handle to a task, in the standard library a data pointer and a vtable;
  \<open>will_wake\<close> compares both. A clone wakes the same task and is modelled as the same value.
\<close>

datatype waker = Waker (waker_data: nat) (waker_vtable: nat)

definition will_wake :: "waker \<Rightarrow> waker \<Rightarrow> bool" where
  "will_wake a b \<longleftrightarrow> waker_data a = waker_data b \<and> waker_vtable a = waker_vtable b"

datatype 'a poll = Ready 'a | Pending

definition is_ready :: "'a poll \<Rightarrow> bool" where
  "is_ready p = (case p of Ready _ \<Rightarrow> True | Pending \<Rightarrow> False)"

lemma is_ready_simps [simp]: "is_ready (Ready x)" "\<not> is_ready Pending"
  by (simp_all add: is_ready_def)

lemma unit_poll_cases: "(x :: unit poll) \<noteq> Pending \<longleftrightarrow> x = Ready ()"
  by (cases x) simp_all

text \<open>\<^verbatim>\<open>utils/mod.rs\<close>: the stored waker is replaced unless it already wakes the same task.\<close>

definition update_waker_ref :: "waker option \<Rightarrow> waker \<Rightarrow> waker option" where
  "update_waker_ref waker_option cx =
     (if (case waker_option of None \<Rightarrow> True
          | Some stored_waker \<Rightarrow> \<not> will_wake stored_waker cx)
      then Some cx else waker_option)"

lemma will_wake_eq [simp]: "will_wake a b \<longleftrightarrow> a = b"
  by (cases a; cases b) (auto simp: will_wake_def)

lemma update_waker_ref_Some [simp]: "update_waker_ref wo cx = Some cx"
  by (auto simp: update_waker_ref_def split: option.splits)

text \<open>\<open>if let Some(waker) = waker { waker.wake() }\<close>: the wakers woken, in order.\<close>

definition wake_opt :: "waker option \<Rightarrow> waker list" where
  "wake_opt w = (case w of None \<Rightarrow> [] | Some w \<Rightarrow> [w])"

lemma wake_opt_simps [simp]: "wake_opt None = []" "wake_opt (Some w) = [w]"
  by (simp_all add: wake_opt_def)

section \<open>Transition systems\<close>

text \<open>
  A primitive together with the futures and guards its clients hold is a transition system:
  an action is one call of the API, \<open>enabled\<close> says which calls the type system and the contract
  of the API allow, and \<open>exec\<close> runs the code. Every call runs under the primitive's lock, so
  an execution of any number of tasks is a sequence of such actions.
\<close>

inductive reach :: "('s \<Rightarrow> bool) \<Rightarrow> ('a \<Rightarrow> 's \<Rightarrow> bool) \<Rightarrow> ('a \<Rightarrow> 's \<Rightarrow> 's res) \<Rightarrow> 's \<Rightarrow> bool"
  for init enabled exec where
  reach_init: "init s \<Longrightarrow> reach init enabled exec s"
| reach_step: "reach init enabled exec s \<Longrightarrow> enabled a s \<Longrightarrow> exec a s = Inr t \<Longrightarrow>
     reach init enabled exec t"

fun exec_all :: "('a \<Rightarrow> 's \<Rightarrow> bool) \<Rightarrow> ('a \<Rightarrow> 's \<Rightarrow> 's res) \<Rightarrow> 'a list \<Rightarrow> 's \<Rightarrow> 's option" where
  "exec_all enabled exec [] s = Some s"
| "exec_all enabled exec (a # as) s =
     (if enabled a s
      then (case exec a s of Inl _ \<Rightarrow> None | Inr t \<Rightarrow> exec_all enabled exec as t)
      else None)"

lemma exec_all_reach:
  "exec_all enabled exec as s = Some t \<Longrightarrow> reach init enabled exec s \<Longrightarrow>
   reach init enabled exec t"
  by (induction as arbitrary: s) (auto split: if_splits sum.splits intro: reach_step)

locale transition_system =
  fixes init :: "'s \<Rightarrow> bool"
    and enabled :: "'a \<Rightarrow> 's \<Rightarrow> bool"
    and exec :: "'a \<Rightarrow> 's \<Rightarrow> 's res"
    and inv :: "'s \<Rightarrow> bool"
  assumes init_inv: "init s \<Longrightarrow> inv s"
    and exec_inv: "inv s \<Longrightarrow> enabled a s \<Longrightarrow> returns (exec a s) inv"
begin

lemma reach_inv: "reach init enabled exec s \<Longrightarrow> inv s"
proof (induction rule: reach.induct)
  case (reach_init s)
  then show ?case by (rule init_inv)
next
  case (reach_step s a t)
  then show ?case using exec_inv [of s a] by simp
qed

lemma no_fault: "reach init enabled exec s \<Longrightarrow> enabled a s \<Longrightarrow> \<exists>t. exec a s = Inr t \<and> inv t"
  using exec_inv [OF reach_inv] by (auto simp: returns_iff)

lemma exec_all_inv: "exec_all enabled exec as s = Some t \<Longrightarrow> inv s \<Longrightarrow> inv t"
proof (induction as arbitrary: s)
  case (Cons a as)
  then show ?case using exec_inv [of s a] by (auto split: if_splits sum.splits)
qed simp

end

end
