(* ===== verification/Linked_List.thy ===== *)
theory Linked_List
  imports Prelude
begin

text \<open>
  The intrusive doubly linked list of \<^verbatim>\<open>src/intrusive_double_linked_list.rs\<close>, at the level of its
  pointers: nodes live in a store (they belong to futures), the list itself holds a head and a
  tail pointer. Every operation is written pointer assignment by pointer assignment.
  \<open>ll_rep h l xs\<close> says that in the store \<open>h\<close> the list \<open>l\<close> holds exactly the nodes \<open>xs\<close>, from
  head to tail, and that every other live node is unlinked. The lemmas show that each operation
  returns under \<open>ll_rep\<close> (no debug assertion fails, no pointer dangles, the draining loops end)
  and does to \<open>xs\<close> what the documentation says.
\<close>

section \<open>Data\<close>

record 'a list_node =
  ln_prev :: "addr option"
  ln_next :: "addr option"
  ln_data :: 'a

type_synonym 'a store = "addr \<rightharpoonup> 'a list_node"

record linked_list =
  ll_head :: "addr option"
  ll_tail :: "addr option"

definition list_node_new :: "'a \<Rightarrow> 'a list_node" where
  "list_node_new d = \<lparr>ln_prev = None, ln_next = None, ln_data = d\<rparr>"

definition ll_new :: linked_list where
  "ll_new = \<lparr>ll_head = None, ll_tail = None\<rparr>"

text \<open>\<open>Deref\<close> and \<open>DerefMut\<close> of a node reach the data only.\<close>

definition read_data :: "'a store \<Rightarrow> addr \<Rightarrow> 'a res" where
  "read_data h p = and_then (deref h p) (\<lambda>n. Inr (ln_data n))"

definition update_data :: "addr \<Rightarrow> ('a \<Rightarrow> 'a) \<Rightarrow> 'a store \<Rightarrow> 'a store res" where
  "update_data p f h = update_node p (ln_data_update f) h"

abbreviation set_prev :: "addr \<Rightarrow> addr option \<Rightarrow> 'a store \<Rightarrow> 'a store res" where
  "set_prev p v \<equiv> update_node p (ln_prev_update (\<lambda>_. v))"

abbreviation set_next :: "addr \<Rightarrow> addr option \<Rightarrow> 'a store \<Rightarrow> 'a store res" where
  "set_next p v \<equiv> update_node p (ln_next_update (\<lambda>_. v))"

section \<open>Operations\<close>

definition ll_add_front :: "linked_list \<Rightarrow> addr \<Rightarrow> 'a store \<Rightarrow> (linked_list \<times> 'a store) res" where
  "ll_add_front l node h =
     and_then (set_next node (ll_head l) h) (\<lambda>h.
     and_then (set_prev node None h) (\<lambda>h.
     and_then (case ll_head l of
                 None \<Rightarrow> Inr h
               | Some head \<Rightarrow> set_prev head (Some node) h) (\<lambda>h.
     let l = l\<lparr>ll_head := Some node\<rparr>;
         l = (if ll_tail l = None then l\<lparr>ll_tail := Some node\<rparr> else l)
     in Inr (l, h))))"

definition ll_peek_first :: "linked_list \<Rightarrow> addr option" where
  "ll_peek_first l = ll_head l"

definition ll_peek_last :: "linked_list \<Rightarrow> addr option" where
  "ll_peek_last l = ll_tail l"

definition ll_remove_first ::
  "linked_list \<Rightarrow> 'a store \<Rightarrow> (addr option \<times> linked_list \<times> 'a store) res" where
  "ll_remove_first l h =
     (case ll_head l of
        None \<Rightarrow> Inr (None, l, h)
      | Some head \<Rightarrow>
          and_then (deref h head) (\<lambda>first_ref.
          let l = l\<lparr>ll_head := ln_next first_ref\<rparr> in
          and_then (case ln_next first_ref of
                      None \<Rightarrow>
                        and_then (assert_that (Some head = ll_tail l) ''assertion failed: first == tail'') (\<lambda>_.
                        Inr (l\<lparr>ll_tail := None\<rparr>, h))
                    | Some next_node \<Rightarrow>
                        and_then (set_prev next_node None h) (\<lambda>h. Inr (l, h))) (\<lambda>(l, h).
          and_then (set_prev head None h) (\<lambda>h.
          and_then (set_next head None h) (\<lambda>h.
          Inr (Some head, l, h))))))"

definition ll_remove_last ::
  "linked_list \<Rightarrow> 'a store \<Rightarrow> (addr option \<times> linked_list \<times> 'a store) res" where
  "ll_remove_last l h =
     (case ll_tail l of
        None \<Rightarrow> Inr (None, l, h)
      | Some tail \<Rightarrow>
          and_then (deref h tail) (\<lambda>last_ref.
          let l = l\<lparr>ll_tail := ln_prev last_ref\<rparr> in
          and_then (case ln_prev last_ref of
                      None \<Rightarrow>
                        and_then (assert_that (Some tail = ll_head l) ''assertion failed: last == head'') (\<lambda>_.
                        Inr (l\<lparr>ll_head := None\<rparr>, h))
                    | Some prev_node \<Rightarrow>
                        and_then (set_next prev_node None h) (\<lambda>h. Inr (l, h))) (\<lambda>(l, h).
          and_then (set_prev tail None h) (\<lambda>h.
          and_then (set_next tail None h) (\<lambda>h.
          Inr (Some tail, l, h))))))"

definition ll_is_empty :: "linked_list \<Rightarrow> bool res" where
  "ll_is_empty l =
     (if ll_head l \<noteq> None then Inr False
      else and_then (assert_that (ll_tail l = None) ''assertion failed: self.tail.is_none()'') (\<lambda>_.
           Inr True))"

definition ll_remove ::
  "linked_list \<Rightarrow> addr \<Rightarrow> 'a store \<Rightarrow> (bool \<times> linked_list \<times> 'a store) res" where
  "ll_remove l node h =
     and_then (deref h node) (\<lambda>n.
     and_then (case ln_prev n of
                 None \<Rightarrow>
                   if ll_head l \<noteq> Some node
                   then and_then (assert_that (ln_next n = None) ''assertion failed: node.next.is_none()'') (\<lambda>_.
                        Inr None)
                   else Inr (Some (l\<lparr>ll_head := ln_next n\<rparr>, h))
               | Some prev_node \<Rightarrow>
                   and_then (deref h prev_node) (\<lambda>pn.
                   and_then (assert_that (ln_next pn = Some node) ''assertion failed: prev.next == node'') (\<lambda>_.
                   and_then (set_next prev_node (ln_next n) h) (\<lambda>h.
                   Inr (Some (l, h)))))) (\<lambda>found.
     case found of
       None \<Rightarrow> Inr (False, l, h)
     | Some (l, h) \<Rightarrow>
         and_then (deref h node) (\<lambda>n.
         and_then (case ln_next n of
                     None \<Rightarrow>
                       and_then (assert_that (ll_tail l = Some node) ''assertion failed: tail == node'') (\<lambda>_.
                       Inr (l\<lparr>ll_tail := ln_prev n\<rparr>, h))
                   | Some next_node \<Rightarrow>
                       and_then (deref h next_node) (\<lambda>nn.
                       and_then (assert_that (ln_prev nn = Some node) ''assertion failed: next.prev == node'') (\<lambda>_.
                       and_then (set_prev next_node (ln_prev n) h) (\<lambda>h.
                       Inr (l, h))))) (\<lambda>(l, h).
         and_then (set_next node None h) (\<lambda>h.
         and_then (set_prev node None h) (\<lambda>h.
         Inr (True, l, h)))))))"

text \<open>
  The draining loops. The callback may change the data of the node it is given and the state
  \<open>'c\<close> it captured.
\<close>

partial_function (option) ll_drain_loop ::
  "('a \<Rightarrow> 'c \<Rightarrow> 'a \<times> 'c) \<Rightarrow> addr option \<Rightarrow> 'a store \<Rightarrow> 'c \<Rightarrow> ('a store \<times> 'c) res option" where
  "ll_drain_loop func current h c =
     (case current of
        None \<Rightarrow> Some (Inr (h, c))
      | Some node \<Rightarrow>
          (case h node of
             None \<Rightarrow> Some (Inl (Dangling node))
           | Some node_ref \<Rightarrow>
               (case func (ln_data node_ref) c of
                  (d, c') \<Rightarrow>
                    ll_drain_loop func (ln_next node_ref)
                      (h(node \<mapsto> \<lparr>ln_prev = None, ln_next = None, ln_data = d\<rparr>)) c')))"

partial_function (option) ll_reverse_drain_loop ::
  "('a \<Rightarrow> 'c \<Rightarrow> 'a \<times> 'c) \<Rightarrow> addr option \<Rightarrow> 'a store \<Rightarrow> 'c \<Rightarrow> ('a store \<times> 'c) res option" where
  "ll_reverse_drain_loop func current h c =
     (case current of
        None \<Rightarrow> Some (Inr (h, c))
      | Some node \<Rightarrow>
          (case h node of
             None \<Rightarrow> Some (Inl (Dangling node))
           | Some node_ref \<Rightarrow>
               (case func (ln_data node_ref) c of
                  (d, c') \<Rightarrow>
                    ll_reverse_drain_loop func (ln_prev node_ref)
                      (h(node \<mapsto> \<lparr>ln_prev = None, ln_next = None, ln_data = d\<rparr>)) c')))"

definition ll_drain ::
  "('a \<Rightarrow> 'c \<Rightarrow> 'a \<times> 'c) \<Rightarrow> linked_list \<Rightarrow> 'a store \<Rightarrow> 'c \<Rightarrow> (linked_list \<times> 'a store \<times> 'c) res" where
  "ll_drain func l h c =
     and_then (run_loop (ll_drain_loop func (ll_head l) h c)) (\<lambda>(h, c).
     Inr (l\<lparr>ll_head := None, ll_tail := None\<rparr>, h, c))"

definition ll_reverse_drain ::
  "('a \<Rightarrow> 'c \<Rightarrow> 'a \<times> 'c) \<Rightarrow> linked_list \<Rightarrow> 'a store \<Rightarrow> 'c \<Rightarrow> (linked_list \<times> 'a store \<times> 'c) res" where
  "ll_reverse_drain func l h c =
     and_then (run_loop (ll_reverse_drain_loop func (ll_tail l) h c)) (\<lambda>(h, c).
     Inr (l\<lparr>ll_head := None, ll_tail := None\<rparr>, h, c))"

section \<open>The representation predicate\<close>

definition first_or :: "addr list \<Rightarrow> addr option \<Rightarrow> addr option" where
  "first_or xs q = (case xs of [] \<Rightarrow> q | x # _ \<Rightarrow> Some x)"

definition last_or :: "addr list \<Rightarrow> addr option \<Rightarrow> addr option" where
  "last_or xs p = (if xs = [] then p else Some (last xs))"

lemma first_or_simps [simp]:
  "first_or [] q = q"
  "first_or (x # xs) q = Some x"
  "first_or (xs @ ys) q = first_or xs (first_or ys q)"
  by (simp_all add: first_or_def split: list.splits)

lemma last_or_simps [simp]:
  "last_or [] p = p"
  "last_or (xs @ [x]) p = Some x"
  "last_or (x # xs) p = last_or xs (Some x)"
  "last_or (xs @ ys) p = last_or ys (last_or xs p)"
  by (simp_all add: last_or_def)

lemma first_or_None_iff [simp]: "first_or xs q = None \<longleftrightarrow> xs = [] \<and> q = None"
  by (cases xs) simp_all

lemma last_or_None_iff [simp]: "last_or xs p = None \<longleftrightarrow> xs = [] \<and> p = None"
  by (simp add: last_or_def)

text \<open>A segment of linked nodes, whose first node points back to \<open>p\<close> and last node on to \<open>q\<close>.\<close>

fun dlseg :: "'a store \<Rightarrow> addr option \<Rightarrow> addr list \<Rightarrow> addr option \<Rightarrow> bool" where
  "dlseg h p [] q \<longleftrightarrow> True"
| "dlseg h p (x # xs) q \<longleftrightarrow>
     (\<exists>n. h x = Some n \<and> ln_prev n = p \<and> ln_next n = first_or xs q) \<and> dlseg h (Some x) xs q"

lemma dlseg_append [simp]:
  "dlseg h p (xs @ ys) q \<longleftrightarrow> dlseg h p xs (first_or ys q) \<and> dlseg h (last_or xs p) ys q"
  by (induction xs arbitrary: p) auto

lemma dlseg_upd [simp]: "a \<notin> set xs \<Longrightarrow> dlseg (h(a := v)) p xs q = dlseg h p xs q"
  by (induction xs arbitrary: p) auto

lemma dlseg_dom: "dlseg h p xs q \<Longrightarrow> set xs \<subseteq> dom h"
  by (induction xs arbitrary: p) auto

text \<open>Changing the data of a node keeps every segment.\<close>

lemma dlseg_data_upd:
  "h a = Some n \<Longrightarrow> dlseg (h(a \<mapsto> ln_data_update f n)) p xs q = dlseg h p xs q"
  by (induction xs arbitrary: p) auto

definition ll_rep :: "'a store \<Rightarrow> linked_list \<Rightarrow> addr list \<Rightarrow> bool" where
  "ll_rep h l xs \<longleftrightarrow>
     distinct xs \<and> ll_head l = first_or xs None \<and> ll_tail l = last_or xs None \<and>
     dlseg h None xs None \<and>
     (\<forall>a n. h a = Some n \<longrightarrow> a \<notin> set xs \<longrightarrow> ln_prev n = None \<and> ln_next n = None)"

text \<open>The data of every live node: what the clients of the list see of the store.\<close>

definition data_of :: "'a store \<Rightarrow> (addr \<rightharpoonup> 'a)" where
  "data_of h = (\<lambda>a. map_option ln_data (h a))"

lemma data_of_upd [simp]: "data_of (h(a \<mapsto> n)) = (data_of h)(a \<mapsto> ln_data n)"
  by (auto simp: data_of_def)

lemma data_of_remove [simp]: "data_of (h(a := None)) = (data_of h)(a := None)"
  by (auto simp: data_of_def)

lemma data_of_eq_Some: "data_of h a = Some d \<longleftrightarrow> (\<exists>n. h a = Some n \<and> ln_data n = d)"
  by (auto simp: data_of_def)

lemma data_of_eq_None: "data_of h a = None \<longleftrightarrow> h a = None"
  by (simp add: data_of_def)

lemma data_of_None [simp]: "h a = None \<Longrightarrow> data_of h a = None"
  by (simp add: data_of_def)

lemma data_of_same [simp]: "h a = Some n \<Longrightarrow> (data_of h)(a \<mapsto> ln_data n) = data_of h"
  by (auto simp: data_of_def)

lemma dom_data_of [simp]: "dom (data_of h) = dom h"
  by (auto simp: data_of_def dom_def)

lemma ll_rep_distinct: "ll_rep h l xs \<Longrightarrow> distinct xs"
  by (simp add: ll_rep_def)

lemma ll_rep_dom: "ll_rep h l xs \<Longrightarrow> a \<in> set xs \<Longrightarrow> \<exists>d. data_of h a = Some d"
  by (auto simp: ll_rep_def data_of_def dest!: dlseg_dom)

lemma ll_rep_new: "ll_rep Map.empty ll_new []"
  by (simp add: ll_rep_def ll_new_def)

text \<open>The nodes of a list are determined by the store.\<close>

lemma dlseg_unique:
  "dlseg h p xs None \<Longrightarrow> dlseg h p ys None \<Longrightarrow> first_or xs None = first_or ys None \<Longrightarrow> xs = ys"
proof (induction xs arbitrary: p ys)
  case Nil
  then show ?case by (simp add: eq_commute [of None])
next
  case (Cons x xs)
  then show ?case by (cases ys) auto
qed

lemma ll_rep_unique: "ll_rep h l xs \<Longrightarrow> ll_rep h l ys \<Longrightarrow> xs = ys"
  by (rule dlseg_unique [of h None]) (auto simp: ll_rep_def)

text \<open>A new node is unlinked, and an unlinked node can be freed.\<close>

lemma ll_rep_alloc: "ll_rep h l xs \<Longrightarrow> h a = None \<Longrightarrow> ll_rep (h(a \<mapsto> list_node_new d)) l xs"
proof -
  assume rep: "ll_rep h l xs" and fresh: "h a = None"
  then have "a \<notin> set xs"
    by (auto simp: ll_rep_def dest!: dlseg_dom)
  with rep show ?thesis by (auto simp: ll_rep_def list_node_new_def)
qed

lemma ll_rep_free: "ll_rep h l xs \<Longrightarrow> a \<notin> set xs \<Longrightarrow> ll_rep (h(a := None)) l xs"
  by (auto simp: ll_rep_def)

section \<open>Correctness of the operations\<close>

lemma ll_peek_last_rep [simp]: "ll_rep h l xs \<Longrightarrow> ll_peek_last l = last_or xs None"
  by (simp add: ll_rep_def ll_peek_last_def)

lemma ll_peek_first_rep [simp]: "ll_rep h l xs \<Longrightarrow> ll_peek_first l = first_or xs None"
  by (simp add: ll_rep_def ll_peek_first_def)

lemma ll_is_empty_rep [simp]: "ll_rep h l xs \<Longrightarrow> ll_is_empty l = Inr (xs = [])"
  by (auto simp: ll_rep_def ll_is_empty_def)

lemma read_data_rep [simp]: "data_of h a = Some d \<Longrightarrow> read_data h a = Inr d"
  by (auto simp: read_data_def data_of_eq_Some)

lemma read_data_eq_Inr: "read_data h a = Inr d \<longleftrightarrow> data_of h a = Some d"
  by (auto simp: read_data_def data_of_def deref_def split: option.splits)

lemma update_data_wp:
  assumes "ll_rep h l xs" "data_of h a \<noteq> None"
    and "\<And>h'. ll_rep h' l xs \<Longrightarrow> data_of h' = (data_of h)(a := map_option f (data_of h a)) \<Longrightarrow> Q h'"
  shows "returns (update_data a f h) Q"
proof -
  from assms(2) obtain n where n: "h a = Some n"
    by (auto simp: data_of_eq_None)
  with assms(1) have "ll_rep (h(a \<mapsto> ln_data_update f n)) l xs"
    by (auto simp: ll_rep_def dlseg_data_upd)
  moreover from n have "data_of (h(a \<mapsto> ln_data_update f n)) =
      (data_of h)(a := map_option f (data_of h a))"
    by (auto simp: data_of_def fun_eq_iff)
  ultimately show ?thesis
    using n assms(3) by (simp add: update_data_def)
qed

lemma ll_add_front_wp:
  assumes rep: "ll_rep h l xs" and a: "data_of h a \<noteq> None" "a \<notin> set xs"
    and Q: "\<And>l' h'. ll_rep h' l' (a # xs) \<Longrightarrow> data_of h' = data_of h \<Longrightarrow> Q (l', h')"
  shows "returns (ll_add_front l a h) Q"
proof (cases xs)
  case Nil
  with rep a show ?thesis
    by (auto simp: data_of_eq_None ll_add_front_def ll_rep_def Let_def intro!: Q)
next
  case (Cons y ys)
  with rep a show ?thesis
    by (auto simp: data_of_eq_None ll_add_front_def ll_rep_def Let_def intro!: Q)
qed

lemma ll_remove_last_empty:
  "ll_rep h l [] \<Longrightarrow> ll_remove_last l h = Inr (None, l, h)"
  by (simp add: ll_remove_last_def ll_rep_def)

lemma ll_remove_last_wp:
  assumes rep: "ll_rep h l (xs @ [a])"
    and Q: "\<And>l' h'. ll_rep h' l' xs \<Longrightarrow> data_of h' = data_of h \<Longrightarrow> Q (Some a, l', h')"
  shows "returns (ll_remove_last l h) Q"
proof (cases xs rule: rev_cases)
  case Nil
  with rep show ?thesis
    by (auto simp: ll_remove_last_def ll_rep_def Let_def intro!: Q)
next
  case (snoc ys y)
  with rep show ?thesis
    by (auto simp: ll_remove_last_def ll_rep_def Let_def intro!: Q)
qed

lemma ll_remove_first_wp:
  assumes rep: "ll_rep h l (a # xs)"
    and Q: "\<And>l' h'. ll_rep h' l' xs \<Longrightarrow> data_of h' = data_of h \<Longrightarrow> Q (Some a, l', h')"
  shows "returns (ll_remove_first l h) Q"
proof (cases xs)
  case Nil
  with rep show ?thesis
    by (auto simp: ll_remove_first_def ll_rep_def Let_def intro!: Q)
next
  case (Cons y ys)
  with rep show ?thesis
    by (auto simp: ll_remove_first_def ll_rep_def Let_def intro!: Q)
qed

lemma ll_remove_wp:
  assumes rep: "ll_rep h l xs" and a: "a \<in> set xs"
    and Q: "\<And>l' h'. ll_rep h' l' (remove1 a xs) \<Longrightarrow> data_of h' = data_of h \<Longrightarrow> Q (True, l', h')"
  shows "returns (ll_remove l a h) Q"
proof -
  from a obtain us vs where xs: "xs = us @ a # vs"
    by (auto dest: split_list)
  with rep have "a \<notin> set us" "a \<notin> set vs"
    by (auto dest: ll_rep_distinct)
  with xs have rem: "remove1 a xs = us @ vs"
    by (simp add: remove1_append)
  show ?thesis
  proof (cases us rule: rev_cases; cases vs)
    fix u us' v vs'
    assume "us = us' @ [u]" "vs = v # vs'"
    with rep xs rem show ?thesis
      by (auto simp: ll_remove_def ll_rep_def intro!: Q)
  next
    fix u us'
    assume "us = us' @ [u]" "vs = []"
    with rep xs rem show ?thesis
      by (auto simp: ll_remove_def ll_rep_def intro!: Q)
  next
    fix v vs'
    assume "us = []" "vs = v # vs'"
    with rep xs rem show ?thesis
      by (auto simp: ll_remove_def ll_rep_def intro!: Q)
  next
    assume "us = []" "vs = []"
    with rep xs rem show ?thesis
      by (auto simp: ll_remove_def ll_rep_def intro!: Q)
  qed
qed

text \<open>A node that is in no list is left alone, and \<open>remove\<close> says so.\<close>

lemma ll_remove_absent:
  assumes "ll_rep h l xs" "data_of h a = Some d" "a \<notin> set xs"
  shows "ll_remove l a h = Inr (False, l, h)"
proof -
  from assms(2) obtain n where "h a = Some n"
    by (auto simp: data_of_eq_Some)
  moreover from assms(3) have "first_or xs None \<noteq> Some a"
    by (cases xs) auto
  ultimately show ?thesis
    using assms by (auto simp: ll_remove_def ll_rep_def)
qed

section \<open>Draining\<close>

text \<open>What a drain does to the data: the callback runs once on every node, in the order \<open>xs\<close>.\<close>

fun drain_data ::
  "('a \<Rightarrow> 'c \<Rightarrow> 'a \<times> 'c) \<Rightarrow> addr list \<Rightarrow> (addr \<rightharpoonup> 'a) \<Rightarrow> 'c \<Rightarrow> (addr \<rightharpoonup> 'a) \<times> 'c" where
  "drain_data f [] D c = (D, c)"
| "drain_data f (x # xs) D c =
     (case f (the (D x)) c of (d, c') \<Rightarrow> drain_data f xs (D(x \<mapsto> d)) c')"

definition unlinked :: "'a store \<Rightarrow> addr set \<Rightarrow> bool" where
  "unlinked h A \<longleftrightarrow> (\<forall>a n. a \<in> A \<longrightarrow> h a = Some n \<longrightarrow> ln_prev n = None \<and> ln_next n = None)"

lemma ll_reverse_drain_loop_correct:
  "dlseg h None ys q \<Longrightarrow> distinct ys \<Longrightarrow>
   \<exists>h' c'. ll_reverse_drain_loop f (last_or ys None) h c = Some (Inr (h', c')) \<and>
     (data_of h', c') = drain_data f (rev ys) (data_of h) c \<and>
     unlinked h' (set ys) \<and> (\<forall>a. a \<notin> set ys \<longrightarrow> h' a = h a)"
proof (induction ys arbitrary: h c q rule: rev_induct)
  case Nil
  show ?case by (simp add: ll_reverse_drain_loop.simps unlinked_def)
next
  case (snoc y ys)
  from snoc.prems obtain n where
    n: "h y = Some n" "ln_prev n = last_or ys None" and seg: "dlseg h None ys (Some y)"
    and y: "y \<notin> set ys" "distinct ys"
    by auto
  obtain d c1 where fd: "f (ln_data n) c = (d, c1)"
    by (cases "f (ln_data n) c")
  let ?h = "h(y \<mapsto> \<lparr>ln_prev = None, ln_next = None, ln_data = d\<rparr>)"
  from seg y have "dlseg ?h None ys (Some y)" by simp
  from snoc.IH [OF this y(2), of c1] obtain h' c' where
    IH: "ll_reverse_drain_loop f (last_or ys None) ?h c1 = Some (Inr (h', c'))"
      "(data_of h', c') = drain_data f (rev ys) (data_of ?h) c1"
      "unlinked h' (set ys)" "\<forall>a. a \<notin> set ys \<longrightarrow> h' a = ?h a"
    by blast
  have "the (data_of h y) = ln_data n" using n by (simp add: data_of_def)
  with n fd IH y show ?case
    by (auto simp: ll_reverse_drain_loop.simps [of f "Some y"] unlinked_def)
qed

lemma ll_drain_loop_correct:
  "dlseg h p ys None \<Longrightarrow> distinct ys \<Longrightarrow>
   \<exists>h' c'. ll_drain_loop f (first_or ys None) h c = Some (Inr (h', c')) \<and>
     (data_of h', c') = drain_data f ys (data_of h) c \<and>
     unlinked h' (set ys) \<and> (\<forall>a. a \<notin> set ys \<longrightarrow> h' a = h a)"
proof (induction ys arbitrary: h c p)
  case Nil
  show ?case by (simp add: ll_drain_loop.simps unlinked_def)
next
  case (Cons y ys)
  from Cons.prems obtain n where
    n: "h y = Some n" "ln_next n = first_or ys None" and seg: "dlseg h (Some y) ys None"
    and y: "y \<notin> set ys" "distinct ys"
    by auto
  obtain d c1 where fd: "f (ln_data n) c = (d, c1)"
    by (cases "f (ln_data n) c")
  let ?h = "h(y \<mapsto> \<lparr>ln_prev = None, ln_next = None, ln_data = d\<rparr>)"
  from seg y have "dlseg ?h (Some y) ys None" by simp
  from Cons.IH [OF this y(2), of c1] obtain h' c' where
    IH: "ll_drain_loop f (first_or ys None) ?h c1 = Some (Inr (h', c'))"
      "(data_of h', c') = drain_data f ys (data_of ?h) c1"
      "unlinked h' (set ys)" "\<forall>a. a \<notin> set ys \<longrightarrow> h' a = ?h a"
    by blast
  have "the (data_of h y) = ln_data n" using n by (simp add: data_of_def)
  with n fd IH y show ?case
    by (auto simp: ll_drain_loop.simps [of f "Some y"] unlinked_def)
qed

lemma ll_rep_drained:
  assumes "ll_rep h l xs" "unlinked h' (set xs)" "\<forall>a. a \<notin> set xs \<longrightarrow> h' a = h a"
  shows "ll_rep h' (l\<lparr>ll_head := None, ll_tail := None\<rparr>) []"
proof -
  have "ln_prev n = None \<and> ln_next n = None" if "h' a = Some n" for a n
    using assms that by (cases "a \<in> set xs") (auto simp: ll_rep_def unlinked_def)
  then show ?thesis by (simp add: ll_rep_def)
qed

lemma ll_reverse_drain_wp:
  assumes rep: "ll_rep h l xs"
    and Q: "\<And>l' h' c'. ll_rep h' l' [] \<Longrightarrow>
      (data_of h', c') = drain_data f (rev xs) (data_of h) c \<Longrightarrow> Q (l', h', c')"
  shows "returns (ll_reverse_drain f l h c) Q"
proof -
  from rep have "dlseg h None xs None" "distinct xs" "ll_tail l = last_or xs None"
    by (auto simp: ll_rep_def)
  with ll_reverse_drain_loop_correct [of h xs None f c] show ?thesis
    by (auto simp: ll_reverse_drain_def intro!: Q ll_rep_drained [OF rep])
qed

lemma ll_drain_wp:
  assumes rep: "ll_rep h l xs"
    and Q: "\<And>l' h' c'. ll_rep h' l' [] \<Longrightarrow>
      (data_of h', c') = drain_data f xs (data_of h) c \<Longrightarrow> Q (l', h', c')"
  shows "returns (ll_drain f l h c) Q"
proof -
  from rep have "dlseg h None xs None" "distinct xs" "ll_head l = first_or xs None"
    by (auto simp: ll_rep_def)
  with ll_drain_loop_correct [of h None xs f c] show ?thesis
    by (auto simp: ll_drain_def intro!: Q ll_rep_drained [OF rep])
qed

text \<open>
  The callbacks of this library change the data of the node independently of the captured
  state, and append to that state (the wakers they wake).
\<close>

lemma drain_data_map:
  assumes f: "\<And>d c. f d c = (g d, c @ w d)" and "distinct xs" and "\<forall>x \<in> set xs. D x \<noteq> None"
  shows "drain_data f xs D c =
    (\<lambda>a. if a \<in> set xs then map_option g (D a) else D a, c @ concat (map (\<lambda>x. w (the (D x))) xs))"
  using assms(2,3)
proof (induction xs arbitrary: D c)
  case Nil
  show ?case by simp
next
  case (Cons x xs)
  then obtain d where d: "D x = Some d" by auto
  let ?D = "D(x \<mapsto> g d)"
  from Cons.prems have "x \<notin> set xs" "distinct xs" "\<forall>y \<in> set xs. ?D y \<noteq> None" by auto
  moreover have "map (\<lambda>y. w (the (?D y))) xs = map (\<lambda>y. w (the (D y))) xs"
    using calculation(1) by (intro map_cong) auto
  moreover have "(\<lambda>a. if a \<in> set xs then map_option g (?D a) else ?D a) =
      (\<lambda>a. if a \<in> set (x # xs) then map_option g (D a) else D a)"
    using calculation(1) d by (auto simp: fun_eq_iff)
  ultimately show ?case
    using Cons.IH [of ?D "c @ w d"] d by (simp add: f del: map_eq_conv fun_upd_apply)
qed

section \<open>The interface of a queue of waiters\<close>

text \<open>
  What mutex, event, semaphore and channels use of the list: the waiters are a list of nodes,
  youngest first, whose contents change only where an operation says so. The derived rules are
  the ways in which the primitives use the queue: a future enters it with its data set, a future
  leaves it and its data changes, the oldest waiter is taken out and notified, all waiters are
  taken out and notified, oldest first.
\<close>

locale wait_queue =
  fixes rep :: "'s \<Rightarrow> 'l \<Rightarrow> addr list \<Rightarrow> bool"
    and contents :: "'s \<Rightarrow> addr \<rightharpoonup> 'a"
    and update :: "addr \<Rightarrow> ('a \<Rightarrow> 'a) \<Rightarrow> 's \<Rightarrow> 's res"
    and add_front :: "'l \<Rightarrow> addr \<Rightarrow> 's \<Rightarrow> ('l \<times> 's) res"
    and remove_last :: "'l \<Rightarrow> 's \<Rightarrow> (addr option \<times> 'l \<times> 's) res"
    and remove :: "'l \<Rightarrow> addr \<Rightarrow> 's \<Rightarrow> (bool \<times> 'l \<times> 's) res"
    and reverse_drain ::
      "('a \<Rightarrow> 'c list \<Rightarrow> 'a \<times> 'c list) \<Rightarrow> 'l \<Rightarrow> 's \<Rightarrow> 'c list \<Rightarrow> ('l \<times> 's \<times> 'c list) res"
  assumes update_law: "rep h l xs \<Longrightarrow> contents h a \<noteq> None \<Longrightarrow>
      returns (update a f h)
        (\<lambda>h'. rep h' l xs \<and> contents h' = (contents h)(a := map_option f (contents h a)))"
    and add_front_law: "rep h l xs \<Longrightarrow> contents h a \<noteq> None \<Longrightarrow> a \<notin> set xs \<Longrightarrow>
      returns (add_front l a h) (\<lambda>(l', h'). rep h' l' (a # xs) \<and> contents h' = contents h)"
    and remove_last_law: "rep h l (xs @ [a]) \<Longrightarrow>
      returns (remove_last l h) (\<lambda>(r, l', h'). r = Some a \<and> rep h' l' xs \<and> contents h' = contents h)"
    and remove_law: "rep h l xs \<Longrightarrow> a \<in> set xs \<Longrightarrow>
      returns (remove l a h) (\<lambda>(r, l', h'). r \<and> rep h' l' (remove1 a xs) \<and> contents h' = contents h)"
    and reverse_drain_law: "rep h l xs \<Longrightarrow>
      returns (reverse_drain g l h c)
        (\<lambda>(l', h', c'). rep h' l' [] \<and> (contents h', c') = drain_data g (rev xs) (contents h) c)"
    and rep_distinct: "rep h l xs \<Longrightarrow> distinct xs"
    and rep_dom: "rep h l xs \<Longrightarrow> a \<in> set xs \<Longrightarrow> contents h a \<noteq> None"
begin

lemma enter_wp:
  assumes "rep h l xs" "contents h a = Some d" "a \<notin> set xs"
    and Q: "\<And>l' h'. rep h' l' (a # xs) \<Longrightarrow> contents h' = (contents h)(a \<mapsto> f d) \<Longrightarrow> Q (l', h')"
  shows "returns (update a f h) (\<lambda>h. returns (add_front l a h) Q)"
  by (rule returns_mono [OF update_law [OF assms(1)]], simp add: assms(2))
    (auto simp: assms(2,3) intro!: Q elim!: returns_mono [OF add_front_law])

lemma leave_wp:
  assumes "rep h l xs" "a \<in> set xs"
    and Q: "\<And>l' h'. rep h' l' (remove1 a xs) \<Longrightarrow> contents h' = contents h \<Longrightarrow> Q (True, l', h')"
  shows "returns (remove l a h) Q"
  by (rule returns_mono [OF remove_law [OF assms(1,2)]]) (auto intro!: Q)

lemma take_oldest_wp:
  assumes "rep h l (xs @ [a])" "contents h a = Some d"
    and Q: "\<And>l' h'. rep h' l' xs \<Longrightarrow> contents h' = (contents h)(a \<mapsto> f d) \<Longrightarrow> Q (Some a, l', h')"
  shows "returns (remove_last l h) (\<lambda>(r, l, h). returns (update (the r) f h) (\<lambda>h. Q (r, l, h)))"
  by (rule returns_mono [OF remove_last_law [OF assms(1)]])
    (auto simp: assms(2) intro!: Q elim!: returns_mono [OF update_law])

lemma take_all_wp:
  assumes rep: "rep h l xs" and g: "\<And>d c. g d c = (g' d, c @ w d)"
    and Q: "\<And>l' h'. rep h' l' [] \<Longrightarrow>
      contents h' = (\<lambda>a. if a \<in> set xs then map_option g' (contents h a) else contents h a) \<Longrightarrow>
      Q (l', h', c @ concat (map (\<lambda>x. w (the (contents h x))) (rev xs)))"
  shows "returns (reverse_drain g l h c) Q"
proof (rule returns_mono [OF reverse_drain_law [OF rep]])
  fix r assume r: "case r of (l', h', c') \<Rightarrow>
    rep h' l' [] \<and> (contents h', c') = drain_data g (rev xs) (contents h) c"
  have "drain_data g (rev xs) (contents h) c =
    (\<lambda>a. if a \<in> set (rev xs) then map_option g' (contents h a) else contents h a,
     c @ concat (map (\<lambda>x. w (the (contents h x))) (rev xs)))"
    using rep_distinct [OF rep] rep_dom [OF rep] by (intro drain_data_map) (auto simp: g)
  with r show "Q r" by (auto intro!: Q)
qed

end

interpretation lq: wait_queue ll_rep data_of update_data ll_add_front ll_remove_last ll_remove
  ll_reverse_drain
proof unfold_locales
  show "ll_rep h l xs \<Longrightarrow> data_of h a \<noteq> None \<Longrightarrow> returns (update_data a f h)
    (\<lambda>h'. ll_rep h' l xs \<and> data_of h' = (data_of h)(a := map_option f (data_of h a)))"
    for h l xs a f
    by (rule update_data_wp) auto
next
  show "ll_rep h l xs \<Longrightarrow> data_of h a \<noteq> None \<Longrightarrow> a \<notin> set xs \<Longrightarrow> returns (ll_add_front l a h)
    (\<lambda>(l', h'). ll_rep h' l' (a # xs) \<and> data_of h' = data_of h)" for h l xs a
    by (rule ll_add_front_wp) auto
next
  show "ll_rep h l (xs @ [a]) \<Longrightarrow> returns (ll_remove_last l h)
    (\<lambda>(r, l', h'). r = Some a \<and> ll_rep h' l' xs \<and> data_of h' = data_of h)" for h l xs a
    by (rule ll_remove_last_wp) auto
next
  show "ll_rep h l xs \<Longrightarrow> a \<in> set xs \<Longrightarrow> returns (ll_remove l a h)
    (\<lambda>(r, l', h'). r \<and> ll_rep h' l' (remove1 a xs) \<and> data_of h' = data_of h)" for h l xs a
    by (rule ll_remove_wp) auto
next
  show "ll_rep h l xs \<Longrightarrow> returns (ll_reverse_drain g l h c)
    (\<lambda>(l', h', c'). ll_rep h' l' [] \<and> (data_of h', c') = drain_data g (rev xs) (data_of h) c)"
    for h l xs g c
    by (rule ll_reverse_drain_wp) auto
next
  show "ll_rep h l xs \<Longrightarrow> a \<in> set xs \<Longrightarrow> data_of h a \<noteq> None" for h l xs a
    using ll_rep_dom [of h l xs a] by (auto simp: data_of_eq_Some)
qed (rule ll_rep_distinct)

text \<open>The definitions that evaluate a concrete list.\<close>

lemmas ll_eval =
  list_node_new_def ll_new_def read_data_def update_data_def ll_add_front_def ll_peek_first_def
  ll_peek_last_def ll_remove_first_def ll_remove_last_def ll_is_empty_def ll_remove_def
  ll_drain_def ll_reverse_drain_def ll_drain_loop.simps ll_reverse_drain_loop.simps Let_def

section \<open>Properties\<close>

text \<open>A list of the nodes 3, 2, 1 for the witnesses.\<close>

definition ll_demo_nodes :: "nat store" where
  "ll_demo_nodes =
     [3 \<mapsto> \<lparr>ln_prev = None, ln_next = Some 2, ln_data = 30\<rparr>,
      2 \<mapsto> \<lparr>ln_prev = Some 3, ln_next = Some 1, ln_data = 20\<rparr>,
      1 \<mapsto> \<lparr>ln_prev = Some 2, ln_next = None, ln_data = 10\<rparr>,
      7 \<mapsto> list_node_new 70]"

lemma ll_demo_rep: "ll_rep ll_demo_nodes \<lparr>ll_head = Some 3, ll_tail = Some 1\<rparr> [3, 2, 1]"
  by (auto simp: ll_rep_def ll_demo_nodes_def list_node_new_def)

text \<open>
  C: \<open>remove\<close> on a live node returns whether the node was in the list, takes exactly that node out
  (also at either end, or as the only node), keeps the order of the others and no node's data
  changes; in particular a node that is not in the list is recognised as such.
\<close>

theorem ll_remove_correct:
  assumes "ll_rep h l xs" "a \<in> dom h"
  shows "returns (ll_remove l a h) (\<lambda>(found, l', h').
    (found \<longleftrightarrow> a \<in> set xs) \<and> ll_rep h' l' (remove1 a xs) \<and> data_of h' = data_of h)"
proof (cases "a \<in> set xs")
  case True
  with assms(1) show ?thesis by (auto intro!: ll_remove_wp)
next
  case False
  from assms(2) obtain d where "data_of h a = Some d" by (auto simp: data_of_eq_Some)
  with assms(1) False show ?thesis by (simp add: ll_remove_absent remove1_idem)
qed

theorem ll_remove_correct_witness:
  "returns (ll_remove \<lparr>ll_head = Some 3, ll_tail = Some 1\<rparr> 2 ll_demo_nodes)
     (\<lambda>(found, l', h'). found \<and> ll_rep h' l' [3, 1])"
proof -
  have "2 \<in> dom ll_demo_nodes" by (simp add: ll_demo_nodes_def)
  from ll_remove_correct [OF ll_demo_rep this] show ?thesis
    by (auto elim!: returns_mono)
qed

text \<open>
  C36: draining ends, whatever the closure does to the data of a node: \<open>reverse_drain\<close> calls it once
  on every node from the oldest to the youngest, \<open>drain\<close> in the opposite order, both threading
  the captured state, and both leave the list empty and every node unlinked.
\<close>

theorem ll_drains_correct:
  assumes "ll_rep h l xs"
  shows "returns (ll_reverse_drain f l h c) (\<lambda>(l', h', c'). ll_rep h' l' [] \<and>
      (data_of h', c') = drain_data f (rev xs) (data_of h) c) \<and>
    returns (ll_drain f l h c) (\<lambda>(l', h', c'). ll_rep h' l' [] \<and>
      (data_of h', c') = drain_data f xs (data_of h) c)"
  using assms by (auto intro!: ll_reverse_drain_wp ll_drain_wp)

theorem ll_drains_correct_witness:
  "returns (ll_reverse_drain (\<lambda>d c. (d, c @ [d])) \<lparr>ll_head = Some 3, ll_tail = Some 1\<rparr> ll_demo_nodes [])
     (\<lambda>(l', h', c'). c' = [10, 20, 30])"
  using ll_drains_correct [OF ll_demo_rep, of "\<lambda>d c. (d, c @ [d])" "[]"]
  by (auto simp: ll_demo_nodes_def data_of_def elim!: returns_mono)

text \<open>
  The two ends. \<open>add_front\<close> of an unlinked node makes it the head, \<open>remove_first\<close> and
  \<open>remove_last\<close> take out the head and the tail, \<open>peek_first\<close> and \<open>peek_last\<close> see them, and
  \<open>is_empty\<close> tells whether there are any; added at the front and taken from the back, the nodes
  form a first-in, first-out queue.
\<close>

theorem ll_ends_correct:
  assumes rep: "ll_rep h l (x # xs)" and a: "a \<in> dom h - set (x # xs)"
  shows "returns (ll_add_front l a h) (\<lambda>(l', h'). ll_rep h' l' (a # x # xs) \<and> data_of h' = data_of h) \<and>
    returns (ll_remove_first l h) (\<lambda>(r, l', h'). r = Some x \<and> ll_rep h' l' xs \<and> data_of h' = data_of h) \<and>
    returns (ll_remove_last l h) (\<lambda>(r, l', h').
      r = Some (last (x # xs)) \<and> ll_rep h' l' (butlast (x # xs)) \<and> data_of h' = data_of h) \<and>
    ll_peek_first l = Some x \<and> ll_peek_last l = Some (last (x # xs)) \<and> ll_is_empty l = Inr False"
proof -
  from a have "data_of h a \<noteq> None" by (auto simp: data_of_eq_None)
  with rep a have "returns (ll_add_front l a h)
      (\<lambda>(l', h'). ll_rep h' l' (a # x # xs) \<and> data_of h' = data_of h)"
    by (intro ll_add_front_wp) auto
  moreover have "returns (ll_remove_first l h)
      (\<lambda>(r, l', h'). r = Some x \<and> ll_rep h' l' xs \<and> data_of h' = data_of h)"
    by (rule ll_remove_first_wp [OF rep]) simp
  moreover have "returns (ll_remove_last l h) (\<lambda>(r, l', h').
      r = Some (last (x # xs)) \<and> ll_rep h' l' (butlast (x # xs)) \<and> data_of h' = data_of h)"
    by (rule ll_remove_last_wp [where xs = "butlast (x # xs)"]) (use rep in \<open>auto simp: append_butlast_last_id\<close>)
  moreover have "last_or xs (Some x) = Some (last (x # xs))"
    by (simp add: last_or_def)
  ultimately show ?thesis using rep by simp
qed

theorem ll_ends_correct_witness:
  "returns (ll_remove_last \<lparr>ll_head = Some 3, ll_tail = Some 1\<rparr> ll_demo_nodes)
     (\<lambda>(r, l', h'). r = Some 1 \<and> ll_rep h' l' [3, 2])"
proof -
  have "7 \<in> dom ll_demo_nodes - set [3, 2, 1]" by (simp add: ll_demo_nodes_def)
  from ll_ends_correct [OF ll_demo_rep this] show ?thesis
    by (auto elim!: returns_mono)
qed

end
