(* ===== verification/Fair_Queue.thy ===== *)
theory Fair_Queue
  imports Prelude
begin

text \<open>
  Fairness of the primitives that serve their waiters in the order of arrival: the mutex and the
  semaphore in their fair variants. The locale \<open>fair_queue\<close> states what one call may do to the
  queue of waiters; from that follows, once for both, that nobody who arrives later can overtake
  a waiter: the number of grants it can see while it waits is bounded by its place in the queue.
\<close>

section \<open>Runs with their states\<close>

text \<open>The states after each action of a run, and how many of its steps satisfy \<open>g\<close>.\<close>

fun exec_trace :: "('a \<Rightarrow> 's \<Rightarrow> bool) \<Rightarrow> ('a \<Rightarrow> 's \<Rightarrow> 's res) \<Rightarrow> 'a list \<Rightarrow> 's \<Rightarrow> 's list option" where
  "exec_trace enabled exec [] s = Some []"
| "exec_trace enabled exec (a # as) s =
     (if enabled a s
      then (case exec a s of Inl _ \<Rightarrow> None
            | Inr t \<Rightarrow> map_option (\<lambda>ts. t # ts) (exec_trace enabled exec as t))
      else None)"

fun count_steps :: "('s \<Rightarrow> 's \<Rightarrow> bool) \<Rightarrow> 's list \<Rightarrow> nat" where
  "count_steps g [] = 0"
| "count_steps g [s] = 0"
| "count_steps g (s # t # ts) = (if g s t then 1 else 0) + count_steps g (t # ts)"

lemma exec_trace_exec_all:
  "exec_all enabled exec as s = map_option (\<lambda>ts. last (s # ts)) (exec_trace enabled exec as s)"
  by (induction as arbitrary: s) (auto split: sum.split simp: option.map_comp o_def)

lemma exec_trace_ConsE:
  assumes "exec_trace enabled exec (act # acts) s = Some ts"
  obtains t ts' where "enabled act s" "exec act s = Inr t" "exec_trace enabled exec acts t = Some ts'"
    "ts = t # ts'"
  using assms by (auto split: if_splits sum.splits)

lemma exec_trace_reach:
  assumes "exec_trace enabled exec acts s = Some ts" "reach init enabled exec s" "t \<in> set ts"
  shows "reach init enabled exec t"
  using assms
proof (induction acts arbitrary: s ts)
  case (Cons act acts)
  from Cons.prems(1) obtain s' ts' where step: "enabled act s" "exec act s = Inr s'"
    and rest: "exec_trace enabled exec acts s' = Some ts'" "ts = s' # ts'"
    by (rule exec_trace_ConsE)
  from reach_step [OF Cons.prems(2) step] Cons.IH [OF rest(1)] rest(2) Cons.prems(3) show ?case by auto
qed simp

section \<open>Places in a queue\<close>

text \<open>A queue has its youngest member first: \<open>older a xs\<close> is the number of members before \<open>a\<close>.\<close>

definition older :: "addr \<Rightarrow> addr list \<Rightarrow> nat" where
  "older a xs = length (takeWhile (\<lambda>b. b \<noteq> a) (rev xs))"

text \<open>One call adds a member as the youngest, takes out a member, or leaves the queue alone;
  while somebody is queued a grant takes out the oldest.\<close>

definition fifo_step :: "bool \<Rightarrow> addr list \<Rightarrow> addr list \<Rightarrow> bool" where
  "fifo_step granted xs ys \<longleftrightarrow>
     (ys = xs \<or> (\<exists>a. ys = a # xs) \<or> (\<exists>a. ys = remove1 a xs)) \<and>
     (granted \<and> xs \<noteq> [] \<longrightarrow> ys = butlast xs)"

lemma fifo_step_intros:
  "fifo_step False xs xs"
  "fifo_step granted [] []"
  "fifo_step False xs (a # xs)"
  "fifo_step False xs (remove1 a xs)"
  by (auto simp: fifo_step_def)

lemma fifo_step_oldest: "distinct xs \<Longrightarrow> xs \<noteq> [] \<Longrightarrow> fifo_step granted xs (remove1 (last xs) xs)"
  by (cases xs rule: rev_cases) (auto simp: fifo_step_def remove1_append)

lemma older_split: "a \<notin> set xs \<Longrightarrow> older a (ys @ a # xs) = length xs"
proof -
  assume "a \<notin> set xs"
  then have "takeWhile (\<lambda>b. b \<noteq> a) (rev xs @ [a] @ rev ys) = rev xs"
    by (subst takeWhile_append2) auto
  then show ?thesis by (simp add: older_def)
qed

lemma split_of_member:
  assumes "a \<in> set xs" "distinct xs"
  obtains ys zs where "xs = ys @ a # zs" "a \<notin> set ys" "a \<notin> set zs"
proof -
  from assms(1) obtain ys zs where "xs = ys @ a # zs" by (meson split_list)
  with assms(2) that show thesis by auto
qed

lemma older_fifo_step:
  assumes step: "fifo_step granted xs ys" and "distinct xs" "distinct ys"
    and "a \<in> set xs" "a \<in> set ys"
  shows "older a ys + (if granted then 1 else 0) \<le> older a xs"
proof -
  from assms(2,4) obtain us vs where xs: "xs = us @ a # vs" "a \<notin> set us" "a \<notin> set vs"
    by (elim split_of_member)
  show ?thesis
  proof (cases granted)
    case True
    with step xs have ys: "ys = butlast xs" by (auto simp: fifo_step_def)
    show ?thesis
    proof (cases vs rule: rev_cases)
      case Nil
      with ys xs assms(5) show ?thesis by (auto simp: butlast_append)
    next
      case (snoc ws w)
      with ys xs have "ys = us @ a # ws" by (simp add: butlast_append)
      with True snoc xs older_split [of a ws us] older_split [of a vs us] show ?thesis by simp
    qed
  next
    case False
    have "b \<noteq> a" if "ys = remove1 b xs" for b
      using that assms(2,5) by auto
    with step consider "ys = xs" | b where "ys = b # xs" | b where "ys = remove1 b xs" "b \<noteq> a"
      unfolding fifo_step_def by blast
    then show ?thesis
    proof cases
      case 2
      with assms(3,4) xs older_split [of a vs us] older_split [of a vs "b # us"] False
      show ?thesis by auto
    next
      case 3
      have "remove1 b xs = remove1 b us @ a # vs \<or> remove1 b xs = us @ a # remove1 b vs"
        using 3(2) by (auto simp: xs(1) remove1_append)
      moreover have "a \<notin> set (remove1 b vs)" using xs(3) by (auto dest: notin_set_remove1)
      ultimately show ?thesis
        using 3(1) xs older_split [of a vs us] older_split [of a vs "remove1 b us"]
          older_split [of a "remove1 b vs" us] False
        by (auto simp: length_remove1 simp del: length_greater_0_conv)
    qed (use False in simp)
  qed
qed

section \<open>The interface of a fair primitive\<close>

text \<open>
  The client of the interface sees a primitive as a transition system whose states have a queue
  (\<open>queue s xs\<close>) and some of whose steps grant what the futures wait for.
\<close>

locale fair_queue = transition_system init enabled exec inv
  for init :: "'s \<Rightarrow> bool" and enabled :: "'a \<Rightarrow> 's \<Rightarrow> bool" and exec :: "'a \<Rightarrow> 's \<Rightarrow> 's res"
    and inv :: "'s \<Rightarrow> bool" +
  fixes queue :: "'s \<Rightarrow> addr list \<Rightarrow> bool"
    and granted :: "'s \<Rightarrow> 's \<Rightarrow> bool"
  assumes queue_distinct: "inv s \<Longrightarrow> queue s xs \<Longrightarrow> distinct xs"
    and queue_unique: "queue s xs \<Longrightarrow> queue s ys \<Longrightarrow> xs = ys"
    and queue_step: "inv s \<Longrightarrow> enabled act s \<Longrightarrow> exec act s = Inr t \<Longrightarrow> queue s xs \<Longrightarrow>
      \<exists>ys. queue t ys \<and> fifo_step (granted s t) xs ys"
begin

text \<open>While a member stays in the queue every grant brings it one place forward.\<close>

lemma overtaking_trace:
  assumes "inv s" "queue s xs" "a \<in> set xs" "exec_trace enabled exec acts s = Some ts"
    and "\<And>t. t \<in> set ts \<Longrightarrow> \<exists>zs. queue t zs \<and> a \<in> set zs"
  shows "\<exists>ys. queue (last (s # ts)) ys \<and> a \<in> set ys \<and>
    older a ys + count_steps granted (s # ts) \<le> older a xs"
  using assms
proof (induction acts arbitrary: s xs ts)
  case (Cons act acts)
  from Cons.prems(4) obtain t ts' where step: "enabled act s" "exec act s = Inr t"
    and rest: "exec_trace enabled exec acts t = Some ts'" "ts = t # ts'"
    by (rule exec_trace_ConsE)
  from exec_inv [OF Cons.prems(1) step(1)] step(2) have inv: "inv t" by simp
  from queue_step [OF Cons.prems(1) step Cons.prems(2)] obtain ys where
    ys: "queue t ys" "fifo_step (granted s t) xs ys" by blast
  with Cons.prems(5) rest(2) have a: "a \<in> set ys" by (auto dest: queue_unique)
  from older_fifo_step [OF ys(2) queue_distinct [OF Cons.prems(1,2)] queue_distinct [OF inv ys(1)]
      Cons.prems(3) a]
  have "older a ys + (if granted s t then 1 else 0) \<le> older a xs" .
  moreover from Cons.IH [OF inv ys(1) a rest(1)] Cons.prems(5) rest(2) obtain us where
    "queue (last (t # ts')) us" "a \<in> set us" "older a us + count_steps granted (t # ts') \<le> older a ys"
    by auto
  ultimately show ?case using rest(2) by auto
qed auto

lemma bounded_overtaking:
  assumes "reach init enabled exec s" "queue s (ys @ a # xs)"
    and "exec_trace enabled exec acts s = Some ts"
    and "\<And>t. t \<in> set ts \<Longrightarrow> \<exists>zs. queue t zs \<and> a \<in> set zs"
  shows "count_steps granted (s # ts) \<le> length xs"
proof -
  from queue_distinct [OF reach_inv [OF assms(1)] assms(2)] have "a \<notin> set xs" by auto
  with overtaking_trace [OF reach_inv [OF assms(1)] assms(2) _ assms(3,4)] show ?thesis
    by (auto simp: older_split)
qed

end

end
