(* ===== verification/Mutex.thy ===== *)
theory Mutex
  imports Linked_List
begin

text \<open>
  The asynchronous mutex of \<^verbatim>\<open>src/sync/mutex.rs\<close>: \<open>MutexState\<close> with its queue of waiters, the
  lock future and the guard. The first half translates the code; \<open>mutex_spec\<close> is what the code
  promises, over the queue as a list and with no pointers; the refinement lemmas relate the two,
  and the invariant of the whole system (mutex, futures, guards) is proved over the
  specification.
\<close>

section \<open>Data\<close>

datatype mutex_poll_state = New | Waiting | Notified | Done

record mutex_waiter =
  mw_task :: "waker option"
  mw_state :: mutex_poll_state

definition mutex_waiter_new :: mutex_waiter where
  "mutex_waiter_new = \<lparr>mw_task = None, mw_state = New\<rparr>"

record mutex_state =
  mx_is_fair :: bool
  mx_is_locked :: bool
  mx_waiters :: linked_list

definition mutex_state_new :: "bool \<Rightarrow> mutex_state" where
  "mutex_state_new is_fair = \<lparr>mx_is_fair = is_fair, mx_is_locked = False, mx_waiters = ll_new\<rparr>"

text \<open>\<open>lf_mutex\<close> says whether the \<open>Option<&GenericMutex>\<close> of the future is \<open>Some\<close>; its wait node
  is the node of the store at \<open>lf_wait_node\<close>.\<close>

record mutex_lock_future =
  lf_mutex :: bool
  lf_wait_node :: addr

section \<open>MutexState\<close>

definition mutex_return_last_waiter ::
  "mutex_state \<Rightarrow> mutex_waiter store \<Rightarrow> (waker option \<times> mutex_state \<times> mutex_waiter store) res" where
  "mutex_return_last_waiter s h =
     and_then (if mx_is_fair s
               then Inr (ll_peek_last (mx_waiters s), mx_waiters s, h)
               else ll_remove_last (mx_waiters s) h) (\<lambda>(last_waiter, l, h).
     let s = s\<lparr>mx_waiters := l\<rparr> in
     case last_waiter of
       Some last_waiter \<Rightarrow>
         and_then (update_data last_waiter (mw_state_update (\<lambda>_. Notified)) h) (\<lambda>h.
         and_then (read_data h last_waiter) (\<lambda>e.
         and_then (update_data last_waiter (mw_task_update (\<lambda>_. None)) h) (\<lambda>h.
         Inr (mw_task e, s, h))))
     | None \<Rightarrow> Inr (None, s, h))"

definition mutex_unlock ::
  "mutex_state \<Rightarrow> mutex_waiter store \<Rightarrow> (waker option \<times> mutex_state \<times> mutex_waiter store) res" where
  "mutex_unlock s h =
     (if mx_is_locked s
      then mutex_return_last_waiter (s\<lparr>mx_is_locked := False\<rparr>) h
      else Inr (None, s, h))"

definition mutex_try_lock_sync :: "mutex_state \<Rightarrow> (bool \<times> mutex_state) res" where
  "mutex_try_lock_sync s =
     and_then (if mx_is_locked s then Inr False
               else if \<not> mx_is_fair s then Inr True
               else ll_is_empty (mx_waiters s)) (\<lambda>free.
     if free then Inr (True, s\<lparr>mx_is_locked := True\<rparr>) else Inr (False, s))"

definition mutex_force_remove_waiter ::
  "mutex_state \<Rightarrow> addr \<Rightarrow> mutex_waiter store \<Rightarrow> (mutex_state \<times> mutex_waiter store) res" where
  "mutex_force_remove_waiter s wait_node h =
     and_then (ll_remove (mx_waiters s) wait_node h) (\<lambda>(removed, l, h).
     if \<not> removed then Inl (Panic ''Future could not be removed from wait queue'')
     else Inr (s\<lparr>mx_waiters := l\<rparr>, h))"

text \<open>The two statements that put a node at the front of the queue with the caller's waker.\<close>

definition mutex_enqueue ::
  "mutex_state \<Rightarrow> addr \<Rightarrow> waker \<Rightarrow> mutex_waiter store \<Rightarrow>
   (unit poll \<times> mutex_state \<times> mutex_waiter store) res" where
  "mutex_enqueue s wait_node cx h =
     and_then (update_data wait_node (\<lambda>e. e\<lparr>mw_task := Some cx, mw_state := Waiting\<rparr>) h) (\<lambda>h.
     and_then (ll_add_front (mx_waiters s) wait_node h) (\<lambda>(l, h).
     Inr (Pending, s\<lparr>mx_waiters := l\<rparr>, h)))"

definition mutex_try_lock ::
  "mutex_state \<Rightarrow> addr \<Rightarrow> waker \<Rightarrow> mutex_waiter store \<Rightarrow>
   (unit poll \<times> mutex_state \<times> mutex_waiter store) res" where
  "mutex_try_lock s wait_node cx h =
     and_then (read_data h wait_node) (\<lambda>e.
     case mw_state e of
       New \<Rightarrow>
         and_then (mutex_try_lock_sync s) (\<lambda>(locked, s).
         if locked
         then and_then (update_data wait_node (mw_state_update (\<lambda>_. Done)) h) (\<lambda>h.
              Inr (Ready (), s, h))
         else mutex_enqueue s wait_node cx h)
     | Waiting \<Rightarrow>
         if mx_is_fair s
         then and_then (update_data wait_node (mw_task_update (\<lambda>t. update_waker_ref t cx)) h) (\<lambda>h.
              Inr (Pending, s, h))
         else if \<not> mx_is_locked s
         then and_then (update_data wait_node (mw_state_update (\<lambda>_. Done)) h) (\<lambda>h.
              and_then (mutex_force_remove_waiter (s\<lparr>mx_is_locked := True\<rparr>) wait_node h) (\<lambda>(s, h).
              Inr (Ready (), s, h)))
         else and_then (update_data wait_node (mw_task_update (\<lambda>t. update_waker_ref t cx)) h) (\<lambda>h.
              Inr (Pending, s, h))
     | Notified \<Rightarrow>
         if \<not> mx_is_locked s
         then and_then (if mx_is_fair s then mutex_force_remove_waiter s wait_node h
                        else Inr (s, h)) (\<lambda>(s, h).
              and_then (update_data wait_node (mw_state_update (\<lambda>_. Done)) h) (\<lambda>h.
              Inr (Ready (), s\<lparr>mx_is_locked := True\<rparr>, h)))
         else and_then (assert_that (\<not> mx_is_fair s) ''assertion failed: !self.is_fair'') (\<lambda>_.
              mutex_enqueue s wait_node cx h)
     | Done \<Rightarrow> Inl (Panic ''polled Mutex after completion''))"

definition mutex_remove_waiter ::
  "mutex_state \<Rightarrow> addr \<Rightarrow> mutex_waiter store \<Rightarrow>
   (waker option \<times> mutex_state \<times> mutex_waiter store) res" where
  "mutex_remove_waiter s wait_node h =
     and_then (read_data h wait_node) (\<lambda>e.
     case mw_state e of
       Notified \<Rightarrow>
         and_then (if mx_is_fair s then mutex_force_remove_waiter s wait_node h
                   else Inr (s, h)) (\<lambda>(s, h).
         and_then (update_data wait_node (mw_state_update (\<lambda>_. Done)) h) (\<lambda>h.
         mutex_return_last_waiter s h))
     | Waiting \<Rightarrow>
         and_then (mutex_force_remove_waiter s wait_node h) (\<lambda>(s, h).
         and_then (update_data wait_node (mw_state_update (\<lambda>_. Done)) h) (\<lambda>h.
         Inr (None, s, h)))
     | New \<Rightarrow> Inr (None, s, h)
     | Done \<Rightarrow> Inr (None, s, h))"

section \<open>GenericMutex, its future and its guard\<close>

definition mutex_lock :: "addr \<Rightarrow> mutex_lock_future \<times> mutex_waiter list_node" where
  "mutex_lock a = (\<lparr>lf_mutex = True, lf_wait_node = a\<rparr>, list_node_new mutex_waiter_new)"

definition mutex_lock_future_poll ::
  "mutex_lock_future \<Rightarrow> waker \<Rightarrow> mutex_state \<Rightarrow> mutex_waiter store \<Rightarrow>
   (unit poll \<times> mutex_lock_future \<times> mutex_state \<times> mutex_waiter store) res" where
  "mutex_lock_future_poll f cx s h =
     (if \<not> lf_mutex f then Inl (Panic ''polled GenericMutexLockFuture after completion'')
      else and_then (mutex_try_lock s (lf_wait_node f) cx h) (\<lambda>(poll_res, s, h).
           case poll_res of
             Pending \<Rightarrow> Inr (Pending, f, s, h)
           | Ready _ \<Rightarrow> Inr (Ready (), f\<lparr>lf_mutex := False\<rparr>, s, h)))"

definition mutex_lock_future_is_terminated :: "mutex_lock_future \<Rightarrow> bool" where
  "mutex_lock_future_is_terminated f \<longleftrightarrow> \<not> lf_mutex f"

definition mutex_lock_future_drop ::
  "mutex_lock_future \<Rightarrow> mutex_state \<Rightarrow> mutex_waiter store \<Rightarrow>
   (waker list \<times> mutex_state \<times> mutex_waiter store) res" where
  "mutex_lock_future_drop f s h =
     and_then (if lf_mutex f then mutex_remove_waiter s (lf_wait_node f) h
               else Inr (None, s, h)) (\<lambda>(waker, s, h).
     Inr (wake_opt waker, s, h))"

definition mutex_guard_drop ::
  "mutex_state \<Rightarrow> mutex_waiter store \<Rightarrow> (waker list \<times> mutex_state \<times> mutex_waiter store) res" where
  "mutex_guard_drop s h =
     and_then (mutex_unlock s h) (\<lambda>(waker, s, h). Inr (wake_opt waker, s, h))"

text \<open>\<open>GenericMutex::try_lock\<close>: whether a guard is returned.\<close>

definition mutex_try_lock_api :: "mutex_state \<Rightarrow> (bool \<times> mutex_state) res" where
  "mutex_try_lock_api s = mutex_try_lock_sync s"

section \<open>The specification\<close>

text \<open>
  The mutex as its documentation describes it: a lock flag, a queue of waiting futures (youngest
  first) and what each future knows.
\<close>

record mutex_spec =
  sp_fair :: bool
  sp_locked :: bool
  sp_queue :: "addr list"
  sp_entries :: "addr \<rightharpoonup> mutex_waiter"

definition spec_notify_oldest :: "mutex_spec \<Rightarrow> waker option \<times> mutex_spec" where
  "spec_notify_oldest S =
     (if sp_queue S = [] then (None, S)
      else let a = last (sp_queue S); e = the (sp_entries S a)
           in (mw_task e,
               S\<lparr>sp_queue := (if sp_fair S then sp_queue S else butlast (sp_queue S)),
                 sp_entries := (sp_entries S)(a \<mapsto> e\<lparr>mw_state := Notified, mw_task := None\<rparr>)\<rparr>))"

definition spec_unlock :: "mutex_spec \<Rightarrow> waker option \<times> mutex_spec" where
  "spec_unlock S =
     (if sp_locked S then spec_notify_oldest (S\<lparr>sp_locked := False\<rparr>) else (None, S))"

definition spec_try_lock_sync :: "mutex_spec \<Rightarrow> bool \<times> mutex_spec" where
  "spec_try_lock_sync S =
     (if \<not> sp_locked S \<and> (sp_fair S \<longrightarrow> sp_queue S = [])
      then (True, S\<lparr>sp_locked := True\<rparr>) else (False, S))"

text \<open>A future gets the lock: it leaves the queue, is complete, and the mutex is locked.\<close>

definition spec_acquire :: "addr \<Rightarrow> mutex_spec \<Rightarrow> mutex_spec" where
  "spec_acquire a S =
     S\<lparr>sp_locked := True, sp_queue := remove1 a (sp_queue S),
       sp_entries := (sp_entries S)(a \<mapsto> (the (sp_entries S a))\<lparr>mw_state := Done\<rparr>)\<rparr>"

text \<open>A future waits with the waker \<open>cx\<close>, as the youngest unless it is in the queue already.\<close>

definition spec_wait :: "addr \<Rightarrow> waker \<Rightarrow> mutex_spec \<Rightarrow> mutex_spec" where
  "spec_wait a cx S =
     S\<lparr>sp_queue := (if a \<in> set (sp_queue S) then sp_queue S else a # sp_queue S),
       sp_entries := (sp_entries S)(a \<mapsto> (the (sp_entries S a))\<lparr>mw_task := Some cx, mw_state := Waiting\<rparr>)\<rparr>"

text \<open>
  A poll gets the lock if it is free and either nobody is queued, or the mutex is not fair, or the
  future is the one that was notified; otherwise it waits.
\<close>

definition spec_poll :: "addr \<Rightarrow> waker \<Rightarrow> mutex_spec \<Rightarrow> unit poll \<times> mutex_spec" where
  "spec_poll a cx S =
     (if \<not> sp_locked S \<and>
         (sp_fair S \<longrightarrow> sp_queue S = [] \<or> mw_state (the (sp_entries S a)) = Notified)
      then (Ready (), spec_acquire a S) else (Pending, spec_wait a cx S))"

text \<open>A future that is dropped leaves the queue; if it was notified, the next one is.\<close>

definition spec_cancel :: "addr \<Rightarrow> mutex_spec \<Rightarrow> waker option \<times> mutex_spec" where
  "spec_cancel a S =
     (let e = the (sp_entries S a);
          S' = S\<lparr>sp_queue := remove1 a (sp_queue S),
                 sp_entries := (sp_entries S)(a \<mapsto> e\<lparr>mw_state := Done\<rparr>)\<rparr>
      in case mw_state e of
           Notified \<Rightarrow> spec_notify_oldest S'
         | Waiting \<Rightarrow> (None, S')
         | _ \<Rightarrow> (None, S))"

section \<open>The invariant\<close>

text \<open>
  A future is queued exactly while it waits (and, in a fair mutex, while it is notified), and one
  that waits has left its waker. In a fair mutex only the oldest waiter of a free mutex is
  notified. No wakeup is lost: whenever the mutex is free and futures wait, one of the futures
  was notified.
\<close>

definition spec_inv :: "mutex_spec \<Rightarrow> bool" where
  "spec_inv S \<longleftrightarrow>
     distinct (sp_queue S) \<and> set (sp_queue S) \<subseteq> dom (sp_entries S) \<and>
     (\<forall>a e. sp_entries S a = Some e \<longrightarrow>
        (a \<in> set (sp_queue S) \<longleftrightarrow> mw_state e = Waiting \<or> sp_fair S \<and> mw_state e = Notified) \<and>
        (mw_state e = Waiting \<longrightarrow> mw_task e \<noteq> None) \<and>
        (sp_fair S \<and> mw_state e = Notified \<longrightarrow> a = last (sp_queue S) \<and> \<not> sp_locked S)) \<and>
     (\<not> sp_locked S \<and> sp_queue S \<noteq> [] \<longrightarrow>
        (\<exists>a e. sp_entries S a = Some e \<and> mw_state e = Notified))"

definition mutex_abs :: "mutex_state \<Rightarrow> mutex_waiter store \<Rightarrow> mutex_spec \<Rightarrow> bool" where
  "mutex_abs s h S \<longleftrightarrow>
     ll_rep h (mx_waiters s) (sp_queue S) \<and> data_of h = sp_entries S \<and>
     mx_is_fair s = sp_fair S \<and> mx_is_locked s = sp_locked S"

section \<open>Refinement\<close>

lemma mutex_return_last_waiter_refines:
  assumes "mutex_abs s h S"
  shows "returns (mutex_return_last_waiter s h)
    (\<lambda>(w, s', h'). \<exists>S'. spec_notify_oldest S = (w, S') \<and> mutex_abs s' h' S')"
proof (cases "sp_queue S" rule: rev_cases)
  case Nil
  with assms show ?thesis
    by (auto simp: mutex_return_last_waiter_def spec_notify_oldest_def mutex_abs_def
        ll_remove_last_empty)
next
  case (snoc xs a)
  with assms obtain e where e: "sp_entries S a = Some e"
    using ll_rep_dom [of h "mx_waiters s" "xs @ [a]" a] by (auto simp: mutex_abs_def)
  with snoc assms show ?thesis
    by (auto simp: mutex_return_last_waiter_def spec_notify_oldest_def mutex_abs_def Let_def
        intro!: ll_remove_last_wp [where a = a and xs = xs] update_data_wp)
qed

lemma mutex_unlock_refines:
  assumes "mutex_abs s h S"
  shows "returns (mutex_unlock s h)
    (\<lambda>(w, s', h'). \<exists>S'. spec_unlock S = (w, S') \<and> mutex_abs s' h' S')"
proof -
  have "mutex_abs (s\<lparr>mx_is_locked := False\<rparr>) h (S\<lparr>sp_locked := False\<rparr>)"
    using assms by (simp add: mutex_abs_def)
  from mutex_return_last_waiter_refines [OF this] assms show ?thesis
    by (auto simp: mutex_unlock_def spec_unlock_def mutex_abs_def)
qed

lemma mutex_try_lock_sync_refines:
  assumes "mutex_abs s h S"
  shows "returns (mutex_try_lock_sync s)
    (\<lambda>(b, s'). \<exists>S'. spec_try_lock_sync S = (b, S') \<and> mutex_abs s' h S')"
  using assms by (auto simp: mutex_try_lock_sync_def spec_try_lock_sync_def mutex_abs_def)

lemma mutex_force_remove_waiter_wp:
  assumes "mutex_abs s h S" "a \<in> set (sp_queue S)"
    and "\<And>s' h'. mutex_abs s' h' (S\<lparr>sp_queue := remove1 a (sp_queue S)\<rparr>) \<Longrightarrow> Q (s', h')"
  shows "returns (mutex_force_remove_waiter s a h) Q"
  using assms
  by (auto simp: mutex_force_remove_waiter_def mutex_abs_def intro!: ll_remove_wp)

lemma mutex_update_wp:
  assumes "mutex_abs s h S" "sp_entries S a \<noteq> None"
    and "\<And>h'. mutex_abs s h' (S\<lparr>sp_entries := (sp_entries S)(a := map_option f (sp_entries S a))\<rparr>) \<Longrightarrow>
      Q h'"
  shows "returns (update_data a f h) Q"
  using assms by (auto simp: mutex_abs_def intro!: update_data_wp)

lemma mutex_enqueue_wp:
  assumes "mutex_abs s h S" "sp_entries S a = Some e" "a \<notin> set (sp_queue S)"
    and "\<And>s' h'. mutex_abs s' h' (spec_wait a cx S) \<Longrightarrow> Q (Pending, s', h')"
  shows "returns (mutex_enqueue s a cx h) Q"
  using assms
  by (auto simp: mutex_enqueue_def mutex_abs_def spec_wait_def
      intro!: update_data_wp ll_add_front_wp)

lemma mutex_read [simp]: "mutex_abs s h S \<Longrightarrow> sp_entries S a = Some e \<Longrightarrow> read_data h a = Inr e"
  by (simp add: mutex_abs_def)

text \<open>\<open>try_lock\<close> on a future that is not complete, and \<open>remove_waiter\<close>.\<close>

lemma mutex_try_lock_refines:
  assumes abs: "mutex_abs s h S" and inv: "spec_inv S"
    and e: "sp_entries S a = Some e" "mw_state e \<noteq> Done"
  shows "returns (mutex_try_lock s a cx h)
    (\<lambda>(r, s', h'). \<exists>S'. spec_poll a cx S = (r, S') \<and> mutex_abs s' h' S')"
proof (cases "mw_state e")
  case New
  with inv e have "a \<notin> set (sp_queue S)" by (auto simp: spec_inv_def)
  with New abs e show ?thesis
    by (auto simp: mutex_try_lock_def mutex_try_lock_sync_def mutex_enqueue_def mutex_abs_def
        spec_poll_def spec_acquire_def spec_wait_def remove1_idem
        intro!: ll_add_front_wp update_data_wp)
next
  case Waiting
  with inv e have "a \<in> set (sp_queue S)" by (auto simp: spec_inv_def)
  with Waiting abs e show ?thesis
    by (auto simp: mutex_try_lock_def mutex_force_remove_waiter_def mutex_abs_def
        spec_poll_def spec_acquire_def spec_wait_def
        intro!: ll_remove_wp update_data_wp)
next
  case Notified
  with inv e have q: "a \<in> set (sp_queue S) \<longleftrightarrow> sp_fair S" "sp_fair S \<Longrightarrow> \<not> sp_locked S"
    by (auto simp: spec_inv_def)
  with Notified abs e show ?thesis
    by (auto simp: mutex_try_lock_def mutex_force_remove_waiter_def mutex_enqueue_def mutex_abs_def
        spec_poll_def spec_acquire_def spec_wait_def remove1_idem
        intro!: ll_remove_wp ll_add_front_wp update_data_wp)
next
  case Done
  with e show ?thesis by simp
qed

lemma mutex_remove_waiter_refines:
  assumes abs: "mutex_abs s h S" and inv: "spec_inv S" and e: "sp_entries S a = Some e"
  shows "returns (mutex_remove_waiter s a h)
    (\<lambda>(w, s', h'). \<exists>S'. spec_cancel a S = (w, S') \<and> mutex_abs s' h' S')"
proof (cases "mw_state e")
  case Waiting
  with inv e have "a \<in> set (sp_queue S)" by (auto simp: spec_inv_def)
  with Waiting abs e show ?thesis
    by (auto simp: mutex_remove_waiter_def mutex_force_remove_waiter_def mutex_abs_def
        spec_cancel_def Let_def intro!: ll_remove_wp update_data_wp)
next
  case Notified
  let ?S = "S\<lparr>sp_queue := remove1 a (sp_queue S),
     sp_entries := (sp_entries S)(a \<mapsto> e\<lparr>mw_state := Done\<rparr>)\<rparr>"
  from Notified inv e have q: "a \<in> set (sp_queue S) \<longleftrightarrow> sp_fair S"
    by (auto simp: spec_inv_def)
  have "returns (and_then (if mx_is_fair s then mutex_force_remove_waiter s a h else Inr (s, h))
      (\<lambda>(s, h). and_then (update_data a (mw_state_update (\<lambda>_. Done)) h) (\<lambda>h. Inr (s, h))))
    (\<lambda>(s', h'). mutex_abs s' h' ?S)"
    using q abs e
    by (auto simp: mutex_force_remove_waiter_def mutex_abs_def remove1_idem
        intro!: ll_remove_wp update_data_wp)
  then show ?thesis
    using Notified abs e mutex_return_last_waiter_refines [where S = ?S]
    by (auto simp: mutex_remove_waiter_def spec_cancel_def Let_def split_def
        elim!: returns_mono)
qed (use abs e in \<open>auto simp: mutex_remove_waiter_def spec_cancel_def Let_def\<close>)

section \<open>The specification keeps its invariant\<close>

lemma spec_inv_entry:
  "spec_inv S \<Longrightarrow> sp_entries S a = Some e \<Longrightarrow>
   a \<in> set (sp_queue S) \<longleftrightarrow> mw_state e = Waiting \<or> sp_fair S \<and> mw_state e = Notified"
  by (simp add: spec_inv_def)

text \<open>The state in which the oldest waiter is to be notified: the invariant may lack that
  notification, and in a fair mutex nobody else is notified.\<close>

definition spec_inv_pending :: "mutex_spec \<Rightarrow> bool" where
  "spec_inv_pending S \<longleftrightarrow>
     distinct (sp_queue S) \<and> set (sp_queue S) \<subseteq> dom (sp_entries S) \<and>
     (\<forall>a e. sp_entries S a = Some e \<longrightarrow>
        (a \<in> set (sp_queue S) \<longleftrightarrow> mw_state e = Waiting) \<and>
        (mw_state e = Waiting \<longrightarrow> mw_task e \<noteq> None) \<and>
        (sp_fair S \<longrightarrow> mw_state e \<noteq> Notified \<and> \<not> sp_locked S))"

lemma spec_notify_oldest_inv:
  assumes "spec_inv_pending S"
  shows "spec_inv (snd (spec_notify_oldest S))"
proof (cases "sp_queue S" rule: rev_cases)
  case Nil
  with assms show ?thesis
    by (auto simp: spec_notify_oldest_def spec_inv_def spec_inv_pending_def)
next
  case (snoc xs a)
  with assms obtain e where "sp_entries S a = Some e" by (auto simp: spec_inv_pending_def)
  with assms snoc show ?thesis
    by (auto simp: spec_notify_oldest_def spec_inv_def spec_inv_pending_def Let_def
        split: if_splits)
qed

lemma spec_unlock_inv:
  assumes "spec_inv S"
  shows "spec_inv (snd (spec_unlock S))"
proof (cases "sp_locked S")
  case True
  with assms have "spec_inv_pending (S\<lparr>sp_locked := False\<rparr>)"
    by (auto simp: spec_inv_pending_def spec_inv_def)
  from spec_notify_oldest_inv [OF this] True show ?thesis
    by (simp add: spec_unlock_def)
qed (use assms in \<open>simp add: spec_unlock_def\<close>)

lemma spec_try_lock_sync_inv: "spec_inv S \<Longrightarrow> spec_inv (snd (spec_try_lock_sync S))"
  by (auto simp: spec_try_lock_sync_def spec_inv_def)

lemma spec_inv_notified:
  "spec_inv S \<Longrightarrow> sp_fair S \<Longrightarrow> sp_entries S a = Some e \<Longrightarrow> mw_state e = Notified \<Longrightarrow>
   a \<in> set (sp_queue S) \<and> a = last (sp_queue S) \<and> \<not> sp_locked S"
  by (simp add: spec_inv_def)

lemma spec_inv_wakeup:
  assumes "spec_inv S" "\<not> sp_locked S" "sp_queue S \<noteq> []"
    and e: "sp_entries S a = Some e" "mw_state e \<noteq> Notified"
  shows "\<exists>b e'. b \<noteq> a \<and> sp_entries S b = Some e' \<and> mw_state e' = Notified"
proof -
  from assms obtain b e' where b: "sp_entries S b = Some e'" "mw_state e' = Notified"
    by (auto simp: spec_inv_def)
  with e have "b \<noteq> a" by auto
  with b show ?thesis by blast
qed

lemma spec_poll_inv:
  assumes inv: "spec_inv S" and e: "sp_entries S a = Some e" "mw_state e \<noteq> Done"
  shows "spec_inv (snd (spec_poll a cx S))"
proof (cases "fst (spec_poll a cx S)")
  case (Ready u)
  then have free: "\<not> sp_locked S"
    and first: "sp_fair S \<Longrightarrow> sp_queue S = [] \<or> mw_state e = Notified"
    using e by (auto simp: spec_poll_def split: if_splits)
  have other: "mw_state e' \<noteq> Notified" if "sp_fair S" "sp_entries S b = Some e'" "b \<noteq> a" for b e'
    using spec_inv_notified [OF inv that(1,2)] spec_inv_notified [OF inv that(1) e(1)]
      first [OF that(1)] that(3) by auto
  from Ready have "snd (spec_poll a cx S) = spec_acquire a S"
    by (auto simp: spec_poll_def split: if_splits)
  with inv e other show ?thesis
    by (auto simp: spec_acquire_def spec_inv_def dest: set_remove1_subset [THEN subsetD])
next
  case Pending
  then have step: "snd (spec_poll a cx S) = spec_wait a cx S"
    and blocked: "sp_locked S \<or> sp_fair S \<and> sp_queue S \<noteq> [] \<and> mw_state e \<noteq> Notified"
    using e by (auto simp: spec_poll_def split: if_splits)
  have "\<exists>b e'. b \<noteq> a \<and> sp_entries S b = Some e' \<and> mw_state e' = Notified" if "\<not> sp_locked S"
    using spec_inv_wakeup [OF inv that _ e(1)] blocked that by auto
  with inv e blocked show ?thesis
    unfolding step by (auto simp: spec_wait_def spec_inv_def)
qed

lemma spec_cancel_inv:
  assumes inv: "spec_inv S" and e: "sp_entries S a = Some e"
  shows "spec_inv (snd (spec_cancel a S))"
proof (cases "mw_state e")
  case Notified
  have other: "mw_state e' \<noteq> Notified" "\<not> sp_locked S"
    if "sp_fair S" "sp_entries S b = Some e'" "b \<noteq> a" for b e'
    using spec_inv_notified [OF inv that(1,2)] spec_inv_notified [OF inv that(1) e Notified]
      that(3) by auto
  from Notified inv e other have "spec_inv_pending (S\<lparr>sp_queue := remove1 a (sp_queue S),
     sp_entries := (sp_entries S)(a \<mapsto> e\<lparr>mw_state := Done\<rparr>)\<rparr>)"
    by (auto simp: spec_inv_pending_def spec_inv_def)
  from spec_notify_oldest_inv [OF this] Notified e show ?thesis
    by (simp add: spec_cancel_def Let_def)
next
  case Waiting
  have "\<exists>b e'. b \<noteq> a \<and> sp_entries S b = Some e' \<and> mw_state e' = Notified"
    if "\<not> sp_locked S" "remove1 a (sp_queue S) \<noteq> []"
    using spec_inv_wakeup [OF inv that(1) _ e] that(2) Waiting by (cases "sp_queue S = []") auto
  moreover have "last (remove1 a (sp_queue S)) = b"
    if "sp_fair S" "sp_entries S b = Some e'" "mw_state e' = Notified" for b e'
  proof -
    from spec_inv_notified [OF inv that] have "b \<in> set (sp_queue S)" "b = last (sp_queue S)" by auto
    moreover from that(2,3) e Waiting have "b \<noteq> a" by auto
    ultimately show ?thesis by (metis last_remove1 empty_iff list.set(1))
  qed
  ultimately show ?thesis
    using inv e Waiting by (auto simp: spec_cancel_def Let_def spec_inv_def dest: notin_set_remove1)
qed (use inv e in \<open>auto simp: spec_cancel_def Let_def\<close>)

section \<open>The mutex with its futures and guards\<close>

text \<open>
  A mutex with the futures its clients hold, by the address of their wait node, the number of
  guards alive and the wakers woken so far. Dropping a future frees its node.
\<close>

record mutex_sys =
  ms_mutex :: mutex_state
  ms_nodes :: "mutex_waiter store"
  ms_futures :: "addr \<rightharpoonup> mutex_lock_future"
  ms_guards :: nat
  ms_woken :: "waker list"

datatype mutex_action =
    Mutex_Lock addr
  | Mutex_Poll addr waker
  | Mutex_Drop addr
  | Mutex_Try_Lock
  | Mutex_Unlock

definition mutex_sys_new :: "bool \<Rightarrow> mutex_sys" where
  "mutex_sys_new is_fair =
     \<lparr>ms_mutex = mutex_state_new is_fair, ms_nodes = Map.empty, ms_futures = Map.empty,
      ms_guards = 0, ms_woken = []\<rparr>"

text \<open>
  The contract of the API: a future is pinned where no other node lives, it is polled until it is
  ready and not afterwards, and only a guard that is alive is dropped.
\<close>

fun mutex_enabled :: "mutex_action \<Rightarrow> mutex_sys \<Rightarrow> bool" where
  "mutex_enabled (Mutex_Lock a) s = (ms_nodes s a = None)"
| "mutex_enabled (Mutex_Poll a cx) s =
     (case ms_futures s a of None \<Rightarrow> False | Some f \<Rightarrow> \<not> mutex_lock_future_is_terminated f)"
| "mutex_enabled (Mutex_Drop a) s = (ms_futures s a \<noteq> None)"
| "mutex_enabled Mutex_Try_Lock s = True"
| "mutex_enabled Mutex_Unlock s = (0 < ms_guards s)"

fun mutex_exec :: "mutex_action \<Rightarrow> mutex_sys \<Rightarrow> mutex_sys res" where
  "mutex_exec (Mutex_Lock a) s =
     (case mutex_lock a of (f, n) \<Rightarrow>
        Inr (s\<lparr>ms_nodes := (ms_nodes s)(a \<mapsto> n), ms_futures := (ms_futures s)(a \<mapsto> f)\<rparr>))"
| "mutex_exec (Mutex_Poll a cx) s =
     and_then (deref (ms_futures s) a) (\<lambda>f.
     and_then (mutex_lock_future_poll f cx (ms_mutex s) (ms_nodes s)) (\<lambda>(r, f, m, h).
     Inr (s\<lparr>ms_mutex := m, ms_nodes := h, ms_futures := (ms_futures s)(a \<mapsto> f),
            ms_guards := (if is_ready r then Suc (ms_guards s) else ms_guards s)\<rparr>)))"
| "mutex_exec (Mutex_Drop a) s =
     and_then (deref (ms_futures s) a) (\<lambda>f.
     and_then (mutex_lock_future_drop f (ms_mutex s) (ms_nodes s)) (\<lambda>(w, m, h).
     Inr (s\<lparr>ms_mutex := m, ms_nodes := h(a := None), ms_futures := (ms_futures s)(a := None),
            ms_woken := ms_woken s @ w\<rparr>)))"
| "mutex_exec Mutex_Try_Lock s =
     and_then (mutex_try_lock_api (ms_mutex s)) (\<lambda>(r, m).
     Inr (s\<lparr>ms_mutex := m, ms_guards := (if r then Suc (ms_guards s) else ms_guards s)\<rparr>))"
| "mutex_exec Mutex_Unlock s =
     and_then (mutex_guard_drop (ms_mutex s) (ms_nodes s)) (\<lambda>(w, m, h).
     Inr (s\<lparr>ms_mutex := m, ms_nodes := h, ms_guards := ms_guards s - 1,
            ms_woken := ms_woken s @ w\<rparr>))"

abbreviation mutex_reachable :: "bool \<Rightarrow> mutex_sys \<Rightarrow> bool" where
  "mutex_reachable is_fair \<equiv> reach (\<lambda>s. s = mutex_sys_new is_fair) mutex_enabled mutex_exec"

text \<open>
  The invariant: the mutex implements a specification state that satisfies \<open>spec_inv\<close>, the live
  nodes are those of the futures, a future has given up its mutex exactly when it is done, and
  there is one guard while the mutex is locked and none otherwise.
\<close>

definition spec_done :: "mutex_spec \<Rightarrow> (addr \<rightharpoonup> bool)" where
  "spec_done S = (\<lambda>a. map_option (\<lambda>e. mw_state e = Done) (sp_entries S a))"

definition futures_ok :: "mutex_spec \<Rightarrow> (addr \<rightharpoonup> mutex_lock_future) \<Rightarrow> bool" where
  "futures_ok S fs \<longleftrightarrow>
     (\<lambda>a. map_option (\<lambda>f. \<not> lf_mutex f) (fs a)) = spec_done S \<and>
     (\<forall>a f. fs a = Some f \<longrightarrow> lf_wait_node f = a)"

definition mutex_inv :: "bool \<Rightarrow> mutex_sys \<Rightarrow> bool" where
  "mutex_inv is_fair s \<longleftrightarrow>
     (\<exists>S. mutex_abs (ms_mutex s) (ms_nodes s) S \<and> spec_inv S \<and> sp_fair S = is_fair \<and>
        futures_ok S (ms_futures s) \<and> ms_guards s = (if sp_locked S then 1 else 0))"

lemma mutex_invI:
  "mutex_abs (ms_mutex s) (ms_nodes s) S \<Longrightarrow> spec_inv S \<Longrightarrow> sp_fair S = is_fair \<Longrightarrow>
   futures_ok S (ms_futures s) \<Longrightarrow> ms_guards s = (if sp_locked S then 1 else 0) \<Longrightarrow>
   mutex_inv is_fair s"
  by (auto simp: mutex_inv_def)

text \<open>How the operations of the specification change the flag and the completion of futures.\<close>

lemma spec_fair [simp]:
  "sp_fair (snd (spec_notify_oldest S)) = sp_fair S"
  "sp_fair (snd (spec_unlock S)) = sp_fair S"
  "sp_fair (snd (spec_try_lock_sync S)) = sp_fair S"
  "sp_fair (snd (spec_poll a cx S)) = sp_fair S"
  "sp_fair (snd (spec_cancel a S)) = sp_fair S"
  by (simp_all add: spec_notify_oldest_def spec_unlock_def spec_try_lock_sync_def spec_poll_def
      spec_acquire_def spec_wait_def spec_cancel_def Let_def split: mutex_poll_state.split)

lemma spec_locked [simp]:
  "sp_locked (snd (spec_notify_oldest S)) = sp_locked S"
  "sp_locked (snd (spec_unlock S)) = False"
  "sp_locked (snd (spec_try_lock_sync S)) = (sp_locked S \<or> fst (spec_try_lock_sync S))"
  "sp_locked (snd (spec_poll a cx S)) = (sp_locked S \<or> is_ready (fst (spec_poll a cx S)))"
  "sp_locked (snd (spec_cancel a S)) = sp_locked S"
  by (simp_all add: spec_notify_oldest_def spec_unlock_def spec_try_lock_sync_def spec_poll_def
      spec_acquire_def spec_wait_def spec_cancel_def Let_def split: mutex_poll_state.split)

lemma spec_done_notify:
  assumes "\<And>a. a \<in> set (sp_queue S) \<Longrightarrow> spec_done S a = Some False"
  shows "spec_done (snd (spec_notify_oldest S)) = spec_done S"
proof (cases "sp_queue S" rule: rev_cases)
  case (snoc xs a)
  with assms [of a] show ?thesis
    by (auto simp: spec_done_def spec_notify_oldest_def Let_def fun_eq_iff)
qed (simp add: spec_notify_oldest_def)

lemma spec_inv_queued: "spec_inv S \<Longrightarrow> a \<in> set (sp_queue S) \<Longrightarrow> spec_done S a = Some False"
  by (fastforce simp: spec_inv_def spec_done_def)

lemma futures_okD:
  assumes "futures_ok S fs" "fs a = Some f"
  shows "\<exists>e. sp_entries S a = Some e \<and> lf_wait_node f = a \<and> (lf_mutex f \<longleftrightarrow> mw_state e \<noteq> Done)"
proof -
  have "map_option (\<lambda>f. \<not> lf_mutex f) (fs a) = spec_done S a" "lf_wait_node f = a"
    using assms by (auto simp: futures_ok_def dest: fun_cong [of _ _ a])
  with assms(2) show ?thesis by (cases "sp_entries S a") (auto simp: spec_done_def)
qed

lemma lf_mutex_same [simp]: "lf_mutex f \<Longrightarrow> f\<lparr>lf_mutex := True\<rparr> = f"
  by (cases f) simp

lemma futures_ok_live:
  assumes "futures_ok S fs" "sp_entries S a = Some e" "mw_state e \<noteq> Done"
  shows "\<exists>f. fs a = Some f \<and> lf_mutex f"
proof -
  have "map_option (\<lambda>f. \<not> lf_mutex f) (fs a) = spec_done S a"
    using assms(1) by (auto simp: futures_ok_def dest: fun_cong [of _ _ a])
  with assms(2,3) show ?thesis by (auto simp: spec_done_def)
qed

lemma spec_done_poll:
  "spec_done S a = Some False \<Longrightarrow>
   spec_done (snd (spec_poll a cx S)) = (spec_done S)(a \<mapsto> is_ready (fst (spec_poll a cx S)))"
  by (auto simp: spec_done_def spec_poll_def spec_acquire_def spec_wait_def fun_eq_iff)

lemma futures_ok_poll:
  assumes "futures_ok S fs" "fs a = Some f" "lf_mutex f"
  shows "futures_ok (snd (spec_poll a cx S))
    (fs(a \<mapsto> f\<lparr>lf_mutex := \<not> is_ready (fst (spec_poll a cx S))\<rparr>))"
proof -
  have view: "spec_done S = (\<lambda>a. map_option (\<lambda>f. \<not> lf_mutex f) (fs a))"
    using assms(1) by (simp add: futures_ok_def)
  then have "spec_done S a = Some False" using assms(2,3) by simp
  from spec_done_poll [OF this] view assms show ?thesis
    by (auto simp: futures_ok_def fun_eq_iff)
qed

lemma spec_ready:
  "fst (spec_poll a cx S) = Ready u \<Longrightarrow> \<not> sp_locked S"
  "fst (spec_try_lock_sync S) \<Longrightarrow> \<not> sp_locked S"
  by (auto simp: spec_poll_def spec_try_lock_sync_def split: if_splits)

lemma mutex_lock_preserves:
  assumes "mutex_inv is_fair s" "ms_nodes s a = None"
  shows "returns (mutex_exec (Mutex_Lock a) s) (mutex_inv is_fair)"
proof -
  from assms(1) obtain S where S: "mutex_abs (ms_mutex s) (ms_nodes s) S" "spec_inv S"
    "sp_fair S = is_fair" "futures_ok S (ms_futures s)" "ms_guards s = (if sp_locked S then 1 else 0)"
    by (auto simp: mutex_inv_def)
  let ?S = "S\<lparr>sp_entries := (sp_entries S)(a \<mapsto> mutex_waiter_new)\<rparr>"
  from S(1) have "sp_entries S = data_of (ms_nodes s)" by (simp add: mutex_abs_def)
  with assms(2) have fresh: "sp_entries S a = None" by simp
  with S(2) have q: "a \<notin> set (sp_queue S)" by (auto simp: spec_inv_def)
  have "\<exists>b e'. b \<noteq> a \<and> sp_entries S b = Some e' \<and> mw_state e' = Notified"
    if "\<not> sp_locked S" "sp_queue S \<noteq> []"
  proof -
    from S(2) that obtain b e' where "sp_entries S b = Some e'" "mw_state e' = Notified"
      by (auto simp: spec_inv_def)
    then show ?thesis using fresh by (cases "b = a") auto
  qed
  moreover have "mutex_abs (ms_mutex s) ((ms_nodes s)(a \<mapsto> list_node_new mutex_waiter_new)) ?S"
    using S(1) assms(2) by (auto simp: mutex_abs_def list_node_new_def
        intro: ll_rep_alloc [unfolded list_node_new_def])
  moreover have "spec_inv ?S"
    using S(2) fresh q calculation(1) by (auto simp: spec_inv_def mutex_waiter_new_def)
  moreover have "futures_ok ?S ((ms_futures s)(a \<mapsto> \<lparr>lf_mutex = True, lf_wait_node = a\<rparr>))"
    using S(4) by (auto simp: futures_ok_def spec_done_def mutex_waiter_new_def fun_eq_iff)
  ultimately show ?thesis
    using S(3,5) by (auto simp: mutex_lock_def intro!: mutex_invI [where S = ?S])
qed

lemma mutex_poll_preserves:
  assumes "mutex_inv is_fair s" "ms_futures s a = Some f" "lf_mutex f"
  shows "returns (mutex_exec (Mutex_Poll a cx) s) (mutex_inv is_fair)"
proof -
  from assms(1) obtain S where S: "mutex_abs (ms_mutex s) (ms_nodes s) S" "spec_inv S"
    "sp_fair S = is_fair" "futures_ok S (ms_futures s)" "ms_guards s = (if sp_locked S then 1 else 0)"
    by (auto simp: mutex_inv_def)
  with futures_okD [OF S(4) assms(2)] assms(3) obtain e where
    e: "sp_entries S a = Some e" "mw_state e \<noteq> Done" "lf_wait_node f = a"
    by blast
  obtain r S' where poll: "spec_poll a cx S = (r, S')" by fastforce
  have "mutex_inv is_fair (s\<lparr>ms_mutex := m, ms_nodes := h,
      ms_futures := (ms_futures s)(a \<mapsto> f\<lparr>lf_mutex := \<not> is_ready r\<rparr>),
      ms_guards := (if is_ready r then Suc (ms_guards s) else ms_guards s)\<rparr>)"
    if "mutex_abs m h S'" for m h
    using that spec_poll_inv [OF S(2) e(1,2), of cx] futures_ok_poll [OF S(4) assms(2,3), of cx]
      spec_fair(4) [of a cx S] spec_locked(4) [of a cx S] spec_ready(1) [of a cx S] S(3,5)
    by (cases r) (auto simp: poll intro!: mutex_invI [where S = S'])
  then show ?thesis
    using mutex_try_lock_refines [OF S(1,2) e(1,2), of cx] assms(2,3) e(3)
    by (auto simp: mutex_lock_future_poll_def poll elim!: returns_mono split: poll.splits)
qed

lemma mutex_try_lock_preserves:
  assumes "mutex_inv is_fair s"
  shows "returns (mutex_exec Mutex_Try_Lock s) (mutex_inv is_fair)"
proof -
  from assms(1) obtain S where S: "mutex_abs (ms_mutex s) (ms_nodes s) S" "spec_inv S"
    "sp_fair S = is_fair" "futures_ok S (ms_futures s)" "ms_guards s = (if sp_locked S then 1 else 0)"
    by (auto simp: mutex_inv_def)
  obtain r S' where try_lock: "spec_try_lock_sync S = (r, S')" by fastforce
  have "futures_ok (snd (spec_try_lock_sync S)) (ms_futures s)"
    using S(4) by (simp add: spec_try_lock_sync_def futures_ok_def spec_done_def)
  then have "mutex_inv is_fair (s\<lparr>ms_mutex := m,
      ms_guards := (if r then Suc (ms_guards s) else ms_guards s)\<rparr>)"
    if "mutex_abs m (ms_nodes s) S'" for m
    using that spec_try_lock_sync_inv [OF S(2)] spec_fair(3) [of S] spec_locked(3) [of S]
      spec_ready(2) [of S] S(3,5)
    by (cases r) (auto simp: try_lock intro!: mutex_invI [where S = S'])
  then show ?thesis
    using mutex_try_lock_sync_refines [OF S(1)]
    by (auto simp: mutex_try_lock_api_def try_lock elim!: returns_mono)
qed

text \<open>The nodes and futures left when the future at \<open>a\<close> is gone.\<close>

definition spec_free :: "addr \<Rightarrow> mutex_spec \<Rightarrow> mutex_spec" where
  "spec_free a S = S\<lparr>sp_entries := (sp_entries S)(a := None)\<rparr>"

lemma spec_free_abs:
  "mutex_abs s h S \<Longrightarrow> a \<notin> set (sp_queue S) \<Longrightarrow> mutex_abs s (h(a := None)) (spec_free a S)"
  by (auto simp: mutex_abs_def spec_free_def intro: ll_rep_free)

lemma spec_free_inv:
  assumes inv: "spec_inv S" and e: "sp_entries S a = Some e" "mw_state e = Done \<or> mw_state e = New"
  shows "spec_inv (spec_free a S)"
proof -
  from e have "a \<notin> set (sp_queue S)" using spec_inv_entry [OF inv e(1)] by auto
  moreover have "\<exists>b e'. b \<noteq> a \<and> sp_entries S b = Some e' \<and> mw_state e' = Notified"
    if "\<not> sp_locked S" "sp_queue S \<noteq> []"
    using spec_inv_wakeup [OF inv that e(1)] e(2) by auto
  ultimately show ?thesis
    using inv e by (auto simp: spec_inv_def spec_free_def)
qed

text \<open>After \<open>remove_waiter\<close> the future is done or was never queued, so its node can be freed.\<close>

lemma spec_cancel_done:
  assumes "spec_inv S" "sp_entries S a = Some e"
  shows "\<exists>e'. sp_entries (snd (spec_cancel a S)) a = Some e' \<and> (mw_state e' = Done \<or> mw_state e' = New)"
proof -
  have "a \<noteq> last (remove1 a (sp_queue S))" if "remove1 a (sp_queue S) \<noteq> []"
    using assms(1) last_in_set [OF that] by (auto simp: spec_inv_def)
  then show ?thesis
    using assms(2)
    by (auto simp: spec_cancel_def Let_def spec_notify_oldest_def split: mutex_poll_state.split)
qed

lemma spec_done_cancel:
  assumes inv: "spec_inv S" and e: "sp_entries S a = Some e"
  shows "spec_done (spec_free a (snd (spec_cancel a S))) = (spec_done S)(a := None)"
proof (cases "mw_state e = Notified")
  case True
  let ?S = "S\<lparr>sp_queue := remove1 a (sp_queue S),
     sp_entries := (sp_entries S)(a \<mapsto> e\<lparr>mw_state := Done\<rparr>)\<rparr>"
  have "spec_done (snd (spec_notify_oldest ?S)) = spec_done ?S"
  proof (rule spec_done_notify)
    fix b assume "b \<in> set (sp_queue ?S)"
    with inv have "b \<noteq> a" "b \<in> set (sp_queue S)" by (auto simp: spec_inv_def)
    with spec_inv_queued [OF inv, of b] show "spec_done ?S b = Some False"
      by (simp add: spec_done_def)
  qed
  with True e show ?thesis
    by (auto simp: spec_cancel_def Let_def spec_free_def spec_done_def fun_eq_iff)
qed (use e in \<open>auto simp: spec_cancel_def Let_def spec_free_def spec_done_def fun_eq_iff
      split: mutex_poll_state.split\<close>)

lemma futures_ok_free: "futures_ok S fs \<Longrightarrow> spec_done S' = (spec_done S)(a := None) \<Longrightarrow>
   futures_ok S' (fs(a := None))"
  by (auto simp: futures_ok_def fun_eq_iff)

lemma spec_done_free: "spec_done (spec_free a S) = (spec_done S)(a := None)"
  by (auto simp: spec_done_def spec_free_def)

lemma mutex_drop_preserves:
  assumes "mutex_inv is_fair s" "ms_futures s a = Some f"
  shows "returns (mutex_exec (Mutex_Drop a) s) (mutex_inv is_fair)"
proof -
  from assms(1) obtain S where S: "mutex_abs (ms_mutex s) (ms_nodes s) S" "spec_inv S"
    "sp_fair S = is_fair" "futures_ok S (ms_futures s)" "ms_guards s = (if sp_locked S then 1 else 0)"
    by (auto simp: mutex_inv_def)
  from futures_okD [OF S(4) assms(2)] obtain e where
    e: "sp_entries S a = Some e" "lf_wait_node f = a" "lf_mutex f \<longleftrightarrow> mw_state e \<noteq> Done"
    by blast
  have free: "mutex_inv is_fair (s\<lparr>ms_mutex := m, ms_nodes := h(a := None),
      ms_futures := (ms_futures s)(a := None), ms_woken := ws\<rparr>)"
    if abs: "mutex_abs m h S'" and inv: "spec_inv S'" and e': "sp_entries S' a = Some e'"
      and fin: "mw_state e' = Done \<or> mw_state e' = New"
      and "spec_done (spec_free a S') = (spec_done S)(a := None)"
      and "sp_fair S' = sp_fair S" "sp_locked S' = sp_locked S" for m h S' e' ws
  proof -
    have "a \<notin> set (sp_queue S')" using spec_inv_entry [OF inv e'] fin by auto
    with that S(3,5) spec_free_inv [OF inv e' fin] spec_free_abs [OF abs]
      futures_ok_free [OF S(4)] show ?thesis
      by (auto simp: spec_free_def intro!: mutex_invI [where S = "spec_free a S'"])
  qed
  show ?thesis
  proof (cases "lf_mutex f")
    case False
    with free [OF S(1,2) e(1) _ spec_done_free, of "ms_woken s"] e assms(2) show ?thesis
      by (simp add: mutex_lock_future_drop_def)
  next
    case True
    from spec_cancel_done [OF S(2) e(1)] obtain e' where
      e': "sp_entries (snd (spec_cancel a S)) a = Some e'" "mw_state e' = Done \<or> mw_state e' = New"
      by blast
    have "mutex_inv is_fair (s\<lparr>ms_mutex := m, ms_nodes := h(a := None),
        ms_futures := (ms_futures s)(a := None), ms_woken := ws\<rparr>)"
      if "mutex_abs m h (snd (spec_cancel a S))" for m h ws
      using free [OF that spec_cancel_inv [OF S(2) e(1)] e' spec_done_cancel [OF S(2) e(1)]] by simp
    then show ?thesis
      using mutex_remove_waiter_refines [OF S(1,2) e(1)] True e(2) assms(2)
      by (auto simp: mutex_lock_future_drop_def elim!: returns_mono)
  qed
qed

lemma mutex_unlock_preserves:
  assumes "mutex_inv is_fair s" "0 < ms_guards s"
  shows "returns (mutex_exec Mutex_Unlock s) (mutex_inv is_fair)"
proof -
  from assms obtain S where S: "mutex_abs (ms_mutex s) (ms_nodes s) S" "spec_inv S"
    "sp_fair S = is_fair" "futures_ok S (ms_futures s)" "ms_guards s = 1" "sp_locked S"
    by (auto simp: mutex_inv_def split: if_splits)
  have "spec_done (snd (spec_unlock S)) = spec_done S"
    using spec_done_notify [of "S\<lparr>sp_locked := False\<rparr>"] spec_inv_queued [OF S(2)] S(6)
    by (simp add: spec_unlock_def spec_done_def)
  with S(4) have "futures_ok (snd (spec_unlock S)) (ms_futures s)" by (simp add: futures_ok_def)
  then have "mutex_inv is_fair (s\<lparr>ms_mutex := m, ms_nodes := h, ms_guards := ms_guards s - 1,
      ms_woken := ws\<rparr>)" if "mutex_abs m h (snd (spec_unlock S))" for m h ws
    using that spec_unlock_inv [OF S(2)] S(3,5) by (intro mutex_invI [OF _ _ _ _]) auto
  then show ?thesis
    using mutex_unlock_refines [OF S(1)] by (auto simp: mutex_guard_drop_def elim!: returns_mono)
qed

lemma mutex_sys_new_inv: "mutex_inv is_fair (mutex_sys_new is_fair)"
  by (rule mutex_invI [where S = "\<lparr>sp_fair = is_fair, sp_locked = False, sp_queue = [],
        sp_entries = Map.empty\<rparr>"])
    (auto simp: mutex_sys_new_def mutex_state_new_def mutex_abs_def ll_rep_new data_of_def
      spec_inv_def futures_ok_def spec_done_def)

interpretation mxs: transition_system "\<lambda>s. s = mutex_sys_new is_fair" mutex_enabled mutex_exec
  "mutex_inv is_fair" for is_fair
proof unfold_locales
  show "mutex_inv is_fair s" if "s = mutex_sys_new is_fair" for s
    using that by (simp add: mutex_sys_new_inv)
  show "returns (mutex_exec a s) (mutex_inv is_fair)" if "mutex_inv is_fair s" "mutex_enabled a s" for a s
    using that by (cases a) (auto split: option.splits
        simp: mutex_lock_future_is_terminated_def simp del: mutex_exec.simps
        intro: mutex_lock_preserves mutex_poll_preserves mutex_drop_preserves
          mutex_try_lock_preserves mutex_unlock_preserves)
qed

lemmas mutex_eval =
  mutex_sys_new_def mutex_state_new_def mutex_waiter_new_def mutex_lock_def
  mutex_lock_future_poll_def mutex_lock_future_is_terminated_def mutex_lock_future_drop_def
  mutex_guard_drop_def mutex_try_lock_api_def mutex_try_lock_def mutex_try_lock_sync_def
  mutex_enqueue_def mutex_unlock_def mutex_return_last_waiter_def mutex_remove_waiter_def
  mutex_force_remove_waiter_def

text \<open>
  A concrete run for the witnesses: the futures at 1, 2, 3 wait for a guard in this order, the
  guard is dropped and the future 1, which was notified, is dropped too.
\<close>

definition mutex_demo :: "bool \<Rightarrow> mutex_sys" where
  "mutex_demo is_fair = the (exec_all mutex_enabled mutex_exec
     [Mutex_Try_Lock, Mutex_Lock 1, Mutex_Poll 1 (Waker 1 0), Mutex_Lock 2,
      Mutex_Poll 2 (Waker 2 0), Mutex_Lock 3, Mutex_Poll 3 (Waker 3 0), Mutex_Unlock, Mutex_Drop 1]
     (mutex_sys_new is_fair))"

lemma mutex_demo_run:
  "exec_all mutex_enabled mutex_exec
     [Mutex_Try_Lock, Mutex_Lock 1, Mutex_Poll 1 (Waker 1 0), Mutex_Lock 2,
      Mutex_Poll 2 (Waker 2 0), Mutex_Lock 3, Mutex_Poll 3 (Waker 3 0), Mutex_Unlock, Mutex_Drop 1]
     (mutex_sys_new is_fair) = Some (mutex_demo is_fair)"
  by (cases is_fair) (simp_all add: mutex_demo_def mutex_eval ll_eval)

lemma mutex_demo_reach: "mutex_reachable is_fair (mutex_demo is_fair)"
  by (rule exec_all_reach [OF mutex_demo_run reach_init]) simp

lemma mutex_demo_eq:
  "mutex_demo True =
     \<lparr>ms_mutex = \<lparr>mx_is_fair = True, mx_is_locked = False,
        mx_waiters = \<lparr>ll_head = Some 3, ll_tail = Some 2\<rparr>\<rparr>,
      ms_nodes =
        [3 \<mapsto> \<lparr>ln_prev = None, ln_next = Some 2,
                ln_data = \<lparr>mw_task = Some (Waker 3 0), mw_state = Waiting\<rparr>\<rparr>,
         2 \<mapsto> \<lparr>ln_prev = Some 3, ln_next = None,
                ln_data = \<lparr>mw_task = None, mw_state = Notified\<rparr>\<rparr>],
      ms_futures = [2 \<mapsto> \<lparr>lf_mutex = True, lf_wait_node = 2\<rparr>,
                    3 \<mapsto> \<lparr>lf_mutex = True, lf_wait_node = 3\<rparr>],
      ms_guards = 0, ms_woken = [Waker 1 0, Waker 2 0]\<rparr>"
  by (simp add: mutex_demo_def mutex_eval ll_eval)

text \<open>One poll of the system, in terms of the specification.\<close>

lemma mutex_exec_poll:
  assumes S: "mutex_abs (ms_mutex s) (ms_nodes s) S" "spec_inv S" "futures_ok S (ms_futures s)"
    and f: "ms_futures s a = Some f" "lf_mutex f"
  shows "returns (mutex_exec (Mutex_Poll a cx) s) (\<lambda>t.
    mutex_abs (ms_mutex t) (ms_nodes t) (snd (spec_poll a cx S)) \<and>
    ms_guards t = (if is_ready (fst (spec_poll a cx S)) then Suc (ms_guards s) else ms_guards s))"
proof -
  from futures_okD [OF S(3) f(1)] f(2) obtain e where
    e: "sp_entries S a = Some e" "mw_state e \<noteq> Done" "lf_wait_node f = a"
    by blast
  from mutex_try_lock_refines [OF S(1,2) e(1,2), of cx] f e(3) show ?thesis
    by (auto simp: mutex_lock_future_poll_def elim!: returns_mono split: poll.splits)
qed

section \<open>Properties\<close>

text \<open>
  No call of the mutex API faults. In every state that clients can reach, every call they may
  make returns: no panic, no failed assertion, no access to a node that is no longer alive, no
  endless loop; this is the memory safety of the \<open>unsafe\<close> list code as the mutex uses it.
\<close>

theorem mutex_no_fault:
  assumes "mutex_reachable is_fair s" "mutex_enabled act s"
  shows "\<exists>t. mutex_exec act s = Inr t"
  using mxs.no_fault [OF assms] by blast

theorem mutex_no_fault_witness: "\<exists>t. mutex_exec (Mutex_Drop 3) (mutex_demo True) = Inr t"
  by (rule mutex_no_fault [OF mutex_demo_reach]) (simp add: mutex_demo_eq)

text \<open>
  Mutual exclusion. At most one guard is alive, and one is exactly while the mutex is locked.
\<close>

theorem mutex_mutual_exclusion:
  assumes "mutex_reachable is_fair s"
  shows "ms_guards s = (if mx_is_locked (ms_mutex s) then 1 else 0)"
  using mxs.reach_inv [OF assms] by (auto simp: mutex_inv_def mutex_abs_def)

theorem mutex_mutual_exclusion_witness: "ms_guards (mutex_demo True) = 0"
  using mutex_mutual_exclusion [OF mutex_demo_reach [of True]] by (simp add: mutex_demo_eq)

text \<open>
  C1: no wakeup is lost. If the mutex is free while a future waits, some future has been notified
  (its waker was taken and woken), and whatever waker it is polled with, it gets the lock.
  A notified future that is dropped instead passes its notification on, since the state that its
  drop leads to satisfies this again.
\<close>

theorem mutex_no_lost_wakeup:
  assumes reach: "mutex_reachable is_fair s"
    and free: "\<not> mx_is_locked (ms_mutex s)"
    and waits: "read_data (ms_nodes s) a = Inr e" "mw_state e = Waiting"
  shows "\<exists>b f e'. ms_futures s b = Some f \<and> lf_mutex f \<and> read_data (ms_nodes s) b = Inr e' \<and>
    mw_state e' = Notified \<and> returns (mutex_exec (Mutex_Poll b cx) s) (\<lambda>t. ms_guards t = 1)"
proof -
  from mxs.reach_inv [OF reach] obtain S where
    S: "mutex_abs (ms_mutex s) (ms_nodes s) S" "spec_inv S" "futures_ok S (ms_futures s)"
      "ms_guards s = (if sp_locked S then 1 else 0)"
    by (auto simp: mutex_inv_def)
  from S(1) free have "\<not> sp_locked S" by (simp add: mutex_abs_def)
  moreover from S(1) waits have "sp_entries S a = Some e"
    by (auto simp: mutex_abs_def read_data_eq_Inr)
  moreover from this spec_inv_entry [OF S(2)] waits(2) have "sp_queue S \<noteq> []" by fastforce
  ultimately obtain b e' where b: "sp_entries S b = Some e'" "mw_state e' = Notified"
    using spec_inv_wakeup [OF S(2)] waits(2) by (metis mutex_poll_state.distinct(7))
  with S(3) obtain f where f: "ms_futures s b = Some f" "lf_mutex f"
    using futures_ok_live [OF S(3) b(1)] by auto
  have "fst (spec_poll b cx S) = Ready ()"
    using \<open>\<not> sp_locked S\<close> b by (simp add: spec_poll_def)
  with mutex_exec_poll [OF S(1-3) f, of cx] S(4) \<open>\<not> sp_locked S\<close>
  have "returns (mutex_exec (Mutex_Poll b cx) s) (\<lambda>t. ms_guards t = 1)"
    by (elim returns_mono) simp
  with b f mutex_read [OF S(1) b(1)] show ?thesis by blast
qed

theorem mutex_no_lost_wakeup_witness:
  "\<exists>b f e'. ms_futures (mutex_demo True) b = Some f \<and> lf_mutex f \<and>
    read_data (ms_nodes (mutex_demo True)) b = Inr e' \<and> mw_state e' = Notified \<and>
    returns (mutex_exec (Mutex_Poll b (Waker 7 0)) (mutex_demo True)) (\<lambda>t. ms_guards t = 1)"
  by (rule mutex_no_lost_wakeup [OF mutex_demo_reach, where a = 3
        and e = "\<lparr>mw_task = Some (Waker 3 0), mw_state = Waiting\<rparr>"])
    (simp_all add: mutex_demo_eq ll_eval)

text \<open>
  A fair mutex is first in, first out. While futures are queued, the only call that can produce
  a guard is a poll of the oldest of them; neither \<open>try_lock\<close> nor a new or younger future can
  overtake it.
\<close>

theorem mutex_fair_fifo:
  assumes reach: "mutex_reachable True s" and enabled: "mutex_enabled act s"
    and queue: "ll_rep (ms_nodes s) (mx_waiters (ms_mutex s)) xs" "xs \<noteq> []"
    and step: "mutex_exec act s = Inr t" and acquired: "ms_guards s < ms_guards t"
  shows "\<exists>cx. act = Mutex_Poll (last xs) cx"
proof -
  from mxs.reach_inv [OF reach] obtain S where
    S: "mutex_abs (ms_mutex s) (ms_nodes s) S" "spec_inv S" "sp_fair S" "futures_ok S (ms_futures s)"
    by (auto simp: mutex_inv_def)
  with queue(1) have xs: "sp_queue S = xs" by (auto simp: mutex_abs_def intro: ll_rep_unique)
  show ?thesis
  proof (cases act)
    case (Mutex_Poll a cx)
    with enabled obtain f where f: "ms_futures s a = Some f" "lf_mutex f"
      by (auto simp: mutex_lock_future_is_terminated_def split: option.splits)
    from futures_okD [OF S(4) f(1)] obtain e where e: "sp_entries S a = Some e" by blast
    from mutex_exec_poll [OF S(1,2,4) f, of cx] step acquired Mutex_Poll
    have "is_ready (fst (spec_poll a cx S))"
      by (auto simp del: mutex_exec.simps split: if_splits)
    with S(3) xs queue(2) e have "mw_state e = Notified"
      by (auto simp: spec_poll_def split: if_splits)
    with spec_inv_notified [OF S(2,3) e] xs Mutex_Poll show ?thesis by auto
  next
    case Mutex_Try_Lock
    with mutex_try_lock_sync_refines [OF S(1)] step acquired S(3) xs queue(2) show ?thesis
      by (auto simp: mutex_try_lock_api_def spec_try_lock_sync_def and_then_eq_Inr split: if_splits)
  qed (use step acquired in \<open>auto simp: and_then_eq_Inr mutex_lock_def\<close>)
qed

theorem mutex_fair_fifo_witness:
  "\<exists>cx. Mutex_Poll 2 (Waker 7 0) = Mutex_Poll (last [3, 2]) cx"
proof -
  have "\<exists>t. mutex_exec (Mutex_Poll 2 (Waker 7 0)) (mutex_demo True) = Inr t \<and>
    ms_guards (mutex_demo True) < ms_guards t"
    by (simp add: mutex_demo_eq mutex_eval ll_eval)
  then obtain t where "mutex_exec (Mutex_Poll 2 (Waker 7 0)) (mutex_demo True) = Inr t"
    "ms_guards (mutex_demo True) < ms_guards t" by blast
  then show ?thesis
    by (intro mutex_fair_fifo [OF mutex_demo_reach _ _ _ \<open>mutex_exec _ _ = _\<close>])
      (auto simp: mutex_demo_eq mutex_eval ll_rep_def)
qed

text \<open>
  A lock future completes once. When a poll returns \<open>Ready\<close> the future is terminated, and any
  later poll of it panics, whatever the state of the mutex.
\<close>

theorem mutex_poll_after_completion:
  assumes "mutex_lock_future_poll f cx s h = Inr (Ready u, f', s', h')"
  shows "mutex_lock_future_is_terminated f' \<and>
    mutex_lock_future_poll f' cx' s'' h'' = Inl (Panic ''polled GenericMutexLockFuture after completion'')"
proof -
  from assms have "\<not> lf_mutex f'"
    by (auto simp: mutex_lock_future_poll_def and_then_eq_Inr unit_poll_cases
        split: if_splits poll.split_asm)
  then show ?thesis
    by (simp add: mutex_lock_future_is_terminated_def mutex_lock_future_poll_def)
qed

theorem mutex_poll_after_completion_witness:
  "mutex_lock_future_poll \<lparr>lf_mutex = False, lf_wait_node = 0\<rparr> (Waker 0 0) (mutex_state_new True) Map.empty =
     Inl (Panic ''polled GenericMutexLockFuture after completion'')"
proof -
  have "\<exists>u s h. mutex_lock_future_poll \<lparr>lf_mutex = True, lf_wait_node = 0\<rparr> (Waker 0 0)
      (mutex_state_new True) [0 \<mapsto> list_node_new mutex_waiter_new] =
    Inr (Ready u, \<lparr>lf_mutex = False, lf_wait_node = 0\<rparr>, s, h)"
    by (simp add: mutex_eval ll_eval)
  then show ?thesis using mutex_poll_after_completion by blast
qed

text \<open>
  C33: the pointer-level code implements the specification. On a queue without pointers,
  \<open>try_lock\<close>, \<open>remove_waiter\<close> (the drop of a future) and \<open>unlock\<close> have the results and the effects
  of \<open>spec_poll\<close>, \<open>spec_cancel\<close> and \<open>spec_unlock\<close>, wakers included.
\<close>

theorem mutex_refinement:
  assumes "mutex_abs s h S" "spec_inv S" "sp_entries S a = Some e" "mw_state e \<noteq> Done"
  shows "returns (mutex_try_lock s a cx h)
      (\<lambda>(r, s', h'). \<exists>S'. spec_poll a cx S = (r, S') \<and> mutex_abs s' h' S' \<and> spec_inv S') \<and>
    returns (mutex_remove_waiter s a h)
      (\<lambda>(w, s', h'). \<exists>S'. spec_cancel a S = (w, S') \<and> mutex_abs s' h' S' \<and> spec_inv S') \<and>
    returns (mutex_unlock s h)
      (\<lambda>(w, s', h'). \<exists>S'. spec_unlock S = (w, S') \<and> mutex_abs s' h' S' \<and> spec_inv S')"
  using mutex_try_lock_refines [OF assms, of cx] mutex_remove_waiter_refines [OF assms(1-3)]
    mutex_unlock_refines [OF assms(1)] spec_poll_inv [OF assms(2-4), of cx]
    spec_cancel_inv [OF assms(2,3)] spec_unlock_inv [OF assms(2)]
  by (auto elim!: returns_mono)

definition mutex_demo_spec :: mutex_spec where
  "mutex_demo_spec =
     \<lparr>sp_fair = True, sp_locked = False, sp_queue = [3, 2],
      sp_entries = [3 \<mapsto> \<lparr>mw_task = Some (Waker 3 0), mw_state = Waiting\<rparr>,
                    2 \<mapsto> \<lparr>mw_task = None, mw_state = Notified\<rparr>]\<rparr>"

theorem mutex_refinement_witness:
  "returns (mutex_try_lock (ms_mutex (mutex_demo True)) 3 (Waker 9 0) (ms_nodes (mutex_demo True)))
     (\<lambda>(r, s', h'). r = Pending)"
proof -
  have "mutex_abs (ms_mutex (mutex_demo True)) (ms_nodes (mutex_demo True)) mutex_demo_spec"
    by (auto simp: mutex_demo_eq mutex_demo_spec_def mutex_abs_def ll_rep_def)
  moreover have "spec_inv mutex_demo_spec"
    by (auto simp: mutex_demo_spec_def spec_inv_def, rule exI [of _ 2], simp)
  moreover have "sp_entries mutex_demo_spec 3 = Some \<lparr>mw_task = Some (Waker 3 0), mw_state = Waiting\<rparr>"
    by (simp add: mutex_demo_spec_def)
  ultimately have "returns (mutex_try_lock (ms_mutex (mutex_demo True)) 3 (Waker 9 0)
      (ms_nodes (mutex_demo True)))
    (\<lambda>(r, s', h'). \<exists>S'. spec_poll 3 (Waker 9 0) mutex_demo_spec = (r, S') \<and> mutex_abs s' h' S' \<and> spec_inv S')"
    using mutex_refinement by fastforce
  then show ?thesis
    by (elim returns_mono) (auto simp: spec_poll_def mutex_demo_spec_def)
qed

end
