(* ===== verification/Mutex_Fairness.thy ===== *)
theory Mutex_Fairness
  imports Mutex Fair_Queue
begin

text \<open>
  What the fair variant of the mutex promises beyond first in, first out: nobody starves. The
  mutex is an instance of the interface \<open>fair_queue\<close>.
\<close>

section \<open>The fair mutex as a fair queue\<close>

definition mutex_queue :: "mutex_sys \<Rightarrow> addr list \<Rightarrow> bool" where
  "mutex_queue s xs \<longleftrightarrow> ll_rep (ms_nodes s) (mx_waiters (ms_mutex s)) xs"

text \<open>A future waits from the poll that registers it until it gets the lock or is dropped.\<close>

definition mutex_waits :: "addr \<Rightarrow> mutex_sys \<Rightarrow> bool" where
  "mutex_waits a s \<longleftrightarrow>
     (case ms_nodes s a of None \<Rightarrow> False
      | Some n \<Rightarrow> mw_state (ln_data n) = Waiting \<or> mw_state (ln_data n) = Notified)"

definition mutex_granted :: "mutex_sys \<Rightarrow> mutex_sys \<Rightarrow> bool" where
  "mutex_granted s t \<longleftrightarrow> ms_guards s < ms_guards t"

lemma mutex_queue_abs:
  "mutex_abs (ms_mutex s) (ms_nodes s) S \<Longrightarrow> mutex_queue s xs \<longleftrightarrow> xs = sp_queue S"
  by (auto simp: mutex_queue_def mutex_abs_def intro: ll_rep_unique)

lemma mutex_waits_queue:
  assumes "mutex_abs (ms_mutex s) (ms_nodes s) S" "spec_inv S" "sp_fair S"
  shows "mutex_waits a s \<longleftrightarrow> a \<in> set (sp_queue S)"
proof -
  have data: "data_of (ms_nodes s) a = sp_entries S a" using assms(1) by (simp add: mutex_abs_def)
  show ?thesis
  proof (cases "ms_nodes s a")
    case None
    with data have "sp_entries S a = None" by (simp add: data_of_def)
    with assms(2) None show ?thesis by (auto simp: mutex_waits_def spec_inv_def)
  next
    case (Some n)
    with data have "sp_entries S a = Some (ln_data n)" by (simp add: data_of_def)
    with spec_inv_entry [OF assms(2) this] Some assms(3) show ?thesis by (auto simp: mutex_waits_def)
  qed
qed

text \<open>What each operation of the specification does to the queue.\<close>

lemma spec_poll_fifo:
  assumes inv: "spec_inv S" and fair: "sp_fair S" and e: "sp_entries S a = Some e"
  shows "fifo_step (is_ready (fst (spec_poll a cx S))) (sp_queue S) (sp_queue (snd (spec_poll a cx S)))"
proof (cases "fst (spec_poll a cx S)")
  case (Ready u)
  then have queue: "sp_queue (snd (spec_poll a cx S)) = remove1 a (sp_queue S)"
    and first: "sp_queue S = [] \<or> mw_state e = Notified"
    using fair e by (auto simp: spec_poll_def spec_acquire_def split: if_splits)
  from first show ?thesis
  proof
    assume "mw_state e = Notified"
    from spec_inv_notified [OF inv fair e this] have "sp_queue S \<noteq> []" "a = last (sp_queue S)" by auto
    moreover have "distinct (sp_queue S)" using inv by (simp add: spec_inv_def)
    ultimately show ?thesis by (metis queue fifo_step_oldest)
  qed (use queue in \<open>simp add: fifo_step_intros\<close>)
next
  case Pending
  then show ?thesis
    by (auto simp: spec_poll_def spec_wait_def fifo_step_intros split: if_splits)
qed

lemma spec_queue_fair:
  assumes "sp_fair S"
  shows "sp_queue (snd (spec_notify_oldest S)) = sp_queue S" "sp_queue (snd (spec_unlock S)) = sp_queue S"
  using assms by (auto simp: spec_unlock_def spec_notify_oldest_def Let_def)

lemma spec_cancel_fifo:
  assumes "sp_fair S"
  shows "fifo_step False (sp_queue S) (sp_queue (snd (spec_cancel a S)))"
  using assms
  by (cases "mw_state (the (sp_entries S a))")
    (simp_all add: spec_cancel_def Let_def fifo_step_intros spec_queue_fair)

lemma mutex_exec_drop_fifo:
  assumes S: "mutex_abs (ms_mutex s) (ms_nodes s) S" "spec_inv S" "sp_fair S" "futures_ok S (ms_futures s)"
    and f: "ms_futures s a = Some f" and step: "mutex_exec (Mutex_Drop a) s = Inr t"
  shows "\<exists>ys. mutex_queue t ys \<and> fifo_step (mutex_granted s t) (sp_queue S) ys"
proof -
  from futures_okD [OF S(4) f] obtain e where
    e: "sp_entries S a = Some e" "lf_wait_node f = a" "lf_mutex f \<longleftrightarrow> mw_state e \<noteq> Done" by blast
  obtain m h w where drop: "mutex_lock_future_drop f (ms_mutex s) (ms_nodes s) = Inr (w, m, h)"
    and t: "ms_mutex t = m" "ms_nodes t = h(a := None)" "ms_guards t = ms_guards s"
    using step f by (auto simp: and_then_eq_Inr)
  obtain S' where S': "mutex_abs m h S'" "fifo_step False (sp_queue S) (sp_queue S')" "a \<notin> set (sp_queue S')"
  proof (cases "lf_mutex f")
    case False
    with e spec_inv_entry [OF S(2) e(1)] drop S(1) show ?thesis
      by (intro that [of S]) (auto simp: mutex_lock_future_drop_def fifo_step_intros)
  next
    case True
    from spec_cancel_done [OF S(2) e(1)] obtain e' where
      "sp_entries (snd (spec_cancel a S)) a = Some e'" "mw_state e' = Done \<or> mw_state e' = New" by blast
    with spec_inv_entry [OF spec_cancel_inv [OF S(2) e(1)]]
    have "a \<notin> set (sp_queue (snd (spec_cancel a S)))" by auto
    with mutex_remove_waiter_refines [OF S(1,2) e(1)] spec_cancel_fifo [OF S(3)] True e(2) drop
    show ?thesis
      by (intro that [of "snd (spec_cancel a S)"])
        (auto simp: mutex_lock_future_drop_def and_then_eq_Inr)
  qed
  with t ll_rep_free [of h "mx_waiters m" "sp_queue S'" a] show ?thesis
    by (auto simp: mutex_queue_def mutex_granted_def mutex_abs_def)
qed

lemma mutex_exec_fifo:
  assumes S: "mutex_abs (ms_mutex s) (ms_nodes s) S" "spec_inv S" "sp_fair S" "futures_ok S (ms_futures s)"
    and enabled: "mutex_enabled act s" and step: "mutex_exec act s = Inr t"
  shows "\<exists>ys. mutex_queue t ys \<and> fifo_step (mutex_granted s t) (sp_queue S) ys"
proof -
  have same: "mutex_queue t (sp_queue S')" if "mutex_abs (ms_mutex t) h S'" "h = ms_nodes t" for h S'
    using that by (simp add: mutex_queue_def mutex_abs_def)
  show ?thesis
  proof (cases act)
    case (Mutex_Lock a)
    with step enabled S(1) show ?thesis
      by (intro exI [of _ "sp_queue S"])
        (auto simp: mutex_lock_def mutex_queue_def mutex_granted_def fifo_step_def mutex_abs_def
          list_node_new_def intro: ll_rep_alloc [unfolded list_node_new_def])
  next
    case (Mutex_Poll a cx)
    with enabled obtain f where f: "ms_futures s a = Some f" "lf_mutex f"
      by (auto simp: mutex_lock_future_is_terminated_def split: option.splits)
    from futures_okD [OF S(4) f(1)] obtain e where "sp_entries S a = Some e" by blast
    from spec_poll_fifo [OF S(2,3) this, of cx] mutex_exec_poll [OF S(1,2,4) f, of cx] step Mutex_Poll
    show ?thesis
      by (auto simp: same mutex_granted_def simp del: mutex_exec.simps split: if_splits
          intro!: exI [of _ "sp_queue (snd (spec_poll a cx S))"])
  next
    case (Mutex_Drop a)
    with enabled obtain f where "ms_futures s a = Some f" by auto
    from mutex_exec_drop_fifo [OF S this] step Mutex_Drop show ?thesis by blast
  next
    case Mutex_Try_Lock
    with mutex_try_lock_sync_refines [OF S(1)] step S(3) show ?thesis
      by (cases "sp_queue S = []")
        (auto simp: mutex_try_lock_api_def spec_try_lock_sync_def and_then_eq_Inr mutex_queue_def
          mutex_granted_def mutex_abs_def fifo_step_intros split: if_splits)
  next
    case Mutex_Unlock
    with step have "ms_guards t \<le> ms_guards s" by (auto simp: and_then_eq_Inr)
    moreover from mutex_unlock_refines [OF S(1)] step spec_queue_fair(2) [OF S(3)] Mutex_Unlock
    have "mutex_queue t (sp_queue S)"
      by (auto simp: mutex_guard_drop_def and_then_eq_Inr mutex_queue_def mutex_abs_def)
    ultimately show ?thesis by (auto simp: mutex_granted_def fifo_step_intros not_less)
  qed
qed

interpretation fair_mutex: fair_queue "\<lambda>s. s = mutex_sys_new True" mutex_enabled mutex_exec "mutex_inv True"
  mutex_queue mutex_granted
proof unfold_locales
  show "distinct xs" if "mutex_inv True s" "mutex_queue s xs" for s xs
    using that by (auto simp: mutex_inv_def mutex_queue_abs spec_inv_def)
  show "xs = ys" if "mutex_queue s xs" "mutex_queue s ys" for s xs ys
    using that by (auto simp: mutex_queue_def intro: ll_rep_unique)
  show "\<exists>ys. mutex_queue t ys \<and> fifo_step (mutex_granted s t) xs ys"
    if "mutex_inv True s" "mutex_enabled act s" "mutex_exec act s = Inr t" "mutex_queue s xs" for act s t xs
    using that mutex_exec_fifo by (auto simp: mutex_inv_def mutex_queue_abs)
qed

lemma mutex_waits_iff:
  assumes "mutex_inv True s"
  shows "mutex_waits a s \<longleftrightarrow> (\<exists>xs. mutex_queue s xs \<and> a \<in> set xs)"
  using assms by (auto simp: mutex_inv_def mutex_queue_abs mutex_waits_queue)

section \<open>Handing the lock over\<close>

lemma mutex_abs_unique: "mutex_abs m h S \<Longrightarrow> mutex_abs m h T \<Longrightarrow> S = T"
  by (cases S; cases T) (auto simp: mutex_abs_def intro: ll_rep_unique)

lemma mutex_inv_rep:
  assumes "mutex_inv True s" "mutex_abs (ms_mutex s) (ms_nodes s) S"
  shows "spec_inv S \<and> sp_fair S \<and> futures_ok S (ms_futures s) \<and> ms_guards s = (if sp_locked S then 1 else 0)"
proof -
  from assms(1) obtain T where T: "mutex_abs (ms_mutex s) (ms_nodes s) T" "spec_inv T" "sp_fair T"
    "futures_ok T (ms_futures s)" "ms_guards s = (if sp_locked T then 1 else 0)"
    by (auto simp: mutex_inv_def)
  from mutex_abs_unique [OF assms(2) T(1)] T show ?thesis by blast
qed

lemma mutex_unlock_round:
  assumes "mutex_inv True s" "ms_guards s = 1" "mutex_queue s xs"
  shows "returns (mutex_exec Mutex_Unlock s) (\<lambda>t. mutex_inv True t \<and> ms_guards t = 0 \<and> mutex_queue t xs)"
proof -
  from assms(1) obtain S where S: "mutex_abs (ms_mutex s) (ms_nodes s) S" "sp_fair S"
    by (auto simp: mutex_inv_def)
  with assms(3) have "sp_queue S = xs" by (simp add: mutex_queue_abs)
  with mutex_unlock_refines [OF S(1)] spec_queue_fair(2) [OF S(2)]
  have "returns (mutex_exec Mutex_Unlock s) (\<lambda>t. ms_guards t = 0 \<and> mutex_queue t xs)"
    using assms(2) by (auto simp: mutex_guard_drop_def mutex_queue_def mutex_abs_def elim!: returns_mono)
  with mutex_unlock_preserves [OF assms(1)] assms(2) show ?thesis by (auto simp: returns_iff)
qed

lemma mutex_poll_round:
  assumes "mutex_inv True s" "ms_guards s = 0" "mutex_queue s (xs @ [b])"
  shows "mutex_enabled (Mutex_Poll b cx) s \<and> returns (mutex_exec (Mutex_Poll b cx) s) (\<lambda>t.
    mutex_inv True t \<and> ms_guards t = 1 \<and> mutex_queue t xs \<and> \<not> mutex_waits b t)"
proof -
  from assms(1,2) obtain S where S: "mutex_abs (ms_mutex s) (ms_nodes s) S" "spec_inv S" "sp_fair S"
    "futures_ok S (ms_futures s)" and free: "\<not> sp_locked S"
    by (auto simp: mutex_inv_def split: if_splits)
  with assms(3) have queue: "sp_queue S = xs @ [b]" by (simp add: mutex_queue_abs)
  then obtain b' e where "sp_entries S b' = Some e" "mw_state e = Notified"
    using S(2) free by (auto simp: spec_inv_def)
  with spec_inv_notified [OF S(2,3)] queue have e: "sp_entries S b = Some e" "mw_state e = Notified" by auto
  with futures_ok_live [OF S(4) e(1)] obtain f where f: "ms_futures s b = Some f" "lf_mutex f" by auto
  have new: "b \<notin> set xs" "remove1 b (xs @ [b]) = xs"
    using S(2) queue by (simp_all add: spec_inv_def remove1_append)
  from e free have "spec_poll b cx S = (Ready (), spec_acquire b S)" by (simp add: spec_poll_def)
  with mutex_exec_poll [OF S(1,2,4) f, of cx] assms(2)
  have "returns (mutex_exec (Mutex_Poll b cx) s) (\<lambda>t.
      mutex_abs (ms_mutex t) (ms_nodes t) (spec_acquire b S) \<and> ms_guards t = 1)" by simp
  with mutex_poll_preserves [OF assms(1) f, of cx]
  have "returns (mutex_exec (Mutex_Poll b cx) s) (\<lambda>t. mutex_inv True t \<and>
      mutex_abs (ms_mutex t) (ms_nodes t) (spec_acquire b S) \<and> ms_guards t = 1)"
    by (auto simp: returns_iff)
  moreover have "mutex_queue t xs \<and> \<not> mutex_waits b t"
    if "mutex_inv True t" "mutex_abs (ms_mutex t) (ms_nodes t) (spec_acquire b S)" for t
    using mutex_waits_queue [OF that(2)] mutex_inv_rep [OF that] mutex_queue_abs [OF that(2)] queue new
    by (simp add: spec_acquire_def)
  ultimately show ?thesis
    using f by (auto simp: mutex_lock_future_is_terminated_def elim!: returns_mono)
qed

text \<open>The schedule in which the holder lets go and the oldest waiter is polled, over and over.\<close>

definition mutex_hand_over :: "(addr \<Rightarrow> waker) \<Rightarrow> addr list \<Rightarrow> mutex_action list" where
  "mutex_hand_over cx as = concat (map (\<lambda>a. [Mutex_Unlock, Mutex_Poll a (cx a)]) as)"

lemma mutex_hand_over_run:
  assumes "mutex_inv True s" "ms_guards s = 1" "mutex_queue s (ys @ rev as)"
  shows "\<exists>t. exec_all mutex_enabled mutex_exec (mutex_hand_over cx as) s = Some t \<and>
    mutex_inv True t \<and> ms_guards t = 1 \<and> mutex_queue t ys"
  using assms
proof (induction as arbitrary: s)
  case (Cons a as)
  then have "mutex_queue s ((ys @ rev as) @ [a])" by simp
  from mutex_unlock_round [OF Cons.prems(1,2) this] obtain s1 where
    s1: "mutex_exec Mutex_Unlock s = Inr s1" "mutex_inv True s1" "ms_guards s1 = 0"
      "mutex_queue s1 ((ys @ rev as) @ [a])" by (auto simp: returns_iff simp del: mutex_exec.simps)
  from mutex_poll_round [OF s1(2-4), of "cx a"] obtain s2 where
    s2: "mutex_enabled (Mutex_Poll a (cx a)) s1" "mutex_exec (Mutex_Poll a (cx a)) s1 = Inr s2"
      "mutex_inv True s2" "ms_guards s2 = 1" "mutex_queue s2 (ys @ rev as)"
    by (auto simp: returns_iff simp del: mutex_exec.simps mutex_enabled.simps)
  from Cons.IH [OF s2(3-5)] s1(1) s2(1,2) Cons.prems(2) show ?case
    by (simp add: mutex_hand_over_def del: mutex_exec.simps)
qed (simp add: mutex_hand_over_def)

section \<open>Properties\<close>

text \<open>
  C6: nobody starves at a fair mutex. Whatever the tasks do, in any run of calls during which the
  future at \<open>a\<close> keeps waiting, the lock is granted at most as many times as there were older
  waiters when the run began: later arrivals and \<open>try_lock\<close> never get it first, and dropping a
  future only brings the others forward.
\<close>

theorem mutex_fair_bounded_overtaking:
  assumes "mutex_reachable True s" "ll_rep (ms_nodes s) (mx_waiters (ms_mutex s)) (ys @ a # xs)"
    and "exec_trace mutex_enabled mutex_exec acts s = Some ts" "\<forall>t\<in>set ts. mutex_waits a t"
  shows "count_steps (\<lambda>s t. ms_guards s < ms_guards t) (s # ts) \<le> length xs"
proof -
  have "mutex_inv True t" if "t \<in> set ts" for t
    using exec_trace_reach [OF assms(3,1) that] by (rule mxs.reach_inv)
  with assms(4) have "\<exists>zs. mutex_queue t zs \<and> a \<in> set zs" if "t \<in> set ts" for t
    using that by (simp add: mutex_waits_iff)
  from fair_mutex.bounded_overtaking [OF assms(1) _ assms(3) this] assms(2) show ?thesis
    by (simp add: mutex_queue_def mutex_granted_def [abs_def])
qed

definition mutex_waiting_demo :: mutex_sys where
  "mutex_waiting_demo = the (exec_all mutex_enabled mutex_exec
     [Mutex_Try_Lock, Mutex_Lock 1, Mutex_Poll 1 (Waker 1 0), Mutex_Lock 2, Mutex_Poll 2 (Waker 2 0)]
     (mutex_sys_new True))"

lemma mutex_waiting_demo_reach: "mutex_reachable True mutex_waiting_demo"
proof -
  have "exec_all mutex_enabled mutex_exec
     [Mutex_Try_Lock, Mutex_Lock 1, Mutex_Poll 1 (Waker 1 0), Mutex_Lock 2, Mutex_Poll 2 (Waker 2 0)]
     (mutex_sys_new True) = Some mutex_waiting_demo"
    by (simp add: mutex_waiting_demo_def mutex_eval ll_eval)
  from exec_all_reach [OF this reach_init] show ?thesis by simp
qed

lemma mutex_waiting_demo_eq:
  "mutex_waiting_demo =
     \<lparr>ms_mutex = \<lparr>mx_is_fair = True, mx_is_locked = True,
        mx_waiters = \<lparr>ll_head = Some 2, ll_tail = Some 1\<rparr>\<rparr>,
      ms_nodes =
        [1 \<mapsto> \<lparr>ln_prev = Some 2, ln_next = None,
                ln_data = \<lparr>mw_task = Some (Waker 1 0), mw_state = Waiting\<rparr>\<rparr>,
         2 \<mapsto> \<lparr>ln_prev = None, ln_next = Some 1,
                ln_data = \<lparr>mw_task = Some (Waker 2 0), mw_state = Waiting\<rparr>\<rparr>],
      ms_futures = [1 \<mapsto> \<lparr>lf_mutex = True, lf_wait_node = 1\<rparr>,
                    2 \<mapsto> \<lparr>lf_mutex = True, lf_wait_node = 2\<rparr>],
      ms_guards = 1, ms_woken = []\<rparr>"
  by (simp add: mutex_waiting_demo_def mutex_eval ll_eval fun_upd_twist)

theorem mutex_fair_bounded_overtaking_witness:
  "count_steps (\<lambda>s t. ms_guards s < ms_guards t) (mutex_waiting_demo # the (exec_trace mutex_enabled mutex_exec
     [Mutex_Unlock, Mutex_Lock 3, Mutex_Try_Lock, Mutex_Poll 3 (Waker 3 0), Mutex_Poll 1 (Waker 1 0)]
     mutex_waiting_demo)) \<le> 1"
proof -
  let ?acts = "[Mutex_Unlock, Mutex_Lock 3, Mutex_Try_Lock, Mutex_Poll 3 (Waker 3 0), Mutex_Poll 1 (Waker 1 0)]"
  obtain ts where ts: "exec_trace mutex_enabled mutex_exec ?acts mutex_waiting_demo = Some ts"
    "\<forall>t\<in>set ts. mutex_waits 2 t"
    by (simp add: mutex_waiting_demo_eq mutex_eval ll_eval mutex_waits_def)
  have "ll_rep (ms_nodes mutex_waiting_demo) (mx_waiters (ms_mutex mutex_waiting_demo)) ([] @ 2 # [1])"
    by (auto simp: mutex_waiting_demo_eq ll_rep_def)
  from mutex_fair_bounded_overtaking [OF mutex_waiting_demo_reach this ts] ts(1) show ?thesis by simp
qed

text \<open>
  The waiters of a fair mutex are served. If the holder lets the lock go and the oldest waiter
  is polled, again and again, then every call returns and the future at \<open>a\<close> holds the lock after
  one round for each older waiter and one for itself; the younger ones stay queued as they were.
\<close>

theorem mutex_fair_served:
  assumes "mutex_reachable True s" "0 < ms_guards s"
    and "ll_rep (ms_nodes s) (mx_waiters (ms_mutex s)) (ys @ a # xs)"
  shows "\<exists>t. exec_all mutex_enabled mutex_exec (mutex_hand_over cx (rev xs @ [a])) s = Some t \<and>
    ms_guards t = 1 \<and> \<not> mutex_waits a t \<and> ll_rep (ms_nodes t) (mx_waiters (ms_mutex t)) ys"
proof -
  from mxs.reach_inv [OF assms(1)] have inv: "mutex_inv True s" .
  moreover from inv assms(2) have "ms_guards s = 1" by (auto simp: mutex_inv_def split: if_splits)
  moreover have queue: "mutex_queue s (ys @ rev (rev xs @ [a]))" using assms(3) by (simp add: mutex_queue_def)
  ultimately obtain t where t: "exec_all mutex_enabled mutex_exec (mutex_hand_over cx (rev xs @ [a])) s = Some t"
    "mutex_inv True t" "ms_guards t = 1" "mutex_queue t ys"
    using mutex_hand_over_run by blast
  have "a \<notin> set ys" using fair_mutex.queue_distinct [OF inv queue] by auto
  with t have "\<not> mutex_waits a t" by (auto simp: mutex_waits_iff dest: fair_mutex.queue_unique)
  with t show ?thesis by (auto simp: mutex_queue_def)
qed

theorem mutex_fair_served_witness:
  "\<exists>t. exec_all mutex_enabled mutex_exec (mutex_hand_over (\<lambda>a. Waker a 0) [1, 2]) mutex_waiting_demo = Some t \<and>
    ms_guards t = 1 \<and> \<not> mutex_waits 2 t \<and> ll_rep (ms_nodes t) (mx_waiters (ms_mutex t)) []"
proof -
  have "ll_rep (ms_nodes mutex_waiting_demo) (mx_waiters (ms_mutex mutex_waiting_demo)) ([] @ 2 # [1])"
    by (auto simp: mutex_waiting_demo_eq ll_rep_def)
  from mutex_fair_served [OF mutex_waiting_demo_reach _ this] show ?thesis
    by (simp add: mutex_waiting_demo_eq)
qed

end
