(* ===== verification/Mutex_Guard.thy ===== *)
theory Mutex_Guard
  imports Mutex
begin

text \<open>
  The value that \<open>GenericMutex\<close> of \<^verbatim>\<open>src/sync/mutex.rs\<close> protects, and the guards through which
  tasks read and write it. \<open>Deref\<close> and \<open>DerefMut\<close> of a guard dereference an \<open>UnsafeCell\<close> with no
  check of their own; that this is exclusive rests on the lock alone.
\<close>

section \<open>The value and its guards\<close>

record 'v generic_mutex =
  gm_value :: 'v
  gm_state :: mutex_state

definition generic_mutex_new :: "'v \<Rightarrow> bool \<Rightarrow> 'v generic_mutex" where
  "generic_mutex_new value is_fair = \<lparr>gm_value = value, gm_state = mutex_state_new is_fair\<rparr>"

definition mutex_is_locked :: "mutex_state \<Rightarrow> bool" where
  "mutex_is_locked s = mx_is_locked s"

definition generic_mutex_is_locked :: "'v generic_mutex \<Rightarrow> bool" where
  "generic_mutex_is_locked m = mutex_is_locked (gm_state m)"

definition mutex_guard_deref :: "'v generic_mutex \<Rightarrow> 'v" where
  "mutex_guard_deref m = gm_value m"

text \<open>A use of the mutable reference changes the value by some \<open>f\<close>.\<close>

definition mutex_guard_deref_mut :: "('v \<Rightarrow> 'v) \<Rightarrow> 'v generic_mutex \<Rightarrow> 'v generic_mutex" where
  "mutex_guard_deref_mut f m = m\<lparr>gm_value := f (gm_value m)\<rparr>"

section \<open>The system with the value\<close>

text \<open>
  The system of the mutex with the value, and for each guard alive, in the order in which they were
  handed out, what its owner knows of the value: what it read when it got the guard and what it
  wrote since.
\<close>

record 'v guard_sys =
  gs_sys :: mutex_sys
  gs_value :: 'v
  gs_known :: "'v list"

definition gs_mutex :: "'v guard_sys \<Rightarrow> 'v generic_mutex" where
  "gs_mutex s = \<lparr>gm_value = gs_value s, gm_state = ms_mutex (gs_sys s)\<rparr>"

datatype 'v guard_action =
    Gs_Call mutex_action
  | Gs_Write nat "'v \<Rightarrow> 'v"
  | Gs_Unlock nat

definition guard_sys_new :: "'v \<Rightarrow> bool \<Rightarrow> 'v guard_sys" where
  "guard_sys_new v is_fair =
     \<lparr>gs_sys = (mutex_sys_new is_fair)\<lparr>ms_mutex := gm_state (generic_mutex_new v is_fair)\<rparr>,
      gs_value = gm_value (generic_mutex_new v is_fair), gs_known = []\<rparr>"

fun guard_enabled :: "'v guard_action \<Rightarrow> 'v guard_sys \<Rightarrow> bool" where
  "guard_enabled (Gs_Call act) s = (act \<noteq> Mutex_Unlock \<and> mutex_enabled act (gs_sys s))"
| "guard_enabled (Gs_Write i f) s = (i < length (gs_known s))"
| "guard_enabled (Gs_Unlock i) s = (i < length (gs_known s))"

fun guard_exec :: "'v guard_action \<Rightarrow> 'v guard_sys \<Rightarrow> 'v guard_sys res" where
  "guard_exec (Gs_Call act) s =
     and_then (mutex_exec act (gs_sys s)) (\<lambda>t.
     Inr (s\<lparr>gs_sys := t,
            gs_known := gs_known s @
              (if ms_guards (gs_sys s) < ms_guards t then [mutex_guard_deref (gs_mutex s)] else [])\<rparr>))"
| "guard_exec (Gs_Write i f) s =
     (let m = mutex_guard_deref_mut f (gs_mutex s) in
      Inr (s\<lparr>gs_value := gm_value m, gs_known := (gs_known s)[i := f (gs_known s ! i)]\<rparr>))"
| "guard_exec (Gs_Unlock i) s =
     and_then (mutex_exec Mutex_Unlock (gs_sys s)) (\<lambda>t.
     Inr (s\<lparr>gs_sys := t, gs_known := take i (gs_known s) @ drop (Suc i) (gs_known s)\<rparr>))"

abbreviation guard_reachable :: "'v \<Rightarrow> bool \<Rightarrow> 'v guard_sys \<Rightarrow> bool" where
  "guard_reachable v is_fair \<equiv> reach (\<lambda>s. s = guard_sys_new v is_fair) guard_enabled guard_exec"

definition guard_inv :: "bool \<Rightarrow> 'v guard_sys \<Rightarrow> bool" where
  "guard_inv is_fair s \<longleftrightarrow> mutex_inv is_fair (gs_sys s) \<and> length (gs_known s) = ms_guards (gs_sys s) \<and>
     (\<forall>v\<in>set (gs_known s). v = gs_value s)"

lemma mutex_inv_guards:
  "mutex_inv is_fair s \<Longrightarrow> ms_guards s = (if mx_is_locked (ms_mutex s) then 1 else 0)"
  by (auto simp: mutex_inv_def mutex_abs_def)

lemma mutex_exec_guards:
  assumes "mutex_exec act s = Inr t" "act \<noteq> Mutex_Unlock"
  shows "ms_guards t = ms_guards s \<or> ms_guards t = Suc (ms_guards s)"
  using assms by (cases act) (auto simp: and_then_eq_Inr mutex_lock_def)

lemma guard_exec_preserves:
  assumes inv: "guard_inv is_fair s" and enabled: "guard_enabled act s"
  shows "returns (guard_exec act s) (guard_inv is_fair)"
proof -
  from inv have S: "mutex_inv is_fair (gs_sys s)" "length (gs_known s) = ms_guards (gs_sys s)"
    "\<forall>v\<in>set (gs_known s). v = gs_value s" by (simp_all add: guard_inv_def)
  from mutex_inv_guards [OF S(1)] have one: "ms_guards (gs_sys s) \<le> 1" by simp
  show ?thesis
  proof (cases act)
    case (Gs_Call a)
    with enabled mxs.exec_inv [OF S(1), of a] obtain t where t: "mutex_exec a (gs_sys s) = Inr t" "mutex_inv is_fair t"
      by (auto simp: returns_iff)
    with mutex_exec_guards [OF t(1)] enabled Gs_Call S(2,3) show ?thesis
      by (auto simp: guard_inv_def mutex_guard_deref_def gs_mutex_def)
  next
    case (Gs_Write i f)
    with enabled S(2) one have "i = 0" "length (gs_known s) = 1" by auto
    then obtain v where "gs_known s = [v]" by (auto simp: length_Suc_conv)
    with S Gs_Write \<open>i = 0\<close> show ?thesis
      by (simp add: guard_inv_def mutex_guard_deref_mut_def gs_mutex_def)
  next
    case (Gs_Unlock i)
    with enabled S(2) have g: "0 < ms_guards (gs_sys s)" by simp
    with mxs.exec_inv [OF S(1), of Mutex_Unlock] obtain t where
      t: "mutex_exec Mutex_Unlock (gs_sys s) = Inr t" "mutex_inv is_fair t"
      by (auto simp: returns_iff simp del: mutex_exec.simps)
    then have "ms_guards t = ms_guards (gs_sys s) - 1" by (auto simp: and_then_eq_Inr)
    with t Gs_Unlock enabled S(2,3) show ?thesis
      by (auto simp: guard_inv_def simp del: mutex_exec.simps dest: in_set_takeD in_set_dropD)
  qed
qed

interpretation gds: transition_system "\<lambda>s. s = guard_sys_new v is_fair" guard_enabled guard_exec
  "guard_inv is_fair" for v is_fair
proof unfold_locales
  show "guard_inv is_fair s" if "s = guard_sys_new v is_fair" for s
  proof -
    have "gs_sys s = mutex_sys_new is_fair" "gs_known s = []" "ms_guards (mutex_sys_new is_fair) = 0"
      using that by (simp_all add: guard_sys_new_def generic_mutex_new_def mutex_sys_new_def)
    with mutex_sys_new_inv show ?thesis by (simp add: guard_inv_def)
  qed
qed (rule guard_exec_preserves)

section \<open>Properties\<close>

text \<open>
  C10: access through a guard is exclusive. While a guard is alive the mutex is locked, it is the only
  guard, and the value is what the owner of the guard last read or wrote: whatever the other tasks
  do, nobody else changes it.
\<close>

theorem mutex_guard_exclusive:
  assumes "guard_reachable v is_fair s" "i < length (gs_known s)"
  shows "length (gs_known s) = 1 \<and> generic_mutex_is_locked (gs_mutex s) \<and>
    mutex_guard_deref (gs_mutex s) = gs_known s ! i"
proof -
  from gds.reach_inv [OF assms(1)] have S: "mutex_inv is_fair (gs_sys s)"
    "length (gs_known s) = ms_guards (gs_sys s)" "\<forall>v\<in>set (gs_known s). v = gs_value s"
    by (simp_all add: guard_inv_def)
  from mutex_inv_guards [OF S(1)] S(2) assms(2)
  have "length (gs_known s) = 1" "mx_is_locked (ms_mutex (gs_sys s))" by (auto split: if_splits)
  moreover have "gs_known s ! i = gs_value s" using S(3) assms(2) by simp
  ultimately show ?thesis
    by (simp add: generic_mutex_is_locked_def mutex_is_locked_def mutex_guard_deref_def gs_mutex_def)
qed

text \<open>Two tasks increment a counter, the second one after the first has let go.\<close>

abbreviation guard_demo_acts :: "nat guard_action list" where
  "guard_demo_acts \<equiv>
     [Gs_Call Mutex_Try_Lock, Gs_Write 0 Suc, Gs_Call (Mutex_Lock 1), Gs_Call (Mutex_Poll 1 (Waker 1 0)),
      Gs_Unlock 0, Gs_Call (Mutex_Poll 1 (Waker 1 0)), Gs_Write 0 Suc]"

theorem mutex_guard_exclusive_witness:
  "\<exists>s. exec_all guard_enabled guard_exec guard_demo_acts (guard_sys_new 0 True) = Some s \<and>
     mutex_guard_deref (gs_mutex s) = 2"
proof -
  have "\<exists>s. exec_all guard_enabled guard_exec guard_demo_acts (guard_sys_new 0 True) = Some s \<and> gs_known s = [2]"
    by (simp add: guard_sys_new_def generic_mutex_new_def mutex_guard_deref_def mutex_guard_deref_mut_def
        gs_mutex_def mutex_eval ll_eval)
  then obtain s where s: "exec_all guard_enabled guard_exec guard_demo_acts (guard_sys_new 0 True) = Some s"
    "gs_known s = [2]" by blast
  have "guard_reachable 0 True s" by (rule exec_all_reach [OF s(1) reach_init]) simp
  from mutex_guard_exclusive [OF this, of 0] s show ?thesis by simp
qed

end
