(* ===== verification/Manual_Reset_Event.thy ===== *)
theory Manual_Reset_Event
  imports Linked_List
begin

text \<open>
  The manual reset event of \<^verbatim>\<open>src/sync/manual_reset_event.rs\<close>: \<open>EventState\<close> with its queue of
  waiters and the future that waits for the event. The invariant is stated on the code's own
  state; the properties are those of the whole system of an event and its futures.
\<close>

section \<open>Data\<close>

datatype event_poll_state = Ev_New | Ev_Waiting | Ev_Done

record event_waiter =
  ew_task :: "waker option"
  ew_state :: event_poll_state

definition event_waiter_new :: event_waiter where
  "event_waiter_new = \<lparr>ew_task = None, ew_state = Ev_New\<rparr>"

record event_state =
  ev_is_set :: bool
  ev_waiters :: linked_list

definition event_state_new :: "bool \<Rightarrow> event_state" where
  "event_state_new is_set = \<lparr>ev_is_set = is_set, ev_waiters = ll_new\<rparr>"

text \<open>\<open>wf_event\<close> says whether the reference of the future to its event is \<open>Some\<close>.\<close>

record wait_future =
  wf_event :: bool
  wf_wait_node :: addr

section \<open>EventState\<close>

definition event_reset :: "event_state \<Rightarrow> event_state" where
  "event_reset s = s\<lparr>ev_is_set := False\<rparr>"

text \<open>The closure that \<open>set\<close> passes to \<open>reverse_drain\<close>; its captured state is the wakers woken.\<close>

definition event_wake_waiter :: "event_waiter \<Rightarrow> waker list \<Rightarrow> event_waiter \<times> waker list" where
  "event_wake_waiter waiter woken =
     (waiter\<lparr>ew_task := None, ew_state := Ev_Done\<rparr>, woken @ wake_opt (ew_task waiter))"

definition event_set ::
  "event_state \<Rightarrow> event_waiter store \<Rightarrow> (waker list \<times> event_state \<times> event_waiter store) res" where
  "event_set s h =
     (if \<not> ev_is_set s
      then and_then (ll_reverse_drain event_wake_waiter (ev_waiters s) h []) (\<lambda>(l, h, woken).
           Inr (woken, s\<lparr>ev_is_set := True, ev_waiters := l\<rparr>, h))
      else Inr ([], s, h))"

definition event_try_wait ::
  "event_state \<Rightarrow> addr \<Rightarrow> waker \<Rightarrow> event_waiter store \<Rightarrow>
   (unit poll \<times> event_state \<times> event_waiter store) res" where
  "event_try_wait s wait_node cx h =
     and_then (read_data h wait_node) (\<lambda>e.
     case ew_state e of
       Ev_New \<Rightarrow>
         if ev_is_set s
         then and_then (update_data wait_node (ew_state_update (\<lambda>_. Ev_Done)) h) (\<lambda>h.
              Inr (Ready (), s, h))
         else and_then (update_data wait_node (\<lambda>e. e\<lparr>ew_task := Some cx, ew_state := Ev_Waiting\<rparr>) h) (\<lambda>h.
              and_then (ll_add_front (ev_waiters s) wait_node h) (\<lambda>(l, h).
              Inr (Pending, s\<lparr>ev_waiters := l\<rparr>, h)))
     | Ev_Waiting \<Rightarrow>
         and_then (update_data wait_node (ew_task_update (\<lambda>t. update_waker_ref t cx)) h) (\<lambda>h.
         Inr (Pending, s, h))
     | Ev_Done \<Rightarrow> Inr (Ready (), s, h))"

definition event_remove_waiter ::
  "event_state \<Rightarrow> addr \<Rightarrow> event_waiter store \<Rightarrow> (event_state \<times> event_waiter store) res" where
  "event_remove_waiter s wait_node h =
     and_then (read_data h wait_node) (\<lambda>e.
     case ew_state e of
       Ev_Waiting \<Rightarrow>
         and_then (ll_remove (ev_waiters s) wait_node h) (\<lambda>(removed, l, h).
         if \<not> removed then Inl (Panic ''Future could not be removed from wait queue'')
         else and_then (update_data wait_node (ew_state_update (\<lambda>_. Ev_Done)) h) (\<lambda>h.
              Inr (s\<lparr>ev_waiters := l\<rparr>, h)))
     | _ \<Rightarrow> Inr (s, h))"

definition event_is_set :: "event_state \<Rightarrow> bool" where
  "event_is_set s = ev_is_set s"

section \<open>GenericManualResetEvent\<close>

text \<open>The public calls take the lock and forward to the state.\<close>

definition generic_event_new :: "bool \<Rightarrow> event_state" where
  "generic_event_new is_set = event_state_new is_set"

definition generic_event_set ::
  "event_state \<Rightarrow> event_waiter store \<Rightarrow> (waker list \<times> event_state \<times> event_waiter store) res" where
  "generic_event_set s h = event_set s h"

definition generic_event_reset :: "event_state \<Rightarrow> event_state" where
  "generic_event_reset s = event_reset s"

definition generic_event_is_set :: "event_state \<Rightarrow> bool" where
  "generic_event_is_set s = event_is_set s"

definition generic_event_try_wait ::
  "event_state \<Rightarrow> addr \<Rightarrow> waker \<Rightarrow> event_waiter store \<Rightarrow>
   (unit poll \<times> event_state \<times> event_waiter store) res" where
  "generic_event_try_wait s wait_node cx h = event_try_wait s wait_node cx h"

definition generic_event_remove_waiter ::
  "event_state \<Rightarrow> addr \<Rightarrow> event_waiter store \<Rightarrow> (event_state \<times> event_waiter store) res" where
  "generic_event_remove_waiter s wait_node h = event_remove_waiter s wait_node h"

lemma generic_event_simps [simp]:
  "generic_event_new is_set = event_state_new is_set"
  "generic_event_set s h = event_set s h"
  "generic_event_reset s = event_reset s"
  "generic_event_is_set s = ev_is_set s"
  "generic_event_try_wait s a cx h = event_try_wait s a cx h"
  "generic_event_remove_waiter s a h = event_remove_waiter s a h"
  by (simp_all add: generic_event_new_def generic_event_set_def generic_event_reset_def
      generic_event_is_set_def event_is_set_def generic_event_try_wait_def generic_event_remove_waiter_def)

section \<open>The future of \<open>wait\<close>\<close>

definition event_wait :: "addr \<Rightarrow> wait_future \<times> event_waiter list_node" where
  "event_wait a = (\<lparr>wf_event = True, wf_wait_node = a\<rparr>, list_node_new event_waiter_new)"

definition wait_future_poll ::
  "wait_future \<Rightarrow> waker \<Rightarrow> event_state \<Rightarrow> event_waiter store \<Rightarrow>
   (unit poll \<times> wait_future \<times> event_state \<times> event_waiter store) res" where
  "wait_future_poll f cx s h =
     (if \<not> wf_event f then Inl (Panic ''polled WaitForEventFuture after completion'')
      else and_then (generic_event_try_wait s (wf_wait_node f) cx h) (\<lambda>(poll_res, s, h).
           Inr (poll_res, (if is_ready poll_res then f\<lparr>wf_event := False\<rparr> else f), s, h)))"

definition wait_future_is_terminated :: "wait_future \<Rightarrow> bool" where
  "wait_future_is_terminated f \<longleftrightarrow> \<not> wf_event f"

definition wait_future_drop ::
  "wait_future \<Rightarrow> event_state \<Rightarrow> event_waiter store \<Rightarrow> (event_state \<times> event_waiter store) res" where
  "wait_future_drop f s h =
     (if wf_event f then generic_event_remove_waiter s (wf_wait_node f) h else Inr (s, h))"

section \<open>The event with its futures\<close>

record event_sys =
  es_event :: event_state
  es_nodes :: "event_waiter store"
  es_futures :: "addr \<rightharpoonup> wait_future"
  es_woken :: "waker list"

datatype event_action =
    Event_Wait addr
  | Event_Poll addr waker
  | Event_Drop addr
  | Event_Set
  | Event_Reset

definition event_sys_new :: "bool \<Rightarrow> event_sys" where
  "event_sys_new is_set =
     \<lparr>es_event = generic_event_new is_set, es_nodes = Map.empty, es_futures = Map.empty, es_woken = []\<rparr>"

fun event_enabled :: "event_action \<Rightarrow> event_sys \<Rightarrow> bool" where
  "event_enabled (Event_Wait a) s = (es_nodes s a = None)"
| "event_enabled (Event_Poll a cx) s =
     (case es_futures s a of None \<Rightarrow> False | Some f \<Rightarrow> \<not> wait_future_is_terminated f)"
| "event_enabled (Event_Drop a) s = (es_futures s a \<noteq> None)"
| "event_enabled Event_Set s = True"
| "event_enabled Event_Reset s = True"

fun event_exec :: "event_action \<Rightarrow> event_sys \<Rightarrow> event_sys res" where
  "event_exec (Event_Wait a) s =
     (case event_wait a of (f, n) \<Rightarrow>
        Inr (s\<lparr>es_nodes := (es_nodes s)(a \<mapsto> n), es_futures := (es_futures s)(a \<mapsto> f)\<rparr>))"
| "event_exec (Event_Poll a cx) s =
     and_then (deref (es_futures s) a) (\<lambda>f.
     and_then (wait_future_poll f cx (es_event s) (es_nodes s)) (\<lambda>(r, f, e, h).
     Inr (s\<lparr>es_event := e, es_nodes := h, es_futures := (es_futures s)(a \<mapsto> f)\<rparr>)))"
| "event_exec (Event_Drop a) s =
     and_then (deref (es_futures s) a) (\<lambda>f.
     and_then (wait_future_drop f (es_event s) (es_nodes s)) (\<lambda>(e, h).
     Inr (s\<lparr>es_event := e, es_nodes := h(a := None), es_futures := (es_futures s)(a := None)\<rparr>)))"
| "event_exec Event_Set s =
     and_then (generic_event_set (es_event s) (es_nodes s)) (\<lambda>(woken, e, h).
     Inr (s\<lparr>es_event := e, es_nodes := h, es_woken := es_woken s @ woken\<rparr>))"
| "event_exec Event_Reset s = Inr (s\<lparr>es_event := generic_event_reset (es_event s)\<rparr>)"

abbreviation event_reachable :: "bool \<Rightarrow> event_sys \<Rightarrow> bool" where
  "event_reachable is_set \<equiv> reach (\<lambda>s. s = event_sys_new is_set) event_enabled event_exec"

text \<open>
  A future is queued exactly while it waits, with its waker; nobody waits for an event that is
  set; the live nodes are those of the futures, and a future that has given up its event is done.
\<close>

definition event_waiters_ok :: "event_state \<Rightarrow> event_waiter store \<Rightarrow> addr list \<Rightarrow> bool" where
  "event_waiters_ok s h xs \<longleftrightarrow>
     ll_rep h (ev_waiters s) xs \<and> (ev_is_set s \<longrightarrow> xs = []) \<and>
     (\<forall>a e. data_of h a = Some e \<longrightarrow>
        (a \<in> set xs \<longleftrightarrow> ew_state e = Ev_Waiting) \<and> (ew_state e = Ev_Waiting \<longrightarrow> ew_task e \<noteq> None))"

definition event_futures_ok :: "(addr \<rightharpoonup> event_waiter) \<Rightarrow> (addr \<rightharpoonup> wait_future) \<Rightarrow> bool" where
  "event_futures_ok D fs \<longleftrightarrow>
     (\<forall>a. D a = None \<longleftrightarrow> fs a = None) \<and>
     (\<forall>a f e. fs a = Some f \<longrightarrow> D a = Some e \<longrightarrow>
        wf_wait_node f = a \<and> (\<not> wf_event f \<longrightarrow> ew_state e = Ev_Done))"

definition event_inv :: "event_sys \<Rightarrow> bool" where
  "event_inv s \<longleftrightarrow>
     (\<exists>xs. event_waiters_ok (es_event s) (es_nodes s) xs) \<and>
     event_futures_ok (data_of (es_nodes s)) (es_futures s)"

lemma event_futures_okD:
  "event_futures_ok D fs \<Longrightarrow> fs a = Some f \<Longrightarrow>
   \<exists>e. D a = Some e \<and> wf_wait_node f = a \<and> (\<not> wf_event f \<longrightarrow> ew_state e = Ev_Done)"
  by (cases "D a") (auto simp: event_futures_ok_def)

section \<open>The operations keep the invariant\<close>

lemma event_set_wp:
  assumes ok: "event_waiters_ok s h xs"
    and Q: "\<And>s' h'. event_waiters_ok s' h' [] \<Longrightarrow> ev_is_set s' \<Longrightarrow>
      data_of h' = (\<lambda>a. if a \<in> set xs then map_option (\<lambda>e. e\<lparr>ew_task := None, ew_state := Ev_Done\<rparr>) (data_of h a)
                        else data_of h a) \<Longrightarrow>
      Q (concat (map (\<lambda>x. wake_opt (ew_task (the (data_of h x)))) (rev xs)), s', h')"
  shows "returns (event_set s h) Q"
proof (cases "ev_is_set s")
  case True
  with ok have "xs = []" by (simp add: event_waiters_ok_def)
  with ok True Q [of s h] show ?thesis by (simp add: event_set_def)
next
  case False
  show ?thesis
    using False ok
    by (auto simp: event_set_def event_waiters_ok_def event_wake_waiter_def split: if_splits
        intro!: Q lq.take_all_wp [where w = "\<lambda>e. wake_opt (ew_task e)" and c = "[]", simplified])
qed

lemma event_try_wait_wp:
  assumes ok: "event_waiters_ok s h xs" and e: "data_of h a = Some e"
    and ready: "\<And>h'. ew_state e = Ev_Done \<or> ew_state e = Ev_New \<and> ev_is_set s \<Longrightarrow> event_waiters_ok s h' xs \<Longrightarrow>
      data_of h' = (data_of h)(a \<mapsto> e\<lparr>ew_state := Ev_Done\<rparr>) \<Longrightarrow> Q (Ready (), s, h')"
    and pending: "\<And>s' h' ys. ew_state e \<noteq> Ev_Done \<Longrightarrow> \<not> ev_is_set s' \<Longrightarrow> event_waiters_ok s' h' ys \<Longrightarrow>
      data_of h' = (data_of h)(a \<mapsto> e\<lparr>ew_task := Some cx, ew_state := Ev_Waiting\<rparr>) \<Longrightarrow> Q (Pending, s', h')"
  shows "returns (event_try_wait s a cx h) Q"
proof (cases "ew_state e")
  case Ev_Done
  then have "e\<lparr>ew_state := Ev_Done\<rparr> = e" by simp
  with Ev_Done ok e ready [of h] show ?thesis by (simp add: event_try_wait_def fun_upd_idem)
next
  case Ev_New
  with ok e have "a \<notin> set xs" by (auto simp: event_waiters_ok_def)
  show ?thesis
  proof (cases "ev_is_set s")
    case True
    with Ev_New ok e show ?thesis
      by (auto simp: event_try_wait_def event_waiters_ok_def intro!: update_data_wp ready)
  next
    case False
    with \<open>a \<notin> set xs\<close> Ev_New ok e show ?thesis
      by (auto simp: event_try_wait_def event_waiters_ok_def
          intro!: lq.enter_wp pending [where ys = "a # xs"])
  qed
next
  case Ev_Waiting
  with ok e have "a \<in> set xs" by (auto simp: event_waiters_ok_def)
  with ok have "\<not> ev_is_set s" by (auto simp: event_waiters_ok_def)
  moreover from Ev_Waiting have "e\<lparr>ew_task := t, ew_state := Ev_Waiting\<rparr> = e\<lparr>ew_task := t\<rparr>" for t
    by simp
  ultimately show ?thesis
    using Ev_Waiting ok e
    by (auto simp: event_try_wait_def event_waiters_ok_def
        intro!: update_data_wp pending [where ys = xs])
qed

lemma event_remove_waiter_wp:
  assumes ok: "event_waiters_ok s h xs" and e: "data_of h a = Some e"
    and Q: "\<And>s' h' ys e'. event_waiters_ok s' h' ys \<Longrightarrow> a \<notin> set ys \<Longrightarrow>
      data_of h' = (data_of h)(a \<mapsto> e') \<Longrightarrow> Q (s', h')"
  shows "returns (event_remove_waiter s a h) Q"
proof (cases "ew_state e = Ev_Waiting")
  case True
  with ok e have "a \<in> set xs" "distinct xs"
    by (auto simp: event_waiters_ok_def dest: ll_rep_distinct)
  with True ok e show ?thesis
    by (auto simp: event_remove_waiter_def event_waiters_ok_def
        intro!: update_data_wp lq.leave_wp Q [where ys = "remove1 a xs"])
next
  case False
  with ok e have "a \<notin> set xs" by (auto simp: event_waiters_ok_def)
  with False ok e Q [of s h xs e] show ?thesis
    by (auto simp: event_remove_waiter_def fun_upd_idem split: event_poll_state.split)
qed

section \<open>The system keeps the invariant\<close>

definition event_done :: "event_sys \<Rightarrow> addr \<Rightarrow> bool" where
  "event_done s a \<longleftrightarrow>
     (case data_of (es_nodes s) a of None \<Rightarrow> False | Some e \<Rightarrow> ew_state e = Ev_Done)"

text \<open>What every call guarantees: the invariant, and that a future once done stays so until it
  is dropped.\<close>

definition event_guarantee :: "event_action \<Rightarrow> event_sys \<Rightarrow> event_sys \<Rightarrow> bool" where
  "event_guarantee act s t \<longleftrightarrow>
     event_inv t \<and> (\<forall>a. event_done s a \<longrightarrow> act \<noteq> Event_Drop a \<longrightarrow> event_done t a)"

lemma event_wait_preserves:
  assumes inv: "event_inv s" and fresh: "es_nodes s a = None"
  shows "returns (event_exec (Event_Wait a) s) (event_guarantee (Event_Wait a) s)"
proof -
  from inv obtain xs where ok: "event_waiters_ok (es_event s) (es_nodes s) xs"
    and fs: "event_futures_ok (data_of (es_nodes s)) (es_futures s)"
    by (auto simp: event_inv_def)
  have "a \<notin> set xs" using ok fresh ll_rep_dom [of _ _ xs a] by (fastforce simp: event_waiters_ok_def)
  then have "event_waiters_ok (es_event s) ((es_nodes s)(a \<mapsto> list_node_new event_waiter_new)) xs"
    using ok fresh by (auto simp: event_waiters_ok_def event_waiter_new_def list_node_new_def
        intro: ll_rep_alloc [unfolded list_node_new_def])
  moreover have "event_futures_ok (data_of ((es_nodes s)(a \<mapsto> list_node_new event_waiter_new)))
      ((es_futures s)(a \<mapsto> \<lparr>wf_event = True, wf_wait_node = a\<rparr>))"
    using fs by (auto simp: event_futures_ok_def)
  ultimately show ?thesis
    using fresh by (auto simp: event_inv_def event_wait_def event_done_def event_guarantee_def)
qed

lemma event_set_preserves:
  assumes "event_inv s"
  shows "returns (event_exec Event_Set s) (event_guarantee Event_Set s)"
proof -
  from assms obtain xs where ok: "event_waiters_ok (es_event s) (es_nodes s) xs"
    and fs: "event_futures_ok (data_of (es_nodes s)) (es_futures s)"
    by (auto simp: event_inv_def)
  show ?thesis
  proof (simp, rule event_set_wp [OF ok], simp add: event_guarantee_def, intro conjI)
    fix e h
    assume ok': "event_waiters_ok e h []"
      and h: "data_of h = (\<lambda>a. if a \<in> set xs
        then map_option (\<lambda>e. e\<lparr>ew_task := None, ew_state := Ev_Done\<rparr>) (data_of (es_nodes s) a)
        else data_of (es_nodes s) a)"
    from fs have "event_futures_ok (data_of h) (es_futures s)"
      unfolding h by (auto simp: event_futures_ok_def)
    with ok' show "event_inv (s\<lparr>es_event := e, es_nodes := h, es_woken := ws\<rparr>)" for ws
      by (auto simp: event_inv_def)
    show "\<forall>a. event_done s a \<longrightarrow> event_done (s\<lparr>es_event := e, es_nodes := h, es_woken := ws\<rparr>) a" for ws
      by (auto simp: event_done_def h split: option.splits)
  qed
qed

lemma event_poll_preserves:
  assumes inv: "event_inv s" and f: "es_futures s a = Some f" "wf_event f"
  shows "returns (event_exec (Event_Poll a cx) s) (\<lambda>t. event_guarantee (Event_Poll a cx) s t \<and>
    (\<exists>f'. es_futures t a = Some f' \<and> (event_done s a \<longrightarrow> \<not> wf_event f') \<and>
       (wf_event f' \<longrightarrow> \<not> ev_is_set (es_event t) \<and>
          (\<exists>e. data_of (es_nodes t) a = Some e \<and> ew_state e = Ev_Waiting \<and> ew_task e = Some cx))))"
proof -
  from inv obtain xs where ok: "event_waiters_ok (es_event s) (es_nodes s) xs"
    and fs: "event_futures_ok (data_of (es_nodes s)) (es_futures s)"
    by (auto simp: event_inv_def)
  from event_futures_okD [OF fs f(1)] obtain e where
    e: "data_of (es_nodes s) a = Some e" "wf_wait_node f = a" by blast
  show ?thesis
    using f e fs
    by (auto simp: wait_future_poll_def event_inv_def event_done_def event_futures_ok_def
        event_guarantee_def
        intro!: event_try_wait_wp [OF ok e(1)] exI)
qed

lemma event_drop_preserves:
  assumes inv: "event_inv s" and f: "es_futures s a = Some f"
  shows "returns (event_exec (Event_Drop a) s) (event_guarantee (Event_Drop a) s)"
proof -
  from inv obtain xs where ok: "event_waiters_ok (es_event s) (es_nodes s) xs"
    and fs: "event_futures_ok (data_of (es_nodes s)) (es_futures s)"
    by (auto simp: event_inv_def)
  from event_futures_okD [OF fs f(1)] obtain e where
    e: "data_of (es_nodes s) a = Some e" "wf_wait_node f = a" "\<not> wf_event f \<longrightarrow> ew_state e = Ev_Done"
    by blast
  have free: "event_guarantee (Event_Drop a) s
      (s\<lparr>es_event := ev, es_nodes := h(a := None), es_futures := (es_futures s)(a := None)\<rparr>)"
    if "event_waiters_ok ev h ys" "a \<notin> set ys" "data_of h = (data_of (es_nodes s))(a \<mapsto> e')"
    for ev h ys e'
  proof -
    have "event_waiters_ok ev (h(a := None)) ys"
      using that(1,2) by (auto simp: event_waiters_ok_def intro: ll_rep_free)
    moreover have "event_futures_ok (data_of (h(a := None))) ((es_futures s)(a := None))"
      using fs that(3) by (auto simp: event_futures_ok_def)
    ultimately show ?thesis
      using that(3) by (auto simp: event_inv_def event_done_def event_guarantee_def)
  qed
  show ?thesis
  proof (cases "wf_event f")
    case True
    have "returns (event_remove_waiter (es_event s) a (es_nodes s)) (\<lambda>(ev, h). event_guarantee (Event_Drop a) s
      (s\<lparr>es_event := ev, es_nodes := h(a := None), es_futures := (es_futures s)(a := None)\<rparr>))"
      by (rule event_remove_waiter_wp [OF ok e(1)]) (simp add: free)
    then show ?thesis
      using True f e(2) by (auto simp: wait_future_drop_def elim!: returns_mono)
  next
    case False
    with ok e have "a \<notin> set xs" by (auto simp: event_waiters_ok_def)
    with free [OF ok this, of e] False f e show ?thesis
      by (simp add: wait_future_drop_def fun_upd_idem)
  qed
qed

lemma event_reset_preserves:
  "event_inv s \<Longrightarrow> returns (event_exec Event_Reset s) (event_guarantee Event_Reset s)"
  by (auto simp: event_inv_def event_reset_def event_waiters_ok_def event_done_def
      event_guarantee_def)

lemma event_exec_guarantee:
  assumes "event_inv s" "event_enabled act s"
  shows "returns (event_exec act s) (event_guarantee act s)"
proof (cases act)
  case (Event_Poll a cx)
  with assms obtain f where "es_futures s a = Some f" "wf_event f"
    by (auto simp: wait_future_is_terminated_def split: option.splits)
  from event_poll_preserves [OF assms(1) this, of cx] Event_Poll show ?thesis
    by (auto elim!: returns_mono simp del: event_exec.simps)
qed (use assms in \<open>auto intro: event_wait_preserves event_set_preserves event_drop_preserves
      event_reset_preserves simp del: event_exec.simps\<close>)

lemma event_sys_new_inv: "event_inv (event_sys_new is_set)"
  by (auto simp: event_inv_def event_sys_new_def event_state_new_def event_waiters_ok_def
      event_futures_ok_def data_of_def intro: exI [of _ "[]"] ll_rep_new)

interpretation evs: transition_system "\<lambda>s. s = event_sys_new is_set" event_enabled event_exec
  event_inv for is_set
proof unfold_locales
  show "event_inv s" if "s = event_sys_new is_set" for s
    using that by (simp add: event_sys_new_inv)
  show "returns (event_exec a s) event_inv" if "event_inv s" "event_enabled a s" for a s
    using event_exec_guarantee [OF that] by (rule returns_mono) (simp add: event_guarantee_def)
qed

lemma event_done_stable:
  "exec_all event_enabled event_exec acts s = Some t \<Longrightarrow> event_inv s \<Longrightarrow> event_done s a \<Longrightarrow>
   Event_Drop a \<notin> set acts \<Longrightarrow> event_done t a"
proof (induction acts arbitrary: s)
  case (Cons act acts)
  then show ?case
    using event_exec_guarantee [of s act]
    by (auto simp: event_guarantee_def split: if_splits sum.splits)
qed simp

section \<open>Properties\<close>

lemmas event_eval =
  event_sys_new_def event_state_new_def event_waiter_new_def event_wait_def wait_future_poll_def
  wait_future_is_terminated_def wait_future_drop_def event_try_wait_def event_set_def
  event_wake_waiter_def event_reset_def event_remove_waiter_def

text \<open>A concrete run for the witnesses: the futures at 1 and 2 wait for an event, in this order.\<close>

definition event_demo :: event_sys where
  "event_demo = the (exec_all event_enabled event_exec
     [Event_Wait 1, Event_Poll 1 (Waker 1 0), Event_Wait 2, Event_Poll 2 (Waker 2 0)]
     (event_sys_new False))"

lemma event_demo_run:
  "exec_all event_enabled event_exec
     [Event_Wait 1, Event_Poll 1 (Waker 1 0), Event_Wait 2, Event_Poll 2 (Waker 2 0)]
     (event_sys_new False) = Some event_demo"
  by (simp add: event_demo_def event_eval ll_eval)

lemma event_demo_reach: "event_reachable False event_demo"
  by (rule exec_all_reach [OF event_demo_run reach_init]) simp

lemma event_demo_eq:
  "event_demo =
     \<lparr>es_event = \<lparr>ev_is_set = False, ev_waiters = \<lparr>ll_head = Some 2, ll_tail = Some 1\<rparr>\<rparr>,
      es_nodes =
        [1 \<mapsto> \<lparr>ln_prev = Some 2, ln_next = None,
                ln_data = \<lparr>ew_task = Some (Waker 1 0), ew_state = Ev_Waiting\<rparr>\<rparr>,
         2 \<mapsto> \<lparr>ln_prev = None, ln_next = Some 1,
                ln_data = \<lparr>ew_task = Some (Waker 2 0), ew_state = Ev_Waiting\<rparr>\<rparr>],
      es_futures = [1 \<mapsto> \<lparr>wf_event = True, wf_wait_node = 1\<rparr>,
                    2 \<mapsto> \<lparr>wf_event = True, wf_wait_node = 2\<rparr>],
      es_woken = []\<rparr>"
  by (simp add: event_demo_def event_eval ll_eval fun_upd_twist)

text \<open>
  No call of the event API faults. In every reachable state every permitted call returns;
  in particular \<open>set\<close> ends, although it walks the queue of waiters.
\<close>

theorem event_no_fault:
  assumes "event_reachable is_set s" "event_enabled act s"
  shows "\<exists>t. event_exec act s = Inr t"
  using evs.no_fault [OF assms] by blast

theorem event_no_fault_witness: "\<exists>t. event_exec Event_Set event_demo = Inr t"
  by (rule event_no_fault [OF event_demo_reach]) simp

text \<open>
  Setting an event wakes exactly the futures that wait for it, each once, the oldest first,
  each with the waker of its last poll, and leaves nobody queued.
\<close>

theorem event_set_wakes_in_order:
  assumes reach: "event_reachable is_set s"
    and queue: "ll_rep (es_nodes s) (ev_waiters (es_event s)) xs"
    and step: "event_exec Event_Set s = Inr t"
  shows "es_woken t = es_woken s @
      map (\<lambda>a. the (ew_task (the (data_of (es_nodes s) a)))) (rev xs) \<and>
    ev_is_set (es_event t) \<and> ll_rep (es_nodes t) (ev_waiters (es_event t)) [] \<and>
    (\<forall>a. a \<in> set xs \<longleftrightarrow> (\<exists>e. data_of (es_nodes s) a = Some e \<and> ew_state e = Ev_Waiting))"
proof -
  from evs.reach_inv [OF reach] queue have ok: "event_waiters_ok (es_event s) (es_nodes s) xs"
    by (auto simp: event_inv_def event_waiters_ok_def dest: ll_rep_unique)
  then have tasks: "\<exists>e w. data_of (es_nodes s) a = Some e \<and> ew_task e = Some w" if "a \<in> set xs" for a
    using that ll_rep_dom [OF queue that] by (auto simp: event_waiters_ok_def)
  have "concat (map (\<lambda>x. wake_opt (ew_task (the (data_of (es_nodes s) x)))) ys) =
      map (\<lambda>a. the (ew_task (the (data_of (es_nodes s) a)))) ys" if "set ys \<subseteq> set xs" for ys
    using that by (induction ys) (auto dest: tasks)
  then have "returns (event_exec Event_Set s) (\<lambda>t. es_woken t = es_woken s @
      map (\<lambda>a. the (ew_task (the (data_of (es_nodes s) a)))) (rev xs) \<and>
    ev_is_set (es_event t) \<and> ll_rep (es_nodes t) (ev_waiters (es_event t)) [])"
    by (auto intro!: event_set_wp [OF ok] simp: event_waiters_ok_def)
  moreover have "a \<in> set xs \<longleftrightarrow> (\<exists>e. data_of (es_nodes s) a = Some e \<and> ew_state e = Ev_Waiting)" for a
    using ok tasks [of a] by (auto simp: event_waiters_ok_def)
  ultimately show ?thesis using step by (simp del: event_exec.simps)
qed

theorem event_set_wakes_in_order_witness:
  "\<exists>t. event_exec Event_Set event_demo = Inr t \<and> es_woken t = [Waker 1 0, Waker 2 0]"
proof -
  have queue: "ll_rep (es_nodes event_demo) (ev_waiters (es_event event_demo)) [2, 1]"
    by (auto simp: event_demo_eq ll_rep_def)
  obtain t where "event_exec Event_Set event_demo = Inr t"
    by (simp add: event_demo_eq event_eval ll_eval)
  with event_set_wakes_in_order [OF event_demo_reach queue this] show ?thesis
    by (auto simp: event_demo_eq data_of_def)
qed

text \<open>
  C14: no set is missed. A future that waits when the event is set completes with its next poll,
  whatever happens in between (a reset of the event, other futures polled or dropped).
\<close>

theorem event_no_missed_set:
  assumes reach: "event_reachable is_set s"
    and waits: "read_data (es_nodes s) a = Inr e" "ew_state e = Ev_Waiting"
    and set: "event_exec Event_Set s = Inr t"
    and run: "exec_all event_enabled event_exec acts t = Some u" "Event_Drop a \<notin> set acts"
    and poll: "event_enabled (Event_Poll a cx) u"
  shows "returns (event_exec (Event_Poll a cx) u)
    (\<lambda>v. \<exists>f. es_futures v a = Some f \<and> wait_future_is_terminated f)"
proof -
  have inv: "event_inv s" by (rule evs.reach_inv [OF reach])
  then obtain xs where ok: "event_waiters_ok (es_event s) (es_nodes s) xs"
    by (auto simp: event_inv_def)
  with waits have "a \<in> set xs" by (auto simp: event_waiters_ok_def read_data_eq_Inr)
  with waits have "returns (event_exec Event_Set s) (\<lambda>t. event_done t a)"
    by (auto simp: event_done_def read_data_eq_Inr intro!: event_set_wp [OF ok])
  with set have "event_done t a" by simp
  moreover have "event_inv t"
    using event_set_preserves [OF inv] set by (simp add: event_guarantee_def del: event_exec.simps)
  ultimately have u: "event_done u a" "event_inv u"
    using event_done_stable [OF run(1) _ _ run(2)] evs.exec_all_inv [OF run(1)] by auto
  from poll obtain f where "es_futures u a = Some f" "wf_event f"
    by (auto simp: wait_future_is_terminated_def split: option.splits)
  from event_poll_preserves [OF u(2) this, of cx] u(1) show ?thesis
    by (auto simp: wait_future_is_terminated_def simp del: event_exec.simps elim!: returns_mono)
qed

theorem event_no_missed_set_witness:
  "\<exists>t u. event_exec Event_Set event_demo = Inr t \<and>
    exec_all event_enabled event_exec [Event_Reset, Event_Drop 2] t = Some u \<and>
    returns (event_exec (Event_Poll 1 (Waker 5 0)) u)
      (\<lambda>v. \<exists>f. es_futures v 1 = Some f \<and> wait_future_is_terminated f)"
proof -
  have "\<exists>t u. event_exec Event_Set event_demo = Inr t \<and>
    exec_all event_enabled event_exec [Event_Reset, Event_Drop 2] t = Some u \<and>
    event_enabled (Event_Poll 1 (Waker 5 0)) u"
    by (simp add: event_demo_eq event_eval ll_eval)
  then obtain t u where run: "event_exec Event_Set event_demo = Inr t"
    "exec_all event_enabled event_exec [Event_Reset, Event_Drop 2] t = Some u"
    "event_enabled (Event_Poll 1 (Waker 5 0)) u" by blast
  have "read_data (es_nodes event_demo) 1 = Inr \<lparr>ew_task = Some (Waker 1 0), ew_state = Ev_Waiting\<rparr>"
    by (simp add: event_demo_eq read_data_def)
  from event_no_missed_set [OF event_demo_reach this _ run(1,2) _ run(3)] run show ?thesis
    by auto
qed

text \<open>
  A pending poll is a registration. If a poll with a waker leaves the future pending, the event
  is not set and that waker is the one the next \<open>set\<close> wakes.
\<close>

theorem event_pending_registers:
  assumes reach: "event_reachable is_set s" and enabled: "event_enabled (Event_Poll a cx) s"
    and poll: "event_exec (Event_Poll a cx) s = Inr t"
    and pending: "es_futures t a = Some f" "\<not> wait_future_is_terminated f"
  shows "\<not> ev_is_set (es_event t) \<and>
    returns (event_exec Event_Set t) (\<lambda>u. \<exists>ws. es_woken u = es_woken t @ ws \<and> cx \<in> set ws)"
proof -
  from enabled obtain f' where "es_futures s a = Some f'" "wf_event f'"
    by (auto simp: wait_future_is_terminated_def split: option.splits)
  from event_poll_preserves [OF evs.reach_inv [OF reach] this, of cx] poll pending
  obtain e where t: "event_inv t" "\<not> ev_is_set (es_event t)"
    and e: "data_of (es_nodes t) a = Some e" "ew_state e = Ev_Waiting" "ew_task e = Some cx"
    by (auto simp: wait_future_is_terminated_def event_guarantee_def simp del: event_exec.simps)
  from t(1) obtain xs where ok: "event_waiters_ok (es_event t) (es_nodes t) xs"
    by (auto simp: event_inv_def)
  with e have "a \<in> set xs" by (auto simp: event_waiters_ok_def)
  with e have "cx \<in> set (concat (map (\<lambda>x. wake_opt (ew_task (the (data_of (es_nodes t) x)))) (rev xs)))"
    by force
  then have "returns (event_exec Event_Set t) (\<lambda>u. \<exists>ws. es_woken u = es_woken t @ ws \<and> cx \<in> set ws)"
    by (auto intro!: event_set_wp [OF ok])
  with t(2) show ?thesis by blast
qed

theorem event_pending_registers_witness:
  "\<exists>t. event_exec (Event_Poll 1 (Waker 5 0)) event_demo = Inr t \<and>
    returns (event_exec Event_Set t) (\<lambda>u. \<exists>ws. es_woken u = es_woken t @ ws \<and> Waker 5 0 \<in> set ws)"
proof -
  have "\<exists>t f. event_exec (Event_Poll 1 (Waker 5 0)) event_demo = Inr t \<and>
    es_futures t 1 = Some f \<and> \<not> wait_future_is_terminated f"
    by (simp add: event_demo_eq event_eval ll_eval)
  then obtain t f where run: "event_exec (Event_Poll 1 (Waker 5 0)) event_demo = Inr t"
    "es_futures t 1 = Some f" "\<not> wait_future_is_terminated f" by blast
  from event_pending_registers [OF event_demo_reach _ run] run(1) show ?thesis
    by (auto simp: event_demo_eq event_eval)
qed

end
