(* ===== verification/Semaphore.thy ===== *)
theory Semaphore
  imports Linked_List
begin

text \<open>
  The asynchronous semaphore of \<^verbatim>\<open>src/sync/semaphore.rs\<close>: \<open>SemaphoreState\<close> with its queue of
  waiters, the acquire futures and the releasers, borrowed and shared. The permits are a
  \<open>usize\<close>. The first half translates the code, \<open>sem_spec\<close> is the pointer-free specification
  with the refinement lemmas, and the system of a semaphore with its futures and releasers
  carries the invariants: conservation of permits and the conditions under which no wakeup is lost.
\<close>

section \<open>Data\<close>

datatype semaphore_poll_state = Sm_New | Sm_Waiting | Sm_Notified | Sm_Done

record semaphore_waiter =
  sw_task :: "waker option"
  sw_state :: semaphore_poll_state
  sw_required_permits :: usize

definition semaphore_waiter_new :: "usize \<Rightarrow> semaphore_waiter" where
  "semaphore_waiter_new required_permits =
     \<lparr>sw_task = None, sw_state = Sm_New, sw_required_permits = required_permits\<rparr>"

record semaphore_state =
  sm_is_fair :: bool
  sm_permits :: usize
  sm_waiters :: linked_list

definition semaphore_state_new :: "bool \<Rightarrow> usize \<Rightarrow> semaphore_state" where
  "semaphore_state_new is_fair permits =
     \<lparr>sm_is_fair = is_fair, sm_permits = permits, sm_waiters = ll_new\<rparr>"

record semaphore_releaser =
  sr_permits :: usize

text \<open>\<open>sf_semaphore\<close> says whether the reference of the future to its semaphore is \<open>Some\<close>.\<close>

record semaphore_future =
  sf_semaphore :: bool
  sf_wait_node :: addr
  sf_auto_release :: bool

section \<open>SemaphoreState\<close>

partial_function (option) semaphore_wakeup_loop ::
  "bool \<Rightarrow> usize \<Rightarrow> linked_list \<Rightarrow> semaphore_waiter store \<Rightarrow> waker list \<Rightarrow>
   (waker list \<times> linked_list \<times> semaphore_waiter store) res option" where
  "semaphore_wakeup_loop is_fair available l h woken =
     (case ll_peek_last l of
        None \<Rightarrow> Some (Inr (woken, l, h))
      | Some last_waiter \<Rightarrow>
          (case read_data h last_waiter of
             Inl e \<Rightarrow> Some (Inl e)
           | Inr e \<Rightarrow>
               if available < sw_required_permits e then Some (Inr (woken, l, h))
               else
                 (case (if sw_state e \<noteq> Sm_Notified
                        then and_then (update_data last_waiter (sw_state_update (\<lambda>_. Sm_Notified)) h) (\<lambda>h.
                             Inr (woken @ wake_opt (sw_task e), h))
                        else Inr (woken, h)) of
                    Inl e \<Rightarrow> Some (Inl e)
                  | Inr (woken, h) \<Rightarrow>
                      if \<not> is_fair
                      then (case ll_remove_last l h of
                              Inl e \<Rightarrow> Some (Inl e)
                            | Inr (_, l, h) \<Rightarrow>
                                semaphore_wakeup_loop is_fair (available - sw_required_permits e) l h woken)
                      else Some (Inr (woken, l, h)))))"

definition semaphore_wakeup_waiters ::
  "semaphore_state \<Rightarrow> semaphore_waiter store \<Rightarrow>
   (waker list \<times> semaphore_state \<times> semaphore_waiter store) res" where
  "semaphore_wakeup_waiters s h =
     and_then (run_loop (semaphore_wakeup_loop (sm_is_fair s) (sm_permits s) (sm_waiters s) h []))
       (\<lambda>(woken, l, h). Inr (woken, s\<lparr>sm_waiters := l\<rparr>, h))"

definition semaphore_release ::
  "usize \<Rightarrow> semaphore_state \<Rightarrow> semaphore_waiter store \<Rightarrow>
   (waker list \<times> semaphore_state \<times> semaphore_waiter store) res" where
  "semaphore_release permits s h =
     (if permits = 0 then Inr ([], s, h)
      else and_then (usize_add (sm_permits s) permits) (\<lambda>p.
           semaphore_wakeup_waiters (s\<lparr>sm_permits := p\<rparr>) h))"

definition semaphore_try_acquire_sync :: "usize \<Rightarrow> semaphore_state \<Rightarrow> (bool \<times> semaphore_state) res" where
  "semaphore_try_acquire_sync required_permits s =
     and_then (if required_permits \<le> sm_permits s
               then if \<not> sm_is_fair s then Inr True
                    else and_then (ll_is_empty (sm_waiters s)) (\<lambda>empty.
                         Inr (empty \<or> required_permits = 0))
               else Inr False) (\<lambda>ok.
     if ok
     then and_then (usize_sub (sm_permits s) required_permits) (\<lambda>p. Inr (True, s\<lparr>sm_permits := p\<rparr>))
     else Inr (False, s))"

definition semaphore_force_remove_waiter ::
  "semaphore_state \<Rightarrow> addr \<Rightarrow> semaphore_waiter store \<Rightarrow>
   (semaphore_state \<times> semaphore_waiter store) res" where
  "semaphore_force_remove_waiter s wait_node h =
     and_then (ll_remove (sm_waiters s) wait_node h) (\<lambda>(removed, l, h).
     if \<not> removed then Inl (Panic ''Future could not be removed from wait queue'')
     else Inr (s\<lparr>sm_waiters := l\<rparr>, h))"

text \<open>The three statements that put a node at the front of the queue with the caller's waker.\<close>

definition semaphore_enqueue ::
  "semaphore_state \<Rightarrow> addr \<Rightarrow> waker \<Rightarrow> semaphore_waiter store \<Rightarrow>
   (unit poll \<times> waker list \<times> semaphore_state \<times> semaphore_waiter store) res" where
  "semaphore_enqueue s wait_node cx h =
     and_then (update_data wait_node (\<lambda>e. e\<lparr>sw_task := Some cx, sw_state := Sm_Waiting\<rparr>) h) (\<lambda>h.
     and_then (ll_add_front (sm_waiters s) wait_node h) (\<lambda>(l, h).
     Inr (Pending, [], s\<lparr>sm_waiters := l\<rparr>, h)))"

definition semaphore_try_acquire ::
  "semaphore_state \<Rightarrow> addr \<Rightarrow> waker \<Rightarrow> semaphore_waiter store \<Rightarrow>
   (unit poll \<times> waker list \<times> semaphore_state \<times> semaphore_waiter store) res" where
  "semaphore_try_acquire s wait_node cx h =
     and_then (read_data h wait_node) (\<lambda>e.
     case sw_state e of
       Sm_New \<Rightarrow>
         and_then (semaphore_try_acquire_sync (sw_required_permits e) s) (\<lambda>(ok, s).
         if ok
         then and_then (update_data wait_node (sw_state_update (\<lambda>_. Sm_Done)) h) (\<lambda>h.
              Inr (Ready (), [], s, h))
         else semaphore_enqueue s wait_node cx h)
     | Sm_Waiting \<Rightarrow>
         if sm_is_fair s
         then and_then (update_data wait_node (sw_task_update (\<lambda>t. update_waker_ref t cx)) h) (\<lambda>h.
              Inr (Pending, [], s, h))
         else if sw_required_permits e \<le> sm_permits s
         then and_then (usize_sub (sm_permits s) (sw_required_permits e)) (\<lambda>p.
              and_then (update_data wait_node (sw_state_update (\<lambda>_. Sm_Done)) h) (\<lambda>h.
              and_then (semaphore_force_remove_waiter (s\<lparr>sm_permits := p\<rparr>) wait_node h) (\<lambda>(s, h).
              Inr (Ready (), [], s, h))))
         else and_then (update_data wait_node (sw_task_update (\<lambda>t. update_waker_ref t cx)) h) (\<lambda>h.
              Inr (Pending, [], s, h))
     | Sm_Notified \<Rightarrow>
         if sw_required_permits e \<le> sm_permits s
         then and_then (if sm_is_fair s then semaphore_force_remove_waiter s wait_node h
                        else Inr (s, h)) (\<lambda>(s, h).
              and_then (usize_sub (sm_permits s) (sw_required_permits e)) (\<lambda>p.
              and_then (if sm_is_fair s then semaphore_wakeup_waiters (s\<lparr>sm_permits := p\<rparr>) h
                        else Inr ([], s\<lparr>sm_permits := p\<rparr>, h)) (\<lambda>(woken, s, h).
              and_then (update_data wait_node (sw_state_update (\<lambda>_. Sm_Done)) h) (\<lambda>h.
              Inr (Ready (), woken, s, h)))))
         else and_then (assert_that (\<not> sm_is_fair s)
                         ''Fair semaphores should always be ready when notified'') (\<lambda>_.
              semaphore_enqueue s wait_node cx h)
     | Sm_Done \<Rightarrow> Inl (Panic ''polled Mutex after completion''))"

definition semaphore_remove_waiter ::
  "semaphore_state \<Rightarrow> addr \<Rightarrow> semaphore_waiter store \<Rightarrow>
   (waker list \<times> semaphore_state \<times> semaphore_waiter store) res" where
  "semaphore_remove_waiter s wait_node h =
     and_then (read_data h wait_node) (\<lambda>e.
     case sw_state e of
       Sm_Notified \<Rightarrow>
         and_then (if sm_is_fair s then semaphore_force_remove_waiter s wait_node h
                   else Inr (s, h)) (\<lambda>(s, h).
         and_then (update_data wait_node (sw_state_update (\<lambda>_. Sm_Done)) h) (\<lambda>h.
         semaphore_wakeup_waiters s h))
     | Sm_Waiting \<Rightarrow>
         and_then (semaphore_force_remove_waiter s wait_node h) (\<lambda>(s, h).
         and_then (update_data wait_node (sw_state_update (\<lambda>_. Sm_Done)) h) (\<lambda>h.
         Inr ([], s, h)))
     | Sm_New \<Rightarrow> Inr ([], s, h)
     | Sm_Done \<Rightarrow> Inr ([], s, h))"

definition semaphore_permits :: "semaphore_state \<Rightarrow> usize" where
  "semaphore_permits s = sm_permits s"

section \<open>GenericSemaphore, its future and its releaser\<close>

definition generic_semaphore_new :: "bool \<Rightarrow> usize \<Rightarrow> semaphore_state" where
  "generic_semaphore_new is_fair permits = semaphore_state_new is_fair permits"

definition generic_semaphore_release ::
  "usize \<Rightarrow> semaphore_state \<Rightarrow> semaphore_waiter store \<Rightarrow>
   (waker list \<times> semaphore_state \<times> semaphore_waiter store) res" where
  "generic_semaphore_release nr_permits s h = semaphore_release nr_permits s h"

definition generic_semaphore_permits :: "semaphore_state \<Rightarrow> usize" where
  "generic_semaphore_permits s = semaphore_permits s"

lemma generic_semaphore_simps [simp]:
  "generic_semaphore_new is_fair p = semaphore_state_new is_fair p"
  "generic_semaphore_release n s h = semaphore_release n s h"
  "generic_semaphore_permits s = sm_permits s"
  by (simp_all add: generic_semaphore_new_def generic_semaphore_release_def generic_semaphore_permits_def
      semaphore_permits_def)


definition semaphore_releaser_disarm :: "semaphore_releaser \<Rightarrow> usize \<times> semaphore_releaser" where
  "semaphore_releaser_disarm r = (sr_permits r, r\<lparr>sr_permits := 0\<rparr>)"

definition semaphore_releaser_drop ::
  "semaphore_releaser \<Rightarrow> semaphore_state \<Rightarrow> semaphore_waiter store \<Rightarrow>
   (waker list \<times> semaphore_state \<times> semaphore_waiter store) res" where
  "semaphore_releaser_drop r s h =
     (if sr_permits r \<noteq> 0 then semaphore_release (sr_permits r) s h else Inr ([], s, h))"

definition semaphore_acquire :: "addr \<Rightarrow> usize \<Rightarrow> semaphore_future \<times> semaphore_waiter list_node" where
  "semaphore_acquire a nr_permits =
     (\<lparr>sf_semaphore = True, sf_wait_node = a, sf_auto_release = True\<rparr>,
      list_node_new (semaphore_waiter_new nr_permits))"

definition semaphore_future_poll ::
  "semaphore_future \<Rightarrow> waker \<Rightarrow> semaphore_state \<Rightarrow> semaphore_waiter store \<Rightarrow>
   (semaphore_releaser poll \<times> waker list \<times> semaphore_future \<times> semaphore_state \<times> semaphore_waiter store) res" where
  "semaphore_future_poll f cx s h =
     (if \<not> sf_semaphore f then Inl (Panic ''polled GenericSemaphoreAcquireFuture after completion'')
      else and_then (semaphore_try_acquire s (sf_wait_node f) cx h) (\<lambda>(poll_res, woken, s, h).
           case poll_res of
             Pending \<Rightarrow> Inr (Pending, woken, f, s, h)
           | Ready _ \<Rightarrow>
               and_then (read_data h (sf_wait_node f)) (\<lambda>e.
               Inr (Ready \<lparr>sr_permits = (if sf_auto_release f then sw_required_permits e else 0)\<rparr>,
                    woken, f\<lparr>sf_semaphore := False\<rparr>, s, h))))"

definition semaphore_future_is_terminated :: "semaphore_future \<Rightarrow> bool" where
  "semaphore_future_is_terminated f \<longleftrightarrow> \<not> sf_semaphore f"

definition semaphore_future_drop ::
  "semaphore_future \<Rightarrow> semaphore_state \<Rightarrow> semaphore_waiter store \<Rightarrow>
   (waker list \<times> semaphore_state \<times> semaphore_waiter store) res" where
  "semaphore_future_drop f s h =
     (if sf_semaphore f then semaphore_remove_waiter s (sf_wait_node f) h else Inr ([], s, h))"

definition semaphore_try_acquire_api ::
  "usize \<Rightarrow> semaphore_state \<Rightarrow> (semaphore_releaser option \<times> semaphore_state) res" where
  "semaphore_try_acquire_api nr_permits s =
     and_then (semaphore_try_acquire_sync nr_permits s) (\<lambda>(ok, s).
     Inr (if ok then Some \<lparr>sr_permits = nr_permits\<rparr> else None, s))"

section \<open>GenericSharedSemaphore\<close>

text \<open>
  The shared variants own a counted reference to the semaphore instead of borrowing it. A poll
  takes the reference out of the future (\<open>take\<close>) and puts it back when the result is pending.
\<close>

definition shared_semaphore_future_poll ::
  "semaphore_future \<Rightarrow> waker \<Rightarrow> semaphore_state \<Rightarrow> semaphore_waiter store \<Rightarrow>
   (semaphore_releaser poll \<times> waker list \<times> semaphore_future \<times> semaphore_state \<times> semaphore_waiter store) res" where
  "shared_semaphore_future_poll f cx s h =
     (let taken = sf_semaphore f; f = f\<lparr>sf_semaphore := False\<rparr> in
      if \<not> taken then Inl (Panic ''polled GenericSharedSemaphoreAcquireFuture after completion'')
      else and_then (semaphore_try_acquire s (sf_wait_node f) cx h) (\<lambda>(poll_res, woken, s, h).
           case poll_res of
             Pending \<Rightarrow> Inr (Pending, woken, f\<lparr>sf_semaphore := True\<rparr>, s, h)
           | Ready _ \<Rightarrow>
               and_then (read_data h (sf_wait_node f)) (\<lambda>e.
               Inr (Ready \<lparr>sr_permits = (if sf_auto_release f then sw_required_permits e else 0)\<rparr>,
                    woken, f, s, h))))"

definition shared_semaphore_future_drop ::
  "semaphore_future \<Rightarrow> semaphore_state \<Rightarrow> semaphore_waiter store \<Rightarrow>
   (waker list \<times> semaphore_future \<times> semaphore_state \<times> semaphore_waiter store) res" where
  "shared_semaphore_future_drop f s h =
     (if sf_semaphore f
      then and_then (semaphore_remove_waiter s (sf_wait_node f) h) (\<lambda>(woken, s, h).
           Inr (woken, f\<lparr>sf_semaphore := False\<rparr>, s, h))
      else Inr ([], f, s, h))"

definition shared_semaphore_releaser_disarm :: "semaphore_releaser \<Rightarrow> usize \<times> semaphore_releaser" where
  "shared_semaphore_releaser_disarm r = (let permits = sr_permits r in (permits, r\<lparr>sr_permits := 0\<rparr>))"

definition shared_semaphore_releaser_drop ::
  "semaphore_releaser \<Rightarrow> semaphore_state \<Rightarrow> semaphore_waiter store \<Rightarrow>
   (waker list \<times> semaphore_state \<times> semaphore_waiter store) res" where
  "shared_semaphore_releaser_drop r s h =
     (if sr_permits r \<noteq> 0 then semaphore_release (sr_permits r) s h else Inr ([], s, h))"

definition shared_semaphore_acquire ::
  "addr \<Rightarrow> usize \<Rightarrow> semaphore_future \<times> semaphore_waiter list_node" where
  "shared_semaphore_acquire a nr_permits =
     (\<lparr>sf_semaphore = True, sf_wait_node = a, sf_auto_release = True\<rparr>,
      list_node_new (semaphore_waiter_new nr_permits))"

definition shared_semaphore_try_acquire_api ::
  "usize \<Rightarrow> semaphore_state \<Rightarrow> (semaphore_releaser option \<times> semaphore_state) res" where
  "shared_semaphore_try_acquire_api nr_permits s =
     and_then (semaphore_try_acquire_sync nr_permits s) (\<lambda>(ok, s).
     Inr (if ok then Some \<lparr>sr_permits = nr_permits\<rparr> else None, s))"

section \<open>The specification\<close>

record sem_spec =
  ss_fair :: bool
  ss_permits :: usize
  ss_queue :: "addr list"
  ss_entries :: "addr \<rightharpoonup> semaphore_waiter"

text \<open>
  Waking, over the queue with its oldest waiter first: waiters are notified as long as the
  permits that are left suffice for the next one, in a fair semaphore only the oldest one,
  which stays queued. The result is the wakers woken, the queue and the entries.
\<close>

fun sem_wake :: "bool \<Rightarrow> usize \<Rightarrow> addr list \<Rightarrow> (addr \<rightharpoonup> semaphore_waiter) \<Rightarrow>
    waker list \<times> addr list \<times> (addr \<rightharpoonup> semaphore_waiter)" where
  "sem_wake fair available [] D = ([], [], D)"
| "sem_wake fair available (a # as) D =
     (let e = the (D a) in
      if available < sw_required_permits e then ([], a # as, D)
      else let woken = (if sw_state e = Sm_Notified then [] else wake_opt (sw_task e));
               D = D(a \<mapsto> e\<lparr>sw_state := Sm_Notified\<rparr>)
           in if fair then (woken, a # as, D)
              else case sem_wake fair (available - sw_required_permits e) as D of
                     (woken', queue, D) \<Rightarrow> (woken @ woken', queue, D))"

definition sem_spec_wakeup :: "sem_spec \<Rightarrow> waker list \<times> sem_spec" where
  "sem_spec_wakeup S =
     (case sem_wake (ss_fair S) (ss_permits S) (rev (ss_queue S)) (ss_entries S) of
        (woken, queue, D) \<Rightarrow> (woken, S\<lparr>ss_queue := rev queue, ss_entries := D\<rparr>))"

definition sem_abs :: "semaphore_state \<Rightarrow> semaphore_waiter store \<Rightarrow> sem_spec \<Rightarrow> bool" where
  "sem_abs s h S \<longleftrightarrow>
     ll_rep h (sm_waiters s) (ss_queue S) \<and> data_of h = ss_entries S \<and>
     sm_is_fair s = ss_fair S \<and> sm_permits s = ss_permits S"

lemma semaphore_wakeup_loop_correct:
  "ll_rep h l xs \<Longrightarrow>
   \<exists>w' q' D' l' h'. sem_wake fair av (rev xs) (data_of h) = (w', q', D') \<and>
     semaphore_wakeup_loop fair av l h woken = Some (Inr (woken @ w', l', h')) \<and>
     ll_rep h' l' (rev q') \<and> data_of h' = D'"
proof (induction xs arbitrary: h l av woken rule: rev_induct)
  case Nil
  then show ?case by (subst semaphore_wakeup_loop.simps) simp
next
  case (snoc a xs)
  then obtain e where e: "data_of h a = Some e" using ll_rep_dom [OF snoc.prems, of a] by auto
  let ?D = "(data_of h)(a \<mapsto> e\<lparr>sw_state := Sm_Notified\<rparr>)"
  let ?w = "if sw_state e = Sm_Notified then [] else wake_opt (sw_task e)"
  have "returns (if sw_state e \<noteq> Sm_Notified
      then and_then (update_data a (sw_state_update (\<lambda>_. Sm_Notified)) h) (\<lambda>h.
           Inr (woken @ wake_opt (sw_task e), h))
      else Inr (woken, h))
    (\<lambda>(w, h1). w = woken @ ?w \<and> ll_rep h1 l (xs @ [a]) \<and> data_of h1 = ?D)"
    using snoc.prems e by (auto intro!: update_data_wp simp: fun_upd_idem)
  then obtain h1 where notify:
    "(if sw_state e \<noteq> Sm_Notified
      then and_then (update_data a (sw_state_update (\<lambda>_. Sm_Notified)) h) (\<lambda>h.
           Inr (woken @ wake_opt (sw_task e), h))
      else Inr (woken, h)) = Inr (woken @ ?w, h1)"
    and h1: "ll_rep h1 l (xs @ [a])" "data_of h1 = ?D"
    by (auto simp: returns_iff)
  have "returns (ll_remove_last l h1) (\<lambda>(r, l2, h2). ll_rep h2 l2 xs \<and> data_of h2 = ?D)"
    using h1 by (auto intro!: ll_remove_last_wp)
  then obtain r l2 h2 where remove: "ll_remove_last l h1 = Inr (r, l2, h2)"
    and h2: "ll_rep h2 l2 xs" "data_of h2 = ?D"
    by (auto simp: returns_iff)
  have last: "ll_peek_last l = Some a" "read_data h a = Inr e"
    using snoc.prems e by auto
  show ?case
  proof (cases "av < sw_required_permits e")
    case True
    with last e snoc.prems show ?thesis
      by (subst semaphore_wakeup_loop.simps) simp
  next
    case False
    show ?thesis
    proof (cases fair)
      case True
      with False last e notify h1 show ?thesis
        by (subst semaphore_wakeup_loop.simps) (simp add: Let_def del: if_not_P if_P)
    next
      case False': False
      from snoc.IH [OF h2(1), of "av - sw_required_permits e" "woken @ ?w"] obtain w' q' D' l' h' where
        "sem_wake fair (av - sw_required_permits e) (rev xs) ?D = (w', q', D')"
        "semaphore_wakeup_loop fair (av - sw_required_permits e) l2 h2 (woken @ ?w) =
           Some (Inr ((woken @ ?w) @ w', l', h'))"
        "ll_rep h' l' (rev q')" "data_of h' = D'"
        unfolding h2(2) by blast
      with False False' last e notify remove show ?thesis
        by (subst semaphore_wakeup_loop.simps) (simp add: Let_def)
    qed
  qed
qed

lemma semaphore_wakeup_waiters_refines:
  assumes "sem_abs s h S"
  shows "returns (semaphore_wakeup_waiters s h)
    (\<lambda>(w, s', h'). \<exists>S'. sem_spec_wakeup S = (w, S') \<and> sem_abs s' h' S')"
proof -
  have "ll_rep h (sm_waiters s) (ss_queue S)" using assms by (simp add: sem_abs_def)
  from semaphore_wakeup_loop_correct [OF this, of "sm_is_fair s" "sm_permits s" "[]"] assms
  show ?thesis
    by (auto simp: semaphore_wakeup_waiters_def sem_spec_wakeup_def sem_abs_def)
qed

definition sem_spec_release :: "usize \<Rightarrow> sem_spec \<Rightarrow> waker list \<times> sem_spec" where
  "sem_spec_release n S =
     (if n = 0 then ([], S) else sem_spec_wakeup (S\<lparr>ss_permits := ss_permits S + n\<rparr>))"

definition sem_spec_try_acquire :: "usize \<Rightarrow> sem_spec \<Rightarrow> bool \<times> sem_spec" where
  "sem_spec_try_acquire n S =
     (if n \<le> ss_permits S \<and> (ss_fair S \<longrightarrow> ss_queue S = [] \<or> n = 0)
      then (True, S\<lparr>ss_permits := ss_permits S - n\<rparr>) else (False, S))"

abbreviation sem_entry :: "sem_spec \<Rightarrow> addr \<Rightarrow> semaphore_waiter" where
  "sem_entry S a \<equiv> the (ss_entries S a)"

text \<open>The future at \<open>a\<close> leaves the queue and is done.\<close>

definition sem_finish :: "addr \<Rightarrow> sem_spec \<Rightarrow> sem_spec" where
  "sem_finish a S =
     S\<lparr>ss_queue := remove1 a (ss_queue S),
       ss_entries := (ss_entries S)(a \<mapsto> (sem_entry S a)\<lparr>sw_state := Sm_Done\<rparr>)\<rparr>"

definition sem_wait :: "addr \<Rightarrow> waker \<Rightarrow> sem_spec \<Rightarrow> sem_spec" where
  "sem_wait a cx S =
     S\<lparr>ss_queue := (if a \<in> set (ss_queue S) then ss_queue S else a # ss_queue S),
       ss_entries := (ss_entries S)(a \<mapsto> (sem_entry S a)\<lparr>sw_task := Some cx, sw_state := Sm_Waiting\<rparr>)\<rparr>"

text \<open>
  A poll gets its permits if there are enough and, in a fair semaphore, it was notified or is
  new and nobody is queued (or it wants none). A fair waiter that leaves wakes the next one.
\<close>

definition sem_spec_poll :: "addr \<Rightarrow> waker \<Rightarrow> sem_spec \<Rightarrow> unit poll \<times> waker list \<times> sem_spec" where
  "sem_spec_poll a cx S =
     (let e = sem_entry S a; n = sw_required_permits e in
      if n \<le> ss_permits S \<and> (ss_fair S \<longrightarrow> sw_state e = Sm_Notified \<or>
           sw_state e = Sm_New \<and> (ss_queue S = [] \<or> n = 0))
      then let S' = S\<lparr>ss_permits := ss_permits S - n\<rparr> in
           if ss_fair S \<and> sw_state e = Sm_Notified
           then (case sem_spec_wakeup (S'\<lparr>ss_queue := remove1 a (ss_queue S)\<rparr>) of
                   (woken, S') \<Rightarrow> (Ready (), woken, S'\<lparr>ss_entries := (ss_entries S')(a \<mapsto> (sem_entry S' a)\<lparr>sw_state := Sm_Done\<rparr>)\<rparr>))
           else (Ready (), [], sem_finish a S')
      else (Pending, [], sem_wait a cx S))"

definition sem_spec_cancel :: "addr \<Rightarrow> sem_spec \<Rightarrow> waker list \<times> sem_spec" where
  "sem_spec_cancel a S =
     (case sw_state (sem_entry S a) of
        Sm_Notified \<Rightarrow> sem_spec_wakeup (sem_finish a S)
      | Sm_Waiting \<Rightarrow> ([], sem_finish a S)
      | _ \<Rightarrow> ([], S))"

section \<open>The invariant\<close>

text \<open>
  A future is queued exactly while it waits (in a fair semaphore also while it is notified), a
  waiting one has left its waker, and in a fair semaphore only the oldest waiter is notified and
  the permits suffice for it.
\<close>

definition sem_inv :: "sem_spec \<Rightarrow> bool" where
  "sem_inv S \<longleftrightarrow>
     distinct (ss_queue S) \<and> set (ss_queue S) \<subseteq> dom (ss_entries S) \<and> finite (dom (ss_entries S)) \<and>
     (\<forall>a e. ss_entries S a = Some e \<longrightarrow>
        (a \<in> set (ss_queue S) \<longleftrightarrow> sw_state e = Sm_Waiting \<or> ss_fair S \<and> sw_state e = Sm_Notified) \<and>
        (sw_state e = Sm_Waiting \<longrightarrow> sw_task e \<noteq> None) \<and>
        (ss_fair S \<and> sw_state e = Sm_Notified \<longrightarrow>
           a = last (ss_queue S) \<and> sw_required_permits e \<le> ss_permits S))"

lemma sem_inv_entry:
  "sem_inv S \<Longrightarrow> ss_entries S a = Some e \<Longrightarrow>
   a \<in> set (ss_queue S) \<longleftrightarrow> sw_state e = Sm_Waiting \<or> ss_fair S \<and> sw_state e = Sm_Notified"
  by (simp add: sem_inv_def)

lemma sem_inv_notified:
  "sem_inv S \<Longrightarrow> ss_fair S \<Longrightarrow> ss_entries S a = Some e \<Longrightarrow> sw_state e = Sm_Notified \<Longrightarrow>
   a \<in> set (ss_queue S) \<and> a = last (ss_queue S) \<and> sw_required_permits e \<le> ss_permits S"
  by (simp add: sem_inv_def)

section \<open>Refinement\<close>

lemma sem_wake_dom: "D a = Some e \<Longrightarrow> \<exists>e'. snd (snd (sem_wake fair av q D)) a = Some e'"
proof (induction q arbitrary: av D e)
  case (Cons b q)
  let ?D = "D(b \<mapsto> (the (D b))\<lparr>sw_state := Sm_Notified\<rparr>)"
  from Cons.prems obtain e' where live: "?D a = Some e'" by (cases "a = b") auto
  then have "\<exists>e'. snd (snd (sem_wake fair av' q ?D)) a = Some e'" for av'
    by (rule Cons.IH)
  then show ?case
    using Cons.prems live by (auto simp: Let_def split_def simp del: fun_upd_apply)
qed simp

lemma sem_spec_wakeup_live:
  "ss_entries S a = Some e \<Longrightarrow> \<exists>e'. ss_entries (snd (sem_spec_wakeup S)) a = Some e'"
  using sem_wake_dom [of "ss_entries S" a e] by (simp add: sem_spec_wakeup_def split_def)

lemma sem_read [simp]: "sem_abs s h S \<Longrightarrow> ss_entries S a = Some e \<Longrightarrow> read_data h a = Inr e"
  by (simp add: sem_abs_def)

lemma sem_update_wp:
  assumes "sem_abs s h S" "ss_entries S a = Some e"
    and "\<And>h'. sem_abs s h' (S\<lparr>ss_entries := (ss_entries S)(a \<mapsto> f e)\<rparr>) \<Longrightarrow> Q h'"
  shows "returns (update_data a f h) Q"
  using assms by (auto simp: sem_abs_def intro!: update_data_wp)

lemma semaphore_force_remove_waiter_wp:
  assumes "sem_abs s h S" "a \<in> set (ss_queue S)"
    and "\<And>s' h'. sem_abs s' h' (S\<lparr>ss_queue := remove1 a (ss_queue S)\<rparr>) \<Longrightarrow> Q (s', h')"
  shows "returns (semaphore_force_remove_waiter s a h) Q"
  using assms
  by (auto simp: semaphore_force_remove_waiter_def sem_abs_def intro!: lq.leave_wp)

lemma semaphore_enqueue_wp:
  assumes "sem_abs s h S" "ss_entries S a = Some e" "a \<notin> set (ss_queue S)"
    and "\<And>s' h'. sem_abs s' h' (sem_wait a cx S) \<Longrightarrow> Q (Pending, [], s', h')"
  shows "returns (semaphore_enqueue s a cx h) Q"
  using assms
  by (auto simp: semaphore_enqueue_def sem_abs_def sem_wait_def intro!: lq.enter_wp)

lemma semaphore_wakeup_wp:
  assumes "sem_abs s h S"
    and "\<And>s' h'. sem_abs s' h' (snd (sem_spec_wakeup S)) \<Longrightarrow> Q (fst (sem_spec_wakeup S), s', h')"
  shows "returns (semaphore_wakeup_waiters s h) Q"
  by (rule returns_mono [OF semaphore_wakeup_waiters_refines [OF assms(1)]])
    (use assms(2) in auto)

lemma semaphore_release_refines:
  assumes "sem_abs s h S" "unat (ss_permits S) + unat n < 2 ^ 64"
  shows "returns (semaphore_release n s h)
    (\<lambda>(w, s', h'). \<exists>S'. sem_spec_release n S = (w, S') \<and> sem_abs s' h' S')"
proof -
  have "sem_abs (s\<lparr>sm_permits := sm_permits s + n\<rparr>) h (S\<lparr>ss_permits := ss_permits S + n\<rparr>)"
    using assms(1) by (simp add: sem_abs_def)
  from semaphore_wakeup_waiters_refines [OF this] assms show ?thesis
    by (auto simp: semaphore_release_def sem_spec_release_def sem_abs_def)
qed

lemma semaphore_try_acquire_sync_refines:
  assumes "sem_abs s h S"
  shows "returns (semaphore_try_acquire_sync n s)
    (\<lambda>(ok, s'). \<exists>S'. sem_spec_try_acquire n S = (ok, S') \<and> sem_abs s' h S')"
  using assms
  by (auto simp: semaphore_try_acquire_sync_def sem_spec_try_acquire_def sem_abs_def)

text \<open>A notified future of a fair semaphore takes its permits and wakes the next waiters.\<close>

lemma semaphore_try_acquire_notified_refines:
  assumes abs: "sem_abs s h S" and inv: "sem_inv S" and fair: "ss_fair S"
    and e: "ss_entries S a = Some e" "sw_state e = Sm_Notified"
  shows "returns (semaphore_try_acquire s a cx h)
    (\<lambda>(r, w, s', h'). \<exists>S'. sem_spec_poll a cx S = (r, w, S') \<and> sem_abs s' h' S')"
proof -
  from sem_inv_notified [OF inv fair e] have
    q: "a \<in> set (ss_queue S)" "sw_required_permits e \<le> ss_permits S" by auto
  let ?n = "sw_required_permits e"
  let ?S = "S\<lparr>ss_permits := ss_permits S - ?n, ss_queue := remove1 a (ss_queue S)\<rparr>"
  have live: "\<exists>e'. ss_entries (snd (sem_spec_wakeup ?S)) a = Some e'"
    using e(1) by (intro sem_spec_wakeup_live) simp
  have "returns (and_then (semaphore_force_remove_waiter s a h) (\<lambda>(s, h).
      and_then (usize_sub (sm_permits s) ?n) (\<lambda>p.
      and_then (if sm_is_fair s then semaphore_wakeup_waiters (s\<lparr>sm_permits := p\<rparr>) h
                else Inr ([], s\<lparr>sm_permits := p\<rparr>, h)) (\<lambda>(woken, s, h).
      and_then (update_data a (sw_state_update (\<lambda>_. Sm_Done)) h) (\<lambda>h.
      Inr (Ready (), woken, s, h))))))
    (\<lambda>(r, w, s', h'). r = Ready () \<and> w = fst (sem_spec_wakeup ?S) \<and>
       (let S' = snd (sem_spec_wakeup ?S) in sem_abs s' h'
          (S'\<lparr>ss_entries := (ss_entries S')(a \<mapsto> (sem_entry S' a)\<lparr>sw_state := Sm_Done\<rparr>)\<rparr>)))"
    (is "returns _ ?Q")
  proof (simp only: returns_and_then, rule semaphore_force_remove_waiter_wp [OF abs q(1)])
    fix s' h' assume abs': "sem_abs s' h' (S\<lparr>ss_queue := remove1 a (ss_queue S)\<rparr>)"
    then have s': "sm_is_fair s'" "sm_permits s' = ss_permits S"
      using fair by (simp_all add: sem_abs_def)
    with abs' have "sem_abs (s'\<lparr>sm_permits := sm_permits s' - ?n\<rparr>) h' ?S"
      by (simp add: sem_abs_def)
    then have "returns (semaphore_wakeup_waiters (s'\<lparr>sm_permits := sm_permits s' - ?n\<rparr>) h')
        (\<lambda>(w, s, h). returns (update_data a (sw_state_update (\<lambda>_. Sm_Done)) h) (\<lambda>h. ?Q (Ready (), w, s, h)))"
      by (rule semaphore_wakeup_wp) (use live in \<open>auto simp: Let_def intro: sem_update_wp\<close>)
    then show "returns (case (s', h') of (s, h) \<Rightarrow>
        and_then (usize_sub (sm_permits s) ?n) (\<lambda>p.
        and_then (if sm_is_fair s then semaphore_wakeup_waiters (s\<lparr>sm_permits := p\<rparr>) h
                  else Inr ([], s\<lparr>sm_permits := p\<rparr>, h)) (\<lambda>(woken, s, h).
        and_then (update_data a (sw_state_update (\<lambda>_. Sm_Done)) h) (\<lambda>h.
        Inr (Ready (), woken, s, h))))) ?Q"
      using s' q(2) by (auto elim!: returns_mono)
  qed
  moreover have "sem_spec_poll a cx S = (Ready (), fst (sem_spec_wakeup ?S),
    let S' = snd (sem_spec_wakeup ?S) in
      S'\<lparr>ss_entries := (ss_entries S')(a \<mapsto> (sem_entry S' a)\<lparr>sw_state := Sm_Done\<rparr>)\<rparr>)"
    using fair e q(2) by (simp add: sem_spec_poll_def Let_def split_def)
  ultimately show ?thesis
    using fair abs e q(2)
    by (auto simp: semaphore_try_acquire_def sem_abs_def [of s] Let_def elim!: returns_mono)
qed

lemma semaphore_try_acquire_refines:
  assumes abs: "sem_abs s h S" and inv: "sem_inv S"
    and e: "ss_entries S a = Some e" "sw_state e \<noteq> Sm_Done"
  shows "returns (semaphore_try_acquire s a cx h)
    (\<lambda>(r, w, s', h'). \<exists>S'. sem_spec_poll a cx S = (r, w, S') \<and> sem_abs s' h' S')"
proof (cases "sw_state e")
  case Sm_New
  with inv e have "a \<notin> set (ss_queue S)" by (auto simp: sem_inv_def)
  with Sm_New abs e show ?thesis
    by (auto simp: semaphore_try_acquire_def semaphore_try_acquire_sync_def semaphore_enqueue_def
        sem_abs_def sem_spec_poll_def sem_finish_def sem_wait_def remove1_idem Let_def
        intro!: ll_add_front_wp update_data_wp)
next
  case Sm_Waiting
  with inv e have "a \<in> set (ss_queue S)" by (auto simp: sem_inv_def)
  with Sm_Waiting abs e show ?thesis
    by (auto simp: semaphore_try_acquire_def semaphore_force_remove_waiter_def sem_abs_def
        sem_spec_poll_def sem_finish_def sem_wait_def Let_def
        intro!: ll_remove_wp update_data_wp)
next
  case Sm_Notified
  show ?thesis
  proof (cases "ss_fair S")
    case False
    with Sm_Notified inv e have "a \<notin> set (ss_queue S)" by (auto simp: sem_inv_def)
    with False Sm_Notified abs e show ?thesis
      by (auto simp: semaphore_try_acquire_def semaphore_enqueue_def sem_abs_def
          sem_spec_poll_def sem_finish_def sem_wait_def remove1_idem Let_def
          intro!: ll_add_front_wp update_data_wp)
  next
    case True
    from semaphore_try_acquire_notified_refines [OF abs inv True e(1) Sm_Notified] show ?thesis .
  qed
qed (use e in simp)

lemma semaphore_remove_waiter_refines:
  assumes abs: "sem_abs s h S" and inv: "sem_inv S" and e: "ss_entries S a = Some e"
  shows "returns (semaphore_remove_waiter s a h)
    (\<lambda>(w, s', h'). \<exists>S'. sem_spec_cancel a S = (w, S') \<and> sem_abs s' h' S')"
proof (cases "sw_state e")
  case Sm_Waiting
  with inv e have "a \<in> set (ss_queue S)" by (auto simp: sem_inv_def)
  with Sm_Waiting abs e show ?thesis
    by (auto simp: semaphore_remove_waiter_def semaphore_force_remove_waiter_def sem_abs_def
        sem_spec_cancel_def sem_finish_def intro!: ll_remove_wp update_data_wp)
next
  case Sm_Notified
  from Sm_Notified inv e have q: "a \<in> set (ss_queue S) \<longleftrightarrow> ss_fair S"
    by (auto simp: sem_inv_def)
  have "returns (and_then (if sm_is_fair s then semaphore_force_remove_waiter s a h else Inr (s, h))
      (\<lambda>(s, h). and_then (update_data a (sw_state_update (\<lambda>_. Sm_Done)) h) (\<lambda>h. Inr (s, h))))
    (\<lambda>(s', h'). sem_abs s' h' (sem_finish a S))"
    using q abs e
    by (auto simp: semaphore_force_remove_waiter_def sem_abs_def sem_finish_def remove1_idem
        intro!: ll_remove_wp update_data_wp)
  then show ?thesis
    using Sm_Notified abs e semaphore_wakeup_waiters_refines [where S = "sem_finish a S"]
    by (auto simp: semaphore_remove_waiter_def sem_spec_cancel_def split_def elim!: returns_mono)
qed (use abs e in \<open>auto simp: semaphore_remove_waiter_def sem_spec_cancel_def\<close>)

section \<open>What waking does\<close>

definition sem_notify :: "addr set \<Rightarrow> (addr \<rightharpoonup> semaphore_waiter) \<Rightarrow> (addr \<rightharpoonup> semaphore_waiter)" where
  "sem_notify A D = (\<lambda>a. if a \<in> A then map_option (sw_state_update (\<lambda>_. Sm_Notified)) (D a) else D a)"

definition sem_required :: "(addr \<rightharpoonup> semaphore_waiter) \<Rightarrow> addr \<Rightarrow> nat" where
  "sem_required D a = unat (sw_required_permits (the (D a)))"

lemma sem_notify_dom [simp]: "dom (sem_notify A D) = dom D"
  by (auto simp: sem_notify_def dom_def split: if_splits)

text \<open>An unfair semaphore notifies the longest prefix of the waiters that the permits serve.\<close>

lemma sem_wake_unfair:
  assumes "distinct q" "\<forall>a\<in>set q. \<exists>e. D a = Some e \<and> sw_state e = Sm_Waiting"
  shows "\<exists>k \<le> length q. sem_wake False av q D =
      (concat (map (\<lambda>a. wake_opt (sw_task (the (D a)))) (take k q)), drop k q, sem_notify (set (take k q)) D) \<and>
    sum_list (map (sem_required D) (take k q)) \<le> unat av \<and>
    (k < length q \<longrightarrow> unat av < sum_list (map (sem_required D) (take (Suc k) q)))"
  using assms
proof (induction q arbitrary: av D)
  case Nil
  show ?case by (simp add: sem_notify_def)
next
  case (Cons a q)
  then obtain e where e: "D a = Some e" "sw_state e = Sm_Waiting" by auto
  show ?case
  proof (cases "av < sw_required_permits e")
    case True
    with e show ?thesis
      by (intro exI [of _ 0]) (simp add: sem_notify_def sem_required_def word_less_nat_alt)
  next
    case False
    let ?D = "D(a \<mapsto> e\<lparr>sw_state := Sm_Notified\<rparr>)" and ?n = "sw_required_permits e"
    from Cons.prems have q: "a \<notin> set q" "distinct q"
      "\<forall>b\<in>set q. \<exists>e. ?D b = Some e \<and> sw_state e = Sm_Waiting" by auto
    from Cons.IH [OF q(2,3), of "av - ?n"] obtain k where k: "k \<le> length q"
      "sem_wake False (av - ?n) q ?D =
        (concat (map (\<lambda>a. wake_opt (sw_task (the (?D a)))) (take k q)), drop k q, sem_notify (set (take k q)) ?D)"
      "sum_list (map (sem_required ?D) (take k q)) \<le> unat (av - ?n)"
      "k < length q \<longrightarrow> unat (av - ?n) < sum_list (map (sem_required ?D) (take (Suc k) q))"
      by blast
    have same: "map (sem_required ?D) (take j q) = map (sem_required D) (take j q)"
      "map (\<lambda>a. wake_opt (sw_task (the (?D a)))) (take j q) = map (\<lambda>a. wake_opt (sw_task (the (D a)))) (take j q)" for j
      using q(1) by (auto simp: sem_required_def dest: in_set_takeD)
    have "sem_notify (set (take k q)) ?D = sem_notify (set (take (Suc k) (a # q))) D"
      using e by (auto simp: sem_notify_def fun_eq_iff)
    moreover have "unat (av - ?n) = unat av - unat ?n" "unat ?n \<le> unat av"
      using False by (auto simp: unat_sub word_le_nat_alt word_less_nat_alt not_less)
    moreover have "sem_required D a = unat ?n" using e by (simp add: sem_required_def)
    ultimately show ?thesis
      using False e k unfolding same by (intro exI [of _ "Suc k"]) (auto simp: Let_def)
  qed
qed

lemma sem_wake_fair:
  "sem_wake True av q D =
     (if q = [] \<or> av < sw_required_permits (the (D (hd q))) then ([], q, D)
      else ((if sw_state (the (D (hd q))) = Sm_Notified then [] else wake_opt (sw_task (the (D (hd q))))),
            q, D(hd q \<mapsto> (the (D (hd q)))\<lparr>sw_state := Sm_Notified\<rparr>)))"
  by (cases q) (simp_all add: Let_def)

text \<open>The permits that the notified futures want.\<close>

definition sem_notified :: "(addr \<rightharpoonup> semaphore_waiter) \<Rightarrow> addr set" where
  "sem_notified D = {a. \<exists>e. D a = Some e \<and> sw_state e = Sm_Notified}"

definition sem_promised :: "(addr \<rightharpoonup> semaphore_waiter) \<Rightarrow> nat" where
  "sem_promised D = (\<Sum>a\<in>sem_notified D. sem_required D a)"

lemma sem_notified_finite [simp]: "finite (dom D) \<Longrightarrow> finite (sem_notified D)"
  by (rule finite_subset [of _ "dom D"]) (auto simp: sem_notified_def)

lemma sem_promised_notify:
  assumes "finite (dom D)" "distinct q" "\<forall>a\<in>set q. \<exists>e. D a = Some e \<and> sw_state e = Sm_Waiting"
  shows "sem_promised (sem_notify (set q) D) = sem_promised D + sum_list (map (sem_required D) q)"
proof -
  have "sem_notified (sem_notify (set q) D) = sem_notified D \<union> set q"
    using assms(3) by (fastforce simp: sem_notified_def sem_notify_def split: if_splits)
  moreover have "sem_notified D \<inter> set q = {}"
    using assms(3) by (fastforce simp: sem_notified_def)
  moreover have "sem_required (sem_notify (set q) D) a = sem_required D a" for a
    using assms(3) by (auto simp: sem_required_def sem_notify_def)
  ultimately show ?thesis
    using assms(1,2) by (simp add: sem_promised_def sum.union_disjoint sum_list_distinct_conv_sum_set)
qed

text \<open>
  No wakeup is missing: in a fair semaphore the oldest waiter is notified when the permits
  suffice for it; in an unfair one the permits do not suffice for the oldest waiter on top of
  what the notified futures want. Either way, when the permits suffice for the oldest waiter,
  some future has been notified.
\<close>

definition sem_woken :: "sem_spec \<Rightarrow> bool" where
  "sem_woken S \<longleftrightarrow>
     (ss_queue S \<noteq> [] \<longrightarrow>
        (if ss_fair S
         then sw_required_permits (sem_entry S (last (ss_queue S))) \<le> ss_permits S \<longrightarrow>
              sw_state (sem_entry S (last (ss_queue S))) = Sm_Notified
         else unat (ss_permits S) <
              sem_promised (ss_entries S) + sem_required (ss_entries S) (last (ss_queue S))))"

lemma sem_spec_wakeup_fair:
  assumes inv: "sem_inv S" and fair: "ss_fair S"
  shows "sem_inv (snd (sem_spec_wakeup S)) \<and> sem_woken (snd (sem_spec_wakeup S))"
proof (cases "ss_queue S" rule: rev_cases)
  case Nil
  with inv fair show ?thesis by (simp add: sem_spec_wakeup_def sem_wake_fair sem_inv_def sem_woken_def)
next
  case (snoc xs a)
  with inv obtain e where e: "ss_entries S a = Some e" by (auto simp: sem_inv_def)
  have others: "sw_state e' \<noteq> Sm_Notified" if "ss_entries S b = Some e'" "b \<noteq> a" for b e'
    using sem_inv_notified [OF inv fair that(1)] snoc that(2) by auto
  show ?thesis
  proof (cases "ss_permits S < sw_required_permits e")
    case low: True
    with fair snoc e have "snd (sem_spec_wakeup S) = S"
      by (cases S) (simp add: sem_spec_wakeup_def sem_wake_fair)
    with inv fair low snoc e show ?thesis by (auto simp: sem_woken_def)
  next
    case False
    let ?S = "S\<lparr>ss_entries := (ss_entries S)(a \<mapsto> e\<lparr>sw_state := Sm_Notified\<rparr>)\<rparr>"
    have "snd (sem_spec_wakeup S) = ?S"
      using False fair snoc e by (cases S) (simp add: sem_spec_wakeup_def sem_wake_fair)
    moreover have "sem_inv ?S"
      using inv fair snoc False others by (simp add: sem_inv_def not_less) blast
    moreover have "sem_woken ?S" using snoc fair by (simp add: sem_woken_def)
    ultimately show ?thesis by simp
  qed
qed

text \<open>An unfair semaphore notifies the \<open>k\<close> oldest waiters.\<close>

lemma sem_inv_waiting:
  "sem_inv S \<Longrightarrow> \<not> ss_fair S \<Longrightarrow> a \<in> set (ss_queue S) \<Longrightarrow>
   \<exists>e. ss_entries S a = Some e \<and> sw_state e = Sm_Waiting"
  by (fastforce simp: sem_inv_def)

lemma sem_spec_wakeup_unfair:
  assumes inv: "sem_inv S" and fair: "\<not> ss_fair S"
  obtains k where "k \<le> length (ss_queue S)"
    "snd (sem_spec_wakeup S) = S\<lparr>ss_queue := rev (drop k (rev (ss_queue S))),
       ss_entries := sem_notify (set (take k (rev (ss_queue S)))) (ss_entries S)\<rparr>"
    "k < length (ss_queue S) \<longrightarrow> unat (ss_permits S) <
       sum_list (map (sem_required (ss_entries S)) (take (Suc k) (rev (ss_queue S))))"
proof -
  have "distinct (rev (ss_queue S))" using inv by (simp add: sem_inv_def)
  from sem_wake_unfair [OF this, of "ss_entries S" "ss_permits S"] sem_inv_waiting [OF inv fair] fair that
  show ?thesis by (fastforce simp: sem_spec_wakeup_def)
qed

lemma sem_notify_oldest_inv:
  assumes inv: "sem_inv S" and fair: "\<not> ss_fair S"
  shows "sem_inv (S\<lparr>ss_queue := rev (drop k (rev (ss_queue S))),
    ss_entries := sem_notify (set (take k (rev (ss_queue S)))) (ss_entries S)\<rparr>)"
proof -
  let ?q = "rev (ss_queue S)" and ?D = "ss_entries S"
  have dist: "distinct ?q" using inv by (simp add: sem_inv_def)
  let ?A = "set (take k ?q)"
  have split: "set (take k ?q) \<union> set (drop k ?q) = set (ss_queue S)" "set (take k ?q) \<inter> set (drop k ?q) = {}"
    using dist by (metis append_take_drop_id set_append set_rev, metis append_take_drop_id distinct_append)
  have entry: "(a \<in> set (drop k ?q) \<longleftrightarrow> sw_state e' = Sm_Waiting) \<and> (sw_state e' = Sm_Waiting \<longrightarrow> sw_task e' \<noteq> None)"
    if e': "sem_notify ?A ?D a = Some e'" for a e'
  proof (cases "a \<in> ?A")
    case True
    with e' split(2) show ?thesis by (auto simp: sem_notify_def)
  next
    case False
    with e' have "?D a = Some e'" by (simp add: sem_notify_def)
    with inv fair have "a \<in> set (ss_queue S) \<longleftrightarrow> sw_state e' = Sm_Waiting"
      "sw_state e' = Sm_Waiting \<longrightarrow> sw_task e' \<noteq> None"
      by (simp_all add: sem_inv_def)
    with False split(1) show ?thesis by blast
  qed
  have "set (drop k ?q) \<subseteq> dom ?D" using inv split(1) by (auto simp: sem_inv_def)
  with inv fair dist entry show ?thesis
    by (simp add: sem_inv_def)
qed

lemma sem_notify_oldest_woken:
  assumes inv: "sem_inv S" and fair: "\<not> ss_fair S"
    and k: "k \<le> length (ss_queue S)" "k < length (ss_queue S) \<longrightarrow> unat (ss_permits S) <
       sum_list (map (sem_required (ss_entries S)) (take (Suc k) (rev (ss_queue S))))"
  shows "sem_woken (S\<lparr>ss_queue := rev (drop k (rev (ss_queue S))),
    ss_entries := sem_notify (set (take k (rev (ss_queue S)))) (ss_entries S)\<rparr>)"
proof (cases "k < length (ss_queue S)")
  case True
  let ?q = "rev (ss_queue S)" and ?D = "ss_entries S"
  let ?A = "set (take k ?q)"
  have wait: "\<exists>e. ?D a = Some e \<and> sw_state e = Sm_Waiting" if "a \<in> set ?q" for a
    using sem_inv_waiting [OF inv fair, of a] that by simp
  have dist: "distinct ?q" using inv by (simp add: sem_inv_def)
  from True have lt: "k < length ?q" by simp
  have fin: "finite (dom ?D)" using inv by (simp add: sem_inv_def)
  from lt have last: "last (rev (drop k ?q)) = ?q ! k" "take (Suc k) ?q = take k ?q @ [?q ! k]"
    by (simp_all add: last_rev hd_drop_conv_nth take_Suc_conv_app_nth)
  have "sem_required (sem_notify ?A ?D) (?q ! k) = sem_required ?D (?q ! k)"
    using wait [OF nth_mem [OF lt]] by (auto simp: sem_required_def sem_notify_def)
  moreover have "sem_promised (sem_notify ?A ?D) = sem_promised ?D + sum_list (map (sem_required ?D) (take k ?q))"
    using fin dist wait by (intro sem_promised_notify) (auto dest: in_set_takeD)
  ultimately show ?thesis
    using fair True k(2) last by (simp add: sem_woken_def)
qed (use k(1) in \<open>simp add: sem_woken_def\<close>)

lemma sem_spec_wakeup_inv:
  assumes inv: "sem_inv S"
  shows "sem_inv (snd (sem_spec_wakeup S)) \<and> sem_woken (snd (sem_spec_wakeup S))"
proof (cases "ss_fair S")
  case False
  with inv show ?thesis
    by (metis sem_spec_wakeup_unfair sem_notify_oldest_inv sem_notify_oldest_woken)
qed (rule sem_spec_wakeup_fair [OF inv])

section \<open>The specification keeps the invariant\<close>

lemma sem_spec_release_inv:
  assumes "sem_inv S" "unat (ss_permits S) + unat n < 2 ^ 64"
  shows "sem_inv (snd (sem_spec_release n S)) \<and> (sem_woken S \<longrightarrow> sem_woken (snd (sem_spec_release n S)))"
proof -
  have "ss_permits S \<le> ss_permits S + n"
    using unat_add_no_overflow [OF assms(2)] by (simp add: word_le_nat_alt)
  with assms(1) have "sem_inv (S\<lparr>ss_permits := ss_permits S + n\<rparr>)"
    by (auto simp: sem_inv_def intro: order_trans)
  from sem_spec_wakeup_inv [OF this] assms(1) show ?thesis by (simp add: sem_spec_release_def)
qed

lemma sem_spec_try_acquire_inv:
  assumes inv: "sem_inv S"
  shows "sem_inv (snd (sem_spec_try_acquire n S)) \<and> (sem_woken S \<longrightarrow> sem_woken (snd (sem_spec_try_acquire n S)))"
proof (cases "fst (sem_spec_try_acquire n S)")
  case True
  then have n: "n \<le> ss_permits S" "ss_fair S \<Longrightarrow> ss_queue S = [] \<or> n = 0"
    and step: "snd (sem_spec_try_acquire n S) = S\<lparr>ss_permits := ss_permits S - n\<rparr>"
    by (auto simp: sem_spec_try_acquire_def split: if_splits)
  have "\<not> (sw_state e = Sm_Notified)" if "ss_fair S" "ss_queue S = []" "ss_entries S a = Some e" for a e
    using inv that by (auto simp: sem_inv_def)
  with inv n have "sem_inv (S\<lparr>ss_permits := ss_permits S - n\<rparr>)"
    by (cases "ss_fair S") (auto simp: sem_inv_def)
  moreover have "unat (ss_permits S - n) \<le> unat (ss_permits S)"
    using n(1) by (simp add: unat_sub word_le_nat_alt)
  then have "sem_woken S \<longrightarrow> sem_woken (S\<lparr>ss_permits := ss_permits S - n\<rparr>)"
    using n(2) by (auto simp: sem_woken_def)
  ultimately show ?thesis unfolding step by blast
next
  case False
  then have "snd (sem_spec_try_acquire n S) = S"
    by (auto simp: sem_spec_try_acquire_def split: if_splits)
  with inv show ?thesis by simp
qed

lemma sem_promised_upd:
  assumes "finite (dom D)" "D a = Some e" "sw_state e' \<noteq> Sm_Notified"
  shows "sem_promised D =
    sem_promised (D(a \<mapsto> e')) + (if sw_state e = Sm_Notified then unat (sw_required_permits e) else 0)"
proof -
  have rest: "sem_notified (D(a \<mapsto> e')) = sem_notified D - {a}"
    using assms(2,3) by (auto simp: sem_notified_def)
  have same: "(\<Sum>b\<in>sem_notified D - {a}. sem_required (D(a \<mapsto> e')) b) =
      (\<Sum>b\<in>sem_notified D - {a}. sem_required D b)"
    by (rule sum.cong) (auto simp: sem_required_def)
  show ?thesis
  proof (cases "sw_state e = Sm_Notified")
    case True
    with assms(2) have "a \<in> sem_notified D" by (simp add: sem_notified_def)
    with assms(1,2) True same show ?thesis
      by (simp add: sem_promised_def rest sum.remove [of "sem_notified D" a] sem_required_def)
  next
    case False
    with assms(2) have "sem_notified D - {a} = sem_notified D" by (auto simp: sem_notified_def)
    with False same show ?thesis by (simp add: sem_promised_def rest)
  qed
qed

lemma sem_required_upd [simp]:
  "sem_required (D(a \<mapsto> e)) b = (if b = a then unat (sw_required_permits e) else sem_required D b)"
  by (simp add: sem_required_def)

text \<open>A future that is done is outside the queue, and the permits may have changed.\<close>

lemma sem_finish_inv:
  assumes inv: "sem_inv S" and e: "ss_entries S a = Some e"
    and enough: "\<And>b e'. ss_fair S \<Longrightarrow> b \<noteq> a \<Longrightarrow> ss_entries S b = Some e' \<Longrightarrow>
      sw_state e' = Sm_Notified \<Longrightarrow> sw_required_permits e' \<le> p"
  shows "sem_inv (sem_finish a (S\<lparr>ss_permits := p\<rparr>))"
proof -
  have "last (remove1 a (ss_queue S)) = b \<and> sw_required_permits e' \<le> p"
    if "ss_fair S" "b \<noteq> a" "ss_entries S b = Some e'" "sw_state e' = Sm_Notified" for b e'
  proof -
    from sem_inv_notified [OF inv that(1,3,4)]
    have "b \<in> set (ss_queue S)" "b = last (ss_queue S)" by auto
    with that(2) show ?thesis
      using last_remove1 [of "ss_queue S" a] enough [OF that] by (cases "ss_queue S = []") auto
  qed
  with inv e show ?thesis
    by (auto simp: sem_finish_def sem_inv_def dest: notin_set_remove1)
qed

lemma sem_finish_woken:
  assumes inv: "sem_inv S" and e: "ss_entries S a = Some e" and "\<not> ss_fair S"
    and n: "sw_required_permits e \<le> ss_permits S" and woken: "sem_woken S"
  shows "sem_woken (sem_finish a (S\<lparr>ss_permits := ss_permits S - sw_required_permits e\<rparr>))"
proof (cases "remove1 a (ss_queue S) = []")
  case False
  let ?D = "ss_entries S" and ?e = "e\<lparr>sw_state := Sm_Done\<rparr>" and ?n = "sw_required_permits e"
  have "finite (dom ?D)" "distinct (ss_queue S)" using inv by (simp_all add: sem_inv_def)
  then have promised: "sem_promised ?D = sem_promised (?D(a \<mapsto> ?e)) + (if sw_state e = Sm_Notified then unat ?n else 0)"
    and other: "last (remove1 a (ss_queue S)) \<noteq> a"
    using sem_promised_upd [of ?D a e ?e] e last_in_set [OF False] by auto
  have less: "unat (ss_permits S - ?n) = unat (ss_permits S) - unat ?n" "unat ?n \<le> unat (ss_permits S)"
    using n by (simp_all add: unat_sub word_le_nat_alt)
  have old: "unat (ss_permits S) < sem_promised ?D + sem_required ?D (last (ss_queue S))"
    using woken False \<open>\<not> ss_fair S\<close> by (auto simp: sem_woken_def)
  have "unat (ss_permits S - ?n) < sem_promised (?D(a \<mapsto> ?e)) + sem_required ?D (last (remove1 a (ss_queue S)))"
  proof (cases "last (ss_queue S) = a")
    case True
    with False have "a \<in> set (ss_queue S)" using last_in_set [of "ss_queue S"] by (cases "ss_queue S") auto
    with sem_inv_entry [OF inv e] \<open>\<not> ss_fair S\<close> have "sw_state e = Sm_Waiting" by simp
    moreover from True e have "sem_required ?D (last (ss_queue S)) = unat ?n" by (simp add: sem_required_def)
    ultimately show ?thesis using old promised less by simp
  next
    case last: False
    with False have "last (remove1 a (ss_queue S)) = last (ss_queue S)"
      by (intro last_remove1) auto
    with old promised less show ?thesis by (auto split: if_splits)
  qed
  with False other e \<open>\<not> ss_fair S\<close> show ?thesis
    by (simp add: sem_woken_def sem_finish_def)
qed (simp add: sem_woken_def sem_finish_def)

text \<open>
  The two calls after which an unserved waiter may be left behind: dropping the oldest waiter
  while it waits for more permits than there are, and, in an unfair semaphore, polling a notified
  future whose permits are gone.
\<close>

definition sem_drop_hazard :: "addr \<Rightarrow> sem_spec \<Rightarrow> bool" where
  "sem_drop_hazard a S \<longleftrightarrow>
     sw_state (sem_entry S a) = Sm_Waiting \<and> a = last (ss_queue S) \<and> ss_queue S \<noteq> [a]"

definition sem_poll_hazard :: "addr \<Rightarrow> sem_spec \<Rightarrow> bool" where
  "sem_poll_hazard a S \<longleftrightarrow>
     \<not> ss_fair S \<and> sw_state (sem_entry S a) = Sm_Notified \<and>
     ss_permits S < sw_required_permits (sem_entry S a) \<and> ss_queue S \<noteq> []"

lemma sem_wait_inv:
  assumes inv: "sem_inv S" and e: "ss_entries S a = Some e" "sw_state e \<noteq> Sm_Done"
    and "ss_fair S \<Longrightarrow> sw_state e \<noteq> Sm_Notified"
  shows "sem_inv (sem_wait a cx S)"
proof -
  have "b \<noteq> a \<and> ss_queue S \<noteq> []" if "ss_fair S" "ss_entries S b = Some e'" "sw_state e' = Sm_Notified" for b e'
    using that assms sem_inv_notified [OF inv that] by auto
  with assms show ?thesis by (auto simp: sem_wait_def sem_inv_def)
qed

lemma sem_wait_woken:
  assumes inv: "sem_inv S" and e: "ss_entries S a = Some e" "sw_state e \<noteq> Sm_Done"
    and woken: "sem_woken S" and pending: "fst (sem_spec_poll a cx S) = Pending"
    and hazard: "\<not> sem_poll_hazard a S"
  shows "sem_woken (sem_wait a cx S)"
proof (cases "ss_queue S = []")
  case True
  then have "a \<notin> set (ss_queue S)" by simp
  with sem_inv_entry [OF inv e(1)] have fair: "ss_fair S \<Longrightarrow> sw_state e = Sm_New"
    using e(2) by (cases "sw_state e") auto
  with pending e(1) True have "\<not> sw_required_permits e \<le> ss_permits S"
    by (auto simp: sem_spec_poll_def Let_def split: if_splits)
  with True e(1) show ?thesis
    by (auto simp: sem_woken_def sem_wait_def word_le_nat_alt)
next
  case False
  let ?q = "if a \<in> set (ss_queue S) then ss_queue S else a # ss_queue S"
  let ?e = "e\<lparr>sw_task := Some cx, sw_state := Sm_Waiting\<rparr>"
  have last: "last ?q = last (ss_queue S)" using False by simp
  show ?thesis
  proof (cases "ss_fair S")
    case fair: True
    show ?thesis
    proof (cases "sw_state e = Sm_Notified")
      case True
      with pending e(1) sem_inv_notified [OF inv fair e(1) True] fair show ?thesis
        by (auto simp: sem_spec_poll_def Let_def split_def split: if_splits)
    next
      case other: False
      then show ?thesis
        using woken False fair e last by (auto simp: sem_woken_def sem_wait_def)
    qed
  next
    case unfair: False
    have not_notified: "sw_state e \<noteq> Sm_Notified"
    proof
      assume "sw_state e = Sm_Notified"
      with pending hazard e(1) False unfair show False
        by (auto simp: sem_spec_poll_def sem_poll_hazard_def Let_def not_le split: if_splits)
    qed
    have "finite (dom (ss_entries S))" using inv by (simp add: sem_inv_def)
    from sem_promised_upd [OF this e(1), of ?e] not_notified
    have "sem_promised ((ss_entries S)(a \<mapsto> ?e)) = sem_promised (ss_entries S)" by simp
    moreover have "sem_required (ss_entries S) a = unat (sw_required_permits e)"
      using e(1) by (simp add: sem_required_def)
    ultimately show ?thesis
      using woken False unfair e(1) last by (auto simp: sem_woken_def sem_wait_def)
  qed
qed

lemma sem_finish_waiting_woken:
  assumes inv: "sem_inv S" and e: "ss_entries S a = Some e" "sw_state e = Sm_Waiting"
    and woken: "sem_woken S" and hazard: "\<not> sem_drop_hazard a S"
  shows "sem_woken (sem_finish a S)"
proof (cases "remove1 a (ss_queue S) = []")
  case False
  from False hazard e have "last (ss_queue S) \<noteq> a" "ss_queue S \<noteq> []"
    by (auto simp: sem_drop_hazard_def remove1_eq_Nil)
  then have last: "last (remove1 a (ss_queue S)) = last (ss_queue S)" "last (ss_queue S) \<noteq> a"
    by (auto intro: last_remove1)
  have "finite (dom (ss_entries S))" using inv by (simp add: sem_inv_def)
  from sem_promised_upd [OF this e(1), of "e\<lparr>sw_state := Sm_Done\<rparr>"] e last woken False
  show ?thesis by (auto simp: sem_woken_def sem_finish_def)
qed (simp add: sem_woken_def sem_finish_def)

text \<open>A fair waiter that gets its permits, and then wakes the next one, in one formula.\<close>

lemma sem_spec_poll_fair_notified:
  assumes inv: "sem_inv S" and e: "ss_entries S a = Some e" "sw_state e = Sm_Notified" and fair: "ss_fair S"
  shows "snd (snd (sem_spec_poll a cx S)) =
    snd (sem_spec_wakeup (sem_finish a (S\<lparr>ss_permits := ss_permits S - sw_required_permits e\<rparr>)))"
proof -
  from sem_inv_notified [OF inv fair e] have n: "sw_required_permits e \<le> ss_permits S" by simp
  have "a \<notin> set (remove1 a (ss_queue S))" using inv by (simp add: sem_inv_def)
  then have "rev (remove1 a (ss_queue S)) \<noteq> [] \<Longrightarrow> hd (rev (remove1 a (ss_queue S))) \<noteq> a"
    by (metis hd_in_set set_rev)
  with n e fair show ?thesis
    by (auto simp: sem_spec_poll_def sem_spec_wakeup_def sem_wake_fair sem_finish_def Let_def
        fun_upd_twist)
qed

lemma sem_spec_poll_inv:
  assumes inv: "sem_inv S" and e: "ss_entries S a = Some e" "sw_state e \<noteq> Sm_Done"
  shows "sem_inv (snd (snd (sem_spec_poll a cx S))) \<and>
    (sem_woken S \<longrightarrow> \<not> sem_poll_hazard a S \<longrightarrow> sem_woken (snd (snd (sem_spec_poll a cx S))))"
proof (cases "ss_fair S \<and> sw_state e = Sm_Notified")
  case True
  then have fair: "ss_fair S" "sw_state e = Sm_Notified" by auto
  have "sem_inv (sem_finish a (S\<lparr>ss_permits := ss_permits S - sw_required_permits e\<rparr>))"
    by (rule sem_finish_inv [OF inv e(1)])
      (metis sem_inv_notified [OF inv fair(1)] e(1) fair(2))
  from sem_spec_wakeup_inv [OF this] show ?thesis
    unfolding sem_spec_poll_fair_notified [OF inv e(1) fair(2,1)] by blast
next
  case other: False
  let ?n = "sw_required_permits e"
  show ?thesis
  proof (cases "fst (sem_spec_poll a cx S)")
    case (Ready u)
    then have n: "?n \<le> ss_permits S"
      and fair: "ss_fair S \<Longrightarrow> sw_state e = Sm_New \<and> (ss_queue S = [] \<or> ?n = 0)"
      and step: "snd (snd (sem_spec_poll a cx S)) = sem_finish a (S\<lparr>ss_permits := ss_permits S - ?n\<rparr>)"
      using e(1) other by (auto simp: sem_spec_poll_def Let_def split: if_splits)
    have "sem_inv (sem_finish a (S\<lparr>ss_permits := ss_permits S - ?n\<rparr>))"
    proof (rule sem_finish_inv [OF inv e(1)])
      fix b e' assume "ss_fair S" and b: "ss_entries S b = Some e'" "sw_state e' = Sm_Notified"
      from sem_inv_notified [OF inv this] fair [OF this(1)] have "?n = 0"
        "sw_required_permits e' \<le> ss_permits S" by auto
      then show "sw_required_permits e' \<le> ss_permits S - ?n" by simp
    qed
    moreover have "sem_woken (sem_finish a (S\<lparr>ss_permits := ss_permits S - ?n\<rparr>))" if "sem_woken S"
    proof (cases "ss_fair S")
      case True
      with fair sem_inv_entry [OF inv e(1)] have new: "a \<notin> set (ss_queue S)"
        "ss_queue S = [] \<or> ?n = 0" by auto
      with that e(1) True show ?thesis
        by (cases "ss_queue S = []") (auto simp: sem_woken_def sem_finish_def remove1_idem)
    qed (use sem_finish_woken [OF inv e(1) _ n that] in simp)
    ultimately show ?thesis unfolding step by blast
  next
    case Pending
    then have step: "snd (snd (sem_spec_poll a cx S)) = sem_wait a cx S"
      by (auto simp: sem_spec_poll_def Let_def split_def split: if_splits)
    from sem_wait_inv [OF inv e] sem_wait_woken [OF inv e _ Pending] other show ?thesis
      unfolding step by blast
  qed
qed

lemma sem_spec_cancel_inv:
  assumes inv: "sem_inv S" and e: "ss_entries S a = Some e"
  shows "sem_inv (snd (sem_spec_cancel a S)) \<and>
    (sem_woken S \<longrightarrow> \<not> sem_drop_hazard a S \<longrightarrow> sem_woken (snd (sem_spec_cancel a S)))"
proof (cases "sw_state e")
  case Sm_Waiting
  have "sem_inv (sem_finish a (S\<lparr>ss_permits := ss_permits S\<rparr>))"
    by (rule sem_finish_inv [OF inv e]) (use sem_inv_notified [OF inv] in blast)
  with Sm_Waiting e sem_finish_waiting_woken [OF inv e] show ?thesis
    by (simp add: sem_spec_cancel_def)
next
  case Sm_Notified
  have "sem_inv (sem_finish a (S\<lparr>ss_permits := ss_permits S\<rparr>))"
    by (rule sem_finish_inv [OF inv e]) (use sem_inv_notified [OF inv] in blast)
  from sem_spec_wakeup_inv [OF this] Sm_Notified e show ?thesis
    by (simp add: sem_spec_cancel_def)
qed (use inv e in \<open>simp_all add: sem_spec_cancel_def\<close>)

section \<open>The semaphore with its futures and releasers\<close>

text \<open>
  The futures by the address of their wait node, the releasers alive in the order in which they
  were handed out, the wakers woken, and the number of permits that were put into the semaphore
  (its initial permits and the ones released by hand) less those taken out for good (disarmed).
\<close>

record sem_sys =
  sy_sem :: semaphore_state
  sy_nodes :: "semaphore_waiter store"
  sy_futures :: "addr \<rightharpoonup> semaphore_future"
  sy_releasers :: "semaphore_releaser list"
  sy_woken :: "waker list"
  sy_total :: nat

datatype sem_action =
    Sem_Acquire addr usize
  | Sem_Poll addr waker
  | Sem_Drop addr
  | Sem_Try_Acquire usize
  | Sem_Release usize
  | Sem_Drop_Releaser nat
  | Sem_Disarm nat

definition sem_sys_new :: "bool \<Rightarrow> usize \<Rightarrow> sem_sys" where
  "sem_sys_new is_fair permits =
     \<lparr>sy_sem = generic_semaphore_new is_fair permits, sy_nodes = Map.empty, sy_futures = Map.empty,
      sy_releasers = [], sy_woken = [], sy_total = unat permits\<rparr>"

text \<open>
  The contract of the API, as for the mutex; the permits released by hand must leave the total
  in the range of a \<open>usize\<close> (the code has no check of its own beyond that of the addition).
\<close>

fun sem_enabled :: "sem_action \<Rightarrow> sem_sys \<Rightarrow> bool" where
  "sem_enabled (Sem_Acquire a n) s = (sy_nodes s a = None)"
| "sem_enabled (Sem_Poll a cx) s =
     (case sy_futures s a of None \<Rightarrow> False | Some f \<Rightarrow> \<not> semaphore_future_is_terminated f)"
| "sem_enabled (Sem_Drop a) s = (sy_futures s a \<noteq> None)"
| "sem_enabled (Sem_Try_Acquire n) s = True"
| "sem_enabled (Sem_Release n) s = (sy_total s + unat n < 2 ^ 64)"
| "sem_enabled (Sem_Drop_Releaser i) s = (i < length (sy_releasers s))"
| "sem_enabled (Sem_Disarm i) s = (i < length (sy_releasers s))"

fun sem_exec :: "sem_action \<Rightarrow> sem_sys \<Rightarrow> sem_sys res" where
  "sem_exec (Sem_Acquire a n) s =
     (case semaphore_acquire a n of (f, node) \<Rightarrow>
        Inr (s\<lparr>sy_nodes := (sy_nodes s)(a \<mapsto> node), sy_futures := (sy_futures s)(a \<mapsto> f)\<rparr>))"
| "sem_exec (Sem_Poll a cx) s =
     and_then (deref (sy_futures s) a) (\<lambda>f.
     and_then (semaphore_future_poll f cx (sy_sem s) (sy_nodes s)) (\<lambda>(r, w, f, m, h).
     Inr (s\<lparr>sy_sem := m, sy_nodes := h, sy_futures := (sy_futures s)(a \<mapsto> f), sy_woken := sy_woken s @ w,
            sy_releasers := (case r of Pending \<Rightarrow> sy_releasers s | Ready g \<Rightarrow> sy_releasers s @ [g])\<rparr>)))"
| "sem_exec (Sem_Drop a) s =
     and_then (deref (sy_futures s) a) (\<lambda>f.
     and_then (semaphore_future_drop f (sy_sem s) (sy_nodes s)) (\<lambda>(w, m, h).
     Inr (s\<lparr>sy_sem := m, sy_nodes := h(a := None), sy_futures := (sy_futures s)(a := None),
            sy_woken := sy_woken s @ w\<rparr>)))"
| "sem_exec (Sem_Try_Acquire n) s =
     and_then (semaphore_try_acquire_api n (sy_sem s)) (\<lambda>(r, m).
     Inr (s\<lparr>sy_sem := m,
            sy_releasers := (case r of None \<Rightarrow> sy_releasers s | Some g \<Rightarrow> sy_releasers s @ [g])\<rparr>))"
| "sem_exec (Sem_Release n) s =
     and_then (generic_semaphore_release n (sy_sem s) (sy_nodes s)) (\<lambda>(w, m, h).
     Inr (s\<lparr>sy_sem := m, sy_nodes := h, sy_woken := sy_woken s @ w, sy_total := sy_total s + unat n\<rparr>))"
| "sem_exec (Sem_Drop_Releaser i) s =
     and_then (semaphore_releaser_drop (sy_releasers s ! i) (sy_sem s) (sy_nodes s)) (\<lambda>(w, m, h).
     Inr (s\<lparr>sy_sem := m, sy_nodes := h, sy_woken := sy_woken s @ w,
            sy_releasers := take i (sy_releasers s) @ drop (Suc i) (sy_releasers s)\<rparr>))"
| "sem_exec (Sem_Disarm i) s =
     (case semaphore_releaser_disarm (sy_releasers s ! i) of (n, r) \<Rightarrow>
        Inr (s\<lparr>sy_releasers := (sy_releasers s)[i := r], sy_total := sy_total s - unat n\<rparr>))"

abbreviation sem_reachable :: "bool \<Rightarrow> usize \<Rightarrow> sem_sys \<Rightarrow> bool" where
  "sem_reachable is_fair permits \<equiv> reach (\<lambda>s. s = sem_sys_new is_fair permits) sem_enabled sem_exec"

definition sem_held :: "semaphore_releaser list \<Rightarrow> nat" where
  "sem_held rs = sum_list (map (\<lambda>r. unat (sr_permits r)) rs)"

definition sem_done :: "(addr \<rightharpoonup> semaphore_waiter) \<Rightarrow> (addr \<rightharpoonup> bool)" where
  "sem_done D = (\<lambda>a. map_option (\<lambda>e. sw_state e = Sm_Done) (D a))"

definition sem_futures_ok :: "(addr \<rightharpoonup> semaphore_waiter) \<Rightarrow> (addr \<rightharpoonup> semaphore_future) \<Rightarrow> bool" where
  "sem_futures_ok D fs \<longleftrightarrow>
     (\<lambda>a. map_option (\<lambda>f. \<not> sf_semaphore f) (fs a)) = sem_done D \<and>
     (\<forall>a f. fs a = Some f \<longrightarrow> sf_wait_node f = a \<and> sf_auto_release f)"

text \<open>
  The invariant: the semaphore implements a specification state that satisfies \<open>sem_inv\<close>, a
  future has given up its semaphore exactly when it is done, and the free permits and those held
  by releasers add up to the permits put in.
\<close>

definition sem_sys_rep :: "bool \<Rightarrow> sem_sys \<Rightarrow> sem_spec \<Rightarrow> bool" where
  "sem_sys_rep is_fair s S \<longleftrightarrow>
     sem_abs (sy_sem s) (sy_nodes s) S \<and> sem_inv S \<and> ss_fair S = is_fair \<and>
     sem_futures_ok (ss_entries S) (sy_futures s) \<and>
     unat (ss_permits S) + sem_held (sy_releasers s) = sy_total s \<and> sy_total s < 2 ^ 64"

definition sem_sys_inv :: "bool \<Rightarrow> sem_sys \<Rightarrow> bool" where
  "sem_sys_inv is_fair s \<longleftrightarrow> (\<exists>S. sem_sys_rep is_fair s S)"

text \<open>Waking changes neither which futures are done nor the entries outside the queue.\<close>

lemma sem_wake_done:
  "\<forall>a\<in>set q. sem_done D a = Some False \<Longrightarrow> sem_done (snd (snd (sem_wake fair av q D))) = sem_done D"
proof (induction q arbitrary: av D)
  case (Cons a q)
  then obtain e where e: "D a = Some e" "sw_state e \<noteq> Sm_Done" by (auto simp: sem_done_def)
  then have same: "sem_done (D(a \<mapsto> e\<lparr>sw_state := Sm_Notified\<rparr>)) = sem_done D"
    by (auto simp: sem_done_def)
  with Cons.prems have "\<forall>b\<in>set q. sem_done (D(a \<mapsto> e\<lparr>sw_state := Sm_Notified\<rparr>)) b = Some False"
    by simp
  then have "sem_done (snd (snd (sem_wake fair av' q (D(a \<mapsto> e\<lparr>sw_state := Sm_Notified\<rparr>))))) =
      sem_done (D(a \<mapsto> e\<lparr>sw_state := Sm_Notified\<rparr>))" for av'
    by (rule Cons.IH)
  with same e show ?case by (auto simp: Let_def split_def simp del: fun_upd_apply)
qed simp

lemma sem_wake_outside: "a \<notin> set q \<Longrightarrow> snd (snd (sem_wake fair av q D)) a = D a"
  by (induction q arbitrary: av D) (auto simp: Let_def split_def)

lemma sem_queued_not_done:
  "sem_inv S \<Longrightarrow> a \<in> set (ss_queue S) \<Longrightarrow> sem_done (ss_entries S) a = Some False"
  by (fastforce simp: sem_inv_def sem_done_def)

lemma sem_spec_wakeup_facts:
  assumes "sem_inv S"
  shows "sem_done (ss_entries (snd (sem_spec_wakeup S))) = sem_done (ss_entries S)"
    "ss_permits (snd (sem_spec_wakeup S)) = ss_permits S"
    "ss_fair (snd (sem_spec_wakeup S)) = ss_fair S"
  using sem_wake_done [of "rev (ss_queue S)" "ss_entries S"] sem_queued_not_done [OF assms]
  by (simp_all add: sem_spec_wakeup_def split_def)

lemma sem_spec_wakeup_outside:
  "a \<notin> set (ss_queue S) \<Longrightarrow> ss_entries (snd (sem_spec_wakeup S)) a = ss_entries S a"
  by (simp add: sem_spec_wakeup_def split_def sem_wake_outside)

lemma sem_finish_facts:
  assumes "sem_inv S" "ss_entries S a = Some e"
  shows "sem_done (ss_entries (sem_finish a S)) = (sem_done (ss_entries S))(a \<mapsto> True)"
    "ss_permits (sem_finish a S) = ss_permits S" "ss_fair (sem_finish a S) = ss_fair S"
    "ss_entries (sem_finish a S) a = Some (e\<lparr>sw_state := Sm_Done\<rparr>)" "a \<notin> set (ss_queue (sem_finish a S))"
  using assms by (auto simp: sem_finish_def sem_done_def sem_inv_def)

lemma sem_spec_poll_facts:
  assumes inv: "sem_inv S" and e: "ss_entries S a = Some e" "sw_state e \<noteq> Sm_Done"
    and poll: "sem_spec_poll a cx S = (r, w, S')"
  shows "ss_fair S' = ss_fair S \<and> sem_done (ss_entries S') = (sem_done (ss_entries S))(a \<mapsto> is_ready r) \<and>
    (\<exists>e'. ss_entries S' a = Some e' \<and> sw_required_permits e' = sw_required_permits e) \<and>
    (if is_ready r
     then sw_required_permits e \<le> ss_permits S \<and> ss_permits S' = ss_permits S - sw_required_permits e
     else ss_permits S' = ss_permits S)"
proof -
  let ?n = "sw_required_permits e"
  let ?S = "S\<lparr>ss_permits := ss_permits S - ?n\<rparr>"
  show ?thesis
  proof (cases "is_ready r")
    case False
    then have "S' = sem_wait a cx S"
      using poll by (auto simp: sem_spec_poll_def Let_def split_def split: if_splits)
    with False e show ?thesis by (auto simp: sem_wait_def sem_done_def)
  next
    case True
    then have n: "?n \<le> ss_permits S"
      using poll e(1) by (auto simp: sem_spec_poll_def Let_def split_def split: if_splits)
    have "S' = sem_finish a ?S \<or>
        sem_inv (sem_finish a ?S) \<and> S' = snd (sem_spec_wakeup (sem_finish a ?S))"
    proof (cases "ss_fair S \<and> sw_state e = Sm_Notified")
      case fair: True
      then have "sem_inv (sem_finish a ?S)"
        by (intro sem_finish_inv [OF inv e(1)]) (metis sem_inv_notified [OF inv] e(1))
      with sem_spec_poll_fair_notified [OF inv e(1), of cx] fair poll show ?thesis by simp
    next
      case other: False
      with True poll e(1) show ?thesis
        by (auto simp: sem_spec_poll_def Let_def split: if_splits)
    qed
    moreover have "sem_done (ss_entries (sem_finish a ?S)) = (sem_done (ss_entries S))(a \<mapsto> True)"
      "ss_entries (sem_finish a ?S) a = Some (e\<lparr>sw_state := Sm_Done\<rparr>)" "a \<notin> set (ss_queue (sem_finish a ?S))"
      "ss_permits (sem_finish a ?S) = ss_permits S - ?n" "ss_fair (sem_finish a ?S) = ss_fair S"
      using e(1) inv by (auto simp: sem_finish_def sem_done_def sem_inv_def)
    ultimately show ?thesis
      using True n sem_spec_wakeup_facts [of "sem_finish a ?S"]
        sem_spec_wakeup_outside [of a "sem_finish a ?S"] by auto
  qed
qed

section \<open>The system keeps the invariant\<close>

fun sem_hazard :: "sem_action \<Rightarrow> sem_spec \<Rightarrow> bool" where
  "sem_hazard (Sem_Drop a) S = sem_drop_hazard a S"
| "sem_hazard (Sem_Poll a cx) S = sem_poll_hazard a S"
| "sem_hazard act S = False"

definition sem_guarantee :: "bool \<Rightarrow> sem_action \<Rightarrow> sem_spec \<Rightarrow> sem_sys \<Rightarrow> bool" where
  "sem_guarantee is_fair act S t \<longleftrightarrow>
     (\<exists>S'. sem_sys_rep is_fair t S' \<and> (sem_woken S \<longrightarrow> \<not> sem_hazard act S \<longrightarrow> sem_woken S'))"

lemma sem_guaranteeI:
  "sem_sys_rep is_fair t S' \<Longrightarrow> (sem_woken S \<Longrightarrow> \<not> sem_hazard act S \<Longrightarrow> sem_woken S') \<Longrightarrow>
   sem_guarantee is_fair act S t"
  by (auto simp: sem_guarantee_def)

lemma sem_futures_okD:
  assumes "sem_futures_ok D fs" "fs a = Some f"
  shows "\<exists>e. D a = Some e \<and> sf_wait_node f = a \<and> sf_auto_release f \<and> (sf_semaphore f \<longleftrightarrow> sw_state e \<noteq> Sm_Done)"
proof -
  have "map_option (\<lambda>f. \<not> sf_semaphore f) (fs a) = sem_done D a"
    using assms(1) by (auto simp: sem_futures_ok_def dest: fun_cong [of _ _ a])
  with assms show ?thesis by (cases "D a") (auto simp: sem_done_def sem_futures_ok_def)
qed

lemma sf_semaphore_same [simp]: "sf_semaphore f \<Longrightarrow> f\<lparr>sf_semaphore := True\<rparr> = f"
  by (cases f) simp

lemma sem_acquire_preserves:
  assumes rep: "sem_sys_rep is_fair s S" and fresh: "sy_nodes s a = None"
  shows "returns (sem_exec (Sem_Acquire a n) s) (sem_guarantee is_fair (Sem_Acquire a n) S)"
proof -
  let ?D = "(ss_entries S)(a \<mapsto> semaphore_waiter_new n)"
  from rep have S: "sem_abs (sy_sem s) (sy_nodes s) S" "sem_inv S" "sem_futures_ok (ss_entries S) (sy_futures s)"
    by (simp_all add: sem_sys_rep_def)
  from S(1) have "ss_entries S = data_of (sy_nodes s)" by (simp add: sem_abs_def)
  with fresh have new: "ss_entries S a = None" by simp
  with S(2) have q: "a \<notin> set (ss_queue S)" by (auto simp: sem_inv_def)
  have "sem_abs (sy_sem s) ((sy_nodes s)(a \<mapsto> list_node_new (semaphore_waiter_new n))) (S\<lparr>ss_entries := ?D\<rparr>)"
    using S(1) fresh by (auto simp: sem_abs_def list_node_new_def intro: ll_rep_alloc [unfolded list_node_new_def])
  moreover have "sem_inv (S\<lparr>ss_entries := ?D\<rparr>)"
    using S(2) q by (auto simp: sem_inv_def semaphore_waiter_new_def)
  moreover have "sem_futures_ok ?D ((sy_futures s)(a \<mapsto> fst (semaphore_acquire a n)))"
    using S(3) by (auto simp: sem_futures_ok_def sem_done_def semaphore_waiter_new_def semaphore_acquire_def fun_eq_iff)
  moreover have "sem_woken (S\<lparr>ss_entries := ?D\<rparr>)" if "sem_woken S"
  proof -
    have "sem_notified ?D = sem_notified (ss_entries S)"
      using new by (auto simp: sem_notified_def semaphore_waiter_new_def)
    moreover have "a \<notin> sem_notified (ss_entries S)" using new by (simp add: sem_notified_def)
    ultimately have "sem_promised ?D = sem_promised (ss_entries S)"
      by (auto simp: sem_promised_def intro!: sum.cong)
    moreover have "ss_queue S \<noteq> [] \<Longrightarrow> last (ss_queue S) \<noteq> a" using q by auto
    ultimately show ?thesis using that by (auto simp: sem_woken_def)
  qed
  ultimately show ?thesis
    using rep by (auto simp: semaphore_acquire_def sem_sys_rep_def intro!: sem_guaranteeI)
qed

lemma sem_futures_ok_upd:
  "sem_futures_ok D fs \<Longrightarrow> sem_done D' = (sem_done D)(a \<mapsto> \<not> sf_semaphore f) \<Longrightarrow>
   sf_wait_node f = a \<Longrightarrow> sf_auto_release f \<Longrightarrow> sem_futures_ok D' (fs(a \<mapsto> f))"
  by (auto simp: sem_futures_ok_def fun_eq_iff)

lemma sem_held_simps [simp]:
  "sem_held [] = 0" "sem_held (rs @ [r]) = sem_held rs + unat (sr_permits r)"
  by (simp_all add: sem_held_def)

lemma sem_poll_preserves:
  assumes rep: "sem_sys_rep is_fair s S" and f: "sy_futures s a = Some f" "sf_semaphore f"
  shows "returns (sem_exec (Sem_Poll a cx) s) (sem_guarantee is_fair (Sem_Poll a cx) S)"
proof -
  from rep have S: "sem_abs (sy_sem s) (sy_nodes s) S" "sem_inv S" "sem_futures_ok (ss_entries S) (sy_futures s)"
    "ss_fair S = is_fair" "unat (ss_permits S) + sem_held (sy_releasers s) = sy_total s" "sy_total s < 2 ^ 64"
    by (simp_all add: sem_sys_rep_def)
  from sem_futures_okD [OF S(3) f(1)] f(2) obtain e where
    e: "ss_entries S a = Some e" "sw_state e \<noteq> Sm_Done" and fa: "sf_wait_node f = a" "sf_auto_release f"
    by blast
  obtain r w S' where poll: "sem_spec_poll a cx S = (r, w, S')" by (metis prod_cases3)
  note facts = sem_spec_poll_facts [OF S(2) e poll]
  have inv: "sem_inv S'" "sem_woken S \<Longrightarrow> \<not> sem_poll_hazard a S \<Longrightarrow> sem_woken S'"
    using sem_spec_poll_inv [OF S(2) e, of cx] poll by auto
  let ?f = "f\<lparr>sf_semaphore := \<not> is_ready r\<rparr>" and ?n = "sw_required_permits e"
  have futures: "sem_futures_ok (ss_entries S') ((sy_futures s)(a \<mapsto> ?f))"
    using facts fa by (intro sem_futures_ok_upd [OF S(3)]) auto
  have pending: "sem_guarantee is_fair (Sem_Poll a cx) S
      (s\<lparr>sy_sem := m, sy_nodes := h, sy_futures := (sy_futures s)(a \<mapsto> f), sy_woken := ws\<rparr>)"
    if "r = Pending" "sem_abs m h S'" for m h ws
    using that facts inv futures f(2) S(4-6)
    by (intro sem_guaranteeI [where S' = S']) (auto simp: sem_sys_rep_def)
  have ready: "sem_guarantee is_fair (Sem_Poll a cx) S
      (s\<lparr>sy_sem := m, sy_nodes := h, sy_futures := (sy_futures s)(a \<mapsto> f\<lparr>sf_semaphore := False\<rparr>), sy_woken := ws,
         sy_releasers := sy_releasers s @ [\<lparr>sr_permits = ?n\<rparr>]\<rparr>)"
    if "r = Ready ()" "sem_abs m h S'" for m h ws
  proof -
    from that(1) facts have "?n \<le> ss_permits S" "ss_permits S' = ss_permits S - ?n" by auto
    then have "unat (ss_permits S') + unat ?n = unat (ss_permits S)"
      by (simp add: unat_sub word_le_nat_alt)
    with that facts inv futures S(4-6) show ?thesis
      by (intro sem_guaranteeI [where S' = S']) (auto simp: sem_sys_rep_def)
  qed
  from facts obtain e' where e': "ss_entries S' a = Some e'" "sw_required_permits e' = ?n" by blast
  show ?thesis
  proof (cases r)
    case (Ready u)
    with semaphore_try_acquire_refines [OF S(1,2) e, of cx] f fa e' ready poll show ?thesis
      by (auto simp: semaphore_future_poll_def elim!: returns_mono)
  next
    case Pending
    with semaphore_try_acquire_refines [OF S(1,2) e, of cx] f fa e' pending poll show ?thesis
      by (auto simp: semaphore_future_poll_def elim!: returns_mono)
  qed
qed

lemma sem_try_acquire_preserves:
  assumes rep: "sem_sys_rep is_fair s S"
  shows "returns (sem_exec (Sem_Try_Acquire n) s) (sem_guarantee is_fair (Sem_Try_Acquire n) S)"
proof -
  from rep have S: "sem_abs (sy_sem s) (sy_nodes s) S" "sem_inv S" "sem_futures_ok (ss_entries S) (sy_futures s)"
    "ss_fair S = is_fair" "unat (ss_permits S) + sem_held (sy_releasers s) = sy_total s" "sy_total s < 2 ^ 64"
    by (simp_all add: sem_sys_rep_def)
  obtain ok S' where try_acquire: "sem_spec_try_acquire n S = (ok, S')" by fastforce
  have same: "ss_entries S' = ss_entries S" "ss_fair S' = ss_fair S"
    "unat (ss_permits S') + (if ok then unat n else 0) = unat (ss_permits S)"
    using try_acquire by (auto simp: sem_spec_try_acquire_def unat_sub word_le_nat_alt split: if_splits)
  have "sem_guarantee is_fair (Sem_Try_Acquire n) S (s\<lparr>sy_sem := m,
      sy_releasers := (if ok then sy_releasers s @ [\<lparr>sr_permits = n\<rparr>] else sy_releasers s)\<rparr>)"
    if "sem_abs m (sy_nodes s) S'" for m
    using that sem_spec_try_acquire_inv [OF S(2), of n] same S(3-6) try_acquire
    by (intro sem_guaranteeI [where S' = S']) (auto simp: sem_sys_rep_def split: if_splits)
  then show ?thesis
    using semaphore_try_acquire_sync_refines [OF S(1), of n] try_acquire
    by (auto simp: semaphore_try_acquire_api_def elim!: returns_mono)
qed

text \<open>Releasing \<open>n\<close> permits that are accounted for as held, or as newly added.\<close>

lemma sem_release_wp:
  assumes rep: "sem_sys_rep is_fair s S" and room: "unat (ss_permits S) + unat n + sem_held rs < 2 ^ 64"
  shows "returns (semaphore_release n (sy_sem s) (sy_nodes s)) (\<lambda>(w, m, h).
    sem_guarantee is_fair (Sem_Release n) S (s\<lparr>sy_sem := m, sy_nodes := h, sy_woken := sy_woken s @ w,
      sy_releasers := rs, sy_total := unat (ss_permits S) + unat n + sem_held rs\<rparr>))"
proof -
  from rep have S: "sem_abs (sy_sem s) (sy_nodes s) S" "sem_inv S" "sem_futures_ok (ss_entries S) (sy_futures s)"
    "ss_fair S = is_fair" by (simp_all add: sem_sys_rep_def)
  from room have n: "unat (ss_permits S) + unat n < 2 ^ 64" by simp
  obtain w S' where release: "sem_spec_release n S = (w, S')" by fastforce
  have "sem_inv (S\<lparr>ss_permits := ss_permits S + n\<rparr>)"
  proof -
    have "ss_permits S \<le> ss_permits S + n"
      using unat_add_no_overflow [OF n] by (simp add: word_le_nat_alt)
    with S(2) show ?thesis by (auto simp: sem_inv_def intro: order_trans)
  qed
  from sem_spec_wakeup_facts [OF this] release have same: "sem_done (ss_entries S') = sem_done (ss_entries S)"
    "ss_fair S' = ss_fair S" "unat (ss_permits S') = unat (ss_permits S) + unat n"
    using unat_add_no_overflow [OF n] by (auto simp: sem_spec_release_def split: if_splits)
  have "sem_futures_ok (ss_entries S') (sy_futures s)"
    using S(3) same(1) by (simp add: sem_futures_ok_def)
  then have "sem_guarantee is_fair (Sem_Release n) S (s\<lparr>sy_sem := m, sy_nodes := h, sy_woken := ws,
      sy_releasers := rs, sy_total := unat (ss_permits S) + unat n + sem_held rs\<rparr>)"
    if "sem_abs m h S'" for m h ws
    using that sem_spec_release_inv [OF S(2) n] release same(2,3) S(4) room
    by (intro sem_guaranteeI [where S' = S']) (auto simp: sem_sys_rep_def)
  then show ?thesis
    using semaphore_release_refines [OF S(1) n] release by (auto elim!: returns_mono)
qed

lemma sem_release_preserves:
  assumes rep: "sem_sys_rep is_fair s S" and room: "sy_total s + unat n < 2 ^ 64"
  shows "returns (sem_exec (Sem_Release n) s) (sem_guarantee is_fair (Sem_Release n) S)"
proof -
  from rep have total: "unat (ss_permits S) + sem_held (sy_releasers s) = sy_total s"
    by (simp add: sem_sys_rep_def)
  with room have "unat (ss_permits S) + unat n + sem_held (sy_releasers s) < 2 ^ 64" by simp
  from sem_release_wp [OF rep this] total show ?thesis
    by (auto simp: add.assoc add.commute [of "unat n"] elim!: returns_mono simp flip: total)
qed

lemma sem_held_split:
  "i < length rs \<Longrightarrow> sem_held rs = unat (sr_permits (rs ! i)) + sem_held (take i rs @ drop (Suc i) rs)"
  by (subst id_take_nth_drop [of i rs]) (simp_all add: sem_held_def)

lemma sem_drop_releaser_preserves:
  assumes rep: "sem_sys_rep is_fair s S" and i: "i < length (sy_releasers s)"
  shows "returns (sem_exec (Sem_Drop_Releaser i) s) (sem_guarantee is_fair (Sem_Drop_Releaser i) S)"
proof -
  let ?n = "sr_permits (sy_releasers s ! i)" and ?rs = "take i (sy_releasers s) @ drop (Suc i) (sy_releasers s)"
  from rep have total: "unat (ss_permits S) + sem_held (sy_releasers s) = sy_total s" "sy_total s < 2 ^ 64"
    by (simp_all add: sem_sys_rep_def)
  with sem_held_split [OF i] have held: "unat (ss_permits S) + unat ?n + sem_held ?rs = sy_total s" by simp
  show ?thesis
  proof (cases "?n = 0")
    case True
    with held rep show ?thesis
      by (auto simp: semaphore_releaser_drop_def sem_sys_rep_def intro!: sem_guaranteeI [where S' = S])
  next
    case False
    from held total(2) sem_release_wp [OF rep, of ?n ?rs] False show ?thesis
      by (auto simp: semaphore_releaser_drop_def sem_guarantee_def elim!: returns_mono)
  qed
qed

lemma sem_disarm_preserves:
  assumes rep: "sem_sys_rep is_fair s S" and i: "i < length (sy_releasers s)"
  shows "returns (sem_exec (Sem_Disarm i) s) (sem_guarantee is_fair (Sem_Disarm i) S)"
proof -
  have "sem_held (sy_releasers s) =
      unat (sr_permits (sy_releasers s ! i)) + sem_held ((sy_releasers s)[i := (sy_releasers s ! i)\<lparr>sr_permits := 0\<rparr>])"
    using sem_held_split [OF i] i by (simp add: upd_conv_take_nth_drop sem_held_def)
  with rep show ?thesis
    by (auto simp: semaphore_releaser_disarm_def sem_sys_rep_def intro!: sem_guaranteeI [where S' = S])
qed

lemma sem_free_rep:
  assumes S: "sem_abs m h S" "sem_inv S" "sem_futures_ok D fs" and fin: "sem_done (ss_entries S) = (sem_done D)(a \<mapsto> b)"
    and e: "ss_entries S a = Some e" "sw_state e = Sm_Done \<or> sw_state e = Sm_New"
  defines "S' \<equiv> S\<lparr>ss_entries := (ss_entries S)(a := None)\<rparr>"
  shows "sem_abs m (h(a := None)) S' \<and> sem_inv S' \<and> sem_futures_ok (ss_entries S') (fs(a := None)) \<and>
    (sem_woken S \<longrightarrow> sem_woken S')"
proof -
  have q: "a \<notin> set (ss_queue S)" using sem_inv_entry [OF S(2) e(1)] e(2) by auto
  have "sem_abs m (h(a := None)) S'"
    using S(1) q by (auto simp: sem_abs_def S'_def intro: ll_rep_free)
  moreover have "sem_inv S'" using S(2) q by (auto simp: sem_inv_def S'_def)
  moreover have "sem_done (ss_entries S') = (sem_done D)(a := None)"
    using fin by (auto simp: S'_def sem_done_def fun_eq_iff)
  then have "sem_futures_ok (ss_entries S') (fs(a := None))"
    using S(3) by (auto simp: sem_futures_ok_def fun_eq_iff)
  moreover have "sem_woken S'" if "sem_woken S"
  proof -
    have "sem_notified (ss_entries S') = sem_notified (ss_entries S)"
      using e by (auto simp: sem_notified_def S'_def)
    moreover have "a \<notin> sem_notified (ss_entries S)" using e by (auto simp: sem_notified_def)
    ultimately have "sem_promised (ss_entries S') = sem_promised (ss_entries S)"
      by (auto simp: sem_promised_def sem_required_def S'_def intro!: sum.cong)
    moreover have "ss_queue S \<noteq> [] \<Longrightarrow> last (ss_queue S) \<noteq> a" using q by auto
    ultimately show ?thesis using that by (auto simp: sem_woken_def sem_required_def S'_def)
  qed
  ultimately show ?thesis by blast
qed

lemma sem_spec_cancel_facts:
  assumes inv: "sem_inv S" and e: "ss_entries S a = Some e" "sw_state e \<noteq> Sm_Done"
  shows "\<exists>b e'. sem_done (ss_entries (snd (sem_spec_cancel a S))) = (sem_done (ss_entries S))(a \<mapsto> b) \<and>
    ss_entries (snd (sem_spec_cancel a S)) a = Some e' \<and> (sw_state e' = Sm_Done \<or> sw_state e' = Sm_New) \<and>
    ss_permits (snd (sem_spec_cancel a S)) = ss_permits S \<and> ss_fair (snd (sem_spec_cancel a S)) = ss_fair S"
proof (cases "sw_state e")
  case Sm_Notified
  have inv': "sem_inv (sem_finish a (S\<lparr>ss_permits := ss_permits S\<rparr>))"
    by (rule sem_finish_inv [OF inv e(1)]) (use sem_inv_notified [OF inv] in blast)
  with Sm_Notified e(1) sem_finish_facts [OF inv e(1)] sem_spec_wakeup_facts [of "sem_finish a S"]
    sem_spec_wakeup_outside [of a "sem_finish a S"] show ?thesis
    by (intro exI [of _ True] exI [of _ "e\<lparr>sw_state := Sm_Done\<rparr>"]) (simp add: sem_spec_cancel_def)
next
  case Sm_Waiting
  with e(1) sem_finish_facts [OF inv e(1)] show ?thesis
    by (intro exI [of _ True] exI [of _ "e\<lparr>sw_state := Sm_Done\<rparr>"]) (simp add: sem_spec_cancel_def)
next
  case Sm_New
  with e(1) show ?thesis
    by (intro exI [of _ False] exI [of _ e]) (auto simp: sem_spec_cancel_def sem_done_def)
qed (use e in simp)

lemma sem_drop_preserves:
  assumes rep: "sem_sys_rep is_fair s S" and f: "sy_futures s a = Some f"
  shows "returns (sem_exec (Sem_Drop a) s) (sem_guarantee is_fair (Sem_Drop a) S)"
proof -
  from rep have S: "sem_abs (sy_sem s) (sy_nodes s) S" "sem_inv S" "sem_futures_ok (ss_entries S) (sy_futures s)"
    "ss_fair S = is_fair" "unat (ss_permits S) + sem_held (sy_releasers s) = sy_total s" "sy_total s < 2 ^ 64"
    by (simp_all add: sem_sys_rep_def)
  from sem_futures_okD [OF S(3) f(1)] obtain e where
    e: "ss_entries S a = Some e" "sf_wait_node f = a" "sf_semaphore f \<longleftrightarrow> sw_state e \<noteq> Sm_Done"
    by blast
  have free: "sem_guarantee is_fair (Sem_Drop a) S (s\<lparr>sy_sem := m, sy_nodes := h(a := None),
      sy_futures := (sy_futures s)(a := None), sy_woken := ws\<rparr>)"
    if "sem_abs m h S'" "sem_inv S'" "sem_done (ss_entries S') = (sem_done (ss_entries S))(a \<mapsto> b)"
      "ss_entries S' a = Some e'" "sw_state e' = Sm_Done \<or> sw_state e' = Sm_New"
      "ss_permits S' = ss_permits S" "ss_fair S' = ss_fair S"
      "sem_woken S \<Longrightarrow> \<not> sem_drop_hazard a S \<Longrightarrow> sem_woken S'" for m h ws S' b e'
    using sem_free_rep [OF that(1,2) S(3) that(3-5)] that(6-8) S(4-6)
    by (intro sem_guaranteeI [where S' = "S'\<lparr>ss_entries := (ss_entries S')(a := None)\<rparr>"])
      (auto simp: sem_sys_rep_def)
  show ?thesis
  proof (cases "sf_semaphore f")
    case False
    with e(1,3) have "sem_done (ss_entries S) = (sem_done (ss_entries S))(a \<mapsto> True)"
      by (auto simp: sem_done_def)
    from free [OF S(1,2) this e(1) _ _ _, of "sy_woken s"] False e(3) f show ?thesis
      by (simp add: semaphore_future_drop_def)
  next
    case True
    with e(3) have "sw_state e \<noteq> Sm_Done" by simp
    from sem_spec_cancel_facts [OF S(2) e(1) this] obtain b e' where
      c: "sem_done (ss_entries (snd (sem_spec_cancel a S))) = (sem_done (ss_entries S))(a \<mapsto> b)"
        "ss_entries (snd (sem_spec_cancel a S)) a = Some e'" "sw_state e' = Sm_Done \<or> sw_state e' = Sm_New"
        "ss_permits (snd (sem_spec_cancel a S)) = ss_permits S" "ss_fair (snd (sem_spec_cancel a S)) = ss_fair S"
      by blast
    from sem_spec_cancel_inv [OF S(2) e(1)] have
      "sem_inv (snd (sem_spec_cancel a S))"
      "sem_woken S \<Longrightarrow> \<not> sem_drop_hazard a S \<Longrightarrow> sem_woken (snd (sem_spec_cancel a S))" by auto
    note free [OF _ this(1) c this(2)]
    with semaphore_remove_waiter_refines [OF S(1,2) e(1)] True e(2) f show ?thesis
      by (auto simp: semaphore_future_drop_def elim!: returns_mono)
  qed
qed

lemma sem_exec_guarantee:
  assumes "sem_sys_rep is_fair s S" "sem_enabled act s"
  shows "returns (sem_exec act s) (sem_guarantee is_fair act S)"
  using assms
  by (cases act) (auto split: option.splits simp: semaphore_future_is_terminated_def
      simp del: sem_exec.simps intro: sem_acquire_preserves sem_poll_preserves sem_drop_preserves
      sem_try_acquire_preserves sem_release_preserves sem_drop_releaser_preserves sem_disarm_preserves)

lemma sem_sys_new_rep:
  "sem_sys_rep is_fair (sem_sys_new is_fair p)
     \<lparr>ss_fair = is_fair, ss_permits = p, ss_queue = [], ss_entries = Map.empty\<rparr>"
  using unat_usize_less [of p]
  by (auto simp: sem_sys_rep_def sem_sys_new_def semaphore_state_new_def sem_abs_def ll_rep_new
      sem_inv_def sem_futures_ok_def sem_done_def data_of_def)

interpretation sys: transition_system "\<lambda>s. s = sem_sys_new is_fair p" sem_enabled sem_exec
  "sem_sys_inv is_fair" for is_fair p
proof unfold_locales
  show "sem_sys_inv is_fair s" if "s = sem_sys_new is_fair p" for s
    using that sem_sys_new_rep by (auto simp: sem_sys_inv_def)
  show "returns (sem_exec a s) (sem_sys_inv is_fair)" if "sem_sys_inv is_fair s" "sem_enabled a s" for a s
    using that sem_exec_guarantee
    by (fastforce simp: sem_sys_inv_def sem_guarantee_def elim!: returns_mono)
qed

section \<open>Calls that may leave a waiter behind\<close>

text \<open>The hazards in terms of the code's state.\<close>

fun sem_leaves_behind :: "sem_action \<Rightarrow> sem_sys \<Rightarrow> bool" where
  "sem_leaves_behind (Sem_Drop a) s =
     (case read_data (sy_nodes s) a of
        Inl _ \<Rightarrow> False
      | Inr e \<Rightarrow> sw_state e = Sm_Waiting \<and> ll_peek_last (sm_waiters (sy_sem s)) = Some a \<and>
          ll_peek_first (sm_waiters (sy_sem s)) \<noteq> Some a)"
| "sem_leaves_behind (Sem_Poll a cx) s =
     (case read_data (sy_nodes s) a of
        Inl _ \<Rightarrow> False
      | Inr e \<Rightarrow> \<not> sm_is_fair (sy_sem s) \<and> sw_state e = Sm_Notified \<and>
          sm_permits (sy_sem s) < sw_required_permits e \<and> ll_peek_first (sm_waiters (sy_sem s)) \<noteq> None)"
| "sem_leaves_behind act s = False"

definition sem_careful :: "sem_action \<Rightarrow> sem_sys \<Rightarrow> bool" where
  "sem_careful act s \<longleftrightarrow> sem_enabled act s \<and> \<not> sem_leaves_behind act s"

lemma sem_hazard_leaves_behind:
  assumes rep: "sem_sys_rep is_fair s S" and "sem_enabled act s" and hazard: "sem_hazard act S"
  shows "sem_leaves_behind act s"
proof -
  from rep have S: "sem_abs (sy_sem s) (sy_nodes s) S" "sem_inv S" "sem_futures_ok (ss_entries S) (sy_futures s)"
    by (simp_all add: sem_sys_rep_def)
  have live: "\<exists>e. ss_entries S a = Some e" if "sy_futures s a = Some f" for a f
    using sem_futures_okD [OF S(3) that] by blast
  have "xs = [a]" if "distinct xs" "last xs = a" "first_or xs None = Some a" for xs and a :: addr
    using that by (cases xs) (auto split: if_splits)
  then have ends: "first_or (ss_queue S) None \<noteq> Some a"
    if "a = last (ss_queue S)" "ss_queue S \<noteq> [a]" for a
    using that S(2) by (metis sem_inv_def)
  show ?thesis
  proof (cases act)
    case (Sem_Drop a)
    with assms(2) live obtain e where "ss_entries S a = Some e" by auto
    moreover have "ss_queue S \<noteq> []"
      using sem_inv_entry [OF S(2) calculation] hazard Sem_Drop calculation
      by (auto simp: sem_drop_hazard_def)
    ultimately show ?thesis
      using hazard Sem_Drop S(1) ends [of a]
      by (auto simp: sem_drop_hazard_def sem_abs_def last_or_def)
  next
    case (Sem_Poll a cx)
    with assms(2) live obtain e where "ss_entries S a = Some e" by (auto split: option.splits)
    then show ?thesis
      using hazard Sem_Poll S(1)
      by (cases "ss_queue S") (auto simp: sem_poll_hazard_def sem_abs_def)
  qed (use hazard in auto)
qed

interpretation careful: transition_system "\<lambda>s. s = sem_sys_new is_fair p" sem_careful sem_exec
  "\<lambda>s. \<exists>S. sem_sys_rep is_fair s S \<and> sem_woken S" for is_fair p
proof unfold_locales
  show "\<exists>S. sem_sys_rep is_fair s S \<and> sem_woken S" if "s = sem_sys_new is_fair p" for s
    using that sem_sys_new_rep [of is_fair p] by (auto simp: sem_woken_def)
  show "returns (sem_exec a s) (\<lambda>t. \<exists>S. sem_sys_rep is_fair t S \<and> sem_woken S)"
    if inv: "\<exists>S. sem_sys_rep is_fair s S \<and> sem_woken S" and "sem_careful a s" for a s
  proof -
    from that obtain S where S: "sem_sys_rep is_fair s S" "sem_woken S"
      and a: "sem_enabled a s" "\<not> sem_leaves_behind a s"
      by (auto simp: sem_careful_def)
    from sem_hazard_leaves_behind [OF S(1) a(1)] a(2) have "\<not> sem_hazard a S" by blast
    with sem_exec_guarantee [OF S(1) a(1)] S(2) show ?thesis
      by (auto simp: sem_guarantee_def elim!: returns_mono)
  qed
qed

section \<open>Properties\<close>

lemmas semaphore_eval =
  sem_sys_new_def semaphore_state_new_def semaphore_waiter_new_def semaphore_acquire_def
  semaphore_future_poll_def semaphore_future_is_terminated_def semaphore_future_drop_def
  semaphore_try_acquire_api_def semaphore_releaser_drop_def semaphore_releaser_disarm_def
  semaphore_try_acquire_def semaphore_try_acquire_sync_def semaphore_enqueue_def
  semaphore_release_def semaphore_wakeup_waiters_def semaphore_wakeup_loop.simps
  semaphore_remove_waiter_def semaphore_force_remove_waiter_def usize_add_def usize_sub_def

text \<open>
  A concrete run for the witnesses: a fair semaphore without permits, a future at 2 that waits
  for 5 and one at 3 that waits for 2; then 5 permits are released.
\<close>

abbreviation sem_demo_acts :: "sem_action list" where
  "sem_demo_acts \<equiv> [Sem_Acquire 2 5, Sem_Poll 2 (Waker 2 0), Sem_Acquire 3 2, Sem_Poll 3 (Waker 3 0), Sem_Release 5]"

definition sem_demo :: sem_sys where
  "sem_demo = the (exec_all sem_careful sem_exec sem_demo_acts (sem_sys_new True 0))"

lemma sem_demo_run:
  "exec_all sem_careful sem_exec sem_demo_acts (sem_sys_new True 0) = Some sem_demo"
  "exec_all sem_enabled sem_exec sem_demo_acts (sem_sys_new True 0) = Some sem_demo"
  by (simp_all add: sem_demo_def sem_careful_def semaphore_eval ll_eval)

lemma sem_demo_reach:
  "reach (\<lambda>s. s = sem_sys_new True 0) sem_careful sem_exec sem_demo"
  "sem_reachable True 0 sem_demo"
  by (rule exec_all_reach [OF sem_demo_run(1) reach_init], simp)
    (rule exec_all_reach [OF sem_demo_run(2) reach_init], simp)

lemma sem_demo_eq:
  "sem_demo =
     \<lparr>sy_sem = \<lparr>sm_is_fair = True, sm_permits = 5,
        sm_waiters = \<lparr>ll_head = Some 3, ll_tail = Some 2\<rparr>\<rparr>,
      sy_nodes =
        [3 \<mapsto> \<lparr>ln_prev = None, ln_next = Some 2, ln_data =
           \<lparr>sw_task = Some (Waker 3 0), sw_state = Sm_Waiting, sw_required_permits = 2\<rparr>\<rparr>,
         2 \<mapsto> \<lparr>ln_prev = Some 3, ln_next = None, ln_data =
           \<lparr>sw_task = Some (Waker 2 0), sw_state = Sm_Notified, sw_required_permits = 5\<rparr>\<rparr>],
      sy_futures = [2 \<mapsto> \<lparr>sf_semaphore = True, sf_wait_node = 2, sf_auto_release = True\<rparr>,
                    3 \<mapsto> \<lparr>sf_semaphore = True, sf_wait_node = 3, sf_auto_release = True\<rparr>],
      sy_releasers = [], sy_woken = [Waker 2 0], sy_total = 5\<rparr>"
  by (simp add: sem_demo_def sem_careful_def semaphore_eval ll_eval)

text \<open>
  No call of the semaphore API faults, as long as the permits put in fit into a \<open>usize\<close>: no
  panic (in particular the assertion that a notified fair future can always acquire never fails),
  no overflow of the permits, no access to a freed node, no endless wakeup loop.
\<close>

theorem semaphore_no_fault:
  assumes "sem_reachable is_fair p s" "sem_enabled act s"
  shows "\<exists>t. sem_exec act s = Inr t"
  using sys.no_fault [OF assms] by blast

theorem semaphore_no_fault_witness: "\<exists>t. sem_exec (Sem_Poll 2 (Waker 9 0)) sem_demo = Inr t"
  by (rule semaphore_no_fault [OF sem_demo_reach(2)])
    (simp add: sem_demo_eq semaphore_future_is_terminated_def)

text \<open>
  C5: permits are conserved. The free permits and the ones the releasers hold always add up to the
  permits put in less the disarmed ones, and never exceed the range of a \<open>usize\<close>.
\<close>

theorem semaphore_conserves_permits:
  assumes "sem_reachable is_fair p s"
  shows "unat (sm_permits (sy_sem s)) + sem_held (sy_releasers s) = sy_total s \<and> sy_total s < 2 ^ 64"
  using sys.reach_inv [OF assms] by (auto simp: sem_sys_inv_def sem_sys_rep_def sem_abs_def)

theorem semaphore_conserves_permits_witness:
  "unat (sm_permits (sy_sem sem_demo)) + sem_held (sy_releasers sem_demo) = 5"
  using semaphore_conserves_permits [OF sem_demo_reach(2)] by (simp add: sem_demo_eq)

text \<open>
  C15: no wakeup is lost, with two exceptions. If no call was the drop of the oldest waiter while
  it still waited, or (in an unfair semaphore) a poll of a notified future whose permits were
  taken by others, then whenever the permits suffice for the oldest queued waiter, some future
  has been notified. The lemmas on stranded waiters below show that both exceptions are needed.
\<close>

theorem semaphore_no_lost_wakeup:
  assumes reach: "reach (\<lambda>s. s = sem_sys_new is_fair p) sem_careful sem_exec s"
    and queue: "ll_rep (sy_nodes s) (sm_waiters (sy_sem s)) xs" "xs \<noteq> []"
    and oldest: "read_data (sy_nodes s) (last xs) = Inr e" "sw_required_permits e \<le> sm_permits (sy_sem s)"
  shows "\<exists>b e'. read_data (sy_nodes s) b = Inr e' \<and> sw_state e' = Sm_Notified \<and> (is_fair \<longrightarrow> b = last xs)"
proof -
  from careful.reach_inv [OF reach] obtain S where
    S: "sem_abs (sy_sem s) (sy_nodes s) S" "ss_fair S = is_fair" "sem_woken S"
    by (auto simp: sem_sys_rep_def)
  with queue have xs: "ss_queue S = xs" by (auto simp: sem_abs_def intro: ll_rep_unique)
  from S(1) oldest have e: "ss_entries S (last xs) = Some e" "sw_required_permits e \<le> ss_permits S"
    by (auto simp: sem_abs_def read_data_eq_Inr)
  show ?thesis
  proof (cases is_fair)
    case True
    with S xs queue(2) e have "sw_state e = Sm_Notified" by (auto simp: sem_woken_def)
    with oldest(1) show ?thesis by blast
  next
    case False
    with S xs queue(2) e have "0 < sem_promised (ss_entries S)"
      by (auto simp: sem_woken_def sem_required_def word_le_nat_alt)
    then obtain b where "b \<in> sem_notified (ss_entries S)"
      by (cases "sem_notified (ss_entries S) = {}") (auto simp: sem_promised_def)
    then obtain e' where "ss_entries S b = Some e'" "sw_state e' = Sm_Notified"
      by (auto simp: sem_notified_def)
    with sem_read [OF S(1)] False show ?thesis by blast
  qed
qed

theorem semaphore_no_lost_wakeup_witness:
  "\<exists>b e'. read_data (sy_nodes sem_demo) b = Inr e' \<and> sw_state e' = Sm_Notified \<and> (True \<longrightarrow> b = last [3, 2])"
  by (rule semaphore_no_lost_wakeup [OF sem_demo_reach(1), where e = "\<lparr>sw_task = Some (Waker 2 0),
        sw_state = Sm_Notified, sw_required_permits = 5\<rparr>"])
    (auto simp: sem_demo_eq ll_rep_def read_data_def)

text \<open>
  A notified waiter of a fair semaphore is served. Its next poll returns a releaser with the
  permits it asked for, whatever was called in between.
\<close>

theorem semaphore_fair_notified_served:
  assumes reach: "sem_reachable True p s" and a: "read_data (sy_nodes s) a = Inr e" "sw_state e = Sm_Notified"
  shows "returns (sem_exec (Sem_Poll a cx) s)
    (\<lambda>t. sy_releasers t = sy_releasers s @ [\<lparr>sr_permits = sw_required_permits e\<rparr>])"
proof -
  from sys.reach_inv [OF reach] obtain S where
    S: "sem_abs (sy_sem s) (sy_nodes s) S" "sem_inv S" "sem_futures_ok (ss_entries S) (sy_futures s)" "ss_fair S"
    by (auto simp: sem_sys_inv_def sem_sys_rep_def)
  from a S(1) have e: "ss_entries S a = Some e" by (auto simp: sem_abs_def read_data_eq_Inr)
  from a(2) have nd: "sw_state e \<noteq> Sm_Done" by simp
  have "sem_done (ss_entries S) a = Some False" using e a(2) by (simp add: sem_done_def)
  with S(3) obtain f where f: "sy_futures s a = Some f" "sf_semaphore f" "sf_wait_node f = a" "sf_auto_release f"
    by (auto simp: sem_futures_ok_def dest!: fun_cong [of _ _ a])
  obtain r w S' where poll: "sem_spec_poll a cx S = (r, w, S')" by (metis prod_cases3)
  have "r = Ready ()"
    using poll sem_inv_notified [OF S(2,4) e a(2)] e a(2)
    by (auto simp: sem_spec_poll_def Let_def split_def split: if_splits)
  with semaphore_try_acquire_refines [OF S(1,2) e nd, of cx] poll f
    sem_spec_poll_facts [OF S(2) e nd poll] show ?thesis
    by (auto simp: semaphore_future_poll_def elim!: returns_mono)
qed

theorem semaphore_fair_notified_served_witness:
  "returns (sem_exec (Sem_Poll 2 (Waker 9 0)) sem_demo)
    (\<lambda>t. sy_releasers t = [\<lparr>sr_permits = 5\<rparr>])"
proof -
  have "read_data (sy_nodes sem_demo) 2 =
      Inr \<lparr>sw_task = Some (Waker 2 0), sw_state = Sm_Notified, sw_required_permits = 5\<rparr>"
    by (simp add: sem_demo_eq read_data_def)
  from semaphore_fair_notified_served [OF sem_demo_reach(2) this] show ?thesis
    by (simp add: sem_demo_eq del: sem_exec.simps)
qed

lemma semaphore_fair_grants_oldest:
  assumes rep: "sem_sys_rep True s S" and enabled: "sem_enabled act s" and "ss_queue S \<noteq> []"
    and step: "sem_exec act s = Inr t" and acquired: "sem_held (sy_releasers s) < sem_held (sy_releasers t)"
  shows "\<exists>cx. act = Sem_Poll (last (ss_queue S)) cx"
proof -
  from rep have
    S: "sem_abs (sy_sem s) (sy_nodes s) S" "sem_inv S" "sem_futures_ok (ss_entries S) (sy_futures s)" "ss_fair S"
    by (simp_all add: sem_sys_rep_def)
  show ?thesis
  proof (cases act)
    case (Sem_Poll a cx)
    with enabled obtain f where f: "sy_futures s a = Some f" "sf_semaphore f"
      by (auto simp: semaphore_future_is_terminated_def split: option.splits)
    from sem_futures_okD [OF S(3) f(1)] f(2) obtain e where
      e: "ss_entries S a = Some e" "sw_state e \<noteq> Sm_Done" and fa: "sf_wait_node f = a" "sf_auto_release f"
      by blast
    obtain r w S' where poll: "sem_spec_poll a cx S = (r, w, S')" by (metis prod_cases3)
    from sem_spec_poll_facts [OF S(2) e poll] obtain e' where
      e': "ss_entries S' a = Some e'" "sw_required_permits e' = sw_required_permits e" by blast
    have "returns (sem_exec act s) (\<lambda>t. sem_held (sy_releasers t) =
        sem_held (sy_releasers s) + (if is_ready r then unat (sw_required_permits e) else 0))"
      using semaphore_try_acquire_refines [OF S(1,2) e, of cx] f fa e' poll Sem_Poll
      by (cases r) (auto simp: semaphore_future_poll_def elim!: returns_mono)
    with step acquired have "is_ready r" "sw_required_permits e \<noteq> 0"
      by (auto split: if_splits)
    with poll e(1) S(4) assms(3) have "sw_state e = Sm_Notified"
      by (auto simp: sem_spec_poll_def Let_def split: if_splits)
    with sem_inv_notified [OF S(2,4) e(1)] Sem_Poll show ?thesis by auto
  next
    case (Sem_Try_Acquire n)
    have "n = 0" if "fst (sem_spec_try_acquire n S)"
      using that S(4) assms(3) by (auto simp: sem_spec_try_acquire_def split: if_splits)
    then have "returns (sem_exec act s) (\<lambda>t. sem_held (sy_releasers t) = sem_held (sy_releasers s))"
      using semaphore_try_acquire_sync_refines [OF S(1), of n] Sem_Try_Acquire
      by (auto simp: semaphore_try_acquire_api_def elim!: returns_mono)
    with step acquired show ?thesis by simp
  next
    case (Sem_Drop_Releaser i)
    with step acquired enabled sem_held_split [of i "sy_releasers s"] show ?thesis
      by (auto simp: and_then_eq_Inr)
  next
    case (Sem_Disarm i)
    with enabled have i: "i < length (sy_releasers s)" by simp
    have "sem_held ((sy_releasers s)[i := (sy_releasers s ! i)\<lparr>sr_permits := 0\<rparr>]) \<le> sem_held (sy_releasers s)"
      using sem_held_split [OF i] i by (simp add: upd_conv_take_nth_drop sem_held_def)
    with step acquired Sem_Disarm show ?thesis by (auto simp: semaphore_releaser_disarm_def)
  qed (use step acquired in \<open>auto simp: and_then_eq_Inr semaphore_acquire_def\<close>)
qed

text \<open>
  A fair semaphore is first in, first out. While futures are queued, permits are handed out
  only by a poll of the oldest of them: neither \<open>try_acquire\<close> nor a younger future overtakes it
  (a request of no permits at all does not count).
\<close>

theorem semaphore_fair_fifo:
  assumes reach: "sem_reachable True p s" and enabled: "sem_enabled act s"
    and queue: "ll_rep (sy_nodes s) (sm_waiters (sy_sem s)) xs" "xs \<noteq> []"
    and step: "sem_exec act s = Inr t" and acquired: "sem_held (sy_releasers s) < sem_held (sy_releasers t)"
  shows "\<exists>cx. act = Sem_Poll (last xs) cx"
proof -
  from sys.reach_inv [OF reach] obtain S where S: "sem_sys_rep True s S"
    by (auto simp: sem_sys_inv_def)
  with queue(1) have "ss_queue S = xs" by (auto simp: sem_sys_rep_def sem_abs_def intro: ll_rep_unique)
  with semaphore_fair_grants_oldest [OF S enabled _ step acquired] queue(2) show ?thesis by blast
qed

theorem semaphore_fair_fifo_witness: "\<exists>cx. Sem_Poll 2 (Waker 9 0) = Sem_Poll (last [3, 2]) cx"
proof -
  have "\<exists>t. sem_exec (Sem_Poll 2 (Waker 9 0)) sem_demo = Inr t \<and>
    sem_held (sy_releasers sem_demo) < sem_held (sy_releasers t)"
    by (simp add: sem_demo_eq semaphore_eval ll_eval sem_held_def)
  then obtain t where t: "sem_exec (Sem_Poll 2 (Waker 9 0)) sem_demo = Inr t"
    "sem_held (sy_releasers sem_demo) < sem_held (sy_releasers t)" by blast
  have "ll_rep (sy_nodes sem_demo) (sm_waiters (sy_sem sem_demo)) [3, 2]"
    by (auto simp: sem_demo_eq ll_rep_def)
  from semaphore_fair_fifo [OF sem_demo_reach(2) _ this _ t] show ?thesis
    by (simp add: sem_demo_eq semaphore_future_is_terminated_def)
qed

text \<open>
  The shared semaphore behaves as the borrowed one. Future, releaser and \<open>try_acquire\<close> of
  \<open>GenericSharedSemaphore\<close>, which take their counted reference out and put it back, return the
  same results, wake the same tasks and leave the same future and semaphore behind.
\<close>

theorem shared_semaphore_equivalent:
  "(sf_semaphore f \<longrightarrow> shared_semaphore_future_poll f cx s h = semaphore_future_poll f cx s h) \<and>
   map_sum id (\<lambda>(w, f, s, h). (w, s, h)) (shared_semaphore_future_drop f s h) = semaphore_future_drop f s h \<and>
   shared_semaphore_releaser_drop r s h = semaphore_releaser_drop r s h \<and>
   shared_semaphore_releaser_disarm r = semaphore_releaser_disarm r \<and>
   shared_semaphore_acquire a n = semaphore_acquire a n \<and>
   shared_semaphore_try_acquire_api n s = semaphore_try_acquire_api n s"
proof -
  have "sf_semaphore f \<longrightarrow> shared_semaphore_future_poll f cx s h = semaphore_future_poll f cx s h"
    by (auto simp: shared_semaphore_future_poll_def semaphore_future_poll_def Let_def and_then_def
        split: sum.split poll.split prod.split)
  moreover have "map_sum id (\<lambda>(w, f, s, h). (w, s, h)) (shared_semaphore_future_drop f s h) = semaphore_future_drop f s h"
    by (auto simp: shared_semaphore_future_drop_def semaphore_future_drop_def and_then_def split: sum.split)
  ultimately show ?thesis
    by (simp add: shared_semaphore_releaser_drop_def semaphore_releaser_drop_def
        shared_semaphore_releaser_disarm_def semaphore_releaser_disarm_def Let_def
        shared_semaphore_acquire_def semaphore_acquire_def
        shared_semaphore_try_acquire_api_def semaphore_try_acquire_api_def)
qed

theorem shared_semaphore_equivalent_witness:
  "shared_semaphore_future_poll \<lparr>sf_semaphore = True, sf_wait_node = 2, sf_auto_release = True\<rparr> (Waker 9 0)
     (sy_sem sem_demo) (sy_nodes sem_demo) =
   semaphore_future_poll \<lparr>sf_semaphore = True, sf_wait_node = 2, sf_auto_release = True\<rparr> (Waker 9 0)
     (sy_sem sem_demo) (sy_nodes sem_demo)"
  using shared_semaphore_equivalent [of "\<lparr>sf_semaphore = True, sf_wait_node = 2, sf_auto_release = True\<rparr>"] by simp

section \<open>Stranded waiters\<close>

text \<open>The two calls that \<open>semaphore_no_lost_wakeup\<close> excludes, in the specification.\<close>

lemma sem_future_of:
  assumes "sem_futures_ok (ss_entries S) fs" "ss_entries S a = Some e" "sw_state e \<noteq> Sm_Done"
  obtains f where "fs a = Some f" "sf_semaphore f" "sf_wait_node f = a" "sf_auto_release f"
proof -
  have "map_option (\<lambda>f. \<not> sf_semaphore f) (fs a) = sem_done (ss_entries S) a"
    using assms(1) by (auto simp: sem_futures_ok_def dest: fun_cong [of _ _ a])
  with assms that show ?thesis by (auto simp: sem_done_def sem_futures_ok_def)
qed


lemma sem_poll_pending_follows:
  assumes rep: "sem_sys_rep is_fair s S" and e: "ss_entries S a = Some e" "sw_state e \<noteq> Sm_Done"
    and poll: "sem_spec_poll a cx S = (Pending, w, S')"
  shows "returns (sem_exec (Sem_Poll a cx) s) (\<lambda>t. sy_woken t = sy_woken s @ w \<and> sy_releasers t = sy_releasers s \<and>
    sem_sys_rep is_fair t S')"
proof -
  from rep have S: "sem_abs (sy_sem s) (sy_nodes s) S" "sem_inv S" "sem_futures_ok (ss_entries S) (sy_futures s)"
    by (simp_all add: sem_sys_rep_def)
  obtain f where f: "sy_futures s a = Some f" "sf_semaphore f" "sf_wait_node f = a" "sf_auto_release f"
    by (rule sem_future_of [OF S(3) e])
  note facts = sem_spec_poll_facts [OF S(2) e poll]
  have "sem_futures_ok (ss_entries S') ((sy_futures s)(a \<mapsto> f))"
    using facts f by (intro sem_futures_ok_upd [OF S(3)]) auto
  moreover have "sem_inv S'" using sem_spec_poll_inv [OF S(2) e, of cx] poll by simp
  ultimately have "sem_sys_rep is_fair (s\<lparr>sy_sem := m, sy_nodes := h, sy_futures := (sy_futures s)(a \<mapsto> f), sy_woken := ws\<rparr>) S'"
    if "sem_abs m h S'" for m h ws
    using that facts rep by (simp add: sem_sys_rep_def)
  with semaphore_try_acquire_refines [OF S(1,2) e, of cx] poll f facts show ?thesis
    by (auto simp: semaphore_future_poll_def elim!: returns_mono)
qed




text \<open>
  C39: a flaw. When a notified future of an unfair semaphore is polled after others took its permits, it
  queues up again behind all waiters and wakes nobody. If the permits that are left suffice for the
  oldest of them, it is left behind: it keeps waiting, and nobody is notified or woken who was not
  before. If the future was the only one notified, nobody is.
\<close>

theorem unfair_semaphore_strands_waiter:
  assumes reach: "sem_reachable False p s"
    and queue: "ll_rep (sy_nodes s) (sm_waiters (sy_sem s)) (xs @ [b])"
    and a: "read_data (sy_nodes s) a = Inr ea" "sw_state ea = Sm_Notified" "sm_permits (sy_sem s) < sw_required_permits ea"
    and b: "read_data (sy_nodes s) b = Inr eb" "sw_required_permits eb \<le> sm_permits (sy_sem s)"
  shows "returns (sem_exec (Sem_Poll a cx) s) (\<lambda>t.
    sy_woken t = sy_woken s \<and> sy_releasers t = sy_releasers s \<and> sm_permits (sy_sem t) = sm_permits (sy_sem s) \<and>
    ll_rep (sy_nodes t) (sm_waiters (sy_sem t)) (a # xs @ [b]) \<and>
    read_data (sy_nodes t) a = Inr (ea\<lparr>sw_task := Some cx, sw_state := Sm_Waiting\<rparr>) \<and>
    read_data (sy_nodes t) b = Inr eb \<and> sw_state eb = Sm_Waiting \<and>
    (\<forall>c e. read_data (sy_nodes t) c = Inr e \<and> sw_state e = Sm_Notified \<longrightarrow> c \<noteq> a \<and> read_data (sy_nodes s) c = Inr e))"
proof -
  from sys.reach_inv [OF reach] obtain S where rep: "sem_sys_rep False s S" by (auto simp: sem_sys_inv_def)
  then have S: "sem_abs (sy_sem s) (sy_nodes s) S" "sem_inv S" "\<not> ss_fair S" by (simp_all add: sem_sys_rep_def)
  have q: "ss_queue S = xs @ [b]" using queue S(1) by (auto simp: sem_abs_def intro: ll_rep_unique)
  from a b S(1) have e: "ss_entries S a = Some ea" "ss_entries S b = Some eb"
    by (auto simp: sem_abs_def read_data_eq_Inr)
  have waits: "sw_state eb = Sm_Waiting" "a \<notin> set (ss_queue S)"
    using sem_inv_entry [OF S(2) e(2)] sem_inv_entry [OF S(2) e(1)] a(2) S(3) q by auto
  have "a \<noteq> b" using waits(1) a(2) e by auto
  have "\<not> sw_required_permits ea \<le> ss_permits S" using a(3) S(1) by (simp add: sem_abs_def not_le)
  then have "sem_spec_poll a cx S = (Pending, [], sem_wait a cx S)"
    using e(1) by (simp add: sem_spec_poll_def Let_def)
  moreover have "sem_wait a cx S = S\<lparr>ss_queue := a # xs @ [b],
      ss_entries := (ss_entries S)(a \<mapsto> ea\<lparr>sw_task := Some cx, sw_state := Sm_Waiting\<rparr>)\<rparr>" (is "_ = ?T")
    using waits(2) q e(1) by (simp add: sem_wait_def)
  ultimately have "returns (sem_exec (Sem_Poll a cx) s) (\<lambda>t. sy_woken t = sy_woken s \<and>
      sy_releasers t = sy_releasers s \<and> sem_sys_rep False t ?T)"
    using sem_poll_pending_follows [OF rep e(1), of cx "[]" ?T] a(2) by (simp del: sem_exec.simps)
  moreover have "ll_rep (sy_nodes t) (sm_waiters (sy_sem t)) (a # xs @ [b])"
      "sm_permits (sy_sem t) = sm_permits (sy_sem s)" "read_data (sy_nodes t) b = Inr eb"
      "read_data (sy_nodes t) a = Inr (ea\<lparr>sw_task := Some cx, sw_state := Sm_Waiting\<rparr>)"
      "\<forall>c e. read_data (sy_nodes t) c = Inr e \<and> sw_state e = Sm_Notified \<longrightarrow> c \<noteq> a \<and> read_data (sy_nodes s) c = Inr e"
    if "sem_sys_rep False t ?T" for t
  proof -
    from that have T: "sem_abs (sy_sem t) (sy_nodes t) ?T" by (simp add: sem_sys_rep_def)
    show "ll_rep (sy_nodes t) (sm_waiters (sy_sem t)) (a # xs @ [b])" "sm_permits (sy_sem t) = sm_permits (sy_sem s)"
      using T S(1) by (simp_all add: sem_abs_def)
    show "read_data (sy_nodes t) b = Inr eb" using sem_read [OF T] e(2) \<open>a \<noteq> b\<close> by simp
    show "read_data (sy_nodes t) a = Inr (ea\<lparr>sw_task := Some cx, sw_state := Sm_Waiting\<rparr>)" using sem_read [OF T] by simp
    show "\<forall>c e. read_data (sy_nodes t) c = Inr e \<and> sw_state e = Sm_Notified \<longrightarrow> c \<noteq> a \<and> read_data (sy_nodes s) c = Inr e"
      using T S(1) by (auto simp: sem_abs_def read_data_eq_Inr split: if_splits)
  qed
  ultimately show ?thesis
    by (elim returns_mono) (use waits(1) in blast)
qed

lemma unfair_strand_run:
  "\<exists>s. exec_all sem_enabled sem_exec
     [Sem_Acquire 2 3, Sem_Poll 2 (Waker 2 0), Sem_Acquire 3 2, Sem_Poll 3 (Waker 3 0), Sem_Release 3, Sem_Try_Acquire 1]
     (sem_sys_new False 0) = Some s \<and>
   sm_permits (sy_sem s) = 2 \<and> sy_woken s = [Waker 2 0] \<and> ll_rep (sy_nodes s) (sm_waiters (sy_sem s)) ([] @ [3]) \<and>
   read_data (sy_nodes s) 2 = Inr \<lparr>sw_task = Some (Waker 2 0), sw_state = Sm_Notified, sw_required_permits = 3\<rparr> \<and>
   read_data (sy_nodes s) 3 = Inr \<lparr>sw_task = Some (Waker 3 0), sw_state = Sm_Waiting, sw_required_permits = 2\<rparr>"
  by (simp add: semaphore_eval ll_eval ll_rep_def)

theorem unfair_semaphore_strands_waiter_witness:
  "\<exists>s t. sem_reachable False 0 s \<and> sem_exec (Sem_Poll 2 (Waker 2 0)) s = Inr t \<and> sm_permits (sy_sem t) = 2 \<and>
     sy_woken t = sy_woken s \<and> ll_rep (sy_nodes t) (sm_waiters (sy_sem t)) [2, 3] \<and>
     read_data (sy_nodes t) 3 = Inr \<lparr>sw_task = Some (Waker 3 0), sw_state = Sm_Waiting, sw_required_permits = 2\<rparr>"
proof -
  from unfair_strand_run obtain s where
    run: "exec_all sem_enabled sem_exec
       [Sem_Acquire 2 3, Sem_Poll 2 (Waker 2 0), Sem_Acquire 3 2, Sem_Poll 3 (Waker 3 0), Sem_Release 3, Sem_Try_Acquire 1]
       (sem_sys_new False 0) = Some s"
    and s: "sm_permits (sy_sem s) = 2" "ll_rep (sy_nodes s) (sm_waiters (sy_sem s)) ([] @ [3])"
      "read_data (sy_nodes s) 2 = Inr \<lparr>sw_task = Some (Waker 2 0), sw_state = Sm_Notified, sw_required_permits = 3\<rparr>"
      "read_data (sy_nodes s) 3 = Inr \<lparr>sw_task = Some (Waker 3 0), sw_state = Sm_Waiting, sw_required_permits = 2\<rparr>"
    by blast
  have reach: "sem_reachable False 0 s" by (rule exec_all_reach [OF run reach_init]) simp
  from unfair_semaphore_strands_waiter [OF reach s(2,3) _ _ s(4), of "Waker 2 0"] reach s(1) show ?thesis
    by (fastforce simp: returns_iff simp del: sem_exec.simps)
qed

end
