(* ===== verification/Semaphore_Fairness.thy ===== *)
theory Semaphore_Fairness
  imports Semaphore Fair_Queue
begin

text \<open>
  The fair variant of the semaphore as an instance of the interface \<open>fair_queue\<close>: nobody who asks
  later gets permits before a waiter, however few it asks for.
\<close>

section \<open>The fair semaphore as a fair queue\<close>

definition sem_queue :: "sem_sys \<Rightarrow> addr list \<Rightarrow> bool" where
  "sem_queue s xs \<longleftrightarrow> ll_rep (sy_nodes s) (sm_waiters (sy_sem s)) xs"

definition sem_waits :: "addr \<Rightarrow> sem_sys \<Rightarrow> bool" where
  "sem_waits a s \<longleftrightarrow>
     (case sy_nodes s a of None \<Rightarrow> False
      | Some n \<Rightarrow> sw_state (ln_data n) = Sm_Waiting \<or> sw_state (ln_data n) = Sm_Notified)"

text \<open>Permits were handed out: the releasers alive hold more than before.\<close>

definition sem_granted :: "sem_sys \<Rightarrow> sem_sys \<Rightarrow> bool" where
  "sem_granted s t \<longleftrightarrow> sem_held (sy_releasers s) < sem_held (sy_releasers t)"

lemma sem_queue_abs:
  "sem_abs (sy_sem s) (sy_nodes s) S \<Longrightarrow> sem_queue s xs \<longleftrightarrow> xs = ss_queue S"
  by (auto simp: sem_queue_def sem_abs_def intro: ll_rep_unique)

lemma sem_waits_queue:
  assumes "sem_abs (sy_sem s) (sy_nodes s) S" "sem_inv S" "ss_fair S"
  shows "sem_waits a s \<longleftrightarrow> a \<in> set (ss_queue S)"
proof -
  have data: "data_of (sy_nodes s) a = ss_entries S a" using assms(1) by (simp add: sem_abs_def)
  show ?thesis
  proof (cases "sy_nodes s a")
    case None
    with data have "ss_entries S a = None" by (simp add: data_of_def)
    with assms(2) None show ?thesis by (auto simp: sem_waits_def sem_inv_def)
  next
    case (Some n)
    with data have "ss_entries S a = Some (ln_data n)" by (simp add: data_of_def)
    with sem_inv_entry [OF assms(2) this] Some assms(3) show ?thesis by (auto simp: sem_waits_def)
  qed
qed

text \<open>In a fair semaphore, waking changes nothing in the queue.\<close>

lemma sem_spec_queue_fair:
  assumes "ss_fair S"
  shows "ss_queue (snd (sem_spec_wakeup S)) = ss_queue S"
    "ss_queue (snd (sem_spec_release n S)) = ss_queue S"
  using assms by (simp_all add: sem_spec_release_def sem_spec_wakeup_def sem_wake_fair)

lemma sem_spec_poll_queue:
  assumes "ss_fair S" "sem_spec_poll a cx S = (r, w, S')"
  shows "ss_queue S' = (if is_ready r then remove1 a (ss_queue S)
    else if a \<in> set (ss_queue S) then ss_queue S else a # ss_queue S)"
  using assms
  by (auto simp: sem_spec_poll_def Let_def sem_wait_def sem_finish_def sem_spec_wakeup_def
      sem_wake_fair split: if_splits)

lemma sem_spec_cancel_fifo:
  assumes "ss_fair S"
  shows "fifo_step False (ss_queue S) (ss_queue (snd (sem_spec_cancel a S)))"
  using assms
  by (cases "sw_state (sem_entry S a)")
    (simp_all add: sem_spec_cancel_def fifo_step_intros sem_spec_queue_fair sem_finish_def)

lemma sem_exec_poll:
  assumes S: "sem_abs (sy_sem s) (sy_nodes s) S" "sem_inv S" "sem_futures_ok (ss_entries S) (sy_futures s)"
    and f: "sy_futures s a = Some f" "sf_semaphore f" and poll: "sem_spec_poll a cx S = (r, w, S')"
  shows "returns (sem_exec (Sem_Poll a cx) s) (\<lambda>t. sem_abs (sy_sem t) (sy_nodes t) S' \<and>
    (\<not> is_ready r \<longrightarrow> sy_releasers t = sy_releasers s))"
proof -
  from sem_futures_okD [OF S(3) f(1)] f(2) obtain e where
    e: "ss_entries S a = Some e" "sw_state e \<noteq> Sm_Done" and fa: "sf_wait_node f = a" "sf_auto_release f"
    by blast
  from sem_spec_poll_facts [OF S(2) e poll] obtain e' where e': "ss_entries S' a = Some e'" by blast
  from semaphore_try_acquire_refines [OF S(1,2) e, of cx] f fa e' poll show ?thesis
    by (cases r) (auto simp: semaphore_future_poll_def elim!: returns_mono)
qed

text \<open>How one call changes the queue, grants apart.\<close>

lemma sem_exec_drop_queue:
  assumes S: "sem_abs (sy_sem s) (sy_nodes s) S" "sem_inv S" "sem_futures_ok (ss_entries S) (sy_futures s)"
      "ss_fair S"
    and f: "sy_futures s a = Some f" and step: "sem_exec (Sem_Drop a) s = Inr t"
  shows "\<exists>ys. sem_queue t ys \<and> fifo_step False (ss_queue S) ys"
proof -
  from sem_futures_okD [OF S(3) f] obtain e where
    e: "ss_entries S a = Some e" "sf_wait_node f = a" "sf_semaphore f \<longleftrightarrow> sw_state e \<noteq> Sm_Done" by blast
  obtain m h w where drop: "semaphore_future_drop f (sy_sem s) (sy_nodes s) = Inr (w, m, h)"
    and t: "sy_sem t = m" "sy_nodes t = h(a := None)"
    using step f by (auto simp: and_then_eq_Inr)
  obtain S' where S': "sem_abs m h S'" "fifo_step False (ss_queue S) (ss_queue S')" "a \<notin> set (ss_queue S')"
  proof (cases "sf_semaphore f")
    case False
    with e sem_inv_entry [OF S(2) e(1)] drop S(1) show ?thesis
      by (intro that [of S]) (auto simp: semaphore_future_drop_def fifo_step_intros)
  next
    case True
    with e(3) have nd: "sw_state e \<noteq> Sm_Done" by simp
    from sem_spec_cancel_facts [OF S(2) e(1) nd] obtain e' where
      "ss_entries (snd (sem_spec_cancel a S)) a = Some e'" "sw_state e' = Sm_Done \<or> sw_state e' = Sm_New" by blast
    with sem_spec_cancel_inv [OF S(2) e(1)] sem_inv_entry [of "snd (sem_spec_cancel a S)" a e']
    have "a \<notin> set (ss_queue (snd (sem_spec_cancel a S)))" by auto
    with semaphore_remove_waiter_refines [OF S(1,2) e(1)] sem_spec_cancel_fifo [OF S(4)] True e(2) drop
    show ?thesis
      by (intro that [of "snd (sem_spec_cancel a S)"]) (auto simp: semaphore_future_drop_def)
  qed
  with t ll_rep_free [of h "sm_waiters m" "ss_queue S'" a] show ?thesis
    by (auto simp: sem_queue_def sem_abs_def)
qed

lemma sem_exec_queue:
  assumes S: "sem_abs (sy_sem s) (sy_nodes s) S" "sem_inv S" "sem_futures_ok (ss_entries S) (sy_futures s)"
      "ss_fair S" "unat (ss_permits S) + sem_held (sy_releasers s) = sy_total s" "sy_total s < 2 ^ 64"
    and enabled: "sem_enabled act s" and step: "sem_exec act s = Inr t"
  shows "\<exists>ys. sem_queue t ys \<and> fifo_step False (ss_queue S) ys"
proof (cases act)
  case (Sem_Acquire a n)
  with step enabled S(1) show ?thesis
    by (intro exI [of _ "ss_queue S"])
      (auto simp: semaphore_acquire_def sem_queue_def fifo_step_intros sem_abs_def
        list_node_new_def intro: ll_rep_alloc [unfolded list_node_new_def])
next
  case (Sem_Poll a cx)
  with enabled obtain f where f: "sy_futures s a = Some f" "sf_semaphore f"
    by (auto simp: semaphore_future_is_terminated_def split: option.splits)
  obtain r w S' where poll: "sem_spec_poll a cx S = (r, w, S')" by (metis prod_cases3)
  from sem_exec_poll [OF S(1-3) f poll] step Sem_Poll have "sem_queue t (ss_queue S')"
    by (auto simp: sem_queue_def sem_abs_def simp del: sem_exec.simps)
  moreover have "fifo_step False (ss_queue S) (ss_queue S')"
    unfolding sem_spec_poll_queue [OF S(4) poll] by (simp add: fifo_step_intros)
  ultimately show ?thesis by blast
next
  case (Sem_Drop a)
  with enabled obtain f where "sy_futures s a = Some f" by auto
  from sem_exec_drop_queue [OF S(1-4) this] step Sem_Drop show ?thesis by blast
next
  case (Sem_Try_Acquire n)
  with semaphore_try_acquire_sync_refines [OF S(1), of n] step have "sem_queue t (ss_queue S)"
    by (auto simp: semaphore_try_acquire_api_def sem_spec_try_acquire_def and_then_eq_Inr sem_queue_def
        sem_abs_def split: if_splits)
  then show ?thesis by (auto intro: fifo_step_intros)
next
  case (Sem_Release n)
  with enabled S(5) have "unat (ss_permits S) + unat n < 2 ^ 64" by simp
  from semaphore_release_refines [OF S(1) this] step Sem_Release sem_spec_queue_fair(2) [OF S(4), of n]
  have "sem_queue t (ss_queue S)"
    by (auto simp: and_then_eq_Inr sem_queue_def sem_abs_def)
  then show ?thesis by (auto intro: fifo_step_intros)
next
  case (Sem_Drop_Releaser i)
  with enabled sem_held_split [of i "sy_releasers s"] S(5,6)
  have "unat (ss_permits S) + unat (sr_permits (sy_releasers s ! i)) < 2 ^ 64" by simp
  from semaphore_release_refines [OF S(1) this] step Sem_Drop_Releaser S(1)
    sem_spec_queue_fair(2) [OF S(4), of "sr_permits (sy_releasers s ! i)"]
  have "sem_queue t (ss_queue S)"
    by (auto simp: semaphore_releaser_drop_def and_then_eq_Inr sem_queue_def sem_abs_def split: if_splits)
  then show ?thesis by (auto intro: fifo_step_intros)
next
  case (Sem_Disarm i)
  with step S(1) have "sem_queue t (ss_queue S)"
    by (auto simp: semaphore_releaser_disarm_def sem_queue_def sem_abs_def)
  then show ?thesis by (auto intro: fifo_step_intros)
qed

lemma sem_exec_fifo:
  assumes rep: "sem_sys_rep True s S" and enabled: "sem_enabled act s" and step: "sem_exec act s = Inr t"
  shows "\<exists>ys. sem_queue t ys \<and> fifo_step (sem_granted s t) (ss_queue S) ys"
proof -
  from rep have S: "sem_abs (sy_sem s) (sy_nodes s) S" "sem_inv S" "sem_futures_ok (ss_entries S) (sy_futures s)"
    "ss_fair S" "unat (ss_permits S) + sem_held (sy_releasers s) = sy_total s" "sy_total s < 2 ^ 64"
    by (simp_all add: sem_sys_rep_def)
  from sem_exec_queue [OF S enabled step] obtain ys where
    ys: "sem_queue t ys" "fifo_step False (ss_queue S) ys" by blast
  show ?thesis
  proof (cases "sem_granted s t \<and> ss_queue S \<noteq> []")
    case True
    with semaphore_fair_grants_oldest [OF rep enabled _ step] obtain cx where
      act: "act = Sem_Poll (last (ss_queue S)) cx" by (auto simp: sem_granted_def)
    with enabled obtain f where f: "sy_futures s (last (ss_queue S)) = Some f" "sf_semaphore f"
      by (auto simp: semaphore_future_is_terminated_def split: option.splits)
    obtain r w S' where poll: "sem_spec_poll (last (ss_queue S)) cx S = (r, w, S')" by (metis prod_cases3)
    from sem_exec_poll [OF S(1-3) f poll] step act True have
      "sem_queue t (ss_queue S')" "is_ready r"
      by (auto simp: sem_queue_def sem_abs_def sem_granted_def simp del: sem_exec.simps)
    with sem_spec_poll_queue [OF S(4) poll] True fifo_step_oldest [of "ss_queue S"] S(2)
    show ?thesis by (auto simp: sem_inv_def)
  qed (use ys in \<open>auto simp: fifo_step_def\<close>)
qed

interpretation fair_semaphore: fair_queue "\<lambda>s. s = sem_sys_new True p" sem_enabled sem_exec
  "sem_sys_inv True" sem_queue sem_granted for p
proof unfold_locales
  show "distinct xs" if "sem_sys_inv True s" "sem_queue s xs" for s xs
    using that by (auto simp: sem_sys_inv_def sem_sys_rep_def sem_queue_abs sem_inv_def)
  show "xs = ys" if "sem_queue s xs" "sem_queue s ys" for s xs ys
    using that by (auto simp: sem_queue_def intro: ll_rep_unique)
  show "\<exists>ys. sem_queue t ys \<and> fifo_step (sem_granted s t) xs ys"
    if "sem_sys_inv True s" "sem_enabled act s" "sem_exec act s = Inr t" "sem_queue s xs" for act s t xs
  proof -
    from that(1) obtain S where S: "sem_sys_rep True s S" by (auto simp: sem_sys_inv_def)
    then have "xs = ss_queue S" using that(4) by (auto simp: sem_sys_rep_def sem_queue_abs)
    with sem_exec_fifo [OF S that(2,3)] show ?thesis by blast
  qed
qed

lemma sem_waits_iff:
  assumes "sem_sys_inv True s"
  shows "sem_waits a s \<longleftrightarrow> (\<exists>xs. sem_queue s xs \<and> a \<in> set xs)"
  using assms by (auto simp: sem_sys_inv_def sem_sys_rep_def sem_queue_abs sem_waits_queue)

section \<open>Properties\<close>

text \<open>
  C16: nobody starves at a fair semaphore. Whatever the tasks do, in any run of calls during which
  the future at \<open>a\<close> keeps waiting, permits are handed out at most as many times as there were
  older waiters when the run began, although smaller requests that the free permits would satisfy
  may arrive all the time.
\<close>

theorem semaphore_fair_bounded_overtaking:
  assumes "sem_reachable True p s" "ll_rep (sy_nodes s) (sm_waiters (sy_sem s)) (ys @ a # xs)"
    and "exec_trace sem_enabled sem_exec acts s = Some ts" "\<forall>t\<in>set ts. sem_waits a t"
  shows "count_steps (\<lambda>s t. sem_held (sy_releasers s) < sem_held (sy_releasers t)) (s # ts) \<le> length xs"
proof -
  have "sem_sys_inv True t" if "t \<in> set ts" for t
    using exec_trace_reach [OF assms(3,1) that] by (rule sys.reach_inv)
  with assms(4) have "\<exists>zs. sem_queue t zs \<and> a \<in> set zs" if "t \<in> set ts" for t
    using that by (simp add: sem_waits_iff)
  from fair_semaphore.bounded_overtaking [OF assms(1) _ assms(3) this] assms(2) show ?thesis
    by (simp add: sem_queue_def sem_granted_def [abs_def])
qed

theorem semaphore_fair_bounded_overtaking_witness:
  "count_steps (\<lambda>s t. sem_held (sy_releasers s) < sem_held (sy_releasers t)) (sem_demo #
     the (exec_trace sem_enabled sem_exec
       [Sem_Release 1, Sem_Try_Acquire 1, Sem_Acquire 4 1, Sem_Poll 4 (Waker 4 0), Sem_Poll 2 (Waker 2 0)]
     sem_demo)) \<le> 1"
proof -
  let ?acts = "[Sem_Release 1, Sem_Try_Acquire 1, Sem_Acquire 4 1, Sem_Poll 4 (Waker 4 0), Sem_Poll 2 (Waker 2 0)]"
  obtain ts where ts: "exec_trace sem_enabled sem_exec ?acts sem_demo = Some ts" "\<forall>t\<in>set ts. sem_waits 3 t"
    by (simp add: sem_demo_eq semaphore_eval ll_eval sem_waits_def)
  have "ll_rep (sy_nodes sem_demo) (sm_waiters (sy_sem sem_demo)) ([] @ 3 # [2])"
    by (auto simp: sem_demo_eq ll_rep_def)
  from semaphore_fair_bounded_overtaking [OF sem_demo_reach(2) this ts] ts(1) show ?thesis by simp
qed

end
