(* ===== verification/Ring_Buffer.thy ===== *)
theory Ring_Buffer
  imports Prelude
begin

text \<open>
  The ring buffers of \<^verbatim>\<open>src/buffer/ring_buffer.rs\<close>. The trait \<open>RingBuf\<close> is a record of operations,
  its contract the locale \<open>ring_buf\<close>: a buffer is a list of items, oldest first, of at most
  \<open>capacity\<close> items. The contract is proved for \<open>ArrayBuf\<close>, at the level of its indices and its
  uninitialised memory, and for the two buffers on the heap.
\<close>

section \<open>The trait RingBuf\<close>

record ('b, 'a) ring_buf_ops =
  rb_new :: 'b
  rb_with_capacity :: "usize \<Rightarrow> 'b"
  rb_capacity :: "'b \<Rightarrow> usize"
  rb_len :: "'b \<Rightarrow> usize"
  rb_can_push :: "'b \<Rightarrow> bool"
  rb_push :: "'a \<Rightarrow> 'b \<Rightarrow> 'b res"
  rb_pop :: "'b \<Rightarrow> ('a \<times> 'b) res"

text \<open>The provided method of the trait.\<close>

definition rb_is_empty :: "('b, 'a) ring_buf_ops \<Rightarrow> 'b \<Rightarrow> bool" where
  "rb_is_empty ops b \<longleftrightarrow> rb_len ops b = 0"

text \<open>Pushing the items of a list, and popping a number of items.\<close>

fun rb_push_all :: "('b, 'a) ring_buf_ops \<Rightarrow> 'a list \<Rightarrow> 'b \<Rightarrow> 'b res" where
  "rb_push_all ops [] b = Inr b"
| "rb_push_all ops (x # xs) b = and_then (rb_push ops x b) (rb_push_all ops xs)"

fun rb_pop_n :: "('b, 'a) ring_buf_ops \<Rightarrow> nat \<Rightarrow> 'b \<Rightarrow> ('a list \<times> 'b) res" where
  "rb_pop_n ops 0 b = Inr ([], b)"
| "rb_pop_n ops (Suc n) b =
     and_then (rb_pop ops b) (\<lambda>(x, b). and_then (rb_pop_n ops n b) (\<lambda>(xs, b). Inr (x # xs, b)))"

locale ring_buf =
  fixes ops :: "('b, 'a) ring_buf_ops"
    and binv :: "'b \<Rightarrow> bool"
    and items :: "'b \<Rightarrow> 'a list"
  assumes new_law: "binv (rb_new ops) \<and> items (rb_new ops) = []"
    and with_capacity_law: "binv (rb_with_capacity ops c) \<and> items (rb_with_capacity ops c) = []"
    and len_law: "binv b \<Longrightarrow> unat (rb_len ops b) = length (items b)"
    and bound_law: "binv b \<Longrightarrow> length (items b) \<le> unat (rb_capacity ops b)"
    and can_push_law: "binv b \<Longrightarrow> rb_can_push ops b \<longleftrightarrow> length (items b) < unat (rb_capacity ops b)"
    and push_law: "binv b \<Longrightarrow> rb_can_push ops b \<Longrightarrow> returns (rb_push ops x b)
        (\<lambda>b'. binv b' \<and> items b' = items b @ [x] \<and> rb_capacity ops b' = rb_capacity ops b)"
    and push_full_law: "binv b \<Longrightarrow> \<not> rb_can_push ops b \<Longrightarrow> \<exists>msg. rb_push ops x b = Inl (Panic msg)"
    and pop_law: "binv b \<Longrightarrow> items b = y # ys \<Longrightarrow> returns (rb_pop ops b)
        (\<lambda>(z, b'). z = y \<and> binv b' \<and> items b' = ys \<and> rb_capacity ops b' = rb_capacity ops b)"
    and pop_empty_law: "binv b \<Longrightarrow> items b = [] \<Longrightarrow> \<exists>msg. rb_pop ops b = Inl (Panic msg)"
begin

lemma is_empty_iff: "binv b \<Longrightarrow> rb_is_empty ops b \<longleftrightarrow> items b = []"
  using len_law [of b] by (auto simp: rb_is_empty_def unat_eq_0)

lemma push_wp:
  assumes "binv b" "rb_can_push ops b"
    and "\<And>b'. binv b' \<Longrightarrow> items b' = items b @ [x] \<Longrightarrow> rb_capacity ops b' = rb_capacity ops b \<Longrightarrow> Q b'"
  shows "returns (rb_push ops x b) Q"
  by (rule returns_mono [OF push_law [OF assms(1,2)]]) (use assms(3) in blast)

lemma pop_wp:
  assumes "binv b" "items b = y # ys"
    and "\<And>b'. binv b' \<Longrightarrow> items b' = ys \<Longrightarrow> rb_capacity ops b' = rb_capacity ops b \<Longrightarrow> Q (y, b')"
  shows "returns (rb_pop ops b) Q"
  by (rule returns_mono [OF pop_law [OF assms(1,2)]]) (use assms(3) in auto)

text \<open>A buffer without capacity never takes an item.\<close>

lemma no_capacity: "binv b \<Longrightarrow> rb_capacity ops b = 0 \<Longrightarrow> \<not> rb_can_push ops b \<and> items b = []"
  using can_push_law [of b] bound_law [of b] by simp

text \<open>First in, first out: the items pushed are the items popped, in the same order.\<close>

lemma push_all_wp:
  "binv b \<Longrightarrow> length (items b) + length xs \<le> unat (rb_capacity ops b) \<Longrightarrow>
   returns (rb_push_all ops xs b) (\<lambda>b'. binv b' \<and> items b' = items b @ xs)"
proof (induction xs arbitrary: b)
  case (Cons x xs)
  then have "rb_can_push ops b" by (simp add: can_push_law)
  with Cons show ?case
    by (auto intro!: push_wp elim!: returns_mono [OF Cons.IH])
qed simp

lemma pop_n_wp:
  "binv b \<Longrightarrow> items b = xs @ ys \<Longrightarrow>
   returns (rb_pop_n ops (length xs) b) (\<lambda>(zs, b'). zs = xs \<and> binv b' \<and> items b' = ys)"
proof (induction xs arbitrary: b)
  case (Cons x xs)
  then show ?case
    by (auto intro!: pop_wp elim!: returns_mono [OF Cons.IH])
qed simp

end

section \<open>ArrayBuf\<close>

text \<open>
  The backing array is memory that may be uninitialised: a cell is \<open>None\<close> before it is written
  and after its item was moved out. Its length is the constant \<open>A::LEN\<close>, the argument of \<open>new\<close>. Reading an uninitialised cell or
  writing outside the array is undefined behaviour, here a \<open>Dangling\<close> fault at that index.
\<close>

record 'a array_buf =
  ab_buffer :: "'a option list"
  ab_size :: usize
  ab_recv_idx :: usize
  ab_send_idx :: usize

definition array_buf_capacity :: "'a array_buf \<Rightarrow> usize" where
  "array_buf_capacity b = of_nat (length (ab_buffer b))"

definition array_buf_next_idx :: "'a array_buf \<Rightarrow> usize \<Rightarrow> usize res" where
  "array_buf_next_idx b last_idx =
     and_then (usize_add last_idx 1) (\<lambda>i.
     if i = array_buf_capacity b then Inr 0 else Inr i)"

definition array_buf_new :: "usize \<Rightarrow> 'a array_buf" where
  "array_buf_new len =
     \<lparr>ab_buffer = replicate (unat len) None, ab_size = 0, ab_recv_idx = 0, ab_send_idx = 0\<rparr>"

definition array_buf_with_capacity :: "usize \<Rightarrow> usize \<Rightarrow> 'a array_buf" where
  "array_buf_with_capacity len cap = array_buf_new len"

definition array_buf_len :: "'a array_buf \<Rightarrow> usize" where
  "array_buf_len b = ab_size b"

definition array_buf_can_push :: "'a array_buf \<Rightarrow> bool" where
  "array_buf_can_push b \<longleftrightarrow> array_buf_len b \<noteq> array_buf_capacity b"

text \<open>\<open>arr_ptr.add(i).write(value)\<close>, and \<open>arr_ptr.add(i).read()\<close>, which moves the item out.\<close>

definition array_write :: "'a option list \<Rightarrow> usize \<Rightarrow> 'a \<Rightarrow> 'a option list res" where
  "array_write cells i v =
     (if unat i < length cells then Inr (cells[unat i := Some v]) else Inl (Dangling (unat i)))"

definition array_read :: "'a option list \<Rightarrow> usize \<Rightarrow> ('a \<times> 'a option list) res" where
  "array_read cells i =
     (if unat i < length cells
      then (case cells ! unat i of
              None \<Rightarrow> Inl (Dangling (unat i))
            | Some v \<Rightarrow> Inr (v, cells[unat i := None]))
      else Inl (Dangling (unat i)))"

definition array_buf_push :: "'a \<Rightarrow> 'a array_buf \<Rightarrow> 'a array_buf res" where
  "array_buf_push v b =
     and_then (assert_that (array_buf_can_push b) ''assertion failed: self.can_push()'') (\<lambda>_.
     and_then (array_write (ab_buffer b) (ab_send_idx b) v) (\<lambda>cells.
     let b = b\<lparr>ab_buffer := cells\<rparr> in
     and_then (array_buf_next_idx b (ab_send_idx b)) (\<lambda>i.
     and_then (usize_add (ab_size b) 1) (\<lambda>n.
     Inr (b\<lparr>ab_send_idx := i, ab_size := n\<rparr>)))))"

definition array_buf_pop :: "'a array_buf \<Rightarrow> ('a \<times> 'a array_buf) res" where
  "array_buf_pop b =
     and_then (assert_that (0 < ab_size b) ''assertion failed: self.size > 0'') (\<lambda>_.
     and_then (array_read (ab_buffer b) (ab_recv_idx b)) (\<lambda>(v, cells).
     let b = b\<lparr>ab_buffer := cells\<rparr> in
     and_then (array_buf_next_idx b (ab_recv_idx b)) (\<lambda>i.
     and_then (usize_sub (ab_size b) 1) (\<lambda>n.
     Inr (v, b\<lparr>ab_recv_idx := i, ab_size := n\<rparr>)))))"

text \<open>\<open>Drop\<close>: the items that are dropped in place, in order.\<close>

partial_function (option) array_buf_drop_loop ::
  "'a array_buf \<Rightarrow> 'a list \<Rightarrow> ('a list \<times> 'a array_buf) res option" where
  "array_buf_drop_loop b dropped =
     (if 0 < ab_size b
      then (case (and_then (array_read (ab_buffer b) (ab_recv_idx b)) (\<lambda>(v, cells).
                  let b = b\<lparr>ab_buffer := cells\<rparr> in
                  and_then (array_buf_next_idx b (ab_recv_idx b)) (\<lambda>i.
                  and_then (usize_sub (ab_size b) 1) (\<lambda>n.
                  Inr (v, b\<lparr>ab_recv_idx := i, ab_size := n\<rparr>))))) of
              Inl e \<Rightarrow> Some (Inl e)
            | Inr (v, b) \<Rightarrow> array_buf_drop_loop b (dropped @ [v]))
      else Some (Inr (dropped, b)))"

definition array_buf_drop :: "'a array_buf \<Rightarrow> ('a list \<times> 'a array_buf) res" where
  "array_buf_drop b = run_loop (array_buf_drop_loop b [])"

definition array_buf_ops :: "usize \<Rightarrow> ('a array_buf, 'a) ring_buf_ops" where
  "array_buf_ops len =
     \<lparr>rb_new = array_buf_new len, rb_with_capacity = array_buf_with_capacity len,
      rb_capacity = array_buf_capacity, rb_len = array_buf_len, rb_can_push = array_buf_can_push,
      rb_push = array_buf_push, rb_pop = array_buf_pop\<rparr>"

section \<open>Heap buffers\<close>

text \<open>\<open>VecDeque\<close> of the standard library is a list; its \<open>len\<close> is a \<open>usize\<close>.\<close>

record 'a fixed_heap_buf =
  fb_buffer :: "'a list"
  fb_cap :: usize

definition fixed_heap_buf_new :: "'a fixed_heap_buf" where
  "fixed_heap_buf_new = \<lparr>fb_buffer = [], fb_cap = 0\<rparr>"

definition fixed_heap_buf_with_capacity :: "usize \<Rightarrow> 'a fixed_heap_buf" where
  "fixed_heap_buf_with_capacity cap = \<lparr>fb_buffer = [], fb_cap = cap\<rparr>"

definition fixed_heap_buf_capacity :: "'a fixed_heap_buf \<Rightarrow> usize" where
  "fixed_heap_buf_capacity b = fb_cap b"

definition fixed_heap_buf_len :: "'a fixed_heap_buf \<Rightarrow> usize" where
  "fixed_heap_buf_len b = of_nat (length (fb_buffer b))"

definition fixed_heap_buf_can_push :: "'a fixed_heap_buf \<Rightarrow> bool" where
  "fixed_heap_buf_can_push b \<longleftrightarrow> of_nat (length (fb_buffer b)) \<noteq> fb_cap b"

definition fixed_heap_buf_push :: "'a \<Rightarrow> 'a fixed_heap_buf \<Rightarrow> 'a fixed_heap_buf res" where
  "fixed_heap_buf_push v b =
     and_then (assert_that (fixed_heap_buf_can_push b) ''assertion failed: self.can_push()'') (\<lambda>_.
     Inr (b\<lparr>fb_buffer := fb_buffer b @ [v]\<rparr>))"

definition fixed_heap_buf_pop :: "'a fixed_heap_buf \<Rightarrow> ('a \<times> 'a fixed_heap_buf) res" where
  "fixed_heap_buf_pop b =
     and_then (assert_that (fb_buffer b \<noteq> []) ''assertion failed: !self.buffer.is_empty()'') (\<lambda>_.
     case fb_buffer b of
       [] \<Rightarrow> Inl (Panic ''called Option::unwrap() on a None value'')
     | v # vs \<Rightarrow> Inr (v, b\<lparr>fb_buffer := vs\<rparr>))"

definition fixed_heap_buf_ops :: "('a fixed_heap_buf, 'a) ring_buf_ops" where
  "fixed_heap_buf_ops =
     \<lparr>rb_new = fixed_heap_buf_new, rb_with_capacity = fixed_heap_buf_with_capacity,
      rb_capacity = fixed_heap_buf_capacity, rb_len = fixed_heap_buf_len,
      rb_can_push = fixed_heap_buf_can_push, rb_push = fixed_heap_buf_push, rb_pop = fixed_heap_buf_pop\<rparr>"

record 'a growing_heap_buf =
  gb_buffer :: "'a list"
  gb_limit :: usize

definition growing_heap_buf_new :: "'a growing_heap_buf" where
  "growing_heap_buf_new = \<lparr>gb_buffer = [], gb_limit = 0\<rparr>"

definition growing_heap_buf_with_capacity :: "usize \<Rightarrow> 'a growing_heap_buf" where
  "growing_heap_buf_with_capacity limit = \<lparr>gb_buffer = [], gb_limit = limit\<rparr>"

definition growing_heap_buf_capacity :: "'a growing_heap_buf \<Rightarrow> usize" where
  "growing_heap_buf_capacity b = gb_limit b"

definition growing_heap_buf_len :: "'a growing_heap_buf \<Rightarrow> usize" where
  "growing_heap_buf_len b = of_nat (length (gb_buffer b))"

definition growing_heap_buf_can_push :: "'a growing_heap_buf \<Rightarrow> bool" where
  "growing_heap_buf_can_push b \<longleftrightarrow> of_nat (length (gb_buffer b)) \<noteq> gb_limit b"

definition growing_heap_buf_push :: "'a \<Rightarrow> 'a growing_heap_buf \<Rightarrow> 'a growing_heap_buf res" where
  "growing_heap_buf_push v b =
     and_then (assert_that (growing_heap_buf_can_push b) ''assertion failed: self.can_push()'') (\<lambda>_.
     Inr (b\<lparr>gb_buffer := gb_buffer b @ [v]\<rparr>))"

definition growing_heap_buf_pop :: "'a growing_heap_buf \<Rightarrow> ('a \<times> 'a growing_heap_buf) res" where
  "growing_heap_buf_pop b =
     and_then (assert_that (gb_buffer b \<noteq> []) ''assertion failed: !self.buffer.is_empty()'') (\<lambda>_.
     case gb_buffer b of
       [] \<Rightarrow> Inl (Panic ''called Option::unwrap() on a None value'')
     | v # vs \<Rightarrow> Inr (v, b\<lparr>gb_buffer := vs\<rparr>))"

definition growing_heap_buf_ops :: "('a growing_heap_buf, 'a) ring_buf_ops" where
  "growing_heap_buf_ops =
     \<lparr>rb_new = growing_heap_buf_new, rb_with_capacity = growing_heap_buf_with_capacity,
      rb_capacity = growing_heap_buf_capacity, rb_len = growing_heap_buf_len,
      rb_can_push = growing_heap_buf_can_push, rb_push = growing_heap_buf_push, rb_pop = growing_heap_buf_pop\<rparr>"

section \<open>ArrayBuf satisfies the contract\<close>

text \<open>
  The cells from the receive index on, around the end of the array, hold the items; the cells
  between the send index and the receive index are uninitialised.
\<close>

definition array_buf_slot :: "'a array_buf \<Rightarrow> nat \<Rightarrow> nat" where
  "array_buf_slot b i = (unat (ab_recv_idx b) + i) mod length (ab_buffer b)"

definition array_buf_items :: "'a array_buf \<Rightarrow> 'a list" where
  "array_buf_items b = map (\<lambda>i. the (ab_buffer b ! array_buf_slot b i)) [0..<unat (ab_size b)]"

definition array_buf_inv :: "usize \<Rightarrow> 'a array_buf \<Rightarrow> bool" where
  "array_buf_inv len b \<longleftrightarrow>
     length (ab_buffer b) = unat len \<and> unat (ab_size b) \<le> unat len \<and>
     (unat len \<noteq> 0 \<longrightarrow> unat (ab_recv_idx b) < unat len) \<and>
     unat (ab_send_idx b) = array_buf_slot b (unat (ab_size b)) \<and>
     (\<forall>i < unat len. ab_buffer b ! array_buf_slot b i \<noteq> None \<longleftrightarrow> i < unat (ab_size b))"

lemma array_buf_capacity_inv: "array_buf_inv len b \<Longrightarrow> array_buf_capacity b = len"
  by (simp add: array_buf_capacity_def array_buf_inv_def)

lemma mod_shift_inj:
  assumes "(r + i) mod n = (r + j) mod n" "i < n" "j < (n :: nat)"
  shows "i = j"
proof -
  have "x = y" if "(r + x) mod n = (r + y) mod n" "x \<le> y" "y < n" for x y
  proof -
    from that(1,2) have "n dvd (r + y) - (r + x)"
      using mod_eq_dvd_iff_nat [of "r + x" "r + y" n] by simp
    with that(2,3) show ?thesis by (auto dest: dvd_imp_le)
  qed
  with assms show ?thesis by (metis nat_le_linear)
qed

lemma array_buf_next_idx_wp:
  assumes "array_buf_inv len b" "unat i < unat len"
    and "\<And>j. unat j = (unat i + 1) mod unat len \<Longrightarrow> Q j"
  shows "returns (array_buf_next_idx b i) Q"
proof -
  have room: "unat i + unat (1 :: usize) < 2 ^ 64"
    using assms(2) unat_usize_less [of len] by simp
  note next_val = unat_add_no_overflow [OF room]
  show ?thesis
  proof (cases "i + 1 = len")
    case True
    with next_val have "unat len = unat i + 1" by simp
    with True room assms(3) [of 0] show ?thesis
      by (simp add: array_buf_next_idx_def array_buf_capacity_inv [OF assms(1)])
  next
    case False
    then have "unat (i + 1) \<noteq> unat len" by (metis word_unat_eq_iff)
    with next_val assms(2) have "unat i + 1 < unat len" by simp
    with False room next_val assms(3) [of "i + 1"] show ?thesis
      by (simp add: array_buf_next_idx_def array_buf_capacity_inv [OF assms(1)])
  qed
qed

lemma array_buf_push_wp:
  assumes inv: "array_buf_inv len b" and room: "array_buf_can_push b"
    and Q: "\<And>b'. array_buf_inv len b' \<Longrightarrow> array_buf_items b' = array_buf_items b @ [x] \<Longrightarrow> Q b'"
  shows "returns (array_buf_push x b) Q"
proof -
  let ?n = "unat len" and ?k = "unat (ab_size b)" and ?r = "unat (ab_recv_idx b)"
  have len: "length (ab_buffer b) = ?n" using inv by (simp add: array_buf_inv_def)
  from room have "ab_size b \<noteq> len"
    by (simp add: array_buf_can_push_def array_buf_len_def array_buf_capacity_inv [OF inv])
  with inv have k: "?k < ?n"
    by (auto simp: array_buf_inv_def le_less word_unat_eq_iff)
  then have send: "unat (ab_send_idx b) = (?r + ?k) mod ?n" "unat (ab_send_idx b) < ?n"
    using inv len by (auto simp: array_buf_inv_def array_buf_slot_def)
  have size: "unat (ab_size b + 1) = ?k + 1" "?k + 1 < 2 ^ 64"
    using k unat_usize_less [of len] unat_add_no_overflow [of "ab_size b" 1] by auto
  let ?cells = "(ab_buffer b)[unat (ab_send_idx b) := Some x]"
  have cell: "?cells ! ((?r + i) mod ?n) = (if i = ?k then Some x else ab_buffer b ! ((?r + i) mod ?n))"
    if "i < ?n" for i
    using that k len send mod_shift_inj [of ?r i ?n ?k] by (auto simp: nth_list_update)
  have "Q (b\<lparr>ab_buffer := ?cells, ab_send_idx := j, ab_size := ab_size b + 1\<rparr>)" (is "Q ?b")
    if j: "unat j = (unat (ab_send_idx b) + 1) mod ?n" for j
  proof (rule Q)
    have "unat j = (?r + (?k + 1)) mod ?n"
      using j by (simp add: send(1) mod_simps)
    with inv len cell size k show "array_buf_inv len ?b"
      by (auto simp: array_buf_inv_def array_buf_slot_def)
    show "array_buf_items ?b = array_buf_items b @ [x]"
      using len cell size k by (auto simp: array_buf_items_def array_buf_slot_def)
  qed
  moreover have "array_buf_inv len b \<Longrightarrow> array_buf_next_idx (b\<lparr>ab_buffer := ?cells\<rparr>) i = array_buf_next_idx b i" for i
    by (simp add: array_buf_next_idx_def array_buf_capacity_def)
  ultimately show ?thesis
    using inv room send(2) len size(2)
    by (auto simp: array_buf_push_def array_write_def Let_def intro!: array_buf_next_idx_wp [OF inv])
qed

lemma array_buf_items_Cons:
  assumes inv: "array_buf_inv len b" and items: "array_buf_items b = y # ys"
  shows "0 < unat (ab_size b)" "unat (ab_recv_idx b) < unat len"
    "ab_buffer b ! unat (ab_recv_idx b) = Some y"
    "ys = map (\<lambda>i. the (ab_buffer b ! array_buf_slot b (Suc i))) [0..<unat (ab_size b) - 1]"
proof -
  from items have k: "0 < unat (ab_size b)"
    by (cases "unat (ab_size b)") (simp_all add: array_buf_items_def)
  with inv have "0 < unat len" by (auto simp: array_buf_inv_def)
  with inv have r: "unat (ab_recv_idx b) < unat len" "length (ab_buffer b) = unat len"
    by (auto simp: array_buf_inv_def)
  then have "array_buf_slot b 0 = unat (ab_recv_idx b)" by (simp add: array_buf_slot_def)
  note slot0 = this
  have "ab_buffer b ! array_buf_slot b 0 \<noteq> None"
    using inv k \<open>0 < unat len\<close> unfolding array_buf_inv_def by blast
  moreover from k obtain m where m: "unat (ab_size b) = Suc m" by (cases "unat (ab_size b)") auto
  have "[0..<Suc m] = 0 # map Suc [0..<m]" by (simp add: upt_conv_Cons map_Suc_upt del: upt_Suc)
  with items m have "y = the (ab_buffer b ! array_buf_slot b 0)"
    "ys = map (\<lambda>i. the (ab_buffer b ! array_buf_slot b (Suc i))) [0..<m]"
    by (simp_all add: array_buf_items_def comp_def del: upt_Suc)
  ultimately show "0 < unat (ab_size b)" "unat (ab_recv_idx b) < unat len"
    "ab_buffer b ! unat (ab_recv_idx b) = Some y"
    "ys = map (\<lambda>i. the (ab_buffer b ! array_buf_slot b (Suc i))) [0..<unat (ab_size b) - 1]"
    using k r m slot0 by auto
qed

text \<open>Moving the oldest item out: the common part of \<open>pop\<close> and \<open>drop\<close>.\<close>

lemma array_buf_take_wp:
  assumes inv: "array_buf_inv len b" and items: "array_buf_items b = y # ys"
    and Q: "\<And>b'. array_buf_inv len b' \<Longrightarrow> array_buf_items b' = ys \<Longrightarrow> Q (y, b')"
  shows "returns (and_then (array_read (ab_buffer b) (ab_recv_idx b)) (\<lambda>(v, cells).
     let b = b\<lparr>ab_buffer := cells\<rparr> in
     and_then (array_buf_next_idx b (ab_recv_idx b)) (\<lambda>i.
     and_then (usize_sub (ab_size b) 1) (\<lambda>n.
     Inr (v, b\<lparr>ab_recv_idx := i, ab_size := n\<rparr>))))) Q"
proof -
  let ?n = "unat len" and ?k = "unat (ab_size b)" and ?r = "unat (ab_recv_idx b)"
  note c = array_buf_items_Cons [OF inv items]
  have len: "length (ab_buffer b) = ?n" using inv by (simp add: array_buf_inv_def)
  have "1 \<le> ab_size b" using c(1) by (simp add: word_le_nat_alt)
  then have size: "1 \<le> ab_size b" "unat (ab_size b - 1) = ?k - 1"
    by (simp_all add: unat_sub)
  let ?cells = "(ab_buffer b)[?r := None]"
  have cell: "?cells ! ((?r + Suc i) mod ?n) = (if Suc i = ?n then None else ab_buffer b ! ((?r + Suc i) mod ?n))"
    if "i < ?n" for i
  proof (cases "Suc i = ?n")
    case True
    then have "(?r + Suc i) mod ?n = ?r" using c(2) by simp
    with True c(2) len show ?thesis by simp
  next
    case False
    with that c(2) mod_shift_inj [of ?r "Suc i" ?n 0] have "(?r + Suc i) mod ?n \<noteq> ?r" by auto
    with False show ?thesis by simp
  qed
  have "Q (y, b\<lparr>ab_buffer := ?cells, ab_recv_idx := j, ab_size := ab_size b - 1\<rparr>)" (is "Q (y, ?b)")
    if j: "unat j = (?r + 1) mod ?n" for j
  proof (rule Q)
    have slot: "array_buf_slot ?b i = (?r + Suc i) mod ?n" for i
      using j len by (simp add: array_buf_slot_def mod_simps)
    have old: "array_buf_slot b i = (?r + i) mod ?n" for i
      using len by (simp add: array_buf_slot_def)
    from inv have full: "ab_buffer b ! ((?r + i) mod ?n) \<noteq> None \<longleftrightarrow> i < ?k" if "i < ?n" for i
      using that by (simp add: array_buf_inv_def old)
    have "?cells ! ((?r + Suc i) mod ?n) \<noteq> None \<longleftrightarrow> i < ?k - 1" if "i < ?n" for i
      using that cell [OF that] full [of "Suc i"] inv
      by (cases "Suc i = ?n") (auto simp: array_buf_inv_def)
    moreover have "unat j < ?n" using j c(2) by simp
    moreover have "unat (ab_send_idx b) = (?r + Suc (?k - 1)) mod ?n"
      using inv c(1) by (simp add: array_buf_inv_def old)
    ultimately show "array_buf_inv len ?b"
      using inv len size(2) by (auto simp: array_buf_inv_def slot)
    have "?k - 1 < ?n" "?k \<le> ?n" using inv c(1) by (auto simp: array_buf_inv_def)
    then show "array_buf_items ?b = ys"
      using c(4) cell size(2) by (auto simp: array_buf_items_def slot old)
  qed
  moreover have "array_buf_next_idx (b\<lparr>ab_buffer := ?cells\<rparr>) i = array_buf_next_idx b i" for i
    by (simp add: array_buf_next_idx_def array_buf_capacity_def)
  ultimately show ?thesis
    using c size(1) len by (auto simp: array_read_def Let_def intro!: array_buf_next_idx_wp [OF inv])
qed

lemma array_buf_pop_wp:
  assumes inv: "array_buf_inv len b" and items: "array_buf_items b = y # ys"
    and Q: "\<And>b'. array_buf_inv len b' \<Longrightarrow> array_buf_items b' = ys \<Longrightarrow> Q (y, b')"
  shows "returns (array_buf_pop b) Q"
proof -
  from array_buf_items_Cons(1) [OF inv items] have "0 < ab_size b" by (simp add: word_less_nat_alt)
  then show ?thesis
    by (simp only: array_buf_pop_def assert_that_simps and_then_simps)
      (rule array_buf_take_wp [OF inv items], rule Q)
qed

text \<open>Dropping the buffer ends and drops the items in it, each once, the oldest first.\<close>

lemma array_buf_drop_loop_correct:
  "array_buf_inv len b \<Longrightarrow>
   \<exists>b'. array_buf_drop_loop b dropped = Some (Inr (dropped @ array_buf_items b, b')) \<and>
     array_buf_inv len b' \<and> array_buf_items b' = []"
proof (induction "array_buf_items b" arbitrary: b dropped)
  case Nil
  then have "ab_size b = 0" by (auto simp: array_buf_items_def unat_eq_0)
  with Nil show ?case by (subst array_buf_drop_loop.simps) auto
next
  case (Cons y ys)
  from array_buf_items_Cons(1) [OF Cons.prems Cons.hyps(2) [symmetric]]
  have pos: "0 < ab_size b" by (simp add: word_less_nat_alt)
  have "returns (and_then (array_read (ab_buffer b) (ab_recv_idx b)) (\<lambda>(v, cells).
     let b = b\<lparr>ab_buffer := cells\<rparr> in
     and_then (array_buf_next_idx b (ab_recv_idx b)) (\<lambda>i.
     and_then (usize_sub (ab_size b) 1) (\<lambda>n.
     Inr (v, b\<lparr>ab_recv_idx := i, ab_size := n\<rparr>)))))
    (\<lambda>(v, b'). v = y \<and> array_buf_inv len b' \<and> array_buf_items b' = ys)"
    by (rule array_buf_take_wp [OF Cons.prems Cons.hyps(2) [symmetric]]) simp
  then obtain b1 where b1: "and_then (array_read (ab_buffer b) (ab_recv_idx b)) (\<lambda>(v, cells).
     let b = b\<lparr>ab_buffer := cells\<rparr> in
     and_then (array_buf_next_idx b (ab_recv_idx b)) (\<lambda>i.
     and_then (usize_sub (ab_size b) 1) (\<lambda>n.
     Inr (v, b\<lparr>ab_recv_idx := i, ab_size := n\<rparr>)))) = Inr (y, b1)"
    "array_buf_inv len b1" "array_buf_items b1 = ys"
    by (auto simp only: returns_iff split_paired_all split_conv)
  from Cons.hyps(1) [OF b1(3) [symmetric] b1(2), of "dropped @ [y]"] obtain b' where
    "array_buf_drop_loop b1 (dropped @ [y]) = Some (Inr ((dropped @ [y]) @ array_buf_items b1, b'))"
    "array_buf_inv len b'" "array_buf_items b' = []" by blast
  with pos b1 Cons.hyps(2) [symmetric] show ?case
    by (subst array_buf_drop_loop.simps) simp
qed

lemma array_buf_new_inv: "array_buf_inv len (array_buf_new len) \<and> array_buf_items (array_buf_new len) = []"
  by (simp add: array_buf_inv_def array_buf_new_def array_buf_slot_def array_buf_items_def)

interpretation array_ring: ring_buf "array_buf_ops len" "array_buf_inv len" array_buf_items for len
proof unfold_locales
  fix b :: "'a array_buf"
  assume inv: "array_buf_inv len b"
  then have cap: "array_buf_capacity b = len" by (rule array_buf_capacity_inv)
  show "unat (rb_len (array_buf_ops len) b) = length (array_buf_items b)"
    by (simp add: array_buf_ops_def array_buf_len_def array_buf_items_def)
  show "length (array_buf_items b) \<le> unat (rb_capacity (array_buf_ops len) b)"
    using inv cap by (simp add: array_buf_ops_def array_buf_items_def array_buf_inv_def)
  show "rb_can_push (array_buf_ops len) b \<longleftrightarrow>
      length (array_buf_items b) < unat (rb_capacity (array_buf_ops len) b)"
    using inv cap by (auto simp: array_buf_ops_def array_buf_items_def array_buf_inv_def
        array_buf_can_push_def array_buf_len_def le_less word_unat_eq_iff)
  show "returns (rb_push (array_buf_ops len) x b) (\<lambda>b'. array_buf_inv len b' \<and>
      array_buf_items b' = array_buf_items b @ [x] \<and>
      rb_capacity (array_buf_ops len) b' = rb_capacity (array_buf_ops len) b)"
    if "rb_can_push (array_buf_ops len) b" for x
    using that cap by (auto simp: array_buf_ops_def array_buf_capacity_inv intro!: array_buf_push_wp [OF inv])
  show "\<exists>msg. rb_push (array_buf_ops len) x b = Inl (Panic msg)"
    if "\<not> rb_can_push (array_buf_ops len) b" for x
    using that by (simp add: array_buf_ops_def array_buf_push_def)
  show "returns (rb_pop (array_buf_ops len) b) (\<lambda>(z, b'). z = y \<and> array_buf_inv len b' \<and>
      array_buf_items b' = ys \<and> rb_capacity (array_buf_ops len) b' = rb_capacity (array_buf_ops len) b)"
    if "array_buf_items b = y # ys" for y ys
    using cap by (auto simp: array_buf_ops_def array_buf_capacity_inv intro!: array_buf_pop_wp [OF inv that])
  show "\<exists>msg. rb_pop (array_buf_ops len) b = Inl (Panic msg)" if "array_buf_items b = []"
    using that by (simp add: array_buf_ops_def array_buf_pop_def array_buf_items_def unat_eq_0)
qed (simp_all add: array_buf_ops_def array_buf_with_capacity_def array_buf_new_inv)

section \<open>The heap buffers satisfy the contract\<close>

definition fixed_heap_buf_inv :: "'a fixed_heap_buf \<Rightarrow> bool" where
  "fixed_heap_buf_inv b \<longleftrightarrow> length (fb_buffer b) \<le> unat (fb_cap b)"

definition growing_heap_buf_inv :: "'a growing_heap_buf \<Rightarrow> bool" where
  "growing_heap_buf_inv b \<longleftrightarrow> length (gb_buffer b) \<le> unat (gb_limit b)"

lemma of_nat_len:
  assumes "n \<le> unat (c :: usize)"
  shows "unat (of_nat n :: usize) = n" "(of_nat n :: usize) \<noteq> c \<longleftrightarrow> n < unat c"
proof -
  from assms unat_usize_less [of c] have "n < 2 ^ LENGTH(64)" by simp
  then show n: "unat (of_nat n :: usize) = n" by (simp add: unsigned_of_nat take_bit_nat_eq_self)
  with assms show "(of_nat n :: usize) \<noteq> c \<longleftrightarrow> n < unat c"
    by (auto simp: word_unat_eq_iff [of _ c] le_less)
qed

interpretation fixed_ring: ring_buf fixed_heap_buf_ops fixed_heap_buf_inv fb_buffer
  by unfold_locales
    (auto simp: fixed_heap_buf_ops_def fixed_heap_buf_inv_def fixed_heap_buf_new_def
      fixed_heap_buf_with_capacity_def fixed_heap_buf_len_def fixed_heap_buf_capacity_def
      fixed_heap_buf_can_push_def fixed_heap_buf_push_def fixed_heap_buf_pop_def of_nat_len)

interpretation growing_ring: ring_buf growing_heap_buf_ops growing_heap_buf_inv gb_buffer
  by unfold_locales
    (auto simp: growing_heap_buf_ops_def growing_heap_buf_inv_def growing_heap_buf_new_def
      growing_heap_buf_with_capacity_def growing_heap_buf_len_def growing_heap_buf_capacity_def
      growing_heap_buf_can_push_def growing_heap_buf_push_def growing_heap_buf_pop_def of_nat_len)

section \<open>Properties\<close>

text \<open>An array of three cells whose two items wrap around its end, for the witnesses.\<close>

definition array_buf_demo :: "nat array_buf" where
  "array_buf_demo = \<lparr>ab_buffer = [Some 20, None, Some 10], ab_size = 2, ab_recv_idx = 2, ab_send_idx = 1\<rparr>"

lemma array_buf_demo_inv: "array_buf_inv 3 array_buf_demo" "array_buf_items array_buf_demo = [10, 20]"
proof -
  have "i < 3 \<longleftrightarrow> i = 0 \<or> i = 1 \<or> i = (2 :: nat)" for i by auto
  then show "array_buf_inv 3 array_buf_demo"
    by (auto simp: array_buf_inv_def array_buf_demo_def array_buf_slot_def)
  show "array_buf_items array_buf_demo = [10, 20]"
    by (simp add: array_buf_items_def array_buf_demo_def array_buf_slot_def upt_rec)
qed

text \<open>
  C28: an \<open>ArrayBuf\<close> is a bounded queue. On its items, oldest first, \<open>push\<close> appends while there is
  room and panics otherwise, \<open>pop\<close> takes the oldest item and panics when there is none; neither
  touches memory outside the array or reads a cell that was never written, wherever the two
  indices stand.
\<close>

theorem array_buf_refines_queue:
  assumes "array_buf_inv len b"
  shows "(array_buf_can_push b \<longleftrightarrow> length (array_buf_items b) < unat len) \<and>
    (if array_buf_can_push b
     then returns (array_buf_push x b) (\<lambda>b'. array_buf_inv len b' \<and> array_buf_items b' = array_buf_items b @ [x])
     else \<exists>msg. array_buf_push x b = Inl (Panic msg)) \<and>
    (if array_buf_items b \<noteq> []
     then returns (array_buf_pop b) (\<lambda>(y, b'). array_buf_inv len b' \<and> array_buf_items b = y # array_buf_items b')
     else \<exists>msg. array_buf_pop b = Inl (Panic msg)) \<and>
    unat (array_buf_len b) = length (array_buf_items b)"
proof -
  note ops = array_buf_ops_def ring_buf_ops.select_convs
  have "array_buf_can_push b \<longleftrightarrow> length (array_buf_items b) < unat len"
    using array_ring.can_push_law [OF assms] array_buf_capacity_inv [OF assms] by (simp add: ops)
  moreover have "array_buf_can_push b \<Longrightarrow> returns (array_buf_push x b)
      (\<lambda>b'. array_buf_inv len b' \<and> array_buf_items b' = array_buf_items b @ [x])"
    using array_ring.push_law [OF assms, of x] by (auto simp: ops elim!: returns_mono)
  moreover have "\<not> array_buf_can_push b \<Longrightarrow> \<exists>msg. array_buf_push x b = Inl (Panic msg)"
    using array_ring.push_full_law [OF assms] by (simp add: ops)
  moreover have "array_buf_items b \<noteq> [] \<Longrightarrow> returns (array_buf_pop b) (\<lambda>(y, b').
      array_buf_inv len b' \<and> array_buf_items b = y # array_buf_items b')"
    using array_ring.pop_law [OF assms] by (cases "array_buf_items b") (auto simp: ops elim!: returns_mono)
  moreover have "array_buf_items b = [] \<Longrightarrow> \<exists>msg. array_buf_pop b = Inl (Panic msg)"
    using array_ring.pop_empty_law [OF assms] by (simp add: ops)
  moreover have "unat (array_buf_len b) = length (array_buf_items b)"
    using array_ring.len_law [OF assms] by (simp add: ops)
  ultimately show ?thesis unfolding if_bool_eq_conj by blast
qed

theorem array_buf_refines_queue_witness:
  "array_buf_can_push array_buf_demo \<and>
   returns (array_buf_push 30 array_buf_demo) (\<lambda>b'. array_buf_items b' = [10, 20, 30]) \<and>
   returns (array_buf_pop array_buf_demo) (\<lambda>(y, b'). y = 10 \<and> array_buf_items b' = [20])"
  using array_buf_refines_queue [OF array_buf_demo_inv(1), of 30]
  by (auto simp: array_buf_demo_inv(2) split: if_splits elim!: returns_mono)

text \<open>
  C29: first in, first out, also around the end of the array. From any state of the buffer with
  room for \<open>xs\<close>, pushing \<open>xs\<close> and then popping everything yields the items that were there
  followed by \<open>xs\<close>, and leaves the buffer empty.
\<close>

theorem array_buf_roundtrip:
  assumes "array_buf_inv len b" "length (array_buf_items b) + length xs \<le> unat len"
  shows "returns (and_then (rb_push_all (array_buf_ops len) xs b)
      (rb_pop_n (array_buf_ops len) (length (array_buf_items b) + length xs)))
    (\<lambda>(ys, b'). ys = array_buf_items b @ xs \<and> array_buf_inv len b' \<and> array_buf_items b' = [])"
proof -
  have cap: "rb_capacity (array_buf_ops len) b = len"
    using array_buf_capacity_inv [OF assms(1)] by (simp add: array_buf_ops_def)
  have "returns (rb_pop_n (array_buf_ops len) (length (array_buf_items b) + length xs) b1)
      (\<lambda>(ys, b'). ys = array_buf_items b @ xs \<and> array_buf_inv len b' \<and> array_buf_items b' = [])"
    if "array_buf_inv len b1" "array_buf_items b1 = array_buf_items b @ xs" for b1
    using array_ring.pop_n_wp [OF that(1), of "array_buf_items b @ xs" "[]"] that(2) by simp
  with array_ring.push_all_wp [OF assms(1), of xs] assms(2) cap show ?thesis
    by (auto elim!: returns_mono)
qed

theorem array_buf_roundtrip_witness:
  "returns (and_then (rb_push_all (array_buf_ops 3) [30] array_buf_demo) (rb_pop_n (array_buf_ops 3) 3))
    (\<lambda>(ys, b'). ys = [10, 20, 30])"
proof -
  have n: "length (array_buf_items array_buf_demo) + length [30 :: nat] = 3"
    by (simp add: array_buf_demo_inv(2))
  then have "length (array_buf_items array_buf_demo) + length [30 :: nat] \<le> unat (3 :: usize)" by simp
  from array_buf_roundtrip [OF array_buf_demo_inv(1) this] show ?thesis
    unfolding n unfolding array_buf_demo_inv(2) by (rule returns_mono) auto
qed

text \<open>
  Dropping an \<open>ArrayBuf\<close> ends and drops exactly the items still stored, the oldest first, and
  nothing that was never written or already taken out.
\<close>

theorem array_buf_drop_correct:
  assumes "array_buf_inv len b"
  shows "returns (array_buf_drop b) (\<lambda>(dropped, b'). dropped = array_buf_items b \<and> array_buf_items b' = [])"
  using array_buf_drop_loop_correct [OF assms, of "[]"] by (auto simp: array_buf_drop_def)

theorem array_buf_drop_correct_witness:
  "returns (array_buf_drop array_buf_demo) (\<lambda>(dropped, b'). dropped = [10, 20])"
  using array_buf_drop_correct [OF array_buf_demo_inv(1)]
  by (auto simp: array_buf_demo_inv(2) elim!: returns_mono)

text \<open>
  The heap buffers are bounded queues too: both satisfy the contract of \<open>RingBuf\<close> with the
  capacity they were created with, so that a channel may use either in place of the array.
\<close>

theorem heap_bufs_contract:
  "ring_buf fixed_heap_buf_ops fixed_heap_buf_inv fb_buffer \<and>
   ring_buf growing_heap_buf_ops growing_heap_buf_inv gb_buffer \<and>
   rb_capacity fixed_heap_buf_ops (rb_with_capacity fixed_heap_buf_ops c) = c \<and>
   rb_capacity growing_heap_buf_ops (rb_with_capacity growing_heap_buf_ops c) = c"
  using fixed_ring.ring_buf_axioms growing_ring.ring_buf_axioms
  by (simp add: fixed_heap_buf_ops_def growing_heap_buf_ops_def fixed_heap_buf_with_capacity_def
      growing_heap_buf_with_capacity_def fixed_heap_buf_capacity_def growing_heap_buf_capacity_def)

end
