(* ===== verification/Channel_Future.thy ===== *)
theory Channel_Future
  imports Linked_List
begin

text \<open>
  What the channels share: the data of \<^verbatim>\<open>src/channel/channel_future.rs\<close> and the errors of
  \<^verbatim>\<open>src/channel/error.rs\<close>, and the futures that send to and receive from a channel. The futures
  reach their channel through the traits \<open>ChannelReceiveAccess\<close> and \<open>ChannelSendAccess\<close>, which are
  records of operations here, over a state \<open>'c\<close> that holds the channel with the nodes of its
  futures.
\<close>

section \<open>Data\<close>

datatype close_status = Newly_Closed | Already_Closed

definition is_newly_closed :: "close_status \<Rightarrow> bool" where
  "is_newly_closed s = (case s of Newly_Closed \<Rightarrow> True | _ \<Rightarrow> False)"

definition is_already_closed :: "close_status \<Rightarrow> bool" where
  "is_already_closed s = (case s of Already_Closed \<Rightarrow> True | _ \<Rightarrow> False)"

datatype recv_poll_state = Rp_Unregistered | Rp_Registered | Rp_Notified

record recv_waiter =
  rw_task :: "waker option"
  rw_state :: recv_poll_state

definition recv_waiter_new :: recv_waiter where
  "recv_waiter_new = \<lparr>rw_task = None, rw_state = Rp_Unregistered\<rparr>"

datatype send_poll_state = Sp_Unregistered | Sp_Registered | Sp_Send_Complete

record 'v send_waiter =
  snd_task :: "waker option"
  snd_state :: send_poll_state
  snd_value :: "'v option"

definition send_waiter_new :: "'v \<Rightarrow> 'v send_waiter" where
  "send_waiter_new v = \<lparr>snd_task = None, snd_state = Sp_Unregistered, snd_value = Some v\<rparr>"

datatype 'v channel_send_error = Channel_Send_Error 'v

datatype try_receive_error = Tr_Empty | Tr_Closed

definition try_receive_error_is_empty :: "try_receive_error \<Rightarrow> bool" where
  "try_receive_error_is_empty e = (case e of Tr_Empty \<Rightarrow> True | _ \<Rightarrow> False)"

definition try_receive_error_is_closed :: "try_receive_error \<Rightarrow> bool" where
  "try_receive_error_is_closed e = (case e of Tr_Closed \<Rightarrow> True | _ \<Rightarrow> False)"

datatype 'v try_send_error = Ts_Full 'v | Ts_Closed 'v

definition try_send_error_into_inner :: "'v try_send_error \<Rightarrow> 'v" where
  "try_send_error_into_inner e = (case e of Ts_Closed inner \<Rightarrow> inner | Ts_Full inner \<Rightarrow> inner)"

definition try_send_error_is_full :: "'v try_send_error \<Rightarrow> bool" where
  "try_send_error_is_full e = (case e of Ts_Full _ \<Rightarrow> True | _ \<Rightarrow> False)"

definition try_send_error_is_closed :: "'v try_send_error \<Rightarrow> bool" where
  "try_send_error_is_closed e = (case e of Ts_Closed _ \<Rightarrow> True | _ \<Rightarrow> False)"

section \<open>Access to a channel\<close>

text \<open>
  The wait node of a future is part of the future; its store is part of the state \<open>'c\<close>, so that
  \<open>sa_take_value\<close> is \<open>self.wait_node.value.take()\<close>. The second component of a result lists the
  wakers that the call wakes.
\<close>

record ('c, 'v) send_access =
  sa_send_or_register :: "addr \<Rightarrow> waker \<Rightarrow> 'c \<Rightarrow> (unit poll \<times> 'v option \<times> waker list \<times> 'c) res"
  sa_remove_send_waiter :: "addr \<Rightarrow> 'c \<Rightarrow> 'c res"
  sa_take_value :: "addr \<Rightarrow> 'c \<Rightarrow> ('v option \<times> 'c) res"

record ('c, 'v) receive_access =
  ra_receive_or_register :: "addr \<Rightarrow> waker \<Rightarrow> 'c \<Rightarrow> ('v option poll \<times> waker list \<times> 'c) res"
  ra_remove_receive_waiter :: "addr \<Rightarrow> 'c \<Rightarrow> (waker list \<times> 'c) res"

section \<open>Futures that borrow the channel\<close>

text \<open>\<open>rf_channel\<close> and \<open>sdf_channel\<close> say whether the reference to the channel is \<open>Some\<close>.\<close>

record receive_future =
  rf_channel :: bool
  rf_wait_node :: addr

record send_future =
  sdf_channel :: bool
  sdf_wait_node :: addr

definition receive_future_poll ::
  "('c, 'v) receive_access \<Rightarrow> receive_future \<Rightarrow> waker \<Rightarrow> 'c \<Rightarrow>
   ('v option poll \<times> waker list \<times> receive_future \<times> 'c) res" where
  "receive_future_poll access f cx c =
     (if \<not> rf_channel f then Inl (Panic ''polled ChannelReceiveFuture after completion'')
      else and_then (ra_receive_or_register access (rf_wait_node f) cx c) (\<lambda>(poll_res, woken, c).
           Inr (poll_res, woken, (if is_ready poll_res then f\<lparr>rf_channel := False\<rparr> else f), c)))"

definition receive_future_is_terminated :: "receive_future \<Rightarrow> bool" where
  "receive_future_is_terminated f \<longleftrightarrow> \<not> rf_channel f"

definition receive_future_drop ::
  "('c, 'v) receive_access \<Rightarrow> receive_future \<Rightarrow> 'c \<Rightarrow> (waker list \<times> 'c) res" where
  "receive_future_drop access f c =
     (if rf_channel f then ra_remove_receive_waiter access (rf_wait_node f) c else Inr ([], c))"

definition send_future_cancel ::
  "('c, 'v) send_access \<Rightarrow> send_future \<Rightarrow> 'c \<Rightarrow> ('v option \<times> send_future \<times> 'c) res" where
  "send_future_cancel access f c =
     (let taken = sdf_channel f; f = f\<lparr>sdf_channel := False\<rparr> in
      if \<not> taken then Inr (None, f, c)
      else and_then (sa_remove_send_waiter access (sdf_wait_node f) c) (\<lambda>c.
           and_then (sa_take_value access (sdf_wait_node f) c) (\<lambda>(v, c).
           Inr (v, f, c))))"

definition send_future_poll ::
  "('c, 'v) send_access \<Rightarrow> send_future \<Rightarrow> waker \<Rightarrow> 'c \<Rightarrow>
   (('v channel_send_error + unit) poll \<times> waker list \<times> send_future \<times> 'c) res" where
  "send_future_poll access f cx c =
     (if \<not> sdf_channel f then Inl (Panic ''polled ChannelSendFuture after completion'')
      else and_then (sa_send_or_register access (sdf_wait_node f) cx c) (\<lambda>(poll_res, value, woken, c).
           case poll_res of
             Ready _ \<Rightarrow>
               let f = f\<lparr>sdf_channel := False\<rparr> in
               (case value of
                  Some v \<Rightarrow> Inr (Ready (Inl (Channel_Send_Error v)), woken, f, c)
                | None \<Rightarrow> Inr (Ready (Inr ()), woken, f, c))
           | Pending \<Rightarrow> Inr (Pending, woken, f, c)))"

definition send_future_is_terminated :: "send_future \<Rightarrow> bool" where
  "send_future_is_terminated f \<longleftrightarrow> \<not> sdf_channel f"

definition send_future_drop :: "('c, 'v) send_access \<Rightarrow> send_future \<Rightarrow> 'c \<Rightarrow> 'c res" where
  "send_future_drop access f c =
     (if sdf_channel f then sa_remove_send_waiter access (sdf_wait_node f) c else Inr c)"

section \<open>Futures that own the channel\<close>

text \<open>
  The futures of the module \<open>shared\<close> hold a counted reference, which a poll takes out and puts
  back unless the future completes.
\<close>

definition shared_receive_future_poll ::
  "('c, 'v) receive_access \<Rightarrow> receive_future \<Rightarrow> waker \<Rightarrow> 'c \<Rightarrow>
   ('v option poll \<times> waker list \<times> receive_future \<times> 'c) res" where
  "shared_receive_future_poll access f cx c =
     (let taken = rf_channel f; f = f\<lparr>rf_channel := False\<rparr> in
      if \<not> taken then Inl (Panic ''polled ChannelReceiveFuture after completion'')
      else and_then (ra_receive_or_register access (rf_wait_node f) cx c) (\<lambda>(poll_res, woken, c).
           Inr (poll_res, woken,
                (if is_ready poll_res then f\<lparr>rf_channel := False\<rparr> else f\<lparr>rf_channel := True\<rparr>), c)))"

definition shared_receive_future_is_terminated :: "receive_future \<Rightarrow> bool" where
  "shared_receive_future_is_terminated f \<longleftrightarrow> \<not> rf_channel f"

definition shared_receive_future_drop ::
  "('c, 'v) receive_access \<Rightarrow> receive_future \<Rightarrow> 'c \<Rightarrow> (waker list \<times> 'c) res" where
  "shared_receive_future_drop access f c =
     (if rf_channel f then ra_remove_receive_waiter access (rf_wait_node f) c else Inr ([], c))"

definition shared_send_future_cancel ::
  "('c, 'v) send_access \<Rightarrow> send_future \<Rightarrow> 'c \<Rightarrow> ('v option \<times> send_future \<times> 'c) res" where
  "shared_send_future_cancel access f c =
     (let taken = sdf_channel f; f = f\<lparr>sdf_channel := False\<rparr> in
      if \<not> taken then Inr (None, f, c)
      else and_then (sa_remove_send_waiter access (sdf_wait_node f) c) (\<lambda>c.
           and_then (sa_take_value access (sdf_wait_node f) c) (\<lambda>(v, c).
           Inr (v, f, c))))"

definition shared_send_future_poll ::
  "('c, 'v) send_access \<Rightarrow> send_future \<Rightarrow> waker \<Rightarrow> 'c \<Rightarrow>
   (('v channel_send_error + unit) poll \<times> waker list \<times> send_future \<times> 'c) res" where
  "shared_send_future_poll access f cx c =
     (let taken = sdf_channel f; f = f\<lparr>sdf_channel := False\<rparr> in
      if \<not> taken then Inl (Panic ''polled ChannelSendFuture after completion'')
      else and_then (sa_send_or_register access (sdf_wait_node f) cx c) (\<lambda>(poll_res, value, woken, c).
           case poll_res of
             Ready _ \<Rightarrow>
               (case value of
                  Some v \<Rightarrow> Inr (Ready (Inl (Channel_Send_Error v)), woken, f, c)
                | None \<Rightarrow> Inr (Ready (Inr ()), woken, f, c))
           | Pending \<Rightarrow> Inr (Pending, woken, f\<lparr>sdf_channel := True\<rparr>, c)))"

definition shared_send_future_is_terminated :: "send_future \<Rightarrow> bool" where
  "shared_send_future_is_terminated f \<longleftrightarrow> \<not> sdf_channel f"

definition shared_send_future_drop :: "('c, 'v) send_access \<Rightarrow> send_future \<Rightarrow> 'c \<Rightarrow> 'c res" where
  "shared_send_future_drop access f c =
     (if sdf_channel f then sa_remove_send_waiter access (sdf_wait_node f) c else Inr c)"

lemma rf_channel_same [simp]: "rf_channel f \<Longrightarrow> f\<lparr>rf_channel := True\<rparr> = f"
  by (cases f) simp

lemma sdf_channel_same [simp]: "sdf_channel f \<Longrightarrow> f\<lparr>sdf_channel := True\<rparr> = f"
  by (cases f) simp

section \<open>The receive futures of a channel\<close>

text \<open>
  What the channels share: a terminated receive future waits for nothing, and what an operation
  does to the nodes of the futures it was not called for.
\<close>

definition recvs_ok :: "(addr \<rightharpoonup> recv_waiter) \<Rightarrow> (addr \<rightharpoonup> receive_future) \<Rightarrow> bool" where
  "recvs_ok rd fs \<longleftrightarrow> dom fs = dom rd \<and>
     (\<forall>a f e. fs a = Some f \<longrightarrow> rd a = Some e \<longrightarrow> rf_wait_node f = a \<and>
        (rf_channel f \<or> rw_state e = Rp_Unregistered))"

definition recv_frame :: "(addr \<rightharpoonup> recv_waiter) \<Rightarrow> (addr \<rightharpoonup> recv_waiter) \<Rightarrow> bool" where
  "recv_frame rd rd' \<longleftrightarrow> dom rd' = dom rd \<and>
     (\<forall>b e. rd b = Some e \<longrightarrow> rw_state e = Rp_Unregistered \<longrightarrow> rd' b = Some e)"

lemma recv_frame_refl [simp]: "recv_frame rd rd"
  by (simp add: recv_frame_def)

lemma recvs_ok_frame: "recvs_ok rd F \<Longrightarrow> recv_frame rd rd' \<Longrightarrow> recvs_ok rd' F"
  unfolding recvs_ok_def recv_frame_def by (metis domIff option.exhaust option.inject)

lemma recvs_ok_upd:
  assumes "recvs_ok rd F" "rf_wait_node f = a" "rf_channel f \<or> rw_state e = Rp_Unregistered"
  shows "recvs_ok (rd(a \<mapsto> e)) (F(a \<mapsto> f))"
  using assms by (auto simp: recvs_ok_def split: if_splits)

lemma recvs_ok_del: "recvs_ok rd G \<Longrightarrow> recvs_ok (rd(a := None)) (G(a := None))"
  by (auto simp: recvs_ok_def split: if_splits)

lemma dom_eq_entry: "dom F = dom D \<Longrightarrow> F a = Some f \<Longrightarrow> \<exists>e. D a = Some e"
  by blast

lemma recvs_okD:
  "recvs_ok rd F \<Longrightarrow> F a = Some f \<Longrightarrow>
   \<exists>e. rd a = Some e \<and> rf_wait_node f = a \<and> (rf_channel f \<or> rw_state e = Rp_Unregistered)"
  by (auto simp: recvs_ok_def dest: dom_eq_entry)

section \<open>Properties\<close>

text \<open>
  The owning futures behave as the borrowing ones, on any channel: as long as a future is not
  terminated, poll, cancel and drop of the two have the same results, wake the same tasks and
  leave the same state behind; and a terminated one panics when polled in both variants.
\<close>

theorem shared_channel_futures_equivalent:
  "(if rf_channel f
    then shared_receive_future_poll ra f cx c = receive_future_poll ra f cx c
    else \<exists>m. shared_receive_future_poll ra f cx c = Inl (Panic m) \<and> receive_future_poll ra f cx c = Inl (Panic m)) \<and>
   (if sdf_channel g
    then shared_send_future_poll sa g cx c = send_future_poll sa g cx c
    else \<exists>m. shared_send_future_poll sa g cx c = Inl (Panic m) \<and> send_future_poll sa g cx c = Inl (Panic m)) \<and>
   shared_send_future_cancel sa g c = send_future_cancel sa g c \<and>
   shared_receive_future_drop ra f c = receive_future_drop ra f c \<and>
   shared_send_future_drop sa g c = send_future_drop sa g c"
  by (auto simp: shared_receive_future_poll_def receive_future_poll_def shared_send_future_poll_def
      send_future_poll_def shared_send_future_cancel_def send_future_cancel_def
      shared_receive_future_drop_def receive_future_drop_def shared_send_future_drop_def
      send_future_drop_def Let_def and_then_def split: sum.splits poll.splits option.splits)

end
