(* ===== verification/Arc.thy ===== *)
theory Arc
  imports Channel_Future
begin

text \<open>
  \<open>alloc::sync::Arc\<close> as far as the modules \<open>shared\<close> use it: a counted allocation that clones
  and drops, which is freed with the last reference. Access to an allocation that is freed is a
  dangling access, so that "no call faults" covers use after free. With it the futures that own
  the channel are those of \<^verbatim>\<open>channel/channel_future.rs\<close> with the reference they hold.
\<close>

section \<open>Counted references\<close>

record 'a arc =
  arc_ptr :: addr
  arc_strong :: usize
  arc_alive :: bool
  arc_inner :: 'a

definition arc_new :: "addr \<Rightarrow> 'a \<Rightarrow> 'a arc" where
  "arc_new p x = \<lparr>arc_ptr = p, arc_strong = 1, arc_alive = True, arc_inner = x\<rparr>"

definition arc_get :: "'a arc \<Rightarrow> 'a res" where
  "arc_get c = (if arc_alive c then Inr (arc_inner c) else Inl (Dangling (arc_ptr c)))"

text \<open>\<open>clone\<close> aborts the process when there are more than \<open>isize::MAX\<close> references.\<close>

definition arc_clone :: "'a arc \<Rightarrow> 'a arc res" where
  "arc_clone c =
     and_then (arc_get c) (\<lambda>_.
     if arc_strong c > isize_max then Inl (Panic ''abort: reference count of Arc'')
     else Inr (c\<lparr>arc_strong := arc_strong c + 1\<rparr>))"

definition arc_drop :: "'a arc \<Rightarrow> 'a arc res" where
  "arc_drop c =
     and_then (arc_get c) (\<lambda>_.
     let old = arc_strong c; c = c\<lparr>arc_strong := arc_strong c - 1\<rparr> in
     if old = 1 then Inr (c\<lparr>arc_alive := False\<rparr>) else Inr c)"

text \<open>A handle that owns a reference: its \<open>drop\<close> runs first, then the reference is dropped.\<close>

definition handle_drop :: "('a \<Rightarrow> (waker list \<times> 'a) res) \<Rightarrow> 'a arc \<Rightarrow> (waker list \<times> 'a arc) res" where
  "handle_drop drop_inner c =
     and_then (arc_get c) (\<lambda>x.
     and_then (drop_inner x) (\<lambda>(w, x).
     and_then (arc_drop (c\<lparr>arc_inner := x\<rparr>)) (\<lambda>c.
     Inr (w, c))))"

text \<open>The clone of a handle that counts its kind: first the count, then the reference.\<close>

definition arc_handle_clone :: "('c \<Rightarrow> 'c res) \<Rightarrow> 'c arc \<Rightarrow> 'c arc res" where
  "arc_handle_clone count c =
     and_then (arc_get c) (\<lambda>x.
     and_then (count x) (\<lambda>x.
     arc_clone (c\<lparr>arc_inner := x\<rparr>)))"

section \<open>Futures that own the channel\<close>

text \<open>The trait object behind the reference.\<close>

definition arc_receive_access :: "('a, 'v) receive_access \<Rightarrow> ('a arc, 'v) receive_access" where
  "arc_receive_access access =
     \<lparr>ra_receive_or_register = (\<lambda>wait_node cx c.
        and_then (arc_get c) (\<lambda>x.
        and_then (ra_receive_or_register access wait_node cx x) (\<lambda>(r, w, x).
        Inr (r, w, c\<lparr>arc_inner := x\<rparr>)))),
      ra_remove_receive_waiter = (\<lambda>wait_node c.
        and_then (arc_get c) (\<lambda>x.
        and_then (ra_remove_receive_waiter access wait_node x) (\<lambda>(w, x).
        Inr (w, c\<lparr>arc_inner := x\<rparr>))))\<rparr>"

text \<open>
  A poll that completes does not put the reference back, so the local variable that holds it is
  dropped at the end of \<open>poll\<close>; the drop of a future that still has its reference drops it after
  the code of \<open>Drop\<close>.
\<close>

definition arc_receive_future_poll ::
  "('a, 'v) receive_access \<Rightarrow> receive_future \<Rightarrow> waker \<Rightarrow> 'a arc \<Rightarrow>
   ('v option poll \<times> waker list \<times> receive_future \<times> 'a arc) res" where
  "arc_receive_future_poll access f cx c =
     and_then (shared_receive_future_poll (arc_receive_access access) f cx c) (\<lambda>(r, w, f, c).
     if is_ready r then and_then (arc_drop c) (\<lambda>c. Inr (r, w, f, c)) else Inr (r, w, f, c))"

definition arc_receive_future_drop ::
  "('a, 'v) receive_access \<Rightarrow> receive_future \<Rightarrow> 'a arc \<Rightarrow> (waker list \<times> 'a arc) res" where
  "arc_receive_future_drop access f c =
     and_then (shared_receive_future_drop (arc_receive_access access) f c) (\<lambda>(w, c).
     if rf_channel f then and_then (arc_drop c) (\<lambda>c. Inr (w, c)) else Inr (w, c))"

text \<open>The same for sending; \<open>cancel\<close> takes the reference and drops it at the end.\<close>

definition arc_send_access :: "('a, 'v) send_access \<Rightarrow> ('a arc, 'v) send_access" where
  "arc_send_access access =
     \<lparr>sa_send_or_register = (\<lambda>wait_node cx c.
        and_then (arc_get c) (\<lambda>x.
        and_then (sa_send_or_register access wait_node cx x) (\<lambda>(r, v, w, x).
        Inr (r, v, w, c\<lparr>arc_inner := x\<rparr>)))),
      sa_remove_send_waiter = (\<lambda>wait_node c.
        and_then (arc_get c) (\<lambda>x.
        and_then (sa_remove_send_waiter access wait_node x) (\<lambda>x.
        Inr (c\<lparr>arc_inner := x\<rparr>)))),
      sa_take_value = (\<lambda>wait_node c.
        and_then (sa_take_value access wait_node (arc_inner c)) (\<lambda>(v, x).
        Inr (v, c\<lparr>arc_inner := x\<rparr>)))\<rparr>"

definition arc_send_future_poll ::
  "('a, 'v) send_access \<Rightarrow> send_future \<Rightarrow> waker \<Rightarrow> 'a arc \<Rightarrow>
   (('v channel_send_error + unit) poll \<times> waker list \<times> send_future \<times> 'a arc) res" where
  "arc_send_future_poll access f cx c =
     and_then (shared_send_future_poll (arc_send_access access) f cx c) (\<lambda>(r, w, f, c).
     if is_ready r then and_then (arc_drop c) (\<lambda>c. Inr (r, w, f, c)) else Inr (r, w, f, c))"

definition arc_send_future_cancel ::
  "('a, 'v) send_access \<Rightarrow> send_future \<Rightarrow> 'a arc \<Rightarrow> ('v option \<times> send_future \<times> 'a arc) res" where
  "arc_send_future_cancel access f c =
     and_then (shared_send_future_cancel (arc_send_access access) f c) (\<lambda>(v, f', c).
     if sdf_channel f then and_then (arc_drop c) (\<lambda>c. Inr (v, f', c)) else Inr (v, f', c))"

definition arc_send_future_drop :: "('a, 'v) send_access \<Rightarrow> send_future \<Rightarrow> 'a arc \<Rightarrow> 'a arc res" where
  "arc_send_future_drop access f c =
     and_then (shared_send_future_drop (arc_send_access access) f c) (\<lambda>c.
     if sdf_channel f then arc_drop c else Inr c)"

section \<open>Counting\<close>

text \<open>The allocation is alive as long as it is referenced, by \<open>n\<close> owners.\<close>

definition arc_counts :: "'a arc \<Rightarrow> nat \<Rightarrow> bool" where
  "arc_counts c n \<longleftrightarrow> unat (arc_strong c) = n \<and> (arc_alive c \<longleftrightarrow> 0 < n) \<and> n \<le> 2 ^ 63"

lemma arc_counts_upd [simp]: "arc_counts (c\<lparr>arc_inner := x\<rparr>) n = arc_counts c n"
  by (simp add: arc_counts_def)

lemma arc_get_counts [simp]: "arc_counts c n \<Longrightarrow> 0 < n \<Longrightarrow> arc_get c = Inr (arc_inner c)"
  by (simp add: arc_counts_def arc_get_def)

lemma arc_clone_counts:
  assumes "arc_counts c n" "0 < n" "n < 2 ^ 63"
  shows "\<exists>c'. arc_clone c = Inr c' \<and> arc_counts c' (Suc n) \<and> arc_inner c' = arc_inner c"
  using assms count_up [of "arc_strong c"] by (auto simp: arc_clone_def arc_counts_def arc_get_def)

lemma arc_drop_counts:
  assumes "arc_counts c (Suc n)"
  shows "\<exists>c'. arc_drop c = Inr c' \<and> arc_counts c' n \<and> arc_inner c' = arc_inner c"
proof -
  from assms have n: "unat (arc_strong c) = Suc n" "arc_alive c" "Suc n \<le> 2 ^ 63"
    by (simp_all add: arc_counts_def)
  have "arc_strong c = 1 \<longleftrightarrow> n = 0"
    using n(1) by (metis One_nat_def Suc_inject unat_1 word_unat_eq_iff)
  with n count_down [of "arc_strong c"] show ?thesis
    by (auto simp: arc_drop_def arc_counts_def arc_get_def)
qed

text \<open>The same while the value is written.\<close>

lemma arc_drop_upd:
  assumes "arc_counts c (Suc n)"
  obtains c' where "arc_drop (c\<lparr>arc_inner := x\<rparr>) = Inr c'" "arc_counts c' n" "arc_inner c' = x"
  using arc_drop_counts [of "c\<lparr>arc_inner := x\<rparr>" n] assms by auto

lemma arc_clone_upd:
  assumes "arc_counts c n" "0 < n" "unat (arc_strong c) < 2 ^ 63"
  obtains c' where "arc_clone (c\<lparr>arc_inner := x\<rparr>) = Inr c'" "arc_counts c' (Suc n)" "arc_inner c' = x"
proof -
  from assms(1,3) have "n < 2 ^ 63" by (simp add: arc_counts_def)
  with arc_clone_counts [of "c\<lparr>arc_inner := x\<rparr>" n] assms(1,2) that show thesis by auto
qed

lemma arc_clone_same:
  assumes "arc_counts c n" "0 < n" "unat (arc_strong c) < 2 ^ 63"
  obtains c' where "arc_clone c = Inr c'" "arc_counts c' (Suc n)" "arc_inner c' = arc_inner c"
  using arc_clone_upd [OF assms, of "arc_inner c"] by auto

text \<open>The futures that own a reference, and how many they are after a future has changed.\<close>

definition owning :: "('f \<Rightarrow> bool) \<Rightarrow> (addr \<rightharpoonup> 'f) \<Rightarrow> addr set" where
  "owning P F = {a. \<exists>f. F a = Some f \<and> P f}"

lemma owning_finite: "finite (dom F) \<Longrightarrow> finite (owning P F)"
  by (rule finite_subset [of _ "dom F"]) (auto simp: owning_def)

lemma owning_card:
  assumes "finite (dom F)"
  shows "F a = None \<Longrightarrow> P f \<Longrightarrow> card (owning P (F(a \<mapsto> f))) = Suc (card (owning P F))"
    and "F a = Some g \<Longrightarrow> P g = P f \<Longrightarrow> owning P (F(a \<mapsto> f)) = owning P F"
    and "F a = Some g \<Longrightarrow> P g \<Longrightarrow> \<not> P f \<Longrightarrow>
      card (owning P F) = Suc (card (owning P (F(a \<mapsto> f))))"
    and "F a = Some g \<Longrightarrow> P g \<Longrightarrow> card (owning P F) = Suc (card (owning P (F(a := None))))"
    and "F a = Some g \<Longrightarrow> \<not> P g \<Longrightarrow> owning P (F(a := None)) = owning P F"
proof -
  note fin = owning_finite [OF assms]
  show "card (owning P (F(a \<mapsto> f))) = Suc (card (owning P F))" if "F a = None" "P f"
  proof -
    have "owning P (F(a \<mapsto> f)) = insert a (owning P F)" "a \<notin> owning P F"
      using that by (auto simp: owning_def)
    with fin show ?thesis by simp
  qed
  show "card (owning P F) = Suc (card (owning P (F(a \<mapsto> f))))"
    if "F a = Some g" "P g" "\<not> P f"
  proof -
    have "owning P (F(a \<mapsto> f)) = owning P F - {a}" "a \<in> owning P F"
      using that by (auto simp: owning_def)
    with fin show ?thesis by (metis card_Suc_Diff1)
  qed
  show "card (owning P F) = Suc (card (owning P (F(a := None))))" if "F a = Some g" "P g"
  proof -
    have "owning P (F(a := None)) = owning P F - {a}" "a \<in> owning P F"
      using that by (auto simp: owning_def)
    with fin show ?thesis by (metis card_Suc_Diff1)
  qed
qed (auto simp: owning_def)

text \<open>
  The count after a call for the future at \<open>a\<close>, which owned a reference: it is given up when the
  future has none any more.
\<close>

lemma owning_update_counts:
  assumes "finite (dom F)" "F a = Some f" "P f" and c: "arc_counts c (k + card (owning P F))"
  obtains c' where "(if P g then Inr (c\<lparr>arc_inner := x\<rparr>) else arc_drop (c\<lparr>arc_inner := x\<rparr>)) = Inr c'"
    "arc_counts c' (k + card (owning P (F(a \<mapsto> g))))" "arc_inner c' = x"
proof (cases "P g")
  case True
  with owning_card(2) [where P = P and F = F and a = a and g = f and f = g, OF assms(1,2)] assms(3) c that
  show thesis by simp
next
  case False
  with owning_card(3) [where P = P and F = F and a = a and g = f and f = g, OF assms(1,2)] assms(3) c
  have "arc_counts c (Suc (k + card (owning P (F(a \<mapsto> g)))))" by simp
  from arc_drop_upd [OF this, of x] False that show thesis by auto
qed

lemma owning_delete_counts:
  assumes "finite (dom F)" "F a = Some f" and c: "arc_counts c (k + card (owning P F))"
  obtains c' where "(if P f then arc_drop (c\<lparr>arc_inner := x\<rparr>) else Inr (c\<lparr>arc_inner := x\<rparr>)) = Inr c'"
    "arc_counts c' (k + card (owning P (F(a := None))))" "arc_inner c' = x"
proof (cases "P f")
  case True
  with owning_card(4) [where P = P and F = F and a = a and g = f, OF assms(1,2)] c
  have "arc_counts c (Suc (k + card (owning P (F(a := None)))))" by simp
  from arc_drop_upd [OF this, of x] True that show thesis by auto
next
  case False
  with owning_card(5) [where P = P and F = F and a = a and g = f, OF assms(1,2)] c that show thesis by simp
qed

lemma owning_pos:
  assumes "finite (dom F)" "F a = Some f" "P f"
  shows "0 < card (owning P F)"
  using assms owning_finite [OF assms(1), of P] by (auto simp: card_gt_0_iff owning_def)

text \<open>The handles: a clone counts itself and clones the reference, a drop runs and gives it up.\<close>

lemma arc_handle_clone_counts:
  assumes "arc_counts c n" "0 < n" "unat (arc_strong c) < 2 ^ 63" "count (arc_inner c) = Inr x"
  obtains c' where "arc_handle_clone count c = Inr c'" "arc_counts c' (Suc n)" "arc_inner c' = x"
proof -
  from arc_clone_upd [OF assms(1-3), of x] obtain c' where
    "arc_clone (c\<lparr>arc_inner := x\<rparr>) = Inr c'" "arc_counts c' (Suc n)" "arc_inner c' = x" by blast
  with assms that show thesis by (simp add: arc_handle_clone_def)
qed

lemma handle_drop_counts:
  assumes "arc_counts c (Suc n)" "dropper (arc_inner c) = Inr (w, x)"
  obtains c' where "handle_drop dropper c = Inr (w, c')" "arc_counts c' n" "arc_inner c' = x"
proof -
  from arc_drop_upd [OF assms(1), of x] obtain c' where
    "arc_drop (c\<lparr>arc_inner := x\<rparr>) = Inr c'" "arc_counts c' n" "arc_inner c' = x" by blast
  with assms that show thesis by (simp add: handle_drop_def)
qed

end
