(* ===== verification/Mpmc.thy ===== *)
theory Mpmc
  imports Channel_Future Ring_Buffer "HOL-Library.Sublist"
begin

text \<open>
  The multi producer, multi consumer channel of \<^verbatim>\<open>src/channel/mpmc.rs\<close>: \<open>ChannelState\<close> with its
  buffer, its queues of waiting receivers and senders, \<open>GenericChannel\<close>, the stream, and the
  shared variant with its counted senders and receivers. The channel is generic in its buffer:
  the code takes the operations of \<open>RingBuf\<close> as an argument, the lemmas are proved in the locale
  \<open>ring_buf\<close>. What the channel promises is that its contents, the buffered items followed by the
  values of the waiting senders, are a first-in, first-out queue.
\<close>

section \<open>Data\<close>

text \<open>The state of the channel together with the stores of the wait nodes of its futures.\<close>

record ('b, 'v) channel =
  ch_is_closed :: bool
  ch_buffer :: 'b
  ch_receive_waiters :: linked_list
  ch_send_waiters :: linked_list
  ch_recv_nodes :: "recv_waiter store"
  ch_send_nodes :: "'v send_waiter store"

definition channel_state_new :: "'b \<Rightarrow> ('b, 'v) channel" where
  "channel_state_new buffer =
     \<lparr>ch_is_closed = False, ch_buffer = buffer, ch_receive_waiters = ll_new, ch_send_waiters = ll_new,
      ch_recv_nodes = Map.empty, ch_send_nodes = Map.empty\<rparr>"

section \<open>Waking\<close>

definition wake_recv_waiter :: "recv_waiter \<Rightarrow> waker list \<Rightarrow> recv_waiter \<times> waker list" where
  "wake_recv_waiter waiter woken =
     (waiter\<lparr>rw_task := None, rw_state := Rp_Unregistered\<rparr>, woken @ wake_opt (rw_task waiter))"

definition wake_recv_waiters ::
  "linked_list \<Rightarrow> recv_waiter store \<Rightarrow> (linked_list \<times> recv_waiter store \<times> waker list) res" where
  "wake_recv_waiters waiters h = ll_reverse_drain wake_recv_waiter waiters h []"

definition wake_send_waiter :: "'v send_waiter \<Rightarrow> waker list \<Rightarrow> 'v send_waiter \<times> waker list" where
  "wake_send_waiter waiter woken =
     (waiter\<lparr>snd_task := None, snd_state := Sp_Unregistered\<rparr>, woken @ wake_opt (snd_task waiter))"

definition wake_send_waiters ::
  "linked_list \<Rightarrow> 'v send_waiter store \<Rightarrow> (linked_list \<times> 'v send_waiter store \<times> waker list) res" where
  "wake_send_waiters waiters h = ll_reverse_drain wake_send_waiter waiters h []"

definition return_oldest_receive_waiter ::
  "linked_list \<Rightarrow> recv_waiter store \<Rightarrow> (waker option \<times> linked_list \<times> recv_waiter store) res" where
  "return_oldest_receive_waiter waiters h =
     and_then (ll_remove_last waiters h) (\<lambda>(last_waiter, waiters, h).
     case last_waiter of
       Some last_waiter \<Rightarrow>
         and_then (update_data last_waiter (rw_state_update (\<lambda>_. Rp_Notified)) h) (\<lambda>h.
         and_then (read_data h last_waiter) (\<lambda>e.
         and_then (update_data last_waiter (rw_task_update (\<lambda>_. None)) h) (\<lambda>h.
         Inr (rw_task e, waiters, h))))
     | None \<Rightarrow> Inr (None, waiters, h))"

text \<open>The same on the receivers of a channel.\<close>

definition channel_notify_receiver :: "('b, 'v) channel \<Rightarrow> (waker option \<times> ('b, 'v) channel) res" where
  "channel_notify_receiver c =
     and_then (return_oldest_receive_waiter (ch_receive_waiters c) (ch_recv_nodes c)) (\<lambda>(w, l, h).
     Inr (w, c\<lparr>ch_receive_waiters := l, ch_recv_nodes := h\<rparr>))"

section \<open>ChannelState\<close>

partial_function (option) channel_clear_loop ::
  "('b, 'v) ring_buf_ops \<Rightarrow> 'b \<Rightarrow> 'b res option" where
  "channel_clear_loop ops buffer =
     (if \<not> rb_is_empty ops buffer
      then (case rb_pop ops buffer of
              Inl e \<Rightarrow> Some (Inl e)
            | Inr (_, buffer) \<Rightarrow> channel_clear_loop ops buffer)
      else Some (Inr buffer))"

definition channel_clear :: "('b, 'v) ring_buf_ops \<Rightarrow> ('b, 'v) channel \<Rightarrow> ('b, 'v) channel res" where
  "channel_clear ops c =
     and_then (run_loop (channel_clear_loop ops (ch_buffer c))) (\<lambda>buffer. Inr (c\<lparr>ch_buffer := buffer\<rparr>))"

definition channel_close :: "('b, 'v) channel \<Rightarrow> (close_status \<times> waker list \<times> ('b, 'v) channel) res" where
  "channel_close c =
     (if ch_is_closed c then Inr (Already_Closed, [], c)
      else and_then (wake_recv_waiters (ch_receive_waiters c) (ch_recv_nodes c)) (\<lambda>(rl, rh, rwoken).
           and_then (wake_send_waiters (ch_send_waiters c) (ch_send_nodes c)) (\<lambda>(sl, sh, swoken).
           Inr (Newly_Closed, rwoken @ swoken,
                c\<lparr>ch_is_closed := True, ch_receive_waiters := rl, ch_recv_nodes := rh,
                  ch_send_waiters := sl, ch_send_nodes := sh\<rparr>))))"

definition channel_state_try_send ::
  "('b, 'v) ring_buf_ops \<Rightarrow> 'v \<Rightarrow> ('b, 'v) channel \<Rightarrow>
   (('v try_send_error + waker option) \<times> ('b, 'v) channel) res" where
  "channel_state_try_send ops v c =
     and_then (assert_that (0 < rb_capacity ops (ch_buffer c))
                 ''try_send is not supported for unbuffered channels'') (\<lambda>_.
     if ch_is_closed c then Inr (Inl (Ts_Closed v), c)
     else if rb_can_push ops (ch_buffer c)
     then and_then (rb_push ops v (ch_buffer c)) (\<lambda>b.
          and_then (channel_notify_receiver (c\<lparr>ch_buffer := b\<rparr>)) (\<lambda>(w, c).
          Inr (Inr w, c)))
     else Inr (Inl (Ts_Full v), c))"

definition channel_state_send_or_register ::
  "('b, 'v) ring_buf_ops \<Rightarrow> addr \<Rightarrow> waker \<Rightarrow> ('b, 'v) channel \<Rightarrow>
   (unit poll \<times> 'v option \<times> waker option \<times> ('b, 'v) channel) res" where
  "channel_state_send_or_register ops wait_node cx c =
     and_then (read_data (ch_send_nodes c) wait_node) (\<lambda>e.
     case snd_state e of
       Sp_Unregistered \<Rightarrow>
         if ch_is_closed c
         then and_then (update_data wait_node (snd_value_update (\<lambda>_. None)) (ch_send_nodes c)) (\<lambda>h.
              Inr (Ready (), snd_value e, None, c\<lparr>ch_send_nodes := h\<rparr>))
         else if \<not> rb_can_push ops (ch_buffer c)
         then and_then (update_data wait_node
                          (\<lambda>e. e\<lparr>snd_task := Some cx, snd_state := Sp_Registered\<rparr>) (ch_send_nodes c)) (\<lambda>h.
              and_then (ll_add_front (ch_send_waiters c) wait_node h) (\<lambda>(l, h).
              and_then (channel_notify_receiver (c\<lparr>ch_send_waiters := l, ch_send_nodes := h\<rparr>)) (\<lambda>(w, c).
              Inr (Pending, None, w, c))))
         else and_then (update_data wait_node (snd_value_update (\<lambda>_. None)) (ch_send_nodes c)) (\<lambda>h.
              case snd_value e of
                None \<Rightarrow> Inl (Panic ''wait_node must contain value'')
              | Some v \<Rightarrow>
                  and_then (rb_push ops v (ch_buffer c)) (\<lambda>b.
                  and_then (channel_notify_receiver (c\<lparr>ch_send_nodes := h, ch_buffer := b\<rparr>)) (\<lambda>(w, c).
                  Inr (Ready (), None, w, c))))
     | Sp_Registered \<Rightarrow>
         and_then (update_data wait_node (snd_task_update (\<lambda>t. update_waker_ref t cx)) (ch_send_nodes c)) (\<lambda>h.
         Inr (Pending, None, None, c\<lparr>ch_send_nodes := h\<rparr>))
     | Sp_Send_Complete \<Rightarrow> Inr (Ready (), None, None, c))"

definition channel_try_copy_value_from_oldest_waiter ::
  "('b, 'v) ring_buf_ops \<Rightarrow> ('b, 'v) channel \<Rightarrow> (waker option \<times> ('b, 'v) channel) res" where
  "channel_try_copy_value_from_oldest_waiter ops c =
     and_then (ll_remove_last (ch_send_waiters c) (ch_send_nodes c)) (\<lambda>(last_waiter, l, h).
     let c = c\<lparr>ch_send_waiters := l, ch_send_nodes := h\<rparr> in
     case last_waiter of
       Some last_waiter \<Rightarrow>
         and_then (read_data h last_waiter) (\<lambda>e.
         and_then (update_data last_waiter (snd_value_update (\<lambda>_. None)) h) (\<lambda>h.
         case snd_value e of
           None \<Rightarrow> Inl (Panic ''wait_node must contain value'')
         | Some v \<Rightarrow>
             and_then (rb_push ops v (ch_buffer c)) (\<lambda>b.
             and_then (update_data last_waiter (snd_state_update (\<lambda>_. Sp_Send_Complete)) h) (\<lambda>h.
             and_then (update_data last_waiter (snd_task_update (\<lambda>_. None)) h) (\<lambda>h.
             Inr (snd_task e, c\<lparr>ch_buffer := b, ch_send_nodes := h\<rparr>))))))
     | None \<Rightarrow> Inr (None, c))"

definition channel_try_take_value_from_sender ::
  "('b, 'v) ring_buf_ops \<Rightarrow> ('b, 'v) channel \<Rightarrow> (('v \<times> waker option) option \<times> ('b, 'v) channel) res" where
  "channel_try_take_value_from_sender ops c =
     and_then (ll_remove_last (ch_send_waiters c) (ch_send_nodes c)) (\<lambda>(last_sender, l, h).
     let c = c\<lparr>ch_send_waiters := l, ch_send_nodes := h\<rparr> in
     case last_sender of
       Some last_sender \<Rightarrow>
         and_then (assert_that (rb_capacity ops (ch_buffer c) = 0)
                     ''assertion failed: 0 == self.buffer.capacity()'') (\<lambda>_.
         and_then (read_data h last_sender) (\<lambda>e.
         and_then (update_data last_sender (snd_value_update (\<lambda>_. None)) h) (\<lambda>h.
         case snd_value e of
           None \<Rightarrow> Inl (Panic ''Value must be available'')
         | Some v \<Rightarrow>
             and_then (update_data last_sender (snd_state_update (\<lambda>_. Sp_Send_Complete)) h) (\<lambda>h.
             and_then (update_data last_sender (snd_task_update (\<lambda>_. None)) h) (\<lambda>h.
             Inr (Some (v, snd_task e), c\<lparr>ch_send_nodes := h\<rparr>))))))
     | None \<Rightarrow> Inr (None, c))"

definition channel_state_try_receive ::
  "('b, 'v) ring_buf_ops \<Rightarrow> ('b, 'v) channel \<Rightarrow>
   ((try_receive_error + 'v \<times> waker option) \<times> ('b, 'v) channel) res" where
  "channel_state_try_receive ops c =
     (if \<not> rb_is_empty ops (ch_buffer c)
      then and_then (rb_pop ops (ch_buffer c)) (\<lambda>(v, b).
           and_then (channel_try_copy_value_from_oldest_waiter ops (c\<lparr>ch_buffer := b\<rparr>)) (\<lambda>(w, c).
           Inr (Inr (v, w), c)))
      else and_then (channel_try_take_value_from_sender ops c) (\<lambda>(r, c).
           case r of
             Some (v, w) \<Rightarrow> Inr (Inr (v, w), c)
           | None \<Rightarrow> if ch_is_closed c then Inr (Inl Tr_Closed, c) else Inr (Inl Tr_Empty, c)))"

definition channel_state_receive_or_register ::
  "('b, 'v) ring_buf_ops \<Rightarrow> addr \<Rightarrow> waker \<Rightarrow> ('b, 'v) channel \<Rightarrow>
   (('v \<times> waker option) option poll \<times> ('b, 'v) channel) res" where
  "channel_state_receive_or_register ops wait_node cx c =
     and_then (read_data (ch_recv_nodes c) wait_node) (\<lambda>e.
     if rw_state e = Rp_Registered
     then and_then (update_data wait_node (rw_task_update (\<lambda>t. update_waker_ref t cx)) (ch_recv_nodes c)) (\<lambda>h.
          Inr (Pending, c\<lparr>ch_recv_nodes := h\<rparr>))
     else and_then (update_data wait_node (rw_state_update (\<lambda>_. Rp_Unregistered)) (ch_recv_nodes c)) (\<lambda>h.
          and_then (channel_state_try_receive ops (c\<lparr>ch_recv_nodes := h\<rparr>)) (\<lambda>(r, c).
          case r of
            Inr val \<Rightarrow> Inr (Ready (Some val), c)
          | Inl Tr_Closed \<Rightarrow> Inr (Ready None, c)
          | Inl Tr_Empty \<Rightarrow>
              and_then (update_data wait_node
                          (\<lambda>e. e\<lparr>rw_task := Some cx, rw_state := Rp_Registered\<rparr>) (ch_recv_nodes c)) (\<lambda>h.
              and_then (ll_add_front (ch_receive_waiters c) wait_node h) (\<lambda>(l, h).
              Inr (Pending, c\<lparr>ch_receive_waiters := l, ch_recv_nodes := h\<rparr>))))))"

definition channel_state_remove_send_waiter ::
  "addr \<Rightarrow> ('b, 'v) channel \<Rightarrow> ('b, 'v) channel res" where
  "channel_state_remove_send_waiter wait_node c =
     and_then (read_data (ch_send_nodes c) wait_node) (\<lambda>e.
     case snd_state e of
       Sp_Registered \<Rightarrow>
         and_then (ll_remove (ch_send_waiters c) wait_node (ch_send_nodes c)) (\<lambda>(removed, l, h).
         if \<not> removed then Inl (Panic ''Future could not be removed from wait queue'')
         else and_then (update_data wait_node (snd_state_update (\<lambda>_. Sp_Unregistered)) h) (\<lambda>h.
              Inr (c\<lparr>ch_send_waiters := l, ch_send_nodes := h\<rparr>)))
     | Sp_Unregistered \<Rightarrow> Inr c
     | Sp_Send_Complete \<Rightarrow> Inr c)"

definition channel_state_remove_receive_waiter ::
  "addr \<Rightarrow> ('b, 'v) channel \<Rightarrow> (waker option \<times> ('b, 'v) channel) res" where
  "channel_state_remove_receive_waiter wait_node c =
     and_then (read_data (ch_recv_nodes c) wait_node) (\<lambda>e.
     case rw_state e of
       Rp_Registered \<Rightarrow>
         and_then (ll_remove (ch_receive_waiters c) wait_node (ch_recv_nodes c)) (\<lambda>(removed, l, h).
         if \<not> removed then Inl (Panic ''Future could not be removed from wait queue'')
         else and_then (update_data wait_node (rw_state_update (\<lambda>_. Rp_Unregistered)) h) (\<lambda>h.
              Inr (None, c\<lparr>ch_receive_waiters := l, ch_recv_nodes := h\<rparr>)))
     | Rp_Notified \<Rightarrow>
         and_then (update_data wait_node (rw_state_update (\<lambda>_. Rp_Unregistered)) (ch_recv_nodes c)) (\<lambda>h.
         channel_notify_receiver (c\<lparr>ch_recv_nodes := h\<rparr>))
     | Rp_Unregistered \<Rightarrow> Inr (None, c))"

section \<open>GenericChannel\<close>

definition channel_new :: "('b, 'v) ring_buf_ops \<Rightarrow> ('b, 'v) channel" where
  "channel_new ops = channel_state_new (rb_new ops)"

definition channel_with_capacity :: "('b, 'v) ring_buf_ops \<Rightarrow> usize \<Rightarrow> ('b, 'v) channel" where
  "channel_with_capacity ops capacity = channel_state_new (rb_with_capacity ops capacity)"

definition channel_send :: "addr \<Rightarrow> 'v \<Rightarrow> send_future \<times> 'v send_waiter list_node" where
  "channel_send a v = (\<lparr>sdf_channel = True, sdf_wait_node = a\<rparr>, list_node_new (send_waiter_new v))"

definition channel_receive :: "addr \<Rightarrow> receive_future \<times> recv_waiter list_node" where
  "channel_receive a = (\<lparr>rf_channel = True, rf_wait_node = a\<rparr>, list_node_new recv_waiter_new)"

definition channel_try_send ::
  "('b, 'v) ring_buf_ops \<Rightarrow> 'v \<Rightarrow> ('b, 'v) channel \<Rightarrow>
   (('v try_send_error + unit) \<times> waker list \<times> ('b, 'v) channel) res" where
  "channel_try_send ops v c =
     and_then (channel_state_try_send ops v c) (\<lambda>(result, c).
     case result of
       Inr (Some waker) \<Rightarrow> Inr (Inr (), [waker], c)
     | Inr None \<Rightarrow> Inr (Inr (), [], c)
     | Inl e \<Rightarrow> Inr (Inl e, [], c))"

definition channel_try_receive ::
  "('b, 'v) ring_buf_ops \<Rightarrow> ('b, 'v) channel \<Rightarrow>
   ((try_receive_error + 'v) \<times> waker list \<times> ('b, 'v) channel) res" where
  "channel_try_receive ops c =
     and_then (channel_state_try_receive ops c) (\<lambda>(result, c).
     case result of
       Inr (v, waker) \<Rightarrow> Inr (Inr v, wake_opt waker, c)
     | Inl e \<Rightarrow> Inr (Inl e, [], c))"

definition channel_send_or_register ::
  "('b, 'v) ring_buf_ops \<Rightarrow> addr \<Rightarrow> waker \<Rightarrow> ('b, 'v) channel \<Rightarrow>
   (unit poll \<times> 'v option \<times> waker list \<times> ('b, 'v) channel) res" where
  "channel_send_or_register ops wait_node cx c =
     and_then (channel_state_send_or_register ops wait_node cx c) (\<lambda>(poll_result, v, waker, c).
     Inr (poll_result, v, wake_opt waker, c))"

definition channel_receive_or_register ::
  "('b, 'v) ring_buf_ops \<Rightarrow> addr \<Rightarrow> waker \<Rightarrow> ('b, 'v) channel \<Rightarrow>
   ('v option poll \<times> waker list \<times> ('b, 'v) channel) res" where
  "channel_receive_or_register ops wait_node cx c =
     and_then (channel_state_receive_or_register ops wait_node cx c) (\<lambda>(result, c).
     case result of
       Ready (Some (v, waker)) \<Rightarrow> Inr (Ready (Some v), wake_opt waker, c)
     | Ready None \<Rightarrow> Inr (Ready None, [], c)
     | Pending \<Rightarrow> Inr (Pending, [], c))"

definition channel_remove_receive_waiter ::
  "addr \<Rightarrow> ('b, 'v) channel \<Rightarrow> (waker list \<times> ('b, 'v) channel) res" where
  "channel_remove_receive_waiter wait_node c =
     and_then (channel_state_remove_receive_waiter wait_node c) (\<lambda>(waker, c).
     Inr (wake_opt waker, c))"

definition channel_take_value :: "addr \<Rightarrow> ('b, 'v) channel \<Rightarrow> ('v option \<times> ('b, 'v) channel) res" where
  "channel_take_value wait_node c =
     and_then (read_data (ch_send_nodes c) wait_node) (\<lambda>e.
     and_then (update_data wait_node (snd_value_update (\<lambda>_. None)) (ch_send_nodes c)) (\<lambda>h.
     Inr (snd_value e, c\<lparr>ch_send_nodes := h\<rparr>)))"

text \<open>The implementations of the access traits.\<close>

definition channel_send_access :: "('b, 'v) ring_buf_ops \<Rightarrow> (('b, 'v) channel, 'v) send_access" where
  "channel_send_access ops =
     \<lparr>sa_send_or_register = channel_send_or_register ops,
      sa_remove_send_waiter = channel_state_remove_send_waiter, sa_take_value = channel_take_value\<rparr>"

definition channel_receive_access :: "('b, 'v) ring_buf_ops \<Rightarrow> (('b, 'v) channel, 'v) receive_access" where
  "channel_receive_access ops =
     \<lparr>ra_receive_or_register = channel_receive_or_register ops,
      ra_remove_receive_waiter = channel_remove_receive_waiter\<rparr>"

section \<open>The specification\<close>

text \<open>
  The channel without pointers: the items in the buffer (oldest first), the waiting receivers and
  senders (youngest first), and what each receiver and sender knows.
\<close>

record 'v channel_spec =
  cp_closed :: bool
  cp_cap :: nat
  cp_buf :: "'v list"
  cp_recv :: "addr list"
  cp_send :: "addr list"
  cp_rd :: "addr \<rightharpoonup> recv_waiter"
  cp_sd :: "addr \<rightharpoonup> 'v send_waiter"

definition channel_abs ::
  "('b, 'v) ring_buf_ops \<Rightarrow> ('b \<Rightarrow> bool) \<Rightarrow> ('b \<Rightarrow> 'v list) \<Rightarrow> ('b, 'v) channel \<Rightarrow> 'v channel_spec \<Rightarrow> bool" where
  "channel_abs ops binv items c S \<longleftrightarrow>
     binv (ch_buffer c) \<and> items (ch_buffer c) = cp_buf S \<and> unat (rb_capacity ops (ch_buffer c)) = cp_cap S \<and>
     ch_is_closed c = cp_closed S \<and>
     ll_rep (ch_recv_nodes c) (ch_receive_waiters c) (cp_recv S) \<and> data_of (ch_recv_nodes c) = cp_rd S \<and>
     ll_rep (ch_send_nodes c) (ch_send_waiters c) (cp_send S) \<and> data_of (ch_send_nodes c) = cp_sd S"

abbreviation sd_value :: "(addr \<rightharpoonup> 'v send_waiter) \<Rightarrow> addr \<Rightarrow> 'v" where
  "sd_value sd a \<equiv> the (snd_value (the (sd a)))"

text \<open>The contents of the channel: the buffered items, then the values of the waiting senders.\<close>

definition cp_contents :: "'v channel_spec \<Rightarrow> 'v list" where
  "cp_contents S = cp_buf S @ map (sd_value (cp_sd S)) (rev (cp_send S))"

definition cp_notify :: "'v channel_spec \<Rightarrow> waker option \<times> 'v channel_spec" where
  "cp_notify S =
     (if cp_recv S = [] then (None, S)
      else let a = last (cp_recv S); e = the (cp_rd S a)
           in (rw_task e, S\<lparr>cp_recv := butlast (cp_recv S),
                 cp_rd := (cp_rd S)(a \<mapsto> e\<lparr>rw_state := Rp_Notified, rw_task := None\<rparr>)\<rparr>))"

definition cp_try_send :: "'v \<Rightarrow> 'v channel_spec \<Rightarrow> ('v try_send_error + waker option) \<times> 'v channel_spec" where
  "cp_try_send v S =
     (if cp_closed S then (Inl (Ts_Closed v), S)
      else if length (cp_buf S) < cp_cap S
      then (case cp_notify (S\<lparr>cp_buf := cp_buf S @ [v]\<rparr>) of (w, S) \<Rightarrow> (Inr w, S))
      else (Inl (Ts_Full v), S))"

definition cp_poll_send ::
  "addr \<Rightarrow> waker \<Rightarrow> 'v channel_spec \<Rightarrow> unit poll \<times> 'v option \<times> waker option \<times> 'v channel_spec" where
  "cp_poll_send a cx S =
     (let e = the (cp_sd S a); taken = (cp_sd S)(a \<mapsto> e\<lparr>snd_value := None\<rparr>) in
      case snd_state e of
        Sp_Unregistered \<Rightarrow>
          if cp_closed S then (Ready (), snd_value e, None, S\<lparr>cp_sd := taken\<rparr>)
          else if length (cp_buf S) < cp_cap S
          then (case cp_notify (S\<lparr>cp_sd := taken, cp_buf := cp_buf S @ [the (snd_value e)]\<rparr>) of
                  (w, S) \<Rightarrow> (Ready (), None, w, S))
          else (case cp_notify (S\<lparr>cp_send := a # cp_send S,
                       cp_sd := (cp_sd S)(a \<mapsto> e\<lparr>snd_task := Some cx, snd_state := Sp_Registered\<rparr>)\<rparr>) of
                  (w, S) \<Rightarrow> (Pending, None, w, S))
      | Sp_Registered \<Rightarrow> (Pending, None, None, S\<lparr>cp_sd := (cp_sd S)(a \<mapsto> e\<lparr>snd_task := Some cx\<rparr>)\<rparr>)
      | Sp_Send_Complete \<Rightarrow> (Ready (), None, None, S))"

text \<open>The oldest waiting sender is done.\<close>

definition cp_complete_sender :: "'v channel_spec \<Rightarrow> 'v channel_spec" where
  "cp_complete_sender S =
     (let a = last (cp_send S) in
      S\<lparr>cp_send := butlast (cp_send S),
        cp_sd := (cp_sd S)(a \<mapsto> (the (cp_sd S a))\<lparr>snd_value := None, snd_state := Sp_Send_Complete, snd_task := None\<rparr>)\<rparr>)"

text \<open>
  Receiving: the oldest item is taken. If senders wait, the value of the oldest of them moves into
  the buffer, or is the one received when there is no buffer.
\<close>

definition cp_try_receive ::
  "'v channel_spec \<Rightarrow> (try_receive_error + 'v \<times> waker option) \<times> 'v channel_spec" where
  "cp_try_receive S =
     (let a = last (cp_send S); w = snd_task (the (cp_sd S a)); v = sd_value (cp_sd S) a in
      case cp_buf S of
        x # xs \<Rightarrow>
          if cp_send S = [] then (Inr (x, None), S\<lparr>cp_buf := xs\<rparr>)
          else (Inr (x, w), cp_complete_sender (S\<lparr>cp_buf := xs @ [v]\<rparr>))
      | [] \<Rightarrow>
          if cp_send S \<noteq> [] then (Inr (v, w), cp_complete_sender S)
          else if cp_closed S then (Inl Tr_Closed, S) else (Inl Tr_Empty, S))"

definition cp_poll_recv ::
  "addr \<Rightarrow> waker \<Rightarrow> 'v channel_spec \<Rightarrow> ('v \<times> waker option) option poll \<times> 'v channel_spec" where
  "cp_poll_recv a cx S =
     (let e = the (cp_rd S a) in
      if rw_state e = Rp_Registered
      then (Pending, S\<lparr>cp_rd := (cp_rd S)(a \<mapsto> e\<lparr>rw_task := Some cx\<rparr>)\<rparr>)
      else case cp_try_receive (S\<lparr>cp_rd := (cp_rd S)(a \<mapsto> e\<lparr>rw_state := Rp_Unregistered\<rparr>)\<rparr>) of
             (Inr val, S) \<Rightarrow> (Ready (Some val), S)
           | (Inl Tr_Closed, S) \<Rightarrow> (Ready None, S)
           | (Inl Tr_Empty, S) \<Rightarrow>
               (Pending, S\<lparr>cp_recv := a # cp_recv S,
                   cp_rd := (cp_rd S)(a \<mapsto> e\<lparr>rw_task := Some cx, rw_state := Rp_Registered\<rparr>)\<rparr>))"

definition cp_remove_send :: "addr \<Rightarrow> 'v channel_spec \<Rightarrow> 'v channel_spec" where
  "cp_remove_send a S =
     (let e = the (cp_sd S a) in
      if snd_state e = Sp_Registered
      then S\<lparr>cp_send := remove1 a (cp_send S), cp_sd := (cp_sd S)(a \<mapsto> e\<lparr>snd_state := Sp_Unregistered\<rparr>)\<rparr>
      else S)"

definition cp_remove_recv :: "addr \<Rightarrow> 'v channel_spec \<Rightarrow> waker option \<times> 'v channel_spec" where
  "cp_remove_recv a S =
     (let e = the (cp_rd S a); left = (cp_rd S)(a \<mapsto> e\<lparr>rw_state := Rp_Unregistered\<rparr>) in
      case rw_state e of
        Rp_Registered \<Rightarrow> (None, S\<lparr>cp_recv := remove1 a (cp_recv S), cp_rd := left\<rparr>)
      | Rp_Notified \<Rightarrow> cp_notify (S\<lparr>cp_rd := left\<rparr>)
      | Rp_Unregistered \<Rightarrow> (None, S))"

text \<open>Closing wakes all receivers, the oldest first, then all senders, and sends them away.\<close>

definition cp_close :: "'v channel_spec \<Rightarrow> close_status \<times> waker list \<times> 'v channel_spec" where
  "cp_close S =
     (if cp_closed S then (Already_Closed, [], S)
      else (Newly_Closed,
            concat (map (\<lambda>a. wake_opt (rw_task (the (cp_rd S a)))) (rev (cp_recv S))) @
            concat (map (\<lambda>a. wake_opt (snd_task (the (cp_sd S a)))) (rev (cp_send S))),
            S\<lparr>cp_closed := True, cp_recv := [], cp_send := [],
              cp_rd := (\<lambda>a. if a \<in> set (cp_recv S)
                then map_option (\<lambda>e. e\<lparr>rw_task := None, rw_state := Rp_Unregistered\<rparr>) (cp_rd S a) else cp_rd S a),
              cp_sd := (\<lambda>a. if a \<in> set (cp_send S)
                then map_option (\<lambda>e. e\<lparr>snd_task := None, snd_state := Sp_Unregistered\<rparr>) (cp_sd S a) else cp_sd S a)\<rparr>))"

section \<open>The invariant\<close>

definition cp_notified :: "(addr \<rightharpoonup> recv_waiter) \<Rightarrow> addr set" where
  "cp_notified rd = {a. \<exists>e. rd a = Some e \<and> rw_state e = Rp_Notified}"

text \<open>
  Receivers and senders are queued exactly while they are registered, with their wakers, the
  senders with their values; senders wait only while the buffer is full; nobody waits at a closed
  channel. No wakeup is lost: while receivers wait, as many others are notified as there are
  values to receive.
\<close>

definition cp_senders_ok :: "'v channel_spec \<Rightarrow> bool" where
  "cp_senders_ok S \<longleftrightarrow>
     distinct (cp_send S) \<and> set (cp_send S) \<subseteq> dom (cp_sd S) \<and>
     (\<forall>a e. cp_sd S a = Some e \<longrightarrow>
        (a \<in> set (cp_send S) \<longleftrightarrow> snd_state e = Sp_Registered) \<and>
        (snd_state e = Sp_Registered \<longrightarrow> snd_task e \<noteq> None \<and> snd_value e \<noteq> None) \<and>
        (snd_state e = Sp_Send_Complete \<longrightarrow> snd_value e = None)) \<and>
     length (cp_buf S) \<le> cp_cap S \<and>
     (cp_send S \<noteq> [] \<longrightarrow> length (cp_buf S) = cp_cap S)"

definition cp_receivers_ok :: "'v channel_spec \<Rightarrow> bool" where
  "cp_receivers_ok S \<longleftrightarrow>
     distinct (cp_recv S) \<and> set (cp_recv S) \<subseteq> dom (cp_rd S) \<and> finite (dom (cp_rd S)) \<and>
     (\<forall>a e. cp_rd S a = Some e \<longrightarrow>
        (a \<in> set (cp_recv S) \<longleftrightarrow> rw_state e = Rp_Registered) \<and>
        (rw_state e = Rp_Registered \<longrightarrow> rw_task e \<noteq> None))"

definition cp_wakeups_ok :: "'v channel_spec \<Rightarrow> bool" where
  "cp_wakeups_ok S \<longleftrightarrow>
     (cp_recv S \<noteq> [] \<longrightarrow> length (cp_buf S) + length (cp_send S) \<le> card (cp_notified (cp_rd S)))"

definition cp_inv :: "'v channel_spec \<Rightarrow> bool" where
  "cp_inv S \<longleftrightarrow> cp_senders_ok S \<and> cp_receivers_ok S \<and> cp_wakeups_ok S \<and>
     (cp_closed S \<longrightarrow> cp_recv S = [] \<and> cp_send S = [])"

section \<open>Refinement\<close>

lemma wake_recv_waiters_wp:
  assumes "ll_rep h l xs"
    and "\<And>l' h'. ll_rep h' l' [] \<Longrightarrow> data_of h' = (\<lambda>a. if a \<in> set xs
        then map_option (\<lambda>e. e\<lparr>rw_task := None, rw_state := Rp_Unregistered\<rparr>) (data_of h a) else data_of h a) \<Longrightarrow>
      Q (l', h', concat (map (\<lambda>x. wake_opt (rw_task (the (data_of h x)))) (rev xs)))"
  shows "returns (wake_recv_waiters l h) Q"
  unfolding wake_recv_waiters_def
  by (rule lq.take_all_wp [OF assms(1), where w = "\<lambda>e. wake_opt (rw_task e)"])
    (use assms(2) in \<open>auto simp: wake_recv_waiter_def\<close>)

lemma wake_send_waiters_wp:
  assumes "ll_rep h l xs"
    and "\<And>l' h'. ll_rep h' l' [] \<Longrightarrow> data_of h' = (\<lambda>a. if a \<in> set xs
        then map_option (\<lambda>e. e\<lparr>snd_task := None, snd_state := Sp_Unregistered\<rparr>) (data_of h a) else data_of h a) \<Longrightarrow>
      Q (l', h', concat (map (\<lambda>x. wake_opt (snd_task (the (data_of h x)))) (rev xs)))"
  shows "returns (wake_send_waiters l h) Q"
  unfolding wake_send_waiters_def
  by (rule lq.take_all_wp [OF assms(1), where w = "\<lambda>e. wake_opt (snd_task e)"])
    (use assms(2) in \<open>auto simp: wake_send_waiter_def\<close>)

lemma channel_notify_refines:
  assumes abs: "channel_abs ops binv items c S"
  shows "returns (channel_notify_receiver c)
    (\<lambda>(w, c'). w = fst (cp_notify S) \<and> channel_abs ops binv items c' (snd (cp_notify S)))"
proof (cases "cp_recv S" rule: rev_cases)
  case Nil
  with abs show ?thesis
    by (simp add: channel_notify_receiver_def return_oldest_receive_waiter_def cp_notify_def channel_abs_def
        ll_remove_last_empty)
next
  case (snoc xs a)
  with abs obtain e where e: "cp_rd S a = Some e"
    using ll_rep_dom [of "ch_recv_nodes c" "ch_receive_waiters c" "xs @ [a]" a] by (auto simp: channel_abs_def)
  with snoc abs show ?thesis
    by (auto simp: channel_notify_receiver_def return_oldest_receive_waiter_def cp_notify_def channel_abs_def Let_def
        intro!: ll_remove_last_wp [where a = a and xs = xs] update_data_wp)
qed

lemma channel_notify_wp:
  assumes "channel_abs ops binv items c S"
    and "\<And>c'. channel_abs ops binv items c' (snd (cp_notify S)) \<Longrightarrow> Q (fst (cp_notify S), c')"
  shows "returns (channel_notify_receiver c) Q"
  by (rule returns_mono [OF channel_notify_refines [OF assms(1)]]) (use assms(2) in auto)

lemma channel_close_refines:
  assumes abs: "channel_abs ops binv items c S"
  shows "returns (channel_close c) (\<lambda>(st, w, c'). \<exists>S'.
    cp_close S = (st, w, S') \<and> channel_abs ops binv items c' S')"
proof (cases "cp_closed S")
  case True
  with abs show ?thesis by (simp add: channel_close_def cp_close_def channel_abs_def)
next
  case False
  from abs have rl: "ll_rep (ch_recv_nodes c) (ch_receive_waiters c) (cp_recv S)"
    "data_of (ch_recv_nodes c) = cp_rd S"
    and sl: "ll_rep (ch_send_nodes c) (ch_send_waiters c) (cp_send S)"
    "data_of (ch_send_nodes c) = cp_sd S"
    by (simp_all add: channel_abs_def)
  have "returns (wake_recv_waiters (ch_receive_waiters c) (ch_recv_nodes c)) (\<lambda>(l, h, w).
      ll_rep h l [] \<and> data_of h = cp_rd (snd (snd (cp_close S))) \<and>
      w = concat (map (\<lambda>a. wake_opt (rw_task (the (cp_rd S a)))) (rev (cp_recv S))))"
    by (rule wake_recv_waiters_wp [OF rl(1)]) (simp add: rl(2) cp_close_def False cong: if_cong)
  moreover have "returns (wake_send_waiters (ch_send_waiters c) (ch_send_nodes c)) (\<lambda>(l, h, w).
      ll_rep h l [] \<and> data_of h = cp_sd (snd (snd (cp_close S))) \<and>
      w = concat (map (\<lambda>a. wake_opt (snd_task (the (cp_sd S a)))) (rev (cp_send S))))"
    by (rule wake_send_waiters_wp [OF sl(1)]) (simp add: sl(2) cp_close_def False cong: if_cong)
  ultimately show ?thesis
    using False abs
    by (auto simp: channel_close_def cp_close_def channel_abs_def elim!: returns_mono)
qed

text \<open>Entries of the specification are the data of the nodes.\<close>

lemma channel_abs_recv: "channel_abs ops binv items c S \<Longrightarrow> cp_rd S a = Some e \<Longrightarrow>
   read_data (ch_recv_nodes c) a = Inr e"
  by (simp add: channel_abs_def)

lemma channel_abs_send: "channel_abs ops binv items c S \<Longrightarrow> cp_sd S a = Some e \<Longrightarrow>
   read_data (ch_send_nodes c) a = Inr e"
  by (simp add: channel_abs_def)

lemma channel_abs_closed: "channel_abs ops binv items c S \<Longrightarrow> ch_is_closed c = cp_closed S"
  by (simp add: channel_abs_def)

lemma cp_senders_ok_waiting:
  "cp_senders_ok S \<Longrightarrow> a \<in> set (cp_send S) \<Longrightarrow>
   \<exists>e v. cp_sd S a = Some e \<and> snd_state e = Sp_Registered \<and> snd_value e = Some v"
  by (fastforce simp: cp_senders_ok_def)

lemma channel_remove_send_refines:
  assumes abs: "channel_abs ops binv items c S" and inv: "cp_senders_ok S" and e: "cp_sd S a = Some e"
  shows "returns (channel_state_remove_send_waiter a c) (\<lambda>c'. channel_abs ops binv items c' (cp_remove_send a S))"
proof -
  have "a \<in> set (cp_send S) \<longleftrightarrow> snd_state e = Sp_Registered" using inv e by (simp add: cp_senders_ok_def)
  with abs e show ?thesis
    by (cases "snd_state e")
      (auto simp: channel_state_remove_send_waiter_def cp_remove_send_def channel_abs_def Let_def
        intro!: lq.leave_wp update_data_wp)
qed

lemma channel_remove_recv_refines:
  assumes abs: "channel_abs ops binv items c S" and inv: "cp_receivers_ok S" and e: "cp_rd S a = Some e"
  shows "returns (channel_state_remove_receive_waiter a c)
    (\<lambda>(w, c'). \<exists>S'. cp_remove_recv a S = (w, S') \<and> channel_abs ops binv items c' S')"
proof -
  have q: "a \<in> set (cp_recv S) \<longleftrightarrow> rw_state e = Rp_Registered" using inv e by (simp add: cp_receivers_ok_def)
  let ?S = "S\<lparr>cp_rd := (cp_rd S)(a \<mapsto> e\<lparr>rw_state := Rp_Unregistered\<rparr>)\<rparr>"
  show ?thesis
  proof (cases "rw_state e")
    case Rp_Notified
    have "returns (update_data a (rw_state_update (\<lambda>_. Rp_Unregistered)) (ch_recv_nodes c))
      (\<lambda>h. channel_abs ops binv items (c\<lparr>ch_recv_nodes := h\<rparr>) ?S)"
      using abs e by (auto simp: channel_abs_def intro!: update_data_wp)
    then have "returns (update_data a (rw_state_update (\<lambda>_. Rp_Unregistered)) (ch_recv_nodes c))
      (\<lambda>h. returns (channel_notify_receiver (c\<lparr>ch_recv_nodes := h\<rparr>))
        (\<lambda>(w, c'). \<exists>S'. cp_notify ?S = (w, S') \<and> channel_abs ops binv items c' S'))"
      by (elim returns_mono) (auto simp: ex_pair_eq intro!: channel_notify_wp)
    then show ?thesis
      using Rp_Notified e channel_abs_recv [OF abs e]
      by (simp add: channel_state_remove_receive_waiter_def cp_remove_recv_def Let_def)
  qed (use abs e q in \<open>auto simp: channel_state_remove_receive_waiter_def cp_remove_recv_def channel_abs_def Let_def
        intro!: lq.leave_wp update_data_wp\<close>)
qed

context ring_buf
begin

lemma channel_try_send_refines:
  assumes abs: "channel_abs ops binv items c S" and cap: "0 < cp_cap S"
  shows "returns (channel_state_try_send ops v c)
    (\<lambda>(r, c'). \<exists>S'. cp_try_send v S = (r, S') \<and> channel_abs ops binv items c' S')"
proof -
  from abs have b: "binv (ch_buffer c)" "items (ch_buffer c) = cp_buf S"
    "unat (rb_capacity ops (ch_buffer c)) = cp_cap S" "ch_is_closed c = cp_closed S"
    by (simp_all add: channel_abs_def)
  then have can: "rb_can_push ops (ch_buffer c) \<longleftrightarrow> length (cp_buf S) < cp_cap S"
    by (simp add: can_push_law)
  from cap b(3) have "0 < rb_capacity ops (ch_buffer c)" by (simp add: word_less_nat_alt)
  moreover have "returns (rb_push ops v (ch_buffer c))
      (\<lambda>b'. channel_abs ops binv items (c\<lparr>ch_buffer := b'\<rparr>) (S\<lparr>cp_buf := cp_buf S @ [v]\<rparr>))"
    if "length (cp_buf S) < cp_cap S"
    using that can abs by (auto simp: channel_abs_def intro!: push_wp)
  ultimately show ?thesis
    using abs b(4) can
    by (auto simp: channel_state_try_send_def cp_try_send_def split_def
        intro!: channel_notify_wp elim!: returns_mono)
qed

lemma channel_send_new_refines:
  assumes abs: "channel_abs ops binv items c S" and inv: "cp_senders_ok S" and e: "cp_sd S a = Some e"
    and new: "snd_state e = Sp_Unregistered" and has: "snd_value e \<noteq> None"
  shows "returns (channel_state_send_or_register ops a cx c)
    (\<lambda>(r, v, w, c'). \<exists>S'. cp_poll_send a cx S = (r, v, w, S') \<and> channel_abs ops binv items c' S')"
proof -
  from has obtain v where v: "snd_value e = Some v" by blast
  from new inv e have q: "a \<notin> set (cp_send S)" by (simp add: cp_senders_ok_def)
  from abs have b: "binv (ch_buffer c)" "items (ch_buffer c) = cp_buf S"
    "unat (rb_capacity ops (ch_buffer c)) = cp_cap S" "ch_is_closed c = cp_closed S"
    by (simp_all add: channel_abs_def)
  then have can: "rb_can_push ops (ch_buffer c) \<longleftrightarrow> length (cp_buf S) < cp_cap S"
    by (simp add: can_push_law)
  let ?taken = "(cp_sd S)(a \<mapsto> e\<lparr>snd_value := None\<rparr>)"
  have take: "returns (update_data a (snd_value_update (\<lambda>_. None)) (ch_send_nodes c))
      (\<lambda>h. channel_abs ops binv items (c\<lparr>ch_send_nodes := h\<rparr>) (S\<lparr>cp_sd := ?taken\<rparr>))"
    using abs e by (auto simp: channel_abs_def intro!: update_data_wp)
  have push: "returns (rb_push ops v (ch_buffer c)) (\<lambda>b'. channel_abs ops binv items
      (c\<lparr>ch_send_nodes := h, ch_buffer := b'\<rparr>) (S\<lparr>cp_sd := ?taken, cp_buf := cp_buf S @ [v]\<rparr>))"
    if "length (cp_buf S) < cp_cap S"
      "channel_abs ops binv items (c\<lparr>ch_send_nodes := h\<rparr>) (S\<lparr>cp_sd := ?taken\<rparr>)" for h
    using that can b by (auto simp: channel_abs_def intro!: push_wp)
  have enqueue: "returns (update_data a (\<lambda>e. e\<lparr>snd_task := Some cx, snd_state := Sp_Registered\<rparr>) (ch_send_nodes c))
      (\<lambda>h. returns (ll_add_front (ch_send_waiters c) a h) (\<lambda>(l, h). channel_abs ops binv items
        (c\<lparr>ch_send_waiters := l, ch_send_nodes := h\<rparr>) (S\<lparr>cp_send := a # cp_send S,
           cp_sd := (cp_sd S)(a \<mapsto> e\<lparr>snd_task := Some cx, snd_state := Sp_Registered\<rparr>)\<rparr>)))"
    using abs e q by (auto simp: channel_abs_def intro!: lq.enter_wp)
  consider "cp_closed S" | "\<not> cp_closed S" "length (cp_buf S) < cp_cap S"
    | "\<not> cp_closed S" "\<not> length (cp_buf S) < cp_cap S" by blast
  then show ?thesis
  proof cases
    case 1
    with new e b(4) channel_abs_send [OF abs e] take show ?thesis
      by (auto simp: channel_state_send_or_register_def cp_poll_send_def Let_def elim!: returns_mono)
  next
    case 2
    from take have "returns (update_data a (snd_value_update (\<lambda>_. None)) (ch_send_nodes c)) (\<lambda>h.
        returns (rb_push ops v (ch_buffer c)) (\<lambda>b. returns (channel_notify_receiver (c\<lparr>ch_send_nodes := h, ch_buffer := b\<rparr>))
          (\<lambda>(w, c'). \<exists>S'. cp_notify (S\<lparr>cp_sd := ?taken, cp_buf := cp_buf S @ [v]\<rparr>) = (w, S') \<and>
             channel_abs ops binv items c' S')))"
      by (elim returns_mono, intro returns_mono [OF push [OF 2(2)]]) (auto simp: ex_pair_eq intro!: channel_notify_wp)
    with 2 new e v b(4) can channel_abs_send [OF abs e] show ?thesis
      by (auto simp: channel_state_send_or_register_def cp_poll_send_def Let_def split_def ex_pair_eq
          elim!: returns_mono)
  next
    case 3
    from enqueue have "returns (update_data a (\<lambda>e. e\<lparr>snd_task := Some cx, snd_state := Sp_Registered\<rparr>) (ch_send_nodes c))
      (\<lambda>h. returns (ll_add_front (ch_send_waiters c) a h) (\<lambda>(l, h).
        returns (channel_notify_receiver (c\<lparr>ch_send_waiters := l, ch_send_nodes := h\<rparr>))
          (\<lambda>(w, c'). \<exists>S'. cp_notify (S\<lparr>cp_send := a # cp_send S,
             cp_sd := (cp_sd S)(a \<mapsto> e\<lparr>snd_task := Some cx, snd_state := Sp_Registered\<rparr>)\<rparr>) = (w, S') \<and>
             channel_abs ops binv items c' S')))"
      by (auto simp: ex_pair_eq elim!: returns_mono intro!: channel_notify_wp)
    with 3 new e b(4) can channel_abs_send [OF abs e] show ?thesis
      by (auto simp: channel_state_send_or_register_def cp_poll_send_def Let_def split_def ex_pair_eq
          elim!: returns_mono)
  qed
qed

lemma channel_send_or_register_refines:
  assumes abs: "channel_abs ops binv items c S" and inv: "cp_senders_ok S" and e: "cp_sd S a = Some e"
    and has: "snd_state e = Sp_Unregistered \<Longrightarrow> snd_value e \<noteq> None"
  shows "returns (channel_state_send_or_register ops a cx c)
    (\<lambda>(r, v, w, c'). \<exists>S'. cp_poll_send a cx S = (r, v, w, S') \<and> channel_abs ops binv items c' S')"
proof (cases "snd_state e")
  case Sp_Unregistered
  from channel_send_new_refines [OF abs inv e this has [OF this]] show ?thesis .
next
  case Sp_Registered
  with abs e show ?thesis
    by (auto simp: channel_state_send_or_register_def cp_poll_send_def channel_abs_def Let_def
        intro!: update_data_wp)
next
  case Sp_Send_Complete
  with abs e show ?thesis
    by (simp add: channel_state_send_or_register_def cp_poll_send_def channel_abs_def)
qed

lemma channel_try_copy_refines:
  assumes abs: "channel_abs ops binv items c S" and inv: "cp_senders_ok S" and x: "cp_buf S = x # xs"
    and abs': "channel_abs ops binv items c1 (S\<lparr>cp_buf := xs\<rparr>)"
  shows "returns (channel_try_copy_value_from_oldest_waiter ops c1)
    (\<lambda>(w, c'). \<exists>S'. cp_try_receive S = (Inr (x, w), S') \<and> channel_abs ops binv items c' S')"
proof (cases "cp_send S" rule: rev_cases)
  case Nil
  with abs' x show ?thesis
    by (simp add: channel_try_copy_value_from_oldest_waiter_def cp_try_receive_def channel_abs_def
        ll_remove_last_empty Let_def)
next
  case (snoc ws a)
  with cp_senders_ok_waiting [OF inv, of a] obtain e v where
    e: "cp_sd S a = Some e" "snd_state e = Sp_Registered" "snd_value e = Some v" by auto
  from inv x have "length xs < cp_cap S" by (simp add: cp_senders_ok_def)
  with abs' have room: "rb_can_push ops (ch_buffer c1)"
    by (simp add: channel_abs_def can_push_law)
  from snoc abs' e room x show ?thesis
    by (auto simp: channel_try_copy_value_from_oldest_waiter_def cp_try_receive_def cp_complete_sender_def
        channel_abs_def Let_def intro!: ll_remove_last_wp [where a = a and xs = ws] update_data_wp push_wp)
qed

lemma channel_try_take_refines:
  assumes abs: "channel_abs ops binv items c S" and inv: "cp_senders_ok S" and empty: "cp_buf S = []"
  shows "returns (channel_try_take_value_from_sender ops c)
    (\<lambda>(r, c'). case r of
       Some val \<Rightarrow> \<exists>S'. cp_try_receive S = (Inr val, S') \<and> channel_abs ops binv items c' S'
     | None \<Rightarrow> cp_send S = [] \<and> channel_abs ops binv items c' S)"
proof (cases "cp_send S" rule: rev_cases)
  case Nil
  with abs show ?thesis
    by (simp add: channel_try_take_value_from_sender_def channel_abs_def ll_remove_last_empty Let_def)
next
  case (snoc ws a)
  with cp_senders_ok_waiting [OF inv, of a] obtain e v where
    e: "cp_sd S a = Some e" "snd_state e = Sp_Registered" "snd_value e = Some v" by auto
  from inv snoc empty have "cp_cap S = 0" by (simp add: cp_senders_ok_def)
  with abs have "rb_capacity ops (ch_buffer c) = 0" by (simp add: channel_abs_def unat_eq_0)
  with snoc abs e empty show ?thesis
    by (auto simp: channel_try_take_value_from_sender_def cp_try_receive_def cp_complete_sender_def
        channel_abs_def Let_def intro!: ll_remove_last_wp [where a = a and xs = ws] update_data_wp)
qed

lemma channel_try_receive_refines:
  assumes abs: "channel_abs ops binv items c S" and inv: "cp_senders_ok S"
  shows "returns (channel_state_try_receive ops c)
    (\<lambda>(r, c'). \<exists>S'. cp_try_receive S = (r, S') \<and> channel_abs ops binv items c' S')"
proof (cases "cp_buf S")
  case Nil
  with abs have "rb_is_empty ops (ch_buffer c)" by (simp add: channel_abs_def is_empty_iff)
  with channel_try_take_refines [OF abs inv Nil] Nil abs show ?thesis
    by (auto simp: channel_state_try_receive_def cp_try_receive_def [of S] Let_def dest: channel_abs_closed
        elim!: returns_mono split: option.splits)
next
  case (Cons x xs)
  with abs have "\<not> rb_is_empty ops (ch_buffer c)" by (simp add: channel_abs_def is_empty_iff)
  moreover have "returns (rb_pop ops (ch_buffer c))
      (\<lambda>(v, b). v = x \<and> channel_abs ops binv items (c\<lparr>ch_buffer := b\<rparr>) (S\<lparr>cp_buf := xs\<rparr>))"
    using abs Cons by (auto simp: channel_abs_def intro!: pop_wp)
  then have "returns (rb_pop ops (ch_buffer c)) (\<lambda>(v, b). v = x \<and>
      returns (channel_try_copy_value_from_oldest_waiter ops (c\<lparr>ch_buffer := b\<rparr>))
        (\<lambda>(w, c'). \<exists>S'. cp_try_receive S = (Inr (x, w), S') \<and> channel_abs ops binv items c' S'))"
    by (elim returns_mono) (auto intro: channel_try_copy_refines [OF abs inv Cons])
  ultimately show ?thesis
    by (auto simp: channel_state_try_receive_def elim!: returns_mono)
qed

lemma channel_receive_or_register_refines:
  assumes abs: "channel_abs ops binv items c S" and ok: "cp_senders_ok S" "cp_receivers_ok S"
    and e: "cp_rd S a = Some e"
  shows "returns (channel_state_receive_or_register ops a cx c)
    (\<lambda>(r, c'). \<exists>S'. cp_poll_recv a cx S = (r, S') \<and> channel_abs ops binv items c' S')"
proof (cases "rw_state e = Rp_Registered")
  case True
  with abs e show ?thesis
    by (auto simp: channel_state_receive_or_register_def cp_poll_recv_def channel_abs_def Let_def
        intro!: update_data_wp)
next
  case False
  with ok(2) e have q: "a \<notin> set (cp_recv S)" by (simp add: cp_receivers_ok_def)
  let ?S = "S\<lparr>cp_rd := (cp_rd S)(a \<mapsto> e\<lparr>rw_state := Rp_Unregistered\<rparr>)\<rparr>"
  have ok': "cp_senders_ok ?S" using ok(1) by (simp add: cp_senders_ok_def)
  have same: "cp_recv S' = cp_recv S \<and> cp_rd S' = cp_rd ?S" if "cp_try_receive ?S = (r, S')" for r S'
    using that by (auto simp: cp_try_receive_def cp_complete_sender_def Let_def split: list.splits if_splits)
  let ?enqueue = "\<lambda>c. and_then
      (update_data a (\<lambda>e. e\<lparr>rw_task := Some cx, rw_state := Rp_Registered\<rparr>) (ch_recv_nodes c)) (\<lambda>h.
       and_then (ll_add_front (ch_receive_waiters c) a h) (\<lambda>(l, h).
       Inr (Pending :: ('a \<times> waker option) option poll, c\<lparr>ch_receive_waiters := l, ch_recv_nodes := h\<rparr>)))"
  let ?post = "\<lambda>(r, c'). \<exists>S'. cp_poll_recv a cx S = (r, S') \<and> channel_abs ops binv items c' S'"
  have finish: "returns (case r of
        Inr val \<Rightarrow> Inr (Ready (Some val), c') | Inl Tr_Closed \<Rightarrow> Inr (Ready None, c')
      | Inl Tr_Empty \<Rightarrow> ?enqueue c') ?post"
    if S': "cp_try_receive ?S = (r, S')" "channel_abs ops binv items c' S'" for c' S' r
  proof -
    have "returns (?enqueue c') (\<lambda>(r, c'). r = Pending \<and> channel_abs ops binv items c'
        (S'\<lparr>cp_recv := a # cp_recv S,
           cp_rd := (cp_rd S)(a \<mapsto> e\<lparr>rw_task := Some cx, rw_state := Rp_Registered\<rparr>)\<rparr>))"
      using S'(2) same [OF S'(1)] e q by (auto simp: channel_abs_def intro!: lq.enter_wp)
    then show ?thesis
      using S' False e same [OF S'(1)]
      by (auto simp: cp_poll_recv_def Let_def simp del: returns_and_then
          split: sum.splits try_receive_error.splits elim: returns_mono)
  qed
  have "returns (update_data a (rw_state_update (\<lambda>_. Rp_Unregistered)) (ch_recv_nodes c))
      (\<lambda>h. channel_abs ops binv items (c\<lparr>ch_recv_nodes := h\<rparr>) ?S)"
    using abs e by (auto simp: channel_abs_def intro!: update_data_wp)
  then have "returns (update_data a (rw_state_update (\<lambda>_. Rp_Unregistered)) (ch_recv_nodes c))
      (\<lambda>h. returns (channel_state_try_receive ops (c\<lparr>ch_recv_nodes := h\<rparr>))
         (\<lambda>(r, c'). \<exists>S'. cp_try_receive ?S = (r, S') \<and> channel_abs ops binv items c' S'))"
    by (elim returns_mono) (rule channel_try_receive_refines [OF _ ok'])
  with False e channel_abs_recv [OF abs e] show ?thesis
    by (simp add: channel_state_receive_or_register_def split_def)
      (elim returns_mono, auto dest: finish simp: split_def)
qed

end

end
