(* ===== verification/Mpmc_Invariant.thy ===== *)
theory Mpmc_Invariant
  imports Mpmc
begin

text \<open>
  The specification of the channel in \<open>Mpmc\<close> keeps its invariant, and what each operation does to
  the contents of the channel: a send appends, a receive takes the first value, a cancellation
  takes one value out, closing leaves the buffered ones.
\<close>

section \<open>The specification keeps its invariant\<close>

lemma cp_senders_ok_update [simp]:
  "cp_senders_ok (S\<lparr>cp_recv := q\<rparr>) = cp_senders_ok S"
  "cp_senders_ok (S\<lparr>cp_rd := rd\<rparr>) = cp_senders_ok S"
  "cp_senders_ok (S\<lparr>cp_closed := b\<rparr>) = cp_senders_ok S"
  by (simp_all add: cp_senders_ok_def)

lemma cp_receivers_ok_update [simp]:
  "cp_receivers_ok (S\<lparr>cp_send := q\<rparr>) = cp_receivers_ok S"
  "cp_receivers_ok (S\<lparr>cp_sd := sd\<rparr>) = cp_receivers_ok S"
  "cp_receivers_ok (S\<lparr>cp_closed := b\<rparr>) = cp_receivers_ok S"
  "cp_receivers_ok (S\<lparr>cp_buf := xs\<rparr>) = cp_receivers_ok S"
  by (simp_all add: cp_receivers_ok_def)

lemma cp_contents_update [simp]:
  "cp_contents (S\<lparr>cp_recv := q\<rparr>) = cp_contents S"
  "cp_contents (S\<lparr>cp_rd := rd\<rparr>) = cp_contents S"
  "cp_contents (S\<lparr>cp_closed := b\<rparr>) = cp_contents S"
  by (simp_all add: cp_contents_def)

lemma cp_notified_upd:
  "cp_notified (rd(a \<mapsto> e)) = (if rw_state e = Rp_Notified then insert a (cp_notified rd) else cp_notified rd - {a})"
  by (auto simp: cp_notified_def)

lemma cp_notified_finite: "cp_receivers_ok S \<Longrightarrow> finite (cp_notified (cp_rd S))"
  by (rule finite_subset [of _ "dom (cp_rd S)"]) (auto simp: cp_notified_def cp_receivers_ok_def)

lemma cp_waiting_not_notified: "cp_receivers_ok S \<Longrightarrow> a \<in> set (cp_recv S) \<Longrightarrow> a \<notin> cp_notified (cp_rd S)"
  by (auto simp: cp_notified_def cp_receivers_ok_def)

text \<open>Notifying concerns the receivers only.\<close>

lemma cp_notify_simps [simp]:
  "cp_closed (snd (cp_notify S)) = cp_closed S" "cp_cap (snd (cp_notify S)) = cp_cap S"
  "cp_buf (snd (cp_notify S)) = cp_buf S" "cp_send (snd (cp_notify S)) = cp_send S"
  "cp_sd (snd (cp_notify S)) = cp_sd S" "cp_contents (snd (cp_notify S)) = cp_contents S"
  "cp_senders_ok (snd (cp_notify S)) = cp_senders_ok S"
  by (simp_all add: cp_notify_def Let_def)

lemma cp_notify_eqD:
  assumes "cp_notify S = (w, S')"
  shows "cp_closed S' = cp_closed S \<and> cp_cap S' = cp_cap S \<and> cp_buf S' = cp_buf S \<and>
    cp_send S' = cp_send S \<and> cp_sd S' = cp_sd S"
  using cp_notify_simps [of S] by (simp_all add: assms)

lemma cp_notify_dom: "cp_receivers_ok S \<Longrightarrow> dom (cp_rd (snd (cp_notify S))) = dom (cp_rd S)"
  by (cases "cp_recv S" rule: rev_cases) (auto simp: cp_notify_def Let_def cp_receivers_ok_def)

lemma cp_notify_receivers_ok:
  assumes "cp_receivers_ok S"
  shows "cp_receivers_ok (snd (cp_notify S))"
  using assms
  by (cases "cp_recv S" rule: rev_cases) (auto simp: cp_notify_def Let_def cp_receivers_ok_def)

lemma cp_notify_card:
  assumes ok: "cp_receivers_ok S" and q: "cp_recv S \<noteq> []"
  shows "card (cp_notified (cp_rd (snd (cp_notify S)))) = Suc (card (cp_notified (cp_rd S)))"
  using cp_waiting_not_notified [OF ok, of "last (cp_recv S)"] cp_notified_finite [OF ok] q
  by (simp add: cp_notify_def Let_def cp_notified_upd)

lemma cp_notify_inv:
  assumes ok: "cp_senders_ok S" "cp_receivers_ok S"
    and wake: "cp_recv S \<noteq> [] \<Longrightarrow> length (cp_buf S) + length (cp_send S) \<le> Suc (card (cp_notified (cp_rd S)))"
    and closed: "cp_closed S \<Longrightarrow> cp_recv S = [] \<and> cp_send S = []"
  shows "cp_inv (snd (cp_notify S))"
proof -
  have "cp_recv (snd (cp_notify S)) = butlast (cp_recv S)" by (simp add: cp_notify_def Let_def)
  moreover have "butlast (cp_recv S) \<noteq> [] \<Longrightarrow> cp_recv S \<noteq> []" by auto
  ultimately show ?thesis
    using ok cp_notify_receivers_ok [OF ok(2)] cp_notify_card [OF ok(2)] wake closed
    by (auto simp: cp_inv_def cp_wakeups_ok_def)
qed

text \<open>Sending.\<close>

lemma cp_room_no_senders: "cp_senders_ok S \<Longrightarrow> length (cp_buf S) < cp_cap S \<Longrightarrow> cp_send S = []"
  by (auto simp: cp_senders_ok_def)

lemma cp_push_ok:
  "cp_senders_ok S \<Longrightarrow> length (cp_buf S) < cp_cap S \<Longrightarrow> cp_senders_ok (S\<lparr>cp_buf := cp_buf S @ [v]\<rparr>)"
  by (auto simp: cp_senders_ok_def)

lemma cp_take_ok:
  "cp_senders_ok S \<Longrightarrow> cp_sd S a = Some e \<Longrightarrow> snd_state e \<noteq> Sp_Registered \<Longrightarrow>
   cp_senders_ok (S\<lparr>cp_sd := (cp_sd S)(a \<mapsto> e\<lparr>snd_value := None\<rparr>)\<rparr>)"
  by (auto simp: cp_senders_ok_def)

lemma sd_value_other: "a \<notin> set xs \<Longrightarrow> map (sd_value (sd(a := x))) xs = map (sd_value sd) xs"
  by auto

lemma cp_invD:
  "cp_inv S \<Longrightarrow> cp_senders_ok S" "cp_inv S \<Longrightarrow> cp_receivers_ok S"
  "cp_inv S \<Longrightarrow> cp_recv S \<noteq> [] \<Longrightarrow> length (cp_buf S) + length (cp_send S) \<le> card (cp_notified (cp_rd S))"
  "cp_inv S \<Longrightarrow> cp_closed S \<Longrightarrow> cp_recv S = [] \<and> cp_send S = []"
  by (simp_all add: cp_inv_def cp_wakeups_ok_def)

lemma cp_try_send_inv:
  assumes inv: "cp_inv S"
  shows "cp_inv (snd (cp_try_send v S))"
  using inv cp_push_ok [of S v] cp_room_no_senders [of S] cp_invD [OF inv]
  by (auto simp: cp_try_send_def split_def intro!: cp_notify_inv)

lemma cp_try_send_contents:
  assumes inv: "cp_inv S" and send: "cp_try_send v S = (r, S')"
  shows "cp_contents S' = cp_contents S @ (case r of Inl _ \<Rightarrow> [] | Inr _ \<Rightarrow> [v])"
  using send cp_room_no_senders [of S] inv
  by (auto simp: cp_try_send_def split_def cp_contents_def cp_inv_def split: if_splits)

lemma cp_poll_send_inv:
  assumes inv: "cp_inv S" and e: "cp_sd S a = Some e"
    and has: "snd_state e = Sp_Unregistered \<Longrightarrow> snd_value e \<noteq> None"
  shows "cp_inv (snd (snd (snd (cp_poll_send a cx S))))"
proof (cases "snd_state e")
  case Sp_Unregistered
  then have q: "a \<notin> set (cp_send S)" and taken: "cp_senders_ok (S\<lparr>cp_sd := (cp_sd S)(a \<mapsto> e\<lparr>snd_value := None\<rparr>)\<rparr>)"
    using inv e by (auto simp: cp_inv_def cp_senders_ok_def intro: cp_take_ok)
  consider "cp_closed S" | "\<not> cp_closed S" "length (cp_buf S) < cp_cap S"
    | "\<not> cp_closed S" "\<not> length (cp_buf S) < cp_cap S" by blast
  then show ?thesis
  proof cases
    case 1
    with Sp_Unregistered e taken inv show ?thesis
      by (simp add: cp_poll_send_def Let_def cp_inv_def cp_wakeups_ok_def)
  next
    case 2
    with inv have "cp_send S = []" by (simp add: cp_inv_def cp_room_no_senders)
    with 2 Sp_Unregistered e inv cp_push_ok [OF taken] cp_invD [OF inv] show ?thesis
      by (auto simp: cp_poll_send_def Let_def split_def intro!: cp_notify_inv)
  next
    case 3
    have "cp_senders_ok (S\<lparr>cp_send := a # cp_send S,
        cp_sd := (cp_sd S)(a \<mapsto> e\<lparr>snd_task := Some cx, snd_state := Sp_Registered\<rparr>)\<rparr>)"
      using inv e q 3 has Sp_Unregistered by (auto simp: cp_inv_def cp_senders_ok_def)
    with 3 Sp_Unregistered e inv cp_invD [OF inv] show ?thesis
      by (auto simp: cp_poll_send_def Let_def split_def intro!: cp_notify_inv)
  qed
qed (use inv e in \<open>auto simp: cp_poll_send_def Let_def cp_inv_def cp_senders_ok_def cp_wakeups_ok_def\<close>)

lemma cp_poll_send_contents:
  assumes inv: "cp_inv S" and e: "cp_sd S a = Some e" and poll: "cp_poll_send a cx S = (r, v, w, S')"
  shows "cp_contents S' = cp_contents S @
    (if snd_state e = Sp_Unregistered \<and> \<not> cp_closed S then [the (snd_value e)] else [])"
proof -
  from inv have room: "length (cp_buf S) < cp_cap S \<Longrightarrow> cp_send S = []"
    by (simp add: cp_inv_def cp_room_no_senders)
  from inv e have q: "a \<in> set (cp_send S) \<longleftrightarrow> snd_state e = Sp_Registered"
    by (simp add: cp_inv_def cp_senders_ok_def)
  show ?thesis
  proof (cases "snd_state e")
    case Sp_Registered
    have "map (sd_value ((cp_sd S)(a \<mapsto> e\<lparr>snd_task := Some cx\<rparr>))) xs = map (sd_value (cp_sd S)) xs" for xs
      using e by auto
    with Sp_Registered poll e show ?thesis
      by (auto simp: cp_poll_send_def Let_def cp_contents_def simp del: map_eq_conv fun_upd_apply)
  qed (use poll e q room in \<open>auto simp: cp_poll_send_def Let_def split_def cp_contents_def sd_value_other
      dest!: cp_notify_eqD split: if_splits\<close>)
qed

text \<open>Receiving.\<close>

lemma cp_complete_sender_ok:
  assumes ok: "cp_senders_ok S" and q: "cp_send S \<noteq> []"
    and full: "length xs = length (cp_buf S)"
  shows "cp_senders_ok (cp_complete_sender (S\<lparr>cp_buf := xs\<rparr>))"
  using assms
  by (cases "cp_send S" rule: rev_cases) (auto simp: cp_complete_sender_def Let_def cp_senders_ok_def)

lemma cp_complete_sender_simps [simp]:
  "cp_closed (cp_complete_sender S) = cp_closed S" "cp_buf (cp_complete_sender S) = cp_buf S"
  "cp_recv (cp_complete_sender S) = cp_recv S" "cp_rd (cp_complete_sender S) = cp_rd S"
  "cp_send (cp_complete_sender S) = butlast (cp_send S)" "cp_cap (cp_complete_sender S) = cp_cap S"
  "cp_receivers_ok (cp_complete_sender S) = cp_receivers_ok S"
  "cp_sd (cp_complete_sender (S\<lparr>cp_buf := xs\<rparr>)) = cp_sd (cp_complete_sender S)"
  by (simp_all add: cp_complete_sender_def Let_def)

lemma cp_complete_sender_values:
  assumes "distinct (cp_send S)" "cp_send S \<noteq> []"
  shows "sd_value (cp_sd S) (last (cp_send S)) #
      map (sd_value (cp_sd (cp_complete_sender S))) (rev (cp_send (cp_complete_sender S))) =
    map (sd_value (cp_sd S)) (rev (cp_send S))"
  using assms
  by (cases "cp_send S" rule: rev_cases) (auto simp: cp_complete_sender_def Let_def)

lemma cp_buf_same: "cp_buf S = xs \<Longrightarrow> S\<lparr>cp_buf := xs\<rparr> = S"
  by (cases S) simp

lemma cp_try_receive_senders_ok:
  assumes "cp_senders_ok S"
  shows "cp_senders_ok (snd (cp_try_receive S))"
proof (cases "cp_buf S")
  case Nil
  with assms cp_complete_sender_ok [OF assms, of "[]"] show ?thesis
    by (auto simp: cp_try_receive_def Let_def cp_buf_same)
next
  case (Cons x xs)
  with assms cp_complete_sender_ok [OF assms, of "xs @ [sd_value (cp_sd S) (last (cp_send S))]"] show ?thesis
    by (auto simp: cp_try_receive_def Let_def cp_senders_ok_def [of S] cp_senders_ok_def [of "S\<lparr>cp_buf := xs\<rparr>"])
qed

lemma cp_try_receive_simps [simp]:
  "cp_closed (snd (cp_try_receive S)) = cp_closed S" "cp_recv (snd (cp_try_receive S)) = cp_recv S"
  "cp_rd (snd (cp_try_receive S)) = cp_rd S" "cp_cap (snd (cp_try_receive S)) = cp_cap S"
  "cp_receivers_ok (snd (cp_try_receive S)) = cp_receivers_ok S"
  by (auto simp: cp_try_receive_def Let_def split: list.splits)

lemma cp_try_receive_length:
  "length (cp_buf (snd (cp_try_receive S))) + length (cp_send (snd (cp_try_receive S))) =
   length (cp_buf S) + length (cp_send S) - 1"
  by (cases "cp_send S = []") (auto simp: cp_try_receive_def Let_def split: list.splits)

text \<open>One wakeup may be missing before a value is received, none is after it.\<close>

lemma cp_try_receive_inv:
  assumes "cp_senders_ok S" "cp_receivers_ok S" "cp_closed S \<Longrightarrow> cp_recv S = [] \<and> cp_send S = []"
    and "cp_recv S \<noteq> [] \<Longrightarrow> length (cp_buf S) + length (cp_send S) \<le> Suc (card (cp_notified (cp_rd S)))"
  shows "cp_inv (snd (cp_try_receive S))"
proof -
  have "cp_closed S \<Longrightarrow> cp_send (snd (cp_try_receive S)) = []"
    using assms(3) by (auto simp: cp_try_receive_def Let_def split: list.splits)
  with assms cp_try_receive_senders_ok [OF assms(1)] cp_try_receive_length [of S] show ?thesis
    by (auto simp: cp_inv_def cp_wakeups_ok_def)
qed

lemma cp_try_receive_contents:
  assumes ok: "cp_senders_ok S" and receive: "cp_try_receive S = (r, S')"
  shows "case r of Inl _ \<Rightarrow> cp_contents S = [] \<and> S' = S | Inr (v, w) \<Rightarrow> cp_contents S = v # cp_contents S'"
proof -
  from ok have "distinct (cp_send S)" by (simp add: cp_senders_ok_def)
  then have sent: "cp_send S \<noteq> [] \<Longrightarrow> map (sd_value (cp_sd S)) (rev (cp_send S)) =
      sd_value (cp_sd S) (last (cp_send S)) #
      map (sd_value (cp_sd (cp_complete_sender S))) (rev (butlast (cp_send S)))"
    using cp_complete_sender_values [of S] by simp
  show ?thesis
    using receive
    by (auto simp: cp_try_receive_def Let_def cp_contents_def sent simp del: map_eq_conv
        split: list.splits if_splits)
qed

lemma cp_poll_recv_inv:
  assumes inv: "cp_inv S" and e: "cp_rd S a = Some e"
  shows "cp_inv (snd (cp_poll_recv a cx S))"
proof (cases "rw_state e = Rp_Registered")
  case True
  then have "a \<notin> cp_notified (cp_rd S)" using e by (simp add: cp_notified_def)
  with True inv e show ?thesis
    by (auto simp: cp_poll_recv_def Let_def cp_inv_def cp_receivers_ok_def cp_wakeups_ok_def cp_notified_upd)
next
  case False
  let ?S = "S\<lparr>cp_rd := (cp_rd S)(a \<mapsto> e\<lparr>rw_state := Rp_Unregistered\<rparr>)\<rparr>"
  note inv' = cp_invD [OF inv]
  from False inv'(2) e have q: "a \<notin> set (cp_recv S)" by (simp add: cp_receivers_ok_def)
  have ok: "cp_receivers_ok ?S" using inv'(2) e False by (auto simp: cp_receivers_ok_def)
  have "card (cp_notified (cp_rd S)) \<le> Suc (card (cp_notified (cp_rd S) - {a}))"
    using card_Suc_Diff1 [OF cp_notified_finite [OF inv'(2)], of a] by (cases "a \<in> cp_notified (cp_rd S)") simp_all
  then have "cp_recv ?S \<noteq> [] \<Longrightarrow> length (cp_buf ?S) + length (cp_send ?S) \<le> Suc (card (cp_notified (cp_rd ?S)))"
    using inv'(3) by (simp add: cp_notified_upd)
  then have rec: "cp_inv (snd (cp_try_receive ?S))"
    using inv' ok by (intro cp_try_receive_inv) auto
  have "cp_inv (snd (cp_try_receive ?S)\<lparr>cp_recv := a # cp_recv S,
      cp_rd := (cp_rd S)(a \<mapsto> e\<lparr>rw_task := Some cx, rw_state := Rp_Registered\<rparr>)\<rparr>)"
    if "fst (cp_try_receive ?S) = Inl Tr_Empty"
  proof -
    from that have "snd (cp_try_receive ?S) = ?S \<and> cp_buf S = [] \<and> cp_send S = [] \<and> \<not> cp_closed S"
      by (auto simp: cp_try_receive_def Let_def split: list.splits if_splits)
    with inv' ok q e show ?thesis
      by (auto simp: cp_inv_def cp_wakeups_ok_def cp_receivers_ok_def)
  qed
  with rec False e show ?thesis
    by (auto simp: cp_poll_recv_def Let_def split_def split: sum.splits try_receive_error.splits
        simp del: fun_upd_apply)
qed

lemma cp_poll_recv_contents:
  assumes inv: "cp_inv S" and poll: "cp_poll_recv a cx S = (r, S')"
  shows "cp_contents S = (case r of Ready (Some (v, w)) \<Rightarrow> [v] | _ \<Rightarrow> []) @ cp_contents S'"
proof -
  let ?S = "S\<lparr>cp_rd := (cp_rd S)(a \<mapsto> (the (cp_rd S a))\<lparr>rw_state := Rp_Unregistered\<rparr>)\<rparr>"
  obtain r' S1 where rec: "cp_try_receive ?S = (r', S1)" by force
  have "case r' of Inl _ \<Rightarrow> cp_contents ?S = [] \<and> S1 = ?S | Inr (v, w) \<Rightarrow> cp_contents ?S = v # cp_contents S1"
    by (rule cp_try_receive_contents [OF _ rec]) (simp add: cp_invD [OF inv])
  with poll rec show ?thesis
    by (auto simp: cp_poll_recv_def Let_def split: if_splits sum.splits try_receive_error.splits)
qed

text \<open>Leaving and closing.\<close>

lemma cp_remove_send_inv:
  assumes inv: "cp_inv S" and e: "cp_sd S a = Some e"
  shows "cp_inv (cp_remove_send a S)"
proof -
  have "cp_send S = [] \<or> length (remove1 a (cp_send S)) \<le> length (cp_send S)"
    by (simp add: length_remove1)
  with assms show ?thesis
    by (auto simp: cp_remove_send_def Let_def cp_inv_def cp_senders_ok_def cp_wakeups_ok_def
        dest: notin_set_remove1)
qed

lemma cp_remove_send_contents:
  assumes inv: "cp_inv S" and e: "cp_sd S a = Some e"
  shows "if snd_state e = Sp_Registered
    then \<exists>xs ys. cp_contents S = xs @ the (snd_value e) # ys \<and> cp_contents (cp_remove_send a S) = xs @ ys
    else cp_remove_send a S = S"
proof (cases "snd_state e = Sp_Registered")
  case True
  with inv e have "a \<in> set (cp_send S)" "distinct (cp_send S)" by (auto simp: cp_inv_def cp_senders_ok_def)
  then obtain p q where "cp_send S = p @ a # q" "a \<notin> set p \<union> set q"
    using split_list [of a "cp_send S"] by auto
  with True e show ?thesis
    by (intro iffD2 [OF if_P, OF True] exI [of _ "cp_buf S @ map (sd_value (cp_sd S)) (rev q)"]
        exI [of _ "map (sd_value (cp_sd S)) (rev p)"])
      (simp add: cp_remove_send_def Let_def cp_contents_def remove1_append sd_value_other del: map_eq_conv fun_upd_apply)
qed (simp add: cp_remove_send_def e Let_def)

lemma cp_remove_recv_inv:
  assumes inv: "cp_inv S" and e: "cp_rd S a = Some e"
  shows "cp_inv (snd (cp_remove_recv a S))"
proof -
  note inv' = cp_invD [OF inv]
  let ?S = "S\<lparr>cp_rd := (cp_rd S)(a \<mapsto> e\<lparr>rw_state := Rp_Unregistered\<rparr>)\<rparr>"
  show ?thesis
  proof (cases "rw_state e")
    case Rp_Registered
    then have "a \<notin> cp_notified (cp_rd S)" using e by (simp add: cp_notified_def)
    with Rp_Registered inv e show ?thesis
      by (auto simp: cp_remove_recv_def Let_def cp_inv_def cp_receivers_ok_def cp_wakeups_ok_def
          cp_notified_upd dest: notin_set_remove1)
  next
    case Rp_Notified
    have ok: "cp_receivers_ok ?S" using inv'(2) e Rp_Notified by (auto simp: cp_receivers_ok_def)
    have "card (cp_notified (cp_rd S)) \<le> Suc (card (cp_notified (cp_rd S) - {a}))"
      using card_Suc_Diff1 [OF cp_notified_finite [OF inv'(2)], of a] by (cases "a \<in> cp_notified (cp_rd S)") simp_all
    then have "cp_inv (snd (cp_notify ?S))"
      using inv' ok by (intro cp_notify_inv) (auto simp: cp_notified_upd)
    with Rp_Notified e show ?thesis by (simp add: cp_remove_recv_def)
  qed (use inv e in \<open>simp add: cp_remove_recv_def\<close>)
qed

lemma cp_remove_recv_contents [simp]:
  "cp_contents (snd (cp_remove_recv a S)) = cp_contents S"
  by (auto simp: cp_remove_recv_def Let_def split: recv_poll_state.splits)

lemma cp_close_inv:
  assumes "cp_inv S"
  shows "cp_inv (snd (snd (cp_close S)))"
proof -
  have "finite {a. (if P a then map_option f (rd a) else rd a) \<noteq> None}"
    if "finite (dom rd)" for P and f :: "recv_waiter \<Rightarrow> recv_waiter" and rd
    by (rule finite_subset [OF _ that]) (auto split: if_splits)
  with assms show ?thesis
    by (auto simp: cp_close_def cp_inv_def cp_senders_ok_def cp_receivers_ok_def cp_wakeups_ok_def dom_def
        split: if_splits)
qed

lemma cp_close_contents:
  assumes "cp_inv S"
  shows "cp_contents (snd (snd (cp_close S))) = cp_buf S"
  using assms by (auto simp: cp_close_def cp_contents_def cp_inv_def)

end
