(* ===== verification/Mpmc_System.thy ===== *)
theory Mpmc_System
  imports Mpmc_Invariant
begin

text \<open>
  What the channel of \<^verbatim>\<open>src/channel/mpmc.rs\<close> promises: with any number of sends and receives in
  flight and any order of calls it delivers the values in the order in which they were accepted,
  loses no wakeup, and never panics.
\<close>

section \<open>The system\<close>

text \<open>
  A channel with its futures, by the address of their wait node, the wakers woken, the values the
  channel accepted (a waiting sender's value is accepted when it is enqueued) and the values
  received, and whether no accepted value has been withdrawn: by the cancellation or the drop of
  a waiting send, or by closing the channel while senders wait.
\<close>

record ('b, 'v) channel_sys =
  cy_chan :: "('b, 'v) channel"
  cy_sends :: "addr \<rightharpoonup> send_future"
  cy_recvs :: "addr \<rightharpoonup> receive_future"
  cy_woken :: "waker list"
  cy_accepted :: "'v list"
  cy_received :: "'v list"
  cy_intact :: bool

datatype 'v channel_action =
    Ch_Send addr 'v
  | Ch_Poll_Send addr waker
  | Ch_Cancel_Send addr
  | Ch_Drop_Send addr
  | Ch_Receive addr
  | Ch_Poll_Receive addr waker
  | Ch_Drop_Receive addr
  | Ch_Try_Send 'v
  | Ch_Try_Receive
  | Ch_Close

definition channel_sys_new :: "('b, 'v) channel \<Rightarrow> ('b, 'v) channel_sys" where
  "channel_sys_new c =
     \<lparr>cy_chan = c, cy_sends = Map.empty, cy_recvs = Map.empty, cy_woken = [], cy_accepted = [],
      cy_received = [], cy_intact = True\<rparr>"

definition channel_started :: "('b, 'v) ring_buf_ops \<Rightarrow> ('b, 'v) channel_sys \<Rightarrow> bool" where
  "channel_started ops s \<longleftrightarrow>
     s = channel_sys_new (channel_new ops) \<or> (\<exists>c. s = channel_sys_new (channel_with_capacity ops c))"

text \<open>The value that a first poll of a send offers to an open channel.\<close>

definition channel_offer :: "addr \<Rightarrow> ('b, 'v) channel \<Rightarrow> 'v list" where
  "channel_offer a c =
     (case data_of (ch_send_nodes c) a of
        Some e \<Rightarrow> if snd_state e = Sp_Unregistered \<and> \<not> ch_is_closed c then [the (snd_value e)] else []
      | None \<Rightarrow> [])"

definition channel_sender_waits :: "addr \<Rightarrow> ('b, 'v) channel \<Rightarrow> bool" where
  "channel_sender_waits a c =
     (case data_of (ch_send_nodes c) a of Some e \<Rightarrow> snd_state e = Sp_Registered | None \<Rightarrow> False)"

text \<open>
  The contract of the API, which the borrow checker enforces: the wait node of a new future is
  fresh, a future is polled until it is terminated, cancelled or dropped, and dropped once. One
  rule is left to the client: no \<open>try_send\<close> on a channel without a buffer.
\<close>

fun channel_enabled :: "('b, 'v) ring_buf_ops \<Rightarrow> 'v channel_action \<Rightarrow> ('b, 'v) channel_sys \<Rightarrow> bool" where
  "channel_enabled ops (Ch_Send a v) s = (ch_send_nodes (cy_chan s) a = None)"
| "channel_enabled ops (Ch_Poll_Send a cx) s =
     (case cy_sends s a of None \<Rightarrow> False | Some f \<Rightarrow> \<not> send_future_is_terminated f)"
| "channel_enabled ops (Ch_Cancel_Send a) s = (cy_sends s a \<noteq> None)"
| "channel_enabled ops (Ch_Drop_Send a) s = (cy_sends s a \<noteq> None)"
| "channel_enabled ops (Ch_Receive a) s = (ch_recv_nodes (cy_chan s) a = None)"
| "channel_enabled ops (Ch_Poll_Receive a cx) s =
     (case cy_recvs s a of None \<Rightarrow> False | Some f \<Rightarrow> \<not> receive_future_is_terminated f)"
| "channel_enabled ops (Ch_Drop_Receive a) s = (cy_recvs s a \<noteq> None)"
| "channel_enabled ops (Ch_Try_Send v) s = (0 < rb_capacity ops (ch_buffer (cy_chan s)))"
| "channel_enabled ops Ch_Try_Receive s = True"
| "channel_enabled ops Ch_Close s = True"

fun channel_exec ::
  "('b, 'v) ring_buf_ops \<Rightarrow> 'v channel_action \<Rightarrow> ('b, 'v) channel_sys \<Rightarrow> ('b, 'v) channel_sys res" where
  "channel_exec ops (Ch_Send a v) s =
     (case channel_send a v of (f, node) \<Rightarrow>
        Inr (s\<lparr>cy_chan := cy_chan s\<lparr>ch_send_nodes := (ch_send_nodes (cy_chan s))(a \<mapsto> node)\<rparr>,
               cy_sends := (cy_sends s)(a \<mapsto> f)\<rparr>))"
| "channel_exec ops (Ch_Poll_Send a cx) s =
     and_then (deref (cy_sends s) a) (\<lambda>f.
     and_then (send_future_poll (channel_send_access ops) f cx (cy_chan s)) (\<lambda>(r, w, f, c).
     Inr (s\<lparr>cy_chan := c, cy_sends := (cy_sends s)(a \<mapsto> f), cy_woken := cy_woken s @ w,
            cy_accepted := cy_accepted s @ channel_offer a (cy_chan s)\<rparr>)))"
| "channel_exec ops (Ch_Cancel_Send a) s =
     and_then (deref (cy_sends s) a) (\<lambda>f.
     and_then (send_future_cancel (channel_send_access ops) f (cy_chan s)) (\<lambda>(v, f, c).
     Inr (s\<lparr>cy_chan := c, cy_sends := (cy_sends s)(a \<mapsto> f),
            cy_intact := (cy_intact s \<and> \<not> channel_sender_waits a (cy_chan s))\<rparr>)))"
| "channel_exec ops (Ch_Drop_Send a) s =
     and_then (deref (cy_sends s) a) (\<lambda>f.
     and_then (send_future_drop (channel_send_access ops) f (cy_chan s)) (\<lambda>c.
     Inr (s\<lparr>cy_chan := c\<lparr>ch_send_nodes := (ch_send_nodes c)(a := None)\<rparr>, cy_sends := (cy_sends s)(a := None),
            cy_intact := (cy_intact s \<and> \<not> channel_sender_waits a (cy_chan s))\<rparr>)))"
| "channel_exec ops (Ch_Receive a) s =
     (case channel_receive a of (f, node) \<Rightarrow>
        Inr (s\<lparr>cy_chan := cy_chan s\<lparr>ch_recv_nodes := (ch_recv_nodes (cy_chan s))(a \<mapsto> node)\<rparr>,
               cy_recvs := (cy_recvs s)(a \<mapsto> f)\<rparr>))"
| "channel_exec ops (Ch_Poll_Receive a cx) s =
     and_then (deref (cy_recvs s) a) (\<lambda>f.
     and_then (receive_future_poll (channel_receive_access ops) f cx (cy_chan s)) (\<lambda>(r, w, f, c).
     Inr (s\<lparr>cy_chan := c, cy_recvs := (cy_recvs s)(a \<mapsto> f), cy_woken := cy_woken s @ w,
            cy_received := cy_received s @ (case r of Ready (Some v) \<Rightarrow> [v] | _ \<Rightarrow> [])\<rparr>)))"
| "channel_exec ops (Ch_Drop_Receive a) s =
     and_then (deref (cy_recvs s) a) (\<lambda>f.
     and_then (receive_future_drop (channel_receive_access ops) f (cy_chan s)) (\<lambda>(w, c).
     Inr (s\<lparr>cy_chan := c\<lparr>ch_recv_nodes := (ch_recv_nodes c)(a := None)\<rparr>, cy_recvs := (cy_recvs s)(a := None),
            cy_woken := cy_woken s @ w\<rparr>)))"
| "channel_exec ops (Ch_Try_Send v) s =
     and_then (channel_try_send ops v (cy_chan s)) (\<lambda>(r, w, c).
     Inr (s\<lparr>cy_chan := c, cy_woken := cy_woken s @ w,
            cy_accepted := cy_accepted s @ (case r of Inl _ \<Rightarrow> [] | Inr _ \<Rightarrow> [v])\<rparr>))"
| "channel_exec ops Ch_Try_Receive s =
     and_then (channel_try_receive ops (cy_chan s)) (\<lambda>(r, w, c).
     Inr (s\<lparr>cy_chan := c, cy_woken := cy_woken s @ w,
            cy_received := cy_received s @ (case r of Inl _ \<Rightarrow> [] | Inr v \<Rightarrow> [v])\<rparr>))"
| "channel_exec ops Ch_Close s =
     and_then (channel_close (cy_chan s)) (\<lambda>(r, w, c).
     and_then (ll_is_empty (ch_send_waiters (cy_chan s))) (\<lambda>nobody.
     Inr (s\<lparr>cy_chan := c, cy_woken := cy_woken s @ w, cy_intact := (cy_intact s \<and> nobody)\<rparr>)))"

abbreviation channel_reachable :: "('b, 'v) ring_buf_ops \<Rightarrow> ('b, 'v) channel_sys \<Rightarrow> bool" where
  "channel_reachable ops \<equiv> reach (channel_started ops) (channel_enabled ops) (channel_exec ops)"

text \<open>
  A terminated future waits for nothing, a send that is not terminated has its value until the
  channel accepts it.
\<close>

definition sends_ok :: "(addr \<rightharpoonup> 'v send_waiter) \<Rightarrow> (addr \<rightharpoonup> send_future) \<Rightarrow> bool" where
  "sends_ok sd fs \<longleftrightarrow> dom fs = dom sd \<and>
     (\<forall>a f e. fs a = Some f \<longrightarrow> sd a = Some e \<longrightarrow> sdf_wait_node f = a \<and>
        (if sdf_channel f then snd_state e = Sp_Unregistered \<longrightarrow> snd_value e \<noteq> None
         else snd_state e \<noteq> Sp_Registered))"

text \<open>The values received and those in the channel are the values accepted, in the same order.\<close>

definition channel_sys_rep ::
  "('b, 'v) ring_buf_ops \<Rightarrow> ('b \<Rightarrow> bool) \<Rightarrow> ('b \<Rightarrow> 'v list) \<Rightarrow> ('b, 'v) channel_sys \<Rightarrow> 'v channel_spec \<Rightarrow> bool" where
  "channel_sys_rep ops binv items s S \<longleftrightarrow>
     channel_abs ops binv items (cy_chan s) S \<and> cp_inv S \<and>
     sends_ok (cp_sd S) (cy_sends s) \<and> recvs_ok (cp_rd S) (cy_recvs s) \<and>
     subseq (cy_received s @ cp_contents S) (cy_accepted s) \<and>
     (cy_intact s \<longrightarrow> cy_received s @ cp_contents S = cy_accepted s)"

definition channel_sys_inv ::
  "('b, 'v) ring_buf_ops \<Rightarrow> ('b \<Rightarrow> bool) \<Rightarrow> ('b \<Rightarrow> 'v list) \<Rightarrow> ('b, 'v) channel_sys \<Rightarrow> bool" where
  "channel_sys_inv ops binv items s \<longleftrightarrow> (\<exists>S. channel_sys_rep ops binv items s S)"

section \<open>What an operation does to the other futures\<close>

definition send_frame :: "(addr \<rightharpoonup> 'v send_waiter) \<Rightarrow> (addr \<rightharpoonup> 'v send_waiter) \<Rightarrow> bool" where
  "send_frame sd sd' \<longleftrightarrow> dom sd' = dom sd \<and>
     (\<forall>b e e'. sd b = Some e \<longrightarrow> sd' b = Some e' \<longrightarrow>
        (if snd_state e = Sp_Registered
         then snd_state e' = Sp_Unregistered \<longrightarrow> snd_value e' \<noteq> None else e' = e))"

lemma send_frame_refl [simp]: "send_frame sd sd"
  by (simp add: send_frame_def)

lemma sends_ok_frame:
  assumes ok: "sends_ok sd F" and frame: "send_frame sd sd'"
  shows "sends_ok sd' F"
proof -
  from assms have d: "dom F = dom sd" "dom sd' = dom sd" by (simp_all add: sends_ok_def send_frame_def)
  have "sdf_wait_node f = a \<and> (if sdf_channel f then snd_state e' = Sp_Unregistered \<longrightarrow> snd_value e' \<noteq> None
      else snd_state e' \<noteq> Sp_Registered)" if f: "F a = Some f" and e': "sd' a = Some e'" for a f e'
  proof -
    from e' d obtain e where e: "sd a = Some e" by blast
    with ok f have "sdf_wait_node f = a \<and> (if sdf_channel f then snd_state e = Sp_Unregistered \<longrightarrow> snd_value e \<noteq> None
      else snd_state e \<noteq> Sp_Registered)" by (simp add: sends_ok_def)
    moreover from frame e e' have "if snd_state e = Sp_Registered
        then snd_state e' = Sp_Unregistered \<longrightarrow> snd_value e' \<noteq> None else e' = e"
      by (simp add: send_frame_def)
    ultimately show ?thesis by (auto split: if_splits)
  qed
  with d show ?thesis by (simp add: sends_ok_def)
qed

lemma sends_ok_upd:
  assumes "sends_ok sd F" "sdf_wait_node f = a"
    and "if sdf_channel f then snd_state e = Sp_Unregistered \<longrightarrow> snd_value e \<noteq> None
         else snd_state e \<noteq> Sp_Registered"
  shows "sends_ok (sd(a \<mapsto> e)) (F(a \<mapsto> f))"
  using assms by (auto simp: sends_ok_def split: if_splits)

lemma sends_ok_del: "sends_ok sd F \<Longrightarrow> sends_ok (sd(a := None)) (F(a := None))"
  by (auto simp: sends_ok_def split: if_splits)

lemma sends_okD:
  "sends_ok sd F \<Longrightarrow> F a = Some f \<Longrightarrow> \<exists>e. sd a = Some e \<and> sdf_wait_node f = a \<and>
     (if sdf_channel f then snd_state e = Sp_Unregistered \<longrightarrow> snd_value e \<noteq> None
      else snd_state e \<noteq> Sp_Registered)"
proof -
  assume ok: "sends_ok sd F" and f: "F a = Some f"
  then obtain e where "sd a = Some e" using dom_eq_entry [of F sd a f] by (auto simp: sends_ok_def)
  with ok f show ?thesis by (intro exI [of _ e]) (auto simp: sends_ok_def)
qed

lemma cp_notify_frame:
  assumes "cp_receivers_ok S"
  shows "recv_frame (cp_rd S) (cp_rd (snd (cp_notify S)))"
proof (cases "cp_recv S = []")
  case False
  define a where "a = last (cp_recv S)"
  from last_in_set [OF False] assms have "\<exists>e. cp_rd S a = Some e \<and> rw_state e = Rp_Registered"
    unfolding a_def cp_receivers_ok_def by blast
  then obtain e where "cp_rd S a = Some e" "rw_state e = Rp_Registered" by blast
  with False show ?thesis by (auto simp: cp_notify_def Let_def recv_frame_def a_def)
qed (simp add: cp_notify_def)

lemma cp_try_send_frame:
  assumes "cp_inv S"
  shows "cp_sd (snd (cp_try_send v S)) = cp_sd S" "recv_frame (cp_rd S) (cp_rd (snd (cp_try_send v S)))"
  using cp_notify_frame [of "S\<lparr>cp_buf := cp_buf S @ [v]\<rparr>"] cp_invD(2) [OF assms]
  by (auto simp: cp_try_send_def split_def)

lemma cp_try_receive_frame:
  assumes ok: "cp_senders_ok S"
  shows "send_frame (cp_sd S) (cp_sd (snd (cp_try_receive S)))"
proof -
  have "send_frame (cp_sd S) (cp_sd (cp_complete_sender S))" if "cp_send S \<noteq> []"
    using that ok
    by (cases "cp_send S" rule: rev_cases)
      (auto simp: cp_complete_sender_def Let_def send_frame_def cp_senders_ok_def)
  then show ?thesis by (auto simp: cp_try_receive_def Let_def split: list.splits)
qed

lemma cp_close_frame:
  assumes inv: "cp_inv S"
  shows "send_frame (cp_sd S) (cp_sd (snd (snd (cp_close S))))"
    "recv_frame (cp_rd S) (cp_rd (snd (snd (cp_close S))))"
  using inv
  by (fastforce simp: cp_close_def send_frame_def recv_frame_def cp_inv_def cp_senders_ok_def cp_receivers_ok_def
      split: if_splits)+

lemma cp_poll_send_frame:
  assumes inv: "cp_inv S" and e: "cp_sd S a = Some e" and poll: "cp_poll_send a cx S = (r, v, w, S')"
  shows "\<exists>e'. cp_sd S' = (cp_sd S)(a \<mapsto> e') \<and> recv_frame (cp_rd S) (cp_rd S') \<and>
    (snd_state e' = Sp_Registered \<longleftrightarrow> r = Pending)"
proof -
  have frame: "cp_sd T = cp_sd X \<and> recv_frame (cp_rd S) (cp_rd T)"
    if "cp_notify X = (w', T)" "cp_rd X = cp_rd S" "cp_recv X = cp_recv S" for X T w'
    using cp_notify_frame [of X] that cp_invD(2) [OF inv] cp_notify_eqD [OF that(1)]
    by (simp add: cp_receivers_ok_def)
  have same: "\<exists>e'. cp_sd S = (cp_sd S)(a \<mapsto> e') \<and> e' = e" using e by auto
  show ?thesis
    using poll e same
    by (cases "snd_state e") (auto simp: cp_poll_send_def Let_def split_def dest!: frame split: if_splits)
qed

lemma cp_poll_recv_frame:
  assumes inv: "cp_inv S" and e: "cp_rd S a = Some e" and poll: "cp_poll_recv a cx S = (r, S')"
  shows "\<exists>e'. cp_rd S' = (cp_rd S)(a \<mapsto> e') \<and> send_frame (cp_sd S) (cp_sd S') \<and>
    (r = Pending \<or> rw_state e' = Rp_Unregistered)"
proof -
  let ?S = "S\<lparr>cp_rd := (cp_rd S)(a \<mapsto> e\<lparr>rw_state := Rp_Unregistered\<rparr>)\<rparr>"
  have "send_frame (cp_sd S) (cp_sd T) \<and> cp_rd T = cp_rd ?S" if "cp_try_receive ?S = (r', T)" for r' T
    using cp_try_receive_frame [of ?S] cp_try_receive_simps(3) [of ?S] cp_invD(1) [OF inv] that by simp
  with poll e show ?thesis
    by (auto simp: cp_poll_recv_def Let_def split: if_splits sum.splits try_receive_error.splits prod.splits)
qed

lemma cp_remove_recv_frame:
  assumes inv: "cp_inv S" and e: "cp_rd S a = Some e"
  shows "\<exists>e'. rw_state e' = Rp_Unregistered \<and> cp_sd (snd (cp_remove_recv a S)) = cp_sd S \<and>
    cp_rd (snd (cp_remove_recv a S)) a = Some e' \<and> a \<notin> set (cp_recv (snd (cp_remove_recv a S))) \<and>
    recv_frame ((cp_rd S)(a \<mapsto> e')) (cp_rd (snd (cp_remove_recv a S)))"
proof -
  note ok = cp_invD(2) [OF inv]
  let ?e = "e\<lparr>rw_state := Rp_Unregistered\<rparr>"
  let ?S = "S\<lparr>cp_rd := (cp_rd S)(a \<mapsto> ?e)\<rparr>"
  have q: "a \<in> set (cp_recv S) \<longleftrightarrow> rw_state e = Rp_Registered" "distinct (cp_recv S)"
    using ok e by (simp_all add: cp_receivers_ok_def)
  show ?thesis
  proof (cases "rw_state e")
    case Rp_Notified
    with ok e have "cp_receivers_ok ?S" by (auto simp: cp_receivers_ok_def)
    then have frame: "recv_frame (cp_rd ?S) (cp_rd (snd (cp_notify ?S)))" by (rule cp_notify_frame)
    then have "cp_rd (snd (cp_notify ?S)) a = Some ?e" by (simp add: recv_frame_def)
    moreover have "a \<notin> set (cp_recv (snd (cp_notify ?S)))"
      using q Rp_Notified by (auto simp: cp_notify_def Let_def dest: in_set_butlastD)
    ultimately show ?thesis
      using Rp_Notified e frame by (auto simp: cp_remove_recv_def)
  next
    case Rp_Unregistered
    have "(cp_rd S)(a \<mapsto> e) = cp_rd S" using e by auto
    with Rp_Unregistered e q show ?thesis by (auto simp: cp_remove_recv_def)
  qed (use e q in \<open>auto simp: cp_remove_recv_def\<close>)
qed

lemma cp_remove_send_frame:
  assumes inv: "cp_inv S" and e: "cp_sd S a = Some e"
  shows "\<exists>e'. snd_state e' \<noteq> Sp_Registered \<and> snd_value e' = snd_value e \<and>
    cp_sd (cp_remove_send a S) = (cp_sd S)(a \<mapsto> e') \<and>
    cp_rd (cp_remove_send a S) = cp_rd S \<and> a \<notin> set (cp_send (cp_remove_send a S))"
proof -
  have q: "a \<in> set (cp_send S) \<longleftrightarrow> snd_state e = Sp_Registered" "distinct (cp_send S)"
    using inv e by (simp_all add: cp_inv_def cp_senders_ok_def)
  have "(cp_sd S)(a \<mapsto> e) = cp_sd S" using e by auto
  with e q show ?thesis
    by (cases "snd_state e = Sp_Registered")
      (auto simp: cp_remove_send_def Let_def intro: exI [of _ e] exI [of _ "e\<lparr>snd_state := Sp_Unregistered\<rparr>"])
qed

section \<open>New futures and dropped ones\<close>

lemma cp_new_send:
  assumes abs: "channel_abs ops binv items c S" and inv: "cp_inv S" and fresh: "ch_send_nodes c a = None"
  shows "channel_abs ops binv items (c\<lparr>ch_send_nodes := (ch_send_nodes c)(a \<mapsto> list_node_new e)\<rparr>)
      (S\<lparr>cp_sd := (cp_sd S)(a \<mapsto> e)\<rparr>)"
    and "snd_state e = Sp_Unregistered \<Longrightarrow> cp_inv (S\<lparr>cp_sd := (cp_sd S)(a \<mapsto> e)\<rparr>)"
    and "cp_contents (S\<lparr>cp_sd := (cp_sd S)(a \<mapsto> e)\<rparr>) = cp_contents S"
proof -
  from fresh have "data_of (ch_send_nodes c) a = None" by simp
  with abs have new: "cp_sd S a = None" by (simp add: channel_abs_def)
  then have q: "a \<notin> set (cp_send S)" using inv by (auto simp: cp_inv_def cp_senders_ok_def)
  show "channel_abs ops binv items (c\<lparr>ch_send_nodes := (ch_send_nodes c)(a \<mapsto> list_node_new e)\<rparr>)
      (S\<lparr>cp_sd := (cp_sd S)(a \<mapsto> e)\<rparr>)"
    using abs fresh ll_rep_alloc [of "ch_send_nodes c" "ch_send_waiters c" "cp_send S" a e]
    by (auto simp: channel_abs_def list_node_new_def)
  show "cp_inv (S\<lparr>cp_sd := (cp_sd S)(a \<mapsto> e)\<rparr>)" if "snd_state e = Sp_Unregistered"
    using inv q that by (auto simp: cp_inv_def cp_senders_ok_def cp_wakeups_ok_def)
  show "cp_contents (S\<lparr>cp_sd := (cp_sd S)(a \<mapsto> e)\<rparr>) = cp_contents S"
    using q by (simp add: cp_contents_def sd_value_other del: map_eq_conv fun_upd_apply)
qed

lemma cp_new_recv:
  assumes abs: "channel_abs ops binv items c S" and inv: "cp_inv S" and fresh: "ch_recv_nodes c a = None"
  shows "channel_abs ops binv items (c\<lparr>ch_recv_nodes := (ch_recv_nodes c)(a \<mapsto> list_node_new e)\<rparr>)
      (S\<lparr>cp_rd := (cp_rd S)(a \<mapsto> e)\<rparr>)"
    and "rw_state e = Rp_Unregistered \<Longrightarrow> cp_inv (S\<lparr>cp_rd := (cp_rd S)(a \<mapsto> e)\<rparr>)"
proof -
  from fresh have "data_of (ch_recv_nodes c) a = None" by simp
  with abs have new: "cp_rd S a = None" by (simp add: channel_abs_def)
  then have q: "a \<notin> set (cp_recv S)" "a \<notin> cp_notified (cp_rd S)"
    using inv by (auto simp: cp_inv_def cp_receivers_ok_def cp_notified_def)
  show "channel_abs ops binv items (c\<lparr>ch_recv_nodes := (ch_recv_nodes c)(a \<mapsto> list_node_new e)\<rparr>)
      (S\<lparr>cp_rd := (cp_rd S)(a \<mapsto> e)\<rparr>)"
    using abs fresh ll_rep_alloc [of "ch_recv_nodes c" "ch_receive_waiters c" "cp_recv S" a e]
    by (auto simp: channel_abs_def list_node_new_def)
  show "cp_inv (S\<lparr>cp_rd := (cp_rd S)(a \<mapsto> e)\<rparr>)" if "rw_state e = Rp_Unregistered"
    using inv q that by (auto simp: cp_inv_def cp_receivers_ok_def cp_wakeups_ok_def cp_notified_upd)
qed

lemma cp_free_send:
  assumes abs: "channel_abs ops binv items c S" and inv: "cp_inv S" and q: "a \<notin> set (cp_send S)"
  shows "channel_abs ops binv items (c\<lparr>ch_send_nodes := (ch_send_nodes c)(a := None)\<rparr>)
      (S\<lparr>cp_sd := (cp_sd S)(a := None)\<rparr>)"
    and "cp_inv (S\<lparr>cp_sd := (cp_sd S)(a := None)\<rparr>)"
    and "cp_contents (S\<lparr>cp_sd := (cp_sd S)(a := None)\<rparr>) = cp_contents S"
proof -
  show "channel_abs ops binv items (c\<lparr>ch_send_nodes := (ch_send_nodes c)(a := None)\<rparr>)
      (S\<lparr>cp_sd := (cp_sd S)(a := None)\<rparr>)"
    using abs q ll_rep_free [of "ch_send_nodes c" "ch_send_waiters c" "cp_send S" a]
    by (auto simp: channel_abs_def)
  show "cp_inv (S\<lparr>cp_sd := (cp_sd S)(a := None)\<rparr>)"
    using inv q by (auto simp: cp_inv_def cp_senders_ok_def cp_wakeups_ok_def)
  show "cp_contents (S\<lparr>cp_sd := (cp_sd S)(a := None)\<rparr>) = cp_contents S"
    using q by (simp add: cp_contents_def sd_value_other del: map_eq_conv fun_upd_apply)
qed

lemma cp_free_recv:
  assumes abs: "channel_abs ops binv items c S" and inv: "cp_inv S" and e: "cp_rd S a = Some e"
    and un: "rw_state e = Rp_Unregistered"
  shows "channel_abs ops binv items (c\<lparr>ch_recv_nodes := (ch_recv_nodes c)(a := None)\<rparr>)
      (S\<lparr>cp_rd := (cp_rd S)(a := None)\<rparr>)"
    and "cp_inv (S\<lparr>cp_rd := (cp_rd S)(a := None)\<rparr>)"
proof -
  have q: "a \<notin> set (cp_recv S)" using inv e un by (simp add: cp_inv_def cp_receivers_ok_def)
  show "channel_abs ops binv items (c\<lparr>ch_recv_nodes := (ch_recv_nodes c)(a := None)\<rparr>)
      (S\<lparr>cp_rd := (cp_rd S)(a := None)\<rparr>)"
    using abs q ll_rep_free [of "ch_recv_nodes c" "ch_receive_waiters c" "cp_recv S" a]
    by (auto simp: channel_abs_def)
  have "cp_notified ((cp_rd S)(a := None)) = cp_notified (cp_rd S)"
    using e un by (auto simp: cp_notified_def)
  with inv q show "cp_inv (S\<lparr>cp_rd := (cp_rd S)(a := None)\<rparr>)"
    by (auto simp: cp_inv_def cp_receivers_ok_def cp_wakeups_ok_def)
qed

section \<open>The system keeps the invariant\<close>

lemma channel_sys_repI:
  assumes "channel_abs ops binv items (cy_chan s) S" "cp_inv S" "sends_ok (cp_sd S) (cy_sends s)"
    "recvs_ok (cp_rd S) (cy_recvs s)" "subseq (cy_received s @ cp_contents S) (cy_accepted s)"
    "cy_intact s \<Longrightarrow> cy_received s @ cp_contents S = cy_accepted s"
  shows "channel_sys_inv ops binv items s"
  using assms by (auto simp: channel_sys_inv_def channel_sys_rep_def)

lemma channel_sys_repD:
  assumes "channel_sys_rep ops binv items s S"
  shows "channel_abs ops binv items (cy_chan s) S" "cp_inv S" "sends_ok (cp_sd S) (cy_sends s)"
    "recvs_ok (cp_rd S) (cy_recvs s)" "subseq (cy_received s @ cp_contents S) (cy_accepted s)"
    "cy_intact s \<Longrightarrow> cy_received s @ cp_contents S = cy_accepted s"
  using assms by (auto simp: channel_sys_rep_def)

lemma channel_send_preserves:
  assumes rep: "channel_sys_rep ops binv items s S" and fresh: "ch_send_nodes (cy_chan s) a = None"
  shows "returns (channel_exec ops (Ch_Send a v) s) (channel_sys_inv ops binv items)"
proof -
  note S = channel_sys_repD [OF rep]
  note new = cp_new_send [OF S(1,2) fresh, of "send_waiter_new v"]
  have "sends_ok ((cp_sd S)(a \<mapsto> send_waiter_new v)) ((cy_sends s)(a \<mapsto> fst (channel_send a v)))"
    by (rule sends_ok_upd [OF S(3)]) (simp_all add: channel_send_def send_waiter_new_def)
  with new S show ?thesis
    by (auto simp: channel_send_def send_waiter_new_def
        intro!: channel_sys_repI [where S = "S\<lparr>cp_sd := (cp_sd S)(a \<mapsto> send_waiter_new v)\<rparr>"])
qed

lemma channel_receive_preserves:
  assumes rep: "channel_sys_rep ops binv items s S" and fresh: "ch_recv_nodes (cy_chan s) a = None"
  shows "returns (channel_exec ops (Ch_Receive a) s) (channel_sys_inv ops binv items)"
proof -
  note S = channel_sys_repD [OF rep]
  note new = cp_new_recv [OF S(1,2) fresh, of recv_waiter_new]
  have "recvs_ok ((cp_rd S)(a \<mapsto> recv_waiter_new)) ((cy_recvs s)(a \<mapsto> fst (channel_receive a)))"
    by (rule recvs_ok_upd [OF S(4)]) (simp_all add: channel_receive_def)
  with new S show ?thesis
    by (auto simp: channel_receive_def recv_waiter_new_def
        intro!: channel_sys_repI [where S = "S\<lparr>cp_rd := (cp_rd S)(a \<mapsto> recv_waiter_new)\<rparr>"])
qed

text \<open>An operation that takes values out at the front, and one that adds them at the end.\<close>

lemma subseq_front: "subseq (xs @ c) ys \<Longrightarrow> c = zs @ c' \<Longrightarrow> subseq ((xs @ zs) @ c') ys"
  by simp

lemma subseq_append_end: "subseq (xs @ c) ys \<Longrightarrow> subseq (xs @ c @ zs) (ys @ zs)"
  by (metis append_assoc subseq_append)

lemma subseq_withdrawn: "subseq (xs @ ps @ v # qs) ys \<Longrightarrow> subseq (xs @ ps @ qs) ys"
  by (erule subseq_order.trans [rotated]) (simp add: subseq_append' list_emb_Cons)

lemma channel_close_preserves:
  assumes rep: "channel_sys_rep ops binv items s S"
  shows "returns (channel_exec ops Ch_Close s) (channel_sys_inv ops binv items)"
proof -
  note S = channel_sys_repD [OF rep]
  let ?S = "snd (snd (cp_close S))"
  have empty: "ll_is_empty (ch_send_waiters (cy_chan s)) = Inr (cp_send S = [])"
    using S(1) by (auto simp: channel_abs_def)
  have front: "subseq (cy_received s @ cp_buf S) (cy_accepted s)"
    by (rule subseq_order.trans [OF prefix_imp_subseq S(5)]) (simp add: cp_contents_def)
  have "channel_sys_inv ops binv items (s\<lparr>cy_chan := c, cy_woken := w, cy_intact := (cy_intact s \<and> cp_send S = [])\<rparr>)"
    if "channel_abs ops binv items c ?S" for c w
    using that cp_close_inv [OF S(2)] cp_close_contents [OF S(2)] front S(6)
      sends_ok_frame [OF S(3) cp_close_frame(1) [OF S(2)]] recvs_ok_frame [OF S(4) cp_close_frame(2) [OF S(2)]]
    by (intro channel_sys_repI [where S = ?S]) (auto simp: cp_contents_def)
  with channel_close_refines [OF S(1)] empty show ?thesis
    by (auto elim!: returns_mono)
qed

context ring_buf
begin

lemma channel_try_send_preserves:
  assumes rep: "channel_sys_rep ops binv items s S" and cap: "0 < rb_capacity ops (ch_buffer (cy_chan s))"
  shows "returns (channel_exec ops (Ch_Try_Send v) s) (channel_sys_inv ops binv items)"
proof -
  note S = channel_sys_repD [OF rep]
  let ?S = "snd (cp_try_send v S)"
  from cap S(1) have cap': "0 < cp_cap S" by (auto simp: channel_abs_def word_less_nat_alt)
  have finish: "channel_sys_inv ops binv items (s\<lparr>cy_chan := c, cy_woken := w,
      cy_accepted := cy_accepted s @ (case r of Inl _ \<Rightarrow> [] | Inr _ \<Rightarrow> [v])\<rparr>)"
    if "channel_abs ops binv items c S'" "cp_try_send v S = (r, S')" for c w r S'
    using that cp_try_send_inv [OF S(2), of v] cp_try_send_contents [OF S(2) that(2)] S(3-6)
      cp_try_send_frame [OF S(2), of v] recvs_ok_frame [OF S(4), of "cp_rd S'"] subseq_append_end [OF S(5)]
    by (intro channel_sys_repI [where S = S']) (auto split: sum.splits)
  show ?thesis
    using channel_try_send_refines [OF S(1) cap', of v] finish finish [where w = "cy_woken s"]
    by (auto simp: channel_try_send_def elim!: returns_mono split: sum.splits option.splits)
qed

lemma channel_try_receive_preserves:
  assumes rep: "channel_sys_rep ops binv items s S"
  shows "returns (channel_exec ops Ch_Try_Receive s) (channel_sys_inv ops binv items)"
proof -
  note S = channel_sys_repD [OF rep]
  note inv = cp_invD [OF S(2)]
  have inv': "cp_inv (snd (cp_try_receive S))"
    using inv by (intro cp_try_receive_inv le_SucI) auto
  have finish: "channel_sys_inv ops binv items (s\<lparr>cy_chan := c, cy_woken := w,
      cy_received := cy_received s @ (case r of Inl _ \<Rightarrow> [] | Inr (v, _) \<Rightarrow> [v])\<rparr>)"
    if "channel_abs ops binv items c S'" "cp_try_receive S = (r, S')" for c w r S'
    using that inv' cp_try_receive_contents [OF inv(1) that(2)] S(3-6)
      sends_ok_frame [OF S(3) cp_try_receive_frame [OF inv(1)]] cp_try_receive_simps(3) [of S]
    by (intro channel_sys_repI [where S = S']) (auto split: sum.splits)
  show ?thesis
    using channel_try_receive_refines [OF S(1) inv(1)] finish finish [where w = "cy_woken s"]
    by (auto simp: channel_try_receive_def elim!: returns_mono split: sum.splits)
qed

lemma channel_poll_send_preserves:
  assumes rep: "channel_sys_rep ops binv items s S" and f: "cy_sends s a = Some f" "sdf_channel f"
  shows "returns (channel_exec ops (Ch_Poll_Send a cx) s) (channel_sys_inv ops binv items)"
proof -
  note S = channel_sys_repD [OF rep]
  from sends_okD [OF S(3) f(1)] f(2) obtain e where
    e: "cp_sd S a = Some e" "sdf_wait_node f = a" "snd_state e = Sp_Unregistered \<Longrightarrow> snd_value e \<noteq> None"
    by auto
  have offer: "channel_offer a (cy_chan s) =
      (if snd_state e = Sp_Unregistered \<and> \<not> cp_closed S then [the (snd_value e)] else [])"
    using S(1) e(1) by (auto simp: channel_offer_def channel_abs_def)
  have finish: "channel_sys_inv ops binv items (s\<lparr>cy_chan := c, cy_sends := (cy_sends s)(a \<mapsto> f'), cy_woken := w,
      cy_accepted := cy_accepted s @ channel_offer a (cy_chan s)\<rparr>)"
    if "channel_abs ops binv items c S'" "cp_poll_send a cx S = (r, v, wk, S')"
      "f' = (if r = Pending then f else f\<lparr>sdf_channel := False\<rparr>)" for c w r v wk S' f'
  proof -
    from cp_poll_send_frame [OF S(2) e(1) that(2)] obtain e' where
      e': "cp_sd S' = (cp_sd S)(a \<mapsto> e')" "recv_frame (cp_rd S) (cp_rd S')" "snd_state e' = Sp_Registered \<longleftrightarrow> r = Pending"
      by blast
    have "sends_ok (cp_sd S') ((cy_sends s)(a \<mapsto> f'))"
      unfolding e'(1) by (rule sends_ok_upd [OF S(3)]) (use e' e(2) that(3) f in auto)
    with that cp_poll_send_inv [OF S(2) e(1,3), of cx] cp_poll_send_contents [OF S(2) e(1) that(2)] S(5,6)
      recvs_ok_frame [OF S(4) e'(2)] subseq_append_end [OF S(5), of "channel_offer a (cy_chan s)"] offer
    show ?thesis
      by (intro channel_sys_repI [where S = S']) auto
  qed
  show ?thesis
    using channel_send_or_register_refines [OF S(1) cp_invD(1) [OF S(2)] e(1,3), of cx] e(2) f finish
      finish [where w = "cy_woken s"]
    by (auto simp: send_future_poll_def channel_send_access_def channel_send_or_register_def Let_def
        elim!: returns_mono split: poll.splits option.splits)
qed

lemma channel_poll_receive_preserves:
  assumes rep: "channel_sys_rep ops binv items s S" and f: "cy_recvs s a = Some f" "rf_channel f"
  shows "returns (channel_exec ops (Ch_Poll_Receive a cx) s) (channel_sys_inv ops binv items)"
proof -
  note S = channel_sys_repD [OF rep]
  from recvs_okD [OF S(4) f(1)] obtain e where e: "cp_rd S a = Some e" "rf_wait_node f = a" by auto
  have finish: "channel_sys_inv ops binv items (s\<lparr>cy_chan := c, cy_recvs := (cy_recvs s)(a \<mapsto> f'), cy_woken := w,
      cy_received := cy_received s @ (case r of Ready (Some (v, _)) \<Rightarrow> [v] | _ \<Rightarrow> [])\<rparr>)"
    if "channel_abs ops binv items c S'" "cp_poll_recv a cx S = (r, S')"
      "f' = (if r = Pending then f else f\<lparr>rf_channel := False\<rparr>)" for c w r S' f'
  proof -
    from cp_poll_recv_frame [OF S(2) e(1) that(2)] obtain e' where
      e': "cp_rd S' = (cp_rd S)(a \<mapsto> e')" "send_frame (cp_sd S) (cp_sd S')" "r = Pending \<or> rw_state e' = Rp_Unregistered"
      by blast
    have "recvs_ok (cp_rd S') ((cy_recvs s)(a \<mapsto> f'))"
      unfolding e'(1) by (rule recvs_ok_upd [OF S(4)]) (use e' e(2) that(3) f in auto)
    with that cp_poll_recv_inv [OF S(2) e(1), of cx] cp_poll_recv_contents [OF S(2) that(2)] S(5,6)
      sends_ok_frame [OF S(3) e'(2)]
    show ?thesis
      by (intro channel_sys_repI [where S = S']) (auto split: poll.splits option.splits)
  qed
  show ?thesis
    using channel_receive_or_register_refines [OF S(1) cp_invD(1,2) [OF S(2)] e(1), of cx] e(2) f finish
      finish [where w = "cy_woken s"]
    by (auto simp: receive_future_poll_def channel_receive_access_def channel_receive_or_register_def
        elim!: returns_mono split: poll.splits option.splits)
qed

lemma channel_cancel_preserves:
  assumes rep: "channel_sys_rep ops binv items s S" and f: "cy_sends s a = Some f"
  shows "returns (channel_exec ops (Ch_Cancel_Send a) s) (channel_sys_inv ops binv items)"
proof -
  note S = channel_sys_repD [OF rep]
  from sends_okD [OF S(3) f] obtain e where e: "cp_sd S a = Some e" "sdf_wait_node f = a"
    "sdf_channel f \<or> snd_state e \<noteq> Sp_Registered" by (auto split: if_splits)
  show ?thesis
  proof (cases "sdf_channel f")
    case False
    then have "f\<lparr>sdf_channel := False\<rparr> = f" by (cases f) simp
    with False f e rep show ?thesis
      by (auto simp: send_future_cancel_def Let_def fun_upd_idem intro!: channel_sys_repI [where S = S] dest: channel_sys_repD)
  next
    case True
    let ?S = "cp_remove_send a S"
    from cp_remove_send_frame [OF S(2) e(1)] obtain e' where
      e': "snd_state e' \<noteq> Sp_Registered" "cp_sd ?S = (cp_sd S)(a \<mapsto> e')" "cp_rd ?S = cp_rd S"
        "a \<notin> set (cp_send ?S)" by blast
    let ?T = "?S\<lparr>cp_sd := (cp_sd S)(a \<mapsto> e'\<lparr>snd_value := None\<rparr>)\<rparr>"
    note inv = cp_remove_send_inv [OF S(2) e(1)]
    have "cp_inv ?T"
      using inv e' cp_take_ok [OF cp_invD(1) [OF inv], of a e'] by (simp add: cp_inv_def cp_wakeups_ok_def)
    moreover have "cp_contents ?T = cp_contents ?S"
      using e'(2,4) by (auto simp: cp_contents_def)
    ultimately have finish: "channel_sys_inv ops binv items (s\<lparr>cy_chan := c, cy_sends := (cy_sends s)(a \<mapsto> f\<lparr>sdf_channel := False\<rparr>),
        cy_intact := (cy_intact s \<and> \<not> channel_sender_waits a (cy_chan s))\<rparr>)"
      if "channel_abs ops binv items c ?T" for c
      using that S e e'(1,3) cp_remove_send_contents [OF S(2) e(1)]
      by (intro channel_sys_repI [where S = ?T])
        (auto simp: channel_sender_waits_def channel_abs_def [of _ _ _ "cy_chan s"] split: if_splits
          intro: sends_ok_upd dest: subseq_withdrawn)
    have "returns (channel_take_value a c) (\<lambda>(v, c'). channel_abs ops binv items c' ?T)"
      if "channel_abs ops binv items c ?S" for c
      using that e'(2) by (auto simp: channel_take_value_def channel_abs_def intro!: update_data_wp)
    with channel_remove_send_refines [OF S(1) cp_invD(1) [OF S(2)] e(1)]
    have "returns (channel_state_remove_send_waiter a (cy_chan s)) (\<lambda>c. returns (channel_take_value a c)
        (\<lambda>(v, c'). channel_abs ops binv items c' ?T))"
      by (auto elim!: returns_mono)
    with f True e(2) finish show ?thesis
      by (auto simp: send_future_cancel_def channel_send_access_def Let_def elim!: returns_mono)
  qed
qed

lemma channel_drop_send_preserves:
  assumes rep: "channel_sys_rep ops binv items s S" and f: "cy_sends s a = Some f"
  shows "returns (channel_exec ops (Ch_Drop_Send a) s) (channel_sys_inv ops binv items)"
proof -
  note S = channel_sys_repD [OF rep]
  from sends_okD [OF S(3) f] obtain e where e: "cp_sd S a = Some e" "sdf_wait_node f = a"
    "sdf_channel f \<or> snd_state e \<noteq> Sp_Registered" by (auto split: if_splits)
  let ?S = "cp_remove_send a S"
  from cp_remove_send_frame [OF S(2) e(1)] obtain e' where
    e': "cp_sd ?S = (cp_sd S)(a \<mapsto> e')" "cp_rd ?S = cp_rd S" "a \<notin> set (cp_send ?S)" by blast
  have same: "?S = S" if "\<not> sdf_channel f" using that e by (simp add: cp_remove_send_def Let_def)
  have finish: "channel_sys_inv ops binv items (s\<lparr>cy_chan := c\<lparr>ch_send_nodes := (ch_send_nodes c)(a := None)\<rparr>,
      cy_sends := (cy_sends s)(a := None),
      cy_intact := (cy_intact s \<and> \<not> channel_sender_waits a (cy_chan s))\<rparr>)"
    if "channel_abs ops binv items c ?S" for c
  proof -
    note free = cp_free_send [OF that cp_remove_send_inv [OF S(2) e(1)] e'(3)]
    have "(cp_sd ?S)(a := None) = (cp_sd S)(a := None)" by (simp add: e'(1))
    with free S e'(2) e cp_remove_send_contents [OF S(2) e(1)] show ?thesis
      by (intro channel_sys_repI [where S = "?S\<lparr>cp_sd := (cp_sd ?S)(a := None)\<rparr>"])
        (auto simp: channel_sender_waits_def channel_abs_def [of _ _ _ "cy_chan s"] split: if_splits
          intro: sends_ok_del dest: subseq_withdrawn)
  qed
  show ?thesis
    using channel_remove_send_refines [OF S(1) cp_invD(1) [OF S(2)] e(1)] f e(2) finish S(1) same
    by (auto simp: send_future_drop_def channel_send_access_def elim!: returns_mono)
qed

lemma channel_drop_receive_preserves:
  assumes rep: "channel_sys_rep ops binv items s S" and f: "cy_recvs s a = Some f"
  shows "returns (channel_exec ops (Ch_Drop_Receive a) s) (channel_sys_inv ops binv items)"
proof -
  note S = channel_sys_repD [OF rep]
  from recvs_okD [OF S(4) f] obtain e where e: "cp_rd S a = Some e" "rf_wait_node f = a"
    "rf_channel f \<or> rw_state e = Rp_Unregistered" by auto
  let ?S = "snd (cp_remove_recv a S)"
  from cp_remove_recv_frame [OF S(2) e(1)] obtain e' where
    e': "rw_state e' = Rp_Unregistered" "cp_sd ?S = cp_sd S" "cp_rd ?S a = Some e'"
      "recv_frame ((cp_rd S)(a \<mapsto> e')) (cp_rd ?S)" by blast
  have same: "?S = S" if "\<not> rf_channel f" using that e by (simp add: cp_remove_recv_def)
  have futures: "recvs_ok ((cp_rd ?S)(a := None)) ((cy_recvs s)(a := None))"
    using recvs_ok_frame [OF recvs_ok_upd [OF S(4) e(2), of e'] e'(4)] e'(1)
      recvs_ok_del [of "cp_rd ?S" "(cy_recvs s)(a \<mapsto> f)" a] by simp
  have finish: "channel_sys_inv ops binv items (s\<lparr>cy_chan := c\<lparr>ch_recv_nodes := (ch_recv_nodes c)(a := None)\<rparr>,
      cy_recvs := (cy_recvs s)(a := None), cy_woken := w\<rparr>)"
    if "channel_abs ops binv items c ?S" for c w
    using cp_free_recv [OF that cp_remove_recv_inv [OF S(2) e(1)] e'(3,1)] futures S e'(2)
    by (intro channel_sys_repI [where S = "?S\<lparr>cp_rd := (cp_rd ?S)(a := None)\<rparr>"]) auto
  show ?thesis
    using channel_remove_recv_refines [OF S(1) cp_invD(2) [OF S(2)] e(1)] f e(2) finish
      finish [where w = "cy_woken s"] S(1) same
    by (auto simp: receive_future_drop_def channel_receive_access_def channel_remove_receive_waiter_def
        elim!: returns_mono)
qed

lemma channel_started_inv:
  assumes "channel_started ops s"
  shows "channel_sys_inv ops binv items s"
proof -
  have "channel_sys_inv ops binv items (channel_sys_new (channel_state_new b))"
    if "binv b" "items b = []" for b
    using that
    by (intro channel_sys_repI [where S = "\<lparr>cp_closed = False, cp_cap = unat (rb_capacity ops b), cp_buf = [],
          cp_recv = [], cp_send = [], cp_rd = Map.empty, cp_sd = Map.empty\<rparr>"])
      (auto simp: channel_sys_new_def channel_state_new_def channel_abs_def data_of_def cp_inv_def
        cp_senders_ok_def cp_receivers_ok_def cp_wakeups_ok_def cp_contents_def sends_ok_def recvs_ok_def ll_rep_new)
  with assms new_law with_capacity_law show ?thesis
    by (auto simp: channel_started_def channel_new_def channel_with_capacity_def)
qed

lemma channel_exec_preserves:
  assumes "channel_sys_inv ops binv items s" "channel_enabled ops act s"
  shows "returns (channel_exec ops act s) (channel_sys_inv ops binv items)"
proof -
  from assms(1) obtain S where rep: "channel_sys_rep ops binv items s S" by (auto simp: channel_sys_inv_def)
  show ?thesis
    using assms(2) channel_send_preserves [OF rep] channel_receive_preserves [OF rep]
      channel_poll_send_preserves [OF rep] channel_poll_receive_preserves [OF rep]
      channel_cancel_preserves [OF rep] channel_drop_send_preserves [OF rep] channel_drop_receive_preserves [OF rep]
      channel_try_send_preserves [OF rep] channel_try_receive_preserves [OF rep] channel_close_preserves [OF rep]
    by (cases act) (auto simp: send_future_is_terminated_def receive_future_is_terminated_def
        simp del: channel_exec.simps split: option.splits)
qed

end

sublocale ring_buf \<subseteq> chs: transition_system "channel_started ops" "channel_enabled ops" "channel_exec ops"
    "channel_sys_inv ops binv items"
  by unfold_locales (rule channel_started_inv channel_exec_preserves, assumption+)+

context ring_buf
begin

lemma channel_reach_inv: "channel_reachable ops s \<Longrightarrow> channel_sys_inv ops binv items s"
  by (rule chs.reach_inv)

lemma channel_runs:
  "channel_reachable ops s \<Longrightarrow> channel_enabled ops act s \<Longrightarrow> \<exists>t. channel_exec ops act s = Inr t"
  using chs.no_fault by blast

end

text \<open>The contents of the channel, given the addresses of its waiting senders (youngest first).\<close>

definition channel_contents :: "('b \<Rightarrow> 'v list) \<Rightarrow> ('b, 'v) channel \<Rightarrow> addr list \<Rightarrow> 'v list" where
  "channel_contents items c senders =
     items (ch_buffer c) @ map (sd_value (data_of (ch_send_nodes c))) (rev senders)"

lemma channel_reach_rep:
  assumes "ring_buf ops binv items" "channel_reachable ops s"
  shows "\<exists>S. channel_sys_rep ops binv items s S"
  using ring_buf.channel_reach_inv [OF assms] by (simp add: channel_sys_inv_def)

lemma channel_rep_views:
  assumes "channel_sys_rep ops binv items s S"
  shows "ll_rep (ch_send_nodes (cy_chan s)) (ch_send_waiters (cy_chan s)) sq \<Longrightarrow>
      cp_send S = sq \<and> cp_contents S = channel_contents items (cy_chan s) sq"
    and "ll_rep (ch_recv_nodes (cy_chan s)) (ch_receive_waiters (cy_chan s)) rq \<Longrightarrow> cp_recv S = rq"
    and "cp_rd S = data_of (ch_recv_nodes (cy_chan s))" "cp_sd S = data_of (ch_send_nodes (cy_chan s))"
    and "cp_buf S = items (ch_buffer (cy_chan s))" "cp_closed S = ch_is_closed (cy_chan s)"
    and "cp_cap S = unat (rb_capacity ops (ch_buffer (cy_chan s)))"
  using assms ll_rep_unique [of "ch_send_nodes (cy_chan s)" "ch_send_waiters (cy_chan s)" "cp_send S" sq]
    ll_rep_unique [of "ch_recv_nodes (cy_chan s)" "ch_receive_waiters (cy_chan s)" "cp_recv S" rq]
  by (auto simp: channel_sys_rep_def channel_abs_def cp_contents_def channel_contents_def)

section \<open>A concrete run\<close>

lemmas channel_eval =
  channel_sys_new_def channel_with_capacity_def channel_state_new_def channel_send_def channel_receive_def
  send_waiter_new_def recv_waiter_new_def send_future_poll_def receive_future_poll_def
  send_future_is_terminated_def receive_future_is_terminated_def channel_send_access_def
  channel_receive_access_def channel_send_or_register_def channel_receive_or_register_def
  channel_state_send_or_register_def channel_state_receive_or_register_def channel_state_try_receive_def
  channel_try_take_value_from_sender_def channel_try_copy_value_from_oldest_waiter_def
  channel_notify_receiver_def return_oldest_receive_waiter_def rb_is_empty_def channel_offer_def
  fixed_heap_buf_ops_def fixed_heap_buf_new_def fixed_heap_buf_with_capacity_def fixed_heap_buf_len_def
  fixed_heap_buf_capacity_def fixed_heap_buf_can_push_def fixed_heap_buf_push_def fixed_heap_buf_pop_def

text \<open>
  A channel with room for one value: three receivers wait; a first send is stored, a second one
  waits. Two receivers are notified, the third still waits.
\<close>

abbreviation channel_demo_acts :: "nat channel_action list" where
  "channel_demo_acts \<equiv>
     [Ch_Receive 4, Ch_Poll_Receive 4 (Waker 4 0), Ch_Receive 2, Ch_Poll_Receive 2 (Waker 2 0),
      Ch_Receive 3, Ch_Poll_Receive 3 (Waker 3 0), Ch_Send 4 10, Ch_Poll_Send 4 (Waker 6 0),
      Ch_Send 2 11, Ch_Poll_Send 2 (Waker 5 0)]"

definition channel_demo_start :: "(nat fixed_heap_buf, nat) channel_sys" where
  "channel_demo_start = channel_sys_new (channel_with_capacity fixed_heap_buf_ops 1)"

definition channel_demo :: "(nat fixed_heap_buf, nat) channel_sys" where
  "channel_demo =
     the (exec_all (channel_enabled fixed_heap_buf_ops) (channel_exec fixed_heap_buf_ops) channel_demo_acts
       channel_demo_start)"

lemma channel_demo_run:
  "exec_all (channel_enabled fixed_heap_buf_ops) (channel_exec fixed_heap_buf_ops) channel_demo_acts
     channel_demo_start = Some channel_demo"
  by (simp add: channel_demo_def channel_demo_start_def channel_eval ll_eval)

lemma channel_demo_reach: "channel_reachable fixed_heap_buf_ops channel_demo"
  by (rule exec_all_reach [OF channel_demo_run reach_init])
    (auto simp: channel_started_def channel_demo_start_def)

lemma channel_demo_eq:
  "channel_demo =
    \<lparr>cy_chan =
       \<lparr>ch_is_closed = False, ch_buffer = \<lparr>fb_buffer = [10], fb_cap = 1\<rparr>,
        ch_receive_waiters = \<lparr>ll_head = Some 3, ll_tail = Some 3\<rparr>,
        ch_send_waiters = \<lparr>ll_head = Some 2, ll_tail = Some 2\<rparr>,
        ch_recv_nodes =
          [4 \<mapsto> \<lparr>ln_prev = None, ln_next = None, ln_data = \<lparr>rw_task = None, rw_state = Rp_Notified\<rparr>\<rparr>,
           3 \<mapsto> \<lparr>ln_prev = None, ln_next = None, ln_data = \<lparr>rw_task = Some (Waker 3 0), rw_state = Rp_Registered\<rparr>\<rparr>,
           2 \<mapsto> \<lparr>ln_prev = None, ln_next = None, ln_data = \<lparr>rw_task = None, rw_state = Rp_Notified\<rparr>\<rparr>],
        ch_send_nodes =
          [4 \<mapsto> \<lparr>ln_prev = None, ln_next = None,
             ln_data = \<lparr>snd_task = None, snd_state = Sp_Unregistered, snd_value = None\<rparr>\<rparr>,
           2 \<mapsto> \<lparr>ln_prev = None, ln_next = None,
             ln_data = \<lparr>snd_task = Some (Waker 5 0), snd_state = Sp_Registered, snd_value = Some 11\<rparr>\<rparr>]\<rparr>,
     cy_sends = [4 \<mapsto> \<lparr>sdf_channel = False, sdf_wait_node = 4\<rparr>, 2 \<mapsto> \<lparr>sdf_channel = True, sdf_wait_node = 2\<rparr>],
     cy_recvs = [4 \<mapsto> \<lparr>rf_channel = True, rf_wait_node = 4\<rparr>, 2 \<mapsto> \<lparr>rf_channel = True, rf_wait_node = 2\<rparr>,
       3 \<mapsto> \<lparr>rf_channel = True, rf_wait_node = 3\<rparr>],
     cy_woken = [Waker 4 0, Waker 2 0], cy_accepted = [10, 11], cy_received = [], cy_intact = True\<rparr>"
  by (simp add: channel_demo_def channel_demo_start_def channel_eval ll_eval)

lemma channel_demo_queues:
  "ll_rep (ch_send_nodes (cy_chan channel_demo)) (ch_send_waiters (cy_chan channel_demo)) [2]"
  "ll_rep (ch_recv_nodes (cy_chan channel_demo)) (ch_receive_waiters (cy_chan channel_demo)) [3]"
  by (simp_all add: channel_demo_eq ll_rep_def)

section \<open>Properties\<close>

text \<open>
  C25: no call of the channel panics, uses a dangling pointer or diverges, in any sequence of calls
  that the API allows and with any buffer that keeps the contract of \<open>RingBuf\<close>.
\<close>

theorem channel_no_fault:
  assumes "ring_buf ops binv items" "channel_reachable ops s" "channel_enabled ops act s"
  shows "\<exists>t. channel_exec ops act s = Inr t"
  by (rule ring_buf.channel_runs [OF assms])

theorem channel_no_fault_witness:
  "\<exists>t. channel_exec fixed_heap_buf_ops (Ch_Cancel_Send 2) channel_demo = Inr t"
  by (rule channel_no_fault [OF fixed_ring.ring_buf_axioms channel_demo_reach]) (simp add: channel_demo_eq)

text \<open>
  C2: the channel is first in, first out. The values received so far, followed by the contents of
  the channel (the buffered items and the values of the waiting senders, the oldest first), are
  the accepted values in the order in which they were accepted: none is duplicated, invented or
  overtaken, and none is missing unless a waiting send was cancelled or dropped or the channel was
  closed while senders waited.
\<close>

theorem channel_fifo:
  assumes "ring_buf ops binv items" "channel_reachable ops s"
    and "ll_rep (ch_send_nodes (cy_chan s)) (ch_send_waiters (cy_chan s)) senders"
  shows "subseq (cy_received s @ channel_contents items (cy_chan s) senders) (cy_accepted s) \<and>
    (cy_intact s \<longrightarrow> cy_received s @ channel_contents items (cy_chan s) senders = cy_accepted s)"
proof -
  from channel_reach_rep [OF assms(1,2)] obtain S where rep: "channel_sys_rep ops binv items s S" by blast
  from channel_sys_repD(5,6) [OF rep] channel_rep_views(1) [OF rep assms(3)] show ?thesis by auto
qed

theorem channel_fifo_witness:
  "cy_received channel_demo @ channel_contents fb_buffer (cy_chan channel_demo) [2] = [10, 11]"
  using channel_fifo [OF fixed_ring.ring_buf_axioms channel_demo_reach channel_demo_queues(1)]
  by (simp add: channel_demo_eq)

text \<open>
  C7: no wakeup is lost. While a receiver waits, at least as many other receivers have been
  notified, and will poll again, as there are values in the channel.
\<close>

theorem channel_no_lost_wakeup:
  assumes "ring_buf ops binv items" "channel_reachable ops s"
    and "ll_rep (ch_send_nodes (cy_chan s)) (ch_send_waiters (cy_chan s)) senders"
    and "ll_rep (ch_recv_nodes (cy_chan s)) (ch_receive_waiters (cy_chan s)) receivers" "receivers \<noteq> []"
  shows "length (channel_contents items (cy_chan s) senders) \<le>
    card {a. \<exists>e. data_of (ch_recv_nodes (cy_chan s)) a = Some e \<and> rw_state e = Rp_Notified}"
proof -
  from channel_reach_rep [OF assms(1,2)] obtain S where rep: "channel_sys_rep ops binv items s S" by blast
  note v = channel_rep_views [OF rep]
  from cp_invD(3) [OF channel_sys_repD(2) [OF rep]] v(2) [OF assms(4)] assms(5) v(1) [OF assms(3)] v(3-5)
  show ?thesis by (simp add: cp_notified_def channel_contents_def)
qed

theorem channel_no_lost_wakeup_witness:
  "2 \<le> card {a. \<exists>e. data_of (ch_recv_nodes (cy_chan channel_demo)) a = Some e \<and> rw_state e = Rp_Notified}"
  using channel_no_lost_wakeup [OF fixed_ring.ring_buf_axioms channel_demo_reach channel_demo_queues]
  by (simp add: channel_contents_def channel_demo_eq)

text \<open>
  A sender waits only while the buffer is full, and the buffer never holds more than its
  capacity.
\<close>

theorem channel_bounded:
  assumes "ring_buf ops binv items" "channel_reachable ops s"
    and "ll_rep (ch_send_nodes (cy_chan s)) (ch_send_waiters (cy_chan s)) senders"
  shows "length (items (ch_buffer (cy_chan s))) \<le> unat (rb_capacity ops (ch_buffer (cy_chan s))) \<and>
    (senders \<noteq> [] \<longrightarrow>
     length (items (ch_buffer (cy_chan s))) = unat (rb_capacity ops (ch_buffer (cy_chan s))))"
proof -
  from channel_reach_rep [OF assms(1,2)] obtain S where rep: "channel_sys_rep ops binv items s S" by blast
  note v = channel_rep_views [OF rep]
  from cp_invD(1) [OF channel_sys_repD(2) [OF rep]] v(1) [OF assms(3)] v(5,7)
  show ?thesis by (auto simp: cp_senders_ok_def)
qed

theorem channel_bounded_witness:
  "length (fb_buffer (ch_buffer (cy_chan channel_demo))) =
     unat (rb_capacity fixed_heap_buf_ops (ch_buffer (cy_chan channel_demo)))"
  using channel_bounded [OF fixed_ring.ring_buf_axioms channel_demo_reach channel_demo_queues(1)] by simp

text \<open>
  C26: closing an open channel wakes everybody who waits, the receivers before the senders and each
  group from the oldest to the youngest, empties both queues, and keeps the buffered items; closing
  it again changes nothing.
\<close>

theorem channel_close_correct:
  assumes "ring_buf ops binv items" "channel_reachable ops s"
    and "ll_rep (ch_send_nodes (cy_chan s)) (ch_send_waiters (cy_chan s)) senders"
    and "ll_rep (ch_recv_nodes (cy_chan s)) (ch_receive_waiters (cy_chan s)) receivers"
  shows "returns (channel_close (cy_chan s)) (\<lambda>(status, woken, c).
    if ch_is_closed (cy_chan s) then status = Already_Closed \<and> woken = [] \<and> c = cy_chan s
    else status = Newly_Closed \<and> ch_is_closed c \<and> items (ch_buffer c) = items (ch_buffer (cy_chan s)) \<and>
      ll_rep (ch_send_nodes c) (ch_send_waiters c) [] \<and> ll_rep (ch_recv_nodes c) (ch_receive_waiters c) [] \<and>
      woken = map (\<lambda>a. the (rw_task (the (data_of (ch_recv_nodes (cy_chan s)) a)))) (rev receivers) @
        map (\<lambda>a. the (snd_task (the (data_of (ch_send_nodes (cy_chan s)) a)))) (rev senders))"
proof -
  from channel_reach_rep [OF assms(1,2)] obtain S where rep: "channel_sys_rep ops binv items s S" by blast
  note S = channel_sys_repD [OF rep]
  note v = channel_rep_views [OF rep]
  show ?thesis
  proof (cases "ch_is_closed (cy_chan s)")
    case False
    have single: "concat (map (\<lambda>a. wake_opt (g a)) xs) = map (\<lambda>a. the (g a)) xs"
      if "\<forall>a\<in>set xs. g a \<noteq> None" for xs :: "addr list" and g
      using that by (induction xs) auto
    have "\<forall>a\<in>set (rev (cp_recv S)). rw_task (the (cp_rd S a)) \<noteq> None"
      "\<forall>a\<in>set (rev (cp_send S)). snd_task (the (cp_sd S a)) \<noteq> None"
      using cp_invD(1,2) [OF S(2)] by (fastforce simp: cp_receivers_ok_def cp_senders_ok_def)+
    from single [OF this(1)] single [OF this(2)] channel_close_refines [OF S(1)] False
      v(1) [OF assms(3)] v(2) [OF assms(4)] v(3-6)
    show ?thesis
      by (auto simp: cp_close_def channel_abs_def [of _ _ _ _ "S\<lparr>cp_closed := True, cp_recv := [], cp_send := [],
            cp_rd := _, cp_sd := _\<rparr>"] elim!: returns_mono)
  qed (simp add: channel_close_def)
qed

theorem channel_close_correct_witness:
  "returns (channel_close (cy_chan channel_demo)) (\<lambda>(status, woken, c). woken = [Waker 3 0, Waker 5 0])"
  using channel_close_correct [OF fixed_ring.ring_buf_axioms channel_demo_reach channel_demo_queues]
  by (rule returns_mono) (auto simp: channel_demo_eq)

text \<open>
  C34: a closed channel is drained. \<open>try_receive\<close> returns the buffered items, the oldest first, and
  reports that the channel is closed once they are gone.
\<close>

theorem channel_closed_drains:
  assumes "ring_buf ops binv items" "channel_reachable ops s" "ch_is_closed (cy_chan s)"
  shows "returns (channel_try_receive ops (cy_chan s)) (\<lambda>(r, woken, c). woken = [] \<and> ch_is_closed c \<and>
    (case items (ch_buffer (cy_chan s)) of
       x # xs \<Rightarrow> r = Inr x \<and> items (ch_buffer c) = xs
     | [] \<Rightarrow> r = Inl Tr_Closed \<and> items (ch_buffer c) = []))"
proof -
  from channel_reach_rep [OF assms(1,2)] obtain S where rep: "channel_sys_rep ops binv items s S" by blast
  note S = channel_sys_repD [OF rep]
  note v = channel_rep_views [OF rep]
  from v(6) assms(3) cp_invD(4) [OF S(2)] have "cp_send S = []" "cp_closed S" by auto
  with ring_buf.channel_try_receive_refines [OF assms(1) S(1) cp_invD(1) [OF S(2)]] v(5)
  show ?thesis
    by (auto simp: channel_try_receive_def cp_try_receive_def Let_def channel_abs_def elim!: returns_mono
        split: list.splits)
qed

lemma channel_demo_close: "\<exists>t. channel_exec fixed_heap_buf_ops Ch_Close channel_demo = Inr t \<and>
  ch_is_closed (cy_chan t) \<and> ch_buffer (cy_chan t) = \<lparr>fb_buffer = [10], fb_cap = 1\<rparr> \<and>
  cy_sends t 2 = Some \<lparr>sdf_channel = True, sdf_wait_node = 2\<rparr> \<and>
  data_of (ch_send_nodes (cy_chan t)) 2 = Some \<lparr>snd_task = None, snd_state = Sp_Unregistered, snd_value = Some 11\<rparr>"
  by (simp add: channel_demo_eq channel_close_def wake_recv_waiters_def wake_send_waiters_def wake_recv_waiter_def
      wake_send_waiter_def ll_eval data_of_def)

theorem channel_closed_drains_witness:
  "\<exists>c r. channel_try_receive fixed_heap_buf_ops c = Inr r \<and> ch_is_closed c \<and> fst r = Inr (10 :: nat)"
proof -
  from channel_demo_close obtain t where t: "channel_exec fixed_heap_buf_ops Ch_Close channel_demo = Inr t"
    "ch_is_closed (cy_chan t)" "ch_buffer (cy_chan t) = \<lparr>fb_buffer = [10], fb_cap = 1\<rparr>" by blast
  have "channel_reachable fixed_heap_buf_ops t"
    by (rule reach_step [OF channel_demo_reach _ t(1)]) simp
  from channel_closed_drains [OF fixed_ring.ring_buf_axioms this t(2)] t(2,3) show ?thesis
    by (fastforce simp: returns_iff)
qed

text \<open>
  C35: a send never loses its value silently. While a send future is in progress, cancelling it
  returns its value, unless the value was delivered, and takes exactly this value out of the
  channel; and polling it after the channel was closed reports an error with the value.
\<close>

theorem channel_send_returns_value:
  assumes "ring_buf ops binv items" "channel_reachable ops s"
    and f: "cy_sends s a = Some f" "\<not> send_future_is_terminated f"
    and e: "data_of (ch_send_nodes (cy_chan s)) a = Some e"
  shows "returns (send_future_cancel (channel_send_access ops) f (cy_chan s))
      (\<lambda>(v, f', c). v = snd_value e \<and> (v = None \<longleftrightarrow> snd_state e = Sp_Send_Complete) \<and>
        send_future_is_terminated f') \<and>
    returns (send_future_poll (channel_send_access ops) f cx (cy_chan s))
      (\<lambda>(r, woken, f', c). (\<exists>v. r = Ready (Inl (Channel_Send_Error v))) \<longleftrightarrow>
        ch_is_closed (cy_chan s) \<and> snd_state e = Sp_Unregistered) \<and>
    returns (send_future_poll (channel_send_access ops) f cx (cy_chan s))
      (\<lambda>(r, woken, f', c). \<forall>v. r = Ready (Inl (Channel_Send_Error v)) \<longrightarrow> snd_value e = Some v)"
proof -
  from channel_reach_rep [OF assms(1,2)] obtain S where rep: "channel_sys_rep ops binv items s S" by blast
  note S = channel_sys_repD [OF rep]
  from f have chan: "sdf_channel f" by (simp add: send_future_is_terminated_def)
  from channel_rep_views(4) [OF rep] e have e': "cp_sd S a = Some e" by simp
  from sends_okD [OF S(3) f(1)] chan e' have
    node: "sdf_wait_node f = a" "snd_state e = Sp_Unregistered \<Longrightarrow> snd_value e \<noteq> None" by auto
  have status: "snd_value e = None \<longleftrightarrow> snd_state e = Sp_Send_Complete"
    using cp_invD(1) [OF S(2)] e' node(2) by (cases "snd_state e") (auto simp: cp_senders_ok_def)
  from cp_remove_send_frame [OF S(2) e'] obtain e1 where
    e1: "snd_value e1 = snd_value e" "cp_sd (cp_remove_send a S) = (cp_sd S)(a \<mapsto> e1)" by blast
  have take: "returns (channel_take_value a c) (\<lambda>(v, c'). v = snd_value e)"
    if "channel_abs ops binv items c (cp_remove_send a S)" for c
    using that e1 by (auto simp: channel_take_value_def channel_abs_def intro!: update_data_wp)
  have "returns (send_future_cancel (channel_send_access ops) f (cy_chan s)) (\<lambda>(v, f', c). v = snd_value e \<and>
      (v = None \<longleftrightarrow> snd_state e = Sp_Send_Complete) \<and> send_future_is_terminated f')"
    using channel_remove_send_refines [OF S(1) cp_invD(1) [OF S(2)] e'] take node(1) chan status
    by (fastforce simp: send_future_cancel_def channel_send_access_def Let_def send_future_is_terminated_def
        elim!: returns_mono)
  moreover have "returns (send_future_poll (channel_send_access ops) f cx (cy_chan s)) (\<lambda>(r, woken, f', c).
      (\<exists>v. r = Ready (Inl (Channel_Send_Error v))) = (ch_is_closed (cy_chan s) \<and> snd_state e = Sp_Unregistered) \<and>
      (\<forall>v. r = Ready (Inl (Channel_Send_Error v)) \<longrightarrow> snd_value e = Some v))"
    using ring_buf.channel_send_or_register_refines [OF assms(1) S(1) cp_invD(1) [OF S(2)] e' node(2), of cx]
      node chan e' channel_rep_views(6) [OF rep]
    by (auto simp: send_future_poll_def channel_send_access_def channel_send_or_register_def Let_def
        cp_poll_send_def split_def elim!: returns_mono
        split: poll.splits option.splits send_poll_state.splits if_splits)
  ultimately show ?thesis by (auto elim: returns_mono)
qed

theorem channel_send_returns_value_witness:
  "\<exists>c r. send_future_poll (channel_send_access fixed_heap_buf_ops)
      \<lparr>sdf_channel = True, sdf_wait_node = 2\<rparr> (Waker 5 0) c = Inr r \<and> fst r = Ready (Inl (Channel_Send_Error (11 :: nat)))"
proof -
  from channel_demo_close obtain t where t: "channel_exec fixed_heap_buf_ops Ch_Close channel_demo = Inr t"
    "ch_is_closed (cy_chan t)" "cy_sends t 2 = Some \<lparr>sdf_channel = True, sdf_wait_node = 2\<rparr>"
    "data_of (ch_send_nodes (cy_chan t)) 2 = Some \<lparr>snd_task = None, snd_state = Sp_Unregistered, snd_value = Some 11\<rparr>"
    by blast
  have "channel_reachable fixed_heap_buf_ops t"
    by (rule reach_step [OF channel_demo_reach _ t(1)]) simp
  from channel_send_returns_value [OF fixed_ring.ring_buf_axioms this t(3) _ t(4), of "Waker 5 0"] t(2)
  show ?thesis
    by (fastforce simp: returns_iff send_future_is_terminated_def)
qed

end
