(* ===== verification/Mpmc_Shared.thy ===== *)
theory Mpmc_Shared
  imports Mpmc_System
begin

text \<open>
  The module \<open>shared\<close> of \<^verbatim>\<open>src/channel/mpmc.rs\<close>: senders and receivers that own the channel and
  count themselves. The channel is closed when the last sender or the last receiver is dropped; the
  last receiver also drops the buffered items.
\<close>

section \<open>Counted senders and receivers\<close>

record ('b, 'v) shared_channel =
  shc_channel :: "('b, 'v) channel"
  shc_senders :: usize
  shc_receivers :: usize

definition shared_channel_new :: "('b, 'v) ring_buf_ops \<Rightarrow> usize \<Rightarrow> ('b, 'v) shared_channel" where
  "shared_channel_new ops capacity =
     \<lparr>shc_channel = channel_with_capacity ops capacity, shc_senders = 1, shc_receivers = 1\<rparr>"

text \<open>\<open>fetch_add\<close> and \<open>fetch_sub\<close> wrap around and return the old count.\<close>

definition sender_clone :: "('b, 'v) shared_channel \<Rightarrow> ('b, 'v) shared_channel res" where
  "sender_clone c =
     (let old_size = shc_senders c; c = c\<lparr>shc_senders := shc_senders c + 1\<rparr> in
      if old_size > isize_max then Inl (Panic ''Reached maximum refcount'') else Inr c)"

definition sender_drop :: "('b, 'v) shared_channel \<Rightarrow> (waker list \<times> ('b, 'v) shared_channel) res" where
  "sender_drop c =
     (let old_size = shc_senders c; c = c\<lparr>shc_senders := shc_senders c - 1\<rparr> in
      if old_size \<noteq> 1 then Inr ([], c)
      else and_then (channel_close (shc_channel c)) (\<lambda>(_, w, ch). Inr (w, c\<lparr>shc_channel := ch\<rparr>)))"

definition receiver_clone :: "('b, 'v) shared_channel \<Rightarrow> ('b, 'v) shared_channel res" where
  "receiver_clone c =
     (let old_size = shc_receivers c; c = c\<lparr>shc_receivers := shc_receivers c + 1\<rparr> in
      if old_size > isize_max then Inl (Panic ''Reached maximum refcount'') else Inr c)"

definition receiver_drop ::
  "('b, 'v) ring_buf_ops \<Rightarrow> ('b, 'v) shared_channel \<Rightarrow> (waker list \<times> ('b, 'v) shared_channel) res" where
  "receiver_drop ops c =
     (let old_size = shc_receivers c; c = c\<lparr>shc_receivers := shc_receivers c - 1\<rparr> in
      if old_size \<noteq> 1 then Inr ([], c)
      else and_then (channel_close (shc_channel c)) (\<lambda>(_, w, ch).
           and_then (channel_clear ops ch) (\<lambda>ch.
           Inr (w, c\<lparr>shc_channel := ch\<rparr>))))"

text \<open>\<open>send\<close>, \<open>try_send\<close>, \<open>receive\<close>, \<open>try_receive\<close> and \<open>close\<close> of the two ends forward to the channel.\<close>

definition sender_try_send ::
  "('b, 'v) ring_buf_ops \<Rightarrow> 'v \<Rightarrow> ('b, 'v) shared_channel \<Rightarrow>
   (('v try_send_error + unit) \<times> waker list \<times> ('b, 'v) shared_channel) res" where
  "sender_try_send ops v c =
     and_then (channel_try_send ops v (shc_channel c)) (\<lambda>(r, w, ch). Inr (r, w, c\<lparr>shc_channel := ch\<rparr>))"

definition receiver_try_receive ::
  "('b, 'v) ring_buf_ops \<Rightarrow> ('b, 'v) shared_channel \<Rightarrow>
   ((try_receive_error + 'v) \<times> waker list \<times> ('b, 'v) shared_channel) res" where
  "receiver_try_receive ops c =
     and_then (channel_try_receive ops (shc_channel c)) (\<lambda>(r, w, ch). Inr (r, w, c\<lparr>shc_channel := ch\<rparr>))"

definition shared_channel_close ::
  "('b, 'v) shared_channel \<Rightarrow> (close_status \<times> waker list \<times> ('b, 'v) shared_channel) res" where
  "shared_channel_close c =
     and_then (channel_close (shc_channel c)) (\<lambda>(st, w, ch). Inr (st, w, c\<lparr>shc_channel := ch\<rparr>))"

section \<open>A closed channel stays closed\<close>

lemma cp_closed_steps:
  assumes inv: "cp_inv S"
  shows "cp_try_send v S = (r1, S1) \<Longrightarrow> cp_closed S \<longrightarrow> cp_closed S1 \<and> (cp_buf S = [] \<longrightarrow> cp_buf S1 = [])"
    and "cp_poll_send a cx S = (r2, v', w, S2) \<Longrightarrow> cp_closed S \<longrightarrow> cp_closed S2 \<and> (cp_buf S = [] \<longrightarrow> cp_buf S2 = [])"
    and "cp_try_receive S = (r3, S3) \<Longrightarrow> cp_closed S \<longrightarrow> cp_closed S3 \<and> (cp_buf S = [] \<longrightarrow> cp_buf S3 = [])"
    and "cp_poll_recv a cx S = (r4, S4) \<Longrightarrow> cp_closed S \<longrightarrow> cp_closed S4 \<and> (cp_buf S = [] \<longrightarrow> cp_buf S4 = [])"
    and "cp_closed S \<longrightarrow> cp_closed (cp_remove_send a S) \<and> (cp_buf S = [] \<longrightarrow> cp_buf (cp_remove_send a S) = [])"
    and "cp_remove_recv a S = (w', S5) \<Longrightarrow> cp_closed S \<longrightarrow> cp_closed S5 \<and> (cp_buf S = [] \<longrightarrow> cp_buf S5 = [])"
    and "cp_close S = (st, ws, S6) \<Longrightarrow> cp_closed S \<longrightarrow> cp_closed S6 \<and> (cp_buf S = [] \<longrightarrow> cp_buf S6 = [])"
  using cp_invD(4) [OF inv]
  by (auto simp: cp_try_send_def cp_poll_send_def cp_try_receive_def cp_poll_recv_def cp_remove_send_def
      cp_remove_recv_def cp_close_def Let_def split_def dest!: cp_notify_eqD
      split: send_poll_state.splits recv_poll_state.splits list.splits if_splits sum.splits try_receive_error.splits)

text \<open>What a call keeps of a closed channel: it stays closed, and stays empty once it is.\<close>

definition stays_closed :: "('b \<Rightarrow> 'v list) \<Rightarrow> ('b, 'v) channel \<Rightarrow> ('b, 'v) channel \<Rightarrow> bool" where
  "stays_closed items c c' \<longleftrightarrow>
     (ch_is_closed c \<longrightarrow> ch_is_closed c' \<and> (items (ch_buffer c) = [] \<longrightarrow> items (ch_buffer c') = []))"

lemma stays_closedI:
  assumes "channel_abs ops binv items c S" "channel_abs ops binv items c' S'"
    and "cp_closed S \<longrightarrow> cp_closed S' \<and> (cp_buf S = [] \<longrightarrow> cp_buf S' = [])"
  shows "stays_closed items c c'"
  using assms by (auto simp: stays_closed_def channel_abs_def)

lemma stays_closed_nodes [simp]:
  "stays_closed items c (c\<lparr>ch_send_nodes := h\<rparr>)" "stays_closed items c (c\<lparr>ch_recv_nodes := h'\<rparr>)" "stays_closed items c c"
  "stays_closed items c c' \<Longrightarrow> stays_closed items c (c'\<lparr>ch_send_nodes := h\<rparr>)"
  "stays_closed items c c' \<Longrightarrow> stays_closed items c (c'\<lparr>ch_recv_nodes := h'\<rparr>)"
  by (simp_all add: stays_closed_def)

context ring_buf
begin

lemma channel_send_calls_stay_closed:
  assumes sinv: "channel_sys_inv ops binv items s" and enabled: "channel_enabled ops act s"
    and act: "(\<exists>a cx. act = Ch_Poll_Send a cx) \<or> (\<exists>a. act = Ch_Cancel_Send a \<or> act = Ch_Drop_Send a)"
  shows "returns (channel_exec ops act s) (\<lambda>t. stays_closed items (cy_chan s) (cy_chan t))"
proof -
  from sinv obtain S where rep: "channel_sys_rep ops binv items s S" by (auto simp: channel_sys_inv_def)
  note S = channel_sys_repD [OF rep]
  note ok = cp_invD(1,2) [OF S(2)]
  note closed = cp_closed_steps [OF S(2)]
  note keep = stays_closedI [OF S(1)]
  have sends: "\<exists>e. cp_sd S a = Some e \<and> sdf_wait_node f = a \<and>
      (sdf_channel f \<longrightarrow> snd_state e = Sp_Unregistered \<longrightarrow> snd_value e \<noteq> None)"
    if "cy_sends s a = Some f" for a f
    using sends_okD [OF S(3) that] by (auto split: if_splits)
  have take: "returns (channel_take_value a c) (\<lambda>(v, c'). stays_closed items (cy_chan s) c')"
    if "channel_abs ops binv items c (cp_remove_send a S)" "cp_sd S a = Some e" for a c e
  proof -
    from cp_remove_send_frame [OF S(2) that(2)] obtain e' where "cp_sd (cp_remove_send a S) a = Some e'" by auto
    with that(1) keep [OF that(1)] closed(5) [of a] show ?thesis
      by (auto simp: channel_take_value_def channel_abs_def intro!: update_data_wp)
  qed
  show ?thesis
  proof (cases act)
    case (Ch_Poll_Send a cx)
    with enabled obtain f where f: "cy_sends s a = Some f" "sdf_channel f"
      by (auto simp: send_future_is_terminated_def split: option.splits)
    with sends obtain e where e: "cp_sd S a = Some e" "sdf_wait_node f = a"
      "snd_state e = Sp_Unregistered \<Longrightarrow> snd_value e \<noteq> None" by blast
    have finish: "stays_closed items (cy_chan s) c"
      if "channel_abs ops binv items c S'" "cp_poll_send a cx S = (r, v, w, S')" for c S' r v w
      by (rule keep [OF that(1) closed(2) [OF that(2)]])
    from channel_send_or_register_refines [OF S(1) ok(1) e(1,3), of cx] f e(2) Ch_Poll_Send finish show ?thesis
      by (auto simp: send_future_poll_def channel_send_access_def channel_send_or_register_def Let_def
          elim!: returns_mono split: poll.splits option.splits)
  next
    case (Ch_Cancel_Send a)
    with enabled obtain f where f: "cy_sends s a = Some f" by auto
    with sends obtain e where e: "cp_sd S a = Some e" "sdf_wait_node f = a" by blast
    from channel_remove_send_refines [OF S(1) ok(1) e(1)] f e Ch_Cancel_Send take show ?thesis
      by (cases "sdf_channel f")
        (fastforce simp: send_future_cancel_def channel_send_access_def Let_def elim!: returns_mono)+
  next
    case (Ch_Drop_Send a)
    with enabled obtain f where f: "cy_sends s a = Some f" by auto
    with sends obtain e where e: "cp_sd S a = Some e" "sdf_wait_node f = a" by blast
    from channel_remove_send_refines [OF S(1) ok(1) e(1)] f e(2) Ch_Drop_Send closed(5) [of a] show ?thesis
      by (cases "sdf_channel f")
        (auto simp: send_future_drop_def channel_send_access_def elim!: returns_mono intro!: stays_closed_nodes intro: keep)
  qed (use act in auto)
qed

lemma channel_receive_calls_stay_closed:
  assumes sinv: "channel_sys_inv ops binv items s" and enabled: "channel_enabled ops act s"
    and act: "(\<exists>a cx. act = Ch_Poll_Receive a cx) \<or> (\<exists>a. act = Ch_Drop_Receive a)"
  shows "returns (channel_exec ops act s) (\<lambda>t. stays_closed items (cy_chan s) (cy_chan t))"
proof -
  from sinv obtain S where rep: "channel_sys_rep ops binv items s S" by (auto simp: channel_sys_inv_def)
  note S = channel_sys_repD [OF rep]
  note ok = cp_invD(1,2) [OF S(2)]
  note closed = cp_closed_steps [OF S(2)]
  note keep = stays_closedI [OF S(1)]
  have recvs: "\<exists>e. cp_rd S a = Some e \<and> rf_wait_node f = a" if "cy_recvs s a = Some f" for a f
    using recvs_okD [OF S(4) that] by auto
  show ?thesis
  proof (cases act)
    case (Ch_Poll_Receive a cx)
    with enabled obtain f where f: "cy_recvs s a = Some f" "rf_channel f"
      by (auto simp: receive_future_is_terminated_def split: option.splits)
    with recvs obtain e where e: "cp_rd S a = Some e" "rf_wait_node f = a" by blast
    from channel_receive_or_register_refines [OF S(1) ok e(1), of cx] f e(2) Ch_Poll_Receive show ?thesis
      by (auto simp: receive_future_poll_def channel_receive_access_def channel_receive_or_register_def
          elim!: returns_mono intro: keep [OF _ closed(4)] split: poll.splits option.splits)
  next
    case (Ch_Drop_Receive a)
    with enabled obtain f where f: "cy_recvs s a = Some f" by auto
    with recvs obtain e where e: "cp_rd S a = Some e" "rf_wait_node f = a" by blast
    from channel_remove_recv_refines [OF S(1) ok(2) e(1)] f e(2) Ch_Drop_Receive show ?thesis
      by (cases "rf_channel f")
        (auto simp: receive_future_drop_def channel_receive_access_def channel_remove_receive_waiter_def
          elim!: returns_mono intro!: stays_closed_nodes intro: keep [OF _ closed(6)])
  qed (use act in auto)
qed

lemma channel_exec_stays_closed:
  assumes sinv: "channel_sys_inv ops binv items s" and enabled: "channel_enabled ops act s"
  shows "returns (channel_exec ops act s) (\<lambda>t. stays_closed items (cy_chan s) (cy_chan t))"
proof -
  from sinv obtain S where rep: "channel_sys_rep ops binv items s S" by (auto simp: channel_sys_inv_def)
  note S = channel_sys_repD [OF rep]
  note ok = cp_invD(1,2) [OF S(2)]
  note closed = cp_closed_steps [OF S(2)]
  note keep = stays_closedI [OF S(1)]
  show ?thesis
  proof (cases act)
    case (Ch_Try_Send v)
    with enabled S(1) have "0 < cp_cap S" by (auto simp: channel_abs_def word_less_nat_alt)
    from channel_try_send_refines [OF S(1) this, of v] Ch_Try_Send show ?thesis
      by (auto simp: channel_try_send_def elim!: returns_mono intro: keep [OF _ closed(1)] split: sum.splits option.splits)
  next
    case Ch_Try_Receive
    with channel_try_receive_refines [OF S(1) ok(1)] show ?thesis
      by (auto simp: channel_try_receive_def elim!: returns_mono intro: keep [OF _ closed(3)] split: sum.splits)
  next
    case Ch_Close
    have "ll_is_empty (ch_send_waiters (cy_chan s)) = Inr (cp_send S = [])"
      using S(1) by (auto simp: channel_abs_def)
    with channel_close_refines [OF S(1)] Ch_Close show ?thesis
      by (auto elim!: returns_mono intro: keep [OF _ closed(7)])
  qed (use channel_send_calls_stay_closed [OF sinv enabled] channel_receive_calls_stay_closed [OF sinv enabled] in
      \<open>auto simp: channel_send_def channel_receive_def\<close>)
qed

text \<open>\<open>clear\<close> empties the buffer and changes nothing else.\<close>

lemma channel_clear_loop_correct:
  "binv b \<Longrightarrow> \<exists>b'. channel_clear_loop ops b = Some (Inr b') \<and> binv b' \<and> items b' = [] \<and>
     rb_capacity ops b' = rb_capacity ops b"
proof (induction "items b" arbitrary: b)
  case Nil
  then show ?case by (simp add: channel_clear_loop.simps is_empty_iff)
next
  case (Cons x xs)
  from Cons.hyps(2) [symmetric] Cons.prems have "\<not> rb_is_empty ops b" by (simp add: is_empty_iff)
  moreover from pop_law [OF Cons.prems Cons.hyps(2) [symmetric]] obtain b' where
    "rb_pop ops b = Inr (x, b')" "binv b'" "items b' = xs" "rb_capacity ops b' = rb_capacity ops b"
    by (auto simp: returns_iff)
  ultimately show ?case
    using Cons.hyps(1) [of b'] by (simp add: channel_clear_loop.simps [of ops b])
qed

lemma channel_clear_refines:
  assumes "channel_abs ops binv items c S"
  shows "returns (channel_clear ops c) (\<lambda>c'. channel_abs ops binv items c' (S\<lparr>cp_buf := []\<rparr>))"
proof -
  from assms have "binv (ch_buffer c)" by (simp add: channel_abs_def)
  from channel_clear_loop_correct [OF this] assms show ?thesis
    by (auto simp: channel_clear_def channel_abs_def run_loop_def)
qed

end

section \<open>The system of handles\<close>

text \<open>
  The system of \<open>Mpmc_System\<close> with the two counts, and the numbers of sender and receiver handles
  that are alive.
\<close>

record ('b, 'v) handle_sys =
  hy_sys :: "('b, 'v) channel_sys"
  hy_senders :: usize
  hy_receivers :: usize
  hy_sender_handles :: nat
  hy_receiver_handles :: nat

datatype 'v handle_action =
    Hd_Call "'v channel_action"
  | Hd_Clone_Sender
  | Hd_Drop_Sender
  | Hd_Clone_Receiver
  | Hd_Drop_Receiver

definition handle_view :: "('b, 'v) handle_sys \<Rightarrow> ('b, 'v) shared_channel" where
  "handle_view s =
     \<lparr>shc_channel = cy_chan (hy_sys s), shc_senders = hy_senders s, shc_receivers = hy_receivers s\<rparr>"

definition handle_put :: "('b, 'v) shared_channel \<Rightarrow> ('b, 'v) handle_sys \<Rightarrow> ('b, 'v) handle_sys" where
  "handle_put c s =
     s\<lparr>hy_sys := (hy_sys s)\<lparr>cy_chan := shc_channel c\<rparr>, hy_senders := shc_senders c, hy_receivers := shc_receivers c\<rparr>"

definition handle_start :: "('b, 'v) ring_buf_ops \<Rightarrow> usize \<Rightarrow> ('b, 'v) handle_sys" where
  "handle_start ops capacity =
     (case shared_channel_new ops capacity of c \<Rightarrow>
        \<lparr>hy_sys = channel_sys_new (shc_channel c), hy_senders = shc_senders c, hy_receivers = shc_receivers c,
         hy_sender_handles = 1, hy_receiver_handles = 1\<rparr>)"

text \<open>
  Sending needs a sender, receiving a receiver, closing either of them; futures work without.
  A handle is cloned while there are at most \<open>isize::MAX\<close> of its kind: the code panics beyond.
\<close>

fun handle_needs :: "'v channel_action \<Rightarrow> ('b, 'v) handle_sys \<Rightarrow> bool" where
  "handle_needs (Ch_Send a v) s = (0 < hy_sender_handles s)"
| "handle_needs (Ch_Try_Send v) s = (0 < hy_sender_handles s)"
| "handle_needs (Ch_Receive a) s = (0 < hy_receiver_handles s)"
| "handle_needs Ch_Try_Receive s = (0 < hy_receiver_handles s)"
| "handle_needs Ch_Close s = (0 < hy_sender_handles s \<or> 0 < hy_receiver_handles s)"
| "handle_needs act s = True"

fun handle_enabled :: "('b, 'v) ring_buf_ops \<Rightarrow> 'v handle_action \<Rightarrow> ('b, 'v) handle_sys \<Rightarrow> bool" where
  "handle_enabled ops (Hd_Call act) s = (channel_enabled ops act (hy_sys s) \<and> handle_needs act s)"
| "handle_enabled ops Hd_Clone_Sender s = (0 < hy_sender_handles s \<and> hy_sender_handles s < 2 ^ 63)"
| "handle_enabled ops Hd_Drop_Sender s = (0 < hy_sender_handles s)"
| "handle_enabled ops Hd_Clone_Receiver s = (0 < hy_receiver_handles s \<and> hy_receiver_handles s < 2 ^ 63)"
| "handle_enabled ops Hd_Drop_Receiver s = (0 < hy_receiver_handles s)"

fun handle_exec ::
  "('b, 'v) ring_buf_ops \<Rightarrow> 'v handle_action \<Rightarrow> ('b, 'v) handle_sys \<Rightarrow> ('b, 'v) handle_sys res" where
  "handle_exec ops (Hd_Call act) s =
     and_then (channel_exec ops act (hy_sys s)) (\<lambda>t. Inr (s\<lparr>hy_sys := t\<rparr>))"
| "handle_exec ops Hd_Clone_Sender s =
     and_then (sender_clone (handle_view s)) (\<lambda>c.
     Inr ((handle_put c s)\<lparr>hy_sender_handles := hy_sender_handles s + 1\<rparr>))"
| "handle_exec ops Hd_Drop_Sender s =
     and_then (sender_drop (handle_view s)) (\<lambda>(w, c).
     and_then (ll_is_empty (ch_send_waiters (cy_chan (hy_sys s)))) (\<lambda>nobody.
     let s = handle_put c s in
     Inr (s\<lparr>hy_sys := (hy_sys s)\<lparr>cy_woken := cy_woken (hy_sys s) @ w, cy_intact := (cy_intact (hy_sys s) \<and> nobody)\<rparr>,
            hy_sender_handles := hy_sender_handles s - 1\<rparr>)))"
| "handle_exec ops Hd_Clone_Receiver s =
     and_then (receiver_clone (handle_view s)) (\<lambda>c.
     Inr ((handle_put c s)\<lparr>hy_receiver_handles := hy_receiver_handles s + 1\<rparr>))"
| "handle_exec ops Hd_Drop_Receiver s =
     and_then (receiver_drop ops (handle_view s)) (\<lambda>(w, c).
     let s = handle_put c s in
     Inr (s\<lparr>hy_sys := (hy_sys s)\<lparr>cy_woken := cy_woken (hy_sys s) @ w,
              cy_intact := (cy_intact (hy_sys s) \<and> hy_receiver_handles s \<noteq> 1)\<rparr>,
            hy_receiver_handles := hy_receiver_handles s - 1\<rparr>))"

definition handle_inv ::
  "('b, 'v) ring_buf_ops \<Rightarrow> ('b \<Rightarrow> bool) \<Rightarrow> ('b \<Rightarrow> 'v list) \<Rightarrow> ('b, 'v) handle_sys \<Rightarrow> bool" where
  "handle_inv ops binv items s \<longleftrightarrow> channel_sys_inv ops binv items (hy_sys s) \<and>
     unat (hy_senders s) = hy_sender_handles s \<and> hy_sender_handles s \<le> 2 ^ 63 \<and>
     unat (hy_receivers s) = hy_receiver_handles s \<and> hy_receiver_handles s \<le> 2 ^ 63 \<and>
     (hy_sender_handles s = 0 \<longrightarrow> ch_is_closed (cy_chan (hy_sys s))) \<and>
     (hy_receiver_handles s = 0 \<longrightarrow>
        ch_is_closed (cy_chan (hy_sys s)) \<and> items (ch_buffer (cy_chan (hy_sys s))) = [])"

abbreviation handle_reachable :: "('b, 'v) ring_buf_ops \<Rightarrow> ('b, 'v) handle_sys \<Rightarrow> bool" where
  "handle_reachable ops \<equiv>
     reach (\<lambda>s. \<exists>capacity. s = handle_start ops capacity) (handle_enabled ops) (handle_exec ops)"

text \<open>Closing and clearing the channel of a system, with the waiting sends withdrawn.\<close>

lemma channel_close_sys_inv:
  assumes "channel_sys_inv ops binv items s"
  shows "returns (channel_close (cy_chan s)) (\<lambda>(st, w, c). ch_is_closed c \<and>
    items (ch_buffer c) = items (ch_buffer (cy_chan s)) \<and>
    (\<exists>nobody. ll_is_empty (ch_send_waiters (cy_chan s)) = Inr nobody \<and>
       (\<forall>ws. channel_sys_inv ops binv items (s\<lparr>cy_chan := c, cy_woken := ws, cy_intact := (cy_intact s \<and> nobody)\<rparr>))))"
proof -
  from assms obtain S where rep: "channel_sys_rep ops binv items s S" by (auto simp: channel_sys_inv_def)
  note S = channel_sys_repD [OF rep]
  have empty: "ll_is_empty (ch_send_waiters (cy_chan s)) = Inr (cp_send S = [])"
    using S(1) by (auto simp: channel_abs_def)
  have buf: "ch_is_closed c \<and> items (ch_buffer c) = items (ch_buffer (cy_chan s))"
    if "cp_close S = (st, w, S')" "channel_abs ops binv items c S'" for st w c S'
    using that S(1) by (auto simp: cp_close_def channel_abs_def split: if_splits)
  from channel_close_refines [OF S(1)] obtain st w c S' where
    run: "channel_close (cy_chan s) = Inr (st, w, c)" "cp_close S = (st, w, S')" "channel_abs ops binv items c S'"
    by (auto simp: returns_iff)
  with channel_close_preserves [OF rep] empty
  have "channel_sys_inv ops binv items (s\<lparr>cy_chan := c, cy_woken := cy_woken s @ w,
      cy_intact := (cy_intact s \<and> cp_send S = [])\<rparr>)" by simp
  then have "channel_sys_inv ops binv items (s\<lparr>cy_chan := c, cy_woken := ws,
      cy_intact := (cy_intact s \<and> cp_send S = [])\<rparr>)" for ws
    by (simp add: channel_sys_inv_def channel_sys_rep_def)
  with run empty buf [OF run(2,3)] show ?thesis by simp
qed

lemma channel_clear_sys_inv:
  assumes "ring_buf ops binv items" "channel_sys_inv ops binv items s" "ch_is_closed (cy_chan s)"
  shows "returns (channel_clear ops (cy_chan s)) (\<lambda>c. ch_is_closed c \<and> items (ch_buffer c) = [] \<and>
    (\<forall>ws. channel_sys_inv ops binv items (s\<lparr>cy_chan := c, cy_woken := ws, cy_intact := False\<rparr>)))"
proof -
  from assms(2) obtain S where rep: "channel_sys_rep ops binv items s S" by (auto simp: channel_sys_inv_def)
  note S = channel_sys_repD [OF rep]
  from S(1) assms(3) cp_invD(4) [OF S(2)] have closed: "cp_closed S" "cp_recv S = []" "cp_send S = []"
    by (simp_all add: channel_abs_def)
  have inv: "cp_inv (S\<lparr>cp_buf := []\<rparr>)"
    using S(2) closed by (auto simp: cp_inv_def cp_senders_ok_def cp_wakeups_ok_def)
  have "subseq (cy_received s) (cy_accepted s)"
    by (rule subseq_order.trans [OF prefix_imp_subseq S(5)]) simp
  then have sinv: "channel_sys_inv ops binv items (s\<lparr>cy_chan := c, cy_woken := ws, cy_intact := False\<rparr>)"
    if "channel_abs ops binv items c (S\<lparr>cp_buf := []\<rparr>)" for c ws
    using that inv S closed(3)
    by (intro channel_sys_repI [where S = "S\<lparr>cp_buf := []\<rparr>"]) (auto simp: cp_contents_def)
  show ?thesis
    by (rule returns_mono [OF ring_buf.channel_clear_refines [OF assms(1) S(1)]])
      (use sinv closed in \<open>auto simp: channel_abs_def\<close>)
qed

context ring_buf
begin

lemma handle_call_preserves:
  assumes inv: "handle_inv ops binv items s" and enabled: "handle_enabled ops (Hd_Call act) s"
  shows "returns (handle_exec ops (Hd_Call act) s) (handle_inv ops binv items)"
proof -
  from inv have sinv: "channel_sys_inv ops binv items (hy_sys s)" by (simp add: handle_inv_def)
  from enabled have "channel_enabled ops act (hy_sys s)" by simp
  from channel_exec_preserves [OF sinv this] channel_exec_stays_closed [OF sinv this] inv show ?thesis
    by (auto simp: handle_inv_def stays_closed_def returns_iff)
qed

lemma handle_sender_drop_preserves:
  assumes inv: "handle_inv ops binv items s" and some: "0 < hy_sender_handles s"
  shows "returns (handle_exec ops Hd_Drop_Sender s) (handle_inv ops binv items)"
proof -
  from inv have sinv: "channel_sys_inv ops binv items (hy_sys s)" and n: "unat (hy_senders s) = hy_sender_handles s"
    by (simp_all add: handle_inv_def)
  have down: "unat (hy_senders s - 1) = hy_sender_handles s - 1" using n some by (simp add: count_down)
  have last: "hy_senders s = 1 \<longleftrightarrow> hy_sender_handles s = 1"
    using n by (simp add: word_unat_eq_iff)
  from channel_close_sys_inv [OF sinv] obtain st w c nobody where
    close: "channel_close (cy_chan (hy_sys s)) = Inr (st, w, c)" "ch_is_closed c"
      "items (ch_buffer c) = items (ch_buffer (cy_chan (hy_sys s)))"
      "ll_is_empty (ch_send_waiters (cy_chan (hy_sys s))) = Inr nobody"
      "\<And>ws. channel_sys_inv ops binv items ((hy_sys s)\<lparr>cy_chan := c, cy_woken := ws, cy_intact := (cy_intact (hy_sys s) \<and> nobody)\<rparr>)"
    by (auto simp: returns_iff)
  have keep: "channel_sys_inv ops binv items ((hy_sys s)\<lparr>cy_intact := (cy_intact (hy_sys s) \<and> nobody)\<rparr>)"
    using sinv by (auto simp: channel_sys_inv_def channel_sys_rep_def)
  show ?thesis
    using close inv down last some keep
    by (auto simp: sender_drop_def handle_view_def handle_put_def handle_inv_def Let_def)
qed

lemma handle_receiver_drop_preserves:
  assumes inv: "handle_inv ops binv items s" and some: "0 < hy_receiver_handles s"
  shows "returns (handle_exec ops Hd_Drop_Receiver s) (handle_inv ops binv items)"
proof -
  from inv have sinv: "channel_sys_inv ops binv items (hy_sys s)" and n: "unat (hy_receivers s) = hy_receiver_handles s"
    by (simp_all add: handle_inv_def)
  have down: "unat (hy_receivers s - 1) = hy_receiver_handles s - 1" using n some by (simp add: count_down)
  have last: "hy_receivers s = 1 \<longleftrightarrow> hy_receiver_handles s = 1"
    using n by (simp add: word_unat_eq_iff)
  from channel_close_sys_inv [OF sinv] obtain st w c nobody where
    close: "channel_close (cy_chan (hy_sys s)) = Inr (st, w, c)" "ch_is_closed c"
      "\<And>ws. channel_sys_inv ops binv items ((hy_sys s)\<lparr>cy_chan := c, cy_woken := ws, cy_intact := (cy_intact (hy_sys s) \<and> nobody)\<rparr>)"
    by (auto simp: returns_iff)
  from channel_clear_sys_inv [OF ring_buf_axioms close(3), of "[]"] close(2) obtain c' where
    clear: "channel_clear ops c = Inr c'" "ch_is_closed c'" "items (ch_buffer c') = []"
      "\<And>ws. channel_sys_inv ops binv items ((hy_sys s)\<lparr>cy_chan := c', cy_woken := ws, cy_intact := False\<rparr>)"
    by (auto simp: returns_iff)
  show ?thesis
    using close(1) clear inv down last some
    by (auto simp: receiver_drop_def handle_view_def handle_put_def handle_inv_def Let_def)
qed

lemma handle_clone_preserves:
  assumes inv: "handle_inv ops binv items s"
  shows "0 < hy_sender_handles s \<Longrightarrow> hy_sender_handles s < 2 ^ 63 \<Longrightarrow>
      returns (handle_exec ops Hd_Clone_Sender s) (handle_inv ops binv items)"
    and "0 < hy_receiver_handles s \<Longrightarrow> hy_receiver_handles s < 2 ^ 63 \<Longrightarrow>
      returns (handle_exec ops Hd_Clone_Receiver s) (handle_inv ops binv items)"
  using inv count_up [of "hy_senders s"] count_up [of "hy_receivers s"]
  by (auto simp: sender_clone_def receiver_clone_def handle_view_def handle_put_def handle_inv_def Let_def)

lemma handle_exec_preserves:
  assumes "handle_inv ops binv items s" "handle_enabled ops act s"
  shows "returns (handle_exec ops act s) (handle_inv ops binv items)"
  using assms(2) handle_call_preserves [OF assms(1)] handle_sender_drop_preserves [OF assms(1)]
    handle_receiver_drop_preserves [OF assms(1)] handle_clone_preserves [OF assms(1)]
  by (cases act) (auto simp del: handle_exec.simps)

lemma handle_start_inv: "handle_inv ops binv items (handle_start ops capacity)"
  using channel_started_inv [of "channel_sys_new (channel_with_capacity ops capacity)"]
  by (auto simp: handle_inv_def handle_start_def shared_channel_new_def channel_started_def)

end

sublocale ring_buf \<subseteq> hds: transition_system "\<lambda>s. \<exists>capacity. s = handle_start ops capacity"
    "handle_enabled ops" "handle_exec ops" "handle_inv ops binv items"
  by unfold_locales (auto simp: handle_start_inv simp del: handle_exec.simps handle_enabled.simps
      intro: handle_exec_preserves)

context ring_buf
begin

lemma handle_reach_inv: "handle_reachable ops s \<Longrightarrow> handle_inv ops binv items s"
  by (rule hds.reach_inv)

lemma handle_runs: "handle_reachable ops s \<Longrightarrow> handle_enabled ops act s \<Longrightarrow> \<exists>t. handle_exec ops act s = Inr t"
  using hds.no_fault by blast

end

section \<open>Properties of the handles\<close>

text \<open>
  The shared channel is closed as soon as all senders or all receivers are gone, and without
  receivers it holds no items; the counts are the numbers of handles that are alive, and no call
  faults.
\<close>

theorem shared_channel_closes:
  assumes "ring_buf ops binv items" "handle_reachable ops s"
  shows "unat (hy_senders s) = hy_sender_handles s \<and> unat (hy_receivers s) = hy_receiver_handles s \<and>
    (hy_sender_handles s = 0 \<longrightarrow> ch_is_closed (cy_chan (hy_sys s))) \<and>
    (hy_receiver_handles s = 0 \<longrightarrow>
       ch_is_closed (cy_chan (hy_sys s)) \<and> items (ch_buffer (cy_chan (hy_sys s))) = []) \<and>
    (handle_enabled ops act s \<longrightarrow> (\<exists>t. handle_exec ops act s = Inr t))"
  using ring_buf.handle_reach_inv [OF assms] ring_buf.handle_runs [OF assms, of act]
  by (auto simp: handle_inv_def)

lemma handle_demo_run:
  "\<exists>s. exec_all (handle_enabled fixed_heap_buf_ops) (handle_exec fixed_heap_buf_ops)
     [Hd_Clone_Sender, Hd_Call (Ch_Try_Send (7 :: nat)), Hd_Drop_Sender, Hd_Drop_Receiver] (handle_start fixed_heap_buf_ops 2) = Some s \<and>
   hy_sender_handles s = 1 \<and> hy_receiver_handles s = 0"
  by (simp add: handle_start_def shared_channel_new_def channel_try_send_def channel_state_try_send_def
      sender_clone_def sender_drop_def receiver_drop_def handle_view_def handle_put_def 
      channel_close_def channel_clear_def channel_clear_loop.simps wake_recv_waiters_def wake_send_waiters_def
      channel_eval ll_eval)

theorem shared_channel_closes_witness:
  "\<exists>s :: (nat fixed_heap_buf, nat) handle_sys. hy_sender_handles s = 1 \<and>
     ch_is_closed (cy_chan (hy_sys s)) \<and> fb_buffer (ch_buffer (cy_chan (hy_sys s))) = []"
proof -
  from handle_demo_run obtain s :: "(nat fixed_heap_buf, nat) handle_sys" where
    s: "exec_all (handle_enabled fixed_heap_buf_ops) (handle_exec fixed_heap_buf_ops)
     [Hd_Clone_Sender, Hd_Call (Ch_Try_Send 7), Hd_Drop_Sender, Hd_Drop_Receiver] (handle_start fixed_heap_buf_ops 2) = Some s"
    "hy_sender_handles s = 1" "hy_receiver_handles s = 0" by blast
  have "handle_reachable fixed_heap_buf_ops s"
    by (rule exec_all_reach [OF s(1) reach_init]) blast
  from shared_channel_closes [OF fixed_ring.ring_buf_axioms this] s(2,3) show ?thesis by blast
qed

end
