(* ===== verification/Oneshot.thy ===== *)
theory Oneshot
  imports Channel_Future
begin

text \<open>
  The oneshot channel of \<^verbatim>\<open>src/channel/oneshot.rs\<close>: one value is written, the tasks that wait for
  it are woken, and one of them takes it. The state, the specification and the system of futures
  are stated for any channel that holds a single value, in the locale \<open>value_channel\<close>; the
  oneshot channel is an interpretation of it, the broadcast variant another one.
\<close>

section \<open>ChannelState\<close>

text \<open>The state of the channel with the store of the wait nodes of its futures.\<close>

record 'v oneshot_state =
  os_is_fulfilled :: bool
  os_value :: "'v option"
  os_waiters :: linked_list
  os_nodes :: "recv_waiter store"

definition oneshot_state_new :: "'v oneshot_state" where
  "oneshot_state_new =
     \<lparr>os_is_fulfilled = False, os_value = None, os_waiters = ll_new, os_nodes = Map.empty\<rparr>"

definition oneshot_wake_waiter :: "recv_waiter \<Rightarrow> waker list \<Rightarrow> recv_waiter \<times> waker list" where
  "oneshot_wake_waiter waiter woken =
     (waiter\<lparr>rw_task := None, rw_state := Rp_Unregistered\<rparr>, woken @ wake_opt (rw_task waiter))"

definition oneshot_wake_waiters :: "'v oneshot_state \<Rightarrow> (waker list \<times> 'v oneshot_state) res" where
  "oneshot_wake_waiters c =
     and_then (ll_reverse_drain oneshot_wake_waiter (os_waiters c) (os_nodes c) []) (\<lambda>(l, h, w).
     Inr (w, c\<lparr>os_waiters := l, os_nodes := h\<rparr>))"

definition oneshot_send ::
  "'v \<Rightarrow> 'v oneshot_state \<Rightarrow> (('v channel_send_error + unit) \<times> waker list \<times> 'v oneshot_state) res" where
  "oneshot_send v c =
     (if os_is_fulfilled c then Inr (Inl (Channel_Send_Error v), [], c)
      else let c = c\<lparr>os_value := Some v\<rparr>; c = c\<lparr>os_is_fulfilled := True\<rparr> in
           and_then (oneshot_wake_waiters c) (\<lambda>(w, c). Inr (Inr (), w, c)))"

definition oneshot_close :: "'v oneshot_state \<Rightarrow> (close_status \<times> waker list \<times> 'v oneshot_state) res" where
  "oneshot_close c =
     (if os_is_fulfilled c then Inr (Already_Closed, [], c)
      else let c = c\<lparr>os_is_fulfilled := True\<rparr> in
           and_then (oneshot_wake_waiters c) (\<lambda>(w, c). Inr (Newly_Closed, w, c)))"

definition oneshot_try_receive ::
  "addr \<Rightarrow> waker \<Rightarrow> 'v oneshot_state \<Rightarrow> ('v option poll \<times> 'v oneshot_state) res" where
  "oneshot_try_receive wait_node cx c =
     and_then (read_data (os_nodes c) wait_node) (\<lambda>e.
     case rw_state e of
       Rp_Unregistered \<Rightarrow>
         (let maybe_val = os_value c; c = c\<lparr>os_value := None\<rparr> in
          case maybe_val of
            Some v \<Rightarrow> Inr (Ready (Some v), c)
          | None \<Rightarrow>
              if os_is_fulfilled c then Inr (Ready None, c)
              else and_then (update_data wait_node
                               (\<lambda>e. e\<lparr>rw_task := Some cx, rw_state := Rp_Registered\<rparr>) (os_nodes c)) (\<lambda>h.
                   and_then (ll_add_front (os_waiters c) wait_node h) (\<lambda>(l, h).
                   Inr (Pending, c\<lparr>os_waiters := l, os_nodes := h\<rparr>))))
     | Rp_Registered \<Rightarrow>
         and_then (update_data wait_node (rw_task_update (\<lambda>t. update_waker_ref t cx)) (os_nodes c)) (\<lambda>h.
         Inr (Pending, c\<lparr>os_nodes := h\<rparr>))
     | Rp_Notified \<Rightarrow> Inl (Panic ''Not possible for Oneshot''))"

definition oneshot_remove_waiter :: "addr \<Rightarrow> 'v oneshot_state \<Rightarrow> 'v oneshot_state res" where
  "oneshot_remove_waiter wait_node c =
     and_then (read_data (os_nodes c) wait_node) (\<lambda>e.
     if rw_state e = Rp_Registered
     then and_then (ll_remove (os_waiters c) wait_node (os_nodes c)) (\<lambda>(removed, l, h).
          if \<not> removed then Inl (Panic ''Future could not be removed from wait queue'')
          else and_then (update_data wait_node (rw_state_update (\<lambda>_. Rp_Unregistered)) h) (\<lambda>h.
               Inr (c\<lparr>os_waiters := l, os_nodes := h\<rparr>)))
     else Inr c)"

text \<open>\<open>receive\<close> makes a future; the channel gives its futures access to these two operations.\<close>

definition oneshot_receive :: "addr \<Rightarrow> receive_future \<times> recv_waiter list_node" where
  "oneshot_receive a = (\<lparr>rf_channel = True, rf_wait_node = a\<rparr>, list_node_new recv_waiter_new)"

definition oneshot_receive_access :: "('v oneshot_state, 'v) receive_access" where
  "oneshot_receive_access =
     \<lparr>ra_receive_or_register = (\<lambda>wait_node cx c.
        and_then (oneshot_try_receive wait_node cx c) (\<lambda>(r, c). Inr (r, [], c))),
      ra_remove_receive_waiter = (\<lambda>wait_node c.
        and_then (oneshot_remove_waiter wait_node c) (\<lambda>c. Inr ([], c)))\<rparr>"

text \<open>The shared variant: dropping the sender or the receiver closes the channel.\<close>

definition oneshot_sender_drop :: "'v oneshot_state \<Rightarrow> (waker list \<times> 'v oneshot_state) res" where
  "oneshot_sender_drop c = and_then (oneshot_close c) (\<lambda>(_, w, c). Inr (w, c))"

definition oneshot_receiver_drop :: "'v oneshot_state \<Rightarrow> (waker list \<times> 'v oneshot_state) res" where
  "oneshot_receiver_drop c = and_then (oneshot_close c) (\<lambda>(_, w, c). Inr (w, c))"

section \<open>The specification\<close>

record 'v value_spec =
  vs_fulfilled :: bool
  vs_value :: "'v option"
  vs_queue :: "addr list"
  vs_data :: "addr \<rightharpoonup> recv_waiter"

definition value_abs :: "'v oneshot_state \<Rightarrow> 'v value_spec \<Rightarrow> bool" where
  "value_abs c S \<longleftrightarrow> os_is_fulfilled c = vs_fulfilled S \<and> os_value c = vs_value S \<and>
     ll_rep (os_nodes c) (os_waiters c) (vs_queue S) \<and> data_of (os_nodes c) = vs_data S"

text \<open>The wakers of the waiting futures, the oldest first, and the channel after it was fulfilled.\<close>

definition vs_wakers :: "'v value_spec \<Rightarrow> waker list" where
  "vs_wakers S = concat (map (\<lambda>a. wake_opt (rw_task (the (vs_data S a)))) (rev (vs_queue S)))"

definition vs_fulfil :: "'v option \<Rightarrow> 'v value_spec \<Rightarrow> 'v value_spec" where
  "vs_fulfil v S =
     S\<lparr>vs_fulfilled := True, vs_value := v, vs_queue := [],
       vs_data := (\<lambda>a. if a \<in> set (vs_queue S)
         then map_option (\<lambda>e. e\<lparr>rw_task := None, rw_state := Rp_Unregistered\<rparr>) (vs_data S a) else vs_data S a)\<rparr>"

text \<open>Receiving leaves \<open>keep v\<close> of the value behind.\<close>

definition vs_poll ::
  "('v \<Rightarrow> 'v option) \<Rightarrow> addr \<Rightarrow> waker \<Rightarrow> 'v value_spec \<Rightarrow> 'v option poll \<times> 'v value_spec" where
  "vs_poll keep a cx S =
     (let e = the (vs_data S a) in
      if rw_state e = Rp_Registered then (Pending, S\<lparr>vs_data := (vs_data S)(a \<mapsto> e\<lparr>rw_task := Some cx\<rparr>)\<rparr>)
      else case vs_value S of
             Some v \<Rightarrow> (Ready (Some v), S\<lparr>vs_value := keep v\<rparr>)
           | None \<Rightarrow>
               if vs_fulfilled S then (Ready None, S)
               else (Pending, S\<lparr>vs_queue := a # vs_queue S,
                       vs_data := (vs_data S)(a \<mapsto> e\<lparr>rw_task := Some cx, rw_state := Rp_Registered\<rparr>)\<rparr>))"

definition vs_remove :: "addr \<Rightarrow> 'v value_spec \<Rightarrow> 'v value_spec" where
  "vs_remove a S =
     (let e = the (vs_data S a) in
      if rw_state e = Rp_Registered
      then S\<lparr>vs_queue := remove1 a (vs_queue S), vs_data := (vs_data S)(a \<mapsto> e\<lparr>rw_state := Rp_Unregistered\<rparr>)\<rparr>
      else S)"

text \<open>
  Futures wait, with their wakers, exactly while they are registered, and only as long as the
  channel is not fulfilled; before that there is no value.
\<close>

definition vs_inv :: "'v value_spec \<Rightarrow> bool" where
  "vs_inv S \<longleftrightarrow> distinct (vs_queue S) \<and> set (vs_queue S) \<subseteq> dom (vs_data S) \<and>
     (\<forall>a e. vs_data S a = Some e \<longrightarrow> rw_state e \<noteq> Rp_Notified \<and>
        (a \<in> set (vs_queue S) \<longleftrightarrow> rw_state e = Rp_Registered) \<and>
        (rw_state e = Rp_Registered \<longrightarrow> rw_task e \<noteq> None)) \<and>
     (if vs_fulfilled S then vs_queue S = [] else vs_value S = None)"

section \<open>Refinement\<close>

lemma oneshot_wake_waiters_wp:
  assumes "ll_rep (os_nodes c) (os_waiters c) (vs_queue S)" "data_of (os_nodes c) = vs_data S"
    and "os_is_fulfilled c"
    and "\<And>c'. value_abs c' (vs_fulfil (os_value c) S) \<Longrightarrow> Q (vs_wakers S, c')"
  shows "returns (oneshot_wake_waiters c) Q"
proof -
  have "returns (ll_reverse_drain oneshot_wake_waiter (os_waiters c) (os_nodes c) []) (\<lambda>(l, h, w).
      ll_rep h l [] \<and> data_of h = vs_data (vs_fulfil (os_value c) S) \<and> w = vs_wakers S)"
    by (rule lq.take_all_wp [OF assms(1), where w = "\<lambda>e. wake_opt (rw_task e)"])
      (auto simp: oneshot_wake_waiter_def assms(2) vs_fulfil_def vs_wakers_def cong: if_cong)
  then show ?thesis
    using assms(3,4) by (auto simp: oneshot_wake_waiters_def value_abs_def vs_fulfil_def elim!: returns_mono)
qed

lemma oneshot_send_refines:
  assumes "value_abs c S"
  shows "returns (oneshot_send v c) (\<lambda>(r, w, c').
    if vs_fulfilled S then r = Inl (Channel_Send_Error v) \<and> w = [] \<and> c' = c
    else r = Inr () \<and> w = vs_wakers S \<and> value_abs c' (vs_fulfil (Some v) S))"
  using assms
  by (auto simp: oneshot_send_def value_abs_def Let_def intro!: oneshot_wake_waiters_wp [where S = S])

lemma oneshot_close_refines:
  assumes "value_abs c S"
  shows "returns (oneshot_close c) (\<lambda>(r, w, c').
    if vs_fulfilled S then r = Already_Closed \<and> w = [] \<and> c' = c
    else r = Newly_Closed \<and> w = vs_wakers S \<and> value_abs c' (vs_fulfil (vs_value S) S))"
  using assms
  by (auto simp: oneshot_close_def value_abs_def Let_def intro!: oneshot_wake_waiters_wp [where S = S])

lemma oneshot_try_receive_refines:
  assumes abs: "value_abs c S" and inv: "vs_inv S" and e: "vs_data S a = Some e"
  shows "returns (oneshot_try_receive a cx c)
    (\<lambda>(r, c'). \<exists>S'. vs_poll (\<lambda>_. None) a cx S = (r, S') \<and> value_abs c' S')"
proof -
  from inv e have "rw_state e \<noteq> Rp_Notified" "a \<in> set (vs_queue S) \<longleftrightarrow> rw_state e = Rp_Registered"
    by (auto simp: vs_inv_def)
  with abs e show ?thesis
    by (cases "rw_state e") (auto simp: oneshot_try_receive_def vs_poll_def value_abs_def Let_def
        split: option.splits intro!: update_data_wp ll_add_front_wp)
qed

lemma oneshot_remove_refines:
  assumes abs: "value_abs c S" and inv: "vs_inv S" and e: "vs_data S a = Some e"
  shows "returns (oneshot_remove_waiter a c) (\<lambda>c'. value_abs c' (vs_remove a S))"
proof -
  from inv e have "a \<in> set (vs_queue S) \<longleftrightarrow> rw_state e = Rp_Registered" by (auto simp: vs_inv_def)
  with abs e show ?thesis
    by (auto simp: oneshot_remove_waiter_def vs_remove_def value_abs_def Let_def intro!: lq.leave_wp update_data_wp)
qed

section \<open>The specification keeps its invariant\<close>

lemma vs_fulfil_inv: "vs_inv S \<Longrightarrow> vs_inv (vs_fulfil v S)"
  by (auto simp: vs_inv_def vs_fulfil_def)

lemma vs_poll_inv:
  assumes "vs_inv S" "vs_data S a = Some e" "vs_poll keep a cx S = (r, S')"
  shows "vs_inv S'"
  using assms by (auto simp: vs_inv_def vs_poll_def Let_def split: if_splits option.splits)

lemma vs_remove_inv:
  assumes "vs_inv S" "vs_data S a = Some e"
  shows "vs_inv (vs_remove a S)"
  using assms by (auto simp: vs_inv_def vs_remove_def Let_def dest: notin_set_remove1)

lemma vs_fulfil_frame: "vs_inv S \<Longrightarrow> recv_frame (vs_data S) (vs_data (vs_fulfil v S))"
  by (fastforce simp: vs_inv_def vs_fulfil_def recv_frame_def split: if_splits)

lemma vs_poll_frame:
  assumes "vs_inv S" "vs_data S a = Some e" "vs_poll keep a cx S = (r, S')"
  shows "\<exists>e'. vs_data S' = (vs_data S)(a \<mapsto> e') \<and> (r = Pending \<or> rw_state e' = Rp_Unregistered)"
proof -
  have "\<exists>e'. vs_data S = (vs_data S)(a \<mapsto> e') \<and> e' = e" using assms(2) by auto
  moreover have "rw_state e = Rp_Registered \<or> rw_state e = Rp_Unregistered"
    using assms(1,2) by (cases "rw_state e") (auto simp: vs_inv_def)
  ultimately show ?thesis
    using assms(2,3) by (auto simp: vs_poll_def Let_def split: if_splits option.splits)
qed

lemma vs_remove_frame:
  assumes "vs_inv S" "vs_data S a = Some e"
  shows "\<exists>e'. vs_data (vs_remove a S) = (vs_data S)(a \<mapsto> e') \<and> rw_state e' = Rp_Unregistered \<and>
    a \<notin> set (vs_queue (vs_remove a S))"
proof -
  have "\<exists>e'. vs_data S = (vs_data S)(a \<mapsto> e') \<and> e' = e" using assms(2) by auto
  moreover have "rw_state e = Rp_Registered \<or> rw_state e = Rp_Unregistered"
    using assms(1,2) by (cases "rw_state e") (auto simp: vs_inv_def)
  ultimately show ?thesis
    using assms by (auto simp: vs_remove_def Let_def vs_inv_def split: if_splits)
qed

section \<open>The system\<close>

text \<open>
  A channel with a single value, given by its operations, the futures by the address of their
  wait node, the wakers woken, the value that was accepted and the values that futures returned.
  The handles of the shared variants add no state: dropping them closes the channel.
\<close>

record 'v value_ops =
  vo_send :: "'v \<Rightarrow> 'v oneshot_state \<Rightarrow> (('v channel_send_error + unit) \<times> waker list \<times> 'v oneshot_state) res"
  vo_close :: "'v oneshot_state \<Rightarrow> (close_status \<times> waker list \<times> 'v oneshot_state) res"
  vo_access :: "('v oneshot_state, 'v) receive_access"

record 'v value_sys =
  vy_chan :: "'v oneshot_state"
  vy_futures :: "addr \<rightharpoonup> receive_future"
  vy_woken :: "waker list"
  vy_sent :: "'v option"
  vy_received :: "'v list"

datatype 'v value_action = Vc_Send 'v | Vc_Close | Vc_Receive addr | Vc_Poll addr waker | Vc_Drop addr

definition value_sys_new :: "'v value_sys" where
  "value_sys_new =
     \<lparr>vy_chan = oneshot_state_new, vy_futures = Map.empty, vy_woken = [], vy_sent = None, vy_received = []\<rparr>"

fun value_enabled :: "'v value_action \<Rightarrow> 'v value_sys \<Rightarrow> bool" where
  "value_enabled (Vc_Send v) s = True"
| "value_enabled Vc_Close s = True"
| "value_enabled (Vc_Receive a) s = (os_nodes (vy_chan s) a = None)"
| "value_enabled (Vc_Poll a cx) s =
     (case vy_futures s a of None \<Rightarrow> False | Some f \<Rightarrow> \<not> receive_future_is_terminated f)"
| "value_enabled (Vc_Drop a) s = (vy_futures s a \<noteq> None)"

fun value_exec :: "'v value_ops \<Rightarrow> 'v value_action \<Rightarrow> 'v value_sys \<Rightarrow> 'v value_sys res" where
  "value_exec vops (Vc_Send v) s =
     and_then (vo_send vops v (vy_chan s)) (\<lambda>(r, w, c).
     Inr (s\<lparr>vy_chan := c, vy_woken := vy_woken s @ w,
            vy_sent := (case r of Inr _ \<Rightarrow> Some v | Inl _ \<Rightarrow> vy_sent s)\<rparr>))"
| "value_exec vops Vc_Close s =
     and_then (vo_close vops (vy_chan s)) (\<lambda>(r, w, c).
     Inr (s\<lparr>vy_chan := c, vy_woken := vy_woken s @ w\<rparr>))"
| "value_exec vops (Vc_Receive a) s =
     (case oneshot_receive a of (f, node) \<Rightarrow>
        Inr (s\<lparr>vy_chan := vy_chan s\<lparr>os_nodes := (os_nodes (vy_chan s))(a \<mapsto> node)\<rparr>,
               vy_futures := (vy_futures s)(a \<mapsto> f)\<rparr>))"
| "value_exec vops (Vc_Poll a cx) s =
     and_then (deref (vy_futures s) a) (\<lambda>f.
     and_then (receive_future_poll (vo_access vops) f cx (vy_chan s)) (\<lambda>(r, w, f, c).
     Inr (s\<lparr>vy_chan := c, vy_futures := (vy_futures s)(a \<mapsto> f), vy_woken := vy_woken s @ w,
            vy_received := vy_received s @ (case r of Ready (Some v) \<Rightarrow> [v] | _ \<Rightarrow> [])\<rparr>)))"
| "value_exec vops (Vc_Drop a) s =
     and_then (deref (vy_futures s) a) (\<lambda>f.
     and_then (receive_future_drop (vo_access vops) f (vy_chan s)) (\<lambda>(w, c).
     Inr (s\<lparr>vy_chan := c\<lparr>os_nodes := (os_nodes c)(a := None)\<rparr>, vy_futures := (vy_futures s)(a := None),
            vy_woken := vy_woken s @ w\<rparr>)))"

abbreviation value_reachable :: "'v value_ops \<Rightarrow> 'v value_sys \<Rightarrow> bool" where
  "value_reachable vops \<equiv> reach (\<lambda>s. s = value_sys_new) value_enabled (value_exec vops)"

text \<open>
  What was accepted is the value in the channel, or what receiving left of it; every future that
  returned a value returned this one, and only one did if receiving takes the value out.
\<close>

definition value_history :: "('v \<Rightarrow> 'v option) \<Rightarrow> 'v value_spec \<Rightarrow> 'v option \<Rightarrow> 'v list \<Rightarrow> bool" where
  "value_history keep S sent received \<longleftrightarrow>
     (\<not> vs_fulfilled S \<longrightarrow> sent = None) \<and>
     (case sent of
        None \<Rightarrow> vs_value S = None \<and> received = []
      | Some v \<Rightarrow> vs_value S = (if received = [] then Some v else keep v) \<and> set received \<subseteq> {v} \<and>
          (keep v = None \<longrightarrow> length received \<le> 1))"

definition value_sys_rep :: "('v \<Rightarrow> 'v option) \<Rightarrow> 'v value_sys \<Rightarrow> 'v value_spec \<Rightarrow> bool" where
  "value_sys_rep keep s S \<longleftrightarrow> value_abs (vy_chan s) S \<and> vs_inv S \<and> recvs_ok (vs_data S) (vy_futures s) \<and>
     value_history keep S (vy_sent s) (vy_received s)"

definition value_sys_inv :: "('v \<Rightarrow> 'v option) \<Rightarrow> 'v value_sys \<Rightarrow> bool" where
  "value_sys_inv keep s \<longleftrightarrow> (\<exists>S. value_sys_rep keep s S)"

lemma value_sys_repI:
  "value_abs (vy_chan s) S \<Longrightarrow> vs_inv S \<Longrightarrow> recvs_ok (vs_data S) (vy_futures s) \<Longrightarrow>
   value_history keep S (vy_sent s) (vy_received s) \<Longrightarrow> value_sys_inv keep s"
  by (auto simp: value_sys_inv_def value_sys_rep_def)

lemma value_sys_repD:
  assumes "value_sys_rep keep s S"
  shows "value_abs (vy_chan s) S" "vs_inv S" "recvs_ok (vs_data S) (vy_futures s)"
    "value_history keep S (vy_sent s) (vy_received s)"
  using assms by (simp_all add: value_sys_rep_def)

lemma value_history_nodes [simp]:
  "value_history keep (S\<lparr>vs_data := D\<rparr>) sent received = value_history keep S sent received"
  "value_history keep (S\<lparr>vs_queue := q\<rparr>) sent received = value_history keep S sent received"
  by (auto simp: value_history_def split: option.splits)

lemma value_history_poll:
  assumes "value_history keep S sent received" "vs_poll keep a cx S = (r, S')"
    and "\<And>x. keep x = None \<or> keep x = Some x"
  shows "value_history keep S' sent (received @ (case r of Ready (Some v) \<Rightarrow> [v] | _ \<Rightarrow> []))"
  using assms
  by (auto simp: vs_poll_def value_history_def Let_def split: if_splits option.splits) (metis option.distinct(1) option.inject)+

lemma value_abs_new_node:
  assumes abs: "value_abs c S" and inv: "vs_inv S" and fresh: "os_nodes c a = None"
  shows "value_abs (c\<lparr>os_nodes := (os_nodes c)(a \<mapsto> list_node_new recv_waiter_new)\<rparr>)
      (S\<lparr>vs_data := (vs_data S)(a \<mapsto> recv_waiter_new)\<rparr>)"
    and "vs_inv (S\<lparr>vs_data := (vs_data S)(a \<mapsto> recv_waiter_new)\<rparr>)"
proof -
  from fresh have "data_of (os_nodes c) a = None" by simp
  with abs have new: "vs_data S a = None" by (simp add: value_abs_def)
  with inv have q: "a \<notin> set (vs_queue S)" by (auto simp: vs_inv_def)
  show "value_abs (c\<lparr>os_nodes := (os_nodes c)(a \<mapsto> list_node_new recv_waiter_new)\<rparr>)
      (S\<lparr>vs_data := (vs_data S)(a \<mapsto> recv_waiter_new)\<rparr>)"
    using abs fresh ll_rep_alloc [of "os_nodes c" "os_waiters c" "vs_queue S" a recv_waiter_new]
    by (auto simp: value_abs_def list_node_new_def)
  show "vs_inv (S\<lparr>vs_data := (vs_data S)(a \<mapsto> recv_waiter_new)\<rparr>)"
    using inv q by (auto simp: vs_inv_def recv_waiter_new_def)
qed

lemma value_abs_free_node:
  assumes abs: "value_abs c S" and inv: "vs_inv S" and q: "a \<notin> set (vs_queue S)"
  shows "value_abs (c\<lparr>os_nodes := (os_nodes c)(a := None)\<rparr>) (S\<lparr>vs_data := (vs_data S)(a := None)\<rparr>)"
    and "vs_inv (S\<lparr>vs_data := (vs_data S)(a := None)\<rparr>)"
  using assms ll_rep_free [of "os_nodes c" "os_waiters c" "vs_queue S" a]
  by (auto simp: value_abs_def vs_inv_def)

section \<open>Channels with a single value\<close>

text \<open>
  The contract: \<open>send\<close> and \<open>close\<close> fulfil the channel once and wake all futures that wait;
  a poll takes \<open>v\<close> and leaves \<open>keep v\<close>, nothing or the value itself.
\<close>

locale value_channel =
  fixes vops :: "'v value_ops"
    and keep :: "'v \<Rightarrow> 'v option"
  assumes keep_law: "keep v = None \<or> keep v = Some v"
    and send_law: "value_abs c S \<Longrightarrow> returns (vo_send vops v c) (\<lambda>(r, w, c').
      if vs_fulfilled S then r = Inl (Channel_Send_Error v) \<and> w = [] \<and> c' = c
      else r = Inr () \<and> w = vs_wakers S \<and> value_abs c' (vs_fulfil (Some v) S))"
    and close_law: "value_abs c S \<Longrightarrow> returns (vo_close vops c) (\<lambda>(r, w, c').
      if vs_fulfilled S then r = Already_Closed \<and> w = [] \<and> c' = c
      else r = Newly_Closed \<and> w = vs_wakers S \<and> value_abs c' (vs_fulfil (vs_value S) S))"
    and poll_law: "value_abs c S \<Longrightarrow> vs_inv S \<Longrightarrow> vs_data S a = Some e \<Longrightarrow>
      returns (ra_receive_or_register (vo_access vops) a cx c) (\<lambda>(r, w, c').
        w = [] \<and> (\<exists>S'. vs_poll keep a cx S = (r, S') \<and> value_abs c' S'))"
    and remove_law: "value_abs c S \<Longrightarrow> vs_inv S \<Longrightarrow> vs_data S a = Some e \<Longrightarrow>
      returns (ra_remove_receive_waiter (vo_access vops) a c) (\<lambda>(w, c').
        w = [] \<and> value_abs c' (vs_remove a S))"
begin

lemma value_send_preserves:
  assumes rep: "value_sys_rep keep s S"
  shows "returns (value_exec vops (Vc_Send v) s) (value_sys_inv keep)"
proof -
  note S = value_sys_repD [OF rep]
  have "value_history keep (vs_fulfil (Some v) S) (Some v) (vy_received s)" if "\<not> vs_fulfilled S"
    using that S(4) by (auto simp: value_history_def vs_fulfil_def)
  then have finish: "value_sys_inv keep (s\<lparr>vy_chan := c, vy_woken := w, vy_sent := Some v\<rparr>)"
    if "\<not> vs_fulfilled S" "value_abs c (vs_fulfil (Some v) S)" for c w
    using that S vs_fulfil_inv [OF S(2), of "Some v"] recvs_ok_frame [OF S(3) vs_fulfil_frame [OF S(2)]]
    by (intro value_sys_repI [where S = "vs_fulfil (Some v) S"]) auto
  have same: "value_sys_inv keep s" using rep by (auto simp: value_sys_inv_def)
  show ?thesis
    using send_law [OF S(1), of v] finish same by (cases "vs_fulfilled S") (auto elim!: returns_mono)
qed

lemma value_close_preserves:
  assumes rep: "value_sys_rep keep s S"
  shows "returns (value_exec vops Vc_Close s) (value_sys_inv keep)"
proof -
  note S = value_sys_repD [OF rep]
  have "value_history keep (vs_fulfil (vs_value S) S) (vy_sent s) (vy_received s)"
    using S(4) by (auto simp: value_history_def vs_fulfil_def split: option.splits)
  then have finish: "value_sys_inv keep (s\<lparr>vy_chan := c, vy_woken := w\<rparr>)"
    if "value_abs c (vs_fulfil (vs_value S) S)" for c w
    using that S vs_fulfil_inv [OF S(2), of "vs_value S"] recvs_ok_frame [OF S(3) vs_fulfil_frame [OF S(2)]]
    by (intro value_sys_repI [where S = "vs_fulfil (vs_value S) S"]) auto
  have same: "value_sys_inv keep s" using rep by (auto simp: value_sys_inv_def)
  show ?thesis
    using close_law [OF S(1)] finish same by (cases "vs_fulfilled S") (auto elim!: returns_mono)
qed

lemma value_receive_preserves:
  assumes rep: "value_sys_rep keep s S" and fresh: "os_nodes (vy_chan s) a = None"
  shows "returns (value_exec vops (Vc_Receive a) s) (value_sys_inv keep)"
proof -
  note S = value_sys_repD [OF rep]
  have "recvs_ok ((vs_data S)(a \<mapsto> recv_waiter_new)) ((vy_futures s)(a \<mapsto> fst (oneshot_receive a)))"
    by (rule recvs_ok_upd [OF S(3)]) (simp_all add: oneshot_receive_def)
  with value_abs_new_node [OF S(1,2) fresh] S(4) show ?thesis
    by (auto simp: oneshot_receive_def
        intro!: value_sys_repI [where S = "S\<lparr>vs_data := (vs_data S)(a \<mapsto> recv_waiter_new)\<rparr>"])
qed

lemma value_poll_preserves:
  assumes rep: "value_sys_rep keep s S" and f: "vy_futures s a = Some f" "rf_channel f"
  shows "returns (value_exec vops (Vc_Poll a cx) s) (value_sys_inv keep)"
proof -
  note S = value_sys_repD [OF rep]
  from recvs_okD [OF S(3) f(1)] obtain e where e: "vs_data S a = Some e" "rf_wait_node f = a" by auto
  have finish: "value_sys_inv keep (s\<lparr>vy_chan := c, vy_futures := (vy_futures s)(a \<mapsto> f'), vy_woken := w,
      vy_received := vy_received s @ (case r of Ready (Some v) \<Rightarrow> [v] | _ \<Rightarrow> [])\<rparr>)"
    if "value_abs c S'" "vs_poll keep a cx S = (r, S')"
      "f' = (if r = Pending then f else f\<lparr>rf_channel := False\<rparr>)" for c S' r w f'
  proof -
    from vs_poll_frame [OF S(2) e(1) that(2)] obtain e' where
      e': "vs_data S' = (vs_data S)(a \<mapsto> e')" "r = Pending \<or> rw_state e' = Rp_Unregistered" by blast
    have "recvs_ok (vs_data S') ((vy_futures s)(a \<mapsto> f'))"
      unfolding e'(1) by (rule recvs_ok_upd [OF S(3)]) (use e' e(2) that(3) f in auto)
    with that(1) vs_poll_inv [OF S(2) e(1) that(2)] value_history_poll [OF S(4) that(2) keep_law]
    show ?thesis by (intro value_sys_repI [where S = S']) auto
  qed
  show ?thesis
    using poll_law [OF S(1,2) e(1), of cx] e(2) f finish [where w = "vy_woken s"]
    by (auto simp: receive_future_poll_def elim!: returns_mono split: poll.splits option.splits)
qed

lemma value_drop_preserves:
  assumes rep: "value_sys_rep keep s S" and f: "vy_futures s a = Some f"
  shows "returns (value_exec vops (Vc_Drop a) s) (value_sys_inv keep)"
proof -
  note S = value_sys_repD [OF rep]
  from recvs_okD [OF S(3) f] obtain e where e: "vs_data S a = Some e" "rf_wait_node f = a"
    "rf_channel f \<or> rw_state e = Rp_Unregistered" by auto
  let ?S = "vs_remove a S"
  have same: "?S = S" if "\<not> rf_channel f" using that e by (simp add: vs_remove_def Let_def)
  from vs_remove_frame [OF S(2) e(1)] obtain e' where
    e': "vs_data ?S = (vs_data S)(a \<mapsto> e')" "a \<notin> set (vs_queue ?S)" by blast
  have "recvs_ok ((vs_data ?S)(a := None)) ((vy_futures s)(a := None))"
    using recvs_ok_del [OF S(3), of a] by (simp add: e'(1))
  moreover have "value_history keep ?S (vy_sent s) (vy_received s)"
    using S(4) by (auto simp: vs_remove_def Let_def)
  ultimately have finish: "value_sys_inv keep (s\<lparr>vy_chan := c\<lparr>os_nodes := (os_nodes c)(a := None)\<rparr>,
      vy_futures := (vy_futures s)(a := None)\<rparr>)" if "value_abs c ?S" for c
    using value_abs_free_node [OF that vs_remove_inv [OF S(2) e(1)] e'(2)]
    by (intro value_sys_repI [where S = "?S\<lparr>vs_data := (vs_data ?S)(a := None)\<rparr>"]) auto
  show ?thesis
    using remove_law [OF S(1,2) e(1)] f e(2) finish S(1) same
    by (auto simp: receive_future_drop_def elim!: returns_mono)
qed

lemma value_exec_preserves:
  assumes "value_sys_inv keep s" "value_enabled act s"
  shows "returns (value_exec vops act s) (value_sys_inv keep)"
proof -
  from assms(1) obtain S where rep: "value_sys_rep keep s S" by (auto simp: value_sys_inv_def)
  show ?thesis
    using assms(2) value_send_preserves [OF rep] value_close_preserves [OF rep] value_receive_preserves [OF rep]
      value_poll_preserves [OF rep] value_drop_preserves [OF rep]
    by (cases act) (auto simp: receive_future_is_terminated_def simp del: value_exec.simps split: option.splits)
qed

lemma value_sys_new_inv: "value_sys_inv keep value_sys_new"
  by (rule value_sys_repI [where S = "\<lparr>vs_fulfilled = False, vs_value = None, vs_queue = [], vs_data = Map.empty\<rparr>"])
    (auto simp: value_sys_new_def oneshot_state_new_def value_abs_def vs_inv_def recvs_ok_def value_history_def
      data_of_def ll_rep_new)

end

sublocale value_channel \<subseteq> vsys: transition_system "\<lambda>s. s = value_sys_new" value_enabled "value_exec vops"
    "value_sys_inv keep"
  by unfold_locales (auto simp: value_sys_new_inv simp del: value_exec.simps value_enabled.simps
      intro: value_exec_preserves)

context value_channel
begin

lemma value_reach_rep: "value_reachable vops s \<Longrightarrow> \<exists>S. value_sys_rep keep s S"
  using vsys.reach_inv by (auto simp: value_sys_inv_def)

lemma value_runs: "value_reachable vops s \<Longrightarrow> value_enabled act s \<Longrightarrow> \<exists>t. value_exec vops act s = Inr t"
  using vsys.no_fault by blast

lemma value_history_views:
  assumes "value_reachable vops s"
  shows "(\<not> os_is_fulfilled (vy_chan s) \<longrightarrow> vy_sent s = None) \<and>
     (case vy_sent s of
        None \<Rightarrow> os_value (vy_chan s) = None \<and> vy_received s = []
      | Some v \<Rightarrow> os_value (vy_chan s) = (if vy_received s = [] then Some v else keep v) \<and>
          set (vy_received s) \<subseteq> {v} \<and> (keep v = None \<longrightarrow> length (vy_received s) \<le> 1))"
proof -
  from value_reach_rep [OF assms] obtain S where rep: "value_sys_rep keep s S" by blast
  from value_sys_repD(1,4) [OF rep] show ?thesis
    by (auto simp: value_history_def value_abs_def split: option.splits)
qed

text \<open>A poll of a fulfilled channel is ready, with the value if there is one.\<close>

lemma value_poll_fulfilled:
  assumes reach: "value_reachable vops s" and f: "vy_futures s a = Some f" "\<not> receive_future_is_terminated f"
    and fulfilled: "os_is_fulfilled (vy_chan s)"
  shows "returns (receive_future_poll (vo_access vops) f cx (vy_chan s))
    (\<lambda>(r, w, f', c). r = Ready (os_value (vy_chan s)) \<and> receive_future_is_terminated f')"
proof -
  from value_reach_rep [OF reach] obtain S where rep: "value_sys_rep keep s S" by blast
  note S = value_sys_repD [OF rep]
  from recvs_okD [OF S(3) f(1)] obtain e where e: "vs_data S a = Some e" "rf_wait_node f = a" by blast
  from S(1,2) fulfilled e have "rw_state e \<noteq> Rp_Registered" "vs_fulfilled S" "os_value (vy_chan s) = vs_value S"
    by (auto simp: vs_inv_def value_abs_def)
  with poll_law [OF S(1,2) e(1), of cx] f(2) e show ?thesis
    by (auto simp: receive_future_poll_def receive_future_is_terminated_def vs_poll_def Let_def
        elim!: returns_mono split: option.splits)
qed

lemma value_send_wakes:
  assumes reach: "value_reachable vops s" and q: "ll_rep (os_nodes (vy_chan s)) (os_waiters (vy_chan s)) q"
  shows "if os_is_fulfilled (vy_chan s)
    then q = [] \<and> vo_send vops v (vy_chan s) = Inr (Inl (Channel_Send_Error v), [], vy_chan s)
    else returns (vo_send vops v (vy_chan s)) (\<lambda>(r, w, c). r = Inr () \<and> os_is_fulfilled c \<and> os_value c = Some v \<and>
      ll_rep (os_nodes c) (os_waiters c) [] \<and>
      w = map (\<lambda>a. the (rw_task (the (data_of (os_nodes (vy_chan s)) a)))) (rev q))"
proof -
  from value_reach_rep [OF reach] obtain S where rep: "value_sys_rep keep s S" by blast
  note S = value_sys_repD [OF rep]
  from S(1) q have v: "vs_queue S = q" "vs_data S = data_of (os_nodes (vy_chan s))"
    "vs_fulfilled S = os_is_fulfilled (vy_chan s)"
    using ll_rep_unique [of "os_nodes (vy_chan s)" "os_waiters (vy_chan s)" "vs_queue S" q]
    by (auto simp: value_abs_def)
  have "\<forall>a\<in>set (rev q). rw_task (the (vs_data S a)) \<noteq> None"
    using S(2) v(1) by (fastforce simp: vs_inv_def)
  then have "concat (map (\<lambda>a. wake_opt (rw_task (the (vs_data S a)))) (rev q)) =
      map (\<lambda>a. the (rw_task (the (vs_data S a)))) (rev q)"
    by (induction q) auto
  with send_law [OF S(1), of v] v S(2) show ?thesis
    by (auto simp: vs_wakers_def value_abs_def vs_fulfil_def vs_inv_def returns_iff)
qed

end

context value_channel
begin

text \<open>The queue of a channel, and what a \<open>send\<close> does to it.\<close>

lemma value_send_outcome:
  assumes "value_reachable vops s"
  shows "\<exists>q. ll_rep (os_nodes (vy_chan s)) (os_waiters (vy_chan s)) q \<and>
    (if os_is_fulfilled (vy_chan s)
     then q = [] \<and> vo_send vops v (vy_chan s) = Inr (Inl (Channel_Send_Error v), [], vy_chan s)
     else vy_sent s = None \<and> returns (vo_send vops v (vy_chan s)) (\<lambda>(r, w, c). r = Inr () \<and> os_is_fulfilled c \<and>
       os_value c = Some v \<and> ll_rep (os_nodes c) (os_waiters c) [] \<and>
       w = map (\<lambda>a. the (rw_task (the (data_of (os_nodes (vy_chan s)) a)))) (rev q)))"
proof -
  from value_reach_rep [OF assms] obtain S where rep: "value_sys_rep keep s S" by blast
  from value_sys_repD(1) [OF rep] have q: "ll_rep (os_nodes (vy_chan s)) (os_waiters (vy_chan s)) (vs_queue S)"
    by (simp add: value_abs_def)
  with value_send_wakes [OF assms q, of v] value_history_views [OF assms] show ?thesis
    by (intro exI [of _ "vs_queue S"]) (auto split: if_splits)
qed

text \<open>The first value that was sent stays the one that was sent, in every run.\<close>

lemma value_sent_step:
  assumes reach: "value_reachable vops s" and run: "value_exec vops act s = Inr t" and sent: "vy_sent s = Some v"
  shows "vy_sent t = Some v"
proof (cases "\<exists>v'. act = Vc_Send v'")
  case True
  then obtain v' where act: "act = Vc_Send v'" by blast
  from value_history_views [OF reach] sent have "os_is_fulfilled (vy_chan s)" by auto
  with value_send_outcome [OF reach, of v'] run act sent show ?thesis by auto
next
  case False
  with run sent show ?thesis
    by (cases act) (auto simp: and_then_eq_Inr oneshot_receive_def)
qed

lemma value_sent_stays:
  "exec_all value_enabled (value_exec vops) acts s = Some t \<Longrightarrow> value_reachable vops s \<Longrightarrow> vy_sent s = Some v \<Longrightarrow>
   vy_sent t = Some v"
proof (induction acts arbitrary: s)
  case (Cons a as)
  then obtain u where u: "value_enabled a s" "value_exec vops a s = Inr u" "exec_all value_enabled (value_exec vops) as u = Some t"
    by (auto split: if_splits sum.splits)
  with Cons.prems(2) have "value_reachable vops u" by (blast intro: reach_step)
  with Cons.IH [OF u(3)] value_sent_step [OF Cons.prems(2) u(2) Cons.prems(3)] show ?case by blast
qed simp

end

definition oneshot_ops :: "'v value_ops" where
  "oneshot_ops = \<lparr>vo_send = oneshot_send, vo_close = oneshot_close, vo_access = oneshot_receive_access\<rparr>"

interpretation osh: value_channel oneshot_ops "\<lambda>_. None"
proof unfold_locales
  fix c :: "'a oneshot_state" and S :: "'a value_spec" and a e cx
  assume *: "value_abs c S" "vs_inv S" "vs_data S a = Some e"
  show "returns (ra_receive_or_register (vo_access oneshot_ops) a cx c)
      (\<lambda>(r, w, c'). w = [] \<and> (\<exists>S'. vs_poll (\<lambda>_. None) a cx S = (r, S') \<and> value_abs c' S'))"
    using oneshot_try_receive_refines [OF *, of cx]
    by (auto simp: oneshot_ops_def oneshot_receive_access_def elim!: returns_mono)
  show "returns (ra_remove_receive_waiter (vo_access oneshot_ops) a c)
      (\<lambda>(w, c'). w = [] \<and> value_abs c' (vs_remove a S))"
    using oneshot_remove_refines [OF *]
    by (auto simp: oneshot_ops_def oneshot_receive_access_def elim!: returns_mono)
next
  fix c :: "'a oneshot_state" and S :: "'a value_spec" and v
  assume *: "value_abs c S"
  show "returns (vo_send oneshot_ops v c) (\<lambda>(r, w, c').
      if vs_fulfilled S then r = Inl (Channel_Send_Error v) \<and> w = [] \<and> c' = c
      else r = Inr () \<and> w = vs_wakers S \<and> value_abs c' (vs_fulfil (Some v) S))"
    unfolding oneshot_ops_def value_ops.select_convs by (rule oneshot_send_refines [OF *])
  show "returns (vo_close oneshot_ops c) (\<lambda>(r, w, c').
      if vs_fulfilled S then r = Already_Closed \<and> w = [] \<and> c' = c
      else r = Newly_Closed \<and> w = vs_wakers S \<and> value_abs c' (vs_fulfil (vs_value S) S))"
    unfolding oneshot_ops_def value_ops.select_convs by (rule oneshot_close_refines [OF *])
qed simp

section \<open>Properties\<close>

lemmas oneshot_eval =
  oneshot_ops_def value_sys_new_def oneshot_state_new_def oneshot_receive_def recv_waiter_new_def
  receive_future_poll_def receive_future_is_terminated_def oneshot_receive_access_def oneshot_try_receive_def
  oneshot_send_def oneshot_close_def oneshot_wake_waiters_def oneshot_wake_waiter_def

abbreviation oneshot_demo_acts :: "nat value_action list" where
  "oneshot_demo_acts \<equiv>
     [Vc_Receive 2, Vc_Poll 2 (Waker 2 0), Vc_Receive 3, Vc_Poll 3 (Waker 3 0), Vc_Send 7, Vc_Poll 3 (Waker 3 0)]"

definition oneshot_demo :: "nat value_sys" where
  "oneshot_demo = the (exec_all value_enabled (value_exec oneshot_ops) oneshot_demo_acts value_sys_new)"

lemma oneshot_demo_run:
  "exec_all value_enabled (value_exec oneshot_ops) oneshot_demo_acts value_sys_new = Some oneshot_demo"
  by (simp add: oneshot_demo_def oneshot_eval ll_eval)

lemma oneshot_demo_reach: "value_reachable oneshot_ops oneshot_demo"
  by (rule exec_all_reach [OF oneshot_demo_run reach_init]) simp

lemma oneshot_demo_facts:
  "vy_received oneshot_demo = [7]" "vy_sent oneshot_demo = Some 7" "vy_woken oneshot_demo = [Waker 2 0, Waker 3 0]"
  "os_is_fulfilled (vy_chan oneshot_demo)"
  "vy_futures oneshot_demo 2 = Some \<lparr>rf_channel = True, rf_wait_node = 2\<rparr>"
  "os_value (vy_chan oneshot_demo) = None"
  by (simp_all add: oneshot_demo_def oneshot_eval ll_eval)

text \<open>
  C22: a oneshot channel delivers one value, to one future: the first one sent. As long as nothing was
  sent and the channel is open, \<open>send\<close> stores its value and wakes every waiting future, the oldest
  first; afterwards every \<open>send\<close> gives its value back and changes nothing, so that in every run the
  first value accepted stays the one accepted. It is in the channel until a future takes it, the next
  future that is polled takes it, and at most one does. No call faults.
\<close>

theorem oneshot_single_delivery:
  assumes "value_reachable oneshot_ops s"
  shows "(\<exists>q. ll_rep (os_nodes (vy_chan s)) (os_waiters (vy_chan s)) q \<and>
      (if os_is_fulfilled (vy_chan s)
       then q = [] \<and> oneshot_send v (vy_chan s) = Inr (Inl (Channel_Send_Error v), [], vy_chan s)
       else vy_sent s = None \<and> returns (oneshot_send v (vy_chan s)) (\<lambda>(r, w, c). r = Inr () \<and> os_is_fulfilled c \<and>
         os_value c = Some v \<and> ll_rep (os_nodes c) (os_waiters c) [] \<and>
         w = map (\<lambda>a. the (rw_task (the (data_of (os_nodes (vy_chan s)) a)))) (rev q)))) \<and>
    (\<forall>u acts t. vy_sent s = Some u \<longrightarrow> exec_all value_enabled (value_exec oneshot_ops) acts s = Some t \<longrightarrow>
      vy_sent t = Some u) \<and>
    (os_value (vy_chan s) = (if vy_received s = [] then vy_sent s else None)) \<and>
    length (vy_received s) \<le> 1 \<and> set (vy_received s) \<subseteq> set_option (vy_sent s) \<and>
    (\<forall>a f cx. vy_futures s a = Some f \<longrightarrow> \<not> receive_future_is_terminated f \<longrightarrow> os_is_fulfilled (vy_chan s) \<longrightarrow>
      returns (receive_future_poll oneshot_receive_access f cx (vy_chan s))
        (\<lambda>(r, w, f', c). r = Ready (os_value (vy_chan s)) \<and> receive_future_is_terminated f')) \<and>
    (value_enabled act s \<longrightarrow> (\<exists>t. value_exec oneshot_ops act s = Inr t))"
proof -
  have ops: "vo_send oneshot_ops = oneshot_send" "vo_access oneshot_ops = oneshot_receive_access"
    by (simp_all add: oneshot_ops_def)
  show ?thesis
    using osh.value_history_views [OF assms] osh.value_runs [OF assms, of act]
      osh.value_send_outcome [OF assms, of v, unfolded ops] osh.value_sent_stays [OF _ assms]
      osh.value_poll_fulfilled [OF assms, unfolded ops]
    by (intro conjI) (auto split: option.splits)
qed

theorem oneshot_single_delivery_witness:
  "os_value (vy_chan oneshot_demo) = None \<and>
   oneshot_send 9 (vy_chan oneshot_demo) = Inr (Inl (Channel_Send_Error 9), [], vy_chan oneshot_demo)"
  using oneshot_single_delivery [OF oneshot_demo_reach, of 9] by (simp add: oneshot_demo_facts)

text \<open>
  Nobody waits in vain at a channel with a single value. As long as it is not fulfilled, a
  \<open>send\<close> succeeds and wakes every waiting future once, the oldest first, with the waker of its
  last poll; once it is, nobody is queued and a further \<open>send\<close> gives its value back.
\<close>

theorem value_channel_no_lost_wakeup:
  assumes "value_channel vops keep" "value_reachable vops s"
    and "ll_rep (os_nodes (vy_chan s)) (os_waiters (vy_chan s)) q"
  shows "if os_is_fulfilled (vy_chan s)
    then q = [] \<and> vo_send vops v (vy_chan s) = Inr (Inl (Channel_Send_Error v), [], vy_chan s)
    else returns (vo_send vops v (vy_chan s)) (\<lambda>(r, w, c). r = Inr () \<and> os_is_fulfilled c \<and> os_value c = Some v \<and>
      ll_rep (os_nodes c) (os_waiters c) [] \<and>
      w = map (\<lambda>a. the (rw_task (the (data_of (os_nodes (vy_chan s)) a)))) (rev q))"
  by (rule value_channel.value_send_wakes [OF assms])

lemma oneshot_demo_queue: "ll_rep (os_nodes (vy_chan oneshot_demo)) (os_waiters (vy_chan oneshot_demo)) []"
  by (simp add: oneshot_demo_def oneshot_eval ll_eval ll_rep_def)

theorem value_channel_no_lost_wakeup_witness:
  "vo_send oneshot_ops 9 (vy_chan oneshot_demo) = Inr (Inl (Channel_Send_Error 9), [], vy_chan oneshot_demo)"
  using value_channel_no_lost_wakeup [OF osh.value_channel_axioms oneshot_demo_reach oneshot_demo_queue, of 9]
  by (simp add: oneshot_demo_facts)

text \<open>
  A future of a fulfilled channel completes with its next poll, with the value that is in the
  channel at that time, or with \<open>None\<close> if it was closed or the value was taken.
\<close>

theorem value_channel_poll_fulfilled:
  assumes "value_channel vops keep" "value_reachable vops s"
    and "vy_futures s a = Some f" "\<not> receive_future_is_terminated f" "os_is_fulfilled (vy_chan s)"
  shows "returns (receive_future_poll (vo_access vops) f cx (vy_chan s))
    (\<lambda>(r, w, f', c). r = Ready (os_value (vy_chan s)) \<and> receive_future_is_terminated f')"
  by (rule value_channel.value_poll_fulfilled [OF assms])

theorem value_channel_poll_fulfilled_witness:
  "returns (receive_future_poll (vo_access oneshot_ops) \<lparr>rf_channel = True, rf_wait_node = 2\<rparr> (Waker 2 0) (vy_chan oneshot_demo))
    (\<lambda>(r, w, f', c). r = Ready (os_value (vy_chan oneshot_demo)) \<and> receive_future_is_terminated f')"
  by (rule value_channel_poll_fulfilled [OF osh.value_channel_axioms oneshot_demo_reach oneshot_demo_facts(5)])
    (simp_all add: oneshot_demo_facts receive_future_is_terminated_def)

end
