(* ===== verification/Oneshot_Broadcast.thy ===== *)
theory Oneshot_Broadcast
  imports Oneshot
begin

text \<open>
  The oneshot broadcast channel of \<^verbatim>\<open>src/channel/oneshot_broadcast.rs\<close>: the value stays in the
  channel and every receiver gets a clone of it. The file repeats the state and most operations of
  \<open>oneshot.rs\<close>; here they are translated again, and lemmas show where they agree. The clone of a
  value is taken to be the value.
\<close>

section \<open>ChannelState\<close>

text \<open>The struct has the fields of the oneshot channel.\<close>

type_synonym 'v broadcast_state = "'v oneshot_state"

definition broadcast_state_new :: "'v broadcast_state" where
  "broadcast_state_new =
     \<lparr>os_is_fulfilled = False, os_value = None, os_waiters = ll_new, os_nodes = Map.empty\<rparr>"

definition broadcast_wake_waiter :: "recv_waiter \<Rightarrow> waker list \<Rightarrow> recv_waiter \<times> waker list" where
  "broadcast_wake_waiter waiter woken =
     (waiter\<lparr>rw_task := None, rw_state := Rp_Unregistered\<rparr>, woken @ wake_opt (rw_task waiter))"

definition broadcast_wake_waiters :: "'v broadcast_state \<Rightarrow> (waker list \<times> 'v broadcast_state) res" where
  "broadcast_wake_waiters c =
     and_then (ll_reverse_drain broadcast_wake_waiter (os_waiters c) (os_nodes c) []) (\<lambda>(l, h, w).
     Inr (w, c\<lparr>os_waiters := l, os_nodes := h\<rparr>))"

definition broadcast_send ::
  "'v \<Rightarrow> 'v broadcast_state \<Rightarrow> (('v channel_send_error + unit) \<times> waker list \<times> 'v broadcast_state) res" where
  "broadcast_send v c =
     (if os_is_fulfilled c then Inr (Inl (Channel_Send_Error v), [], c)
      else let c = c\<lparr>os_value := Some v\<rparr>; c = c\<lparr>os_is_fulfilled := True\<rparr> in
           and_then (broadcast_wake_waiters c) (\<lambda>(w, c). Inr (Inr (), w, c)))"

definition broadcast_close ::
  "'v broadcast_state \<Rightarrow> (close_status \<times> waker list \<times> 'v broadcast_state) res" where
  "broadcast_close c =
     (if os_is_fulfilled c then Inr (Already_Closed, [], c)
      else let c = c\<lparr>os_is_fulfilled := True\<rparr> in
           and_then (broadcast_wake_waiters c) (\<lambda>(w, c). Inr (Newly_Closed, w, c)))"

definition broadcast_try_receive ::
  "addr \<Rightarrow> waker \<Rightarrow> 'v broadcast_state \<Rightarrow> ('v option poll \<times> 'v broadcast_state) res" where
  "broadcast_try_receive wait_node cx c =
     and_then (read_data (os_nodes c) wait_node) (\<lambda>e.
     case rw_state e of
       Rp_Unregistered \<Rightarrow>
         (case os_value c of
            Some v \<Rightarrow> Inr (Ready (Some v), c)
          | None \<Rightarrow>
              if os_is_fulfilled c then Inr (Ready None, c)
              else and_then (update_data wait_node
                               (\<lambda>e. e\<lparr>rw_task := Some cx, rw_state := Rp_Registered\<rparr>) (os_nodes c)) (\<lambda>h.
                   and_then (ll_add_front (os_waiters c) wait_node h) (\<lambda>(l, h).
                   Inr (Pending, c\<lparr>os_waiters := l, os_nodes := h\<rparr>))))
     | Rp_Registered \<Rightarrow>
         and_then (update_data wait_node (rw_task_update (\<lambda>t. update_waker_ref t cx)) (os_nodes c)) (\<lambda>h.
         Inr (Pending, c\<lparr>os_nodes := h\<rparr>))
     | Rp_Notified \<Rightarrow> Inl (Panic ''Not possible for Oneshot Broadcast''))"

definition broadcast_remove_waiter :: "addr \<Rightarrow> 'v broadcast_state \<Rightarrow> 'v broadcast_state res" where
  "broadcast_remove_waiter wait_node c =
     and_then (read_data (os_nodes c) wait_node) (\<lambda>e.
     if rw_state e = Rp_Registered
     then and_then (ll_remove (os_waiters c) wait_node (os_nodes c)) (\<lambda>(removed, l, h).
          if \<not> removed then Inl (Panic ''Future could not be removed from wait queue'')
          else and_then (update_data wait_node (rw_state_update (\<lambda>_. Rp_Unregistered)) h) (\<lambda>h.
               Inr (c\<lparr>os_waiters := l, os_nodes := h\<rparr>)))
     else Inr c)"

definition broadcast_receive :: "addr \<Rightarrow> receive_future \<times> recv_waiter list_node" where
  "broadcast_receive a = (\<lparr>rf_channel = True, rf_wait_node = a\<rparr>, list_node_new recv_waiter_new)"

definition broadcast_receive_access :: "('v broadcast_state, 'v) receive_access" where
  "broadcast_receive_access =
     \<lparr>ra_receive_or_register = (\<lambda>wait_node cx c.
        and_then (broadcast_try_receive wait_node cx c) (\<lambda>(r, c). Inr (r, [], c))),
      ra_remove_receive_waiter = (\<lambda>wait_node c.
        and_then (broadcast_remove_waiter wait_node c) (\<lambda>c. Inr ([], c)))\<rparr>"

text \<open>
  The shared variant: dropping the sender closes the channel, and so does dropping any receiver,
  also when clones of it are left.
\<close>

definition broadcast_sender_drop :: "'v broadcast_state \<Rightarrow> (waker list \<times> 'v broadcast_state) res" where
  "broadcast_sender_drop c = and_then (broadcast_close c) (\<lambda>(_, w, c). Inr (w, c))"

definition broadcast_receiver_drop :: "'v broadcast_state \<Rightarrow> (waker list \<times> 'v broadcast_state) res" where
  "broadcast_receiver_drop c = and_then (broadcast_close c) (\<lambda>(_, w, c). Inr (w, c))"

section \<open>The code shared with the oneshot channel\<close>

lemma broadcast_wake_same: "broadcast_wake_waiters c = oneshot_wake_waiters c"
proof -
  have "broadcast_wake_waiter = oneshot_wake_waiter"
    by (intro ext) (simp add: broadcast_wake_waiter_def oneshot_wake_waiter_def)
  then show ?thesis by (simp add: broadcast_wake_waiters_def oneshot_wake_waiters_def)
qed

lemma broadcast_same_code:
  "broadcast_state_new = oneshot_state_new"
  "broadcast_send v c = oneshot_send v c"
  "broadcast_close c = oneshot_close c"
  "broadcast_remove_waiter a c = oneshot_remove_waiter a c"
  "broadcast_receive a = oneshot_receive a"
  by (simp_all add: broadcast_state_new_def oneshot_state_new_def broadcast_remove_waiter_def
    oneshot_remove_waiter_def broadcast_receive_def oneshot_receive_def broadcast_send_def oneshot_send_def
    broadcast_close_def oneshot_close_def broadcast_wake_same Let_def)

lemma broadcast_try_receive_refines:
  assumes abs: "value_abs c S" and inv: "vs_inv S" and e: "vs_data S a = Some e"
  shows "returns (broadcast_try_receive a cx c)
    (\<lambda>(r, c'). \<exists>S'. vs_poll Some a cx S = (r, S') \<and> value_abs c' S')"
proof -
  from inv e have "rw_state e \<noteq> Rp_Notified" "a \<in> set (vs_queue S) \<longleftrightarrow> rw_state e = Rp_Registered"
    by (auto simp: vs_inv_def)
  with abs e show ?thesis
    by (cases "rw_state e") (auto simp: broadcast_try_receive_def vs_poll_def value_abs_def Let_def
        split: option.splits intro!: update_data_wp ll_add_front_wp)
qed

definition broadcast_ops :: "'v value_ops" where
  "broadcast_ops = \<lparr>vo_send = broadcast_send, vo_close = broadcast_close, vo_access = broadcast_receive_access\<rparr>"

interpretation bch: value_channel broadcast_ops Some
proof unfold_locales
  fix c :: "'a oneshot_state" and S :: "'a value_spec" and a e cx
  assume *: "value_abs c S" "vs_inv S" "vs_data S a = Some e"
  show "returns (ra_receive_or_register (vo_access broadcast_ops) a cx c)
      (\<lambda>(r, w, c'). w = [] \<and> (\<exists>S'. vs_poll Some a cx S = (r, S') \<and> value_abs c' S'))"
    using broadcast_try_receive_refines [OF *, of cx]
    by (auto simp: broadcast_ops_def broadcast_receive_access_def elim!: returns_mono)
  show "returns (ra_remove_receive_waiter (vo_access broadcast_ops) a c)
      (\<lambda>(w, c'). w = [] \<and> value_abs c' (vs_remove a S))"
    using oneshot_remove_refines [OF *]
    by (auto simp: broadcast_ops_def broadcast_receive_access_def broadcast_same_code elim!: returns_mono)
next
  fix c :: "'a oneshot_state" and S :: "'a value_spec" and v
  assume *: "value_abs c S"
  show "returns (vo_send broadcast_ops v c) (\<lambda>(r, w, c').
      if vs_fulfilled S then r = Inl (Channel_Send_Error v) \<and> w = [] \<and> c' = c
      else r = Inr () \<and> w = vs_wakers S \<and> value_abs c' (vs_fulfil (Some v) S))"
    unfolding broadcast_ops_def value_ops.select_convs broadcast_same_code by (rule oneshot_send_refines [OF *])
  show "returns (vo_close broadcast_ops c) (\<lambda>(r, w, c').
      if vs_fulfilled S then r = Already_Closed \<and> w = [] \<and> c' = c
      else r = Newly_Closed \<and> w = vs_wakers S \<and> value_abs c' (vs_fulfil (vs_value S) S))"
    unfolding broadcast_ops_def value_ops.select_convs broadcast_same_code by (rule oneshot_close_refines [OF *])
qed simp

text \<open>A poll of a channel that holds a value returns it and leaves it there.\<close>

lemma broadcast_poll_delivers:
  assumes reach: "value_reachable broadcast_ops s" and sent: "vy_sent s = Some u"
    and f: "vy_futures s a = Some f" "\<not> receive_future_is_terminated f"
  shows "returns (receive_future_poll broadcast_receive_access f cx (vy_chan s))
    (\<lambda>(r, w, f', c). r = Ready (Some u) \<and> receive_future_is_terminated f' \<and> os_value c = Some u)"
proof -
  from bch.value_history_views [OF reach] sent have v: "os_is_fulfilled (vy_chan s)" "os_value (vy_chan s) = Some u"
    by auto
  from bch.value_reach_rep [OF reach] obtain S where rep: "value_sys_rep Some s S" by blast
  note S = value_sys_repD [OF rep]
  from recvs_okD [OF S(3) f(1)] obtain e where e: "vs_data S a = Some e" "rf_wait_node f = a" by blast
  from S(1,2) v e have "rw_state e \<noteq> Rp_Registered" "vs_value S = Some u"
    by (auto simp: vs_inv_def value_abs_def)
  with broadcast_try_receive_refines [OF S(1,2) e(1), of cx] f(2) e show ?thesis
    by (auto simp: receive_future_poll_def receive_future_is_terminated_def broadcast_receive_access_def vs_poll_def
        value_abs_def Let_def elim!: returns_mono)
qed

section \<open>Properties\<close>

text \<open>
  C23: the broadcast channel delivers one value to everybody: the first one sent. Sending it wakes
  every waiting future, the oldest first; afterwards every \<open>send\<close> gives its value back and changes
  nothing, so that in every run the first value accepted stays the one accepted. It stays in the
  channel, every poll of every future that has not completed returns it, and nothing else was
  received. No call faults.
\<close>

theorem broadcast_delivers_to_all:
  assumes "value_reachable broadcast_ops s"
  shows "(\<exists>q. ll_rep (os_nodes (vy_chan s)) (os_waiters (vy_chan s)) q \<and>
      (if os_is_fulfilled (vy_chan s)
       then q = [] \<and> broadcast_send v (vy_chan s) = Inr (Inl (Channel_Send_Error v), [], vy_chan s)
       else vy_sent s = None \<and> returns (broadcast_send v (vy_chan s)) (\<lambda>(r, w, c). r = Inr () \<and> os_is_fulfilled c \<and>
         os_value c = Some v \<and> ll_rep (os_nodes c) (os_waiters c) [] \<and>
         w = map (\<lambda>a. the (rw_task (the (data_of (os_nodes (vy_chan s)) a)))) (rev q)))) \<and>
    (\<forall>u acts t. vy_sent s = Some u \<longrightarrow> exec_all value_enabled (value_exec broadcast_ops) acts s = Some t \<longrightarrow>
      vy_sent t = Some u) \<and>
    (\<forall>u a f cx. vy_sent s = Some u \<longrightarrow> vy_futures s a = Some f \<longrightarrow> \<not> receive_future_is_terminated f \<longrightarrow>
      returns (receive_future_poll broadcast_receive_access f cx (vy_chan s))
        (\<lambda>(r, w, f', c). r = Ready (Some u) \<and> receive_future_is_terminated f' \<and> os_value c = Some u)) \<and>
    os_value (vy_chan s) = vy_sent s \<and> set (vy_received s) \<subseteq> set_option (vy_sent s) \<and>
    (value_enabled act s \<longrightarrow> (\<exists>t. value_exec broadcast_ops act s = Inr t))"
proof -
  have ops: "vo_send broadcast_ops = broadcast_send" "vo_access broadcast_ops = broadcast_receive_access"
    by (simp_all add: broadcast_ops_def)
  show ?thesis
    using bch.value_history_views [OF assms] bch.value_runs [OF assms, of act]
      bch.value_send_outcome [OF assms, of v, unfolded ops] bch.value_sent_stays [OF _ assms]
      broadcast_poll_delivers [OF assms]
    by (intro conjI) (auto split: option.splits)
qed

lemmas broadcast_eval =
  broadcast_ops_def broadcast_receive_access_def broadcast_try_receive_def broadcast_send_def
  broadcast_close_def broadcast_wake_waiters_def broadcast_wake_waiter_def

lemma broadcast_demo_run:
  "\<exists>s. exec_all value_enabled (value_exec broadcast_ops)
     [Vc_Receive 2, Vc_Poll 2 (Waker 2 0), Vc_Receive 3, Vc_Poll 3 (Waker 3 0), Vc_Send (7 :: nat),
      Vc_Poll 3 (Waker 3 0), Vc_Poll 2 (Waker 2 0)] value_sys_new = Some s \<and> vy_received s = [7, 7] \<and> vy_sent s = Some 7"
  by (simp add: broadcast_eval oneshot_eval ll_eval)

theorem broadcast_delivers_to_all_witness:
  "\<exists>s :: nat value_sys. vy_received s = [7, 7] \<and> os_value (vy_chan s) = Some 7 \<and>
     (\<forall>t. exec_all value_enabled (value_exec broadcast_ops) [Vc_Send 9] s = Some t \<longrightarrow> vy_sent t = Some 7)"
proof -
  from broadcast_demo_run obtain s where s: "exec_all value_enabled (value_exec broadcast_ops)
     [Vc_Receive 2, Vc_Poll 2 (Waker 2 0), Vc_Receive 3, Vc_Poll 3 (Waker 3 0), Vc_Send (7 :: nat),
      Vc_Poll 3 (Waker 3 0), Vc_Poll 2 (Waker 2 0)] value_sys_new = Some s" "vy_received s = [7, 7]" "vy_sent s = Some 7"
    by blast
  have "value_reachable broadcast_ops s" by (rule exec_all_reach [OF s(1) reach_init]) simp
  from broadcast_delivers_to_all [OF this, of 9 Vc_Close] s(2,3) show ?thesis
    by (intro exI [of _ s]) (simp del: exec_all.simps)
qed

text \<open>
  A flaw that the code admits in a comment: after one of two receivers is dropped, the other still
  waits, but the channel is closed, its future gets \<open>None\<close> and the sender its value back.
\<close>

lemma broadcast_receiver_drop_closes:
  "\<exists>s c. exec_all value_enabled (value_exec broadcast_ops) [Vc_Receive 2, Vc_Poll 2 (Waker 2 0)] value_sys_new = Some s \<and>
     broadcast_receiver_drop (vy_chan s) = Inr ([Waker 2 0], c) \<and>
     broadcast_send 7 c = Inr (Inl (Channel_Send_Error (7 :: nat)), [], c)"
  by (simp add: broadcast_receiver_drop_def broadcast_eval oneshot_eval ll_eval)

end
