(* ===== verification/Oneshot_Shared.thy ===== *)
theory Oneshot_Shared
  imports Oneshot_Broadcast Arc
begin

text \<open>
  The modules \<open>shared\<close> of \<^verbatim>\<open>src/channel/oneshot.rs\<close> and \<^verbatim>\<open>src/channel/oneshot_broadcast.rs\<close>: a
  sender and receivers that own the channel through a counted reference, and futures that outlive
  them. The two files have the same code, except that the receivers of the broadcast channel can
  be cloned; the locale \<open>shared_value_channel\<close> holds what is proved for both.
\<close>

section \<open>The handles of the oneshot channel\<close>

definition oneshot_channel_default :: "'v oneshot_state" where
  "oneshot_channel_default = oneshot_state_new"

definition oneshot_channel_new :: "'v oneshot_state" where
  "oneshot_channel_new = oneshot_channel_default"

definition oneshot_channel_send ::
  "'v \<Rightarrow> 'v oneshot_state \<Rightarrow> (('v channel_send_error + unit) \<times> waker list \<times> 'v oneshot_state) res" where
  "oneshot_channel_send v c = oneshot_send v c"

text \<open>The sender and the receiver hold a reference each.\<close>

definition generic_oneshot_channel :: "addr \<Rightarrow> 'v oneshot_state arc res" where
  "generic_oneshot_channel p =
     (let inner = arc_new p oneshot_channel_new in
      and_then (arc_clone inner) (\<lambda>inner. Inr inner))"

definition oneshot_shared_access :: "('v oneshot_state, 'v) receive_access" where
  "oneshot_shared_access =
     \<lparr>ra_receive_or_register = (\<lambda>wait_node cx c. ra_receive_or_register oneshot_receive_access wait_node cx c),
      ra_remove_receive_waiter = (\<lambda>wait_node c. ra_remove_receive_waiter oneshot_receive_access wait_node c)\<rparr>"

definition oneshot_sender_send ::
  "'v \<Rightarrow> 'v oneshot_state arc \<Rightarrow> (('v channel_send_error + unit) \<times> waker list \<times> 'v oneshot_state arc) res" where
  "oneshot_sender_send v c =
     and_then (arc_get c) (\<lambda>ch.
     and_then (oneshot_channel_send v ch) (\<lambda>(r, w, ch).
     Inr (r, w, c\<lparr>arc_inner := ch\<rparr>)))"

definition oneshot_receiver_receive ::
  "addr \<Rightarrow> 'v oneshot_state arc \<Rightarrow> (receive_future \<times> recv_waiter list_node \<times> 'v oneshot_state arc) res" where
  "oneshot_receiver_receive a c =
     and_then (arc_clone c) (\<lambda>c.
     Inr (\<lparr>rf_channel = True, rf_wait_node = a\<rparr>, list_node_new recv_waiter_new, c))"

section \<open>The handles of the oneshot broadcast channel\<close>

definition broadcast_channel_default :: "'v broadcast_state" where
  "broadcast_channel_default = broadcast_state_new"

definition broadcast_channel_new :: "'v broadcast_state" where
  "broadcast_channel_new = broadcast_channel_default"

definition broadcast_channel_send ::
  "'v \<Rightarrow> 'v broadcast_state \<Rightarrow> (('v channel_send_error + unit) \<times> waker list \<times> 'v broadcast_state) res" where
  "broadcast_channel_send v c = broadcast_send v c"

definition generic_oneshot_broadcast_channel :: "addr \<Rightarrow> 'v broadcast_state arc res" where
  "generic_oneshot_broadcast_channel p =
     (let inner = arc_new p broadcast_channel_new in
      and_then (arc_clone inner) (\<lambda>inner. Inr inner))"

definition broadcast_shared_access :: "('v broadcast_state, 'v) receive_access" where
  "broadcast_shared_access =
     \<lparr>ra_receive_or_register = (\<lambda>wait_node cx c. ra_receive_or_register broadcast_receive_access wait_node cx c),
      ra_remove_receive_waiter = (\<lambda>wait_node c. ra_remove_receive_waiter broadcast_receive_access wait_node c)\<rparr>"

definition broadcast_sender_send ::
  "'v \<Rightarrow> 'v broadcast_state arc \<Rightarrow> (('v channel_send_error + unit) \<times> waker list \<times> 'v broadcast_state arc) res" where
  "broadcast_sender_send v c =
     and_then (arc_get c) (\<lambda>ch.
     and_then (broadcast_channel_send v ch) (\<lambda>(r, w, ch).
     Inr (r, w, c\<lparr>arc_inner := ch\<rparr>)))"

definition broadcast_receiver_clone :: "'v broadcast_state arc \<Rightarrow> 'v broadcast_state arc res" where
  "broadcast_receiver_clone c = arc_clone c"

definition broadcast_receiver_receive ::
  "addr \<Rightarrow> 'v broadcast_state arc \<Rightarrow> (receive_future \<times> recv_waiter list_node \<times> 'v broadcast_state arc) res" where
  "broadcast_receiver_receive a c =
     and_then (arc_clone c) (\<lambda>c.
     Inr (\<lparr>rf_channel = True, rf_wait_node = a\<rparr>, list_node_new recv_waiter_new, c))"

section \<open>The system of handles and futures\<close>

record 'v shared_value_ops =
  so_new :: "addr \<Rightarrow> 'v oneshot_state arc res"
  so_send :: "'v \<Rightarrow> 'v oneshot_state arc \<Rightarrow> (('v channel_send_error + unit) \<times> waker list \<times> 'v oneshot_state arc) res"
  so_sender_drop :: "'v oneshot_state arc \<Rightarrow> (waker list \<times> 'v oneshot_state arc) res"
  so_receiver_drop :: "'v oneshot_state arc \<Rightarrow> (waker list \<times> 'v oneshot_state arc) res"
  so_receiver_clone :: "('v oneshot_state arc \<Rightarrow> 'v oneshot_state arc res) option"
  so_receive :: "addr \<Rightarrow> 'v oneshot_state arc \<Rightarrow> (receive_future \<times> recv_waiter list_node \<times> 'v oneshot_state arc) res"
  so_access :: "('v oneshot_state, 'v) receive_access"

definition oneshot_shared_ops :: "'v shared_value_ops" where
  "oneshot_shared_ops =
     \<lparr>so_new = generic_oneshot_channel, so_send = oneshot_sender_send,
      so_sender_drop = handle_drop oneshot_sender_drop, so_receiver_drop = handle_drop oneshot_receiver_drop,
      so_receiver_clone = None, so_receive = oneshot_receiver_receive, so_access = oneshot_shared_access\<rparr>"

definition broadcast_shared_ops :: "'v shared_value_ops" where
  "broadcast_shared_ops =
     \<lparr>so_new = generic_oneshot_broadcast_channel, so_send = broadcast_sender_send,
      so_sender_drop = handle_drop broadcast_sender_drop, so_receiver_drop = handle_drop broadcast_receiver_drop,
      so_receiver_clone = Some broadcast_receiver_clone, so_receive = broadcast_receiver_receive,
      so_access = broadcast_shared_access\<rparr>"

text \<open>
  The sender, while it is alive, the number of receivers alive, whether any of these handles was
  dropped, and the futures. The wait nodes are part of the futures, so their store outlives the
  channel.
\<close>

record 'v shared_value_sys =
  sv_arc :: "'v oneshot_state arc"
  sv_sender :: bool
  sv_receivers :: nat
  sv_ended :: bool
  sv_futures :: "addr \<rightharpoonup> receive_future"
  sv_woken :: "waker list"
  sv_sent :: "'v option"
  sv_received :: "'v list"

datatype 'v shared_value_action =
    Sv_Send 'v
  | Sv_Drop_Sender
  | Sv_Clone_Receiver
  | Sv_Drop_Receiver
  | Sv_Receive addr
  | Sv_Poll addr waker
  | Sv_Drop addr

definition shared_value_sys_new :: "'v shared_value_ops \<Rightarrow> addr \<Rightarrow> 'v shared_value_sys res" where
  "shared_value_sys_new sops p =
     and_then (so_new sops p) (\<lambda>c.
     Inr \<lparr>sv_arc = c, sv_sender = True, sv_receivers = 1, sv_ended = False, sv_futures = Map.empty, sv_woken = [],
          sv_sent = None, sv_received = []\<rparr>)"

text \<open>
  Calls go through handles that are alive; \<open>2 ^ 63\<close> references do not fit into the memory of a
  64-bit machine.
\<close>

fun shared_value_enabled :: "'v shared_value_ops \<Rightarrow> 'v shared_value_action \<Rightarrow> 'v shared_value_sys \<Rightarrow> bool" where
  "shared_value_enabled sops (Sv_Send v) s = sv_sender s"
| "shared_value_enabled sops Sv_Drop_Sender s = sv_sender s"
| "shared_value_enabled sops Sv_Clone_Receiver s =
     (so_receiver_clone sops \<noteq> None \<and> 0 < sv_receivers s \<and> unat (arc_strong (sv_arc s)) < 2 ^ 63)"
| "shared_value_enabled sops Sv_Drop_Receiver s = (0 < sv_receivers s)"
| "shared_value_enabled sops (Sv_Receive a) s =
     (0 < sv_receivers s \<and> os_nodes (arc_inner (sv_arc s)) a = None \<and> unat (arc_strong (sv_arc s)) < 2 ^ 63)"
| "shared_value_enabled sops (Sv_Poll a cx) s =
     (case sv_futures s a of None \<Rightarrow> False | Some f \<Rightarrow> \<not> shared_receive_future_is_terminated f)"
| "shared_value_enabled sops (Sv_Drop a) s = (sv_futures s a \<noteq> None)"

definition set_nodes :: "recv_waiter store \<Rightarrow> 'v oneshot_state arc \<Rightarrow> 'v oneshot_state arc" where
  "set_nodes h c = c\<lparr>arc_inner := (arc_inner c)\<lparr>os_nodes := h\<rparr>\<rparr>"

fun shared_value_exec ::
  "'v shared_value_ops \<Rightarrow> 'v shared_value_action \<Rightarrow> 'v shared_value_sys \<Rightarrow> 'v shared_value_sys res" where
  "shared_value_exec sops (Sv_Send v) s =
     and_then (so_send sops v (sv_arc s)) (\<lambda>(r, w, c).
     Inr (s\<lparr>sv_arc := c, sv_woken := sv_woken s @ w,
            sv_sent := (case r of Inr _ \<Rightarrow> Some v | Inl _ \<Rightarrow> sv_sent s)\<rparr>))"
| "shared_value_exec sops Sv_Drop_Sender s =
     and_then (so_sender_drop sops (sv_arc s)) (\<lambda>(w, c).
     Inr (s\<lparr>sv_arc := c, sv_sender := False, sv_ended := True, sv_woken := sv_woken s @ w\<rparr>))"
| "shared_value_exec sops Sv_Clone_Receiver s =
     and_then ((case so_receiver_clone sops of Some f \<Rightarrow> f | None \<Rightarrow> Inr) (sv_arc s)) (\<lambda>c.
     Inr (s\<lparr>sv_arc := c, sv_receivers := Suc (sv_receivers s)\<rparr>))"
| "shared_value_exec sops Sv_Drop_Receiver s =
     and_then (so_receiver_drop sops (sv_arc s)) (\<lambda>(w, c).
     Inr (s\<lparr>sv_arc := c, sv_receivers := sv_receivers s - 1, sv_ended := True, sv_woken := sv_woken s @ w\<rparr>))"
| "shared_value_exec sops (Sv_Receive a) s =
     and_then (so_receive sops a (sv_arc s)) (\<lambda>(f, node, c).
     Inr (s\<lparr>sv_arc := set_nodes ((os_nodes (arc_inner c))(a \<mapsto> node)) c,
            sv_futures := (sv_futures s)(a \<mapsto> f)\<rparr>))"
| "shared_value_exec sops (Sv_Poll a cx) s =
     and_then (deref (sv_futures s) a) (\<lambda>f.
     and_then (arc_receive_future_poll (so_access sops) f cx (sv_arc s)) (\<lambda>(r, w, f, c).
     Inr (s\<lparr>sv_arc := c, sv_futures := (sv_futures s)(a \<mapsto> f), sv_woken := sv_woken s @ w,
            sv_received := sv_received s @ (case r of Ready (Some v) \<Rightarrow> [v] | _ \<Rightarrow> [])\<rparr>)))"
| "shared_value_exec sops (Sv_Drop a) s =
     and_then (deref (sv_futures s) a) (\<lambda>f.
     and_then (arc_receive_future_drop (so_access sops) f (sv_arc s)) (\<lambda>(w, c).
     Inr (s\<lparr>sv_arc := set_nodes ((os_nodes (arc_inner c))(a := None)) c,
            sv_futures := (sv_futures s)(a := None), sv_woken := sv_woken s @ w\<rparr>)))"

abbreviation shared_value_reachable :: "'v shared_value_ops \<Rightarrow> addr \<Rightarrow> 'v shared_value_sys \<Rightarrow> bool" where
  "shared_value_reachable sops p \<equiv>
     reach (\<lambda>s. shared_value_sys_new sops p = Inr s) (shared_value_enabled sops) (shared_value_exec sops)"

section \<open>A fulfilled channel stays fulfilled\<close>

context value_channel
begin

lemma vs_poll_fulfilled: "vs_poll keep a cx S = (r, S') \<Longrightarrow> vs_fulfilled S' = vs_fulfilled S"
  by (auto simp: vs_poll_def Let_def split: if_splits option.splits)

lemma vs_remove_fulfilled [simp]: "vs_fulfilled (vs_remove a S) = vs_fulfilled S"
  by (simp add: vs_remove_def Let_def)

lemma value_exec_fulfilled:
  assumes "value_sys_inv keep s" "value_enabled act s"
  shows "returns (value_exec vops act s)
    (\<lambda>t. os_is_fulfilled (vy_chan s) \<or> act = Vc_Close \<longrightarrow> os_is_fulfilled (vy_chan t))"
proof -
  from assms(1) obtain S where rep: "value_sys_rep keep s S" by (auto simp: value_sys_inv_def)
  note S = value_sys_repD [OF rep]
  from S(1) have same: "os_is_fulfilled (vy_chan s) = vs_fulfilled S" by (simp add: value_abs_def)
  have abs: "os_is_fulfilled c = vs_fulfilled S'" if "value_abs c S'" for c S'
    using that by (simp add: value_abs_def)
  show ?thesis
  proof (cases act)
    case (Vc_Send v)
    with send_law [OF S(1), of v] same show ?thesis
      by (auto simp: vs_fulfil_def dest: abs elim!: returns_mono split: if_splits)
  next
    case Vc_Close
    with close_law [OF S(1)] same show ?thesis
      by (auto simp: vs_fulfil_def dest: abs elim!: returns_mono split: if_splits)
  next
    case (Vc_Receive a)
    then show ?thesis by (simp add: oneshot_receive_def)
  next
    case (Vc_Poll a cx)
    with assms(2) obtain f where f: "vy_futures s a = Some f" "rf_channel f"
      by (auto simp: receive_future_is_terminated_def split: option.splits)
    from recvs_okD [OF S(3) f(1)] obtain e where e: "vs_data S a = Some e" "rf_wait_node f = a" by auto
    from poll_law [OF S(1,2) e(1), of cx] same f e(2) Vc_Poll show ?thesis
      by (auto simp: receive_future_poll_def elim!: returns_mono dest!: abs vs_poll_fulfilled)
  next
    case (Vc_Drop a)
    with assms(2) obtain f where f: "vy_futures s a = Some f" by auto
    from recvs_okD [OF S(3) f] obtain e where e: "vs_data S a = Some e" "rf_wait_node f = a" by auto
    from remove_law [OF S(1,2) e(1)] same f e(2) Vc_Drop show ?thesis
      by (auto simp: receive_future_drop_def elim!: returns_mono dest!: abs)
  qed
qed

lemma value_exec_both:
  assumes "value_sys_inv keep s" "value_enabled act s"
  obtains t where "value_exec vops act s = Inr t" "value_sys_inv keep t"
    "os_is_fulfilled (vy_chan s) \<or> act = Vc_Close \<Longrightarrow> os_is_fulfilled (vy_chan t)"
  using value_exec_preserves [OF assms] value_exec_fulfilled [OF assms] by (auto simp: returns_iff)

lemma value_poll_ready:
  assumes inv: "value_sys_inv keep s" and f: "vy_futures s a = Some f" "rf_channel f"
    and fulfilled: "os_is_fulfilled (vy_chan s)"
  shows "returns (receive_future_poll (vo_access vops) f cx (vy_chan s))
    (\<lambda>(r, w, f', c). r = Ready (os_value (vy_chan s)) \<and> w = [])"
proof -
  from inv obtain S where rep: "value_sys_rep keep s S" by (auto simp: value_sys_inv_def)
  note S = value_sys_repD [OF rep]
  from recvs_okD [OF S(3) f(1)] obtain e where e: "vs_data S a = Some e" "rf_wait_node f = a" by blast
  from S(1,2) fulfilled e have "rw_state e \<noteq> Rp_Registered" "vs_fulfilled S" "os_value (vy_chan s) = vs_value S"
    by (auto simp: vs_inv_def value_abs_def)
  with poll_law [OF S(1,2) e(1), of cx] f(2) e show ?thesis
    by (auto simp: receive_future_poll_def vs_poll_def Let_def elim!: returns_mono split: option.splits)
qed

end

section \<open>Shared channels with a single value\<close>

text \<open>
  The contract of the handles over that of the channel: they forward to it while they hold their
  reference, and closing is all that \<open>drop\<close> does.
\<close>

locale shared_value_channel = value_channel vops keep
  for vops :: "'v value_ops" and keep :: "'v \<Rightarrow> 'v option" +
  fixes sops :: "'v shared_value_ops"
  assumes new_law: "\<exists>c. so_new sops p = Inr c \<and> arc_counts c 2 \<and> arc_inner c = oneshot_state_new"
    and shared_send_law: "so_send sops v c = and_then (arc_get c) (\<lambda>ch.
      and_then (vo_send vops v ch) (\<lambda>(r, w, ch). Inr (r, w, c\<lparr>arc_inner := ch\<rparr>)))"
    and sender_drop_law: "so_sender_drop sops c =
      handle_drop (\<lambda>ch. and_then (vo_close vops ch) (\<lambda>(_, w, ch). Inr (w, ch))) c"
    and receiver_drop_law: "so_receiver_drop sops c =
      handle_drop (\<lambda>ch. and_then (vo_close vops ch) (\<lambda>(_, w, ch). Inr (w, ch))) c"
    and clone_law: "so_receiver_clone sops = None \<or> so_receiver_clone sops = Some arc_clone"
    and shared_receive_law: "so_receive sops a c = and_then (arc_clone c) (\<lambda>c.
      case oneshot_receive a of (f, node) \<Rightarrow> Inr (f, node, c))"
    and access_law: "so_access sops = vo_access vops"

interpretation shared_oneshot: shared_value_channel oneshot_ops "\<lambda>_. None" oneshot_shared_ops
proof unfold_locales
  fix p
  show "\<exists>c. so_new oneshot_shared_ops p = Inr c \<and> arc_counts c 2 \<and> arc_inner c = (oneshot_state_new :: 'a oneshot_state)"
    by (simp add: oneshot_shared_ops_def generic_oneshot_channel_def arc_new_def arc_clone_def arc_get_def
        arc_counts_def oneshot_channel_new_def oneshot_channel_default_def)
qed (auto simp: oneshot_shared_ops_def oneshot_ops_def oneshot_sender_send_def oneshot_channel_send_def
    oneshot_receiver_receive_def oneshot_receive_def oneshot_shared_access_def oneshot_sender_drop_def [abs_def]
    oneshot_receiver_drop_def [abs_def] oneshot_receive_access_def)

interpretation shared_broadcast: shared_value_channel broadcast_ops Some broadcast_shared_ops
proof unfold_locales
  fix p
  show "\<exists>c. so_new broadcast_shared_ops p = Inr c \<and> arc_counts c 2 \<and> arc_inner c = (oneshot_state_new :: 'a oneshot_state)"
    by (simp add: broadcast_shared_ops_def generic_oneshot_broadcast_channel_def arc_new_def arc_clone_def
        arc_get_def arc_counts_def broadcast_channel_new_def broadcast_channel_default_def broadcast_same_code)
qed (auto simp: broadcast_shared_ops_def broadcast_ops_def broadcast_sender_send_def broadcast_channel_send_def
    broadcast_receiver_receive_def oneshot_receive_def broadcast_shared_access_def
    broadcast_sender_drop_def [abs_def] broadcast_receiver_drop_def [abs_def] broadcast_receive_access_def
    broadcast_receiver_clone_def [abs_def])

section \<open>The invariant of the system\<close>

text \<open>The channel with its futures, without the handles, and the owners of a reference.\<close>

definition sv_view :: "'v shared_value_sys \<Rightarrow> 'v value_sys" where
  "sv_view s =
     \<lparr>vy_chan = arc_inner (sv_arc s), vy_futures = sv_futures s, vy_woken = sv_woken s,
      vy_sent = sv_sent s, vy_received = sv_received s\<rparr>"

text \<open>The wakers of the futures that wait, the oldest first.\<close>

definition value_wakers :: "'v oneshot_state \<Rightarrow> addr list \<Rightarrow> waker list" where
  "value_wakers c q = concat (map (\<lambda>a. wake_opt (rw_task (the (data_of (os_nodes c) a)))) (rev q))"

abbreviation live_futures :: "(addr \<rightharpoonup> receive_future) \<Rightarrow> addr set" where
  "live_futures \<equiv> owning rf_channel"

definition sv_owners :: "'v shared_value_sys \<Rightarrow> nat" where
  "sv_owners s = (if sv_sender s then 1 else 0) + sv_receivers s + card (live_futures (sv_futures s))"

definition shared_value_inv :: "('v \<Rightarrow> 'v option) \<Rightarrow> 'v shared_value_sys \<Rightarrow> bool" where
  "shared_value_inv keep s \<longleftrightarrow>
     value_sys_inv keep (sv_view s) \<and> finite (dom (sv_futures s)) \<and> arc_counts (sv_arc s) (sv_owners s) \<and>
     (sv_ended s \<longrightarrow> os_is_fulfilled (arc_inner (sv_arc s)))"

lemma sv_view_simps [simp]:
  "vy_chan (sv_view s) = arc_inner (sv_arc s)" "vy_futures (sv_view s) = sv_futures s"
  "vy_sent (sv_view s) = sv_sent s" "vy_received (sv_view s) = sv_received s"
  "vy_woken (sv_view s) = sv_woken s"
  by (simp_all add: sv_view_def)

context shared_value_channel
begin

lemma shared_value_invD:
  assumes "shared_value_inv keep s"
  shows "value_sys_inv keep (sv_view s)" "finite (dom (sv_futures s))" "arc_counts (sv_arc s) (sv_owners s)"
    "sv_ended s \<Longrightarrow> os_is_fulfilled (arc_inner (sv_arc s))"
  using assms by (auto simp: shared_value_inv_def)

text \<open>Dropping a handle closes the channel and gives up one reference.\<close>

lemma handle_drop_closes:
  assumes inv: "shared_value_inv keep s" and owners: "sv_owners s = Suc n"
  shows "\<exists>w c. handle_drop (\<lambda>ch. and_then (vo_close vops ch) (\<lambda>(_, w, ch). Inr (w, ch))) (sv_arc s) = Inr (w, c) \<and>
    arc_counts c n \<and> os_is_fulfilled (arc_inner c) \<and>
    (\<forall>q. ll_rep (os_nodes (arc_inner (sv_arc s))) (os_waiters (arc_inner (sv_arc s))) q \<longrightarrow>
      w = value_wakers (arc_inner (sv_arc s)) q) \<and>
    value_sys_inv keep ((sv_view s)\<lparr>vy_chan := arc_inner c, vy_woken := sv_woken s @ w\<rparr>)"
proof -
  note S = shared_value_invD [OF inv]
  obtain t where t: "value_exec vops Vc_Close (sv_view s) = Inr t" "value_sys_inv keep t"
    "os_is_fulfilled (vy_chan t)"
    using value_exec_both [OF S(1), of Vc_Close] by (auto simp del: value_exec.simps)
  then obtain r w ch where close: "vo_close vops (arc_inner (sv_arc s)) = Inr (r, w, ch)"
    and t': "t = (sv_view s)\<lparr>vy_chan := ch, vy_woken := sv_woken s @ w\<rparr>"
    by (auto simp: and_then_eq_Inr sv_view_def)
  from S(1) obtain V where "value_sys_rep keep (sv_view s) V" by (auto simp: value_sys_inv_def)
  note V = value_sys_repD(1,2) [OF this]
  have woken: "w = value_wakers (arc_inner (sv_arc s)) q"
    if "ll_rep (os_nodes (arc_inner (sv_arc s))) (os_waiters (arc_inner (sv_arc s))) q" for q
  proof -
    from V(1) that have "vs_queue V = q" "vs_data V = data_of (os_nodes (arc_inner (sv_arc s)))"
      by (auto simp: value_abs_def intro: ll_rep_unique)
    then have "value_wakers (arc_inner (sv_arc s)) q = vs_wakers V" by (simp add: value_wakers_def vs_wakers_def)
    moreover have "vs_queue V = []" if "vs_fulfilled V" using V(2) that by (simp add: vs_inv_def)
    ultimately show ?thesis using close_law [OF V(1)] close by (auto simp: vs_wakers_def split: if_splits)
  qed
  from S(3) owners have "arc_counts ((sv_arc s)\<lparr>arc_inner := ch\<rparr>) (Suc n)" by simp
  from arc_drop_counts [OF this] obtain c where
    c: "arc_drop ((sv_arc s)\<lparr>arc_inner := ch\<rparr>) = Inr c" "arc_counts c n" "arc_inner c = ch" by auto
  with close t t' S(3) owners woken show ?thesis by (auto simp: handle_drop_def)
qed

lemma sv_drop_end:
  assumes inv: "shared_value_inv keep s" and act: "act = Sv_Drop_Sender \<or> act = Sv_Drop_Receiver"
    and enabled: "shared_value_enabled sops act s"
    and q: "ll_rep (os_nodes (arc_inner (sv_arc s))) (os_waiters (arc_inner (sv_arc s))) q"
  shows "returns (shared_value_exec sops act s) (\<lambda>t. os_is_fulfilled (arc_inner (sv_arc t)) \<and>
    sv_woken t = sv_woken s @ value_wakers (arc_inner (sv_arc s)) q)"
proof -
  have "\<exists>n. sv_owners s = Suc n" using act enabled by (cases "sv_owners s") (auto simp: sv_owners_def)
  then obtain n where "sv_owners s = Suc n" by blast
  from handle_drop_closes [OF inv this] act q show ?thesis
    by (auto simp: sender_drop_law receiver_drop_law)
qed

lemma sv_send_preserves:
  assumes inv: "shared_value_inv keep s" and "sv_sender s"
  shows "returns (shared_value_exec sops (Sv_Send v) s) (shared_value_inv keep)"
proof -
  note S = shared_value_invD [OF inv]
  obtain t where t: "value_exec vops (Vc_Send v) (sv_view s) = Inr t" "value_sys_inv keep t"
    "os_is_fulfilled (arc_inner (sv_arc s)) \<Longrightarrow> os_is_fulfilled (vy_chan t)"
    using value_exec_both [OF S(1), of "Vc_Send v"] by (auto simp del: value_exec.simps)
  then obtain r w ch where send: "vo_send vops v (arc_inner (sv_arc s)) = Inr (r, w, ch)"
    and t': "t = (sv_view s)\<lparr>vy_chan := ch, vy_woken := sv_woken s @ w,
      vy_sent := (case r of Inr _ \<Rightarrow> Some v | Inl _ \<Rightarrow> sv_sent s)\<rparr>"
    by (auto simp: and_then_eq_Inr cong: sum.case_cong)
  have "0 < sv_owners s" using assms(2) by (simp add: sv_owners_def)
  with S send t(2,3) t' show ?thesis
    by (auto simp: shared_send_law shared_value_inv_def sv_view_def sv_owners_def)
qed

lemma sv_drop_sender_preserves:
  assumes inv: "shared_value_inv keep s" and "sv_sender s"
  shows "returns (shared_value_exec sops Sv_Drop_Sender s) (shared_value_inv keep)"
proof -
  note S = shared_value_invD [OF inv]
  let ?n = "sv_receivers s + card (live_futures (sv_futures s))"
  have "sv_owners s = Suc ?n" using assms(2) by (simp add: sv_owners_def)
  from handle_drop_closes [OF inv this] S(2) show ?thesis
    by (auto simp: sender_drop_law shared_value_inv_def sv_view_def sv_owners_def)
qed

lemma sv_drop_receiver_preserves:
  assumes inv: "shared_value_inv keep s" and "0 < sv_receivers s"
  shows "returns (shared_value_exec sops Sv_Drop_Receiver s) (shared_value_inv keep)"
proof -
  note S = shared_value_invD [OF inv]
  let ?n = "(if sv_sender s then 1 else 0) + (sv_receivers s - 1) + card (live_futures (sv_futures s))"
  have "sv_owners s = Suc ?n" using assms(2) by (simp add: sv_owners_def)
  from handle_drop_closes [OF inv this] S(2) show ?thesis
    by (auto simp: receiver_drop_law shared_value_inv_def sv_view_def sv_owners_def)
qed

lemma sv_clone_preserves:
  assumes inv: "shared_value_inv keep s" and "so_receiver_clone sops \<noteq> None" "0 < sv_receivers s"
    "unat (arc_strong (sv_arc s)) < 2 ^ 63"
  shows "returns (shared_value_exec sops Sv_Clone_Receiver s) (shared_value_inv keep)"
proof -
  note S = shared_value_invD [OF inv]
  have "0 < sv_owners s" "sv_owners s < 2 ^ 63"
    using assms(3,4) S(3) by (auto simp: sv_owners_def arc_counts_def)
  from arc_clone_counts [OF S(3) this] clone_law assms(2) S show ?thesis
    by (auto simp: shared_value_inv_def sv_view_def sv_owners_def)
qed

lemma sv_receive_preserves:
  assumes inv: "shared_value_inv keep s" and "0 < sv_receivers s" "os_nodes (arc_inner (sv_arc s)) a = None"
    "unat (arc_strong (sv_arc s)) < 2 ^ 63"
  shows "returns (shared_value_exec sops (Sv_Receive a) s) (shared_value_inv keep)"
proof -
  note S = shared_value_invD [OF inv]
  obtain t where t: "value_exec vops (Vc_Receive a) (sv_view s) = Inr t" "value_sys_inv keep t"
    using value_exec_both [OF S(1), of "Vc_Receive a"] assms(3) by (auto simp del: value_exec.simps)
  have "0 < sv_owners s" "sv_owners s < 2 ^ 63"
    using assms(2,4) S(3) by (auto simp: sv_owners_def arc_counts_def)
  from arc_clone_counts [OF S(3) this] obtain c where
    c: "arc_clone (sv_arc s) = Inr c" "arc_counts c (Suc (sv_owners s))" "arc_inner c = arc_inner (sv_arc s)" by blast
  from S(1) obtain S' where "value_sys_rep keep (sv_view s) S'" by (auto simp: value_sys_inv_def)
  from value_sys_repD(1,3) [OF this] have "dom (sv_futures s) = dom (vs_data S')"
    "vs_data S' = data_of (os_nodes (arc_inner (sv_arc s)))"
    by (simp_all add: recvs_ok_def value_abs_def)
  moreover have "data_of (os_nodes (arc_inner (sv_arc s))) a = None" using assms(3) by simp
  ultimately have "sv_futures s a = None" by (metis domIff)
  note card = owning_card(1) [where P = rf_channel, OF S(2) this]
  obtain f node where fn: "oneshot_receive a = (f, node)" "rf_channel f" by (auto simp: oneshot_receive_def)
  let ?s = "s\<lparr>sv_arc := set_nodes ((os_nodes (arc_inner c))(a \<mapsto> node)) c, sv_futures := (sv_futures s)(a \<mapsto> f)\<rparr>"
  from t fn c(3) have "value_sys_inv keep (sv_view ?s)" by (simp add: sv_view_def set_nodes_def)
  moreover from card fn c(2) have "arc_counts (sv_arc ?s) (sv_owners ?s)" by (simp add: sv_owners_def set_nodes_def)
  moreover have "sv_ended ?s \<longrightarrow> os_is_fulfilled (arc_inner (sv_arc ?s))"
    using S(4) c(3) by (auto simp: set_nodes_def)
  ultimately have "shared_value_inv keep ?s" using S(2) by (simp add: shared_value_inv_def)
  then show ?thesis by (simp add: shared_receive_law c(1) fn)
qed

lemma sv_poll_preserves:
  assumes inv: "shared_value_inv keep s" and f: "sv_futures s a = Some f" "rf_channel f"
  shows "returns (shared_value_exec sops (Sv_Poll a cx) s) (shared_value_inv keep)"
proof -
  note S = shared_value_invD [OF inv]
  obtain t where t: "value_exec vops (Vc_Poll a cx) (sv_view s) = Inr t" "value_sys_inv keep t"
    "os_is_fulfilled (arc_inner (sv_arc s)) \<Longrightarrow> os_is_fulfilled (vy_chan t)"
    using value_exec_both [OF S(1), of "Vc_Poll a cx"] f
    by (auto simp: receive_future_is_terminated_def simp del: value_exec.simps)
  then obtain r w ch where reg:
    "ra_receive_or_register (vo_access vops) (rf_wait_node f) cx (arc_inner (sv_arc s)) = Inr (r, w, ch)"
    and t': "t = (sv_view s)\<lparr>vy_chan := ch,
      vy_futures := (sv_futures s)(a \<mapsto> (if is_ready r then f\<lparr>rf_channel := False\<rparr> else f)),
      vy_woken := sv_woken s @ w, vy_received := sv_received s @ (case r of Ready (Some v) \<Rightarrow> [v] | _ \<Rightarrow> [])\<rparr>"
    using f by (auto simp: receive_future_poll_def and_then_eq_Inr cong: poll.case_cong)
  have live: "a \<in> live_futures (sv_futures s)" using f by (auto simp: owning_def)
  with owning_finite [OF S(2)] have pos: "0 < sv_owners s" by (auto simp: sv_owners_def card_gt_0_iff)
  have poll: "shared_receive_future_poll (arc_receive_access (so_access sops)) f cx (sv_arc s) =
      Inr (r, w, (if is_ready r then f\<lparr>rf_channel := False\<rparr> else f), (sv_arc s)\<lparr>arc_inner := ch\<rparr>)"
    using reg f(2) S(3) pos
    by (simp add: shared_receive_future_poll_def arc_receive_access_def access_law Let_def)
  let ?s = "\<lambda>c f. s\<lparr>sv_arc := c, sv_futures := (sv_futures s)(a \<mapsto> f), sv_woken := sv_woken s @ w,
    sv_received := sv_received s @ (case r of Ready (Some v) \<Rightarrow> [v] | _ \<Rightarrow> [])\<rparr>"
  have finish: "shared_value_inv keep (?s c g)"
    if "arc_inner c = ch" "g = (if is_ready r then f\<lparr>rf_channel := False\<rparr> else f)"
      "arc_counts c (sv_owners (?s c g))" for c g
  proof -
    have "sv_view (?s c g) = t" using that(1,2) t' by (simp add: sv_view_def)
    with t(2) have "value_sys_inv keep (sv_view (?s c g))" by (simp only:)
    moreover have "os_is_fulfilled (arc_inner (sv_arc s)) \<longrightarrow> os_is_fulfilled ch" using t(3) t' by simp
    ultimately show ?thesis using that(1,3) S(2,4) by (simp add: shared_value_inv_def)
  qed
  show ?thesis
  proof (cases "is_ready r")
    case True
    note card = owning_card(3) [where P = rf_channel and F = "sv_futures s" and a = a and g = f and f = "f\<lparr>rf_channel := False\<rparr>", OF S(2) f]
    let ?n = "(if sv_sender s then 1 else 0) + sv_receivers s +
      card (live_futures ((sv_futures s)(a \<mapsto> f\<lparr>rf_channel := False\<rparr>)))"
    from card S(3) have "arc_counts ((sv_arc s)\<lparr>arc_inner := ch\<rparr>) (Suc ?n)" by (simp add: sv_owners_def)
    from arc_drop_counts [OF this] obtain c where
      c: "arc_drop ((sv_arc s)\<lparr>arc_inner := ch\<rparr>) = Inr c" "arc_counts c ?n" "arc_inner c = ch" by auto
    from finish [OF c(3), of "f\<lparr>rf_channel := False\<rparr>"] c True poll f(1) show ?thesis
      by (simp add: arc_receive_future_poll_def sv_owners_def)
  next
    case False
    have "live_futures ((sv_futures s)(a \<mapsto> f)) = live_futures (sv_futures s)"
      by (rule owning_card(2) [where P = rf_channel and F = "sv_futures s" and a = a and g = f, OF S(2) f(1)]) simp
    with finish [of "(sv_arc s)\<lparr>arc_inner := ch\<rparr>" f] S(3) False poll f(1) show ?thesis
      by (simp add: arc_receive_future_poll_def sv_owners_def)
  qed
qed

lemma sv_drop_preserves:
  assumes inv: "shared_value_inv keep s" and f: "sv_futures s a = Some f"
  shows "returns (shared_value_exec sops (Sv_Drop a) s) (shared_value_inv keep)"
proof -
  note S = shared_value_invD [OF inv]
  obtain t where t: "value_exec vops (Vc_Drop a) (sv_view s) = Inr t" "value_sys_inv keep t"
    "os_is_fulfilled (arc_inner (sv_arc s)) \<Longrightarrow> os_is_fulfilled (vy_chan t)"
    using value_exec_both [OF S(1), of "Vc_Drop a"] f by (auto simp del: value_exec.simps)
  then obtain w ch where drop: "receive_future_drop (vo_access vops) f (arc_inner (sv_arc s)) = Inr (w, ch)"
    and t': "t = (sv_view s)\<lparr>vy_chan := ch\<lparr>os_nodes := (os_nodes ch)(a := None)\<rparr>,
      vy_futures := (sv_futures s)(a := None), vy_woken := sv_woken s @ w\<rparr>"
    using f by (auto simp: and_then_eq_Inr)
  let ?s = "\<lambda>c. s\<lparr>sv_arc := set_nodes ((os_nodes (arc_inner c))(a := None)) c,
    sv_futures := (sv_futures s)(a := None), sv_woken := sv_woken s @ w\<rparr>"
  have finish: "shared_value_inv keep (?s c)"
    if "arc_inner c = ch" "arc_counts c (sv_owners (?s c))" for c
  proof -
    have "sv_view (?s c) = t" using that(1) t' by (simp add: sv_view_def set_nodes_def)
    with t(2) have "value_sys_inv keep (sv_view (?s c))" by (simp only:)
    moreover have "arc_counts (sv_arc (?s c)) (sv_owners (?s c))" using that(2) by (simp add: set_nodes_def)
    moreover have "os_is_fulfilled (arc_inner (sv_arc s)) \<longrightarrow> os_is_fulfilled ch" using t(3) t' by simp
    ultimately show ?thesis using S(2,4) that(1) by (simp add: shared_value_inv_def set_nodes_def)
  qed
  show ?thesis
  proof (cases "rf_channel f")
    case True
    note card = owning_card(4) [where P = rf_channel and F = "sv_futures s" and a = a and g = f, OF S(2) f True]
    let ?n = "(if sv_sender s then 1 else 0) + sv_receivers s + card (live_futures ((sv_futures s)(a := None)))"
    from card S(3) have n: "arc_counts ((sv_arc s)\<lparr>arc_inner := ch\<rparr>) (Suc ?n)" "0 < sv_owners s"
      by (simp_all add: sv_owners_def)
    from arc_drop_counts [OF n(1)] obtain c where
      c: "arc_drop ((sv_arc s)\<lparr>arc_inner := ch\<rparr>) = Inr c" "arc_counts c ?n" "arc_inner c = ch" by auto
    from finish [OF c(3)] c True drop f n(2) S(3) show ?thesis
      by (simp add: arc_receive_future_drop_def shared_receive_future_drop_def receive_future_drop_def
          arc_receive_access_def access_law sv_owners_def)
  next
    case False
    with drop have "ch = arc_inner (sv_arc s)" "w = []" by (simp_all add: receive_future_drop_def)
    with finish [of "sv_arc s"] owning_card(5) [where P = rf_channel and F = "sv_futures s" and a = a and g = f, OF S(2) f False] S(3) False f show ?thesis
      by (simp add: arc_receive_future_drop_def shared_receive_future_drop_def sv_owners_def)
  qed
qed

lemma shared_value_exec_preserves:
  assumes "shared_value_inv keep s" "shared_value_enabled sops act s"
  shows "returns (shared_value_exec sops act s) (shared_value_inv keep)"
  using assms(2) sv_send_preserves [OF assms(1)] sv_drop_sender_preserves [OF assms(1)]
    sv_clone_preserves [OF assms(1)] sv_drop_receiver_preserves [OF assms(1)] sv_receive_preserves [OF assms(1)]
    sv_poll_preserves [OF assms(1)] sv_drop_preserves [OF assms(1)]
  by (cases act) (auto simp: shared_receive_future_is_terminated_def simp del: shared_value_exec.simps
      split: option.splits)

lemma shared_value_init:
  assumes "shared_value_sys_new sops p = Inr s"
  shows "shared_value_inv keep s"
proof -
  from new_law [of p] obtain c where c: "so_new sops p = Inr c" "arc_counts c 2" "arc_inner c = oneshot_state_new"
    by blast
  with assms have s: "s = \<lparr>sv_arc = c, sv_sender = True, sv_receivers = 1, sv_ended = False, sv_futures = Map.empty, sv_woken = [],
      sv_sent = None, sv_received = []\<rparr>"
    by (simp add: shared_value_sys_new_def)
  then have "sv_view s = value_sys_new" using c(3) by (simp add: sv_view_def value_sys_new_def)
  moreover have "arc_counts c (Suc (Suc 0))" using c(2) by (simp add: numeral_2_eq_2)
  ultimately show ?thesis
    using c s by (simp add: shared_value_inv_def value_sys_new_inv sv_owners_def owning_def)
qed

end

sublocale shared_value_channel \<subseteq> shsys: transition_system "\<lambda>s. shared_value_sys_new sops p = Inr s"
    "shared_value_enabled sops" "shared_value_exec sops" "shared_value_inv keep" for p
  by unfold_locales (auto simp: shared_value_init simp del: shared_value_exec.simps shared_value_enabled.simps
      intro: shared_value_exec_preserves)

context shared_value_channel
begin

lemma shared_value_reach_inv: "shared_value_reachable sops p s \<Longrightarrow> shared_value_inv keep s"
  by (rule shsys.reach_inv)

lemma sv_alive_iff:
  assumes "shared_value_inv keep s"
  shows "arc_alive (sv_arc s) \<longleftrightarrow>
    sv_sender s \<or> 0 < sv_receivers s \<or> (\<exists>a f. sv_futures s a = Some f \<and> rf_channel f)"
proof -
  note S = shared_value_invD [OF assms]
  have "0 < card (live_futures (sv_futures s)) \<longleftrightarrow> (\<exists>a f. sv_futures s a = Some f \<and> rf_channel f)"
    using owning_finite [OF S(2)] by (auto simp: card_gt_0_iff owning_def)
  with S(3) show ?thesis by (simp add: arc_counts_def sv_owners_def)
qed

text \<open>A channel without its sender or without receivers has lost an end.\<close>

lemma sv_ended_when:
  "shared_value_reachable sops p s \<Longrightarrow> \<not> sv_sender s \<or> sv_receivers s = 0 \<Longrightarrow> sv_ended s"
proof (induction rule: reach.induct)
  case (reach_init s)
  then show ?case by (auto simp: shared_value_sys_new_def and_then_eq_Inr)
next
  case (reach_step s a t)
  then show ?case by (cases a) (auto simp: and_then_eq_Inr)
qed

lemma sv_poll_ready:
  assumes inv: "shared_value_inv keep s" and ended: "os_is_fulfilled (arc_inner (sv_arc s))" and f: "sv_futures s a = Some f" "rf_channel f"
  shows "returns (shared_value_exec sops (Sv_Poll a cx) s) (\<lambda>t.
    (\<exists>f'. sv_futures t a = Some f' \<and> shared_receive_future_is_terminated f') \<and>
    sv_received t = sv_received s @ (case os_value (arc_inner (sv_arc s)) of None \<Rightarrow> [] | Some v \<Rightarrow> [v]))"
proof -
  note S = shared_value_invD [OF inv]
  from value_poll_ready [OF S(1), of a f cx] f ended obtain w f' ch where
    "receive_future_poll (vo_access vops) f cx (arc_inner (sv_arc s)) =
      Inr (Ready (os_value (arc_inner (sv_arc s))), w, f', ch)"
    by (auto simp: returns_iff)
  then have reg: "ra_receive_or_register (vo_access vops) (rf_wait_node f) cx (arc_inner (sv_arc s)) =
      Inr (Ready (os_value (arc_inner (sv_arc s))), w, ch)"
    using f(2) by (auto simp: receive_future_poll_def and_then_eq_Inr)
  have "a \<in> live_futures (sv_futures s)" using f by (auto simp: owning_def)
  with owning_finite [OF S(2)] have pos: "0 < sv_owners s" by (auto simp: sv_owners_def card_gt_0_iff)
  then obtain n where "sv_owners s = Suc n" by (cases "sv_owners s") auto
  with S(3) have "arc_counts ((sv_arc s)\<lparr>arc_inner := ch\<rparr>) (Suc n)" by simp
  from arc_drop_counts [OF this] reg f S(3) pos show ?thesis
    by (auto simp: arc_receive_future_poll_def shared_receive_future_poll_def arc_receive_access_def access_law
        Let_def shared_receive_future_is_terminated_def split: option.splits)
qed

end

section \<open>Properties\<close>

text \<open>
  C8: the shared channels are memory safe and do not leak. Every call that the handles and futures
  alive allow returns, so no future touches the channel after it was freed; and the channel is
  freed exactly when the sender, every receiver and every future that still waits is gone.
\<close>

theorem shared_value_no_use_after_free:
  assumes "sops = oneshot_shared_ops \<or> sops = broadcast_shared_ops" and reach: "shared_value_reachable sops p s"
  shows "(arc_alive (sv_arc s) \<longleftrightarrow>
      sv_sender s \<or> 0 < sv_receivers s \<or> (\<exists>a f. sv_futures s a = Some f \<and> rf_channel f)) \<and>
    (shared_value_enabled sops act s \<longrightarrow> (\<exists>t. shared_value_exec sops act s = Inr t))"
  using assms(1)
proof
  assume sops: "sops = oneshot_shared_ops"
  note r = reach [unfolded sops]
  show ?thesis
    unfolding sops using shared_oneshot.sv_alive_iff [OF shared_oneshot.shared_value_reach_inv [OF r]]
      shared_oneshot.shsys.no_fault [OF r] by blast
next
  assume sops: "sops = broadcast_shared_ops"
  note r = reach [unfolded sops]
  show ?thesis
    unfolding sops using shared_broadcast.sv_alive_iff [OF shared_broadcast.shared_value_reach_inv [OF r]]
      shared_broadcast.shsys.no_fault [OF r] by blast
qed

text \<open>A run for the witnesses: a future waits while the only receiver is dropped, then the sender.\<close>

lemmas shared_value_eval =
  broadcast_shared_ops_def generic_oneshot_broadcast_channel_def broadcast_channel_new_def
  broadcast_channel_default_def broadcast_state_new_def broadcast_sender_send_def broadcast_channel_send_def
  broadcast_receiver_receive_def broadcast_sender_drop_def broadcast_receiver_drop_def broadcast_receiver_clone_def
  broadcast_shared_access_def handle_drop_def arc_new_def arc_clone_def arc_get_def arc_drop_def
  arc_receive_access_def arc_receive_future_poll_def arc_receive_future_drop_def shared_receive_future_poll_def
  shared_receive_future_drop_def shared_receive_future_is_terminated_def set_nodes_def shared_value_sys_new_def

abbreviation shared_demo_acts :: "nat shared_value_action list" where
  "shared_demo_acts \<equiv>
     [Sv_Receive 2, Sv_Poll 2 (Waker 2 0), Sv_Clone_Receiver, Sv_Drop_Receiver, Sv_Drop_Receiver, Sv_Drop_Sender]"

definition shared_demo :: "nat shared_value_sys" where
  "shared_demo = (case shared_value_sys_new broadcast_shared_ops 9 of
     Inr s \<Rightarrow> the (exec_all (shared_value_enabled broadcast_shared_ops) (shared_value_exec broadcast_shared_ops)
       shared_demo_acts s))"

lemma shared_demo_run:
  "\<exists>s. shared_value_sys_new broadcast_shared_ops 9 = Inr s \<and>
     exec_all (shared_value_enabled broadcast_shared_ops) (shared_value_exec broadcast_shared_ops)
       shared_demo_acts s = Some shared_demo"
  by (simp add: shared_demo_def shared_value_eval broadcast_eval oneshot_eval ll_eval)

lemma shared_demo_reach: "shared_value_reachable broadcast_shared_ops 9 shared_demo"
proof -
  from shared_demo_run obtain s where s: "shared_value_sys_new broadcast_shared_ops 9 = Inr s"
    "exec_all (shared_value_enabled broadcast_shared_ops) (shared_value_exec broadcast_shared_ops)
       shared_demo_acts s = Some shared_demo" by blast
  show ?thesis by (rule exec_all_reach [OF s(2) reach_init]) (rule s(1))
qed

lemma shared_demo_facts:
  "sv_sender shared_demo = False" "sv_receivers shared_demo = 0" "sv_ended shared_demo"
  "sv_futures shared_demo = [2 \<mapsto> \<lparr>rf_channel = True, rf_wait_node = 2\<rparr>]" "sv_received shared_demo = []"
  "os_value (arc_inner (sv_arc shared_demo)) = None"
  by (simp_all add: shared_demo_def shared_value_eval broadcast_eval oneshot_eval ll_eval)

theorem shared_value_no_use_after_free_witness: "arc_alive (sv_arc shared_demo)"
  using shared_value_no_use_after_free [OF disjI2 [OF refl] shared_demo_reach, of Sv_Drop_Sender]
  by (simp add: shared_demo_facts)

text \<open>
  C24: a shared channel ends with its ends. Dropping the sender, or the only receiver that is left,
  closes the channel and wakes every waiting future once, the oldest first; and as long as the
  sender or all receivers are gone, every future that has not completed completes with its next
  poll, with the value that is in the channel or with \<open>None\<close>. (That the broadcast channel also
  closes when one of several receivers is dropped, which its code calls broken, is
  \<open>broadcast_drop_closes_early\<close>.)
\<close>

theorem shared_value_drop_completes:
  assumes "sops = oneshot_shared_ops \<or> sops = broadcast_shared_ops" and reach: "shared_value_reachable sops p s"
  shows "(\<forall>act q. (act = Sv_Drop_Sender \<and> sv_sender s \<or> act = Sv_Drop_Receiver \<and> sv_receivers s = 1) \<and>
        ll_rep (os_nodes (arc_inner (sv_arc s))) (os_waiters (arc_inner (sv_arc s))) q \<longrightarrow>
      returns (shared_value_exec sops act s) (\<lambda>t. os_is_fulfilled (arc_inner (sv_arc t)) \<and>
        sv_woken t = sv_woken s @ value_wakers (arc_inner (sv_arc s)) q)) \<and>
    (\<forall>a f cx. (\<not> sv_sender s \<or> sv_receivers s = 0) \<and> sv_futures s a = Some f \<and>
        \<not> shared_receive_future_is_terminated f \<longrightarrow>
      returns (shared_value_exec sops (Sv_Poll a cx) s) (\<lambda>t.
        (\<exists>f'. sv_futures t a = Some f' \<and> shared_receive_future_is_terminated f') \<and>
        sv_received t = sv_received s @ (case os_value (arc_inner (sv_arc s)) of None \<Rightarrow> [] | Some v \<Rightarrow> [v])))"
  using assms(1)
proof
  assume sops: "sops = oneshot_shared_ops"
  note r = reach [unfolded sops]
  note inv = shared_oneshot.shared_value_reach_inv [OF r]
  note ended = shared_oneshot.shared_value_invD(4) [OF inv shared_oneshot.sv_ended_when [OF r]]
  show ?thesis
    unfolding sops using shared_oneshot.sv_drop_end [OF inv] shared_oneshot.sv_poll_ready [OF inv ended]
    by (auto simp add: shared_receive_future_is_terminated_def simp del: shared_value_exec.simps)
next
  assume sops: "sops = broadcast_shared_ops"
  note r = reach [unfolded sops]
  note inv = shared_broadcast.shared_value_reach_inv [OF r]
  note ended = shared_broadcast.shared_value_invD(4) [OF inv shared_broadcast.sv_ended_when [OF r]]
  show ?thesis
    unfolding sops using shared_broadcast.sv_drop_end [OF inv] shared_broadcast.sv_poll_ready [OF inv ended]
    by (auto simp add: shared_receive_future_is_terminated_def simp del: shared_value_exec.simps)
qed

theorem shared_value_drop_completes_witness:
  "returns (shared_value_exec broadcast_shared_ops (Sv_Poll 2 (Waker 5 0)) shared_demo) (\<lambda>t.
     (\<exists>f'. sv_futures t 2 = Some f' \<and> shared_receive_future_is_terminated f') \<and> sv_received t = [])"
  using conjunct2 [OF shared_value_drop_completes [OF disjI2 [OF refl] shared_demo_reach], rule_format, of 2]
  by (simp add: shared_demo_facts shared_receive_future_is_terminated_def del: shared_value_exec.simps)

text \<open>
  What the code does and its documentation excludes (a channel is closed when all receivers are
  gone): when one of several receivers of an open broadcast channel is dropped while the sender and
  another receiver live on, the channel is closed. Every waiting future is woken to find nothing: its
  next poll ends without a value, though the sender is alive; and the sender, though a receiver is,
  gets its value back.
\<close>

theorem broadcast_drop_closes_early:
  assumes reach: "shared_value_reachable broadcast_shared_ops p s"
    and "sv_sender s" "1 < sv_receivers s" "\<not> os_is_fulfilled (arc_inner (sv_arc s))"
  shows "returns (shared_value_exec broadcast_shared_ops Sv_Drop_Receiver s) (\<lambda>t. sv_sender t \<and> 0 < sv_receivers t \<and>
    broadcast_sender_send v (sv_arc t) = Inr (Inl (Channel_Send_Error v), [], sv_arc t) \<and>
    (\<forall>a f cx. sv_futures s a = Some f \<and> \<not> shared_receive_future_is_terminated f \<longrightarrow>
      sv_futures t a = Some f \<and>
      returns (shared_value_exec broadcast_shared_ops (Sv_Poll a cx) t) (\<lambda>u.
        (\<exists>f'. sv_futures u a = Some f' \<and> shared_receive_future_is_terminated f') \<and> sv_received u = sv_received s)))"
proof -
  note inv = shared_broadcast.shared_value_reach_inv [OF reach]
  have enabled: "shared_value_enabled broadcast_shared_ops Sv_Drop_Receiver s" using assms(3) by simp
  from shared_broadcast.shsys.no_fault [OF reach enabled] obtain t where
    t: "shared_value_exec broadcast_shared_ops Sv_Drop_Receiver s = Inr t" "shared_value_inv Some t" by blast
  then have same: "sv_sender t" "0 < sv_receivers t" "sv_futures t = sv_futures s" "sv_sent t = sv_sent s"
    "sv_received t = sv_received s" "sv_ended t"
    using assms(2,3) by (auto simp: and_then_eq_Inr)
  note T = shared_broadcast.shared_value_invD [OF t(2)]
  have closed: "os_is_fulfilled (arc_inner (sv_arc t))" using T(4) same(6) by blast
  from shared_broadcast.shared_value_invD(1) [OF inv] obtain S where
    "value_sys_rep Some (sv_view s) S" by (auto simp: value_sys_inv_def)
  from value_sys_repD(1,4) [OF this] assms(4) have "sv_sent s = None"
    by (auto simp: value_history_def value_abs_def)
  moreover from T(1) obtain V where "value_sys_rep Some (sv_view t) V" by (auto simp: value_sys_inv_def)
  from value_sys_repD(1,4) [OF this] have "sv_sent t = None \<longrightarrow> os_value (arc_inner (sv_arc t)) = None"
    by (auto simp: value_history_def value_abs_def split: option.splits)
  ultimately have unset: "os_value (arc_inner (sv_arc t)) = None" using same(4) by simp
  have "arc_get (sv_arc t) = Inr (arc_inner (sv_arc t))"
    using T(3) same(1) by (simp add: arc_get_def arc_counts_def sv_owners_def)
  then have "broadcast_sender_send v (sv_arc t) = Inr (Inl (Channel_Send_Error v), [], sv_arc t)"
    using closed by (simp add: broadcast_sender_send_def broadcast_channel_send_def broadcast_send_def)
  with t(1) same unset shared_broadcast.sv_poll_ready [OF t(2) closed] show ?thesis
    by (simp add: shared_receive_future_is_terminated_def del: shared_value_exec.simps)
qed

lemma shared_early_run:
  "\<exists>s0 s. shared_value_sys_new broadcast_shared_ops 9 = Inr s0 \<and>
     exec_all (shared_value_enabled broadcast_shared_ops) (shared_value_exec broadcast_shared_ops)
       [Sv_Clone_Receiver, Sv_Receive 2, Sv_Poll 2 (Waker 2 0)] s0 = Some (s :: nat shared_value_sys) \<and>
     sv_sender s \<and> sv_receivers s = 2 \<and> \<not> os_is_fulfilled (arc_inner (sv_arc s)) \<and>
     sv_futures s = [2 \<mapsto> \<lparr>rf_channel = True, rf_wait_node = 2\<rparr>] \<and> sv_received s = []"
  by (simp add: shared_value_eval broadcast_eval oneshot_eval ll_eval)

theorem broadcast_drop_closes_early_witness:
  "\<exists>s t. shared_value_reachable broadcast_shared_ops 9 s \<and>
     shared_value_exec broadcast_shared_ops Sv_Drop_Receiver s = Inr t \<and> sv_sender t \<and> 0 < sv_receivers t \<and>
     broadcast_sender_send (7 :: nat) (sv_arc t) = Inr (Inl (Channel_Send_Error 7), [], sv_arc t) \<and>
     returns (shared_value_exec broadcast_shared_ops (Sv_Poll 2 (Waker 2 0)) t) (\<lambda>u. sv_received u = [])"
proof -
  from shared_early_run obtain s0 and s :: "nat shared_value_sys" where
    s: "shared_value_sys_new broadcast_shared_ops 9 = Inr s0"
      "exec_all (shared_value_enabled broadcast_shared_ops) (shared_value_exec broadcast_shared_ops)
        [Sv_Clone_Receiver, Sv_Receive 2, Sv_Poll 2 (Waker 2 0)] s0 = Some s"
      "sv_sender s" "sv_receivers s = 2" "\<not> os_is_fulfilled (arc_inner (sv_arc s))"
      "sv_futures s = [2 \<mapsto> \<lparr>rf_channel = True, rf_wait_node = 2\<rparr>]" "sv_received s = []" by blast
  have reach: "shared_value_reachable broadcast_shared_ops 9 s" by (rule exec_all_reach [OF s(2) reach_init]) (rule s(1))
  have "1 < sv_receivers s" using s(4) by simp
  from broadcast_drop_closes_early [OF reach s(3) this s(5), of 7] reach s(6,7) show ?thesis
    by (fastforce simp: returns_iff shared_receive_future_is_terminated_def simp del: shared_value_exec.simps)
qed

end
