(* ===== verification/State_Broadcast.thy ===== *)
theory State_Broadcast
  imports Channel_Future
begin

text \<open>
  The state broadcast channel of \<^verbatim>\<open>src/channel/state_broadcast.rs\<close>: senders publish states, which
  are numbered; a receiver waits for a state newer than the one it knows. With the counted senders
  and receivers of its module \<open>shared\<close>, the last of which closes the channel. The clone of a value
  is taken to be the value.
\<close>

section \<open>State ids\<close>

datatype state_id = State_Id (state_id_val: u64)

text \<open>The derived order.\<close>

instantiation state_id :: linorder
begin

definition less_eq_state_id :: "state_id \<Rightarrow> state_id \<Rightarrow> bool" where
  "a \<le> b \<longleftrightarrow> state_id_val a \<le> state_id_val b"

definition less_state_id :: "state_id \<Rightarrow> state_id \<Rightarrow> bool" where
  "a < b \<longleftrightarrow> state_id_val a < state_id_val b"

instance
proof
  fix x y z :: state_id
  show "x < y \<longleftrightarrow> x \<le> y \<and> \<not> y \<le> x" by (auto simp: less_eq_state_id_def less_state_id_def)
  show "x \<le> x" by (simp add: less_eq_state_id_def)
  show "x \<le> y \<Longrightarrow> y \<le> z \<Longrightarrow> x \<le> z" by (auto simp: less_eq_state_id_def)
  show "x \<le> y \<Longrightarrow> y \<le> x \<Longrightarrow> x = y" by (auto simp: less_eq_state_id_def intro: state_id.expand)
  show "x \<le> y \<or> y \<le> x" by (auto simp: less_eq_state_id_def)
qed

end

definition state_id_new :: state_id where
  "state_id_new = State_Id 0"

section \<open>ChannelState\<close>

datatype state_poll_state = St_Unregistered | St_Registered

record state_waiter =
  stw_task :: "waker option"
  stw_state :: state_poll_state
  stw_state_id :: state_id

definition state_waiter_new :: "state_id \<Rightarrow> state_waiter" where
  "state_waiter_new i = \<lparr>stw_task = None, stw_state = St_Unregistered, stw_state_id = i\<rparr>"

text \<open>The state of the channel with the store of the wait nodes of its futures.\<close>

record 'v state_channel =
  stc_is_closed :: bool
  stc_state_id :: state_id
  stc_value :: "'v option"
  stc_waiters :: linked_list
  stc_nodes :: "state_waiter store"

definition state_channel_new :: "'v state_channel" where
  "state_channel_new =
     \<lparr>stc_is_closed = False, stc_state_id = State_Id 0, stc_value = None, stc_waiters = ll_new,
      stc_nodes = Map.empty\<rparr>"

definition state_wake_waiter :: "state_waiter \<Rightarrow> waker list \<Rightarrow> state_waiter \<times> waker list" where
  "state_wake_waiter waiter woken =
     (waiter\<lparr>stw_task := None, stw_state := St_Unregistered\<rparr>, woken @ wake_opt (stw_task waiter))"

definition state_wake_waiters :: "'v state_channel \<Rightarrow> (waker list \<times> 'v state_channel) res" where
  "state_wake_waiters c =
     and_then (ll_reverse_drain state_wake_waiter (stc_waiters c) (stc_nodes c) []) (\<lambda>(l, h, w).
     Inr (w, c\<lparr>stc_waiters := l, stc_nodes := h\<rparr>))"

definition state_send ::
  "'v \<Rightarrow> 'v state_channel \<Rightarrow> (('v channel_send_error + unit) \<times> waker list \<times> 'v state_channel) res" where
  "state_send v c =
     (if stc_is_closed c \<or> state_id_val (stc_state_id c) = - 1 then Inr (Inl (Channel_Send_Error v), [], c)
      else let c = c\<lparr>stc_value := Some v\<rparr> in
           and_then (usize_add (state_id_val (stc_state_id c)) 1) (\<lambda>i.
           and_then (state_wake_waiters (c\<lparr>stc_state_id := State_Id i\<rparr>)) (\<lambda>(w, c).
           Inr (Inr (), w, c))))"

definition state_close :: "'v state_channel \<Rightarrow> (close_status \<times> waker list \<times> 'v state_channel) res" where
  "state_close c =
     (if stc_is_closed c then Inr (Already_Closed, [], c)
      else and_then (state_wake_waiters (c\<lparr>stc_is_closed := True\<rparr>)) (\<lambda>(w, c).
           Inr (Newly_Closed, w, c)))"

definition state_try_receive :: "state_id \<Rightarrow> 'v state_channel \<Rightarrow> (state_id \<times> 'v) option" where
  "state_try_receive i c =
     (case stc_value c of
        None \<Rightarrow> None
      | Some v \<Rightarrow> if i < stc_state_id c then Some (stc_state_id c, v) else None)"

definition state_receive_or_register ::
  "addr \<Rightarrow> waker \<Rightarrow> 'v state_channel \<Rightarrow> ((state_id \<times> 'v) option poll \<times> 'v state_channel) res" where
  "state_receive_or_register wait_node cx c =
     and_then (read_data (stc_nodes c) wait_node) (\<lambda>e.
     case stw_state e of
       St_Unregistered \<Rightarrow>
         (let val_to_deliver = (case stc_value c of
              Some v \<Rightarrow> if stw_state_id e < stc_state_id c then Some v else None
            | None \<Rightarrow> None) in
          case val_to_deliver of
            Some v \<Rightarrow> Inr (Ready (Some (stc_state_id c, v)), c)
          | None \<Rightarrow>
              if stc_is_closed c then Inr (Ready None, c)
              else and_then (update_data wait_node
                               (\<lambda>e. e\<lparr>stw_task := Some cx, stw_state := St_Registered\<rparr>) (stc_nodes c)) (\<lambda>h.
                   and_then (ll_add_front (stc_waiters c) wait_node h) (\<lambda>(l, h).
                   Inr (Pending, c\<lparr>stc_waiters := l, stc_nodes := h\<rparr>))))
     | St_Registered \<Rightarrow>
         and_then (update_data wait_node (stw_task_update (\<lambda>t. update_waker_ref t cx)) (stc_nodes c)) (\<lambda>h.
         Inr (Pending, c\<lparr>stc_nodes := h\<rparr>)))"

definition state_remove_waiter :: "addr \<Rightarrow> 'v state_channel \<Rightarrow> 'v state_channel res" where
  "state_remove_waiter wait_node c =
     and_then (read_data (stc_nodes c) wait_node) (\<lambda>e.
     if stw_state e = St_Registered
     then and_then (ll_remove (stc_waiters c) wait_node (stc_nodes c)) (\<lambda>(removed, l, h).
          if \<not> removed then Inl (Panic ''Future could not be removed from wait queue'')
          else and_then (update_data wait_node (stw_state_update (\<lambda>_. St_Unregistered)) h) (\<lambda>h.
               Inr (c\<lparr>stc_waiters := l, stc_nodes := h\<rparr>)))
     else Inr c)"

section \<open>Futures\<close>

record state_future =
  stf_channel :: bool
  stf_wait_node :: addr

definition state_receive :: "addr \<Rightarrow> state_id \<Rightarrow> state_future \<times> state_waiter list_node" where
  "state_receive a i = (\<lparr>stf_channel = True, stf_wait_node = a\<rparr>, list_node_new (state_waiter_new i))"

definition state_future_poll ::
  "state_future \<Rightarrow> waker \<Rightarrow> 'v state_channel \<Rightarrow>
   ((state_id \<times> 'v) option poll \<times> state_future \<times> 'v state_channel) res" where
  "state_future_poll f cx c =
     (if \<not> stf_channel f then Inl (Panic ''polled StateReceiveFuture after completion'')
      else and_then (state_receive_or_register (stf_wait_node f) cx c) (\<lambda>(poll_res, c).
           Inr (poll_res, (if is_ready poll_res then f\<lparr>stf_channel := False\<rparr> else f), c)))"

definition state_future_is_terminated :: "state_future \<Rightarrow> bool" where
  "state_future_is_terminated f \<longleftrightarrow> \<not> stf_channel f"

definition state_future_drop :: "state_future \<Rightarrow> 'v state_channel \<Rightarrow> 'v state_channel res" where
  "state_future_drop f c =
     (if stf_channel f then state_remove_waiter (stf_wait_node f) c else Inr c)"

text \<open>The futures of the shared variant take their reference out for a poll and put it back.\<close>

definition shared_state_future_poll ::
  "state_future \<Rightarrow> waker \<Rightarrow> 'v state_channel \<Rightarrow>
   ((state_id \<times> 'v) option poll \<times> state_future \<times> 'v state_channel) res" where
  "shared_state_future_poll f cx c =
     (let channel = stf_channel f; f = f\<lparr>stf_channel := False\<rparr> in
      if \<not> channel then Inl (Panic ''polled StateReceiveFuture after completion'')
      else and_then (state_receive_or_register (stf_wait_node f) cx c) (\<lambda>(poll_res, c).
           Inr (poll_res, (if is_ready poll_res then f\<lparr>stf_channel := False\<rparr> else f\<lparr>stf_channel := True\<rparr>), c)))"

definition shared_state_future_drop :: "state_future \<Rightarrow> 'v state_channel \<Rightarrow> 'v state_channel res" where
  "shared_state_future_drop f c =
     (if stf_channel f then state_remove_waiter (stf_wait_node f) c else Inr c)"

section \<open>Counted senders and receivers\<close>

record 'v shared_state =
  shst_channel :: "'v state_channel"
  shst_senders :: usize
  shst_receivers :: usize

definition shared_state_new :: "'v shared_state" where
  "shared_state_new = \<lparr>shst_channel = state_channel_new, shst_senders = 1, shst_receivers = 1\<rparr>"

definition state_sender_clone :: "'v shared_state \<Rightarrow> 'v shared_state res" where
  "state_sender_clone c =
     (let old_size = shst_senders c; c = c\<lparr>shst_senders := shst_senders c + 1\<rparr> in
      if old_size > isize_max then Inl (Panic ''Reached maximum refcount'') else Inr c)"

definition state_sender_drop :: "'v shared_state \<Rightarrow> (waker list \<times> 'v shared_state) res" where
  "state_sender_drop c =
     (let old_size = shst_senders c; c = c\<lparr>shst_senders := shst_senders c - 1\<rparr> in
      if old_size \<noteq> 1 then Inr ([], c)
      else and_then (state_close (shst_channel c)) (\<lambda>(_, w, ch). Inr (w, c\<lparr>shst_channel := ch\<rparr>)))"

definition state_receiver_clone :: "'v shared_state \<Rightarrow> 'v shared_state res" where
  "state_receiver_clone c =
     (let old_size = shst_receivers c; c = c\<lparr>shst_receivers := shst_receivers c + 1\<rparr> in
      if old_size > isize_max then Inl (Panic ''Reached maximum refcount'') else Inr c)"

definition state_receiver_drop :: "'v shared_state \<Rightarrow> (waker list \<times> 'v shared_state) res" where
  "state_receiver_drop c =
     (let old_size = shst_receivers c; c = c\<lparr>shst_receivers := shst_receivers c - 1\<rparr> in
      if old_size \<noteq> 1 then Inr ([], c)
      else and_then (state_close (shst_channel c)) (\<lambda>(_, w, ch). Inr (w, c\<lparr>shst_channel := ch\<rparr>)))"

section \<open>The specification\<close>

text \<open>The states published so far, the waiting futures and what they know.\<close>

record 'v state_spec =
  sts_closed :: bool
  sts_history :: "'v list"
  sts_queue :: "addr list"
  sts_data :: "addr \<rightharpoonup> state_waiter"

definition state_abs :: "'v state_channel \<Rightarrow> 'v state_spec \<Rightarrow> bool" where
  "state_abs c S \<longleftrightarrow> stc_is_closed c = sts_closed S \<and>
     unat (state_id_val (stc_state_id c)) = length (sts_history S) \<and>
     stc_value c = (if sts_history S = [] then None else Some (last (sts_history S))) \<and>
     ll_rep (stc_nodes c) (stc_waiters c) (sts_queue S) \<and> data_of (stc_nodes c) = sts_data S"

definition sts_wakers :: "'v state_spec \<Rightarrow> waker list" where
  "sts_wakers S = concat (map (\<lambda>a. wake_opt (stw_task (the (sts_data S a)))) (rev (sts_queue S)))"

definition sts_wake :: "'v state_spec \<Rightarrow> 'v state_spec" where
  "sts_wake S =
     S\<lparr>sts_queue := [],
       sts_data := (\<lambda>a. if a \<in> set (sts_queue S)
         then map_option (\<lambda>e. e\<lparr>stw_task := None, stw_state := St_Unregistered\<rparr>) (sts_data S a) else sts_data S a)\<rparr>"

abbreviation known :: "state_waiter \<Rightarrow> nat" where
  "known e \<equiv> unat (state_id_val (stw_state_id e))"

text \<open>The current state is delivered with its number to whoever knows only an older one.\<close>

definition sts_poll :: "addr \<Rightarrow> waker \<Rightarrow> 'v state_spec \<Rightarrow> (nat \<times> 'v) option poll \<times> 'v state_spec" where
  "sts_poll a cx S =
     (let e = the (sts_data S a) in
      if stw_state e = St_Registered then (Pending, S\<lparr>sts_data := (sts_data S)(a \<mapsto> e\<lparr>stw_task := Some cx\<rparr>)\<rparr>)
      else if known e < length (sts_history S)
      then (Ready (Some (length (sts_history S), last (sts_history S))), S)
      else if sts_closed S then (Ready None, S)
      else (Pending, S\<lparr>sts_queue := a # sts_queue S,
              sts_data := (sts_data S)(a \<mapsto> e\<lparr>stw_task := Some cx, stw_state := St_Registered\<rparr>)\<rparr>))"

definition sts_remove :: "addr \<Rightarrow> 'v state_spec \<Rightarrow> 'v state_spec" where
  "sts_remove a S =
     (let e = the (sts_data S a) in
      if stw_state e = St_Registered
      then S\<lparr>sts_queue := remove1 a (sts_queue S), sts_data := (sts_data S)(a \<mapsto> e\<lparr>stw_state := St_Unregistered\<rparr>)\<rparr>
      else S)"

text \<open>A future waits only while there is no state newer than the one it knows, and never at a closed channel.\<close>

definition sts_inv :: "'v state_spec \<Rightarrow> bool" where
  "sts_inv S \<longleftrightarrow> distinct (sts_queue S) \<and> set (sts_queue S) \<subseteq> dom (sts_data S) \<and>
     (\<forall>a e. sts_data S a = Some e \<longrightarrow>
        (a \<in> set (sts_queue S) \<longleftrightarrow> stw_state e = St_Registered) \<and>
        (stw_state e = St_Registered \<longrightarrow> stw_task e \<noteq> None \<and> length (sts_history S) \<le> known e)) \<and>
     (sts_closed S \<longrightarrow> sts_queue S = [])"

section \<open>Refinement\<close>

lemma state_wake_waiters_wp:
  assumes "ll_rep (stc_nodes c) (stc_waiters c) (sts_queue S)" "data_of (stc_nodes c) = sts_data S"
    and "\<And>l h. ll_rep h l [] \<Longrightarrow> data_of h = sts_data (sts_wake S) \<Longrightarrow>
      Q (sts_wakers S, c\<lparr>stc_waiters := l, stc_nodes := h\<rparr>)"
  shows "returns (state_wake_waiters c) Q"
proof -
  have "returns (ll_reverse_drain state_wake_waiter (stc_waiters c) (stc_nodes c) []) (\<lambda>(l, h, w).
      ll_rep h l [] \<and> data_of h = sts_data (sts_wake S) \<and> w = sts_wakers S)"
    by (rule lq.take_all_wp [OF assms(1), where w = "\<lambda>e. wake_opt (stw_task e)"])
      (auto simp: state_wake_waiter_def assms(2) sts_wake_def sts_wakers_def cong: if_cong)
  then show ?thesis
    using assms(3) by (auto simp: state_wake_waiters_def elim!: returns_mono)
qed

lemma state_id_max: "state_id_val i = - 1 \<longleftrightarrow> unat (state_id_val i) = 2 ^ 64 - 1"
  by (simp add: word_unat_eq_iff unsigned_minus_1_eq_mask mask_eq_exp_minus_1)

lemma state_send_refines:
  assumes abs: "state_abs c S"
  shows "returns (state_send v c) (\<lambda>(r, w, c').
    if sts_closed S \<or> length (sts_history S) = 2 ^ 64 - 1
    then r = Inl (Channel_Send_Error v) \<and> w = [] \<and> c' = c
    else r = Inr () \<and> w = sts_wakers S \<and> state_abs c' ((sts_wake S)\<lparr>sts_history := sts_history S @ [v]\<rparr>))"
proof (cases "sts_closed S \<or> length (sts_history S) = 2 ^ 64 - 1")
  case True
  with abs show ?thesis by (auto simp: state_send_def state_abs_def state_id_max)
next
  case False
  let ?i = "state_id_val (stc_state_id c)"
  from False abs have "unat ?i < 2 ^ 64 - 1" using unat_usize_less [of ?i] by (simp add: state_abs_def)
  then have add: "usize_add ?i 1 = Inr (?i + 1)" "unat (?i + 1) = unat ?i + 1"
    using unat_add_no_overflow [of ?i 1] by (simp_all add: usize_add_def)
  from False abs add show ?thesis
    by (auto simp: state_send_def state_abs_def state_id_max Let_def sts_wake_def
        intro!: state_wake_waiters_wp [where S = S])
qed

lemma state_close_refines:
  assumes "state_abs c S"
  shows "returns (state_close c) (\<lambda>(r, w, c').
    if sts_closed S then r = Already_Closed \<and> w = [] \<and> c' = c
    else r = Newly_Closed \<and> w = sts_wakers S \<and> state_abs c' ((sts_wake S)\<lparr>sts_closed := True\<rparr>))"
  using assms
  by (auto simp: state_close_def state_abs_def sts_wake_def intro!: state_wake_waiters_wp [where S = S])

text \<open>A number of the specification and a state id of the code.\<close>

definition id_rel :: "(state_id \<times> 'v) option poll \<Rightarrow> (nat \<times> 'v) option poll \<Rightarrow> bool" where
  "id_rel r r' \<longleftrightarrow> r' = (case r of
     Ready (Some (i, v)) \<Rightarrow> Ready (Some (unat (state_id_val i), v)) | Ready None \<Rightarrow> Ready None | Pending \<Rightarrow> Pending)"

lemma id_rel_pending: "id_rel r r' \<Longrightarrow> r' = Pending \<longleftrightarrow> r = Pending"
  by (auto simp: id_rel_def split: poll.splits option.splits)

lemma id_relD:
  "id_rel r (Ready (Some (n, v))) \<Longrightarrow> \<exists>i. r = Ready (Some (i, v)) \<and> unat (state_id_val i) = n"
  "id_rel r (Ready None) \<Longrightarrow> r = Ready None"
  "id_rel r Pending \<Longrightarrow> r = Pending"
  by (auto simp: id_rel_def split: poll.splits option.splits)

lemma state_receive_or_register_refines:
  assumes abs: "state_abs c S" and inv: "sts_inv S" and e: "sts_data S a = Some e"
  shows "returns (state_receive_or_register a cx c)
    (\<lambda>(r, c'). \<exists>r' S'. sts_poll a cx S = (r', S') \<and> id_rel r r' \<and> state_abs c' S')"
proof -
  from inv e have q: "a \<in> set (sts_queue S) \<longleftrightarrow> stw_state e = St_Registered" by (auto simp: sts_inv_def)
  from abs have less: "stw_state_id e < stc_state_id c \<longleftrightarrow> known e < length (sts_history S)"
    by (simp add: state_abs_def less_state_id_def word_less_nat_alt)
  show ?thesis
  proof (cases "stw_state e")
    case St_Unregistered
    with abs e q less show ?thesis
      by (auto simp: state_receive_or_register_def sts_poll_def state_abs_def id_rel_def Let_def
          intro!: update_data_wp ll_add_front_wp)
  next
    case St_Registered
    with abs e show ?thesis
      by (auto simp: state_receive_or_register_def sts_poll_def state_abs_def id_rel_def Let_def
          intro!: update_data_wp)
  qed
qed

lemma state_remove_refines:
  assumes abs: "state_abs c S" and inv: "sts_inv S" and e: "sts_data S a = Some e"
  shows "returns (state_remove_waiter a c) (\<lambda>c'. state_abs c' (sts_remove a S))"
proof -
  from inv e have "a \<in> set (sts_queue S) \<longleftrightarrow> stw_state e = St_Registered" by (auto simp: sts_inv_def)
  with abs e show ?thesis
    by (auto simp: state_remove_waiter_def sts_remove_def state_abs_def Let_def intro!: lq.leave_wp update_data_wp)
qed

section \<open>The specification keeps its invariant\<close>

lemma sts_wake_inv:
  "sts_inv S \<Longrightarrow> sts_inv ((sts_wake S)\<lparr>sts_history := h\<rparr>)"
  "sts_inv S \<Longrightarrow> sts_inv ((sts_wake S)\<lparr>sts_closed := b\<rparr>)"
  by (auto simp: sts_inv_def sts_wake_def)

lemma sts_poll_inv:
  assumes "sts_inv S" "sts_data S a = Some e" "sts_poll a cx S = (r, S')"
  shows "sts_inv S'"
  using assms by (auto simp: sts_inv_def sts_poll_def Let_def split: if_splits)

lemma sts_remove_inv:
  assumes "sts_inv S" "sts_data S a = Some e"
  shows "sts_inv (sts_remove a S)"
  using assms by (auto simp: sts_inv_def sts_remove_def Let_def dest: notin_set_remove1)

definition state_futures_ok :: "(addr \<rightharpoonup> state_waiter) \<Rightarrow> (addr \<rightharpoonup> state_future) \<Rightarrow> bool" where
  "state_futures_ok D fs \<longleftrightarrow> dom fs = dom D \<and>
     (\<forall>a f e. fs a = Some f \<longrightarrow> D a = Some e \<longrightarrow> stf_wait_node f = a \<and>
        (stf_channel f \<or> stw_state e = St_Unregistered))"

lemma state_futures_okD:
  assumes "state_futures_ok D F" "F a = Some f"
  shows "\<exists>e. D a = Some e \<and> stf_wait_node f = a \<and> (stf_channel f \<or> stw_state e = St_Unregistered)"
proof -
  from assms obtain e where "D a = Some e" using dom_eq_entry [of F D a f] by (auto simp: state_futures_ok_def)
  with assms show ?thesis by (auto simp: state_futures_ok_def)
qed

lemma state_futures_ok_upd:
  assumes "state_futures_ok D F" "stf_wait_node f = a" "stf_channel f \<or> stw_state e = St_Unregistered"
  shows "state_futures_ok (D(a \<mapsto> e)) (F(a \<mapsto> f))"
  using assms by (auto simp: state_futures_ok_def split: if_splits)

lemma state_futures_ok_del: "state_futures_ok D F \<Longrightarrow> state_futures_ok (D(a := None)) (F(a := None))"
  by (auto simp: state_futures_ok_def split: if_splits)

lemma state_futures_ok_wake:
  assumes "sts_inv S" "state_futures_ok (sts_data S) F"
  shows "state_futures_ok (sts_data (sts_wake S)) F"
proof -
  have "dom (sts_data (sts_wake S)) = dom (sts_data S)" by (auto simp: sts_wake_def split: if_splits)
  with assms show ?thesis
    by (fastforce simp: state_futures_ok_def sts_wake_def split: if_splits)
qed

lemma sts_poll_data:
  assumes "sts_data S a = Some e" "sts_poll a cx S = (r, S')"
  shows "\<exists>e'. sts_data S' = (sts_data S)(a \<mapsto> e') \<and> sts_history S' = sts_history S \<and> sts_closed S' = sts_closed S \<and>
    (r = Pending \<or> stw_state e' = St_Unregistered) \<and>
    (\<forall>i v. r = Ready (Some (i, v)) \<longrightarrow> known e < i \<and> i = length (sts_history S) \<and> v = last (sts_history S))"
proof -
  have same: "\<exists>e'. sts_data S = (sts_data S)(a \<mapsto> e') \<and> e' = e" using assms(1) by auto
  show ?thesis
    using assms same by (cases "stw_state e") (auto simp: sts_poll_def Let_def split: if_splits)
qed

lemma sts_remove_data:
  assumes "sts_inv S" "sts_data S a = Some e"
  shows "\<exists>e'. sts_data (sts_remove a S) = (sts_data S)(a \<mapsto> e') \<and> a \<notin> set (sts_queue (sts_remove a S)) \<and>
    sts_history (sts_remove a S) = sts_history S \<and> sts_closed (sts_remove a S) = sts_closed S"
proof -
  have "\<exists>e'. sts_data S = (sts_data S)(a \<mapsto> e') \<and> e' = e" using assms(2) by auto
  with assms show ?thesis
    by (cases "stw_state e") (auto simp: sts_remove_def Let_def sts_inv_def)
qed

section \<open>The system\<close>

text \<open>
  The channel with its counted handles and its futures, the wakers woken, the states published,
  and what was received: the id given to \<open>receive\<close>, the id returned, and the state.
\<close>

record 'v state_sys =
  stx_shared :: "'v shared_state"
  stx_futures :: "addr \<rightharpoonup> state_future"
  stx_woken :: "waker list"
  stx_published :: "'v list"
  stx_received :: "(state_id \<times> state_id \<times> 'v) list"
  stx_sender_handles :: nat
  stx_receiver_handles :: nat

datatype 'v state_action =
    Sb_Send 'v
  | Sb_Close
  | Sb_Receive addr state_id
  | Sb_Poll addr waker
  | Sb_Drop addr
  | Sb_Try_Receive state_id
  | Sb_Clone_Sender
  | Sb_Drop_Sender
  | Sb_Clone_Receiver
  | Sb_Drop_Receiver

definition state_sys_new :: "'v state_sys" where
  "state_sys_new =
     \<lparr>stx_shared = shared_state_new, stx_futures = Map.empty, stx_woken = [], stx_published = [],
      stx_received = [], stx_sender_handles = 1, stx_receiver_handles = 1\<rparr>"

abbreviation stx_chan :: "'v state_sys \<Rightarrow> 'v state_channel" where
  "stx_chan s \<equiv> shst_channel (stx_shared s)"

fun state_enabled :: "'v state_action \<Rightarrow> 'v state_sys \<Rightarrow> bool" where
  "state_enabled (Sb_Receive a i) s = (stc_nodes (stx_chan s) a = None)"
| "state_enabled (Sb_Poll a cx) s =
     (case stx_futures s a of None \<Rightarrow> False | Some f \<Rightarrow> \<not> state_future_is_terminated f)"
| "state_enabled (Sb_Drop a) s = (stx_futures s a \<noteq> None)"
| "state_enabled Sb_Clone_Sender s = (0 < stx_sender_handles s \<and> stx_sender_handles s < 2 ^ 63)"
| "state_enabled Sb_Drop_Sender s = (0 < stx_sender_handles s)"
| "state_enabled Sb_Clone_Receiver s = (0 < stx_receiver_handles s \<and> stx_receiver_handles s < 2 ^ 63)"
| "state_enabled Sb_Drop_Receiver s = (0 < stx_receiver_handles s)"
| "state_enabled act s = True"

definition state_known_id :: "addr \<Rightarrow> 'v state_channel \<Rightarrow> state_id" where
  "state_known_id a c = (case data_of (stc_nodes c) a of Some e \<Rightarrow> stw_state_id e | None \<Rightarrow> state_id_new)"

fun state_exec :: "'v state_action \<Rightarrow> 'v state_sys \<Rightarrow> 'v state_sys res" where
  "state_exec (Sb_Send v) s =
     and_then (state_send v (stx_chan s)) (\<lambda>(r, w, c).
     Inr (s\<lparr>stx_shared := stx_shared s\<lparr>shst_channel := c\<rparr>, stx_woken := stx_woken s @ w,
            stx_published := stx_published s @ (case r of Inr _ \<Rightarrow> [v] | Inl _ \<Rightarrow> [])\<rparr>))"
| "state_exec Sb_Close s =
     and_then (state_close (stx_chan s)) (\<lambda>(r, w, c).
     Inr (s\<lparr>stx_shared := stx_shared s\<lparr>shst_channel := c\<rparr>, stx_woken := stx_woken s @ w\<rparr>))"
| "state_exec (Sb_Receive a i) s =
     (case state_receive a i of (f, node) \<Rightarrow>
        Inr (s\<lparr>stx_shared := stx_shared s\<lparr>shst_channel :=
                 stx_chan s\<lparr>stc_nodes := (stc_nodes (stx_chan s))(a \<mapsto> node)\<rparr>\<rparr>,
               stx_futures := (stx_futures s)(a \<mapsto> f)\<rparr>))"
| "state_exec (Sb_Poll a cx) s =
     and_then (deref (stx_futures s) a) (\<lambda>f.
     and_then (state_future_poll f cx (stx_chan s)) (\<lambda>(r, f, c).
     Inr (s\<lparr>stx_shared := stx_shared s\<lparr>shst_channel := c\<rparr>, stx_futures := (stx_futures s)(a \<mapsto> f),
            stx_received := stx_received s @ (case r of
              Ready (Some (i, v)) \<Rightarrow> [(state_known_id a (stx_chan s), i, v)] | _ \<Rightarrow> [])\<rparr>)))"
| "state_exec (Sb_Drop a) s =
     and_then (deref (stx_futures s) a) (\<lambda>f.
     and_then (state_future_drop f (stx_chan s)) (\<lambda>c.
     Inr (s\<lparr>stx_shared := stx_shared s\<lparr>shst_channel := c\<lparr>stc_nodes := (stc_nodes c)(a := None)\<rparr>\<rparr>,
            stx_futures := (stx_futures s)(a := None)\<rparr>)))"
| "state_exec (Sb_Try_Receive i) s =
     Inr (s\<lparr>stx_received := stx_received s @ (case state_try_receive i (stx_chan s) of
              Some (j, v) \<Rightarrow> [(i, j, v)] | None \<Rightarrow> [])\<rparr>)"
| "state_exec Sb_Clone_Sender s =
     and_then (state_sender_clone (stx_shared s)) (\<lambda>c.
     Inr (s\<lparr>stx_shared := c, stx_sender_handles := stx_sender_handles s + 1\<rparr>))"
| "state_exec Sb_Drop_Sender s =
     and_then (state_sender_drop (stx_shared s)) (\<lambda>(w, c).
     Inr (s\<lparr>stx_shared := c, stx_woken := stx_woken s @ w, stx_sender_handles := stx_sender_handles s - 1\<rparr>))"
| "state_exec Sb_Clone_Receiver s =
     and_then (state_receiver_clone (stx_shared s)) (\<lambda>c.
     Inr (s\<lparr>stx_shared := c, stx_receiver_handles := stx_receiver_handles s + 1\<rparr>))"
| "state_exec Sb_Drop_Receiver s =
     and_then (state_receiver_drop (stx_shared s)) (\<lambda>(w, c).
     Inr (s\<lparr>stx_shared := c, stx_woken := stx_woken s @ w, stx_receiver_handles := stx_receiver_handles s - 1\<rparr>))"

abbreviation state_reachable :: "'v state_sys \<Rightarrow> bool" where
  "state_reachable \<equiv> reach (\<lambda>s. s = state_sys_new) state_enabled state_exec"

text \<open>Everything received was published under its number, and is newer than what was asked for.\<close>

definition state_received_ok :: "'v list \<Rightarrow> (state_id \<times> state_id \<times> 'v) list \<Rightarrow> bool" where
  "state_received_ok published received \<longleftrightarrow>
     (\<forall>(i, j, v)\<in>set received. i < j \<and> unat (state_id_val j) \<le> length published \<and>
        published ! (unat (state_id_val j) - 1) = v)"

definition state_counts_ok :: "'v state_sys \<Rightarrow> bool" where
  "state_counts_ok s \<longleftrightarrow>
     unat (shst_senders (stx_shared s)) = stx_sender_handles s \<and> stx_sender_handles s \<le> 2 ^ 63 \<and>
     unat (shst_receivers (stx_shared s)) = stx_receiver_handles s \<and> stx_receiver_handles s \<le> 2 ^ 63"

definition state_sys_rep :: "'v state_sys \<Rightarrow> 'v state_spec \<Rightarrow> bool" where
  "state_sys_rep s S \<longleftrightarrow> state_abs (stx_chan s) S \<and> sts_inv S \<and> state_futures_ok (sts_data S) (stx_futures s) \<and>
     sts_history S = stx_published s \<and> state_received_ok (stx_published s) (stx_received s) \<and>
     state_counts_ok s \<and> (stx_sender_handles s = 0 \<or> stx_receiver_handles s = 0 \<longrightarrow> sts_closed S)"

definition state_sys_inv :: "'v state_sys \<Rightarrow> bool" where
  "state_sys_inv s \<longleftrightarrow> (\<exists>S. state_sys_rep s S)"

lemma state_sys_repI:
  "state_abs (stx_chan s) S \<Longrightarrow> sts_inv S \<Longrightarrow> state_futures_ok (sts_data S) (stx_futures s) \<Longrightarrow>
   sts_history S = stx_published s \<Longrightarrow> state_received_ok (stx_published s) (stx_received s) \<Longrightarrow>
   state_counts_ok s \<Longrightarrow> (stx_sender_handles s = 0 \<or> stx_receiver_handles s = 0 \<Longrightarrow> sts_closed S) \<Longrightarrow>
   state_sys_inv s"
  by (auto simp: state_sys_inv_def state_sys_rep_def)

lemma state_sys_repD:
  assumes "state_sys_rep s S"
  shows "state_abs (stx_chan s) S" "sts_inv S" "state_futures_ok (sts_data S) (stx_futures s)"
    "sts_history S = stx_published s" "state_received_ok (stx_published s) (stx_received s)"
    "state_counts_ok s" "stx_sender_handles s = 0 \<or> stx_receiver_handles s = 0 \<Longrightarrow> sts_closed S"
  using assms by (auto simp: state_sys_rep_def)

lemma state_received_ok_append:
  "state_received_ok (p @ q) r" if "state_received_ok p r"
  using that by (fastforce simp: state_received_ok_def less_state_id_def word_less_nat_alt nth_append)

lemma state_received_ok_snoc:
  assumes "state_received_ok p r" "i < j" "unat (state_id_val j) = length p"
  shows "state_received_ok p (r @ [(i, j, last p)])"
proof -
  from assms(2,3) have "p \<noteq> []" by (auto simp: less_state_id_def word_less_nat_alt)
  with assms show ?thesis by (auto simp: state_received_ok_def last_conv_nth)
qed

section \<open>The system keeps the invariant\<close>

lemma state_send_preserves:
  assumes rep: "state_sys_rep s S"
  shows "returns (state_exec (Sb_Send v) s) state_sys_inv"
proof -
  note S = state_sys_repD [OF rep]
  let ?S = "(sts_wake S)\<lparr>sts_history := sts_history S @ [v]\<rparr>"
  have finish: "state_sys_inv (s\<lparr>stx_shared := stx_shared s\<lparr>shst_channel := c\<rparr>, stx_woken := w,
      stx_published := stx_published s @ [v]\<rparr>)" if "state_abs c ?S" for c w
    using that S sts_wake_inv(1) [OF S(2)] state_futures_ok_wake [OF S(2,3)] state_received_ok_append [OF S(5)]
    by (intro state_sys_repI [where S = ?S]) (auto simp: state_counts_ok_def sts_wake_def)
  have same: "state_sys_inv s" using rep by (auto simp: state_sys_inv_def)
  have id: "s\<lparr>stx_shared := stx_shared s\<lparr>shst_channel := stx_chan s\<rparr>\<rparr> = s" by simp
  show ?thesis
    using state_send_refines [OF S(1), of v] finish same
    by (cases "sts_closed S \<or> length (sts_history S) = 2 ^ 64 - 1") (auto elim!: returns_mono simp: id)
qed

text \<open>Closing, with any change of the handles that keeps the counts.\<close>

lemma state_close_handles:
  assumes rep: "state_sys_rep s S"
  shows "returns (state_close (stx_chan s)) (\<lambda>(r, w, c). \<forall>t. stx_chan t = c \<longrightarrow> state_counts_ok t \<longrightarrow>
    stx_futures t = stx_futures s \<longrightarrow> stx_published t = stx_published s \<longrightarrow> stx_received t = stx_received s \<longrightarrow>
    state_sys_inv t)"
proof -
  note S = state_sys_repD [OF rep]
  let ?S = "(sts_wake S)\<lparr>sts_closed := True\<rparr>"
  have new: "state_sys_inv t" if "state_abs (stx_chan t) ?S" "state_counts_ok t" "stx_futures t = stx_futures s"
      "stx_published t = stx_published s" "stx_received t = stx_received s" for t
    using that S sts_wake_inv(2) [OF S(2)] state_futures_ok_wake [OF S(2,3)]
    by (intro state_sys_repI [where S = ?S]) (auto simp: sts_wake_def)
  have old: "state_sys_inv t" if "sts_closed S" "stx_chan t = stx_chan s" "state_counts_ok t"
      "stx_futures t = stx_futures s" "stx_published t = stx_published s" "stx_received t = stx_received s" for t
    using that S by (intro state_sys_repI [where S = S]) auto
  show ?thesis
    by (rule returns_mono [OF state_close_refines [OF S(1)]]) (auto split: if_splits intro: new old)
qed

lemma state_poll_preserves:
  assumes rep: "state_sys_rep s S" and f: "stx_futures s a = Some f" "stf_channel f"
  shows "returns (state_exec (Sb_Poll a cx) s) state_sys_inv"
proof -
  note S = state_sys_repD [OF rep]
  from state_futures_okD [OF S(3) f(1)] obtain e where e: "sts_data S a = Some e" "stf_wait_node f = a" by auto
  then have id: "state_known_id a (stx_chan s) = stw_state_id e"
    using S(1) by (simp add: state_known_id_def state_abs_def)
  have finish: "state_sys_inv (s\<lparr>stx_shared := stx_shared s\<lparr>shst_channel := c\<rparr>,
      stx_futures := (stx_futures s)(a \<mapsto> f'), stx_received := stx_received s @ (case r of
        Ready (Some (i, v)) \<Rightarrow> [(state_known_id a (stx_chan s), i, v)] | _ \<Rightarrow> [])\<rparr>)"
    if "state_abs c S'" "sts_poll a cx S = (r', S')" "id_rel r r'"
      "f' = (if r = Pending then f else f\<lparr>stf_channel := False\<rparr>)" for c S' r r' f'
  proof -
    from sts_poll_data [OF e(1) that(2)] obtain e' where
      e': "sts_data S' = (sts_data S)(a \<mapsto> e')" "sts_history S' = sts_history S" "sts_closed S' = sts_closed S"
        "r' = Pending \<or> stw_state e' = St_Unregistered"
        "\<And>i v. r' = Ready (Some (i, v)) \<Longrightarrow> known e < i \<and> i = length (sts_history S) \<and> v = last (sts_history S)"
      by blast
    have "state_futures_ok (sts_data S') ((stx_futures s)(a \<mapsto> f'))"
      unfolding e'(1) by (rule state_futures_ok_upd [OF S(3)]) (use e' e(2) that(4) id_rel_pending [OF that(3)] f in auto)
    moreover have "state_received_ok (stx_published s) (stx_received s @ (case r of
        Ready (Some (i, v)) \<Rightarrow> [(state_known_id a (stx_chan s), i, v)] | _ \<Rightarrow> []))"
    proof (cases "\<exists>i v. r = Ready (Some (i, v))")
      case True
      then obtain i v where r: "r = Ready (Some (i, v))" by blast
      with that(3) have "r' = Ready (Some (unat (state_id_val i), v))" by (simp add: id_rel_def)
      from e'(5) [OF this] S(4) r id show ?thesis
        using state_received_ok_snoc [OF S(5), of "stw_state_id e" i]
        by (simp add: less_state_id_def word_less_nat_alt)
    qed (use S(5) in \<open>auto split: poll.splits option.splits\<close>)
    ultimately show ?thesis
      using that(1) sts_poll_inv [OF S(2) e(1) that(2)] e'(2,3) S
      by (intro state_sys_repI [where S = S']) (auto simp: state_counts_ok_def)
  qed
  show ?thesis
    using state_receive_or_register_refines [OF S(1,2) e(1), of cx] e(2) f
      finish [where r = Pending] finish [where r = "Ready None"] finish [where r = "Ready (Some (i, v))" for i v]
    by (auto simp: state_future_poll_def elim!: returns_mono split: poll.splits option.splits)
qed

lemma state_drop_preserves:
  assumes rep: "state_sys_rep s S" and f: "stx_futures s a = Some f"
  shows "returns (state_exec (Sb_Drop a) s) state_sys_inv"
proof -
  note S = state_sys_repD [OF rep]
  from state_futures_okD [OF S(3) f] obtain e where e: "sts_data S a = Some e" "stf_wait_node f = a"
    "stf_channel f \<or> stw_state e = St_Unregistered" by auto
  let ?S = "sts_remove a S"
  have same: "?S = S" if "\<not> stf_channel f" using that e by (simp add: sts_remove_def Let_def)
  from sts_remove_data [OF S(2) e(1)] obtain e' where
    e': "sts_data ?S = (sts_data S)(a \<mapsto> e')" "a \<notin> set (sts_queue ?S)" "sts_history ?S = sts_history S"
      "sts_closed ?S = sts_closed S" by blast
  have "state_futures_ok ((sts_data ?S)(a := None)) ((stx_futures s)(a := None))"
    using state_futures_ok_del [OF S(3), of a] by (simp add: e'(1))
  then have finish: "state_sys_inv (s\<lparr>stx_shared := stx_shared s\<lparr>shst_channel := c\<lparr>stc_nodes := (stc_nodes c)(a := None)\<rparr>\<rparr>,
      stx_futures := (stx_futures s)(a := None)\<rparr>)" if "state_abs c ?S" for c
    using that sts_remove_inv [OF S(2) e(1)] S e'(2-) ll_rep_free [of "stc_nodes c" "stc_waiters c" "sts_queue ?S" a]
    by (intro state_sys_repI [where S = "?S\<lparr>sts_data := (sts_data ?S)(a := None)\<rparr>"])
      (auto simp: state_abs_def sts_inv_def state_counts_ok_def)
  show ?thesis
    using state_remove_refines [OF S(1,2) e(1)] f e(2) finish S(1) same
    by (auto simp: state_future_drop_def elim!: returns_mono)
qed

lemma state_receive_preserves:
  assumes rep: "state_sys_rep s S" and fresh: "stc_nodes (stx_chan s) a = None"
  shows "returns (state_exec (Sb_Receive a i) s) state_sys_inv"
proof -
  note S = state_sys_repD [OF rep]
  let ?e = "state_waiter_new i"
  from fresh have "data_of (stc_nodes (stx_chan s)) a = None" by simp
  with S(1) have "sts_data S a = None" by (simp add: state_abs_def)
  with S(2) have q: "a \<notin> set (sts_queue S)" by (auto simp: sts_inv_def)
  have "state_futures_ok ((sts_data S)(a \<mapsto> ?e)) ((stx_futures s)(a \<mapsto> fst (state_receive a i)))"
    by (rule state_futures_ok_upd [OF S(3)]) (simp_all add: state_receive_def)
  then show ?thesis
    using S fresh q ll_rep_alloc [of "stc_nodes (stx_chan s)" "stc_waiters (stx_chan s)" "sts_queue S" a ?e]
    by (auto simp: state_receive_def state_abs_def sts_inv_def list_node_new_def state_waiter_new_def state_counts_ok_def
        intro!: state_sys_repI [where S = "S\<lparr>sts_data := (sts_data S)(a \<mapsto> ?e)\<rparr>"])
qed

lemma state_try_receive_preserves:
  assumes rep: "state_sys_rep s S"
  shows "returns (state_exec (Sb_Try_Receive i) s) state_sys_inv"
proof -
  note S = state_sys_repD [OF rep]
  have "state_received_ok (stx_published s) (stx_received s @ (case state_try_receive i (stx_chan s) of
      Some (j, v) \<Rightarrow> [(i, j, v)] | None \<Rightarrow> []))"
    using S(1,4,5) state_received_ok_snoc [OF S(5), of i "stc_state_id (stx_chan s)"]
    by (auto simp: state_try_receive_def state_abs_def split: option.splits)
  with S show ?thesis by (auto simp: state_counts_ok_def intro!: state_sys_repI [where S = S])
qed

lemma state_handles_preserve:
  assumes rep: "state_sys_rep s S"
  shows "0 < stx_sender_handles s \<Longrightarrow> returns (state_exec Sb_Drop_Sender s) state_sys_inv"
    and "0 < stx_receiver_handles s \<Longrightarrow> returns (state_exec Sb_Drop_Receiver s) state_sys_inv"
    and "0 < stx_sender_handles s \<Longrightarrow> stx_sender_handles s < 2 ^ 63 \<Longrightarrow> returns (state_exec Sb_Clone_Sender s) state_sys_inv"
    and "0 < stx_receiver_handles s \<Longrightarrow> stx_receiver_handles s < 2 ^ 63 \<Longrightarrow> returns (state_exec Sb_Clone_Receiver s) state_sys_inv"
proof -
  note S = state_sys_repD [OF rep]
  have counts: "unat (shst_senders (stx_shared s)) = stx_sender_handles s"
    "unat (shst_receivers (stx_shared s)) = stx_receiver_handles s"
    using S(6) by (simp_all add: state_counts_ok_def)
  have keep: "state_sys_inv t" if "stx_chan t = stx_chan s" "state_counts_ok t" "stx_futures t = stx_futures s"
      "stx_published t = stx_published s" "stx_received t = stx_received s"
      "stx_sender_handles t = 0 \<or> stx_receiver_handles t = 0 \<Longrightarrow> stx_sender_handles s = 0 \<or> stx_receiver_handles s = 0" for t
    using that S by (intro state_sys_repI [where S = S]) auto
  have one: "n = 1 \<longleftrightarrow> unat n = 1" for n :: usize by (simp add: word_unat_eq_iff)
  show "returns (state_exec Sb_Drop_Sender s) state_sys_inv" if "0 < stx_sender_handles s"
  proof (cases "stx_sender_handles s = 1")
    case True
    with state_close_handles [OF rep] that S(6) counts one [of "shst_senders (stx_shared s)"]
      count_down [of "shst_senders (stx_shared s)"]
    show ?thesis
      by (auto simp: state_sender_drop_def Let_def state_counts_ok_def elim!: returns_mono)
  next
    case False
    with that S(6) counts one [of "shst_senders (stx_shared s)"] count_down [of "shst_senders (stx_shared s)"]
    show ?thesis
      by (auto simp: state_sender_drop_def Let_def state_counts_ok_def intro!: keep)
  qed
  show "returns (state_exec Sb_Drop_Receiver s) state_sys_inv" if "0 < stx_receiver_handles s"
  proof (cases "stx_receiver_handles s = 1")
    case True
    with state_close_handles [OF rep] that S(6) counts one [of "shst_receivers (stx_shared s)"]
      count_down [of "shst_receivers (stx_shared s)"]
    show ?thesis
      by (auto simp: state_receiver_drop_def Let_def state_counts_ok_def elim!: returns_mono)
  next
    case False
    with that S(6) counts one [of "shst_receivers (stx_shared s)"] count_down [of "shst_receivers (stx_shared s)"]
    show ?thesis
      by (auto simp: state_receiver_drop_def Let_def state_counts_ok_def intro!: keep)
  qed
  show "returns (state_exec Sb_Clone_Sender s) state_sys_inv" if "0 < stx_sender_handles s" "stx_sender_handles s < 2 ^ 63"
    using that S(6) counts count_up [of "shst_senders (stx_shared s)"]
    by (auto simp: state_sender_clone_def Let_def state_counts_ok_def intro!: keep)
  show "returns (state_exec Sb_Clone_Receiver s) state_sys_inv" if "0 < stx_receiver_handles s" "stx_receiver_handles s < 2 ^ 63"
    using that S(6) counts count_up [of "shst_receivers (stx_shared s)"]
    by (auto simp: state_receiver_clone_def Let_def state_counts_ok_def intro!: keep)
qed

lemma state_sys_new_inv: "state_sys_inv state_sys_new"
  by (rule state_sys_repI [where S = "\<lparr>sts_closed = False, sts_history = [], sts_queue = [], sts_data = Map.empty\<rparr>"])
    (auto simp: state_sys_new_def shared_state_new_def state_channel_new_def state_abs_def sts_inv_def
      state_futures_ok_def state_received_ok_def state_counts_ok_def data_of_def ll_rep_new)

lemma state_exec_preserves:
  assumes "state_sys_inv s" "state_enabled act s"
  shows "returns (state_exec act s) state_sys_inv"
proof -
  from assms(1) obtain S where rep: "state_sys_rep s S" by (auto simp: state_sys_inv_def)
  have close: "returns (state_exec Sb_Close s) state_sys_inv"
    using state_close_handles [OF rep] state_sys_repD(6) [OF rep]
    by (auto simp: state_counts_ok_def elim!: returns_mono)
  show ?thesis
    using assms(2) state_send_preserves [OF rep] close state_receive_preserves [OF rep] state_poll_preserves [OF rep]
      state_drop_preserves [OF rep] state_try_receive_preserves [OF rep] state_handles_preserve [OF rep]
    by (cases act) (auto simp: state_future_is_terminated_def simp del: state_exec.simps split: option.splits)
qed

interpretation sbs: transition_system "\<lambda>s. s = state_sys_new" state_enabled state_exec state_sys_inv
  by unfold_locales (auto simp: state_sys_new_inv simp del: state_exec.simps state_enabled.simps
      intro: state_exec_preserves)

lemma state_reach_rep: "state_reachable s \<Longrightarrow> \<exists>S. state_sys_rep s S"
  using sbs.reach_inv by (auto simp: state_sys_inv_def)

section \<open>Properties\<close>

lemmas state_eval =
  state_sys_new_def shared_state_new_def state_channel_new_def state_receive_def state_waiter_new_def
  state_future_poll_def state_future_is_terminated_def state_receive_or_register_def state_send_def state_close_def
  state_wake_waiters_def state_wake_waiter_def state_try_receive_def state_known_id_def less_state_id_def
  state_sender_drop_def state_sender_clone_def usize_add_def

abbreviation state_demo_acts :: "nat state_action list" where
  "state_demo_acts \<equiv>
     [Sb_Receive 2 (State_Id 0), Sb_Poll 2 (Waker 2 0), Sb_Send 7, Sb_Send 8, Sb_Poll 2 (Waker 2 0),
      Sb_Receive 3 (State_Id 2), Sb_Poll 3 (Waker 3 0), Sb_Try_Receive (State_Id 1)]"

definition state_demo :: "nat state_sys" where
  "state_demo = the (exec_all state_enabled state_exec state_demo_acts state_sys_new)"

lemma state_demo_run: "exec_all state_enabled state_exec state_demo_acts state_sys_new = Some state_demo"
  by (simp add: state_demo_def state_eval ll_eval data_of_def)

lemma state_demo_reach: "state_reachable state_demo"
  by (rule exec_all_reach [OF state_demo_run reach_init]) simp

lemma state_demo_facts:
  "stx_published state_demo = [7, 8]"
  "stx_received state_demo = [(State_Id 0, State_Id 2, 8), (State_Id 1, State_Id 2, 8)]"
  "ll_rep (stc_nodes (stx_chan state_demo)) (stc_waiters (stx_chan state_demo)) [3]"
  "data_of (stc_nodes (stx_chan state_demo)) 3 =
     Some \<lparr>stw_task = Some (Waker 3 0), stw_state = St_Registered, stw_state_id = State_Id 2\<rparr>"
  "stx_sender_handles state_demo = 1" "stx_receiver_handles state_demo = 1"
  by (simp_all add: state_demo_def state_eval ll_eval data_of_def ll_rep_def)

text \<open>
  C19: what a receiver gets was published, under the number it is delivered with, and is newer than
  the state the receiver knew: whoever passes the id it got to the next \<open>receive\<close> never sees the
  same or an older state. Numbers are those of the states published, the channel holds the last
  one, and no call faults.
\<close>

theorem state_broadcast_delivers_newer:
  assumes "state_reachable s"
  shows "(\<forall>(i, j, v)\<in>set (stx_received s). i < j \<and> unat (state_id_val j) \<le> length (stx_published s) \<and>
      stx_published s ! (unat (state_id_val j) - 1) = v) \<and>
    unat (state_id_val (stc_state_id (stx_chan s))) = length (stx_published s) \<and>
    stc_value (stx_chan s) = (if stx_published s = [] then None else Some (last (stx_published s))) \<and>
    (state_enabled act s \<longrightarrow> (\<exists>t. state_exec act s = Inr t))"
proof -
  from state_reach_rep [OF assms] obtain S where rep: "state_sys_rep s S" by blast
  from state_sys_repD(1,4,5) [OF rep] sbs.no_fault [OF assms, of act] show ?thesis
    by (auto simp: state_abs_def state_received_ok_def)
qed

theorem state_broadcast_delivers_newer_witness: "State_Id 1 < State_Id 2 \<and> stx_published state_demo ! 1 = 8"
  using state_broadcast_delivers_newer [OF state_demo_reach, of Sb_Close] by (simp add: state_demo_facts)

text \<open>What a poll returns is decided by the id the future knows, whether it was waiting or not.\<close>

lemma state_poll_delivers:
  assumes rep: "state_sys_rep s S" and f: "stx_futures s a = Some f" "\<not> state_future_is_terminated f"
  shows "\<exists>e f' c. data_of (stc_nodes (stx_chan s)) a = Some e \<and>
    state_future_poll f cx (stx_chan s) = Inr
      (if stw_state_id e < stc_state_id (stx_chan s)
       then Ready (Some (stc_state_id (stx_chan s), last (stx_published s)))
       else if stc_is_closed (stx_chan s) then Ready None else Pending, f', c)"
proof -
  note S = state_sys_repD [OF rep]
  from state_futures_okD [OF S(3) f(1)] obtain e where e: "sts_data S a = Some e" "stf_wait_node f = a" by auto
  from S(1) have less: "stw_state_id e < stc_state_id (stx_chan s) \<longleftrightarrow> known e < length (sts_history S)"
    by (simp add: state_abs_def less_state_id_def word_less_nat_alt)
  have id: "i = stc_state_id (stx_chan s)" if "unat (state_id_val i) = length (sts_history S)" for i
    using that S(1) by (simp add: state_abs_def state_id.expand word_unat_eq_iff)
  have waits: "length (sts_history S) \<le> known e" "\<not> sts_closed S" if "stw_state e = St_Registered"
    using S(2) e(1) that by (auto simp: sts_inv_def)
  from state_receive_or_register_refines [OF S(1,2) e(1), of cx] obtain r c r' S' where
    run: "state_receive_or_register a cx (stx_chan s) = Inr (r, c)" "sts_poll a cx S = (r', S')" "id_rel r r'"
    by (auto simp: returns_iff)
  have r': "r' = (if known e < length (sts_history S) then Ready (Some (length (sts_history S), last (sts_history S)))
      else if sts_closed S then Ready None else Pending)"
    using run(2) e(1) waits by (cases "stw_state e") (auto simp: sts_poll_def Let_def split: if_splits)
  have closed: "stc_is_closed (stx_chan s) = sts_closed S" using S(1) by (simp add: state_abs_def)
  have "r = (if stw_state_id e < stc_state_id (stx_chan s)
       then Ready (Some (stc_state_id (stx_chan s), last (stx_published s)))
       else if stc_is_closed (stx_chan s) then Ready None else Pending)"
    using run(3) id S(4) unfolding r' less closed by (auto dest!: id_relD split: if_splits)
  moreover have "data_of (stc_nodes (stx_chan s)) a = Some e" using e(1) S(1) by (simp add: state_abs_def)
  ultimately show ?thesis
    using run(1) e(2) f(2) by (simp add: state_future_poll_def state_future_is_terminated_def)
qed

text \<open>
  C20: no update is missed. A poll of a future that is not terminated returns the newest state with
  its id exactly when that id is newer than the one the future knows; otherwise it ends at a closed
  channel and waits at an open one. A future waits only while the channel is open and holds no state
  newer than the one it knows, and \<open>send\<close>, unless the channel is closed or all numbers are used up,
  wakes all futures that wait, the oldest first, with the waker of their last poll.
\<close>

theorem state_broadcast_no_missed_update:
  assumes "state_reachable s"
    and "ll_rep (stc_nodes (stx_chan s)) (stc_waiters (stx_chan s)) q"
  shows "(\<forall>a f. stx_futures s a = Some f \<longrightarrow> \<not> state_future_is_terminated f \<longrightarrow>
      (\<exists>e f' c. data_of (stc_nodes (stx_chan s)) a = Some e \<and>
        state_future_poll f cx (stx_chan s) = Inr
          (if stw_state_id e < stc_state_id (stx_chan s)
           then Ready (Some (stc_state_id (stx_chan s), last (stx_published s)))
           else if stc_is_closed (stx_chan s) then Ready None else Pending, f', c))) \<and>
    (\<forall>a\<in>set q. \<not> stc_is_closed (stx_chan s) \<and>
      (\<exists>e. data_of (stc_nodes (stx_chan s)) a = Some e \<and> stc_state_id (stx_chan s) \<le> stw_state_id e)) \<and>
    (if stc_is_closed (stx_chan s) \<or> length (stx_published s) = 2 ^ 64 - 1
     then state_send v (stx_chan s) = Inr (Inl (Channel_Send_Error v), [], stx_chan s)
     else returns (state_send v (stx_chan s)) (\<lambda>(r, w, c). r = Inr () \<and> stc_value c = Some v \<and>
       ll_rep (stc_nodes c) (stc_waiters c) [] \<and>
       w = map (\<lambda>a. the (stw_task (the (data_of (stc_nodes (stx_chan s)) a)))) (rev q)))"
proof -
  from state_reach_rep [OF assms(1)] obtain S where rep: "state_sys_rep s S" by blast
  note S = state_sys_repD [OF rep]
  from S(1,4) assms(2) have v: "sts_queue S = q" "sts_data S = data_of (stc_nodes (stx_chan s))"
    "sts_closed S = stc_is_closed (stx_chan s)" "sts_history S = stx_published s"
    "unat (state_id_val (stc_state_id (stx_chan s))) = length (sts_history S)"
    using ll_rep_unique [of "stc_nodes (stx_chan s)" "stc_waiters (stx_chan s)" "sts_queue S" q]
    by (auto simp: state_abs_def)
  have waiting: "\<forall>a\<in>set q. \<exists>e. sts_data S a = Some e \<and> stw_task e \<noteq> None \<and> length (sts_history S) \<le> known e"
    using S(2) v(1) by (fastforce simp: sts_inv_def)
  then have "concat (map (\<lambda>a. wake_opt (stw_task (the (sts_data S a)))) (rev q)) =
      map (\<lambda>a. the (stw_task (the (sts_data S a)))) (rev q)"
    by (induction q) auto
  with state_send_refines [OF S(1), of v] v
  have "if stc_is_closed (stx_chan s) \<or> length (stx_published s) = 2 ^ 64 - 1
     then state_send v (stx_chan s) = Inr (Inl (Channel_Send_Error v), [], stx_chan s)
     else returns (state_send v (stx_chan s)) (\<lambda>(r, w, c). r = Inr () \<and> stc_value c = Some v \<and>
       ll_rep (stc_nodes c) (stc_waiters c) [] \<and>
       w = map (\<lambda>a. the (stw_task (the (data_of (stc_nodes (stx_chan s)) a)))) (rev q))"
    by (auto simp: sts_wakers_def state_abs_def sts_wake_def returns_iff)
  moreover have "\<forall>a\<in>set q. \<not> stc_is_closed (stx_chan s) \<and>
      (\<exists>e. data_of (stc_nodes (stx_chan s)) a = Some e \<and> stc_state_id (stx_chan s) \<le> stw_state_id e)"
    using waiting v S(2) by (fastforce simp: sts_inv_def less_eq_state_id_def word_le_nat_alt)
  ultimately show ?thesis using state_poll_delivers [OF rep] by simp
qed

theorem state_broadcast_no_missed_update_witness:
  "returns (state_send 9 (stx_chan state_demo)) (\<lambda>(r, w, c). w = [Waker 3 0])"
  using state_broadcast_no_missed_update [OF state_demo_reach state_demo_facts(3), of "Waker 4 0" 9]
  by (auto simp: state_demo_facts elim!: returns_mono split: if_splits)

text \<open>
  The counts are the numbers of senders and receivers that are alive, and the channel is closed
  once all senders or all receivers are gone.
\<close>

theorem state_broadcast_closes:
  assumes "state_reachable s"
  shows "unat (shst_senders (stx_shared s)) = stx_sender_handles s \<and>
    unat (shst_receivers (stx_shared s)) = stx_receiver_handles s \<and>
    (stx_sender_handles s = 0 \<or> stx_receiver_handles s = 0 \<longrightarrow> stc_is_closed (stx_chan s))"
proof -
  from state_reach_rep [OF assms] obtain S where rep: "state_sys_rep s S" by blast
  from state_sys_repD(1,6,7) [OF rep] show ?thesis by (auto simp: state_abs_def state_counts_ok_def)
qed

theorem state_broadcast_closes_witness: "unat (shst_senders (stx_shared state_demo)) = 1"
  using state_broadcast_closes [OF state_demo_reach] by (simp add: state_demo_facts)

text \<open>
  The futures of the shared variant behave as the borrowing ones; a terminated one panics when
  polled in both.
\<close>

theorem shared_state_futures_equivalent:
  "(if stf_channel f then shared_state_future_poll f cx c = state_future_poll f cx c
    else \<exists>m. shared_state_future_poll f cx c = Inl (Panic m) \<and> state_future_poll f cx c = Inl (Panic m)) \<and>
   shared_state_future_drop f c = state_future_drop f c"
proof -
  have "f\<lparr>stf_channel := True\<rparr> = f" if "stf_channel f" using that by (cases f) simp
  then show ?thesis
    by (auto simp: shared_state_future_poll_def state_future_poll_def shared_state_future_drop_def
        state_future_drop_def Let_def and_then_def split: sum.splits)
qed

end
