(* ===== verification/State_Shared.thy ===== *)
theory State_Shared
  imports State_Broadcast Arc
begin

text \<open>
  The public types of \<^verbatim>\<open>src/channel/state_broadcast.rs\<close>: \<open>GenericStateBroadcastChannel\<close>, and the
  module \<open>shared\<close> with the counted reference that senders, receivers and futures own. The system of
  the shared channel refines the one of \<open>State_Broadcast\<close>.
\<close>

section \<open>The channel and the trait the futures call\<close>

definition generic_state_default :: "'v state_channel" where
  "generic_state_default = state_channel_new"

definition generic_state_new :: "'v state_channel" where
  "generic_state_new = generic_state_default"

definition generic_state_send ::
  "'v \<Rightarrow> 'v state_channel \<Rightarrow> (('v channel_send_error + unit) \<times> waker list \<times> 'v state_channel) res" where
  "generic_state_send v c = state_send v c"

definition generic_state_close :: "'v state_channel \<Rightarrow> (close_status \<times> waker list \<times> 'v state_channel) res" where
  "generic_state_close c = state_close c"

definition generic_state_try_receive :: "state_id \<Rightarrow> 'v state_channel \<Rightarrow> (state_id \<times> 'v) option" where
  "generic_state_try_receive i c = state_try_receive i c"

record ('c, 'v) state_receive_access =
  sra_receive_or_register :: "addr \<Rightarrow> waker \<Rightarrow> 'c \<Rightarrow> ((state_id \<times> 'v) option poll \<times> 'c) res"
  sra_remove_receive_waiter :: "addr \<Rightarrow> 'c \<Rightarrow> 'c res"

definition generic_state_access :: "('v state_channel, 'v) state_receive_access" where
  "generic_state_access =
     \<lparr>sra_receive_or_register = (\<lambda>wait_node cx c. state_receive_or_register wait_node cx c),
      sra_remove_receive_waiter = (\<lambda>wait_node c. state_remove_waiter wait_node c)\<rparr>"

definition shared_state_access :: "('v shared_state, 'v) state_receive_access" where
  "shared_state_access =
     \<lparr>sra_receive_or_register = (\<lambda>wait_node cx c.
        and_then (sra_receive_or_register generic_state_access wait_node cx (shst_channel c)) (\<lambda>(r, ch).
        Inr (r, c\<lparr>shst_channel := ch\<rparr>))),
      sra_remove_receive_waiter = (\<lambda>wait_node c.
        and_then (sra_remove_receive_waiter generic_state_access wait_node (shst_channel c)) (\<lambda>ch.
        Inr (c\<lparr>shst_channel := ch\<rparr>)))\<rparr>"

section \<open>Futures that own the channel\<close>

text \<open>
  A poll takes the reference out of the future; when the result is ready the local variable that
  holds it is dropped, otherwise it is put back. The drop of a future borrows the reference to take
  the wait node out of the queue, then the field is dropped.
\<close>

definition arc_state_future_poll ::
  "('c, 'v) state_receive_access \<Rightarrow> state_future \<Rightarrow> waker \<Rightarrow> 'c arc \<Rightarrow>
   ((state_id \<times> 'v) option poll \<times> state_future \<times> 'c arc) res" where
  "arc_state_future_poll access f cx c =
     (let channel = stf_channel f; f = f\<lparr>stf_channel := False\<rparr> in
      if \<not> channel then Inl (Panic ''polled StateReceiveFuture after completion'')
      else and_then (arc_get c) (\<lambda>x.
           and_then (sra_receive_or_register access (stf_wait_node f) cx x) (\<lambda>(poll_res, x).
           let c = c\<lparr>arc_inner := x\<rparr> in
           if is_ready poll_res
           then and_then (arc_drop c) (\<lambda>c. Inr (poll_res, f\<lparr>stf_channel := False\<rparr>, c))
           else Inr (poll_res, f\<lparr>stf_channel := True\<rparr>, c))))"

definition arc_state_future_is_terminated :: "state_future \<Rightarrow> bool" where
  "arc_state_future_is_terminated f \<longleftrightarrow> \<not> stf_channel f"

definition arc_state_future_drop ::
  "('c, 'v) state_receive_access \<Rightarrow> state_future \<Rightarrow> 'c arc \<Rightarrow> 'c arc res" where
  "arc_state_future_drop access f c =
     (if stf_channel f
      then and_then (arc_get c) (\<lambda>x.
           and_then (sra_remove_receive_waiter access (stf_wait_node f) x) (\<lambda>x.
           arc_drop (c\<lparr>arc_inner := x\<rparr>)))
      else Inr c)"

section \<open>Senders and receivers\<close>

definition generic_state_broadcast_channel :: "addr \<Rightarrow> 'v shared_state arc res" where
  "generic_state_broadcast_channel p =
     (let inner = arc_new p \<lparr>shst_channel = generic_state_new, shst_senders = 1, shst_receivers = 1\<rparr> in
      and_then (arc_clone inner) (\<lambda>inner. Inr inner))"

definition state_sender_send ::
  "'v \<Rightarrow> 'v shared_state arc \<Rightarrow> (('v channel_send_error + unit) \<times> waker list \<times> 'v shared_state arc) res" where
  "state_sender_send v c =
     and_then (arc_get c) (\<lambda>x.
     and_then (generic_state_send v (shst_channel x)) (\<lambda>(r, w, ch).
     Inr (r, w, c\<lparr>arc_inner := x\<lparr>shst_channel := ch\<rparr>\<rparr>)))"

definition state_receiver_receive ::
  "addr \<Rightarrow> state_id \<Rightarrow> 'v shared_state arc \<Rightarrow>
   (state_future \<times> state_waiter list_node \<times> 'v shared_state arc) res" where
  "state_receiver_receive a i c =
     and_then (arc_clone c) (\<lambda>c.
     Inr (\<lparr>stf_channel = True, stf_wait_node = a\<rparr>, list_node_new (state_waiter_new i), c))"

definition state_receiver_try_receive ::
  "state_id \<Rightarrow> 'v shared_state arc \<Rightarrow> (state_id \<times> 'v) option res" where
  "state_receiver_try_receive i c =
     and_then (arc_get c) (\<lambda>x. Inr (generic_state_try_receive i (shst_channel x)))"

definition arc_state_sender_clone :: "'v shared_state arc \<Rightarrow> 'v shared_state arc res" where
  "arc_state_sender_clone = arc_handle_clone state_sender_clone"

definition arc_state_receiver_clone :: "'v shared_state arc \<Rightarrow> 'v shared_state arc res" where
  "arc_state_receiver_clone = arc_handle_clone state_receiver_clone"

section \<open>The system\<close>

record 'v shared_state_sys =
  sx_arc :: "'v shared_state arc"
  sx_futures :: "addr \<rightharpoonup> state_future"
  sx_woken :: "waker list"
  sx_published :: "'v list"
  sx_received :: "(state_id \<times> state_id \<times> 'v) list"
  sx_sender_handles :: nat
  sx_receiver_handles :: nat

definition sx_view :: "'v shared_state_sys \<Rightarrow> 'v state_sys" where
  "sx_view s =
     \<lparr>stx_shared = arc_inner (sx_arc s), stx_futures = sx_futures s, stx_woken = sx_woken s,
      stx_published = sx_published s, stx_received = sx_received s,
      stx_sender_handles = sx_sender_handles s, stx_receiver_handles = sx_receiver_handles s\<rparr>"

definition shared_state_sys_new :: "addr \<Rightarrow> 'v shared_state_sys res" where
  "shared_state_sys_new p =
     and_then (generic_state_broadcast_channel p) (\<lambda>c.
     Inr \<lparr>sx_arc = c, sx_futures = Map.empty, sx_woken = [], sx_published = [], sx_received = [],
          sx_sender_handles = 1, sx_receiver_handles = 1\<rparr>)"

text \<open>
  Calls go through handles that are alive; the handles have no \<open>close\<close>. The memory of a 64-bit
  machine does not hold \<open>2 ^ 63\<close> references.
\<close>

definition sx_room :: "'v shared_state_sys \<Rightarrow> bool" where
  "sx_room s \<longleftrightarrow> unat (arc_strong (sx_arc s)) < 2 ^ 63"

fun shared_state_allowed :: "'v state_action \<Rightarrow> 'v shared_state_sys \<Rightarrow> bool" where
  "shared_state_allowed (Sb_Send v) s = (0 < sx_sender_handles s)"
| "shared_state_allowed Sb_Close s = False"
| "shared_state_allowed (Sb_Receive a i) s = (0 < sx_receiver_handles s \<and> sx_room s)"
| "shared_state_allowed (Sb_Try_Receive i) s = (0 < sx_receiver_handles s)"
| "shared_state_allowed Sb_Clone_Sender s = sx_room s"
| "shared_state_allowed Sb_Clone_Receiver s = sx_room s"
| "shared_state_allowed act s = True"

definition shared_state_enabled :: "'v state_action \<Rightarrow> 'v shared_state_sys \<Rightarrow> bool" where
  "shared_state_enabled act s \<longleftrightarrow> state_enabled act (sx_view s) \<and> shared_state_allowed act s"

definition state_set_nodes :: "state_waiter store \<Rightarrow> 'v shared_state arc \<Rightarrow> 'v shared_state arc" where
  "state_set_nodes h c =
     c\<lparr>arc_inner := (arc_inner c)\<lparr>shst_channel := (shst_channel (arc_inner c))\<lparr>stc_nodes := h\<rparr>\<rparr>\<rparr>"

abbreviation sx_nodes :: "'v shared_state arc \<Rightarrow> state_waiter store" where
  "sx_nodes c \<equiv> stc_nodes (shst_channel (arc_inner c))"

fun shared_state_exec :: "'v state_action \<Rightarrow> 'v shared_state_sys \<Rightarrow> 'v shared_state_sys res" where
  "shared_state_exec (Sb_Send v) s =
     and_then (state_sender_send v (sx_arc s)) (\<lambda>(r, w, c).
     Inr (s\<lparr>sx_arc := c, sx_woken := sx_woken s @ w,
            sx_published := sx_published s @ (case r of Inr _ \<Rightarrow> [v] | Inl _ \<Rightarrow> [])\<rparr>))"
| "shared_state_exec Sb_Close s = Inr s"
| "shared_state_exec (Sb_Receive a i) s =
     and_then (state_receiver_receive a i (sx_arc s)) (\<lambda>(f, node, c).
     Inr (s\<lparr>sx_arc := state_set_nodes ((sx_nodes c)(a \<mapsto> node)) c, sx_futures := (sx_futures s)(a \<mapsto> f)\<rparr>))"
| "shared_state_exec (Sb_Poll a cx) s =
     and_then (deref (sx_futures s) a) (\<lambda>f.
     and_then (arc_state_future_poll shared_state_access f cx (sx_arc s)) (\<lambda>(r, f, c).
     Inr (s\<lparr>sx_arc := c, sx_futures := (sx_futures s)(a \<mapsto> f),
            sx_received := sx_received s @ (case r of
              Ready (Some (i, v)) \<Rightarrow> [(state_known_id a (shst_channel (arc_inner (sx_arc s))), i, v)] | _ \<Rightarrow> [])\<rparr>)))"
| "shared_state_exec (Sb_Drop a) s =
     and_then (deref (sx_futures s) a) (\<lambda>f.
     and_then (arc_state_future_drop shared_state_access f (sx_arc s)) (\<lambda>c.
     Inr (s\<lparr>sx_arc := state_set_nodes ((sx_nodes c)(a := None)) c, sx_futures := (sx_futures s)(a := None)\<rparr>)))"
| "shared_state_exec (Sb_Try_Receive i) s =
     and_then (state_receiver_try_receive i (sx_arc s)) (\<lambda>r.
     Inr (s\<lparr>sx_received := sx_received s @ (case r of Some (j, v) \<Rightarrow> [(i, j, v)] | None \<Rightarrow> [])\<rparr>))"
| "shared_state_exec Sb_Clone_Sender s =
     and_then (arc_state_sender_clone (sx_arc s)) (\<lambda>c.
     Inr (s\<lparr>sx_arc := c, sx_sender_handles := sx_sender_handles s + 1\<rparr>))"
| "shared_state_exec Sb_Drop_Sender s =
     and_then (handle_drop state_sender_drop (sx_arc s)) (\<lambda>(w, c).
     Inr (s\<lparr>sx_arc := c, sx_woken := sx_woken s @ w, sx_sender_handles := sx_sender_handles s - 1\<rparr>))"
| "shared_state_exec Sb_Clone_Receiver s =
     and_then (arc_state_receiver_clone (sx_arc s)) (\<lambda>c.
     Inr (s\<lparr>sx_arc := c, sx_receiver_handles := sx_receiver_handles s + 1\<rparr>))"
| "shared_state_exec Sb_Drop_Receiver s =
     and_then (handle_drop state_receiver_drop (sx_arc s)) (\<lambda>(w, c).
     Inr (s\<lparr>sx_arc := c, sx_woken := sx_woken s @ w, sx_receiver_handles := sx_receiver_handles s - 1\<rparr>))"

abbreviation shared_state_reachable :: "addr \<Rightarrow> 'v shared_state_sys \<Rightarrow> bool" where
  "shared_state_reachable p \<equiv>
     reach (\<lambda>s. shared_state_sys_new p = Inr s) shared_state_enabled shared_state_exec"

section \<open>Refinement and counts\<close>

definition sx_owners :: "'v shared_state_sys \<Rightarrow> nat" where
  "sx_owners s = sx_sender_handles s + sx_receiver_handles s + card (owning stf_channel (sx_futures s))"

definition shared_state_inv :: "'v shared_state_sys \<Rightarrow> bool" where
  "shared_state_inv s \<longleftrightarrow>
     state_reachable (sx_view s) \<and> finite (dom (sx_futures s)) \<and> arc_counts (sx_arc s) (sx_owners s)"

definition shared_state_step :: "'v state_action \<Rightarrow> 'v shared_state_sys \<Rightarrow> 'v shared_state_sys \<Rightarrow> bool" where
  "shared_state_step act s t \<longleftrightarrow> shared_state_inv t \<and> state_exec act (sx_view s) = Inr (sx_view t)"

lemma sx_view_simps [simp]:
  "stx_shared (sx_view s) = arc_inner (sx_arc s)" "stx_futures (sx_view s) = sx_futures s"
  "stx_woken (sx_view s) = sx_woken s" "stx_published (sx_view s) = sx_published s"
  "stx_received (sx_view s) = sx_received s" "stx_sender_handles (sx_view s) = sx_sender_handles s"
  "stx_receiver_handles (sx_view s) = sx_receiver_handles s"
  by (simp_all add: sx_view_def)

lemma state_set_nodes_simps [simp]:
  "arc_counts (state_set_nodes h c) n = arc_counts c n"
  "arc_inner (state_set_nodes h c) = (arc_inner c)\<lparr>shst_channel := (shst_channel (arc_inner c))\<lparr>stc_nodes := h\<rparr>\<rparr>"
  by (simp_all add: state_set_nodes_def)

lemma stf_channel_same [simp]: "stf_channel f \<Longrightarrow> f\<lparr>stf_channel := True\<rparr> = f"
  by (cases f) simp

lemma shared_state_invD:
  assumes "shared_state_inv s"
  shows "state_reachable (sx_view s)" "finite (dom (sx_futures s))" "arc_counts (sx_arc s) (sx_owners s)"
  using assms by (auto simp: shared_state_inv_def)

lemma shared_state_follows:
  assumes inv: "shared_state_inv s" and enabled: "state_enabled act (sx_view s)"
    and run: "state_exec act (sx_view s) = Inr t'" and view: "sx_view t = t'"
    and counts: "arc_counts (sx_arc t) (sx_owners t)" and fin: "finite (dom (sx_futures t))"
  shows "shared_state_step act s t"
proof -
  from shared_state_invD(1) [OF inv] enabled run have "state_reachable t'" by (rule reach_step)
  with run view counts fin show ?thesis by (simp add: shared_state_step_def shared_state_inv_def)
qed

lemma sx_run:
  assumes "shared_state_inv s" "shared_state_enabled act s"
  obtains t' where "state_exec act (sx_view s) = Inr t'" "state_enabled act (sx_view s)" "shared_state_allowed act s"
  using sbs.no_fault [OF shared_state_invD(1) [OF assms(1)], of act] assms(2) by (auto simp: shared_state_enabled_def)

lemma sx_send_preserves:
  assumes inv: "shared_state_inv s" and en: "shared_state_enabled (Sb_Send v) s"
  shows "returns (shared_state_exec (Sb_Send v) s) (shared_state_step (Sb_Send v) s)"
proof -
  note S = shared_state_invD [OF inv]
  from sx_run [OF inv en] obtain t' where t': "state_exec (Sb_Send v) (sx_view s) = Inr t'"
    and act: "state_enabled (Sb_Send v) (sx_view s)" "0 < sx_sender_handles s" by auto
  then obtain r w ch where send: "state_send v (shst_channel (arc_inner (sx_arc s))) = Inr (r, w, ch)"
    and t'_eq: "t' = (sx_view s)\<lparr>stx_shared := (arc_inner (sx_arc s))\<lparr>shst_channel := ch\<rparr>, stx_woken := sx_woken s @ w,
      stx_published := sx_published s @ (case r of Inr _ \<Rightarrow> [v] | Inl _ \<Rightarrow> [])\<rparr>"
    by (auto simp: and_then_eq_Inr cong: sum.case_cong)
  let ?t = "s\<lparr>sx_arc := (sx_arc s)\<lparr>arc_inner := (arc_inner (sx_arc s))\<lparr>shst_channel := ch\<rparr>\<rparr>,
    sx_woken := sx_woken s @ w, sx_published := sx_published s @ (case r of Inr _ \<Rightarrow> [v] | Inl _ \<Rightarrow> [])\<rparr>"
  have "sx_view ?t = t'" using t'_eq by (simp add: sx_view_def)
  from shared_state_follows [OF inv act(1) t' this] S(2,3) have "shared_state_step (Sb_Send v) s ?t"
    by (simp add: sx_owners_def)
  moreover have "0 < sx_owners s" using act(2) by (simp add: sx_owners_def)
  ultimately show ?thesis using send S(3) by (simp add: state_sender_send_def generic_state_send_def)
qed

lemma sx_receive_preserves:
  assumes inv: "shared_state_inv s" and en: "shared_state_enabled (Sb_Receive a i) s"
  shows "returns (shared_state_exec (Sb_Receive a i) s) (shared_state_step (Sb_Receive a i) s)"
proof -
  note S = shared_state_invD [OF inv]
  from sx_run [OF inv en] have act: "state_enabled (Sb_Receive a i) (sx_view s)"
    "0 < sx_receiver_handles s" "unat (arc_strong (sx_arc s)) < 2 ^ 63"
    by (auto simp: sx_room_def simp del: state_exec.simps state_enabled.simps)
  have "0 < sx_owners s" using act(2) by (simp add: sx_owners_def)
  from arc_clone_same [OF S(3) this act(3)] obtain c where
    c: "arc_clone (sx_arc s) = Inr c" "arc_counts c (Suc (sx_owners s))" "arc_inner c = arc_inner (sx_arc s)" by blast
  let ?f = "\<lparr>stf_channel = True, stf_wait_node = a\<rparr>" and ?node = "list_node_new (state_waiter_new i)"
  let ?t = "s\<lparr>sx_arc := state_set_nodes ((sx_nodes c)(a \<mapsto> ?node)) c, sx_futures := (sx_futures s)(a \<mapsto> ?f)\<rparr>"
  obtain S' where S': "state_sys_rep (sx_view s) S'" using state_reach_rep [OF S(1)] by blast
  have "sx_futures s a = None"
  proof (rule ccontr)
    assume "sx_futures s a \<noteq> None"
    with state_sys_repD(3) [OF S'] obtain e where "sts_data S' a = Some e" by (auto dest: state_futures_okD)
    moreover have "data_of (sx_nodes (sx_arc s)) = sts_data S'" using state_sys_repD(1) [OF S'] by (simp add: state_abs_def)
    moreover have "data_of (sx_nodes (sx_arc s)) a = None" using act(1) by simp
    ultimately show False by simp
  qed
  from owning_card(1) [where P = stf_channel and f = ?f, OF S(2) this] c(2)
  have "arc_counts (sx_arc ?t) (sx_owners ?t)" by (simp add: sx_owners_def)
  moreover have "state_exec (Sb_Receive a i) (sx_view s) = Inr (sx_view ?t)"
    using c(3) by (simp add: state_receive_def sx_view_def)
  ultimately have "shared_state_step (Sb_Receive a i) s ?t"
    using shared_state_follows [OF inv act(1) _ refl, of ?t] S(2) by (simp del: state_exec.simps)
  then show ?thesis by (simp add: state_receiver_receive_def c(1))
qed

lemma sx_poll_preserves:
  assumes inv: "shared_state_inv s" and en: "shared_state_enabled (Sb_Poll a cx) s"
  shows "returns (shared_state_exec (Sb_Poll a cx) s) (shared_state_step (Sb_Poll a cx) s)"
proof -
  note S = shared_state_invD [OF inv]
  from sx_run [OF inv en] obtain t' where t': "state_exec (Sb_Poll a cx) (sx_view s) = Inr t'"
    and act: "state_enabled (Sb_Poll a cx) (sx_view s)" by auto
  from act obtain f where f: "sx_futures s a = Some f" "stf_channel f"
    by (auto simp: state_future_is_terminated_def split: option.splits)
  let ?known = "state_known_id a (shst_channel (arc_inner (sx_arc s)))"
  from t' f obtain r ch where
    reg: "state_receive_or_register (stf_wait_node f) cx (shst_channel (arc_inner (sx_arc s))) = Inr (r, ch)"
    and t'_eq: "t' = (sx_view s)\<lparr>stx_shared := (arc_inner (sx_arc s))\<lparr>shst_channel := ch\<rparr>,
      stx_futures := (sx_futures s)(a \<mapsto> (if is_ready r then f\<lparr>stf_channel := False\<rparr> else f)),
      stx_received := sx_received s @ (case r of Ready (Some (i, v)) \<Rightarrow> [(?known, i, v)] | _ \<Rightarrow> [])\<rparr>"
    by (auto simp: state_future_poll_def and_then_eq_Inr cong: poll.case_cong option.case_cong)
  have "a \<in> owning stf_channel (sx_futures s)" using f by (auto simp: owning_def)
  with owning_finite [OF S(2)] have pos: "0 < sx_owners s" by (auto simp: sx_owners_def card_gt_0_iff)
  let ?x = "(arc_inner (sx_arc s))\<lparr>shst_channel := ch\<rparr>"
  let ?t = "\<lambda>c f. s\<lparr>sx_arc := c, sx_futures := (sx_futures s)(a \<mapsto> f),
    sx_received := sx_received s @ (case r of Ready (Some (i, v)) \<Rightarrow> [(?known, i, v)] | _ \<Rightarrow> [])\<rparr>"
  have finish: "shared_state_step (Sb_Poll a cx) s (?t c g)"
    if "arc_inner c = ?x" "g = (if is_ready r then f\<lparr>stf_channel := False\<rparr> else f)" "arc_counts c (sx_owners (?t c g))" for c g
  proof -
    have "sx_view (?t c g) = t'" using that(1,2) t'_eq by (simp add: sx_view_def)
    from shared_state_follows [OF inv act t' this] that(3) S(2) show ?thesis by simp
  qed
  show ?thesis
  proof (cases "is_ready r")
    case True
    let ?f = "f\<lparr>stf_channel := False\<rparr>"
    let ?n = "sx_sender_handles s + sx_receiver_handles s + card (owning stf_channel ((sx_futures s)(a \<mapsto> ?f)))"
    from owning_card(3) [where P = stf_channel and F = "sx_futures s" and a = a and g = f and f = ?f, OF S(2)] f S(3)
    have "arc_counts (sx_arc s) (Suc ?n)" by (simp add: sx_owners_def)
    from arc_drop_upd [OF this, of ?x] obtain c where
      c: "arc_drop ((sx_arc s)\<lparr>arc_inner := ?x\<rparr>) = Inr c" "arc_counts c ?n" "arc_inner c = ?x" by blast
    from finish [OF c(3), of ?f] c True reg f pos S(3) show ?thesis
      by (simp add: arc_state_future_poll_def shared_state_access_def generic_state_access_def sx_owners_def Let_def)
  next
    case False
    have "sx_owners (?t c f) = sx_owners s" for c
      using owning_card(2) [where P = stf_channel and F = "sx_futures s" and a = a and g = f and f = f, OF S(2) f(1)]
      by (simp add: sx_owners_def)
    then show ?thesis
      using finish [of "(sx_arc s)\<lparr>arc_inner := ?x\<rparr>" f] False reg f pos S(3)
      by (simp add: arc_state_future_poll_def shared_state_access_def generic_state_access_def Let_def)
  qed
qed

lemma sx_drop_preserves:
  assumes inv: "shared_state_inv s" and en: "shared_state_enabled (Sb_Drop a) s"
  shows "returns (shared_state_exec (Sb_Drop a) s) (shared_state_step (Sb_Drop a) s)"
proof -
  note S = shared_state_invD [OF inv]
  from sx_run [OF inv en] obtain t' where t': "state_exec (Sb_Drop a) (sx_view s) = Inr t'"
    and act: "state_enabled (Sb_Drop a) (sx_view s)" by auto
  from act obtain f where f: "sx_futures s a = Some f" by auto
  from t' f obtain ch where
    drop: "state_future_drop f (shst_channel (arc_inner (sx_arc s))) = Inr ch"
    and t'_eq: "t' = (sx_view s)\<lparr>stx_shared := (arc_inner (sx_arc s))\<lparr>shst_channel :=
        ch\<lparr>stc_nodes := (stc_nodes ch)(a := None)\<rparr>\<rparr>, stx_futures := (sx_futures s)(a := None)\<rparr>"
    by (auto simp: and_then_eq_Inr)
  let ?t = "\<lambda>c. s\<lparr>sx_arc := state_set_nodes ((sx_nodes c)(a := None)) c, sx_futures := (sx_futures s)(a := None)\<rparr>"
  let ?x = "(arc_inner (sx_arc s))\<lparr>shst_channel := ch\<rparr>"
  have finish: "shared_state_step (Sb_Drop a) s (?t c)" if "arc_inner c = ?x" "arc_counts c (sx_owners (?t c))" for c
  proof -
    have "sx_view (?t c) = t'" using that(1) t'_eq by (simp add: sx_view_def)
    from shared_state_follows [OF inv act t' this] that(2) S(2) show ?thesis by simp
  qed
  show ?thesis
  proof (cases "stf_channel f")
    case True
    let ?n = "sx_sender_handles s + sx_receiver_handles s + card (owning stf_channel ((sx_futures s)(a := None)))"
    from owning_card(4) [where P = stf_channel and F = "sx_futures s" and a = a and g = f, OF S(2) f True] S(3)
    have n: "arc_counts (sx_arc s) (Suc ?n)" "0 < sx_owners s" by (simp_all add: sx_owners_def)
    from arc_drop_upd [OF n(1), of ?x] obtain c where
      c: "arc_drop ((sx_arc s)\<lparr>arc_inner := ?x\<rparr>) = Inr c" "arc_counts c ?n" "arc_inner c = ?x" by blast
    from finish [OF c(3)] c True drop f n(2) S(3) show ?thesis
      by (simp add: arc_state_future_drop_def state_future_drop_def shared_state_access_def generic_state_access_def
          sx_owners_def)
  next
    case False
    with drop have "?x = arc_inner (sx_arc s)" by (simp add: state_future_drop_def)
    with finish [of "sx_arc s"] False f S(3)
      owning_card(5) [where P = stf_channel and F = "sx_futures s" and a = a and g = f, OF S(2) f False]
    show ?thesis by (simp add: arc_state_future_drop_def sx_owners_def)
  qed
qed

lemma sx_try_receive_preserves:
  assumes inv: "shared_state_inv s" and en: "shared_state_enabled (Sb_Try_Receive i) s"
  shows "returns (shared_state_exec (Sb_Try_Receive i) s) (shared_state_step (Sb_Try_Receive i) s)"
proof -
  note S = shared_state_invD [OF inv]
  from sx_run [OF inv en] have act: "state_enabled (Sb_Try_Receive i) (sx_view s)" "0 < sx_receiver_handles s" by auto
  let ?t = "s\<lparr>sx_received := sx_received s @ (case state_try_receive i (shst_channel (arc_inner (sx_arc s))) of
    Some (j, v) \<Rightarrow> [(i, j, v)] | None \<Rightarrow> [])\<rparr>"
  have "state_exec (Sb_Try_Receive i) (sx_view s) = Inr (sx_view ?t)" by (simp add: sx_view_def)
  from shared_state_follows [OF inv act(1) this refl] S(2,3) have "shared_state_step (Sb_Try_Receive i) s ?t"
    by (simp add: sx_owners_def)
  moreover have "0 < sx_owners s" using act(2) by (simp add: sx_owners_def)
  ultimately show ?thesis using S(3) by (simp add: state_receiver_try_receive_def generic_state_try_receive_def)
qed

text \<open>The handles.\<close>

lemma sx_clone_preserves:
  assumes inv: "shared_state_inv s" and act: "act = Sb_Clone_Sender \<or> act = Sb_Clone_Receiver"
    and en: "shared_state_enabled act s"
  shows "returns (shared_state_exec act s) (shared_state_step act s)"
proof -
  note S = shared_state_invD [OF inv]
  from sx_run [OF inv en] obtain t' where t': "state_exec act (sx_view s) = Inr t'"
    and en': "state_enabled act (sx_view s)" "shared_state_allowed act s" by blast
  with act have room: "unat (arc_strong (sx_arc s)) < 2 ^ 63" and pos: "0 < sx_owners s"
    by (auto simp: sx_room_def sx_owners_def)
  note clone = arc_handle_clone_counts [OF S(3) pos room]
  from act show ?thesis
  proof
    assume act: "act = Sb_Clone_Sender"
    with t' obtain x where x: "state_sender_clone (arc_inner (sx_arc s)) = Inr x"
      "t' = (sx_view s)\<lparr>stx_shared := x, stx_sender_handles := sx_sender_handles s + 1\<rparr>"
      by (auto simp: and_then_eq_Inr)
    from clone [where count = state_sender_clone, OF x(1)] obtain c where
      c: "arc_handle_clone state_sender_clone (sx_arc s) = Inr c" "arc_counts c (Suc (sx_owners s))" "arc_inner c = x" by blast
    let ?t = "s\<lparr>sx_arc := c, sx_sender_handles := sx_sender_handles s + 1\<rparr>"
    have "sx_view ?t = t'" using x c(3) by (simp add: sx_view_def)
    from shared_state_follows [OF inv en'(1) t' this] c S(2) act show ?thesis
      by (simp add: arc_state_sender_clone_def sx_owners_def)
  next
    assume act: "act = Sb_Clone_Receiver"
    with t' obtain x where x: "state_receiver_clone (arc_inner (sx_arc s)) = Inr x"
      "t' = (sx_view s)\<lparr>stx_shared := x, stx_receiver_handles := sx_receiver_handles s + 1\<rparr>"
      by (auto simp: and_then_eq_Inr)
    from clone [where count = state_receiver_clone, OF x(1)] obtain c where
      c: "arc_handle_clone state_receiver_clone (sx_arc s) = Inr c" "arc_counts c (Suc (sx_owners s))" "arc_inner c = x" by blast
    let ?t = "s\<lparr>sx_arc := c, sx_receiver_handles := sx_receiver_handles s + 1\<rparr>"
    have "sx_view ?t = t'" using x c(3) by (simp add: sx_view_def)
    from shared_state_follows [OF inv en'(1) t' this] c S(2) act show ?thesis
      by (simp add: arc_state_receiver_clone_def sx_owners_def)
  qed
qed

lemma sx_drop_handle_preserves:
  assumes inv: "shared_state_inv s" and act: "act = Sb_Drop_Sender \<or> act = Sb_Drop_Receiver"
    and en: "shared_state_enabled act s"
  shows "returns (shared_state_exec act s) (shared_state_step act s)"
proof -
  note S = shared_state_invD [OF inv]
  from sx_run [OF inv en] obtain t' where t': "state_exec act (sx_view s) = Inr t'"
    and en': "state_enabled act (sx_view s)" by blast
  from act show ?thesis
  proof
    assume act: "act = Sb_Drop_Sender"
    with t' obtain w x where x: "state_sender_drop (arc_inner (sx_arc s)) = Inr (w, x)"
      "t' = (sx_view s)\<lparr>stx_shared := x, stx_woken := sx_woken s @ w, stx_sender_handles := sx_sender_handles s - 1\<rparr>"
      by (auto simp: and_then_eq_Inr)
    let ?n = "sx_sender_handles s - 1 + sx_receiver_handles s + card (owning stf_channel (sx_futures s))"
    have "arc_counts (sx_arc s) (Suc ?n)" using act en' S(3) by (simp add: sx_owners_def)
    from handle_drop_counts [where dropper = state_sender_drop, OF this x(1)] obtain c where
      c: "handle_drop state_sender_drop (sx_arc s) = Inr (w, c)" "arc_counts c ?n" "arc_inner c = x" by blast
    let ?t = "s\<lparr>sx_arc := c, sx_woken := sx_woken s @ w, sx_sender_handles := sx_sender_handles s - 1\<rparr>"
    have "sx_view ?t = t'" using x c(3) by (simp add: sx_view_def)
    from shared_state_follows [OF inv en' t' this] c S(2) act show ?thesis by (simp add: sx_owners_def)
  next
    assume act: "act = Sb_Drop_Receiver"
    with t' obtain w x where x: "state_receiver_drop (arc_inner (sx_arc s)) = Inr (w, x)"
      "t' = (sx_view s)\<lparr>stx_shared := x, stx_woken := sx_woken s @ w, stx_receiver_handles := sx_receiver_handles s - 1\<rparr>"
      by (auto simp: and_then_eq_Inr)
    let ?n = "sx_sender_handles s + (sx_receiver_handles s - 1) + card (owning stf_channel (sx_futures s))"
    have "arc_counts (sx_arc s) (Suc ?n)" using act en' S(3) by (simp add: sx_owners_def)
    from handle_drop_counts [where dropper = state_receiver_drop, OF this x(1)] obtain c where
      c: "handle_drop state_receiver_drop (sx_arc s) = Inr (w, c)" "arc_counts c ?n" "arc_inner c = x" by blast
    let ?t = "s\<lparr>sx_arc := c, sx_woken := sx_woken s @ w, sx_receiver_handles := sx_receiver_handles s - 1\<rparr>"
    have "sx_view ?t = t'" using x c(3) by (simp add: sx_view_def)
    from shared_state_follows [OF inv en' t' this] c S(2) act show ?thesis by (simp add: sx_owners_def)
  qed
qed

lemma shared_state_call:
  assumes "shared_state_inv s" "shared_state_enabled act s"
  shows "returns (shared_state_exec act s) (shared_state_step act s)"
proof -
  have "act \<noteq> Sb_Close" using assms(2) by (auto simp: shared_state_enabled_def)
  then show ?thesis
    using assms by (cases act) (blast intro: sx_send_preserves sx_receive_preserves sx_poll_preserves sx_drop_preserves
      sx_try_receive_preserves sx_clone_preserves sx_drop_handle_preserves)+
qed

lemma shared_state_init:
  fixes s :: "'v shared_state_sys"
  assumes "shared_state_sys_new p = Inr s"
  shows "shared_state_inv s"
proof -
  let ?x = "\<lparr>shst_channel = generic_state_new, shst_senders = 1, shst_receivers = 1\<rparr> :: 'v shared_state"
  have "arc_counts (arc_new p ?x) 1" by (simp add: arc_new_def arc_counts_def)
  from arc_clone_same [OF this] obtain c where
    c: "arc_clone (arc_new p ?x) = Inr c" "arc_counts c (Suc 1)" "arc_inner c = ?x" by (auto simp: arc_new_def)
  then have s: "s = \<lparr>sx_arc = c, sx_futures = Map.empty, sx_woken = [], sx_published = [], sx_received = [],
      sx_sender_handles = 1, sx_receiver_handles = 1\<rparr>"
    using assms by (simp add: shared_state_sys_new_def generic_state_broadcast_channel_def Let_def)
  then have "sx_view s = state_sys_new"
    using c(3) by (simp add: sx_view_def state_sys_new_def shared_state_new_def generic_state_new_def generic_state_default_def)
  then have "state_reachable (sx_view s)" by (rule reach_init)
  with s c(2) show ?thesis by (simp add: shared_state_inv_def sx_owners_def owning_def)
qed

interpretation shared_sbs: transition_system "\<lambda>s. shared_state_sys_new p = Inr s"
  shared_state_enabled shared_state_exec shared_state_inv for p
proof unfold_locales
  show "returns (shared_state_exec act s) shared_state_inv" if "shared_state_inv s" "shared_state_enabled act s"
    for act and s :: "'a shared_state_sys"
    using shared_state_call [OF that] by (auto simp: shared_state_step_def elim!: returns_mono)
qed (rule shared_state_init)

section \<open>Properties\<close>

lemma sx_alive_iff:
  assumes "shared_state_inv s"
  shows "arc_alive (sx_arc s) \<longleftrightarrow> 0 < sx_sender_handles s \<or> 0 < sx_receiver_handles s \<or>
    (\<exists>a f. sx_futures s a = Some f \<and> \<not> arc_state_future_is_terminated f)"
proof -
  note S = shared_state_invD [OF assms]
  have "0 < card (owning stf_channel (sx_futures s)) \<longleftrightarrow>
      (\<exists>a f. sx_futures s a = Some f \<and> \<not> arc_state_future_is_terminated f)"
    using owning_finite [OF S(2)] by (auto simp: card_gt_0_iff owning_def arc_state_future_is_terminated_def)
  with S(3) show ?thesis by (simp add: arc_counts_def sx_owners_def)
qed

text \<open>
  C30: the shared state channel refines the borrowed one. Behind the reference every reachable state
  is a reachable state of the channel with its counts, and every call that the handles alive allow
  returns and does there what the call of the borrowed channel does, so that what is delivered is
  published and newer here as well; and the channel is freed exactly when the last sender, receiver
  and unfinished future is gone.
\<close>

theorem shared_state_refines:
  assumes reach: "shared_state_reachable p s"
  shows "state_reachable (sx_view s) \<and>
    (arc_alive (sx_arc s) \<longleftrightarrow> 0 < sx_sender_handles s \<or> 0 < sx_receiver_handles s \<or>
      (\<exists>a f. sx_futures s a = Some f \<and> \<not> arc_state_future_is_terminated f)) \<and>
    (shared_state_enabled act s \<longrightarrow>
      (\<exists>t. shared_state_exec act s = Inr t \<and> state_exec act (sx_view s) = Inr (sx_view t)))"
proof -
  note inv = shared_sbs.reach_inv [OF reach]
  have "\<exists>t. shared_state_exec act s = Inr t \<and> state_exec act (sx_view s) = Inr (sx_view t)"
    if "shared_state_enabled act s"
    using shared_state_call [OF inv that] by (auto simp: returns_iff shared_state_step_def)
  with shared_state_invD(1) [OF inv] sx_alive_iff [OF inv] show ?thesis by blast
qed

lemmas shared_state_eval =
  shared_state_sys_new_def generic_state_broadcast_channel_def generic_state_new_def generic_state_default_def
  shared_state_enabled_def sx_room_def sx_view_def state_set_nodes_def state_receiver_receive_def
  state_receiver_drop_def arc_state_future_poll_def shared_state_access_def generic_state_access_def
  handle_drop_def arc_new_def arc_clone_def arc_get_def arc_drop_def

text \<open>A run for the witness: a future outlives both handles and gets \<open>None\<close>.\<close>

abbreviation shared_state_demo_acts :: "nat state_action list" where
  "shared_state_demo_acts \<equiv>
     [Sb_Receive 2 (State_Id 0), Sb_Poll 2 (Waker 2 0), Sb_Drop_Sender, Sb_Drop_Receiver]"

theorem shared_state_refines_witness:
  "\<exists>s :: nat shared_state_sys. shared_state_reachable 9 s \<and> arc_alive (sx_arc s) \<and> sx_sender_handles s = 0 \<and>
     sx_receiver_handles s = 0 \<and> sx_woken s = [Waker 2 0]"
proof -
  have "\<exists>s\<^sub>0 s. shared_state_sys_new 9 = Inr s\<^sub>0 \<and>
      exec_all shared_state_enabled shared_state_exec shared_state_demo_acts s\<^sub>0 = Some s \<and>
      sx_sender_handles s = 0 \<and> sx_receiver_handles s = 0 \<and> sx_woken s = [Waker 2 0] \<and>
      sx_futures s 2 = Some \<lparr>stf_channel = True, stf_wait_node = 2\<rparr>"
    by (simp add: shared_state_eval state_eval ll_eval data_of_def Let_def)
  then obtain s\<^sub>0 s where s: "shared_state_sys_new 9 = Inr s\<^sub>0"
    "exec_all shared_state_enabled shared_state_exec shared_state_demo_acts s\<^sub>0 = Some s"
    "sx_sender_handles s = 0" "sx_receiver_handles s = 0" "sx_woken s = [Waker 2 0]"
    "sx_futures s 2 = Some \<lparr>stf_channel = True, stf_wait_node = 2\<rparr>" by blast
  have reach: "shared_state_reachable 9 s" by (rule exec_all_reach [OF s(2) reach_init]) (rule s(1))
  have "\<not> arc_state_future_is_terminated \<lparr>stf_channel = True, stf_wait_node = 2\<rparr>"
    by (simp add: arc_state_future_is_terminated_def)
  with shared_state_refines [OF reach] s(6) have "arc_alive (sx_arc s)" by blast
  with reach s(3-5) show ?thesis by blast
qed

end
