(* ===== verification/Semaphore_Shared.thy ===== *)
theory Semaphore_Shared
  imports Semaphore Arc
begin

text \<open>
  \<open>GenericSharedSemaphore\<close> of \<^verbatim>\<open>src/sync/semaphore.rs\<close> with the counted reference that handles,
  futures and releasers own: which call clones it, moves it and drops it. The system of the shared
  semaphore is a refinement of that of the borrowed one, so what is proved there holds here, and
  the semaphore is freed exactly when nothing refers to it.
\<close>

section \<open>The code\<close>

definition shared_semaphore_new :: "addr \<Rightarrow> bool \<Rightarrow> usize \<Rightarrow> semaphore_state arc" where
  "shared_semaphore_new p is_fair permits = arc_new p (semaphore_state_new is_fair permits)"

definition shared_semaphore_clone :: "semaphore_state arc \<Rightarrow> semaphore_state arc res" where
  "shared_semaphore_clone c = arc_clone c"

definition arc_semaphore_acquire ::
  "addr \<Rightarrow> usize \<Rightarrow> semaphore_state arc \<Rightarrow>
   (semaphore_future \<times> semaphore_waiter list_node \<times> semaphore_state arc) res" where
  "arc_semaphore_acquire a nr_permits c =
     and_then (shared_semaphore_clone c) (\<lambda>c.
     Inr (\<lparr>sf_semaphore = True, sf_wait_node = a, sf_auto_release = True\<rparr>,
          list_node_new (semaphore_waiter_new nr_permits), c))"

definition arc_semaphore_try_acquire ::
  "usize \<Rightarrow> semaphore_state arc \<Rightarrow> (semaphore_releaser option \<times> semaphore_state arc) res" where
  "arc_semaphore_try_acquire nr_permits c =
     and_then (arc_get c) (\<lambda>s.
     and_then (semaphore_try_acquire_sync nr_permits s) (\<lambda>(ok, s).
     let c = c\<lparr>arc_inner := s\<rparr> in
     if ok then and_then (shared_semaphore_clone c) (\<lambda>c. Inr (Some \<lparr>sr_permits = nr_permits\<rparr>, c))
     else Inr (None, c)))"

definition shared_semaphore_release ::
  "usize \<Rightarrow> semaphore_state arc \<Rightarrow> semaphore_waiter store \<Rightarrow>
   (waker list \<times> semaphore_state arc \<times> semaphore_waiter store) res" where
  "shared_semaphore_release nr_permits c h =
     and_then (arc_get c) (\<lambda>s.
     and_then (semaphore_release nr_permits s h) (\<lambda>(w, s, h).
     Inr (w, c\<lparr>arc_inner := s\<rparr>, h)))"

definition shared_semaphore_permits :: "semaphore_state arc \<Rightarrow> usize res" where
  "shared_semaphore_permits c = and_then (arc_get c) (\<lambda>s. Inr (semaphore_permits s))"

definition shared_semaphore_future_is_terminated :: "semaphore_future \<Rightarrow> bool" where
  "shared_semaphore_future_is_terminated f \<longleftrightarrow> \<not> sf_semaphore f"

text \<open>
  A poll that is ready moves the reference from the future into the releaser, a pending one puts it
  back into the future: no poll changes the count.
\<close>

definition arc_semaphore_future_poll ::
  "semaphore_future \<Rightarrow> waker \<Rightarrow> semaphore_state arc \<Rightarrow> semaphore_waiter store \<Rightarrow>
   (semaphore_releaser poll \<times> waker list \<times> semaphore_future \<times> semaphore_state arc \<times> semaphore_waiter store) res" where
  "arc_semaphore_future_poll f cx c h =
     and_then (if sf_semaphore f then arc_get c else Inr (arc_inner c)) (\<lambda>s.
     and_then (shared_semaphore_future_poll f cx s h) (\<lambda>(r, w, f, s, h).
     Inr (r, w, f, c\<lparr>arc_inner := s\<rparr>, h)))"

text \<open>The reference taken out of the future is dropped at the end of \<open>drop\<close>.\<close>

definition arc_semaphore_future_drop ::
  "semaphore_future \<Rightarrow> semaphore_state arc \<Rightarrow> semaphore_waiter store \<Rightarrow>
   (waker list \<times> semaphore_future \<times> semaphore_state arc \<times> semaphore_waiter store) res" where
  "arc_semaphore_future_drop f c h =
     (if sf_semaphore f
      then and_then (arc_get c) (\<lambda>s.
           and_then (shared_semaphore_future_drop f s h) (\<lambda>(w, f, s, h).
           and_then (arc_drop (c\<lparr>arc_inner := s\<rparr>)) (\<lambda>c.
           Inr (w, f, c, h))))
      else Inr ([], f, c, h))"

text \<open>The field \<open>semaphore\<close> of a releaser is dropped after its \<open>drop\<close> has run.\<close>

definition arc_semaphore_releaser_drop ::
  "semaphore_releaser \<Rightarrow> semaphore_state arc \<Rightarrow> semaphore_waiter store \<Rightarrow>
   (waker list \<times> semaphore_state arc \<times> semaphore_waiter store) res" where
  "arc_semaphore_releaser_drop r c h =
     and_then (arc_get c) (\<lambda>s.
     and_then (shared_semaphore_releaser_drop r s h) (\<lambda>(w, s, h).
     and_then (arc_drop (c\<lparr>arc_inner := s\<rparr>)) (\<lambda>c.
     Inr (w, c, h))))"

section \<open>The system\<close>

record shared_sem_sys =
  sh_arc :: "semaphore_state arc"
  sh_nodes :: "semaphore_waiter store"
  sh_handles :: nat
  sh_futures :: "addr \<rightharpoonup> semaphore_future"
  sh_releasers :: "semaphore_releaser list"
  sh_woken :: "waker list"
  sh_total :: nat

datatype shared_sem_action =
    Sh_Call sem_action
  | Sh_Clone
  | Sh_Drop_Handle

definition shared_sem_sys_new :: "addr \<Rightarrow> bool \<Rightarrow> usize \<Rightarrow> shared_sem_sys" where
  "shared_sem_sys_new p is_fair permits =
     \<lparr>sh_arc = shared_semaphore_new p is_fair permits, sh_nodes = Map.empty, sh_handles = 1,
      sh_futures = Map.empty, sh_releasers = [], sh_woken = [], sh_total = unat permits\<rparr>"

text \<open>The semaphore behind the reference, as the system of the borrowed semaphore has it.\<close>

definition sh_view :: "shared_sem_sys \<Rightarrow> sem_sys" where
  "sh_view s =
     \<lparr>sy_sem = arc_inner (sh_arc s), sy_nodes = sh_nodes s, sy_futures = sh_futures s,
      sy_releasers = sh_releasers s, sy_woken = sh_woken s, sy_total = sh_total s\<rparr>"

text \<open>The calls that go through a handle need one that is alive.\<close>

fun through_handle :: "sem_action \<Rightarrow> bool" where
  "through_handle (Sem_Acquire a n) = True"
| "through_handle (Sem_Try_Acquire n) = True"
| "through_handle (Sem_Release n) = True"
| "through_handle act = False"

fun shared_sem_enabled :: "shared_sem_action \<Rightarrow> shared_sem_sys \<Rightarrow> bool" where
  "shared_sem_enabled (Sh_Call act) s =
     (sem_enabled act (sh_view s) \<and>
      (through_handle act \<longrightarrow> 0 < sh_handles s \<and> unat (arc_strong (sh_arc s)) < 2 ^ 63))"
| "shared_sem_enabled Sh_Clone s = (0 < sh_handles s \<and> unat (arc_strong (sh_arc s)) < 2 ^ 63)"
| "shared_sem_enabled Sh_Drop_Handle s = (0 < sh_handles s)"

fun shared_sem_exec :: "shared_sem_action \<Rightarrow> shared_sem_sys \<Rightarrow> shared_sem_sys res" where
  "shared_sem_exec Sh_Clone s =
     and_then (shared_semaphore_clone (sh_arc s)) (\<lambda>c.
     Inr (s\<lparr>sh_arc := c, sh_handles := Suc (sh_handles s)\<rparr>))"
| "shared_sem_exec Sh_Drop_Handle s =
     and_then (arc_drop (sh_arc s)) (\<lambda>c.
     Inr (s\<lparr>sh_arc := c, sh_handles := sh_handles s - 1\<rparr>))"
| "shared_sem_exec (Sh_Call (Sem_Acquire a n)) s =
     and_then (arc_semaphore_acquire a n (sh_arc s)) (\<lambda>(f, node, c).
     Inr (s\<lparr>sh_arc := c, sh_nodes := (sh_nodes s)(a \<mapsto> node), sh_futures := (sh_futures s)(a \<mapsto> f)\<rparr>))"
| "shared_sem_exec (Sh_Call (Sem_Poll a cx)) s =
     and_then (deref (sh_futures s) a) (\<lambda>f.
     and_then (arc_semaphore_future_poll f cx (sh_arc s) (sh_nodes s)) (\<lambda>(r, w, f, c, h).
     Inr (s\<lparr>sh_arc := c, sh_nodes := h, sh_futures := (sh_futures s)(a \<mapsto> f), sh_woken := sh_woken s @ w,
            sh_releasers := (case r of Pending \<Rightarrow> sh_releasers s | Ready g \<Rightarrow> sh_releasers s @ [g])\<rparr>)))"
| "shared_sem_exec (Sh_Call (Sem_Drop a)) s =
     and_then (deref (sh_futures s) a) (\<lambda>f.
     and_then (arc_semaphore_future_drop f (sh_arc s) (sh_nodes s)) (\<lambda>(w, f, c, h).
     Inr (s\<lparr>sh_arc := c, sh_nodes := h(a := None), sh_futures := (sh_futures s)(a := None),
            sh_woken := sh_woken s @ w\<rparr>)))"
| "shared_sem_exec (Sh_Call (Sem_Try_Acquire n)) s =
     and_then (arc_semaphore_try_acquire n (sh_arc s)) (\<lambda>(r, c).
     Inr (s\<lparr>sh_arc := c,
            sh_releasers := (case r of None \<Rightarrow> sh_releasers s | Some g \<Rightarrow> sh_releasers s @ [g])\<rparr>))"
| "shared_sem_exec (Sh_Call (Sem_Release n)) s =
     and_then (shared_semaphore_release n (sh_arc s) (sh_nodes s)) (\<lambda>(w, c, h).
     Inr (s\<lparr>sh_arc := c, sh_nodes := h, sh_woken := sh_woken s @ w, sh_total := sh_total s + unat n\<rparr>))"
| "shared_sem_exec (Sh_Call (Sem_Drop_Releaser i)) s =
     and_then (arc_semaphore_releaser_drop (sh_releasers s ! i) (sh_arc s) (sh_nodes s)) (\<lambda>(w, c, h).
     Inr (s\<lparr>sh_arc := c, sh_nodes := h, sh_woken := sh_woken s @ w,
            sh_releasers := take i (sh_releasers s) @ drop (Suc i) (sh_releasers s)\<rparr>))"
| "shared_sem_exec (Sh_Call (Sem_Disarm i)) s =
     (case shared_semaphore_releaser_disarm (sh_releasers s ! i) of (n, r) \<Rightarrow>
        Inr (s\<lparr>sh_releasers := (sh_releasers s)[i := r], sh_total := sh_total s - unat n\<rparr>))"

abbreviation shared_sem_reachable :: "addr \<Rightarrow> bool \<Rightarrow> usize \<Rightarrow> shared_sem_sys \<Rightarrow> bool" where
  "shared_sem_reachable p is_fair permits \<equiv>
     reach (\<lambda>s. s = shared_sem_sys_new p is_fair permits) shared_sem_enabled shared_sem_exec"

section \<open>Refinement and counts\<close>

abbreviation waiting_futures :: "(addr \<rightharpoonup> semaphore_future) \<Rightarrow> addr set" where
  "waiting_futures \<equiv> owning sf_semaphore"

definition sh_owners :: "shared_sem_sys \<Rightarrow> nat" where
  "sh_owners s = sh_handles s + length (sh_releasers s) + card (waiting_futures (sh_futures s))"

definition shared_sem_inv :: "bool \<Rightarrow> usize \<Rightarrow> shared_sem_sys \<Rightarrow> bool" where
  "shared_sem_inv is_fair permits s \<longleftrightarrow>
     sem_reachable is_fair permits (sh_view s) \<and> finite (dom (sh_futures s)) \<and>
     arc_counts (sh_arc s) (sh_owners s)"

text \<open>A call keeps the invariant and does to the view what the same call of the borrowed semaphore does.\<close>

definition shared_sem_step :: "bool \<Rightarrow> usize \<Rightarrow> sem_action \<Rightarrow> shared_sem_sys \<Rightarrow> shared_sem_sys \<Rightarrow> bool" where
  "shared_sem_step is_fair permits act s t \<longleftrightarrow>
     shared_sem_inv is_fair permits t \<and> sem_exec act (sh_view s) = Inr (sh_view t)"

lemma sh_view_simps [simp]:
  "sy_sem (sh_view s) = arc_inner (sh_arc s)" "sy_nodes (sh_view s) = sh_nodes s"
  "sy_futures (sh_view s) = sh_futures s" "sy_releasers (sh_view s) = sh_releasers s"
  "sy_woken (sh_view s) = sh_woken s" "sy_total (sh_view s) = sh_total s"
  by (simp_all add: sh_view_def)

lemma shared_sem_invD:
  assumes "shared_sem_inv is_fair permits s"
  shows "sem_reachable is_fair permits (sh_view s)" "finite (dom (sh_futures s))"
    "arc_counts (sh_arc s) (sh_owners s)"
  using assms by (auto simp: shared_sem_inv_def)

text \<open>
  A call of the shared semaphore follows the same call of the borrowed one when it leaves the same
  state behind and the count is right.
\<close>

lemma shared_sem_follows:
  assumes inv: "shared_sem_inv is_fair permits s" and enabled: "sem_enabled act (sh_view s)"
    and run: "sem_exec act (sh_view s) = Inr t'" and view: "sh_view t = t'"
    and counts: "arc_counts (sh_arc t) (sh_owners t)" and fin: "finite (dom (sh_futures t))"
  shows "shared_sem_step is_fair permits act s t"
proof -
  from shared_sem_invD(1) [OF inv] enabled run have "sem_reachable is_fair permits t'" by (rule reach_step)
  with run view counts fin show ?thesis by (simp add: shared_sem_step_def shared_sem_inv_def)
qed

lemma sh_clone_counts:
  assumes inv: "shared_sem_inv is_fair permits s" and "0 < sh_handles s" "unat (arc_strong (sh_arc s)) < 2 ^ 63"
  obtains c where "arc_clone (sh_arc s) = Inr c" "arc_counts c (Suc (sh_owners s))" "arc_inner c = arc_inner (sh_arc s)"
proof -
  note S = shared_sem_invD [OF inv]
  have "0 < sh_owners s" "sh_owners s < 2 ^ 63" using assms(2,3) S(3) by (auto simp: sh_owners_def arc_counts_def)
  from arc_clone_counts [OF S(3) this] that show thesis by blast
qed

lemma sh_acquire_preserves:
  assumes inv: "shared_sem_inv is_fair permits s" and "shared_sem_enabled (Sh_Call (Sem_Acquire a n)) s"
  shows "returns (shared_sem_exec (Sh_Call (Sem_Acquire a n)) s) (shared_sem_step is_fair permits (Sem_Acquire a n) s)"
proof -
  note S = shared_sem_invD [OF inv]
  from assms(2) obtain c where c: "arc_clone (sh_arc s) = Inr c" "arc_counts c (Suc (sh_owners s))"
    "arc_inner c = arc_inner (sh_arc s)"
    by (auto intro: sh_clone_counts [OF inv])
  let ?f = "\<lparr>sf_semaphore = True, sf_wait_node = a, sf_auto_release = True\<rparr>"
  let ?t = "s\<lparr>sh_arc := c, sh_nodes := (sh_nodes s)(a \<mapsto> list_node_new (semaphore_waiter_new n)),
    sh_futures := (sh_futures s)(a \<mapsto> ?f)\<rparr>"
  obtain S' where S': "sem_sys_rep is_fair (sh_view s) S'"
    using sys.reach_inv [OF S(1)] by (auto simp: sem_sys_inv_def)
  have "sh_futures s a = None"
  proof (rule ccontr)
    assume "sh_futures s a \<noteq> None"
    with S' obtain e where "ss_entries S' a = Some e"
      by (auto simp: sem_sys_rep_def dest: sem_futures_okD)
    moreover have "data_of (sh_nodes s) = ss_entries S'" using S' by (simp add: sem_sys_rep_def sem_abs_def)
    moreover have "data_of (sh_nodes s) a = None" using assms(2) by simp
    ultimately show False by simp
  qed
  from owning_card(1) [where P = sf_semaphore and f = ?f, OF S(2) this] c(2)
  have "arc_counts (sh_arc ?t) (sh_owners ?t)" by (simp add: sh_owners_def)
  moreover have "sem_exec (Sem_Acquire a n) (sh_view s) = Inr (sh_view ?t)"
    using c(3) by (simp add: semaphore_acquire_def sh_view_def)
  moreover have "sem_enabled (Sem_Acquire a n) (sh_view s)" using assms(2) by simp
  ultimately have "shared_sem_step is_fair permits (Sem_Acquire a n) s ?t"
    using shared_sem_follows [OF inv _ _ refl, of "Sem_Acquire a n" ?t] S(2) by (simp del: sem_exec.simps)
  then show ?thesis by (simp add: arc_semaphore_acquire_def shared_semaphore_clone_def c(1))
qed

lemma sh_poll_preserves:
  assumes inv: "shared_sem_inv is_fair permits s" and enabled: "shared_sem_enabled (Sh_Call (Sem_Poll a cx)) s"
  shows "returns (shared_sem_exec (Sh_Call (Sem_Poll a cx)) s) (shared_sem_step is_fair permits (Sem_Poll a cx) s)"
proof -
  note S = shared_sem_invD [OF inv]
  from enabled obtain f where f: "sh_futures s a = Some f" "sf_semaphore f"
    and act: "sem_enabled (Sem_Poll a cx) (sh_view s)"
    by (auto simp: semaphore_future_is_terminated_def split: option.splits)
  from sys.no_fault [OF S(1) act] obtain t' where t': "sem_exec (Sem_Poll a cx) (sh_view s) = Inr t'" by blast
  have same: "shared_semaphore_future_poll f cx (arc_inner (sh_arc s)) (sh_nodes s) =
      semaphore_future_poll f cx (arc_inner (sh_arc s)) (sh_nodes s)"
    using shared_semaphore_equivalent f(2) by blast
  from t' f(1) obtain r w f' m h where
    poll: "semaphore_future_poll f cx (arc_inner (sh_arc s)) (sh_nodes s) = Inr (r, w, f', m, h)"
    and t'_eq: "t' = (sh_view s)\<lparr>sy_sem := m, sy_nodes := h, sy_futures := (sh_futures s)(a \<mapsto> f'),
      sy_woken := sh_woken s @ w,
      sy_releasers := (case r of Pending \<Rightarrow> sh_releasers s | Ready g \<Rightarrow> sh_releasers s @ [g])\<rparr>"
    by (auto simp: and_then_eq_Inr cong: poll.case_cong)
  have f': "f' = (case r of Pending \<Rightarrow> f | Ready _ \<Rightarrow> f\<lparr>sf_semaphore := False\<rparr>)"
  proof -
    from poll f(2) obtain q w\<^sub>0 m\<^sub>0 h\<^sub>0 where
      q: "semaphore_try_acquire (arc_inner (sh_arc s)) (sf_wait_node f) cx (sh_nodes s) = Inr (q, w\<^sub>0, m\<^sub>0, h\<^sub>0)"
      by (auto simp: semaphore_future_poll_def and_then_eq_Inr)
    with poll f(2) show ?thesis
      by (cases q) (auto simp: semaphore_future_poll_def and_then_eq_Inr)
  qed
  let ?t = "s\<lparr>sh_arc := (sh_arc s)\<lparr>arc_inner := m\<rparr>, sh_nodes := h, sh_futures := (sh_futures s)(a \<mapsto> f'),
    sh_woken := sh_woken s @ w,
    sh_releasers := (case r of Pending \<Rightarrow> sh_releasers s | Ready g \<Rightarrow> sh_releasers s @ [g])\<rparr>"
  have "a \<in> waiting_futures (sh_futures s)" using f by (auto simp: owning_def)
  with owning_finite [OF S(2)] have pos: "0 < sh_owners s" by (auto simp: sh_owners_def card_gt_0_iff)
  have "sh_owners ?t = sh_owners s"
  proof (cases r)
    case Pending
    with f f' owning_card(2) [where P = sf_semaphore and F = "sh_futures s" and a = a and g = f and f = f', OF S(2)]
    show ?thesis by (simp add: sh_owners_def)
  next
    case (Ready g)
    with f f' owning_card(3) [where P = sf_semaphore and F = "sh_futures s" and a = a and g = f and f = f', OF S(2)]
    show ?thesis by (simp add: sh_owners_def)
  qed
  with S(3) have "arc_counts (sh_arc ?t) (sh_owners ?t)" by simp
  moreover have "sh_view ?t = t'" using t'_eq by (simp add: sh_view_def)
  ultimately have "shared_sem_step is_fair permits (Sem_Poll a cx) s ?t"
    using shared_sem_follows [OF inv act t'] S(2) by simp
  moreover have "shared_sem_exec (Sh_Call (Sem_Poll a cx)) s = Inr ?t"
    using f S(3) pos same poll by (simp add: arc_semaphore_future_poll_def)
  ultimately show ?thesis by (simp only: returns_simps)
qed


lemma sh_drop_preserves:
  assumes inv: "shared_sem_inv is_fair permits s" and enabled: "shared_sem_enabled (Sh_Call (Sem_Drop a)) s"
  shows "returns (shared_sem_exec (Sh_Call (Sem_Drop a)) s) (shared_sem_step is_fair permits (Sem_Drop a) s)"
proof -
  note S = shared_sem_invD [OF inv]
  from enabled obtain f where f: "sh_futures s a = Some f" and act: "sem_enabled (Sem_Drop a) (sh_view s)" by auto
  from sys.no_fault [OF S(1) act] obtain t' where t': "sem_exec (Sem_Drop a) (sh_view s) = Inr t'" by blast
  then obtain w m h where drop: "semaphore_future_drop f (arc_inner (sh_arc s)) (sh_nodes s) = Inr (w, m, h)"
    and t'_eq: "t' = (sh_view s)\<lparr>sy_sem := m, sy_nodes := h(a := None), sy_futures := (sh_futures s)(a := None),
      sy_woken := sh_woken s @ w\<rparr>"
    using f by (auto simp: and_then_eq_Inr)
  let ?t = "\<lambda>c. s\<lparr>sh_arc := c, sh_nodes := h(a := None), sh_futures := (sh_futures s)(a := None),
    sh_woken := sh_woken s @ w\<rparr>"
  have finish: "shared_sem_step is_fair permits (Sem_Drop a) s (?t c)"
    if "arc_inner c = m" "arc_counts c (sh_owners (?t c))" for c
  proof -
    have "sh_view (?t c) = t'" using that(1) t'_eq by (simp add: sh_view_def)
    from shared_sem_follows [OF inv act t' this] that(2) S(2) show ?thesis by simp
  qed
  show ?thesis
  proof (cases "sf_semaphore f")
    case True
    with drop have sdrop: "shared_semaphore_future_drop f (arc_inner (sh_arc s)) (sh_nodes s) =
        Inr (w, f\<lparr>sf_semaphore := False\<rparr>, m, h)"
      by (simp add: semaphore_future_drop_def shared_semaphore_future_drop_def)
    note card = owning_card(4) [where P = sf_semaphore and F = "sh_futures s" and a = a and g = f, OF S(2) f True]
    let ?n = "sh_handles s + length (sh_releasers s) + card (waiting_futures ((sh_futures s)(a := None)))"
    from card S(3) have n: "arc_counts ((sh_arc s)\<lparr>arc_inner := m\<rparr>) (Suc ?n)" "0 < sh_owners s"
      by (simp_all add: sh_owners_def)
    from arc_drop_counts [OF n(1)] obtain c where
      c: "arc_drop ((sh_arc s)\<lparr>arc_inner := m\<rparr>) = Inr c" "arc_counts c ?n" "arc_inner c = m" by auto
    from finish [OF c(3)] c(1,2) True sdrop f n(2) S(3) show ?thesis
      by (simp add: arc_semaphore_future_drop_def sh_owners_def)
  next
    case False
    with drop have "m = arc_inner (sh_arc s)" "w = []" "h = sh_nodes s" by (simp_all add: semaphore_future_drop_def)
    with finish [of "sh_arc s"] False f S(3)
      owning_card(5) [where P = sf_semaphore and F = "sh_futures s" and a = a and g = f, OF S(2) f False]
    show ?thesis by (simp add: arc_semaphore_future_drop_def sh_owners_def)
  qed
qed

lemma sh_try_acquire_preserves:
  assumes inv: "shared_sem_inv is_fair permits s" and enabled: "shared_sem_enabled (Sh_Call (Sem_Try_Acquire n)) s"
  shows "returns (shared_sem_exec (Sh_Call (Sem_Try_Acquire n)) s) (shared_sem_step is_fair permits (Sem_Try_Acquire n) s)"
proof -
  note S = shared_sem_invD [OF inv]
  from enabled have act: "sem_enabled (Sem_Try_Acquire n) (sh_view s)" by simp
  from enabled obtain c where c: "arc_clone (sh_arc s) = Inr c" "arc_counts c (Suc (sh_owners s))"
    "arc_inner c = arc_inner (sh_arc s)"
    by (auto intro: sh_clone_counts [OF inv])
  from enabled have pos: "0 < sh_owners s" by (simp add: sh_owners_def)
  from sys.no_fault [OF S(1) act] obtain t' where t': "sem_exec (Sem_Try_Acquire n) (sh_view s) = Inr t'" by blast
  then obtain ok m where sync: "semaphore_try_acquire_sync n (arc_inner (sh_arc s)) = Inr (ok, m)"
    and t'_eq: "t' = (sh_view s)\<lparr>sy_sem := m,
      sy_releasers := sh_releasers s @ (if ok then [\<lparr>sr_permits = n\<rparr>] else [])\<rparr>"
    by (auto simp: and_then_eq_Inr semaphore_try_acquire_api_def split: if_splits)
  let ?t = "\<lambda>c. s\<lparr>sh_arc := c, sh_releasers := sh_releasers s @ (if ok then [\<lparr>sr_permits = n\<rparr>] else [])\<rparr>"
  have finish: "shared_sem_step is_fair permits (Sem_Try_Acquire n) s (?t c)"
    if "arc_inner c = m" "arc_counts c (sh_owners (?t c))" for c
  proof -
    have "sh_view (?t c) = t'" using that(1) t'_eq by (simp add: sh_view_def)
    from shared_sem_follows [OF inv act t' this] that(2) S(2) show ?thesis by simp
  qed
  let ?c = "(sh_arc s)\<lparr>arc_inner := m\<rparr>"
  have clone: "arc_clone ?c = Inr (c\<lparr>arc_inner := m\<rparr>)" using c(1) pos S(3)
    by (auto simp: arc_clone_def arc_get_def arc_counts_def split: if_splits)
  show ?thesis
  proof (cases ok)
    case True
    with finish [of "c\<lparr>arc_inner := m\<rparr>"] c(2) sync clone pos S(3) show ?thesis
      by (simp add: arc_semaphore_try_acquire_def shared_semaphore_clone_def sh_owners_def)
  next
    case False
    with finish [of ?c] sync pos S(3) show ?thesis
      by (simp add: arc_semaphore_try_acquire_def sh_owners_def)
  qed
qed

lemma sh_release_preserves:
  assumes inv: "shared_sem_inv is_fair permits s" and enabled: "shared_sem_enabled (Sh_Call (Sem_Release n)) s"
  shows "returns (shared_sem_exec (Sh_Call (Sem_Release n)) s) (shared_sem_step is_fair permits (Sem_Release n) s)"
proof -
  note S = shared_sem_invD [OF inv]
  from enabled have act: "sem_enabled (Sem_Release n) (sh_view s)" and pos: "0 < sh_owners s"
    by (simp_all add: sh_owners_def)
  from sys.no_fault [OF S(1) act] obtain t' where t': "sem_exec (Sem_Release n) (sh_view s) = Inr t'" by blast
  then obtain w m h where rel: "semaphore_release n (arc_inner (sh_arc s)) (sh_nodes s) = Inr (w, m, h)"
    and t'_eq: "t' = (sh_view s)\<lparr>sy_sem := m, sy_nodes := h, sy_woken := sh_woken s @ w,
      sy_total := sh_total s + unat n\<rparr>"
    by (auto simp: and_then_eq_Inr)
  let ?t = "s\<lparr>sh_arc := (sh_arc s)\<lparr>arc_inner := m\<rparr>, sh_nodes := h, sh_woken := sh_woken s @ w,
    sh_total := sh_total s + unat n\<rparr>"
  have "sh_view ?t = t'" using t'_eq by (simp add: sh_view_def)
  from shared_sem_follows [OF inv act t' this] S(2,3) have "shared_sem_step is_fair permits (Sem_Release n) s ?t"
    by (simp add: sh_owners_def)
  with rel pos S(3) show ?thesis by (simp add: shared_semaphore_release_def)
qed

lemma sh_drop_releaser_preserves:
  assumes inv: "shared_sem_inv is_fair permits s" and enabled: "shared_sem_enabled (Sh_Call (Sem_Drop_Releaser i)) s"
  shows "returns (shared_sem_exec (Sh_Call (Sem_Drop_Releaser i)) s) (shared_sem_step is_fair permits (Sem_Drop_Releaser i) s)"
proof -
  note S = shared_sem_invD [OF inv]
  from enabled have act: "sem_enabled (Sem_Drop_Releaser i) (sh_view s)" and i: "i < length (sh_releasers s)"
    by simp_all
  from sys.no_fault [OF S(1) act] obtain t' where t': "sem_exec (Sem_Drop_Releaser i) (sh_view s) = Inr t'" by blast
  let ?rs = "take i (sh_releasers s) @ drop (Suc i) (sh_releasers s)"
  from t' obtain w m h where
    drop: "shared_semaphore_releaser_drop (sh_releasers s ! i) (arc_inner (sh_arc s)) (sh_nodes s) = Inr (w, m, h)"
    and t'_eq: "t' = (sh_view s)\<lparr>sy_sem := m, sy_nodes := h, sy_woken := sh_woken s @ w, sy_releasers := ?rs\<rparr>"
    by (auto simp: and_then_eq_Inr semaphore_releaser_drop_def shared_semaphore_releaser_drop_def)
  let ?n = "sh_handles s + length ?rs + card (waiting_futures (sh_futures s))"
  have "sh_owners s = Suc ?n" using i by (auto simp: sh_owners_def)
  with S(3) have n: "arc_counts ((sh_arc s)\<lparr>arc_inner := m\<rparr>) (Suc ?n)" "0 < sh_owners s" by simp_all
  from arc_drop_counts [OF n(1)] obtain c where
    c: "arc_drop ((sh_arc s)\<lparr>arc_inner := m\<rparr>) = Inr c" "arc_counts c ?n" "arc_inner c = m" by auto
  let ?t = "s\<lparr>sh_arc := c, sh_nodes := h, sh_woken := sh_woken s @ w, sh_releasers := ?rs\<rparr>"
  have "sh_view ?t = t'" using t'_eq c(3) by (simp add: sh_view_def)
  from shared_sem_follows [OF inv act t' this] S(2) c(2) have "shared_sem_step is_fair permits (Sem_Drop_Releaser i) s ?t"
    by (simp add: sh_owners_def)
  with drop c(1) n(2) S(3) show ?thesis by (simp add: arc_semaphore_releaser_drop_def)
qed

lemma sh_disarm_preserves:
  assumes inv: "shared_sem_inv is_fair permits s" and enabled: "shared_sem_enabled (Sh_Call (Sem_Disarm i)) s"
  shows "returns (shared_sem_exec (Sh_Call (Sem_Disarm i)) s) (shared_sem_step is_fair permits (Sem_Disarm i) s)"
proof -
  note S = shared_sem_invD [OF inv]
  from enabled have act: "sem_enabled (Sem_Disarm i) (sh_view s)" by simp
  obtain n r where nr: "shared_semaphore_releaser_disarm (sh_releasers s ! i) = (n, r)" by fastforce
  let ?t = "s\<lparr>sh_releasers := (sh_releasers s)[i := r], sh_total := sh_total s - unat n\<rparr>"
  have "sem_exec (Sem_Disarm i) (sh_view s) = Inr (sh_view ?t)"
    using nr by (simp add: semaphore_releaser_disarm_def shared_semaphore_releaser_disarm_def Let_def sh_view_def)
  from shared_sem_follows [OF inv act this refl] S(2,3) have "shared_sem_step is_fair permits (Sem_Disarm i) s ?t"
    by (simp add: sh_owners_def)
  then show ?thesis using nr by simp
qed

lemma sh_handles_follow:
  assumes inv: "shared_sem_inv is_fair permits s" and act: "act = Sh_Clone \<or> act = Sh_Drop_Handle"
    and enabled: "shared_sem_enabled act s"
  shows "returns (shared_sem_exec act s) (\<lambda>t. shared_sem_inv is_fair permits t \<and> sh_view t = sh_view s)"
proof -
  note S = shared_sem_invD [OF inv]
  have follows: "shared_sem_inv is_fair permits (s\<lparr>sh_arc := c, sh_handles := n\<rparr>) \<and>
      sh_view (s\<lparr>sh_arc := c, sh_handles := n\<rparr>) = sh_view s"
    if "arc_inner c = arc_inner (sh_arc s)" "arc_counts c (sh_owners (s\<lparr>sh_arc := c, sh_handles := n\<rparr>))" for c n
    using that S by (simp add: shared_sem_inv_def sh_view_def)
  from act show ?thesis
  proof
    assume act: "act = Sh_Clone"
    with enabled obtain c where "arc_clone (sh_arc s) = Inr c" "arc_counts c (Suc (sh_owners s))"
      "arc_inner c = arc_inner (sh_arc s)"
      by (auto intro: sh_clone_counts [OF inv])
    with act follows show ?thesis by (simp add: shared_semaphore_clone_def sh_owners_def)
  next
    assume act: "act = Sh_Drop_Handle"
    let ?n = "sh_handles s - 1 + length (sh_releasers s) + card (waiting_futures (sh_futures s))"
    have "arc_counts (sh_arc s) (Suc ?n)" using act enabled S(3) by (simp add: sh_owners_def)
    from arc_drop_counts [OF this] follows act show ?thesis by (auto simp: sh_owners_def)
  qed
qed

lemma shared_sem_call:
  assumes "shared_sem_inv is_fair permits s" "shared_sem_enabled (Sh_Call act) s"
  shows "returns (shared_sem_exec (Sh_Call act) s) (shared_sem_step is_fair permits act s)"
  using assms by (cases act) (blast intro: sh_acquire_preserves sh_poll_preserves sh_drop_preserves
    sh_try_acquire_preserves sh_release_preserves sh_drop_releaser_preserves sh_disarm_preserves)+

lemma shared_sem_exec_preserves:
  assumes "shared_sem_inv is_fair permits s" "shared_sem_enabled act s"
  shows "returns (shared_sem_exec act s) (shared_sem_inv is_fair permits)"
proof (cases act)
  case (Sh_Call a)
  with shared_sem_call [OF assms(1), of a] assms(2) show ?thesis
    by (auto simp: shared_sem_step_def simp del: shared_sem_exec.simps shared_sem_enabled.simps elim!: returns_mono)
qed (use sh_handles_follow [OF assms(1) _ assms(2)] in \<open>auto elim!: returns_mono\<close>)

interpretation shared_sys: transition_system "\<lambda>s. s = shared_sem_sys_new p is_fair permits"
  shared_sem_enabled shared_sem_exec "shared_sem_inv is_fair permits" for p is_fair permits
proof unfold_locales
  show "shared_sem_inv is_fair permits s" if "s = shared_sem_sys_new p is_fair permits" for s
  proof -
    have "sh_view s = sem_sys_new is_fair permits"
      using that by (simp add: sh_view_def shared_sem_sys_new_def sem_sys_new_def shared_semaphore_new_def arc_new_def)
    then have "sem_reachable is_fair permits (sh_view s)" by (rule reach_init)
    then show ?thesis
      using that by (simp add: shared_sem_inv_def sh_owners_def shared_sem_sys_new_def owning_def
          shared_semaphore_new_def arc_new_def arc_counts_def)
  qed
qed (rule shared_sem_exec_preserves)

section \<open>Properties\<close>

lemma sh_alive_iff:
  assumes "shared_sem_inv is_fair permits s"
  shows "arc_alive (sh_arc s) \<longleftrightarrow> 0 < sh_handles s \<or> sh_releasers s \<noteq> [] \<or>
    (\<exists>a f. sh_futures s a = Some f \<and> \<not> shared_semaphore_future_is_terminated f)"
proof -
  note S = shared_sem_invD [OF assms]
  have "0 < card (waiting_futures (sh_futures s)) \<longleftrightarrow>
      (\<exists>a f. sh_futures s a = Some f \<and> \<not> shared_semaphore_future_is_terminated f)"
    using owning_finite [OF S(2)]
    by (auto simp: card_gt_0_iff owning_def shared_semaphore_future_is_terminated_def)
  with S(3) show ?thesis by (simp add: arc_counts_def sh_owners_def)
qed

text \<open>
  C21: the shared semaphore refines the borrowed one. Behind the reference every reachable state of
  the handles, futures and releasers is a reachable state of the borrowed semaphore. Every call
  returns and does there what the call of the borrowed semaphore does; cloning and dropping a handle
  return too, and change nothing there. The semaphore is freed
  exactly when the last handle, releaser and unfinished future is gone, so that nothing refers to
  it afterwards. What holds for the borrowed semaphore (no fault, conservation, wakeups) holds here.
\<close>

theorem shared_semaphore_refines:
  assumes reach: "shared_sem_reachable p is_fair permits s"
  shows "sem_reachable is_fair permits (sh_view s) \<and>
    (arc_alive (sh_arc s) \<longleftrightarrow> 0 < sh_handles s \<or> sh_releasers s \<noteq> [] \<or>
      (\<exists>a f. sh_futures s a = Some f \<and> \<not> shared_semaphore_future_is_terminated f)) \<and>
    (shared_sem_enabled act s \<longrightarrow>
      (\<exists>t. shared_sem_exec act s = Inr t \<and>
        (case act of Sh_Call a \<Rightarrow> sem_exec a (sh_view s) = Inr (sh_view t) | _ \<Rightarrow> sh_view t = sh_view s)))"
proof -
  note inv = shared_sys.reach_inv [OF reach]
  have "\<exists>t. shared_sem_exec act s = Inr t \<and>
      (case act of Sh_Call a \<Rightarrow> sem_exec a (sh_view s) = Inr (sh_view t) | _ \<Rightarrow> sh_view t = sh_view s)"
    if "shared_sem_enabled act s"
    using that shared_sem_call [OF inv] sh_handles_follow [OF inv _ that]
    by (cases act) (auto simp: returns_iff shared_sem_step_def simp del: shared_sem_exec.simps)
  with shared_sem_invD(1) [OF inv] sh_alive_iff [OF inv] show ?thesis by blast
qed

text \<open>A run for the witness: a releaser outlives the only handle, then it is dropped.\<close>

lemmas shared_sem_eval =
  shared_sem_sys_new_def shared_semaphore_new_def shared_semaphore_clone_def arc_semaphore_acquire_def
  arc_semaphore_try_acquire_def shared_semaphore_release_def arc_semaphore_future_poll_def
  arc_semaphore_future_drop_def arc_semaphore_releaser_drop_def shared_semaphore_future_poll_def
  shared_semaphore_future_drop_def shared_semaphore_releaser_drop_def sh_view_def
  arc_new_def arc_clone_def arc_get_def arc_drop_def

abbreviation shared_sem_demo_acts :: "shared_sem_action list" where
  "shared_sem_demo_acts \<equiv>
     [Sh_Call (Sem_Try_Acquire 2), Sh_Call (Sem_Acquire 3 2), Sh_Call (Sem_Poll 3 (Waker 3 0)), Sh_Drop_Handle,
      Sh_Call (Sem_Drop_Releaser 0), Sh_Call (Sem_Poll 3 (Waker 3 0))]"

theorem shared_semaphore_refines_witness:
  "\<exists>s. shared_sem_reachable 9 True 2 s \<and> arc_alive (sh_arc s) \<and> sh_handles s = 0 \<and> sh_woken s = [Waker 3 0]"
proof -
  have "\<exists>s. exec_all shared_sem_enabled shared_sem_exec shared_sem_demo_acts (shared_sem_sys_new 9 True 2) = Some s \<and>
      sh_handles s = 0 \<and> length (sh_releasers s) = 1 \<and> sh_woken s = [Waker 3 0]"
    by (simp add: shared_sem_eval semaphore_eval ll_eval Let_def)
  then obtain s where s: "exec_all shared_sem_enabled shared_sem_exec shared_sem_demo_acts (shared_sem_sys_new 9 True 2) = Some s"
    "sh_handles s = 0" "length (sh_releasers s) = 1" "sh_woken s = [Waker 3 0]" by blast
  have reach: "shared_sem_reachable 9 True 2 s" by (rule exec_all_reach [OF s(1) reach_init]) simp
  from shared_semaphore_refines [OF reach] s(2-) have "arc_alive (sh_arc s)" by auto
  with reach s show ?thesis by blast
qed

end
