(* ===== verification/Mpmc_Arc.thy ===== *)
theory Mpmc_Arc
  imports Mpmc_Shared Arc
begin

text \<open>
  The module \<open>shared\<close> of \<^verbatim>\<open>src/channel/mpmc.rs\<close> with the counted reference that senders, receivers
  and futures own. Its system refines that of the counted handles in \<open>Mpmc_Shared\<close>, and the channel
  lives exactly as long as something refers to it.
\<close>

section \<open>The code\<close>

definition shared_channel_receive_access ::
  "('b, 'v) ring_buf_ops \<Rightarrow> (('b, 'v) shared_channel, 'v) receive_access" where
  "shared_channel_receive_access ops =
     \<lparr>ra_receive_or_register = (\<lambda>wait_node cx c.
        and_then (ra_receive_or_register (channel_receive_access ops) wait_node cx (shc_channel c)) (\<lambda>(r, w, ch).
        Inr (r, w, c\<lparr>shc_channel := ch\<rparr>))),
      ra_remove_receive_waiter = (\<lambda>wait_node c.
        and_then (ra_remove_receive_waiter (channel_receive_access ops) wait_node (shc_channel c)) (\<lambda>(w, ch).
        Inr (w, c\<lparr>shc_channel := ch\<rparr>)))\<rparr>"

definition shared_channel_send_access ::
  "('b, 'v) ring_buf_ops \<Rightarrow> (('b, 'v) shared_channel, 'v) send_access" where
  "shared_channel_send_access ops =
     \<lparr>sa_send_or_register = (\<lambda>wait_node cx c.
        and_then (sa_send_or_register (channel_send_access ops) wait_node cx (shc_channel c)) (\<lambda>(r, v, w, ch).
        Inr (r, v, w, c\<lparr>shc_channel := ch\<rparr>))),
      sa_remove_send_waiter = (\<lambda>wait_node c.
        and_then (sa_remove_send_waiter (channel_send_access ops) wait_node (shc_channel c)) (\<lambda>ch.
        Inr (c\<lparr>shc_channel := ch\<rparr>))),
      sa_take_value = (\<lambda>wait_node c.
        and_then (sa_take_value (channel_send_access ops) wait_node (shc_channel c)) (\<lambda>(v, ch).
        Inr (v, c\<lparr>shc_channel := ch\<rparr>)))\<rparr>"

definition generic_channel :: "('b, 'v) ring_buf_ops \<Rightarrow> addr \<Rightarrow> usize \<Rightarrow> ('b, 'v) shared_channel arc res" where
  "generic_channel ops p capacity =
     (let inner = arc_new p \<lparr>shc_channel = channel_with_capacity ops capacity, shc_senders = 1, shc_receivers = 1\<rparr> in
      and_then (arc_clone inner) (\<lambda>inner. Inr inner))"

text \<open>\<open>channel\<close> and \<open>unbuffered_channel\<close> of the module, both over \<open>GrowingHeapBuf\<close>.\<close>

definition growing_channel :: "addr \<Rightarrow> usize \<Rightarrow> ('v growing_heap_buf, 'v) shared_channel arc res" where
  "growing_channel p capacity = generic_channel growing_heap_buf_ops p capacity"

definition unbuffered_channel :: "addr \<Rightarrow> ('v growing_heap_buf, 'v) shared_channel arc res" where
  "unbuffered_channel p = generic_channel growing_heap_buf_ops p 0"

definition arc_sender_send ::
  "addr \<Rightarrow> 'v \<Rightarrow> ('b, 'v) shared_channel arc \<Rightarrow>
   (send_future \<times> 'v send_waiter list_node \<times> ('b, 'v) shared_channel arc) res" where
  "arc_sender_send a v c =
     and_then (arc_clone c) (\<lambda>c.
     Inr (\<lparr>sdf_channel = True, sdf_wait_node = a\<rparr>, list_node_new (send_waiter_new v), c))"

definition arc_receiver_receive ::
  "addr \<Rightarrow> ('b, 'v) shared_channel arc \<Rightarrow>
   (receive_future \<times> recv_waiter list_node \<times> ('b, 'v) shared_channel arc) res" where
  "arc_receiver_receive a c =
     and_then (arc_clone c) (\<lambda>c.
     Inr (\<lparr>rf_channel = True, rf_wait_node = a\<rparr>, list_node_new recv_waiter_new, c))"

text \<open>The calls of the two ends that only borrow the reference.\<close>

definition arc_forward ::
  "(('b, 'v) shared_channel \<Rightarrow> ('r \<times> waker list \<times> ('b, 'v) shared_channel) res) \<Rightarrow>
   ('b, 'v) shared_channel arc \<Rightarrow> ('r \<times> waker list \<times> ('b, 'v) shared_channel arc) res" where
  "arc_forward f c =
     and_then (arc_get c) (\<lambda>x.
     and_then (f x) (\<lambda>(r, w, x).
     Inr (r, w, c\<lparr>arc_inner := x\<rparr>)))"

section \<open>The system\<close>

record ('b, 'v) arc_sys =
  ac_arc :: "('b, 'v) shared_channel arc"
  ac_sends :: "addr \<rightharpoonup> send_future"
  ac_recvs :: "addr \<rightharpoonup> receive_future"
  ac_woken :: "waker list"
  ac_accepted :: "'v list"
  ac_received :: "'v list"
  ac_intact :: bool
  ac_sender_handles :: nat
  ac_receiver_handles :: nat

abbreviation ac_chan :: "('b, 'v) arc_sys \<Rightarrow> ('b, 'v) channel" where
  "ac_chan s \<equiv> shc_channel (arc_inner (ac_arc s))"

definition ac_view :: "('b, 'v) arc_sys \<Rightarrow> ('b, 'v) handle_sys" where
  "ac_view s =
     \<lparr>hy_sys = \<lparr>cy_chan = ac_chan s, cy_sends = ac_sends s, cy_recvs = ac_recvs s, cy_woken = ac_woken s,
        cy_accepted = ac_accepted s, cy_received = ac_received s, cy_intact = ac_intact s\<rparr>,
      hy_senders = shc_senders (arc_inner (ac_arc s)), hy_receivers = shc_receivers (arc_inner (ac_arc s)),
      hy_sender_handles = ac_sender_handles s, hy_receiver_handles = ac_receiver_handles s\<rparr>"

definition arc_sys_new :: "('b, 'v) ring_buf_ops \<Rightarrow> addr \<Rightarrow> usize \<Rightarrow> ('b, 'v) arc_sys res" where
  "arc_sys_new ops p capacity =
     and_then (generic_channel ops p capacity) (\<lambda>c.
     Inr \<lparr>ac_arc = c, ac_sends = Map.empty, ac_recvs = Map.empty, ac_woken = [], ac_accepted = [],
          ac_received = [], ac_intact = True, ac_sender_handles = 1, ac_receiver_handles = 1\<rparr>)"

text \<open>New references need room: \<open>2 ^ 63\<close> of them do not fit into the memory of a 64-bit machine.\<close>

fun arc_room :: "'v handle_action \<Rightarrow> ('b, 'v) arc_sys \<Rightarrow> bool" where
  "arc_room (Hd_Call (Ch_Send a v)) s = (unat (arc_strong (ac_arc s)) < 2 ^ 63)"
| "arc_room (Hd_Call (Ch_Receive a)) s = (unat (arc_strong (ac_arc s)) < 2 ^ 63)"
| "arc_room Hd_Clone_Sender s = (unat (arc_strong (ac_arc s)) < 2 ^ 63)"
| "arc_room Hd_Clone_Receiver s = (unat (arc_strong (ac_arc s)) < 2 ^ 63)"
| "arc_room act s = True"

definition arc_enabled :: "('b, 'v) ring_buf_ops \<Rightarrow> 'v handle_action \<Rightarrow> ('b, 'v) arc_sys \<Rightarrow> bool" where
  "arc_enabled ops act s \<longleftrightarrow> handle_enabled ops act (ac_view s) \<and> arc_room act s"

text \<open>The wait nodes are part of the futures, so they outlive the channel.\<close>

definition arc_set_send_nodes :: "'v send_waiter store \<Rightarrow> ('b, 'v) shared_channel arc \<Rightarrow> ('b, 'v) shared_channel arc" where
  "arc_set_send_nodes h c =
     c\<lparr>arc_inner := (arc_inner c)\<lparr>shc_channel := (shc_channel (arc_inner c))\<lparr>ch_send_nodes := h\<rparr>\<rparr>\<rparr>"

definition arc_set_recv_nodes :: "recv_waiter store \<Rightarrow> ('b, 'v) shared_channel arc \<Rightarrow> ('b, 'v) shared_channel arc" where
  "arc_set_recv_nodes h c =
     c\<lparr>arc_inner := (arc_inner c)\<lparr>shc_channel := (shc_channel (arc_inner c))\<lparr>ch_recv_nodes := h\<rparr>\<rparr>\<rparr>"

abbreviation arc_send_nodes :: "('b, 'v) shared_channel arc \<Rightarrow> 'v send_waiter store" where
  "arc_send_nodes c \<equiv> ch_send_nodes (shc_channel (arc_inner c))"

abbreviation arc_recv_nodes :: "('b, 'v) shared_channel arc \<Rightarrow> recv_waiter store" where
  "arc_recv_nodes c \<equiv> ch_recv_nodes (shc_channel (arc_inner c))"

fun arc_exec :: "('b, 'v) ring_buf_ops \<Rightarrow> 'v handle_action \<Rightarrow> ('b, 'v) arc_sys \<Rightarrow> ('b, 'v) arc_sys res" where
  "arc_exec ops (Hd_Call (Ch_Send a v)) s =
     and_then (arc_sender_send a v (ac_arc s)) (\<lambda>(f, node, c).
     Inr (s\<lparr>ac_arc := arc_set_send_nodes ((arc_send_nodes c)(a \<mapsto> node)) c, ac_sends := (ac_sends s)(a \<mapsto> f)\<rparr>))"
| "arc_exec ops (Hd_Call (Ch_Poll_Send a cx)) s =
     and_then (deref (ac_sends s) a) (\<lambda>f.
     and_then (arc_send_future_poll (shared_channel_send_access ops) f cx (ac_arc s)) (\<lambda>(r, w, f, c).
     Inr (s\<lparr>ac_arc := c, ac_sends := (ac_sends s)(a \<mapsto> f), ac_woken := ac_woken s @ w,
            ac_accepted := ac_accepted s @ channel_offer a (ac_chan s)\<rparr>)))"
| "arc_exec ops (Hd_Call (Ch_Cancel_Send a)) s =
     and_then (deref (ac_sends s) a) (\<lambda>f.
     and_then (arc_send_future_cancel (shared_channel_send_access ops) f (ac_arc s)) (\<lambda>(v, f, c).
     Inr (s\<lparr>ac_arc := c, ac_sends := (ac_sends s)(a \<mapsto> f),
            ac_intact := (ac_intact s \<and> \<not> channel_sender_waits a (ac_chan s))\<rparr>)))"
| "arc_exec ops (Hd_Call (Ch_Drop_Send a)) s =
     and_then (deref (ac_sends s) a) (\<lambda>f.
     and_then (arc_send_future_drop (shared_channel_send_access ops) f (ac_arc s)) (\<lambda>c.
     Inr (s\<lparr>ac_arc := arc_set_send_nodes ((arc_send_nodes c)(a := None)) c, ac_sends := (ac_sends s)(a := None),
            ac_intact := (ac_intact s \<and> \<not> channel_sender_waits a (ac_chan s))\<rparr>)))"
| "arc_exec ops (Hd_Call (Ch_Receive a)) s =
     and_then (arc_receiver_receive a (ac_arc s)) (\<lambda>(f, node, c).
     Inr (s\<lparr>ac_arc := arc_set_recv_nodes ((arc_recv_nodes c)(a \<mapsto> node)) c, ac_recvs := (ac_recvs s)(a \<mapsto> f)\<rparr>))"
| "arc_exec ops (Hd_Call (Ch_Poll_Receive a cx)) s =
     and_then (deref (ac_recvs s) a) (\<lambda>f.
     and_then (arc_receive_future_poll (shared_channel_receive_access ops) f cx (ac_arc s)) (\<lambda>(r, w, f, c).
     Inr (s\<lparr>ac_arc := c, ac_recvs := (ac_recvs s)(a \<mapsto> f), ac_woken := ac_woken s @ w,
            ac_received := ac_received s @ (case r of Ready (Some v) \<Rightarrow> [v] | _ \<Rightarrow> [])\<rparr>)))"
| "arc_exec ops (Hd_Call (Ch_Drop_Receive a)) s =
     and_then (deref (ac_recvs s) a) (\<lambda>f.
     and_then (arc_receive_future_drop (shared_channel_receive_access ops) f (ac_arc s)) (\<lambda>(w, c).
     Inr (s\<lparr>ac_arc := arc_set_recv_nodes ((arc_recv_nodes c)(a := None)) c, ac_recvs := (ac_recvs s)(a := None),
            ac_woken := ac_woken s @ w\<rparr>)))"
| "arc_exec ops (Hd_Call (Ch_Try_Send v)) s =
     and_then (arc_forward (sender_try_send ops v) (ac_arc s)) (\<lambda>(r, w, c).
     Inr (s\<lparr>ac_arc := c, ac_woken := ac_woken s @ w,
            ac_accepted := ac_accepted s @ (case r of Inl _ \<Rightarrow> [] | Inr _ \<Rightarrow> [v])\<rparr>))"
| "arc_exec ops (Hd_Call Ch_Try_Receive) s =
     and_then (arc_forward (receiver_try_receive ops) (ac_arc s)) (\<lambda>(r, w, c).
     Inr (s\<lparr>ac_arc := c, ac_woken := ac_woken s @ w,
            ac_received := ac_received s @ (case r of Inl _ \<Rightarrow> [] | Inr v \<Rightarrow> [v])\<rparr>))"
| "arc_exec ops (Hd_Call Ch_Close) s =
     and_then (arc_forward shared_channel_close (ac_arc s)) (\<lambda>(r, w, c).
     and_then (ll_is_empty (ch_send_waiters (ac_chan s))) (\<lambda>nobody.
     Inr (s\<lparr>ac_arc := c, ac_woken := ac_woken s @ w, ac_intact := (ac_intact s \<and> nobody)\<rparr>)))"
| "arc_exec ops Hd_Clone_Sender s =
     and_then (arc_handle_clone sender_clone (ac_arc s)) (\<lambda>c.
     Inr (s\<lparr>ac_arc := c, ac_sender_handles := ac_sender_handles s + 1\<rparr>))"
| "arc_exec ops Hd_Drop_Sender s =
     and_then (handle_drop sender_drop (ac_arc s)) (\<lambda>(w, c).
     and_then (ll_is_empty (ch_send_waiters (ac_chan s))) (\<lambda>nobody.
     Inr (s\<lparr>ac_arc := c, ac_woken := ac_woken s @ w, ac_intact := (ac_intact s \<and> nobody),
            ac_sender_handles := ac_sender_handles s - 1\<rparr>)))"
| "arc_exec ops Hd_Clone_Receiver s =
     and_then (arc_handle_clone receiver_clone (ac_arc s)) (\<lambda>c.
     Inr (s\<lparr>ac_arc := c, ac_receiver_handles := ac_receiver_handles s + 1\<rparr>))"
| "arc_exec ops Hd_Drop_Receiver s =
     and_then (handle_drop (receiver_drop ops) (ac_arc s)) (\<lambda>(w, c).
     Inr (s\<lparr>ac_arc := c, ac_woken := ac_woken s @ w, ac_intact := (ac_intact s \<and> ac_receiver_handles s \<noteq> 1),
            ac_receiver_handles := ac_receiver_handles s - 1\<rparr>))"

abbreviation arc_reachable :: "('b, 'v) ring_buf_ops \<Rightarrow> addr \<Rightarrow> ('b, 'v) arc_sys \<Rightarrow> bool" where
  "arc_reachable ops p \<equiv>
     reach (\<lambda>s. \<exists>capacity. arc_sys_new ops p capacity = Inr s) (arc_enabled ops) (arc_exec ops)"

section \<open>Refinement and counts\<close>

definition ac_owners :: "('b, 'v) arc_sys \<Rightarrow> nat" where
  "ac_owners s = ac_sender_handles s + ac_receiver_handles s +
     card (owning sdf_channel (ac_sends s)) + card (owning rf_channel (ac_recvs s))"

definition arc_inv :: "('b, 'v) ring_buf_ops \<Rightarrow> ('b, 'v) arc_sys \<Rightarrow> bool" where
  "arc_inv ops s \<longleftrightarrow> handle_reachable ops (ac_view s) \<and> finite (dom (ac_sends s)) \<and> finite (dom (ac_recvs s)) \<and>
     arc_counts (ac_arc s) (ac_owners s)"

definition arc_step :: "('b, 'v) ring_buf_ops \<Rightarrow> 'v handle_action \<Rightarrow> ('b, 'v) arc_sys \<Rightarrow> ('b, 'v) arc_sys \<Rightarrow> bool" where
  "arc_step ops act s t \<longleftrightarrow> arc_inv ops t \<and> handle_exec ops act (ac_view s) = Inr (ac_view t)"

lemma ac_view_simps [simp]:
  "cy_chan (hy_sys (ac_view s)) = ac_chan s" "cy_sends (hy_sys (ac_view s)) = ac_sends s"
  "cy_recvs (hy_sys (ac_view s)) = ac_recvs s" "cy_woken (hy_sys (ac_view s)) = ac_woken s"
  "cy_accepted (hy_sys (ac_view s)) = ac_accepted s" "cy_received (hy_sys (ac_view s)) = ac_received s"
  "cy_intact (hy_sys (ac_view s)) = ac_intact s"
  "hy_senders (ac_view s) = shc_senders (arc_inner (ac_arc s))"
  "hy_receivers (ac_view s) = shc_receivers (arc_inner (ac_arc s))"
  "hy_sender_handles (ac_view s) = ac_sender_handles s" "hy_receiver_handles (ac_view s) = ac_receiver_handles s"
  "handle_view (ac_view s) = arc_inner (ac_arc s)"
  by (simp_all add: ac_view_def handle_view_def)

lemma arc_set_nodes_simps [simp]:
  "arc_counts (arc_set_send_nodes h c) n = arc_counts c n" "arc_counts (arc_set_recv_nodes h' c) n = arc_counts c n"
  "arc_inner (arc_set_send_nodes h c) = (arc_inner c)\<lparr>shc_channel := (shc_channel (arc_inner c))\<lparr>ch_send_nodes := h\<rparr>\<rparr>"
  "arc_inner (arc_set_recv_nodes h' c) = (arc_inner c)\<lparr>shc_channel := (shc_channel (arc_inner c))\<lparr>ch_recv_nodes := h'\<rparr>\<rparr>"
  by (simp_all add: arc_set_send_nodes_def arc_set_recv_nodes_def)

lemma arc_invD:
  assumes "arc_inv ops s"
  shows "handle_reachable ops (ac_view s)" "finite (dom (ac_sends s))" "finite (dom (ac_recvs s))"
    "arc_counts (ac_arc s) (ac_owners s)"
  using assms by (auto simp: arc_inv_def)

lemma arc_follows:
  assumes inv: "arc_inv ops s" and enabled: "handle_enabled ops act (ac_view s)"
    and run: "handle_exec ops act (ac_view s) = Inr t'" and view: "ac_view t = t'"
    and counts: "arc_counts (ac_arc t) (ac_owners t)" and fin: "finite (dom (ac_sends t))" "finite (dom (ac_recvs t))"
  shows "arc_step ops act s t"
proof -
  from arc_invD(1) [OF inv] enabled run have "handle_reachable ops t'" by (rule reach_step)
  with run view counts fin show ?thesis by (simp add: arc_step_def arc_inv_def)
qed

text \<open>What the trait objects do when the channel does it.\<close>

lemma arc_receive_poll_run:
  assumes "arc_counts c n" "0 < n" "rf_channel f"
    and "receive_future_poll (channel_receive_access ops) f cx (shc_channel (arc_inner c)) = Inr (r, w, f', ch)"
  defines "x \<equiv> (arc_inner c)\<lparr>shc_channel := ch\<rparr>"
  shows "f' = (if is_ready r then f\<lparr>rf_channel := False\<rparr> else f)"
    and "arc_receive_future_poll (shared_channel_receive_access ops) f cx c =
      and_then (if rf_channel f' then Inr (c\<lparr>arc_inner := x\<rparr>) else arc_drop (c\<lparr>arc_inner := x\<rparr>)) (\<lambda>c. Inr (r, w, f', c))"
proof -
  from assms(3,4) have reg: "ra_receive_or_register (channel_receive_access ops) (rf_wait_node f) cx (shc_channel (arc_inner c)) =
      Inr (r, w, ch)" and f': "f' = (if is_ready r then f\<lparr>rf_channel := False\<rparr> else f)"
    by (auto simp: receive_future_poll_def and_then_eq_Inr)
  show "f' = (if is_ready r then f\<lparr>rf_channel := False\<rparr> else f)" by (rule f')
  show "arc_receive_future_poll (shared_channel_receive_access ops) f cx c =
      and_then (if rf_channel f' then Inr (c\<lparr>arc_inner := x\<rparr>) else arc_drop (c\<lparr>arc_inner := x\<rparr>)) (\<lambda>c. Inr (r, w, f', c))"
    using reg f' assms(1-3)
    by (simp add: arc_receive_future_poll_def shared_receive_future_poll_def arc_receive_access_def
        shared_channel_receive_access_def Let_def x_def)
qed

lemma arc_receive_drop_run:
  assumes "rf_channel f \<Longrightarrow> arc_counts c n \<and> 0 < n"
    and "receive_future_drop (channel_receive_access ops) f (shc_channel (arc_inner c)) = Inr (w, ch)"
  defines "x \<equiv> (arc_inner c)\<lparr>shc_channel := ch\<rparr>"
  shows "arc_receive_future_drop (shared_channel_receive_access ops) f c =
      and_then (if rf_channel f then arc_drop (c\<lparr>arc_inner := x\<rparr>) else Inr (c\<lparr>arc_inner := x\<rparr>)) (\<lambda>c. Inr (w, c))"
  using assms(1,2)
  by (auto simp: arc_receive_future_drop_def shared_receive_future_drop_def receive_future_drop_def arc_receive_access_def
      shared_channel_receive_access_def x_def and_then_eq_Inr split: if_splits)

lemma arc_send_poll_run:
  assumes "arc_counts c n" "0 < n" "sdf_channel f"
    and "send_future_poll (channel_send_access ops) f cx (shc_channel (arc_inner c)) = Inr (r, w, f', ch)"
  defines "x \<equiv> (arc_inner c)\<lparr>shc_channel := ch\<rparr>"
  shows "arc_send_future_poll (shared_channel_send_access ops) f cx c =
      and_then (if sdf_channel f' then Inr (c\<lparr>arc_inner := x\<rparr>) else arc_drop (c\<lparr>arc_inner := x\<rparr>)) (\<lambda>c. Inr (r, w, f', c))"
proof -
  from assms(3,4) obtain q v w\<^sub>0 c\<^sub>0 where
    reg: "sa_send_or_register (channel_send_access ops) (sdf_wait_node f) cx (shc_channel (arc_inner c)) = Inr (q, v, w\<^sub>0, c\<^sub>0)"
    by (auto simp: send_future_poll_def and_then_eq_Inr)
  with assms(1-4) show ?thesis
    by (cases q; cases v)
      (auto simp: send_future_poll_def arc_send_future_poll_def shared_send_future_poll_def arc_send_access_def
        shared_channel_send_access_def Let_def x_def)
qed

lemma arc_send_cancel_run:
  assumes "sdf_channel f \<Longrightarrow> arc_counts c n \<and> 0 < n"
    and "send_future_cancel (channel_send_access ops) f (shc_channel (arc_inner c)) = Inr (v, f', ch)"
  defines "x \<equiv> (arc_inner c)\<lparr>shc_channel := ch\<rparr>"
  shows "\<not> sdf_channel f'"
    and "arc_send_future_cancel (shared_channel_send_access ops) f c =
      and_then (if sdf_channel f then arc_drop (c\<lparr>arc_inner := x\<rparr>) else Inr (c\<lparr>arc_inner := x\<rparr>)) (\<lambda>c. Inr (v, f', c))"
  using assms(1,2)
  by (auto simp: arc_send_future_cancel_def shared_send_future_cancel_def send_future_cancel_def arc_send_access_def
      shared_channel_send_access_def x_def Let_def and_then_eq_Inr split: if_splits)

lemma arc_send_drop_run:
  assumes "sdf_channel f \<Longrightarrow> arc_counts c n \<and> 0 < n"
    and "send_future_drop (channel_send_access ops) f (shc_channel (arc_inner c)) = Inr ch"
  defines "x \<equiv> (arc_inner c)\<lparr>shc_channel := ch\<rparr>"
  shows "arc_send_future_drop (shared_channel_send_access ops) f c =
      (if sdf_channel f then arc_drop (c\<lparr>arc_inner := x\<rparr>) else Inr (c\<lparr>arc_inner := x\<rparr>))"
  using assms(1,2)
  by (auto simp: arc_send_future_drop_def shared_send_future_drop_def send_future_drop_def arc_send_access_def
      shared_channel_send_access_def x_def and_then_eq_Inr split: if_splits)

context ring_buf
begin

lemma ac_run:
  assumes "arc_inv ops s" "arc_enabled ops act s"
  obtains t' where "handle_exec ops act (ac_view s) = Inr t'" "handle_enabled ops act (ac_view s)" "arc_room act s"
  using handle_runs [OF arc_invD(1) [OF assms(1)], of act] assms(2) by (auto simp: arc_enabled_def)

lemma ac_send_preserves:
  assumes inv: "arc_inv ops s" and en: "arc_enabled ops (Hd_Call (Ch_Send a v)) s"
  shows "returns (arc_exec ops (Hd_Call (Ch_Send a v)) s) (arc_step ops (Hd_Call (Ch_Send a v)) s)"
proof -
  note S = arc_invD [OF inv]
  from ac_run [OF inv en] have act: "handle_enabled ops (Hd_Call (Ch_Send a v)) (ac_view s)"
    "arc_room (Hd_Call (Ch_Send a v)) s" by blast+
  then have room: "unat (arc_strong (ac_arc s)) < 2 ^ 63" and pos: "0 < ac_owners s"
    and fresh: "data_of (ch_send_nodes (ac_chan s)) a = None" by (simp_all add: ac_owners_def)
  from arc_clone_same [OF S(4) pos room] obtain c where
    c: "arc_clone (ac_arc s) = Inr c" "arc_counts c (Suc (ac_owners s))" "arc_inner c = arc_inner (ac_arc s)" by blast
  let ?f = "\<lparr>sdf_channel = True, sdf_wait_node = a\<rparr>"
  let ?t = "s\<lparr>ac_arc := arc_set_send_nodes ((arc_send_nodes c)(a \<mapsto> list_node_new (send_waiter_new v))) c,
    ac_sends := (ac_sends s)(a \<mapsto> ?f)\<rparr>"
  from handle_reach_inv [OF S(1)] obtain V where V: "channel_sys_rep ops binv items (hy_sys (ac_view s)) V"
    by (auto simp: handle_inv_def channel_sys_inv_def)
  have "ac_sends s a = None"
  proof (rule ccontr)
    assume "ac_sends s a \<noteq> None"
    with channel_sys_repD(3) [OF V] obtain e where "cp_sd V a = Some e" by (auto dest: sends_okD)
    moreover have "data_of (ch_send_nodes (ac_chan s)) = cp_sd V"
      using channel_sys_repD(1) [OF V] by (simp add: channel_abs_def)
    ultimately show False using fresh by simp
  qed
  from owning_card(1) [where P = sdf_channel and f = ?f, OF S(2) this] c(2)
  have "arc_counts (ac_arc ?t) (ac_owners ?t)" by (simp add: ac_owners_def)
  moreover have "handle_exec ops (Hd_Call (Ch_Send a v)) (ac_view s) = Inr (ac_view ?t)"
    using c(3) by (simp add: channel_send_def ac_view_def)
  ultimately have "arc_step ops (Hd_Call (Ch_Send a v)) s ?t"
    using arc_follows [OF inv act(1) _ refl, of ?t] S(2,3) by (simp del: handle_exec.simps)
  then show ?thesis by (simp add: arc_sender_send_def c(1))
qed

lemma ac_receive_preserves:
  assumes inv: "arc_inv ops s" and en: "arc_enabled ops (Hd_Call (Ch_Receive a)) s"
  shows "returns (arc_exec ops (Hd_Call (Ch_Receive a)) s) (arc_step ops (Hd_Call (Ch_Receive a)) s)"
proof -
  note S = arc_invD [OF inv]
  from ac_run [OF inv en] have act: "handle_enabled ops (Hd_Call (Ch_Receive a)) (ac_view s)"
    "arc_room (Hd_Call (Ch_Receive a)) s" by blast+
  then have room: "unat (arc_strong (ac_arc s)) < 2 ^ 63" and pos: "0 < ac_owners s"
    and fresh: "data_of (ch_recv_nodes (ac_chan s)) a = None" by (simp_all add: ac_owners_def)
  from arc_clone_same [OF S(4) pos room] obtain c where
    c: "arc_clone (ac_arc s) = Inr c" "arc_counts c (Suc (ac_owners s))" "arc_inner c = arc_inner (ac_arc s)" by blast
  let ?f = "\<lparr>rf_channel = True, rf_wait_node = a\<rparr>"
  let ?t = "s\<lparr>ac_arc := arc_set_recv_nodes ((arc_recv_nodes c)(a \<mapsto> list_node_new recv_waiter_new)) c,
    ac_recvs := (ac_recvs s)(a \<mapsto> ?f)\<rparr>"
  from handle_reach_inv [OF S(1)] obtain V where V: "channel_sys_rep ops binv items (hy_sys (ac_view s)) V"
    by (auto simp: handle_inv_def channel_sys_inv_def)
  have "ac_recvs s a = None"
  proof (rule ccontr)
    assume "ac_recvs s a \<noteq> None"
    with channel_sys_repD(4) [OF V] obtain e where "cp_rd V a = Some e" by (auto dest: recvs_okD)
    moreover have "data_of (ch_recv_nodes (ac_chan s)) = cp_rd V"
      using channel_sys_repD(1) [OF V] by (simp add: channel_abs_def)
    ultimately show False using fresh by simp
  qed
  from owning_card(1) [where P = rf_channel and f = ?f, OF S(3) this] c(2)
  have "arc_counts (ac_arc ?t) (ac_owners ?t)" by (simp add: ac_owners_def)
  moreover have "handle_exec ops (Hd_Call (Ch_Receive a)) (ac_view s) = Inr (ac_view ?t)"
    using c(3) by (simp add: channel_receive_def ac_view_def)
  ultimately have "arc_step ops (Hd_Call (Ch_Receive a)) s ?t"
    using arc_follows [OF inv act(1) _ refl, of ?t] S(2,3) by (simp del: handle_exec.simps)
  then show ?thesis by (simp add: arc_receiver_receive_def c(1))
qed

lemma ac_poll_receive_preserves:
  assumes inv: "arc_inv ops s" and en: "arc_enabled ops (Hd_Call (Ch_Poll_Receive a cx)) s"
  shows "returns (arc_exec ops (Hd_Call (Ch_Poll_Receive a cx)) s) (arc_step ops (Hd_Call (Ch_Poll_Receive a cx)) s)"
proof -
  note S = arc_invD [OF inv]
  from ac_run [OF inv en] obtain t' where t': "handle_exec ops (Hd_Call (Ch_Poll_Receive a cx)) (ac_view s) = Inr t'"
    and act: "handle_enabled ops (Hd_Call (Ch_Poll_Receive a cx)) (ac_view s)" by blast
  from act obtain f where f: "ac_recvs s a = Some f" "rf_channel f"
    by (auto simp: receive_future_is_terminated_def split: option.splits)
  from t' f obtain r w f' ch where
    poll: "receive_future_poll (channel_receive_access ops) f cx (ac_chan s) = Inr (r, w, f', ch)"
    and t'_eq: "t' = (ac_view s)\<lparr>hy_sys := (hy_sys (ac_view s))\<lparr>cy_chan := ch, cy_recvs := (ac_recvs s)(a \<mapsto> f'),
      cy_woken := ac_woken s @ w, cy_received := ac_received s @ (case r of Ready (Some v) \<Rightarrow> [v] | _ \<Rightarrow> [])\<rparr>\<rparr>"
    by (auto simp: and_then_eq_Inr cong: poll.case_cong option.case_cong)
  from owning_pos [where P = rf_channel, OF S(3) f] have pos: "0 < ac_owners s" by (simp add: ac_owners_def)
  let ?x = "(arc_inner (ac_arc s))\<lparr>shc_channel := ch\<rparr>"
  let ?k = "ac_sender_handles s + ac_receiver_handles s + card (owning sdf_channel (ac_sends s))"
  from S(4) have "arc_counts (ac_arc s) (?k + card (owning rf_channel (ac_recvs s)))" by (simp add: ac_owners_def)
  from owning_update_counts [where P = rf_channel, OF S(3) f this, of f' ?x] obtain c where
    c: "(if rf_channel f' then Inr ((ac_arc s)\<lparr>arc_inner := ?x\<rparr>) else arc_drop ((ac_arc s)\<lparr>arc_inner := ?x\<rparr>)) = Inr c"
      "arc_counts c (?k + card (owning rf_channel ((ac_recvs s)(a \<mapsto> f'))))" "arc_inner c = ?x" by blast
  let ?t = "s\<lparr>ac_arc := c, ac_recvs := (ac_recvs s)(a \<mapsto> f'), ac_woken := ac_woken s @ w,
    ac_received := ac_received s @ (case r of Ready (Some v) \<Rightarrow> [v] | _ \<Rightarrow> [])\<rparr>"
  have "ac_view ?t = t'" using t'_eq c(3) by (simp add: ac_view_def)
  from arc_follows [OF inv act t' this] c(2) S(2,3) have "arc_step ops (Hd_Call (Ch_Poll_Receive a cx)) s ?t"
    by (simp add: ac_owners_def)
  with arc_receive_poll_run(2) [OF S(4) pos f(2) poll] c(1) f(1) show ?thesis by simp
qed

lemma ac_drop_receive_preserves:
  assumes inv: "arc_inv ops s" and en: "arc_enabled ops (Hd_Call (Ch_Drop_Receive a)) s"
  shows "returns (arc_exec ops (Hd_Call (Ch_Drop_Receive a)) s) (arc_step ops (Hd_Call (Ch_Drop_Receive a)) s)"
proof -
  note S = arc_invD [OF inv]
  from ac_run [OF inv en] obtain t' where t': "handle_exec ops (Hd_Call (Ch_Drop_Receive a)) (ac_view s) = Inr t'"
    and act: "handle_enabled ops (Hd_Call (Ch_Drop_Receive a)) (ac_view s)" by blast
  from act obtain f where f: "ac_recvs s a = Some f" by auto
  from t' f obtain w ch where
    drop: "receive_future_drop (channel_receive_access ops) f (ac_chan s) = Inr (w, ch)"
    and t'_eq: "t' = (ac_view s)\<lparr>hy_sys := (hy_sys (ac_view s))\<lparr>
      cy_chan := ch\<lparr>ch_recv_nodes := (ch_recv_nodes ch)(a := None)\<rparr>, cy_recvs := (ac_recvs s)(a := None),
      cy_woken := ac_woken s @ w\<rparr>\<rparr>"
    by (auto simp: and_then_eq_Inr)
  have pos: "rf_channel f \<Longrightarrow> arc_counts (ac_arc s) (ac_owners s) \<and> 0 < ac_owners s"
    using owning_pos [where P = rf_channel, OF S(3) f] S(4) by (simp add: ac_owners_def)
  let ?x = "(arc_inner (ac_arc s))\<lparr>shc_channel := ch\<rparr>"
  let ?k = "ac_sender_handles s + ac_receiver_handles s + card (owning sdf_channel (ac_sends s))"
  from S(4) have "arc_counts (ac_arc s) (?k + card (owning rf_channel (ac_recvs s)))" by (simp add: ac_owners_def)
  from owning_delete_counts [where P = rf_channel, OF S(3) f this, of ?x] obtain c where
    c: "(if rf_channel f then arc_drop ((ac_arc s)\<lparr>arc_inner := ?x\<rparr>) else Inr ((ac_arc s)\<lparr>arc_inner := ?x\<rparr>)) = Inr c"
      "arc_counts c (?k + card (owning rf_channel ((ac_recvs s)(a := None))))" "arc_inner c = ?x" by blast
  let ?t = "s\<lparr>ac_arc := arc_set_recv_nodes ((arc_recv_nodes c)(a := None)) c, ac_recvs := (ac_recvs s)(a := None),
    ac_woken := ac_woken s @ w\<rparr>"
  have "ac_view ?t = t'" using t'_eq c(3) by (simp add: ac_view_def)
  from arc_follows [OF inv act t' this] c(2) S(2,3) have "arc_step ops (Hd_Call (Ch_Drop_Receive a)) s ?t"
    by (simp add: ac_owners_def)
  with arc_receive_drop_run [OF pos drop] c(1) f show ?thesis by simp
qed

lemma ac_poll_send_preserves:
  assumes inv: "arc_inv ops s" and en: "arc_enabled ops (Hd_Call (Ch_Poll_Send a cx)) s"
  shows "returns (arc_exec ops (Hd_Call (Ch_Poll_Send a cx)) s) (arc_step ops (Hd_Call (Ch_Poll_Send a cx)) s)"
proof -
  note S = arc_invD [OF inv]
  from ac_run [OF inv en] obtain t' where t': "handle_exec ops (Hd_Call (Ch_Poll_Send a cx)) (ac_view s) = Inr t'"
    and act: "handle_enabled ops (Hd_Call (Ch_Poll_Send a cx)) (ac_view s)" by blast
  from act obtain f where f: "ac_sends s a = Some f" "sdf_channel f"
    by (auto simp: send_future_is_terminated_def split: option.splits)
  from t' f obtain r w f' ch where
    poll: "send_future_poll (channel_send_access ops) f cx (ac_chan s) = Inr (r, w, f', ch)"
    and t'_eq: "t' = (ac_view s)\<lparr>hy_sys := (hy_sys (ac_view s))\<lparr>cy_chan := ch, cy_sends := (ac_sends s)(a \<mapsto> f'),
      cy_woken := ac_woken s @ w, cy_accepted := ac_accepted s @ channel_offer a (ac_chan s)\<rparr>\<rparr>"
    by (auto simp: and_then_eq_Inr)
  from owning_pos [where P = sdf_channel, OF S(2) f] have pos: "0 < ac_owners s" by (simp add: ac_owners_def)
  let ?x = "(arc_inner (ac_arc s))\<lparr>shc_channel := ch\<rparr>"
  let ?k = "ac_sender_handles s + ac_receiver_handles s + card (owning rf_channel (ac_recvs s))"
  from S(4) have "arc_counts (ac_arc s) (?k + card (owning sdf_channel (ac_sends s)))" by (simp add: ac_owners_def ac_simps)
  from owning_update_counts [where P = sdf_channel, OF S(2) f this, of f' ?x] obtain c where
    c: "(if sdf_channel f' then Inr ((ac_arc s)\<lparr>arc_inner := ?x\<rparr>) else arc_drop ((ac_arc s)\<lparr>arc_inner := ?x\<rparr>)) = Inr c"
      "arc_counts c (?k + card (owning sdf_channel ((ac_sends s)(a \<mapsto> f'))))" "arc_inner c = ?x" by blast
  let ?t = "s\<lparr>ac_arc := c, ac_sends := (ac_sends s)(a \<mapsto> f'), ac_woken := ac_woken s @ w,
    ac_accepted := ac_accepted s @ channel_offer a (ac_chan s)\<rparr>"
  have "ac_view ?t = t'" using t'_eq c(3) by (simp add: ac_view_def)
  from arc_follows [OF inv act t' this] c(2) S(2,3) have "arc_step ops (Hd_Call (Ch_Poll_Send a cx)) s ?t"
    by (simp add: ac_owners_def ac_simps)
  with arc_send_poll_run [OF S(4) pos f(2) poll] c(1) f(1) show ?thesis by simp
qed

lemma ac_cancel_send_preserves:
  assumes inv: "arc_inv ops s" and en: "arc_enabled ops (Hd_Call (Ch_Cancel_Send a)) s"
  shows "returns (arc_exec ops (Hd_Call (Ch_Cancel_Send a)) s) (arc_step ops (Hd_Call (Ch_Cancel_Send a)) s)"
proof -
  note S = arc_invD [OF inv]
  from ac_run [OF inv en] obtain t' where t': "handle_exec ops (Hd_Call (Ch_Cancel_Send a)) (ac_view s) = Inr t'"
    and act: "handle_enabled ops (Hd_Call (Ch_Cancel_Send a)) (ac_view s)" by blast
  from act obtain f where f: "ac_sends s a = Some f" by auto
  from t' f obtain v f' ch where
    cancel: "send_future_cancel (channel_send_access ops) f (ac_chan s) = Inr (v, f', ch)"
    and t'_eq: "t' = (ac_view s)\<lparr>hy_sys := (hy_sys (ac_view s))\<lparr>cy_chan := ch, cy_sends := (ac_sends s)(a \<mapsto> f'),
      cy_intact := (ac_intact s \<and> \<not> channel_sender_waits a (ac_chan s))\<rparr>\<rparr>"
    by (auto simp: and_then_eq_Inr)
  have pos: "sdf_channel f \<Longrightarrow> arc_counts (ac_arc s) (ac_owners s) \<and> 0 < ac_owners s"
    using owning_pos [where P = sdf_channel, OF S(2) f] S(4) by (simp add: ac_owners_def)
  note run = arc_send_cancel_run [OF pos cancel]
  let ?x = "(arc_inner (ac_arc s))\<lparr>shc_channel := ch\<rparr>"
  let ?k = "ac_sender_handles s + ac_receiver_handles s + card (owning rf_channel (ac_recvs s))"
  from S(4) have k: "arc_counts (ac_arc s) (?k + card (owning sdf_channel (ac_sends s)))"
    by (simp add: ac_owners_def ac_simps)
  have "\<exists>c. (if sdf_channel f then arc_drop ((ac_arc s)\<lparr>arc_inner := ?x\<rparr>) else Inr ((ac_arc s)\<lparr>arc_inner := ?x\<rparr>)) = Inr c \<and>
      arc_counts c (?k + card (owning sdf_channel ((ac_sends s)(a \<mapsto> f')))) \<and> arc_inner c = ?x"
  proof (cases "sdf_channel f")
    case True
    from owning_update_counts [where P = sdf_channel, OF S(2) f True k, of f' ?x] True run(1) show ?thesis by auto
  next
    case False
    with owning_card(2) [where P = sdf_channel and F = "ac_sends s" and a = a and g = f and f = f', OF S(2) f] run(1) k
    show ?thesis by simp
  qed
  then obtain c where
    c: "(if sdf_channel f then arc_drop ((ac_arc s)\<lparr>arc_inner := ?x\<rparr>) else Inr ((ac_arc s)\<lparr>arc_inner := ?x\<rparr>)) = Inr c"
      "arc_counts c (?k + card (owning sdf_channel ((ac_sends s)(a \<mapsto> f'))))" "arc_inner c = ?x" by blast
  let ?t = "s\<lparr>ac_arc := c, ac_sends := (ac_sends s)(a \<mapsto> f'),
    ac_intact := (ac_intact s \<and> \<not> channel_sender_waits a (ac_chan s))\<rparr>"
  have "ac_view ?t = t'" using t'_eq c(3) by (simp add: ac_view_def)
  from arc_follows [OF inv act t' this] c(2) S(2,3) have "arc_step ops (Hd_Call (Ch_Cancel_Send a)) s ?t"
    by (simp add: ac_owners_def ac_simps)
  with run(2) c(1) f show ?thesis by simp
qed

lemma ac_drop_send_preserves:
  assumes inv: "arc_inv ops s" and en: "arc_enabled ops (Hd_Call (Ch_Drop_Send a)) s"
  shows "returns (arc_exec ops (Hd_Call (Ch_Drop_Send a)) s) (arc_step ops (Hd_Call (Ch_Drop_Send a)) s)"
proof -
  note S = arc_invD [OF inv]
  from ac_run [OF inv en] obtain t' where t': "handle_exec ops (Hd_Call (Ch_Drop_Send a)) (ac_view s) = Inr t'"
    and act: "handle_enabled ops (Hd_Call (Ch_Drop_Send a)) (ac_view s)" by blast
  from act obtain f where f: "ac_sends s a = Some f" by auto
  from t' f obtain ch where
    drop: "send_future_drop (channel_send_access ops) f (ac_chan s) = Inr ch"
    and t'_eq: "t' = (ac_view s)\<lparr>hy_sys := (hy_sys (ac_view s))\<lparr>
      cy_chan := ch\<lparr>ch_send_nodes := (ch_send_nodes ch)(a := None)\<rparr>, cy_sends := (ac_sends s)(a := None),
      cy_intact := (ac_intact s \<and> \<not> channel_sender_waits a (ac_chan s))\<rparr>\<rparr>"
    by (auto simp: and_then_eq_Inr)
  have pos: "sdf_channel f \<Longrightarrow> arc_counts (ac_arc s) (ac_owners s) \<and> 0 < ac_owners s"
    using owning_pos [where P = sdf_channel, OF S(2) f] S(4) by (simp add: ac_owners_def)
  let ?x = "(arc_inner (ac_arc s))\<lparr>shc_channel := ch\<rparr>"
  let ?k = "ac_sender_handles s + ac_receiver_handles s + card (owning rf_channel (ac_recvs s))"
  from S(4) have "arc_counts (ac_arc s) (?k + card (owning sdf_channel (ac_sends s)))"
    by (simp add: ac_owners_def ac_simps)
  from owning_delete_counts [where P = sdf_channel, OF S(2) f this, of ?x] obtain c where
    c: "(if sdf_channel f then arc_drop ((ac_arc s)\<lparr>arc_inner := ?x\<rparr>) else Inr ((ac_arc s)\<lparr>arc_inner := ?x\<rparr>)) = Inr c"
      "arc_counts c (?k + card (owning sdf_channel ((ac_sends s)(a := None))))" "arc_inner c = ?x" by blast
  let ?t = "s\<lparr>ac_arc := arc_set_send_nodes ((arc_send_nodes c)(a := None)) c, ac_sends := (ac_sends s)(a := None),
    ac_intact := (ac_intact s \<and> \<not> channel_sender_waits a (ac_chan s))\<rparr>"
  have "ac_view ?t = t'" using t'_eq c(3) by (simp add: ac_view_def)
  from arc_follows [OF inv act t' this] c(2) S(2,3) have "arc_step ops (Hd_Call (Ch_Drop_Send a)) s ?t"
    by (simp add: ac_owners_def ac_simps)
  with arc_send_drop_run [OF pos drop] c(1) f show ?thesis by simp
qed

text \<open>The calls that borrow the reference leave the count alone.\<close>

lemma ac_borrow_preserves:
  assumes inv: "arc_inv ops s" and enabled: "handle_enabled ops act (ac_view s)"
    and run: "handle_exec ops act (ac_view s) = Inr t'"
    and view: "ac_view t = t'" and t: "ac_arc t = (ac_arc s)\<lparr>arc_inner := x\<rparr>" "ac_owners t = ac_owners s"
      "ac_sends t = ac_sends s" "ac_recvs t = ac_recvs s"
  shows "arc_step ops act s t"
  using arc_follows [OF inv enabled run view] arc_invD [OF inv] t by simp

lemma ac_try_send_preserves:
  assumes inv: "arc_inv ops s" and en: "arc_enabled ops (Hd_Call (Ch_Try_Send v)) s"
  shows "returns (arc_exec ops (Hd_Call (Ch_Try_Send v)) s) (arc_step ops (Hd_Call (Ch_Try_Send v)) s)"
proof -
  note S = arc_invD [OF inv]
  from ac_run [OF inv en] obtain t' where t': "handle_exec ops (Hd_Call (Ch_Try_Send v)) (ac_view s) = Inr t'"
    and act: "handle_enabled ops (Hd_Call (Ch_Try_Send v)) (ac_view s)" by blast
  then obtain r w ch where call: "channel_try_send ops v (ac_chan s) = Inr (r, w, ch)"
    and t'_eq: "t' = (ac_view s)\<lparr>hy_sys := (hy_sys (ac_view s))\<lparr>cy_chan := ch, cy_woken := ac_woken s @ w,
      cy_accepted := ac_accepted s @ (case r of Inl _ \<Rightarrow> [] | Inr _ \<Rightarrow> [v])\<rparr>\<rparr>"
    by (auto simp: and_then_eq_Inr cong: sum.case_cong)
  let ?x = "(arc_inner (ac_arc s))\<lparr>shc_channel := ch\<rparr>"
  let ?t = "s\<lparr>ac_arc := (ac_arc s)\<lparr>arc_inner := ?x\<rparr>, ac_woken := ac_woken s @ w,
    ac_accepted := ac_accepted s @ (case r of Inl _ \<Rightarrow> [] | Inr _ \<Rightarrow> [v])\<rparr>"
  have "ac_view ?t = t'" using t'_eq by (simp add: ac_view_def)
  from ac_borrow_preserves [OF inv act t' this] have "arc_step ops (Hd_Call (Ch_Try_Send v)) s ?t"
    by (simp add: ac_owners_def)
  moreover have "0 < ac_owners s" using act by (simp add: ac_owners_def)
  ultimately show ?thesis using call S(4) by (simp add: arc_forward_def sender_try_send_def)
qed

lemma ac_try_receive_preserves:
  assumes inv: "arc_inv ops s" and en: "arc_enabled ops (Hd_Call Ch_Try_Receive) s"
  shows "returns (arc_exec ops (Hd_Call Ch_Try_Receive) s) (arc_step ops (Hd_Call Ch_Try_Receive) s)"
proof -
  note S = arc_invD [OF inv]
  from ac_run [OF inv en] obtain t' where t': "handle_exec ops (Hd_Call Ch_Try_Receive) (ac_view s) = Inr t'"
    and act: "handle_enabled ops (Hd_Call Ch_Try_Receive) (ac_view s)" by blast
  then obtain r w ch where call: "channel_try_receive ops (ac_chan s) = Inr (r, w, ch)"
    and t'_eq: "t' = (ac_view s)\<lparr>hy_sys := (hy_sys (ac_view s))\<lparr>cy_chan := ch, cy_woken := ac_woken s @ w,
      cy_received := ac_received s @ (case r of Inl _ \<Rightarrow> [] | Inr v \<Rightarrow> [v])\<rparr>\<rparr>"
    by (auto simp: and_then_eq_Inr cong: sum.case_cong)
  let ?x = "(arc_inner (ac_arc s))\<lparr>shc_channel := ch\<rparr>"
  let ?t = "s\<lparr>ac_arc := (ac_arc s)\<lparr>arc_inner := ?x\<rparr>, ac_woken := ac_woken s @ w,
    ac_received := ac_received s @ (case r of Inl _ \<Rightarrow> [] | Inr v \<Rightarrow> [v])\<rparr>"
  have "ac_view ?t = t'" using t'_eq by (simp add: ac_view_def)
  from ac_borrow_preserves [OF inv act t' this] have "arc_step ops (Hd_Call Ch_Try_Receive) s ?t"
    by (simp add: ac_owners_def)
  moreover have "0 < ac_owners s" using act by (simp add: ac_owners_def)
  ultimately show ?thesis using call S(4) by (simp add: arc_forward_def receiver_try_receive_def)
qed

lemma ac_close_preserves:
  assumes inv: "arc_inv ops s" and en: "arc_enabled ops (Hd_Call Ch_Close) s"
  shows "returns (arc_exec ops (Hd_Call Ch_Close) s) (arc_step ops (Hd_Call Ch_Close) s)"
proof -
  note S = arc_invD [OF inv]
  from ac_run [OF inv en] obtain t' where t': "handle_exec ops (Hd_Call Ch_Close) (ac_view s) = Inr t'"
    and act: "handle_enabled ops (Hd_Call Ch_Close) (ac_view s)" by blast
  then obtain r w ch nobody where close: "channel_close (ac_chan s) = Inr (r, w, ch)"
    "ll_is_empty (ch_send_waiters (ac_chan s)) = Inr nobody"
    and t'_eq: "t' = (ac_view s)\<lparr>hy_sys := (hy_sys (ac_view s))\<lparr>cy_chan := ch, cy_woken := ac_woken s @ w,
      cy_intact := (ac_intact s \<and> nobody)\<rparr>\<rparr>"
    by (auto simp: and_then_eq_Inr)
  let ?x = "(arc_inner (ac_arc s))\<lparr>shc_channel := ch\<rparr>"
  let ?t = "s\<lparr>ac_arc := (ac_arc s)\<lparr>arc_inner := ?x\<rparr>, ac_woken := ac_woken s @ w, ac_intact := (ac_intact s \<and> nobody)\<rparr>"
  have "ac_view ?t = t'" using t'_eq by (simp add: ac_view_def)
  from ac_borrow_preserves [OF inv act t' this] have "arc_step ops (Hd_Call Ch_Close) s ?t"
    by (simp add: ac_owners_def)
  moreover have "0 < ac_owners s" using act by (auto simp: ac_owners_def)
  ultimately show ?thesis using close S(4) by (simp add: arc_forward_def shared_channel_close_def)
qed

lemma ac_clone_preserves:
  assumes inv: "arc_inv ops s" and act: "act = Hd_Clone_Sender \<or> act = Hd_Clone_Receiver"
    and en: "arc_enabled ops act s"
  shows "returns (arc_exec ops act s) (arc_step ops act s)"
proof -
  note S = arc_invD [OF inv]
  from ac_run [OF inv en] obtain t' where t': "handle_exec ops act (ac_view s) = Inr t'"
    and en': "handle_enabled ops act (ac_view s)" "arc_room act s" by blast
  with act have room: "unat (arc_strong (ac_arc s)) < 2 ^ 63" and pos: "0 < ac_owners s"
    by (auto simp: ac_owners_def)
  note clone = arc_handle_clone_counts [OF S(4) pos room]
  from act show ?thesis
  proof
    assume act: "act = Hd_Clone_Sender"
    with t' obtain x where x: "sender_clone (arc_inner (ac_arc s)) = Inr x"
      "t' = (handle_put x (ac_view s))\<lparr>hy_sender_handles := ac_sender_handles s + 1\<rparr>"
      by (auto simp: and_then_eq_Inr)
    from clone [where count = sender_clone, OF x(1)] obtain c where
      c: "arc_handle_clone sender_clone (ac_arc s) = Inr c" "arc_counts c (Suc (ac_owners s))" "arc_inner c = x" by blast
    let ?t = "s\<lparr>ac_arc := c, ac_sender_handles := ac_sender_handles s + 1\<rparr>"
    have "ac_view ?t = t'" using x c(3) by (simp add: ac_view_def handle_put_def)
    from arc_follows [OF inv en'(1) t' this] c S(2,3) act show ?thesis by (simp add: ac_owners_def)
  next
    assume act: "act = Hd_Clone_Receiver"
    with t' obtain x where x: "receiver_clone (arc_inner (ac_arc s)) = Inr x"
      "t' = (handle_put x (ac_view s))\<lparr>hy_receiver_handles := ac_receiver_handles s + 1\<rparr>"
      by (auto simp: and_then_eq_Inr)
    from clone [where count = receiver_clone, OF x(1)] obtain c where
      c: "arc_handle_clone receiver_clone (ac_arc s) = Inr c" "arc_counts c (Suc (ac_owners s))" "arc_inner c = x" by blast
    let ?t = "s\<lparr>ac_arc := c, ac_receiver_handles := ac_receiver_handles s + 1\<rparr>"
    have "ac_view ?t = t'" using x c(3) by (simp add: ac_view_def handle_put_def)
    from arc_follows [OF inv en'(1) t' this] c S(2,3) act show ?thesis by (simp add: ac_owners_def)
  qed
qed

lemma ac_drop_handle_preserves:
  assumes inv: "arc_inv ops s" and act: "act = Hd_Drop_Sender \<or> act = Hd_Drop_Receiver"
    and en: "arc_enabled ops act s"
  shows "returns (arc_exec ops act s) (arc_step ops act s)"
proof -
  note S = arc_invD [OF inv]
  from ac_run [OF inv en] obtain t' where t': "handle_exec ops act (ac_view s) = Inr t'"
    and en': "handle_enabled ops act (ac_view s)" by blast
  let ?futures = "card (owning sdf_channel (ac_sends s)) + card (owning rf_channel (ac_recvs s))"
  from act show ?thesis
  proof
    assume act: "act = Hd_Drop_Sender"
    with t' obtain w x nobody where x: "sender_drop (arc_inner (ac_arc s)) = Inr (w, x)"
      "ll_is_empty (ch_send_waiters (ac_chan s)) = Inr nobody"
      "t' = (let h = handle_put x (ac_view s) in
        h\<lparr>hy_sys := (hy_sys h)\<lparr>cy_woken := cy_woken (hy_sys h) @ w, cy_intact := (cy_intact (hy_sys h) \<and> nobody)\<rparr>,
          hy_sender_handles := hy_sender_handles h - 1\<rparr>)"
      by (auto simp: and_then_eq_Inr Let_def)
    have "arc_counts (ac_arc s) (Suc (ac_sender_handles s - 1 + ac_receiver_handles s + ?futures))"
      using act en' S(4) by (simp add: ac_owners_def ac_simps)
    from handle_drop_counts [where dropper = sender_drop, OF this x(1)] obtain c where
      c: "handle_drop sender_drop (ac_arc s) = Inr (w, c)"
        "arc_counts c (ac_sender_handles s - 1 + ac_receiver_handles s + ?futures)" "arc_inner c = x" by blast
    let ?t = "s\<lparr>ac_arc := c, ac_woken := ac_woken s @ w, ac_intact := (ac_intact s \<and> nobody),
      ac_sender_handles := ac_sender_handles s - 1\<rparr>"
    have "ac_view ?t = t'" using x(3) c(3) by (simp add: ac_view_def handle_put_def Let_def)
    from arc_follows [OF inv en' t' this] c x(2) S(2,3) act show ?thesis by (simp add: ac_owners_def ac_simps)
  next
    assume act: "act = Hd_Drop_Receiver"
    with t' obtain w x where x: "receiver_drop ops (arc_inner (ac_arc s)) = Inr (w, x)"
      "t' = (let h = handle_put x (ac_view s) in
        h\<lparr>hy_sys := (hy_sys h)\<lparr>cy_woken := cy_woken (hy_sys h) @ w,
              cy_intact := (cy_intact (hy_sys h) \<and> ac_receiver_handles s \<noteq> 1)\<rparr>,
          hy_receiver_handles := hy_receiver_handles h - 1\<rparr>)"
      by (auto simp: and_then_eq_Inr Let_def handle_put_def)
    have "arc_counts (ac_arc s) (Suc (ac_sender_handles s + (ac_receiver_handles s - 1) + ?futures))"
      using act en' S(4) by (simp add: ac_owners_def ac_simps)
    from handle_drop_counts [where dropper = "receiver_drop ops", OF this x(1)] obtain c where
      c: "handle_drop (receiver_drop ops) (ac_arc s) = Inr (w, c)"
        "arc_counts c (ac_sender_handles s + (ac_receiver_handles s - 1) + ?futures)" "arc_inner c = x" by blast
    let ?t = "s\<lparr>ac_arc := c, ac_woken := ac_woken s @ w, ac_intact := (ac_intact s \<and> ac_receiver_handles s \<noteq> 1),
      ac_receiver_handles := ac_receiver_handles s - 1\<rparr>"
    have "ac_view ?t = t'" using x(2) c(3) by (simp add: ac_view_def handle_put_def Let_def)
    from arc_follows [OF inv en' t' this] c S(2,3) act show ?thesis by (simp add: ac_owners_def ac_simps)
  qed
qed

lemma arc_exec_step:
  assumes "arc_inv ops s" "arc_enabled ops act s"
  shows "returns (arc_exec ops act s) (arc_step ops act s)"
proof (cases act)
  case (Hd_Call a)
  with assms show ?thesis
    by (cases a) (blast intro: ac_send_preserves ac_poll_send_preserves ac_cancel_send_preserves ac_drop_send_preserves
      ac_receive_preserves ac_poll_receive_preserves ac_drop_receive_preserves ac_try_send_preserves
      ac_try_receive_preserves ac_close_preserves)+
qed (use ac_clone_preserves [OF assms(1) _ assms(2)] ac_drop_handle_preserves [OF assms(1) _ assms(2)] in blast)+

end

lemma arc_sys_init:
  fixes s :: "('b, 'v) arc_sys"
  assumes "arc_sys_new ops p capacity = Inr s"
  shows "arc_inv ops s"
proof -
  let ?x = "\<lparr>shc_channel = channel_with_capacity ops capacity, shc_senders = 1, shc_receivers = 1\<rparr> :: ('b, 'v) shared_channel"
  have "arc_counts (arc_new p ?x) 1" by (simp add: arc_new_def arc_counts_def)
  from arc_clone_same [OF this] obtain c where
    c: "arc_clone (arc_new p ?x) = Inr c" "arc_counts c (Suc 1)" "arc_inner c = ?x" by (auto simp: arc_new_def)
  then have s: "s = \<lparr>ac_arc = c, ac_sends = Map.empty, ac_recvs = Map.empty, ac_woken = [], ac_accepted = [],
          ac_received = [], ac_intact = True, ac_sender_handles = 1, ac_receiver_handles = 1\<rparr>"
    using assms by (simp add: arc_sys_new_def generic_channel_def Let_def)
  then have "ac_view s = handle_start ops capacity"
    using c(3) by (simp add: ac_view_def handle_start_def shared_channel_new_def channel_sys_new_def)
  then have "handle_reachable ops (ac_view s)" by (intro reach_init) blast
  with s c(2) show ?thesis by (simp add: arc_inv_def ac_owners_def owning_def)
qed

sublocale ring_buf \<subseteq> acs: transition_system "\<lambda>s. \<exists>capacity. arc_sys_new ops p capacity = Inr s"
    "arc_enabled ops" "arc_exec ops" "arc_inv ops" for p
proof unfold_locales
  show "returns (arc_exec ops act s) (arc_inv ops)" if "arc_inv ops s" "arc_enabled ops act s" for act s
    using arc_exec_step [OF that] by (auto simp: arc_step_def elim!: returns_mono)
qed (auto intro: arc_sys_init)

context ring_buf
begin

lemma arc_reach_inv: "arc_reachable ops p s \<Longrightarrow> arc_inv ops s"
  by (rule acs.reach_inv)

end

section \<open>Properties\<close>

lemma ac_alive_iff:
  assumes "arc_inv ops s"
  shows "arc_alive (ac_arc s) \<longleftrightarrow> 0 < ac_sender_handles s \<or> 0 < ac_receiver_handles s \<or>
    (\<exists>a f. ac_sends s a = Some f \<and> sdf_channel f) \<or> (\<exists>a f. ac_recvs s a = Some f \<and> rf_channel f)"
proof -
  note S = arc_invD [OF assms]
  have "0 < card (owning sdf_channel (ac_sends s)) \<longleftrightarrow> (\<exists>a f. ac_sends s a = Some f \<and> sdf_channel f)"
    "0 < card (owning rf_channel (ac_recvs s)) \<longleftrightarrow> (\<exists>a f. ac_recvs s a = Some f \<and> rf_channel f)"
    using owning_finite [OF S(2)] owning_finite [OF S(3)] by (auto simp: card_gt_0_iff owning_def)
  with S(4) show ?thesis by (simp add: arc_counts_def ac_owners_def)
qed

text \<open>
  C9: the shared channel refines the borrowed one with its counts, for every buffer. Behind the
  reference every reachable state is a reachable state of the counted handles, and every call that
  the handles and futures alive allow returns and does there what the call of the borrowed channel
  does (so order, wakeups and closing carry over); and the channel is freed exactly when the last
  sender, receiver and unfinished future is gone, so that none of them ever meets a freed channel.
\<close>

theorem shared_channel_refines:
  assumes "ring_buf ops binv items" and reach: "arc_reachable ops p s"
  shows "handle_reachable ops (ac_view s) \<and>
    (arc_alive (ac_arc s) \<longleftrightarrow> 0 < ac_sender_handles s \<or> 0 < ac_receiver_handles s \<or>
      (\<exists>a f. ac_sends s a = Some f \<and> sdf_channel f) \<or> (\<exists>a f. ac_recvs s a = Some f \<and> rf_channel f)) \<and>
    (arc_enabled ops act s \<longrightarrow>
      (\<exists>t. arc_exec ops act s = Inr t \<and> handle_exec ops act (ac_view s) = Inr (ac_view t)))"
proof -
  note inv = ring_buf.arc_reach_inv [OF assms]
  have "\<exists>t. arc_exec ops act s = Inr t \<and> handle_exec ops act (ac_view s) = Inr (ac_view t)" if "arc_enabled ops act s"
    using ring_buf.arc_exec_step [OF assms(1) inv that] by (auto simp: returns_iff arc_step_def)
  with arc_invD(1) [OF inv] ac_alive_iff [OF inv] show ?thesis by blast
qed

text \<open>A run for the witness: a receive future outlives the handles, is polled and frees the channel.\<close>

lemmas arc_eval =
  arc_sys_new_def generic_channel_def arc_enabled_def ac_view_def handle_view_def arc_set_recv_nodes_def
  arc_receiver_receive_def arc_receive_future_poll_def shared_receive_future_poll_def arc_receive_access_def
  shared_channel_receive_access_def sender_drop_def receiver_drop_def handle_drop_def
  channel_close_def channel_clear_def channel_clear_loop.simps wake_recv_waiters_def wake_send_waiters_def
  wake_recv_waiter_def wake_send_waiter_def arc_new_def arc_clone_def arc_get_def arc_drop_def

abbreviation arc_demo_acts :: "nat handle_action list" where
  "arc_demo_acts \<equiv>
     [Hd_Call (Ch_Receive 2), Hd_Call (Ch_Poll_Receive 2 (Waker 2 0)), Hd_Drop_Sender, Hd_Drop_Receiver]"

lemma arc_demo_run:
  "\<exists>s\<^sub>0 s :: (nat fixed_heap_buf, nat) arc_sys. arc_sys_new fixed_heap_buf_ops 9 1 = Inr s\<^sub>0 \<and>
     exec_all (arc_enabled fixed_heap_buf_ops) (arc_exec fixed_heap_buf_ops) arc_demo_acts s\<^sub>0 = Some s \<and>
     ac_sender_handles s = 0 \<and> ac_receiver_handles s = 0 \<and> ac_woken s = [Waker 2 0] \<and>
     ac_recvs s 2 = Some \<lparr>rf_channel = True, rf_wait_node = 2\<rparr> \<and>
     arc_enabled fixed_heap_buf_ops (Hd_Call (Ch_Poll_Receive 2 (Waker 2 0))) s"
  by (simp add: arc_eval channel_eval ll_eval Let_def)

theorem shared_channel_refines_witness:
  "\<exists>s :: (nat fixed_heap_buf, nat) arc_sys. arc_reachable fixed_heap_buf_ops 9 s \<and> arc_alive (ac_arc s) \<and>
     ac_sender_handles s = 0 \<and> ac_receiver_handles s = 0 \<and>
     (\<exists>t. arc_exec fixed_heap_buf_ops (Hd_Call (Ch_Poll_Receive 2 (Waker 2 0))) s = Inr t)"
proof -
  from arc_demo_run obtain s\<^sub>0 s :: "(nat fixed_heap_buf, nat) arc_sys" where
    s: "arc_sys_new fixed_heap_buf_ops 9 1 = Inr s\<^sub>0"
      "exec_all (arc_enabled fixed_heap_buf_ops) (arc_exec fixed_heap_buf_ops) arc_demo_acts s\<^sub>0 = Some s"
      "ac_sender_handles s = 0" "ac_receiver_handles s = 0" "ac_recvs s 2 = Some \<lparr>rf_channel = True, rf_wait_node = 2\<rparr>"
      "arc_enabled fixed_heap_buf_ops (Hd_Call (Ch_Poll_Receive 2 (Waker 2 0))) s" by blast
  have reach: "arc_reachable fixed_heap_buf_ops 9 s"
    by (rule exec_all_reach [OF s(2) reach_init]) (use s(1) in blast)
  note refines = shared_channel_refines [OF fixed_ring.ring_buf_axioms reach,
    of "Hd_Call (Ch_Poll_Receive 2 (Waker 2 0))"]
  have "rf_channel \<lparr>rf_channel = True, rf_wait_node = 2\<rparr>" by simp
  with refines s(5) have "arc_alive (ac_arc s)" by blast
  with reach s(3,4) refines s(6) show ?thesis by blast
qed

end
