(* ===== verification/Refinement_Mapping.thy ===== *)
theory Refinement_Mapping
  imports Prelude
begin

text \<open>
  Refinement mappings: a system of atomic steps implements a system of whole calls when \<open>view\<close> maps
  its states so that each step is one call of the other system or cannot be seen there. The predicate
  \<open>extra\<close> holds what the steps need to know of each other beyond the view.
\<close>

text \<open>A count of one handle, as the machine sees it.\<close>

lemma usize_plus_one: "unat (n + 1 :: usize) = Suc 0 \<longleftrightarrow> n = 0"
proof -
  have "unat (n + 1) = unat (1 :: usize) \<longleftrightarrow> n = 0" unfolding word_unat_eq_iff [symmetric] by simp
  then show ?thesis by simp
qed

definition mapped_step ::
  "('b \<Rightarrow> 'u \<Rightarrow> bool) \<Rightarrow> ('b \<Rightarrow> 'u \<Rightarrow> 'u res) \<Rightarrow> ('s \<Rightarrow> 'u) \<Rightarrow> 'b option \<Rightarrow> 's \<Rightarrow> 's \<Rightarrow> bool" where
  "mapped_step abs_enabled abs_exec view call s t \<longleftrightarrow>
     (case call of
        None \<Rightarrow> view t = view s
      | Some b \<Rightarrow> abs_enabled b (view s) \<and> abs_exec b (view s) = Inr (view t))"

lemma mapped_step_simps [simp]:
  "mapped_step abs_enabled abs_exec view None s t \<longleftrightarrow> view t = view s"
  "mapped_step abs_enabled abs_exec view (Some b) s t \<longleftrightarrow> abs_enabled b (view s) \<and> abs_exec b (view s) = Inr (view t)"
  by (simp_all add: mapped_step_def)

text \<open>\<open>call a s\<close> is the call that takes effect with the step \<open>a\<close> in the state \<open>s\<close>, if any.\<close>

locale refinement_mapping =
  fixes abs_init :: "'u \<Rightarrow> bool" and abs_enabled :: "'b \<Rightarrow> 'u \<Rightarrow> bool" and abs_exec :: "'b \<Rightarrow> 'u \<Rightarrow> 'u res"
    and init :: "'s \<Rightarrow> bool" and enabled :: "'a \<Rightarrow> 's \<Rightarrow> bool" and exec :: "'a \<Rightarrow> 's \<Rightarrow> 's res"
    and view :: "'s \<Rightarrow> 'u" and call :: "'a \<Rightarrow> 's \<Rightarrow> 'b option" and extra :: "'s \<Rightarrow> bool"
  assumes init_mapped: "init s \<Longrightarrow> abs_init (view s) \<and> extra s"
    and exec_mapped: "reach abs_init abs_enabled abs_exec (view s) \<Longrightarrow> extra s \<Longrightarrow> enabled a s \<Longrightarrow>
      returns (exec a s) (\<lambda>t. mapped_step abs_enabled abs_exec view (call a s) s t \<and> extra t)"
begin

lemma view_reach_step:
  "reach abs_init abs_enabled abs_exec (view s) \<Longrightarrow> mapped_step abs_enabled abs_exec view b s t \<Longrightarrow>
   reach abs_init abs_enabled abs_exec (view t)"
  by (cases b) (auto intro: reach_step)

lemma view_reach: "reach init enabled exec s \<Longrightarrow> reach abs_init abs_enabled abs_exec (view s) \<and> extra s"
proof (induction rule: reach.induct)
  case (reach_init s)
  with init_mapped show ?case by (blast intro: reach.reach_init)
next
  case (reach_step s a t)
  with exec_mapped [of s a] view_reach_step [of s "call a s" t] show ?case by simp
qed

text \<open>No step faults, and each is a call of the other system or none.\<close>

lemma step_mapped:
  "reach init enabled exec s \<Longrightarrow> enabled a s \<Longrightarrow>
   \<exists>t. exec a s = Inr t \<and> mapped_step abs_enabled abs_exec view (call a s) s t"
  using view_reach [of s] exec_mapped [of s a] by (auto simp: returns_iff)

text \<open>A run of atomic steps is a run of the calls that take effect in it, with the same outcome.\<close>

fun calls_of :: "'a list \<Rightarrow> 's \<Rightarrow> 'b list" where
  "calls_of [] s = []"
| "calls_of (a # as) s =
     (case exec a s of
        Inl _ \<Rightarrow> []
      | Inr t \<Rightarrow> (case call a s of None \<Rightarrow> [] | Some b \<Rightarrow> [b]) @ calls_of as t)"

lemma run_mapped:
  "exec_all enabled exec as s = Some t \<Longrightarrow> reach init enabled exec s \<Longrightarrow>
   exec_all abs_enabled abs_exec (calls_of as s) (view s) = Some (view t)"
proof (induction as arbitrary: s)
  case (Cons a as)
  then obtain u where u: "enabled a s" "exec a s = Inr u" "exec_all enabled exec as u = Some t"
    by (auto split: if_splits sum.splits)
  with Cons.prems(2) have "reach init enabled exec u" by (blast intro: reach_step)
  with Cons.IH [OF u(3)] step_mapped [OF Cons.prems(2) u(1)] u(2) show ?case
    by (cases "call a s") auto
qed simp

end

end
