(* ===== verification/Mpmc_Stream.thy ===== *)
theory Mpmc_Stream
  imports Mpmc_Arc Refinement_Mapping
begin

text \<open>
  The two streams of \<^verbatim>\<open>src/channel/mpmc.rs\<close>: \<open>ChannelStream\<close>, which borrows the channel, and
  \<open>SharedStream\<close> of the module \<open>shared\<close>, which owns a receiver. Any calls of other handles and
  futures run between the polls of a stream. The system of a shared stream refines that of a
  borrowing stream beside a receiver, poll by poll and with the drop at the end, and its futures
  take and give back their counted reference.
\<close>

section \<open>The borrowing stream\<close>

text \<open>
  A stream is pinned, the wait node of its future lives at an address inside it: a new future
  writes a fresh node there, dropping the future frees it.
\<close>

record channel_stream =
  cst_channel :: bool
  cst_future :: "receive_future option"

definition channel_stream_new :: channel_stream where
  "channel_stream_new = \<lparr>cst_channel = True, cst_future = None\<rparr>"

text \<open>Making the future of a stream if there is none, and dropping it.\<close>

definition stream_future ::
  "receive_future option \<Rightarrow> addr \<Rightarrow> ('b, 'v) channel \<Rightarrow> receive_future \<times> ('b, 'v) channel" where
  "stream_future fut a c =
     (case fut of
        Some f \<Rightarrow> (f, c)
      | None \<Rightarrow> (case channel_receive a of
          (f, node) \<Rightarrow> (f, c\<lparr>ch_recv_nodes := (ch_recv_nodes c)(a \<mapsto> node)\<rparr>)))"

definition stream_future_drop ::
  "('b, 'v) ring_buf_ops \<Rightarrow> addr \<Rightarrow> receive_future \<Rightarrow> ('b, 'v) channel \<Rightarrow> (waker list \<times> ('b, 'v) channel) res" where
  "stream_future_drop ops a f c =
     and_then (receive_future_drop (channel_receive_access ops) f c) (\<lambda>(w, c).
     Inr (w, c\<lparr>ch_recv_nodes := (ch_recv_nodes c)(a := None)\<rparr>))"

definition channel_stream_poll_next ::
  "('b, 'v) ring_buf_ops \<Rightarrow> addr \<Rightarrow> channel_stream \<Rightarrow> waker \<Rightarrow> ('b, 'v) channel \<Rightarrow>
   ('v option poll \<times> waker list \<times> channel_stream \<times> ('b, 'v) channel) res" where
  "channel_stream_poll_next ops a s cx c =
     (if cst_channel s
      then let s = s\<lparr>cst_channel := False\<rparr>; (fut, c) = stream_future (cst_future s) a c in
           and_then (receive_future_poll (channel_receive_access ops) fut cx c) (\<lambda>(poll, w, fut, c).
           let s = s\<lparr>cst_future := Some fut\<rparr> in
           case poll of
             Ready v \<Rightarrow>
               and_then (stream_future_drop ops a fut c) (\<lambda>(w', c).
               let s = s\<lparr>cst_future := None\<rparr> in
               case v of
                 None \<Rightarrow> Inr (poll, w @ w', s, c)
               | Some _ \<Rightarrow> Inr (poll, w @ w', s\<lparr>cst_channel := True\<rparr>, c))
           | Pending \<Rightarrow> Inr (poll, w, s\<lparr>cst_channel := True\<rparr>, c))
      else Inr (Ready None, [], s, c))"

definition channel_stream_is_terminated :: "channel_stream \<Rightarrow> bool" where
  "channel_stream_is_terminated s \<longleftrightarrow> \<not> cst_channel s"

text \<open>Dropping a stream drops the future it stores.\<close>

definition channel_stream_drop ::
  "('b, 'v) ring_buf_ops \<Rightarrow> addr \<Rightarrow> channel_stream \<Rightarrow> ('b, 'v) channel \<Rightarrow> (waker list \<times> ('b, 'v) channel) res" where
  "channel_stream_drop ops a s c =
     (case cst_future s of None \<Rightarrow> Inr ([], c) | Some f \<Rightarrow> stream_future_drop ops a f c)"

section \<open>The stream of a shared receiver\<close>

text \<open>
  The field \<open>receiver\<close> is the handle whose reference \<open>c\<close> is passed to the operations; a future that
  the stream stores owns a reference of its own.
\<close>

record shared_stream =
  sst_future :: "receive_future option"
  sst_is_terminated :: bool

definition shared_stream_new :: shared_stream where
  "shared_stream_new = \<lparr>sst_future = None, sst_is_terminated = False\<rparr>"

definition shared_stream_future ::
  "receive_future option \<Rightarrow> addr \<Rightarrow> ('b, 'v) shared_channel arc \<Rightarrow>
   (receive_future \<times> ('b, 'v) shared_channel arc) res" where
  "shared_stream_future fut a c =
     (case fut of
        Some f \<Rightarrow> Inr (f, c)
      | None \<Rightarrow> and_then (arc_receiver_receive a c) (\<lambda>(f, node, c).
          Inr (f, arc_set_recv_nodes ((arc_recv_nodes c)(a \<mapsto> node)) c)))"

definition shared_stream_future_drop ::
  "('b, 'v) ring_buf_ops \<Rightarrow> addr \<Rightarrow> receive_future \<Rightarrow> ('b, 'v) shared_channel arc \<Rightarrow>
   (waker list \<times> ('b, 'v) shared_channel arc) res" where
  "shared_stream_future_drop ops a f c =
     and_then (arc_receive_future_drop (shared_channel_receive_access ops) f c) (\<lambda>(w, c).
     Inr (w, arc_set_recv_nodes ((arc_recv_nodes c)(a := None)) c))"

definition shared_stream_poll_next ::
  "('b, 'v) ring_buf_ops \<Rightarrow> addr \<Rightarrow> shared_stream \<Rightarrow> waker \<Rightarrow> ('b, 'v) shared_channel arc \<Rightarrow>
   ('v option poll \<times> waker list \<times> shared_stream \<times> ('b, 'v) shared_channel arc) res" where
  "shared_stream_poll_next ops a s cx c =
     (if sst_is_terminated s then Inr (Ready None, [], s, c)
      else and_then (shared_stream_future (sst_future s) a c) (\<lambda>(fut, c).
           and_then (arc_receive_future_poll (shared_channel_receive_access ops) fut cx c) (\<lambda>(poll, w, fut, c).
           let s = s\<lparr>sst_future := Some fut\<rparr> in
           if is_ready poll
           then and_then (shared_stream_future_drop ops a fut c) (\<lambda>(w', c).
                let s = s\<lparr>sst_future := None\<rparr> in
                case poll of
                  Ready None \<Rightarrow> Inr (poll, w @ w', s\<lparr>sst_is_terminated := True\<rparr>, c)
                | _ \<Rightarrow> Inr (poll, w @ w', s, c))
           else Inr (poll, w, s, c))))"

definition shared_stream_is_terminated :: "shared_stream \<Rightarrow> bool" where
  "shared_stream_is_terminated s \<longleftrightarrow> sst_is_terminated s"

definition shared_stream_close ::
  "('b, 'v) shared_channel arc \<Rightarrow> (close_status \<times> waker list \<times> ('b, 'v) shared_channel arc) res" where
  "shared_stream_close c = arc_forward shared_channel_close c"

text \<open>The fields are dropped in their order: the receiver, then the future.\<close>

definition shared_stream_drop ::
  "('b, 'v) ring_buf_ops \<Rightarrow> addr \<Rightarrow> shared_stream \<Rightarrow> ('b, 'v) shared_channel arc \<Rightarrow>
   (waker list \<times> ('b, 'v) shared_channel arc) res" where
  "shared_stream_drop ops a s c =
     and_then (handle_drop (receiver_drop ops) c) (\<lambda>(w, c).
     case sst_future s of
       None \<Rightarrow> Inr (w, c)
     | Some f \<Rightarrow> and_then (shared_stream_future_drop ops a f c) (\<lambda>(w', c). Inr (w @ w', c)))"

section \<open>The systems\<close>

text \<open>
  A stream among the other handles and futures of its channel, and what its polls returned. The
  receiver of the stream counts as a handle, its future is the one at the address \<open>a\<close>. A shared
  stream is made of any receiver at any time, at an address that no future uses.
\<close>

datatype 'v stream_action =
    Str_Call "'v handle_action"
  | Str_Poll waker
  | Str_Close
  | Str_Drop

record ('b, 'v) stream_sys =
  tr_arc :: "('b, 'v) arc_sys"
  tr_stream :: "shared_stream option"
  tr_polls :: "'v option poll list"

definition stream_start :: "('b, 'v) ring_buf_ops \<Rightarrow> addr \<Rightarrow> addr \<Rightarrow> ('b, 'v) stream_sys \<Rightarrow> bool" where
  "stream_start ops p a s \<longleftrightarrow> arc_reachable ops p (tr_arc s) \<and> 0 < ac_receiver_handles (tr_arc s) \<and>
     ac_recvs (tr_arc s) a = None \<and> tr_stream s = Some shared_stream_new \<and> tr_polls s = []"

text \<open>While the stream lives, other calls leave its receiver and its future alone.\<close>

fun leaves_stream :: "addr \<Rightarrow> nat \<Rightarrow> 'v handle_action \<Rightarrow> bool" where
  "leaves_stream a n (Hd_Call (Ch_Receive b)) = (b \<noteq> a)"
| "leaves_stream a n (Hd_Call (Ch_Poll_Receive b cx)) = (b \<noteq> a)"
| "leaves_stream a n (Hd_Call (Ch_Drop_Receive b)) = (b \<noteq> a)"
| "leaves_stream a n Hd_Drop_Receiver = (1 < n)"
| "leaves_stream a n act = True"

fun stream_enabled :: "('b, 'v) ring_buf_ops \<Rightarrow> addr \<Rightarrow> 'v stream_action \<Rightarrow> ('b, 'v) stream_sys \<Rightarrow> bool" where
  "stream_enabled ops a (Str_Call act) s =
     (arc_enabled ops act (tr_arc s) \<and>
      (tr_stream s \<noteq> None \<longrightarrow> leaves_stream a (ac_receiver_handles (tr_arc s)) act))"
| "stream_enabled ops a (Str_Poll cx) s = (tr_stream s \<noteq> None \<and> unat (arc_strong (ac_arc (tr_arc s))) < 2 ^ 63)"
| "stream_enabled ops a Str_Close s = (tr_stream s \<noteq> None)"
| "stream_enabled ops a Str_Drop s = (tr_stream s \<noteq> None)"

abbreviation poll_items :: "'v option poll \<Rightarrow> 'v list" where
  "poll_items r \<equiv> (case r of Ready (Some v) \<Rightarrow> [v] | _ \<Rightarrow> [])"

fun stream_exec ::
  "('b, 'v) ring_buf_ops \<Rightarrow> addr \<Rightarrow> 'v stream_action \<Rightarrow> ('b, 'v) stream_sys \<Rightarrow> ('b, 'v) stream_sys res" where
  "stream_exec ops a (Str_Call act) s = and_then (arc_exec ops act (tr_arc s)) (\<lambda>h. Inr (s\<lparr>tr_arc := h\<rparr>))"
| "stream_exec ops a (Str_Poll cx) s =
     (let h = tr_arc s; st = the (tr_stream s) in
      and_then (shared_stream_poll_next ops a st cx (ac_arc h)) (\<lambda>(r, w, st, c).
      Inr (s\<lparr>tr_arc := h\<lparr>ac_arc := c, ac_recvs := (ac_recvs h)(a := sst_future st), ac_woken := ac_woken h @ w,
               ac_received := ac_received h @ poll_items r\<rparr>,
             tr_stream := Some st, tr_polls := tr_polls s @ [r]\<rparr>)))"
| "stream_exec ops a Str_Close s =
     (let h = tr_arc s in
      and_then (shared_stream_close (ac_arc h)) (\<lambda>(r, w, c).
      and_then (ll_is_empty (ch_send_waiters (ac_chan h))) (\<lambda>nobody.
      Inr (s\<lparr>tr_arc := h\<lparr>ac_arc := c, ac_woken := ac_woken h @ w, ac_intact := (ac_intact h \<and> nobody)\<rparr>\<rparr>))))"
| "stream_exec ops a Str_Drop s =
     (let h = tr_arc s; st = the (tr_stream s) in
      and_then (shared_stream_drop ops a st (ac_arc h)) (\<lambda>(w, c).
      Inr (s\<lparr>tr_arc := h\<lparr>ac_arc := c, ac_recvs := (ac_recvs h)(a := None), ac_woken := ac_woken h @ w,
               ac_intact := (ac_intact h \<and> ac_receiver_handles h \<noteq> 1),
               ac_receiver_handles := ac_receiver_handles h - 1\<rparr>,
             tr_stream := None\<rparr>)))"

abbreviation stream_reachable :: "('b, 'v) ring_buf_ops \<Rightarrow> addr \<Rightarrow> addr \<Rightarrow> ('b, 'v) stream_sys \<Rightarrow> bool" where
  "stream_reachable ops p a \<equiv> reach (stream_start ops p a) (stream_enabled ops a) (stream_exec ops a)"

text \<open>A borrowing stream beside a receiver that is dropped with it.\<close>

record ('b, 'v) borrow_sys =
  bw_sys :: "('b, 'v) handle_sys"
  bw_stream :: "channel_stream option"
  bw_polls :: "'v option poll list"

definition borrow_start :: "('b, 'v) ring_buf_ops \<Rightarrow> addr \<Rightarrow> ('b, 'v) borrow_sys \<Rightarrow> bool" where
  "borrow_start ops a s \<longleftrightarrow> handle_reachable ops (bw_sys s) \<and> 0 < hy_receiver_handles (bw_sys s) \<and>
     cy_recvs (hy_sys (bw_sys s)) a = None \<and> bw_stream s = Some channel_stream_new \<and> bw_polls s = []"

fun borrow_enabled :: "('b, 'v) ring_buf_ops \<Rightarrow> addr \<Rightarrow> 'v stream_action \<Rightarrow> ('b, 'v) borrow_sys \<Rightarrow> bool" where
  "borrow_enabled ops a (Str_Call act) s =
     (handle_enabled ops act (bw_sys s) \<and>
      (bw_stream s \<noteq> None \<longrightarrow> leaves_stream a (hy_receiver_handles (bw_sys s)) act))"
| "borrow_enabled ops a (Str_Poll cx) s = (bw_stream s \<noteq> None)"
| "borrow_enabled ops a Str_Close s = (bw_stream s \<noteq> None)"
| "borrow_enabled ops a Str_Drop s = (bw_stream s \<noteq> None)"

text \<open>What a poll and the drop of a borrowing stream do to the rest of the system.\<close>

definition borrow_put ::
  "addr \<Rightarrow> receive_future option \<Rightarrow> waker list \<Rightarrow> 'v list \<Rightarrow> ('b, 'v) channel \<Rightarrow> ('b, 'v) handle_sys \<Rightarrow> ('b, 'v) handle_sys" where
  "borrow_put a fut w vs ch h =
     h\<lparr>hy_sys := (hy_sys h)\<lparr>cy_chan := ch, cy_recvs := (cy_recvs (hy_sys h))(a := fut),
         cy_woken := cy_woken (hy_sys h) @ w, cy_received := cy_received (hy_sys h) @ vs\<rparr>\<rparr>"

fun borrow_exec ::
  "('b, 'v) ring_buf_ops \<Rightarrow> addr \<Rightarrow> 'v stream_action \<Rightarrow> ('b, 'v) borrow_sys \<Rightarrow> ('b, 'v) borrow_sys res" where
  "borrow_exec ops a (Str_Call act) s = and_then (handle_exec ops act (bw_sys s)) (\<lambda>h. Inr (s\<lparr>bw_sys := h\<rparr>))"
| "borrow_exec ops a (Str_Poll cx) s =
     (let h = bw_sys s; st = the (bw_stream s) in
      and_then (channel_stream_poll_next ops a st cx (cy_chan (hy_sys h))) (\<lambda>(r, w, st, ch).
      Inr (s\<lparr>bw_sys := borrow_put a (cst_future st) w (poll_items r) ch h, bw_stream := Some st,
             bw_polls := bw_polls s @ [r]\<rparr>)))"
| "borrow_exec ops a Str_Close s = and_then (handle_exec ops (Hd_Call Ch_Close) (bw_sys s)) (\<lambda>h. Inr (s\<lparr>bw_sys := h\<rparr>))"
| "borrow_exec ops a Str_Drop s =
     (let st = the (bw_stream s) in
      and_then (handle_exec ops Hd_Drop_Receiver (bw_sys s)) (\<lambda>h.
      and_then (channel_stream_drop ops a st (cy_chan (hy_sys h))) (\<lambda>(w, ch).
      Inr (s\<lparr>bw_sys := borrow_put a None w [] ch h, bw_stream := None\<rparr>))))"

abbreviation borrow_reachable :: "('b, 'v) ring_buf_ops \<Rightarrow> addr \<Rightarrow> ('b, 'v) borrow_sys \<Rightarrow> bool" where
  "borrow_reachable ops a \<equiv> reach (borrow_start ops a) (borrow_enabled ops a) (borrow_exec ops a)"

section \<open>The shared stream as a borrowing one\<close>

definition stream_abs :: "shared_stream \<Rightarrow> channel_stream" where
  "stream_abs s = \<lparr>cst_channel = (\<not> sst_is_terminated s), cst_future = sst_future s\<rparr>"

definition stream_view :: "('b, 'v) stream_sys \<Rightarrow> ('b, 'v) borrow_sys" where
  "stream_view s =
     \<lparr>bw_sys = ac_view (tr_arc s), bw_stream = map_option stream_abs (tr_stream s), bw_polls = tr_polls s\<rparr>"

text \<open>The stream has its receiver, and the future it stores is the one of the system and not terminated.\<close>

definition stream_ok :: "addr \<Rightarrow> shared_stream \<Rightarrow> ('b, 'v) arc_sys \<Rightarrow> bool" where
  "stream_ok a st h \<longleftrightarrow> 0 < ac_receiver_handles h \<and> ac_recvs h a = sst_future st \<and>
     (\<forall>f. sst_future st = Some f \<longrightarrow> \<not> shared_receive_future_is_terminated f)"

definition stream_extra :: "('b, 'v) ring_buf_ops \<Rightarrow> addr \<Rightarrow> ('b, 'v) stream_sys \<Rightarrow> bool" where
  "stream_extra ops a s \<longleftrightarrow> arc_inv ops (tr_arc s) \<and> (\<forall>st. tr_stream s = Some st \<longrightarrow> stream_ok a st (tr_arc s))"

definition stream_step ::
  "('b, 'v) ring_buf_ops \<Rightarrow> addr \<Rightarrow> 'v stream_action \<Rightarrow> ('b, 'v) stream_sys \<Rightarrow> ('b, 'v) stream_sys \<Rightarrow> bool" where
  "stream_step ops a act s t \<longleftrightarrow>
     mapped_step (borrow_enabled ops a) (borrow_exec ops a) stream_view (Some act) s t \<and> stream_extra ops a t"

context ring_buf
begin

text \<open>Other calls leave the stream alone.\<close>

lemma arc_exec_leaves_stream:
  assumes "arc_exec ops act h = Inr h'" "leaves_stream a (ac_receiver_handles h) act"
  shows "ac_recvs h' a = ac_recvs h a \<and> (0 < ac_receiver_handles h \<longrightarrow> 0 < ac_receiver_handles h')"
proof (cases act)
  case (Hd_Call call)
  with assms show ?thesis by (cases call) (auto simp: and_then_eq_Inr)
qed (use assms in \<open>auto simp: and_then_eq_Inr\<close>)

text \<open>The three things a stream does with its future, behind the reference and at the channel.\<close>

lemma stream_future_step:
  assumes inv: "arc_inv ops h" and handles: "0 < ac_receiver_handles h" and none: "ac_recvs h a = None"
    and room: "unat (arc_strong (ac_arc h)) < 2 ^ 63"
  obtains f c where "shared_stream_future None a (ac_arc h) = Inr (f, c)" "rf_channel f"
    "stream_future None a (ac_chan h) = (f, shc_channel (arc_inner c))"
    "shc_senders (arc_inner c) = shc_senders (arc_inner (ac_arc h))"
    "shc_receivers (arc_inner c) = shc_receivers (arc_inner (ac_arc h))"
    "arc_inv ops (h\<lparr>ac_arc := c, ac_recvs := (ac_recvs h)(a \<mapsto> f)\<rparr>)"
proof -
  note S = arc_invD [OF inv]
  from handle_reach_inv [OF S(1)] obtain V where V: "channel_sys_rep ops binv items (hy_sys (ac_view h)) V"
    by (auto simp: handle_inv_def channel_sys_inv_def)
  have "data_of (ch_recv_nodes (ac_chan h)) = cp_rd V"
    using channel_sys_repD(1) [OF V] by (simp add: channel_abs_def)
  moreover have "cp_rd V a = None"
    using channel_sys_repD(4) [OF V] none by (auto simp: recvs_ok_def)
  ultimately have "data_of (ch_recv_nodes (ac_chan h)) a = None" by simp
  then have "ch_recv_nodes (ac_chan h) a = None" by (simp add: data_of_def)
  then have "arc_enabled ops (Hd_Call (Ch_Receive a)) h" using handles room by (simp add: arc_enabled_def)
  from arc_exec_step [OF inv this] obtain t where t: "arc_exec ops (Hd_Call (Ch_Receive a)) h = Inr t" "arc_inv ops t"
    by (auto simp: returns_iff arc_step_def)
  then obtain c0 where c0: "arc_clone (ac_arc h) = Inr c0" by (auto simp: arc_receiver_receive_def and_then_eq_Inr)
  then have inner: "arc_inner c0 = arc_inner (ac_arc h)" by (auto simp: arc_clone_def and_then_eq_Inr split: if_splits)
  let ?f = "\<lparr>rf_channel = True, rf_wait_node = a\<rparr>"
  let ?c = "arc_set_recv_nodes ((arc_recv_nodes c0)(a \<mapsto> list_node_new recv_waiter_new)) c0"
  from t c0 have "arc_inv ops (h\<lparr>ac_arc := ?c, ac_recvs := (ac_recvs h)(a \<mapsto> ?f)\<rparr>)"
    by (simp add: arc_receiver_receive_def)
  with c0 inner show ?thesis
    by (intro that [of ?f ?c]) (simp_all add: shared_stream_future_def arc_receiver_receive_def stream_future_def channel_receive_def)
qed

lemma stream_poll_step:
  assumes inv: "arc_inv ops h" and f: "ac_recvs h a = Some f" "rf_channel f"
  shows "\<exists>r w f' c. arc_receive_future_poll (shared_channel_receive_access ops) f cx (ac_arc h) = Inr (r, w, f', c) \<and>
    receive_future_poll (channel_receive_access ops) f cx (ac_chan h) = Inr (r, w, f', shc_channel (arc_inner c)) \<and>
    (rf_channel f' \<longleftrightarrow> \<not> is_ready r) \<and>
    shc_senders (arc_inner c) = shc_senders (arc_inner (ac_arc h)) \<and>
    shc_receivers (arc_inner c) = shc_receivers (arc_inner (ac_arc h)) \<and>
    arc_inv ops (h\<lparr>ac_arc := c, ac_recvs := (ac_recvs h)(a \<mapsto> f'), ac_woken := ac_woken h @ w,
       ac_received := ac_received h @ poll_items r\<rparr>)"
proof -
  note S = arc_invD [OF inv]
  let ?act = "Hd_Call (Ch_Poll_Receive a cx)"
  have en: "arc_enabled ops ?act h" using f by (simp add: arc_enabled_def receive_future_is_terminated_def)
  from ac_run [OF inv en] obtain t' where "handle_exec ops ?act (ac_view h) = Inr t'" by blast
  with f obtain r w f' ch where
    poll: "receive_future_poll (channel_receive_access ops) f cx (ac_chan h) = Inr (r, w, f', ch)"
    by (auto simp: and_then_eq_Inr)
  have pos: "0 < ac_owners h" using owning_pos [where P = rf_channel, OF S(3) f] by (simp add: ac_owners_def)
  note run = arc_receive_poll_run [OF S(4) pos f(2) poll]
  from arc_exec_step [OF inv en] obtain t where t: "arc_exec ops ?act h = Inr t" "arc_inv ops t"
    by (auto simp: returns_iff arc_step_def)
  then obtain r\<^sub>0 w\<^sub>0 f\<^sub>0 c where
    "arc_receive_future_poll (shared_channel_receive_access ops) f cx (ac_arc h) = Inr (r\<^sub>0, w\<^sub>0, f\<^sub>0, c)"
    using f(1) by (auto simp: and_then_eq_Inr)
  then have c: "arc_receive_future_poll (shared_channel_receive_access ops) f cx (ac_arc h) = Inr (r, w, f', c)"
    "(if rf_channel f' then Inr ((ac_arc h)\<lparr>arc_inner := (arc_inner (ac_arc h))\<lparr>shc_channel := ch\<rparr>\<rparr>)
      else arc_drop ((ac_arc h)\<lparr>arc_inner := (arc_inner (ac_arc h))\<lparr>shc_channel := ch\<rparr>\<rparr>)) = Inr c"
    unfolding run(2) by (auto simp: and_then_eq_Inr split: if_splits)
  then have inner: "arc_inner c = (arc_inner (ac_arc h))\<lparr>shc_channel := ch\<rparr>"
    by (auto simp: arc_drop_def and_then_eq_Inr Let_def split: if_splits)
  with c(1) poll run(1) f t show ?thesis
    by (intro exI [of _ r] exI [of _ w] exI [of _ f'] exI [of _ c]) (auto split: poll.splits)
qed

lemma stream_drop_step:
  assumes inv: "arc_inv ops h" and f: "ac_recvs h a = Some f"
  shows "\<exists>w c. shared_stream_future_drop ops a f (ac_arc h) = Inr (w, c) \<and>
    stream_future_drop ops a f (ac_chan h) = Inr (w, shc_channel (arc_inner c)) \<and>
    shc_senders (arc_inner c) = shc_senders (arc_inner (ac_arc h)) \<and>
    shc_receivers (arc_inner c) = shc_receivers (arc_inner (ac_arc h)) \<and>
    arc_inv ops (h\<lparr>ac_arc := c, ac_recvs := (ac_recvs h)(a := None), ac_woken := ac_woken h @ w\<rparr>)"
proof -
  note S = arc_invD [OF inv]
  let ?act = "Hd_Call (Ch_Drop_Receive a)"
  have en: "arc_enabled ops ?act h" using f by (simp add: arc_enabled_def)
  from ac_run [OF inv en] obtain t' where "handle_exec ops ?act (ac_view h) = Inr t'" by blast
  with f obtain w ch where
    drop: "receive_future_drop (channel_receive_access ops) f (ac_chan h) = Inr (w, ch)"
    by (auto simp: and_then_eq_Inr)
  have pos: "arc_counts (ac_arc h) (ac_owners h) \<and> 0 < ac_owners h" if "rf_channel f"
    using owning_pos [where P = rf_channel, OF S(3) f that] S(4) by (simp add: ac_owners_def)
  note run = arc_receive_drop_run [OF pos drop]
  from arc_exec_step [OF inv en] obtain t where t: "arc_exec ops ?act h = Inr t" "arc_inv ops t"
    by (auto simp: returns_iff arc_step_def)
  then obtain w\<^sub>0 c where "arc_receive_future_drop (shared_channel_receive_access ops) f (ac_arc h) = Inr (w\<^sub>0, c)"
    using f by (auto simp: and_then_eq_Inr)
  then have c: "arc_receive_future_drop (shared_channel_receive_access ops) f (ac_arc h) = Inr (w, c)"
    "(if rf_channel f then arc_drop ((ac_arc h)\<lparr>arc_inner := (arc_inner (ac_arc h))\<lparr>shc_channel := ch\<rparr>\<rparr>)
      else Inr ((ac_arc h)\<lparr>arc_inner := (arc_inner (ac_arc h))\<lparr>shc_channel := ch\<rparr>\<rparr>)) = Inr c"
    by (auto simp: run and_then_eq_Inr split: if_splits)
  then have inner: "arc_inner c = (arc_inner (ac_arc h))\<lparr>shc_channel := ch\<rparr>"
    by (auto simp: arc_drop_def and_then_eq_Inr Let_def split: if_splits)
  let ?c = "arc_set_recv_nodes ((arc_recv_nodes c)(a := None)) c"
  from c(1) drop f t inner show ?thesis
    by (intro exI [of _ w] exI [of _ ?c]) (auto simp: shared_stream_future_drop_def stream_future_drop_def)
qed

text \<open>A poll of the shared stream is a poll of the borrowing one at the channel behind the reference.\<close>

lemma stream_poll_follows:
  assumes inv: "arc_inv ops h" and ok: "stream_ok a st h" and room: "unat (arc_strong (ac_arc h)) < 2 ^ 63"
  obtains r w st' c where "shared_stream_poll_next ops a st cx (ac_arc h) = Inr (r, w, st', c)"
    "channel_stream_poll_next ops a (stream_abs st) cx (ac_chan h) = Inr (r, w, stream_abs st', shc_channel (arc_inner c))"
    "shc_senders (arc_inner c) = shc_senders (arc_inner (ac_arc h))"
    "shc_receivers (arc_inner c) = shc_receivers (arc_inner (ac_arc h))"
    "\<forall>f. sst_future st' = Some f \<longrightarrow> \<not> shared_receive_future_is_terminated f"
    "arc_inv ops (h\<lparr>ac_arc := c, ac_recvs := (ac_recvs h)(a := sst_future st'), ac_woken := ac_woken h @ w,
       ac_received := ac_received h @ poll_items r\<rparr>)"
proof (cases "sst_is_terminated st")
  case True
  have "h\<lparr>ac_arc := ac_arc h, ac_recvs := (ac_recvs h)(a := sst_future st), ac_woken := ac_woken h @ [],
      ac_received := ac_received h @ []\<rparr> = h"
    using ok by (simp add: stream_ok_def fun_upd_idem)
  with True inv ok show ?thesis
    by (intro that [of "Ready None" "[]" st "ac_arc h"])
      (auto simp: shared_stream_poll_next_def channel_stream_poll_next_def stream_abs_def stream_ok_def)
next
  case False
  obtain f c where made: "shared_stream_future (sst_future st) a (ac_arc h) = Inr (f, c)" "rf_channel f"
    "stream_future (sst_future st) a (ac_chan h) = (f, shc_channel (arc_inner c))"
    "shc_senders (arc_inner c) = shc_senders (arc_inner (ac_arc h))"
    "shc_receivers (arc_inner c) = shc_receivers (arc_inner (ac_arc h))"
    "arc_inv ops (h\<lparr>ac_arc := c, ac_recvs := (ac_recvs h)(a \<mapsto> f)\<rparr>)"
  proof (cases "sst_future st")
    case None
    with ok have "ac_recvs h a = None" "0 < ac_receiver_handles h" by (simp_all add: stream_ok_def)
    with stream_future_step [OF inv _ _ room] None that show ?thesis by metis
  next
    case (Some f)
    with ok have f: "ac_recvs h a = Some f" "rf_channel f"
      by (auto simp: stream_ok_def shared_receive_future_is_terminated_def)
    then have "h\<lparr>ac_arc := ac_arc h, ac_recvs := (ac_recvs h)(a \<mapsto> f)\<rparr> = h" by (simp add: fun_upd_idem)
    with Some f inv show ?thesis
      by (intro that [of f "ac_arc h"]) (simp_all add: shared_stream_future_def stream_future_def)
  qed
  let ?h1 = "h\<lparr>ac_arc := c, ac_recvs := (ac_recvs h)(a \<mapsto> f)\<rparr>"
  have "ac_recvs ?h1 a = Some f" by simp
  from stream_poll_step [OF made(6) this made(2), of cx] obtain r w f' c' where
    poll: "arc_receive_future_poll (shared_channel_receive_access ops) f cx c = Inr (r, w, f', c')"
      "receive_future_poll (channel_receive_access ops) f cx (shc_channel (arc_inner c)) = Inr (r, w, f', shc_channel (arc_inner c'))"
      "rf_channel f' \<longleftrightarrow> \<not> is_ready r"
      "shc_senders (arc_inner c') = shc_senders (arc_inner c)" "shc_receivers (arc_inner c') = shc_receivers (arc_inner c)"
      "arc_inv ops (?h1\<lparr>ac_arc := c', ac_recvs := (ac_recvs ?h1)(a \<mapsto> f'), ac_woken := ac_woken ?h1 @ w,
         ac_received := ac_received ?h1 @ poll_items r\<rparr>)" (is "arc_inv ops ?h2")
    by auto
  show ?thesis
  proof (cases r)
    case Pending
    with poll made False show ?thesis
      by (intro that [of Pending w "st\<lparr>sst_future := Some f'\<rparr>" c'])
        (auto simp: shared_stream_poll_next_def channel_stream_poll_next_def stream_abs_def Let_def
          shared_receive_future_is_terminated_def)
  next
    case (Ready v)
    have "ac_recvs ?h2 a = Some f'" by simp
    from stream_drop_step [OF poll(6) this] obtain w' c'' where
      drop: "shared_stream_future_drop ops a f' c' = Inr (w', c'')"
        "stream_future_drop ops a f' (shc_channel (arc_inner c')) = Inr (w', shc_channel (arc_inner c''))"
        "shc_senders (arc_inner c'') = shc_senders (arc_inner c')" "shc_receivers (arc_inner c'') = shc_receivers (arc_inner c')"
        "arc_inv ops (?h2\<lparr>ac_arc := c'', ac_recvs := (ac_recvs ?h2)(a := None), ac_woken := ac_woken ?h2 @ w'\<rparr>)"
      by auto
    let ?st = "st\<lparr>sst_future := None, sst_is_terminated := (v = None)\<rparr>"
    have "shared_stream_poll_next ops a st cx (ac_arc h) = Inr (Ready v, w @ w', ?st, c'')"
      using made(1) poll(1) drop(1) False Ready
      by (cases st; cases v) (simp_all add: shared_stream_poll_next_def Let_def)
    moreover have "channel_stream_poll_next ops a (stream_abs st) cx (ac_chan h) =
        Inr (Ready v, w @ w', stream_abs ?st, shc_channel (arc_inner c''))"
      using made(3) poll(2) drop(2) False Ready
      by (cases st; cases v) (simp_all add: channel_stream_poll_next_def stream_abs_def Let_def)
    moreover have "arc_inv ops (h\<lparr>ac_arc := c'', ac_recvs := (ac_recvs h)(a := None), ac_woken := ac_woken h @ w @ w',
        ac_received := ac_received h @ poll_items (Ready v)\<rparr>)"
      using drop(5) Ready by (cases h) simp
    ultimately show ?thesis
      using poll(4,5) made(4,5) drop(3,4) by (intro that [of "Ready v" "w @ w'" ?st c'']) simp_all
  qed
qed

text \<open>Every step of the system is that of the borrowing stream.\<close>

lemma stream_call_follows:
  assumes extra: "stream_extra ops a s" and en: "stream_enabled ops a (Str_Call act) s"
  shows "returns (stream_exec ops a (Str_Call act) s) (stream_step ops a (Str_Call act) s)"
proof -
  from extra en have inv: "arc_inv ops (tr_arc s)" and act: "arc_enabled ops act (tr_arc s)"
    by (simp_all add: stream_extra_def)
  from arc_exec_step [OF inv act] obtain h where
    h: "arc_exec ops act (tr_arc s) = Inr h" "arc_inv ops h" "handle_exec ops act (ac_view (tr_arc s)) = Inr (ac_view h)"
    by (auto simp: returns_iff arc_step_def)
  have "stream_ok a st h" if "tr_stream s = Some st" for st
    using that extra en arc_exec_leaves_stream [OF h(1)] by (auto simp: stream_extra_def stream_ok_def)
  moreover have "borrow_enabled ops a (Str_Call act) (stream_view s)"
    using en by (auto simp: arc_enabled_def stream_view_def)
  ultimately show ?thesis
    using h by (simp add: stream_step_def stream_extra_def stream_view_def del: arc_exec.simps handle_exec.simps)
qed

lemma stream_poll_next_follows:
  assumes extra: "stream_extra ops a s" and en: "stream_enabled ops a (Str_Poll cx) s"
  shows "returns (stream_exec ops a (Str_Poll cx) s) (stream_step ops a (Str_Poll cx) s)"
proof -
  from en obtain st where st: "tr_stream s = Some st" "unat (arc_strong (ac_arc (tr_arc s))) < 2 ^ 63" by auto
  with extra have inv: "arc_inv ops (tr_arc s)" and ok: "stream_ok a st (tr_arc s)" by (simp_all add: stream_extra_def)
  let ?h = "tr_arc s"
  from stream_poll_follows [OF inv ok st(2), of cx] obtain r w st' c where
    run: "shared_stream_poll_next ops a st cx (ac_arc ?h) = Inr (r, w, st', c)"
      "channel_stream_poll_next ops a (stream_abs st) cx (ac_chan ?h) = Inr (r, w, stream_abs st', shc_channel (arc_inner c))"
      "shc_senders (arc_inner c) = shc_senders (arc_inner (ac_arc ?h))"
      "shc_receivers (arc_inner c) = shc_receivers (arc_inner (ac_arc ?h))"
      "\<forall>f. sst_future st' = Some f \<longrightarrow> \<not> shared_receive_future_is_terminated f"
      "arc_inv ops (?h\<lparr>ac_arc := c, ac_recvs := (ac_recvs ?h)(a := sst_future st'), ac_woken := ac_woken ?h @ w,
         ac_received := ac_received ?h @ poll_items r\<rparr>)" (is "arc_inv ops ?h'") .
  have "borrow_put a (cst_future (stream_abs st')) w (poll_items r) (shc_channel (arc_inner c)) (ac_view ?h) = ac_view ?h'"
    using run(3,4) by (simp add: borrow_put_def ac_view_def stream_abs_def)
  moreover have "stream_ok a st' ?h'" using ok run(5) by (simp add: stream_ok_def)
  ultimately show ?thesis
    using run(1,2,6) st(1) by (simp add: stream_step_def stream_extra_def stream_view_def Let_def)
qed

lemma stream_close_follows:
  assumes extra: "stream_extra ops a s" and en: "stream_enabled ops a Str_Close s"
  shows "returns (stream_exec ops a Str_Close s) (stream_step ops a Str_Close s)"
proof -
  from en obtain st where st: "tr_stream s = Some st" by auto
  with extra have inv: "arc_inv ops (tr_arc s)" and ok: "stream_ok a st (tr_arc s)" by (simp_all add: stream_extra_def)
  then have "arc_enabled ops (Hd_Call Ch_Close) (tr_arc s)" by (simp add: arc_enabled_def stream_ok_def)
  from arc_exec_step [OF inv this] obtain h where
    h: "arc_exec ops (Hd_Call Ch_Close) (tr_arc s) = Inr h" "arc_inv ops h"
      "handle_exec ops (Hd_Call Ch_Close) (ac_view (tr_arc s)) = Inr (ac_view h)"
    by (auto simp: returns_iff arc_step_def)
  have "stream_exec ops a Str_Close s = and_then (arc_exec ops (Hd_Call Ch_Close) (tr_arc s)) (\<lambda>h. Inr (s\<lparr>tr_arc := h\<rparr>))"
    by (simp add: shared_stream_close_def and_then_def Let_def split: sum.splits)
  moreover have "stream_ok a st h" using ok h(1) by (auto simp: stream_ok_def and_then_eq_Inr)
  ultimately show ?thesis
    using h st by (simp add: stream_step_def stream_extra_def stream_view_def del: arc_exec.simps handle_exec.simps stream_exec.simps)
qed

lemma stream_drop_follows:
  assumes extra: "stream_extra ops a s" and en: "stream_enabled ops a Str_Drop s"
  shows "returns (stream_exec ops a Str_Drop s) (stream_step ops a Str_Drop s)"
proof -
  from en obtain st where st: "tr_stream s = Some st" by auto
  with extra have inv: "arc_inv ops (tr_arc s)" and ok: "stream_ok a st (tr_arc s)" by (simp_all add: stream_extra_def)
  let ?h = "tr_arc s"
  from ok have "arc_enabled ops Hd_Drop_Receiver ?h" by (simp add: arc_enabled_def stream_ok_def)
  from arc_exec_step [OF inv this] obtain h where
    h: "arc_exec ops Hd_Drop_Receiver ?h = Inr h" "arc_inv ops h"
      "handle_exec ops Hd_Drop_Receiver (ac_view ?h) = Inr (ac_view h)"
    by (auto simp: returns_iff arc_step_def)
  then obtain w c where c: "handle_drop (receiver_drop ops) (ac_arc ?h) = Inr (w, c)"
    and h': "h = ?h\<lparr>ac_arc := c, ac_woken := ac_woken ?h @ w, ac_intact := (ac_intact ?h \<and> ac_receiver_handles ?h \<noteq> 1),
      ac_receiver_handles := ac_receiver_handles ?h - 1\<rparr>"
    by (auto simp: and_then_eq_Inr)
  have fut: "ac_recvs h a = sst_future st" using ok h' by (simp add: stream_ok_def)
  have ends: "returns (stream_exec ops a Str_Drop s) (stream_step ops a Str_Drop s)"
    if "shared_stream_drop ops a st (ac_arc ?h) = Inr (w @ w', c')"
      "channel_stream_drop ops a (stream_abs st) (ac_chan h) = Inr (w', shc_channel (arc_inner c'))"
      "shc_senders (arc_inner c') = shc_senders (arc_inner c)" "shc_receivers (arc_inner c') = shc_receivers (arc_inner c)"
      "arc_inv ops (h\<lparr>ac_arc := c', ac_recvs := (ac_recvs h)(a := None), ac_woken := ac_woken h @ w'\<rparr>)" for w' c'
  proof -
    let ?h' = "?h\<lparr>ac_arc := c', ac_recvs := (ac_recvs ?h)(a := None), ac_woken := ac_woken ?h @ w @ w',
      ac_intact := (ac_intact ?h \<and> ac_receiver_handles ?h \<noteq> 1), ac_receiver_handles := ac_receiver_handles ?h - 1\<rparr>"
    have same: "h\<lparr>ac_arc := c', ac_recvs := (ac_recvs h)(a := None), ac_woken := ac_woken h @ w'\<rparr> = ?h'"
      unfolding h' by (cases ?h) simp
    have "borrow_put a None w' [] (shc_channel (arc_inner c')) (ac_view h) = ac_view ?h'"
      using that(3,4) by (simp add: borrow_put_def ac_view_def h')
    with that same h(3) st show ?thesis
      by (simp add: stream_step_def stream_extra_def stream_view_def Let_def del: handle_exec.simps)
  qed
  show ?thesis
  proof (cases "sst_future st")
    case None
    moreover have "h\<lparr>ac_arc := c, ac_recvs := (ac_recvs h)(a := None), ac_woken := ac_woken h @ []\<rparr> = h"
      using fut None h' by (simp add: fun_upd_idem)
    ultimately show ?thesis
      using c h(2) h' by (intro ends [of "[]" c]) (simp_all add: shared_stream_drop_def channel_stream_drop_def stream_abs_def)
  next
    case (Some f)
    from stream_drop_step [OF h(2)] fut Some obtain w' c' where
      "shared_stream_future_drop ops a f (ac_arc h) = Inr (w', c')"
      "stream_future_drop ops a f (ac_chan h) = Inr (w', shc_channel (arc_inner c'))"
      "shc_senders (arc_inner c') = shc_senders (arc_inner (ac_arc h))"
      "shc_receivers (arc_inner c') = shc_receivers (arc_inner (ac_arc h))"
      "arc_inv ops (h\<lparr>ac_arc := c', ac_recvs := (ac_recvs h)(a := None), ac_woken := ac_woken h @ w'\<rparr>)" by metis
    with Some c h' show ?thesis
      by (intro ends [of w' c']) (simp_all add: shared_stream_drop_def channel_stream_drop_def stream_abs_def)
  qed
qed

lemma stream_exec_follows:
  assumes "stream_extra ops a s" "stream_enabled ops a act s"
  shows "returns (stream_exec ops a act s) (stream_step ops a act s)"
  using assms(2) stream_call_follows [OF assms(1)] stream_poll_next_follows [OF assms(1)] stream_close_follows [OF assms(1)]
    stream_drop_follows [OF assms(1)]
  by (cases act) blast+

end

sublocale ring_buf \<subseteq> strs: refinement_mapping "borrow_start ops a" "borrow_enabled ops a" "borrow_exec ops a"
    "stream_start ops p a" "stream_enabled ops a" "stream_exec ops a" stream_view "\<lambda>act s. Some act" "stream_extra ops a"
  for p a
proof unfold_locales
  fix s :: "('b, 'a) stream_sys"
  assume s: "stream_start ops p a s"
  then have inv: "arc_inv ops (tr_arc s)" by (auto simp: stream_start_def intro: arc_reach_inv)
  from s arc_invD(1) [OF inv] have "borrow_start ops a (stream_view s)"
    by (simp add: stream_start_def borrow_start_def stream_view_def stream_abs_def shared_stream_new_def channel_stream_new_def)
  moreover from s inv have "stream_extra ops a s"
    by (simp add: stream_extra_def stream_ok_def stream_start_def shared_stream_new_def)
  ultimately show "borrow_start ops a (stream_view s) \<and> stream_extra ops a s" by blast
next
  fix s :: "('b, 'a) stream_sys" and act
  assume "stream_extra ops a s" "stream_enabled ops a act s"
  from stream_exec_follows [OF this] show "returns (stream_exec ops a act s)
      (\<lambda>t. mapped_step (borrow_enabled ops a) (borrow_exec ops a) stream_view (Some act) s t \<and> stream_extra ops a t)"
    by (simp add: stream_step_def [abs_def])
qed

context ring_buf
begin

lemma stream_view_reach:
  "stream_reachable ops p a s \<Longrightarrow> borrow_reachable ops a (stream_view s) \<and> stream_extra ops a s"
  by (rule strs.view_reach)

lemma stream_step_mapped:
  "stream_reachable ops p a s \<Longrightarrow> stream_enabled ops a act s \<Longrightarrow> \<exists>t. stream_exec ops a act s = Inr t \<and>
     mapped_step (borrow_enabled ops a) (borrow_exec ops a) stream_view (Some act) s t"
  by (rule strs.step_mapped)

end

section \<open>The two streams are equivalent\<close>

text \<open>
  C40: a shared stream behaves as a borrowing stream beside a receiver. In every run, with any calls
  of other handles and futures between its polls, the same polls return the same results, wake the
  same tasks and leave the channel in the same state, also when the stream is closed and dropped, and
  no call faults: behind the reference every state of the one system is a state of the other, every
  step the same step. While the stream lives, the future it stores is not terminated and owns a
  reference, and the channel is alive; the channel is freed exactly when the last handle, stream and
  unfinished future is gone.
\<close>

theorem streams_equivalent:
  assumes "ring_buf ops binv items" "stream_reachable ops p a s"
  shows "borrow_reachable ops a (stream_view s) \<and>
    (stream_enabled ops a act s \<longrightarrow> (\<exists>t. stream_exec ops a act s = Inr t \<and>
       borrow_enabled ops a act (stream_view s) \<and> borrow_exec ops a act (stream_view s) = Inr (stream_view t))) \<and>
    (\<forall>st. tr_stream s = Some st \<longrightarrow> arc_alive (ac_arc (tr_arc s)) \<and> ac_recvs (tr_arc s) a = sst_future st \<and>
       (\<forall>f. sst_future st = Some f \<longrightarrow> \<not> shared_receive_future_is_terminated f)) \<and>
    (arc_alive (ac_arc (tr_arc s)) \<longleftrightarrow> 0 < ac_sender_handles (tr_arc s) \<or> 0 < ac_receiver_handles (tr_arc s) \<or>
       (\<exists>b f. ac_sends (tr_arc s) b = Some f \<and> sdf_channel f) \<or> (\<exists>b f. ac_recvs (tr_arc s) b = Some f \<and> rf_channel f))"
proof -
  from ring_buf.stream_view_reach [OF assms] have view: "borrow_reachable ops a (stream_view s)" and
    extra: "stream_extra ops a s" by simp_all
  then have "arc_inv ops (tr_arc s)" by (simp add: stream_extra_def)
  from ac_alive_iff [OF this] view extra ring_buf.stream_step_mapped [OF assms, of act] show ?thesis
    by (auto simp: stream_extra_def stream_ok_def simp del: stream_exec.simps borrow_exec.simps)
qed

text \<open>
  A run for the witness: the first poll of the stream registers its waker, a send wakes it, the second
  poll returns the value and the third leaves a new future in the stream.
\<close>

lemmas stream_eval =
  shared_stream_new_def shared_stream_future_def shared_stream_future_drop_def shared_stream_poll_next_def
  arc_receive_future_drop_def shared_receive_future_drop_def receive_future_drop_def arc_sender_send_def
  arc_send_future_poll_def shared_send_future_poll_def arc_send_access_def shared_channel_send_access_def
  arc_set_send_nodes_def

abbreviation stream_demo_acts :: "nat stream_action list" where
  "stream_demo_acts \<equiv>
     [Str_Poll (Waker 2 0), Str_Call (Hd_Call (Ch_Send 1 7)), Str_Call (Hd_Call (Ch_Poll_Send 1 (Waker 1 0))),
      Str_Poll (Waker 2 0), Str_Poll (Waker 2 1)]"

lemma stream_demo_run:
  "\<exists>h s :: (nat fixed_heap_buf, nat) stream_sys. arc_sys_new fixed_heap_buf_ops 9 1 = Inr (tr_arc h) \<and>
     0 < ac_receiver_handles (tr_arc h) \<and> ac_recvs (tr_arc h) 2 = None \<and> tr_stream h = Some shared_stream_new \<and>
     tr_polls h = [] \<and>
     exec_all (stream_enabled fixed_heap_buf_ops 2) (stream_exec fixed_heap_buf_ops 2) stream_demo_acts h = Some s \<and>
     tr_polls s = [Pending, Ready (Some 7), Pending] \<and> ac_woken (tr_arc s) = [Waker 2 0] \<and>
     tr_stream s = Some \<lparr>sst_future = Some \<lparr>rf_channel = True, rf_wait_node = 2\<rparr>, sst_is_terminated = False\<rparr>"
  by (rule exI [of _ "\<lparr>tr_arc = case arc_sys_new fixed_heap_buf_ops 9 1 of Inr h \<Rightarrow> h, tr_stream = Some shared_stream_new, tr_polls = []\<rparr>"])
    (simp add: arc_eval channel_eval ll_eval stream_eval Let_def)

theorem streams_equivalent_witness:
  "\<exists>s t :: (nat fixed_heap_buf, nat) stream_sys.
     tr_polls s = [Pending, Ready (Some 7), Pending] \<and> arc_alive (ac_arc (tr_arc s)) \<and>
     ac_recvs (tr_arc s) 2 = Some \<lparr>rf_channel = True, rf_wait_node = 2\<rparr> \<and>
     borrow_reachable fixed_heap_buf_ops 2 (stream_view s) \<and> stream_exec fixed_heap_buf_ops 2 Str_Drop s = Inr t \<and>
     borrow_exec fixed_heap_buf_ops 2 Str_Drop (stream_view s) = Inr (stream_view t)"
proof -
  from stream_demo_run obtain h s :: "(nat fixed_heap_buf, nat) stream_sys" where
    h: "arc_sys_new fixed_heap_buf_ops 9 1 = Inr (tr_arc h)" "0 < ac_receiver_handles (tr_arc h)"
      "ac_recvs (tr_arc h) 2 = None" "tr_stream h = Some shared_stream_new" "tr_polls h = []" and
    s: "exec_all (stream_enabled fixed_heap_buf_ops 2) (stream_exec fixed_heap_buf_ops 2) stream_demo_acts h = Some s"
      "tr_polls s = [Pending, Ready (Some 7), Pending]"
      "tr_stream s = Some \<lparr>sst_future = Some \<lparr>rf_channel = True, rf_wait_node = 2\<rparr>, sst_is_terminated = False\<rparr>"
    by blast
  from h have "stream_start fixed_heap_buf_ops 9 2 h" unfolding stream_start_def by (blast intro: reach_init)
  then have "stream_reachable fixed_heap_buf_ops 9 2 s" by (rule exec_all_reach [OF s(1) reach_init])
  note same = streams_equivalent [OF fixed_ring.ring_buf_axioms this, of Str_Drop]
  from s(3) have "stream_enabled fixed_heap_buf_ops 2 Str_Drop s" by simp
  with same obtain t where "stream_exec fixed_heap_buf_ops 2 Str_Drop s = Inr t"
    "borrow_exec fixed_heap_buf_ops 2 Str_Drop (stream_view s) = Inr (stream_view t)" by blast
  with same s(2,3) show ?thesis by (intro exI [of _ s] exI [of _ t]) simp
qed

end
