(* ===== verification/Mpmc_Races.thy ===== *)
theory Mpmc_Races
  imports Mpmc_Shared Refinement_Mapping
begin

text \<open>
  Races between the handles of the shared module of \<^verbatim>\<open>src/channel/mpmc.rs\<close>. Dropping a handle is
  not one critical section: it decrements a counter, and the last one closes the channel under its
  lock and, if it is a receiver, clears the buffer under the lock once more. Between these steps
  every other call can run. This theory has one action per atomic step and shows when a drop takes
  effect: at one moment, its decrement, if it is not the last; when it closes the channel if it is
  the last of a sender. The last receiver takes effect at two moments, when it closes the channel
  and when it clears the buffer, and what runs between them can tell.
\<close>

section \<open>The atomic steps of a drop\<close>

text \<open>\<open>fetch_sub\<close>: whether this was the last handle.\<close>

definition sender_count_down :: "('b, 'v) shared_channel \<Rightarrow> bool \<times> ('b, 'v) shared_channel" where
  "sender_count_down c = (shc_senders c = 1, c\<lparr>shc_senders := shc_senders c - 1\<rparr>)"

definition receiver_count_down :: "('b, 'v) shared_channel \<Rightarrow> bool \<times> ('b, 'v) shared_channel" where
  "receiver_count_down c = (shc_receivers c = 1, c\<lparr>shc_receivers := shc_receivers c - 1\<rparr>)"

definition receiver_clear ::
  "('b, 'v) ring_buf_ops \<Rightarrow> ('b, 'v) shared_channel \<Rightarrow> ('b, 'v) shared_channel res" where
  "receiver_clear ops c =
     and_then (channel_clear ops (shc_channel c)) (\<lambda>ch. Inr (c\<lparr>shc_channel := ch\<rparr>))"

text \<open>One after the other, without a call in between, they are the drop of the handle.\<close>

lemma sender_drop_steps:
  "sender_drop c =
     (case sender_count_down c of (is_last, c) \<Rightarrow>
        if is_last then and_then (shared_channel_close c) (\<lambda>(_, w, c). Inr (w, c)) else Inr ([], c))"
  by (auto simp: sender_drop_def sender_count_down_def shared_channel_close_def and_then_def Let_def split: sum.splits)

lemma receiver_drop_steps:
  "receiver_drop ops c =
     (case receiver_count_down c of (is_last, c) \<Rightarrow>
        if is_last then and_then (shared_channel_close c) (\<lambda>(_, w, c).
          and_then (receiver_clear ops c) (\<lambda>c. Inr (w, c)))
        else Inr ([], c))"
  by (auto simp: receiver_drop_def receiver_count_down_def shared_channel_close_def receiver_clear_def
      and_then_def Let_def split: sum.splits)

section \<open>The system\<close>

text \<open>
  Which steps the drop of the last sender and of the last receiver still have to make. There is at
  most one of each: without a handle nobody can clone one. The counts of handles are those that
  have not begun to drop.
\<close>

datatype receiver_stage = Rs_Quiet | Rs_Closing | Rs_Clearing

record ('b, 'v) race_sys =
  rs_sys :: "('b, 'v) handle_sys"
  rs_sender_closing :: bool
  rs_receiver_stage :: receiver_stage

datatype 'v race_action =
    Rc_Call "'v channel_action"
  | Rc_Clone_Sender
  | Rc_Clone_Receiver
  | Rc_Count_Sender
  | Rc_Close_Sender
  | Rc_Count_Receiver
  | Rc_Close_Receiver
  | Rc_Clear_Receiver

definition race_start :: "('b, 'v) ring_buf_ops \<Rightarrow> usize \<Rightarrow> ('b, 'v) race_sys" where
  "race_start ops capacity =
     \<lparr>rs_sys = handle_start ops capacity, rs_sender_closing = False, rs_receiver_stage = Rs_Quiet\<rparr>"

fun race_enabled :: "('b, 'v) ring_buf_ops \<Rightarrow> 'v race_action \<Rightarrow> ('b, 'v) race_sys \<Rightarrow> bool" where
  "race_enabled ops (Rc_Call act) s = handle_enabled ops (Hd_Call act) (rs_sys s)"
| "race_enabled ops Rc_Clone_Sender s = handle_enabled ops Hd_Clone_Sender (rs_sys s)"
| "race_enabled ops Rc_Clone_Receiver s = handle_enabled ops Hd_Clone_Receiver (rs_sys s)"
| "race_enabled ops Rc_Count_Sender s = (0 < hy_sender_handles (rs_sys s))"
| "race_enabled ops Rc_Close_Sender s = rs_sender_closing s"
| "race_enabled ops Rc_Count_Receiver s = (0 < hy_receiver_handles (rs_sys s))"
| "race_enabled ops Rc_Close_Receiver s = (rs_receiver_stage s = Rs_Closing)"
| "race_enabled ops Rc_Clear_Receiver s = (rs_receiver_stage s = Rs_Clearing)"

text \<open>
  \<open>race_put\<close> stores a channel and the wakers it woke; \<open>intact\<close> is the record of the past that
  \<open>channel_exec\<close> keeps.
\<close>

definition race_put :: "('b, 'v) shared_channel \<Rightarrow> waker list \<Rightarrow> bool \<Rightarrow> ('b, 'v) handle_sys \<Rightarrow> ('b, 'v) handle_sys" where
  "race_put c w intact s =
     (let s = handle_put c s in
      s\<lparr>hy_sys := (hy_sys s)\<lparr>cy_woken := cy_woken (hy_sys s) @ w, cy_intact := (cy_intact (hy_sys s) \<and> intact)\<rparr>\<rparr>)"

fun race_exec ::
  "('b, 'v) ring_buf_ops \<Rightarrow> 'v race_action \<Rightarrow> ('b, 'v) race_sys \<Rightarrow> ('b, 'v) race_sys res" where
  "race_exec ops (Rc_Call act) s = and_then (handle_exec ops (Hd_Call act) (rs_sys s)) (\<lambda>h. Inr (s\<lparr>rs_sys := h\<rparr>))"
| "race_exec ops Rc_Clone_Sender s = and_then (handle_exec ops Hd_Clone_Sender (rs_sys s)) (\<lambda>h. Inr (s\<lparr>rs_sys := h\<rparr>))"
| "race_exec ops Rc_Clone_Receiver s = and_then (handle_exec ops Hd_Clone_Receiver (rs_sys s)) (\<lambda>h. Inr (s\<lparr>rs_sys := h\<rparr>))"
| "race_exec ops Rc_Count_Sender s =
     (case sender_count_down (handle_view (rs_sys s)) of (is_last, c) \<Rightarrow>
        and_then (ll_is_empty (ch_send_waiters (cy_chan (hy_sys (rs_sys s))))) (\<lambda>nobody.
        Inr (s\<lparr>rs_sys := (race_put c [] (is_last \<or> nobody) (rs_sys s))
                 \<lparr>hy_sender_handles := hy_sender_handles (rs_sys s) - 1\<rparr>,
               rs_sender_closing := (rs_sender_closing s \<or> is_last)\<rparr>)))"
| "race_exec ops Rc_Close_Sender s =
     and_then (shared_channel_close (handle_view (rs_sys s))) (\<lambda>(_, w, c).
     and_then (ll_is_empty (ch_send_waiters (cy_chan (hy_sys (rs_sys s))))) (\<lambda>nobody.
     Inr (s\<lparr>rs_sys := race_put c w nobody (rs_sys s), rs_sender_closing := False\<rparr>)))"
| "race_exec ops Rc_Count_Receiver s =
     (case receiver_count_down (handle_view (rs_sys s)) of (is_last, c) \<Rightarrow>
        Inr (s\<lparr>rs_sys := (race_put c [] True (rs_sys s))\<lparr>hy_receiver_handles := hy_receiver_handles (rs_sys s) - 1\<rparr>,
               rs_receiver_stage := (if is_last then Rs_Closing else rs_receiver_stage s)\<rparr>))"
| "race_exec ops Rc_Close_Receiver s =
     and_then (shared_channel_close (handle_view (rs_sys s))) (\<lambda>(_, w, c).
     and_then (ll_is_empty (ch_send_waiters (cy_chan (hy_sys (rs_sys s))))) (\<lambda>nobody.
     Inr (s\<lparr>rs_sys := race_put c w nobody (rs_sys s), rs_receiver_stage := Rs_Clearing\<rparr>)))"
| "race_exec ops Rc_Clear_Receiver s =
     and_then (receiver_clear ops (handle_view (rs_sys s))) (\<lambda>c.
     Inr (s\<lparr>rs_sys := race_put c [] False (rs_sys s), rs_receiver_stage := Rs_Quiet\<rparr>))"

abbreviation race_reachable :: "('b, 'v) ring_buf_ops \<Rightarrow> ('b, 'v) race_sys \<Rightarrow> bool" where
  "race_reachable ops \<equiv>
     reach (\<lambda>s. \<exists>capacity. s = race_start ops capacity) (race_enabled ops) (race_exec ops)"

section \<open>The last receiver leaves in two moments\<close>

text \<open>
  What the callers see. The drop of a sender, or of a receiver that is not the last, is the one step
  it is in \<open>handle_exec\<close>. The last receiver leaves in two: it gives up its handle and closes the
  channel, and it drops the items that are buffered then. \<open>lv_leaving\<close> holds between the two, where
  the channel is closed but need not be empty and every other call can run.
\<close>

record ('b, 'v) leave_sys =
  lv_sys :: "('b, 'v) handle_sys"
  lv_leaving :: bool

datatype 'v leave_action =
    Lv_Handle "'v handle_action"
  | Lv_Last_Receiver_Closes
  | Lv_Last_Receiver_Clears

definition leave_start :: "('b, 'v) ring_buf_ops \<Rightarrow> usize \<Rightarrow> ('b, 'v) leave_sys" where
  "leave_start ops capacity = \<lparr>lv_sys = handle_start ops capacity, lv_leaving = False\<rparr>"

fun leave_enabled :: "('b, 'v) ring_buf_ops \<Rightarrow> 'v leave_action \<Rightarrow> ('b, 'v) leave_sys \<Rightarrow> bool" where
  "leave_enabled ops (Lv_Handle act) s =
     (handle_enabled ops act (lv_sys s) \<and> (act = Hd_Drop_Receiver \<longrightarrow> hy_receiver_handles (lv_sys s) \<noteq> 1))"
| "leave_enabled ops Lv_Last_Receiver_Closes s = (hy_receiver_handles (lv_sys s) = 1)"
| "leave_enabled ops Lv_Last_Receiver_Clears s = lv_leaving s"

fun leave_exec ::
  "('b, 'v) ring_buf_ops \<Rightarrow> 'v leave_action \<Rightarrow> ('b, 'v) leave_sys \<Rightarrow> ('b, 'v) leave_sys res" where
  "leave_exec ops (Lv_Handle act) s = and_then (handle_exec ops act (lv_sys s)) (\<lambda>h. Inr (s\<lparr>lv_sys := h\<rparr>))"
| "leave_exec ops Lv_Last_Receiver_Closes s =
     and_then (shared_channel_close (snd (receiver_count_down (handle_view (lv_sys s))))) (\<lambda>(_, w, c).
     and_then (ll_is_empty (ch_send_waiters (cy_chan (hy_sys (lv_sys s))))) (\<lambda>nobody.
     Inr (s\<lparr>lv_sys := (race_put c w nobody (lv_sys s))\<lparr>hy_receiver_handles := 0\<rparr>, lv_leaving := True\<rparr>)))"
| "leave_exec ops Lv_Last_Receiver_Clears s =
     and_then (receiver_clear ops (handle_view (lv_sys s))) (\<lambda>c.
     Inr (s\<lparr>lv_sys := race_put c [] False (lv_sys s), lv_leaving := False\<rparr>))"

abbreviation leave_reachable :: "('b, 'v) ring_buf_ops \<Rightarrow> ('b, 'v) leave_sys \<Rightarrow> bool" where
  "leave_reachable ops \<equiv>
     reach (\<lambda>s. \<exists>capacity. s = leave_start ops capacity) (leave_enabled ops) (leave_exec ops)"

text \<open>With nothing between them, the two moments are the drop of the last receiver.\<close>

lemma last_receiver_leaves:
  assumes "hy_receiver_handles (lv_sys s) = 1" "hy_receivers (lv_sys s) = 1" "\<not> lv_leaving s"
    "ll_is_empty (ch_send_waiters (cy_chan (hy_sys (lv_sys s)))) = Inr nobody"
  shows "and_then (leave_exec ops Lv_Last_Receiver_Closes s) (leave_exec ops Lv_Last_Receiver_Clears) =
    and_then (handle_exec ops Hd_Drop_Receiver (lv_sys s)) (\<lambda>h. Inr (s\<lparr>lv_sys := h\<rparr>))"
  using assms
  by (auto simp: receiver_drop_def receiver_count_down_def shared_channel_close_def receiver_clear_def race_put_def
      handle_view_def handle_put_def and_then_def Let_def split: sum.splits)

text \<open>The invariant of the handles, but for the items that the last receiver has not dropped yet.\<close>

definition leave_inv ::
  "('b, 'v) ring_buf_ops \<Rightarrow> ('b \<Rightarrow> bool) \<Rightarrow> ('b \<Rightarrow> 'v list) \<Rightarrow> ('b, 'v) leave_sys \<Rightarrow> bool" where
  "leave_inv ops binv items s \<longleftrightarrow> channel_sys_inv ops binv items (hy_sys (lv_sys s)) \<and>
     unat (hy_senders (lv_sys s)) = hy_sender_handles (lv_sys s) \<and> hy_sender_handles (lv_sys s) \<le> 2 ^ 63 \<and>
     unat (hy_receivers (lv_sys s)) = hy_receiver_handles (lv_sys s) \<and> hy_receiver_handles (lv_sys s) \<le> 2 ^ 63 \<and>
     (hy_sender_handles (lv_sys s) = 0 \<longrightarrow> ch_is_closed (cy_chan (hy_sys (lv_sys s)))) \<and>
     (hy_receiver_handles (lv_sys s) = 0 \<longrightarrow> ch_is_closed (cy_chan (hy_sys (lv_sys s)))) \<and>
     (hy_receiver_handles (lv_sys s) = 0 \<longrightarrow> \<not> lv_leaving s \<longrightarrow> items (ch_buffer (cy_chan (hy_sys (lv_sys s)))) = []) \<and>
     (lv_leaving s \<longrightarrow> hy_receiver_handles (lv_sys s) = 0)"

lemma leave_inv_handle: "\<not> lv_leaving s \<Longrightarrow> leave_inv ops binv items s \<longleftrightarrow> handle_inv ops binv items (lv_sys s)"
  by (auto simp: leave_inv_def handle_inv_def)

text \<open>While it leaves, its handle may as well count: the calls that can run do not look at receivers.\<close>

definition leave_raise :: "('b, 'v) handle_sys \<Rightarrow> ('b, 'v) handle_sys" where
  "leave_raise h = h\<lparr>hy_receivers := 1, hy_receiver_handles := 1\<rparr>"

lemma leave_raise_simps [simp]:
  "hy_sys (leave_raise h) = hy_sys h" "hy_senders (leave_raise h) = hy_senders h"
  "hy_sender_handles (leave_raise h) = hy_sender_handles h"
  "hy_receivers (leave_raise h) = 1" "hy_receiver_handles (leave_raise h) = 1"
  by (simp_all add: leave_raise_def)

lemma leave_raise_exec:
  assumes "handle_enabled ops act h" "hy_receiver_handles h = 0"
  shows "handle_enabled ops act (leave_raise h)"
    and "handle_exec ops act h = Inr h' \<Longrightarrow> handle_exec ops act (leave_raise h) = Inr (leave_raise h')"
    and "handle_exec ops act (leave_raise h) = Inr h'' \<Longrightarrow>
      \<exists>h'. handle_exec ops act h = Inr h' \<and> h'' = leave_raise h' \<and> hy_receivers h' = hy_receivers h \<and> hy_receiver_handles h' = 0"
  using assms
  by (cases act; auto simp: leave_raise_def handle_view_def handle_put_def sender_clone_def sender_drop_def Let_def
      and_then_eq_Inr split: if_splits elim!: handle_needs.elims)+

context ring_buf
begin

lemma handle_exec_stays_closed:
  assumes "channel_sys_inv ops binv items (hy_sys h)" "handle_enabled ops act h" "act \<noteq> Hd_Drop_Receiver"
    "handle_exec ops act h = Inr h'" "ch_is_closed (cy_chan (hy_sys h))"
  shows "ch_is_closed (cy_chan (hy_sys h'))"
proof (cases act)
  case (Hd_Call a)
  with assms channel_exec_stays_closed [OF assms(1), of a] show ?thesis
    by (auto simp: stays_closed_def and_then_eq_Inr)
qed (use assms in \<open>auto simp: sender_clone_def receiver_clone_def sender_drop_def handle_view_def handle_put_def Let_def
      channel_close_def and_then_eq_Inr split: if_splits\<close>)

lemma leave_handle_preserves:
  assumes inv: "leave_inv ops binv items s" and enabled: "leave_enabled ops (Lv_Handle act) s"
  shows "returns (leave_exec ops (Lv_Handle act) s) (leave_inv ops binv items)"
proof (cases "lv_leaving s")
  case False
  with inv have "handle_inv ops binv items (lv_sys s)" by (simp add: leave_inv_handle)
  from handle_exec_preserves [OF this, of act] enabled obtain h where
    "handle_exec ops act (lv_sys s) = Inr h" "handle_inv ops binv items h"
    by (auto simp: returns_iff simp del: handle_exec.simps)
  with False show ?thesis by (simp add: leave_inv_handle del: handle_exec.simps)
next
  case True
  let ?h = "lv_sys s"
  from True inv have z: "hy_receiver_handles ?h = 0" "hy_receivers ?h = 0" "ch_is_closed (cy_chan (hy_sys ?h))"
    and raised: "handle_inv ops binv items (leave_raise ?h)"
    by (auto simp: leave_inv_def handle_inv_def unat_eq_0)
  from enabled have e: "handle_enabled ops act ?h" by simp
  note raise = leave_raise_exec [OF e z(1)]
  from handle_exec_preserves [OF raised raise(1)] obtain h'' where
    h'': "handle_exec ops act (leave_raise ?h) = Inr h''" "handle_inv ops binv items h''"
    by (auto simp: returns_iff)
  from raise(3) [OF h''(1)] obtain h' where
    h': "handle_exec ops act ?h = Inr h'" "h'' = leave_raise h'" "hy_receivers h' = hy_receivers ?h" "hy_receiver_handles h' = 0"
    by blast
  have "act \<noteq> Hd_Drop_Receiver" using e z by auto
  from handle_exec_stays_closed [OF _ e this h'(1) z(3)] inv have "ch_is_closed (cy_chan (hy_sys h'))"
    by (simp add: leave_inv_def)
  with h' h''(2) z(2) True show ?thesis
    by (simp add: leave_inv_def handle_inv_def del: handle_exec.simps)
qed

lemma leave_last_preserves:
  assumes inv: "leave_inv ops binv items s"
  shows "leave_enabled ops Lv_Last_Receiver_Closes s \<Longrightarrow>
      returns (leave_exec ops Lv_Last_Receiver_Closes s) (leave_inv ops binv items)"
    and "leave_enabled ops Lv_Last_Receiver_Clears s \<Longrightarrow>
      returns (leave_exec ops Lv_Last_Receiver_Clears s) (leave_inv ops binv items)"
proof -
  from inv have sinv: "channel_sys_inv ops binv items (hy_sys (lv_sys s))" by (simp add: leave_inv_def)
  assume "leave_enabled ops Lv_Last_Receiver_Closes s"
  with inv have "unat (hy_receivers (lv_sys s)) = 1" by (simp add: leave_inv_def)
  then have "hy_receivers (lv_sys s) = 1" by (simp add: word_unat_eq_iff)
  with channel_close_sys_inv [OF sinv] inv
  show "returns (leave_exec ops Lv_Last_Receiver_Closes s) (leave_inv ops binv items)"
    by (auto simp: receiver_count_down_def shared_channel_close_def race_put_def handle_view_def handle_put_def leave_inv_def
        Let_def returns_iff)
next
  from inv have sinv: "channel_sys_inv ops binv items (hy_sys (lv_sys s))" by (simp add: leave_inv_def)
  assume "leave_enabled ops Lv_Last_Receiver_Clears s"
  with inv have closed: "ch_is_closed (cy_chan (hy_sys (lv_sys s)))" by (simp add: leave_inv_def)
  have "channel_sys_inv ops binv items ((hy_sys (lv_sys s))\<lparr>cy_chan := c, cy_intact := False\<rparr>)"
    if "\<forall>ws. channel_sys_inv ops binv items ((hy_sys (lv_sys s))\<lparr>cy_chan := c, cy_woken := ws, cy_intact := False\<rparr>)" for c
    using that [THEN spec, of "cy_woken (hy_sys (lv_sys s))"] by simp
  with channel_clear_sys_inv [OF ring_buf_axioms sinv closed] inv
  show "returns (leave_exec ops Lv_Last_Receiver_Clears s) (leave_inv ops binv items)"
    by (fastforce simp: receiver_clear_def race_put_def handle_view_def handle_put_def leave_inv_def Let_def returns_iff)
qed

lemma leave_exec_preserves:
  assumes "leave_inv ops binv items s" "leave_enabled ops act s"
  shows "returns (leave_exec ops act s) (leave_inv ops binv items)"
  using assms(2) leave_handle_preserves [OF assms(1)] leave_last_preserves [OF assms(1)]
  by (cases act) (auto simp del: leave_exec.simps leave_enabled.simps)

lemma leave_start_inv: "leave_inv ops binv items (leave_start ops capacity)"
  using handle_start_inv by (simp add: leave_inv_handle leave_start_def)

end

sublocale ring_buf \<subseteq> lvs: transition_system "\<lambda>s. \<exists>capacity. s = leave_start ops capacity"
    "leave_enabled ops" "leave_exec ops" "leave_inv ops binv items"
  by unfold_locales (auto simp: leave_start_inv simp del: leave_exec.simps leave_enabled.simps
      intro: leave_exec_preserves)

context ring_buf
begin

lemma leave_reach_inv: "leave_reachable ops s \<Longrightarrow> leave_inv ops binv items s"
  by (rule lvs.reach_inv)

lemma leave_runs: "leave_reachable ops s \<Longrightarrow> leave_enabled ops act s \<Longrightarrow> \<exists>t. leave_exec ops act s = Inr t"
  using lvs.no_fault by blast

end

section \<open>Where a drop takes effect\<close>

text \<open>
  A sender's handle counts until it has closed the channel. So does that of the last receiver; while
  it has the items still to drop, it is leaving.
\<close>

definition race_view :: "('b, 'v) race_sys \<Rightarrow> ('b, 'v) leave_sys" where
  "race_view s =
     (let h = rs_sys s; x = (if rs_sender_closing s then 1 else 0); y = (if rs_receiver_stage s = Rs_Closing then 1 else 0) in
      \<lparr>lv_sys = h\<lparr>hy_senders := hy_senders h + of_nat x, hy_receivers := hy_receivers h + of_nat y,
         hy_sender_handles := hy_sender_handles h + x, hy_receiver_handles := hy_receiver_handles h + y\<rparr>,
       lv_leaving = (rs_receiver_stage s = Rs_Clearing)\<rparr>)"

definition race_extra :: "('b, 'v) race_sys \<Rightarrow> bool" where
  "race_extra s \<longleftrightarrow>
     (rs_sender_closing s \<longrightarrow> hy_sender_handles (rs_sys s) = 0) \<and>
     (rs_receiver_stage s \<noteq> Rs_Quiet \<longrightarrow> hy_receiver_handles (rs_sys s) = 0)"

definition race_inv :: "('b, 'v) ring_buf_ops \<Rightarrow> ('b, 'v) race_sys \<Rightarrow> bool" where
  "race_inv ops s \<longleftrightarrow> leave_reachable ops (race_view s) \<and> race_extra s"

text \<open>What takes effect with a step.\<close>

fun race_call :: "'v race_action \<Rightarrow> ('b, 'v) race_sys \<Rightarrow> 'v leave_action option" where
  "race_call (Rc_Call act) s = Some (Lv_Handle (Hd_Call act))"
| "race_call Rc_Clone_Sender s = Some (Lv_Handle Hd_Clone_Sender)"
| "race_call Rc_Clone_Receiver s = Some (Lv_Handle Hd_Clone_Receiver)"
| "race_call Rc_Count_Sender s = (if hy_senders (rs_sys s) = 1 then None else Some (Lv_Handle Hd_Drop_Sender))"
| "race_call Rc_Close_Sender s = Some (Lv_Handle Hd_Drop_Sender)"
| "race_call Rc_Count_Receiver s = (if hy_receivers (rs_sys s) = 1 then None else Some (Lv_Handle Hd_Drop_Receiver))"
| "race_call Rc_Close_Receiver s = Some Lv_Last_Receiver_Closes"
| "race_call Rc_Clear_Receiver s = Some Lv_Last_Receiver_Clears"

definition race_step ::
  "('b, 'v) ring_buf_ops \<Rightarrow> 'v race_action \<Rightarrow> ('b, 'v) race_sys \<Rightarrow> ('b, 'v) race_sys \<Rightarrow> bool" where
  "race_step ops act s t \<longleftrightarrow>
     mapped_step (leave_enabled ops) (leave_exec ops) race_view (race_call act s) s t \<and> race_extra t"

lemma race_view_chan [simp]: "hy_sys (lv_sys (race_view s)) = hy_sys (rs_sys s)"
  by (simp add: race_view_def Let_def)

lemma race_follows:
  assumes "leave_enabled ops b (race_view s)" "race_call act s = Some b" "leave_exec ops b (race_view s) = Inr (race_view t)"
    and "rs_sender_closing t \<longrightarrow> hy_sender_handles (rs_sys t) = 0"
    and "rs_receiver_stage t \<noteq> Rs_Quiet \<longrightarrow> hy_receiver_handles (rs_sys t) = 0"
  shows "race_step ops act s t"
  using assms by (simp add: race_step_def race_extra_def del: leave_enabled.simps leave_exec.simps)

lemma race_stutters:
  assumes "race_call act s = None" "race_view t = race_view s"
    and "rs_sender_closing t \<longrightarrow> hy_sender_handles (rs_sys t) = 0"
    and "rs_receiver_stage t \<noteq> Rs_Quiet \<longrightarrow> hy_receiver_handles (rs_sys t) = 0"
  shows "race_step ops act s t"
  using assms by (simp add: race_step_def race_extra_def)

context ring_buf
begin

lemma race_counts:
  assumes "race_inv ops s"
  shows "0 < hy_sender_handles (rs_sys s) \<Longrightarrow> \<not> rs_sender_closing s \<and> unat (hy_senders (rs_sys s)) = hy_sender_handles (rs_sys s)"
    and "0 < hy_receiver_handles (rs_sys s) \<Longrightarrow> rs_receiver_stage s = Rs_Quiet \<and>
      unat (hy_receivers (rs_sys s)) = hy_receiver_handles (rs_sys s)"
    and "channel_sys_inv ops binv items (hy_sys (rs_sys s))"
  using assms leave_reach_inv [of "race_view s"]
  by (auto simp: race_inv_def race_extra_def leave_inv_def race_view_def Let_def split: if_splits)

lemma race_nobody:
  assumes "race_inv ops s"
  obtains nobody where "ll_is_empty (ch_send_waiters (cy_chan (hy_sys (rs_sys s)))) = Inr nobody"
  using channel_close_sys_inv [OF race_counts(3) [OF assms]] by (auto simp: returns_iff)

text \<open>Every atomic step is a step of the system of whole calls, or none.\<close>

lemma race_call_follows:
  assumes inv: "race_inv ops s" and enabled: "race_enabled ops (Rc_Call act) s"
  shows "returns (race_exec ops (Rc_Call act) s) (race_step ops (Rc_Call act) s)"
proof -
  from enabled have e: "leave_enabled ops (Lv_Handle (Hd_Call act)) (race_view s)"
    by (cases act) (auto simp: race_view_def Let_def)
  from inv have "leave_reachable ops (race_view s)" by (simp add: race_inv_def)
  from leave_runs [OF this e] obtain t where t: "channel_exec ops act (hy_sys (rs_sys s)) = Inr t"
    by (auto simp: and_then_eq_Inr)
  with race_follows [OF e, of "Rc_Call act" "s\<lparr>rs_sys := (rs_sys s)\<lparr>hy_sys := t\<rparr>\<rparr>"] inv show ?thesis
    by (simp add: race_view_def race_inv_def race_extra_def Let_def)
qed

lemma race_clone_follows:
  assumes inv: "race_inv ops s" and enabled: "race_enabled ops act s" and act: "act = Rc_Clone_Sender \<or> act = Rc_Clone_Receiver"
  shows "returns (race_exec ops act s) (race_step ops act s)"
  using act
proof
  assume a: "act = Rc_Clone_Sender"
  with enabled race_counts(1) [OF inv] have s: "\<not> rs_sender_closing s"
    "leave_enabled ops (Lv_Handle Hd_Clone_Sender) (race_view s)"
    "hy_senders (lv_sys (race_view s)) = hy_senders (rs_sys s)"
    by (auto simp: race_view_def Let_def)
  with leave_runs [of "race_view s" "Lv_Handle Hd_Clone_Sender"] inv have "\<not> hy_senders (rs_sys s) > isize_max"
    by (auto simp: race_inv_def sender_clone_def handle_view_def Let_def and_then_eq_Inr split: if_splits)
  with s inv a show ?thesis
    by (auto simp: sender_clone_def handle_view_def handle_put_def race_view_def race_inv_def race_extra_def Let_def
        intro!: race_follows [OF s(2)])
next
  assume a: "act = Rc_Clone_Receiver"
  with enabled race_counts(2) [OF inv] have s: "rs_receiver_stage s = Rs_Quiet"
    "leave_enabled ops (Lv_Handle Hd_Clone_Receiver) (race_view s)"
    "hy_receivers (lv_sys (race_view s)) = hy_receivers (rs_sys s)"
    by (auto simp: race_view_def Let_def)
  with leave_runs [of "race_view s" "Lv_Handle Hd_Clone_Receiver"] inv have "\<not> hy_receivers (rs_sys s) > isize_max"
    by (auto simp: race_inv_def receiver_clone_def handle_view_def Let_def and_then_eq_Inr split: if_splits)
  with s inv a show ?thesis
    by (auto simp: receiver_clone_def handle_view_def handle_put_def race_view_def race_inv_def race_extra_def Let_def
        intro!: race_follows [OF s(2)])
qed

lemma race_sender_follows:
  assumes inv: "race_inv ops s"
  shows "race_enabled ops Rc_Count_Sender s \<Longrightarrow> returns (race_exec ops Rc_Count_Sender s) (race_step ops Rc_Count_Sender s)"
    and "race_enabled ops Rc_Close_Sender s \<Longrightarrow> returns (race_exec ops Rc_Close_Sender s) (race_step ops Rc_Close_Sender s)"
proof -
  obtain nobody where n: "ll_is_empty (ch_send_waiters (cy_chan (hy_sys (rs_sys s)))) = Inr nobody"
    by (rule race_nobody [OF inv])
  {
    assume "race_enabled ops Rc_Count_Sender s"
    with race_counts(1) [OF inv] have s: "0 < hy_sender_handles (rs_sys s)" "\<not> rs_sender_closing s"
      "unat (hy_senders (rs_sys s)) = hy_sender_handles (rs_sys s)" by simp_all
    then have e: "leave_enabled ops (Lv_Handle Hd_Drop_Sender) (race_view s)" by (simp add: race_view_def Let_def)
    show "returns (race_exec ops Rc_Count_Sender s) (race_step ops Rc_Count_Sender s)"
    proof (cases "hy_senders (rs_sys s) = 1")
      case True
      with s(3) have "hy_sender_handles (rs_sys s) = 1" by simp
      with True n s inv show ?thesis
        by (auto simp: sender_count_down_def handle_view_def race_put_def handle_put_def race_view_def race_inv_def race_extra_def
            Let_def intro!: race_stutters)
    next
      case False
      with n s inv show ?thesis
        by (auto simp: sender_count_down_def sender_drop_def handle_view_def race_put_def handle_put_def race_view_def
            race_inv_def race_extra_def Let_def intro!: race_follows [OF e])
    qed
  next
    assume c: "race_enabled ops Rc_Close_Sender s"
    with inv have z: "hy_sender_handles (rs_sys s) = 0" by (simp add: race_inv_def race_extra_def)
    from c have e: "leave_enabled ops (Lv_Handle Hd_Drop_Sender) (race_view s)" by (simp add: race_view_def Let_def)
    have "unat (hy_senders (lv_sys (race_view s))) = hy_sender_handles (lv_sys (race_view s))"
      using inv leave_reach_inv [of "race_view s"] by (simp add: race_inv_def leave_inv_def)
    with c z have "hy_senders (lv_sys (race_view s)) = 1" "hy_senders (rs_sys s) = 0"
      by (auto simp: race_view_def Let_def usize_plus_one)
    moreover from channel_close_sys_inv [OF race_counts(3) [OF inv]] obtain st w ch where
      "channel_close (cy_chan (hy_sys (rs_sys s))) = Inr (st, w, ch)" "ch_is_closed ch"
      by (auto simp: returns_iff)
    ultimately show "returns (race_exec ops Rc_Close_Sender s) (race_step ops Rc_Close_Sender s)"
      using c z n inv
      by (auto simp: shared_channel_close_def sender_drop_def handle_view_def race_put_def handle_put_def race_view_def
          race_inv_def race_extra_def Let_def intro!: race_follows [OF e])
  }
qed

lemma race_receiver_follows:
  assumes inv: "race_inv ops s"
  shows "race_enabled ops Rc_Count_Receiver s \<Longrightarrow> returns (race_exec ops Rc_Count_Receiver s) (race_step ops Rc_Count_Receiver s)"
    and "race_enabled ops Rc_Close_Receiver s \<Longrightarrow> returns (race_exec ops Rc_Close_Receiver s) (race_step ops Rc_Close_Receiver s)"
proof -
  assume "race_enabled ops Rc_Count_Receiver s"
  with race_counts(2) [OF inv] have s: "0 < hy_receiver_handles (rs_sys s)" "rs_receiver_stage s = Rs_Quiet"
    "unat (hy_receivers (rs_sys s)) = hy_receiver_handles (rs_sys s)" by simp_all
  show "returns (race_exec ops Rc_Count_Receiver s) (race_step ops Rc_Count_Receiver s)"
  proof (cases "hy_receivers (rs_sys s) = 1")
    case True
    with s(3) have "hy_receiver_handles (rs_sys s) = 1" by simp
    with True s inv show ?thesis
      by (auto simp: receiver_count_down_def handle_view_def race_put_def handle_put_def race_view_def race_inv_def race_extra_def
          Let_def intro!: race_stutters)
  next
    case False
    then have "hy_receiver_handles (rs_sys s) \<noteq> 1" using s(3) by (simp add: word_unat_eq_iff)
    with s have e: "leave_enabled ops (Lv_Handle Hd_Drop_Receiver) (race_view s)" by (simp add: race_view_def Let_def)
    from False \<open>hy_receiver_handles (rs_sys s) \<noteq> 1\<close> s inv show ?thesis
      by (auto simp: receiver_count_down_def receiver_drop_def handle_view_def race_put_def handle_put_def race_view_def
          race_inv_def race_extra_def Let_def intro!: race_follows [OF e])
  qed
next
  assume c: "race_enabled ops Rc_Close_Receiver s"
  with inv have z: "hy_receiver_handles (rs_sys s) = 0" by (simp add: race_inv_def race_extra_def)
  with c have e: "leave_enabled ops Lv_Last_Receiver_Closes (race_view s)" by (simp add: race_view_def Let_def)
  obtain nobody where n: "ll_is_empty (ch_send_waiters (cy_chan (hy_sys (rs_sys s)))) = Inr nobody"
    by (rule race_nobody [OF inv])
  from channel_close_sys_inv [OF race_counts(3) [OF inv]] obtain st w ch where
    "channel_close (cy_chan (hy_sys (rs_sys s))) = Inr (st, w, ch)"
    by (auto simp: returns_iff)
  with c z n inv show "returns (race_exec ops Rc_Close_Receiver s) (race_step ops Rc_Close_Receiver s)"
    by (auto simp: shared_channel_close_def receiver_count_down_def handle_view_def race_put_def handle_put_def race_view_def
        race_inv_def race_extra_def Let_def intro!: race_follows [OF e])
qed

lemma race_clear_follows:
  assumes inv: "race_inv ops s" and c: "race_enabled ops Rc_Clear_Receiver s"
  shows "returns (race_exec ops Rc_Clear_Receiver s) (race_step ops Rc_Clear_Receiver s)"
proof -
  from c inv have z: "hy_receiver_handles (rs_sys s) = 0" by (simp add: race_inv_def race_extra_def)
  from c have e: "leave_enabled ops Lv_Last_Receiver_Clears (race_view s)" by (simp add: race_view_def Let_def)
  from leave_runs [OF _ e] inv obtain ch where "channel_clear ops (cy_chan (hy_sys (rs_sys s))) = Inr ch"
    by (auto simp: race_inv_def receiver_clear_def handle_view_def and_then_eq_Inr)
  with c z inv show ?thesis
    by (auto simp: receiver_clear_def handle_view_def race_put_def handle_put_def race_view_def race_inv_def race_extra_def
        Let_def intro!: race_follows [OF e])
qed

lemma race_exec_follows:
  assumes "race_inv ops s" "race_enabled ops act s"
  shows "returns (race_exec ops act s) (race_step ops act s)"
  using assms(2) race_call_follows [OF assms(1)] race_clone_follows [OF assms]
    race_sender_follows [OF assms(1)] race_receiver_follows [OF assms(1)] race_clear_follows [OF assms(1)]
  by (cases act) (auto simp del: race_exec.simps race_enabled.simps)

end

sublocale ring_buf \<subseteq> rcs: refinement_mapping "\<lambda>s. \<exists>capacity. s = leave_start ops capacity" "leave_enabled ops"
    "leave_exec ops" "\<lambda>s. \<exists>capacity. s = race_start ops capacity" "race_enabled ops" "race_exec ops" race_view race_call race_extra
proof unfold_locales
  fix s :: "('b, 'a) race_sys" and act
  assume "leave_reachable ops (race_view s)" "race_extra s" "race_enabled ops act s"
  then show "returns (race_exec ops act s)
      (\<lambda>t. mapped_step (leave_enabled ops) (leave_exec ops) race_view (race_call act s) s t \<and> race_extra t)"
    using race_exec_follows [of s act]
    by (auto simp: race_inv_def race_step_def simp del: race_exec.simps race_enabled.simps elim!: returns_mono)
qed (auto simp: race_extra_def race_start_def leave_start_def race_view_def)

context ring_buf
begin

lemma race_view_reach: "race_reachable ops s \<Longrightarrow> leave_reachable ops (race_view s)"
  using rcs.view_reach by blast

lemma race_step_mapped: "race_reachable ops s \<Longrightarrow> race_enabled ops act s \<Longrightarrow>
    \<exists>t. race_exec ops act s = Inr t \<and> mapped_step (leave_enabled ops) (leave_exec ops) race_view (race_call act s) s t"
  by (rule rcs.step_mapped)

end

section \<open>When drops take effect\<close>

text \<open>
  C11: whatever the interleaving of the atomic steps of concurrent drops with each other and with
  all other calls, a caller sees every drop of a sender, and of a receiver that is not the last, take
  effect at one moment, and the drop of the last receiver at two: when it closes the channel and when
  it drops the items that are buffered at that time. Each step is what \<open>race_call\<close> names of the system
  where these are single actions, or nothing that can be seen there. No step faults. A channel
  without senders or without receivers is closed once their last drop has closed it, whatever
  another drop still has to do, and without receivers it is empty unless the last one is leaving.
\<close>

theorem handle_drops_linearize:
  assumes "ring_buf ops binv items" "race_reachable ops s"
  shows "leave_reachable ops (race_view s) \<and>
    (race_enabled ops act s \<longrightarrow>
       (\<exists>t. race_exec ops act s = Inr t \<and> mapped_step (leave_enabled ops) (leave_exec ops) race_view (race_call act s) s t)) \<and>
    (\<not> rs_sender_closing s \<longrightarrow> rs_receiver_stage s = Rs_Quiet \<longrightarrow> race_view s = \<lparr>lv_sys = rs_sys s, lv_leaving = False\<rparr>) \<and>
    (hy_sender_handles (rs_sys s) = 0 \<longrightarrow> \<not> rs_sender_closing s \<longrightarrow> ch_is_closed (cy_chan (hy_sys (rs_sys s)))) \<and>
    (hy_receiver_handles (rs_sys s) = 0 \<longrightarrow> rs_receiver_stage s \<noteq> Rs_Closing \<longrightarrow>
       ch_is_closed (cy_chan (hy_sys (rs_sys s))) \<and>
       (rs_receiver_stage s \<noteq> Rs_Clearing \<longrightarrow> items (ch_buffer (cy_chan (hy_sys (rs_sys s)))) = []))"
proof -
  from ring_buf.race_view_reach [OF assms] have reach: "leave_reachable ops (race_view s)" .
  moreover have "race_view s = \<lparr>lv_sys = rs_sys s, lv_leaving = False\<rparr>"
    if "\<not> rs_sender_closing s" "rs_receiver_stage s = Rs_Quiet"
    using that by (simp add: race_view_def)
  ultimately show ?thesis
    using ring_buf.race_step_mapped [OF assms, of act] ring_buf.leave_reach_inv [OF assms(1) reach]
    by (auto simp: leave_inv_def race_view_def Let_def split: if_splits)
qed

text \<open>
  The two moments can be told apart: after the last receiver has closed the channel, a future that
  was made before receives an item, and only the other one is dropped.
\<close>

abbreviation race_demo_acts :: "nat race_action list" where
  "race_demo_acts \<equiv> [Rc_Call (Ch_Try_Send 7), Rc_Call (Ch_Try_Send 8), Rc_Call (Ch_Receive 5), Rc_Count_Receiver,
     Rc_Close_Receiver, Rc_Call (Ch_Poll_Receive 5 (Waker 1 0))]"

lemma race_demo_run:
  "\<exists>s. exec_all (race_enabled fixed_heap_buf_ops) (race_exec fixed_heap_buf_ops) race_demo_acts
     (race_start fixed_heap_buf_ops 2) = Some s \<and>
   rs_receiver_stage s = Rs_Clearing \<and> cy_received (hy_sys (rs_sys s)) = [7] \<and>
   fb_buffer (ch_buffer (cy_chan (hy_sys (rs_sys s)))) = [8]"
  by (simp add: race_start_def handle_start_def shared_channel_new_def channel_try_send_def channel_state_try_send_def
      receiver_count_down_def receiver_clear_def shared_channel_close_def race_put_def
      handle_view_def handle_put_def Let_def channel_close_def
      wake_recv_waiters_def wake_send_waiters_def channel_eval ll_eval)

theorem handle_drops_linearize_witness:
  "\<exists>(s :: (nat fixed_heap_buf, nat) race_sys) t. lv_leaving (race_view s) \<and> cy_received (hy_sys (rs_sys s)) = [7] \<and>
     fb_buffer (ch_buffer (cy_chan (hy_sys (rs_sys s)))) = [8] \<and>
     race_exec fixed_heap_buf_ops Rc_Clear_Receiver s = Inr t \<and>
     leave_exec fixed_heap_buf_ops Lv_Last_Receiver_Clears (race_view s) = Inr (race_view t)"
proof -
  from race_demo_run obtain s :: "(nat fixed_heap_buf, nat) race_sys" where
    s: "exec_all (race_enabled fixed_heap_buf_ops) (race_exec fixed_heap_buf_ops) race_demo_acts
      (race_start fixed_heap_buf_ops 2) = Some s"
    "rs_receiver_stage s = Rs_Clearing" "cy_received (hy_sys (rs_sys s)) = [7]"
    "fb_buffer (ch_buffer (cy_chan (hy_sys (rs_sys s)))) = [8]" by blast
  have "race_reachable fixed_heap_buf_ops s"
    by (rule exec_all_reach [OF s(1) reach_init]) blast
  from handle_drops_linearize [OF fixed_ring.ring_buf_axioms this, of Rc_Clear_Receiver] s(2) obtain t where
    "race_exec fixed_heap_buf_ops Rc_Clear_Receiver s = Inr t"
    "leave_exec fixed_heap_buf_ops Lv_Last_Receiver_Clears (race_view s) = Inr (race_view t)"
    by (auto simp del: race_exec.simps leave_exec.simps)
  moreover from s(2) have "lv_leaving (race_view s)" by (simp add: race_view_def Let_def)
  ultimately show ?thesis using s(3,4) by blast
qed

end
