(* ===== verification/State_Races.thy ===== *)
theory State_Races
  imports State_Broadcast Refinement_Mapping
begin

text \<open>
  Races between the handles of the shared module of \<^verbatim>\<open>src/channel/state_broadcast.rs\<close>. Dropping a
  handle decrements the counter of its kind and, if it was the last, closes the channel under its
  lock; other calls can run in between. With one action per atomic step, a drop still takes effect
  at one moment: at its decrement if it is not the last, else when it closes.
\<close>

section \<open>The atomic steps of a drop\<close>

definition state_sender_count_down :: "'v shared_state \<Rightarrow> bool \<times> 'v shared_state" where
  "state_sender_count_down c = (shst_senders c = 1, c\<lparr>shst_senders := shst_senders c - 1\<rparr>)"

definition state_receiver_count_down :: "'v shared_state \<Rightarrow> bool \<times> 'v shared_state" where
  "state_receiver_count_down c = (shst_receivers c = 1, c\<lparr>shst_receivers := shst_receivers c - 1\<rparr>)"

definition shared_state_close :: "'v shared_state \<Rightarrow> (waker list \<times> 'v shared_state) res" where
  "shared_state_close c = and_then (state_close (shst_channel c)) (\<lambda>(_, w, ch). Inr (w, c\<lparr>shst_channel := ch\<rparr>))"

lemma state_drop_steps:
  "state_sender_drop c =
     (case state_sender_count_down c of (is_last, c) \<Rightarrow> if is_last then shared_state_close c else Inr ([], c))"
  "state_receiver_drop c =
     (case state_receiver_count_down c of (is_last, c) \<Rightarrow> if is_last then shared_state_close c else Inr ([], c))"
  by (auto simp: state_sender_drop_def state_receiver_drop_def state_sender_count_down_def
      state_receiver_count_down_def shared_state_close_def Let_def)

section \<open>The system\<close>

text \<open>Whether the last sender and the last receiver still have to close the channel.\<close>

record 'v state_race_sys =
  sr_sys :: "'v state_sys"
  sr_sender_closing :: bool
  sr_receiver_closing :: bool

datatype 'v state_race_action =
    Sr_Call "'v state_action"
  | Sr_Count_Sender
  | Sr_Close_Sender
  | Sr_Count_Receiver
  | Sr_Close_Receiver

definition state_race_start :: "'v state_race_sys" where
  "state_race_start = \<lparr>sr_sys = state_sys_new, sr_sender_closing = False, sr_receiver_closing = False\<rparr>"

text \<open>Every call but a drop; a drop is made of its steps.\<close>

fun state_race_enabled :: "'v state_race_action \<Rightarrow> 'v state_race_sys \<Rightarrow> bool" where
  "state_race_enabled (Sr_Call act) s = (state_enabled act (sr_sys s) \<and> act \<noteq> Sb_Drop_Sender \<and> act \<noteq> Sb_Drop_Receiver)"
| "state_race_enabled Sr_Count_Sender s = (0 < stx_sender_handles (sr_sys s))"
| "state_race_enabled Sr_Close_Sender s = sr_sender_closing s"
| "state_race_enabled Sr_Count_Receiver s = (0 < stx_receiver_handles (sr_sys s))"
| "state_race_enabled Sr_Close_Receiver s = sr_receiver_closing s"

definition state_race_close :: "'v state_sys \<Rightarrow> 'v state_sys res" where
  "state_race_close s =
     and_then (shared_state_close (stx_shared s)) (\<lambda>(w, c). Inr (s\<lparr>stx_shared := c, stx_woken := stx_woken s @ w\<rparr>))"

fun state_race_exec :: "'v state_race_action \<Rightarrow> 'v state_race_sys \<Rightarrow> 'v state_race_sys res" where
  "state_race_exec (Sr_Call act) s = and_then (state_exec act (sr_sys s)) (\<lambda>t. Inr (s\<lparr>sr_sys := t\<rparr>))"
| "state_race_exec Sr_Count_Sender s =
     (case state_sender_count_down (stx_shared (sr_sys s)) of (is_last, c) \<Rightarrow>
        Inr (s\<lparr>sr_sys := (sr_sys s)\<lparr>stx_shared := c, stx_sender_handles := stx_sender_handles (sr_sys s) - 1\<rparr>,
               sr_sender_closing := (sr_sender_closing s \<or> is_last)\<rparr>))"
| "state_race_exec Sr_Close_Sender s =
     and_then (state_race_close (sr_sys s)) (\<lambda>t. Inr (s\<lparr>sr_sys := t, sr_sender_closing := False\<rparr>))"
| "state_race_exec Sr_Count_Receiver s =
     (case state_receiver_count_down (stx_shared (sr_sys s)) of (is_last, c) \<Rightarrow>
        Inr (s\<lparr>sr_sys := (sr_sys s)\<lparr>stx_shared := c, stx_receiver_handles := stx_receiver_handles (sr_sys s) - 1\<rparr>,
               sr_receiver_closing := (sr_receiver_closing s \<or> is_last)\<rparr>))"
| "state_race_exec Sr_Close_Receiver s =
     and_then (state_race_close (sr_sys s)) (\<lambda>t. Inr (s\<lparr>sr_sys := t, sr_receiver_closing := False\<rparr>))"

abbreviation state_race_reachable :: "'v state_race_sys \<Rightarrow> bool" where
  "state_race_reachable \<equiv> reach (\<lambda>s. s = state_race_start) state_race_enabled state_race_exec"

section \<open>Where a drop takes effect\<close>

text \<open>As long as the last drop still has to close, its handle counts.\<close>

definition state_raise :: "bool \<Rightarrow> bool \<Rightarrow> 'v state_sys \<Rightarrow> 'v state_sys" where
  "state_raise x y s =
     s\<lparr>stx_shared := (stx_shared s)\<lparr>shst_senders := shst_senders (stx_shared s) + of_bool x,
         shst_receivers := shst_receivers (stx_shared s) + of_bool y\<rparr>,
       stx_sender_handles := stx_sender_handles s + of_bool x,
       stx_receiver_handles := stx_receiver_handles s + of_bool y\<rparr>"

definition state_race_view :: "'v state_race_sys \<Rightarrow> 'v state_sys" where
  "state_race_view s = state_raise (sr_sender_closing s) (sr_receiver_closing s) (sr_sys s)"

definition state_race_extra :: "'v state_race_sys \<Rightarrow> bool" where
  "state_race_extra s \<longleftrightarrow>
     (sr_sender_closing s \<longrightarrow> stx_sender_handles (sr_sys s) = 0) \<and>
     (sr_receiver_closing s \<longrightarrow> stx_receiver_handles (sr_sys s) = 0)"

abbreviation state_race_inv :: "'v state_race_sys \<Rightarrow> bool" where
  "state_race_inv s \<equiv> state_reachable (state_race_view s) \<and> state_race_extra s"

text \<open>The call that takes effect with a step.\<close>

fun state_race_call :: "'v state_race_action \<Rightarrow> 'v state_race_sys \<Rightarrow> 'v state_action option" where
  "state_race_call (Sr_Call act) s = Some act"
| "state_race_call Sr_Count_Sender s =
     (if shst_senders (stx_shared (sr_sys s)) = 1 then None else Some Sb_Drop_Sender)"
| "state_race_call Sr_Close_Sender s = Some Sb_Drop_Sender"
| "state_race_call Sr_Count_Receiver s =
     (if shst_receivers (stx_shared (sr_sys s)) = 1 then None else Some Sb_Drop_Receiver)"
| "state_race_call Sr_Close_Receiver s = Some Sb_Drop_Receiver"

abbreviation state_race_step :: "'v state_race_action \<Rightarrow> 'v state_race_sys \<Rightarrow> 'v state_race_sys \<Rightarrow> bool" where
  "state_race_step act s t \<equiv>
     mapped_step state_enabled state_exec state_race_view (state_race_call act s) s t \<and> state_race_extra t"

text \<open>A call that does not touch the counts does the same whatever they are.\<close>

lemma state_raise_simps [simp]:
  "shst_channel (stx_shared (state_raise x y s)) = stx_chan s" "stx_futures (state_raise x y s) = stx_futures s"
  "stx_woken (state_raise x y s) = stx_woken s" "stx_published (state_raise x y s) = stx_published s"
  "stx_received (state_raise x y s) = stx_received s"
  "stx_sender_handles (state_raise x y s) = stx_sender_handles s + of_bool x"
  "stx_receiver_handles (state_raise x y s) = stx_receiver_handles s + of_bool y"
  "shst_senders (stx_shared (state_raise x y s)) = shst_senders (stx_shared s) + of_bool x"
  "shst_receivers (stx_shared (state_raise x y s)) = shst_receivers (stx_shared s) + of_bool y"
  by (simp_all add: state_raise_def)

fun touches_counts :: "'v state_action \<Rightarrow> bool" where
  "touches_counts Sb_Clone_Sender = True"
| "touches_counts Sb_Drop_Sender = True"
| "touches_counts Sb_Clone_Receiver = True"
| "touches_counts Sb_Drop_Receiver = True"
| "touches_counts act = False"

lemma state_exec_raise:
  assumes "\<not> touches_counts act" "state_exec act s = Inr t"
  shows "state_exec act (state_raise x y s) = Inr (state_raise x y t)"
    "stx_sender_handles t = stx_sender_handles s" "stx_receiver_handles t = stx_receiver_handles s"
proof -
  have "state_exec act (state_raise x y s) = Inr (state_raise x y t) \<and>
      stx_sender_handles t = stx_sender_handles s \<and> stx_receiver_handles t = stx_receiver_handles s"
    using assms by (cases act) (auto simp: and_then_eq_Inr state_receive_def,
        auto simp: state_raise_def split: poll.splits option.splits)
  then show "state_exec act (state_raise x y s) = Inr (state_raise x y t)"
    "stx_sender_handles t = stx_sender_handles s" "stx_receiver_handles t = stx_receiver_handles s"
    by blast+
qed

lemma state_enabled_raise: "\<not> touches_counts act \<Longrightarrow> state_enabled act (state_raise x y s) \<longleftrightarrow> state_enabled act s"
  by (cases act) simp_all

lemma state_race_counts:
  assumes "state_race_inv s"
  shows "0 < stx_sender_handles (sr_sys s) \<Longrightarrow> \<not> sr_sender_closing s \<and>
      unat (shst_senders (stx_shared (sr_sys s))) = stx_sender_handles (sr_sys s)"
    and "0 < stx_receiver_handles (sr_sys s) \<Longrightarrow> \<not> sr_receiver_closing s \<and>
      unat (shst_receivers (stx_shared (sr_sys s))) = stx_receiver_handles (sr_sys s)"
    and "sr_sender_closing s \<Longrightarrow> shst_senders (stx_shared (sr_sys s)) = 0"
    and "sr_receiver_closing s \<Longrightarrow> shst_receivers (stx_shared (sr_sys s)) = 0"
proof -
  from assms have z: "sr_sender_closing s \<longrightarrow> stx_sender_handles (sr_sys s) = 0"
    "sr_receiver_closing s \<longrightarrow> stx_receiver_handles (sr_sys s) = 0"
    and "state_reachable (state_race_view s)" by (simp_all add: state_race_extra_def)
  then obtain S where "state_sys_rep (state_race_view s) S" using state_reach_rep by blast
  from state_sys_repD(6) [OF this] have
    "unat (shst_senders (stx_shared (sr_sys s)) + of_bool (sr_sender_closing s)) =
       stx_sender_handles (sr_sys s) + of_bool (sr_sender_closing s)"
    "unat (shst_receivers (stx_shared (sr_sys s)) + of_bool (sr_receiver_closing s)) =
       stx_receiver_handles (sr_sys s) + of_bool (sr_receiver_closing s)"
    by (simp_all add: state_counts_ok_def state_race_view_def)
  with z show "0 < stx_sender_handles (sr_sys s) \<Longrightarrow> \<not> sr_sender_closing s \<and>
      unat (shst_senders (stx_shared (sr_sys s))) = stx_sender_handles (sr_sys s)"
    "0 < stx_receiver_handles (sr_sys s) \<Longrightarrow> \<not> sr_receiver_closing s \<and>
      unat (shst_receivers (stx_shared (sr_sys s))) = stx_receiver_handles (sr_sys s)"
    "sr_sender_closing s \<Longrightarrow> shst_senders (stx_shared (sr_sys s)) = 0"
    "sr_receiver_closing s \<Longrightarrow> shst_receivers (stx_shared (sr_sys s)) = 0"
    by (auto simp: usize_plus_one)
qed

lemma state_race_view_runs:
  assumes "state_race_inv s" "state_enabled act (state_race_view s)"
  obtains t where "state_exec act (state_race_view s) = Inr t"
  using assms sbs.no_fault [of "state_race_view s" act] by auto

lemma state_race_call_follows:
  assumes inv: "state_race_inv s" and enabled: "state_race_enabled (Sr_Call act) s"
  shows "returns (state_race_exec (Sr_Call act) s) (state_race_step (Sr_Call act) s)"
proof (cases "touches_counts act")
  case False
  with enabled have e: "state_enabled act (state_race_view s)" by (simp add: state_race_view_def state_enabled_raise)
  obtain t where t: "state_exec act (sr_sys s) = Inr t"
  proof -
    from state_race_view_runs [OF inv e] obtain t' where t': "state_exec act (state_race_view s) = Inr t'" .
    have "\<exists>t. state_exec act (sr_sys s) = Inr t"
      using t' False unfolding state_race_view_def
      by (cases act) (auto simp: and_then_eq_Inr state_receive_def)
    with that show ?thesis by blast
  qed
  with state_exec_raise [OF False t] e inv show ?thesis
    by (auto simp: state_race_view_def state_race_extra_def simp del: state_exec.simps)
next
  case True
  with enabled consider "act = Sb_Clone_Sender" | "act = Sb_Clone_Receiver" by (cases act) auto
  then show ?thesis
  proof cases
    case 1
    with enabled state_race_counts(1) [OF inv] have s: "\<not> sr_sender_closing s" "state_enabled act (state_race_view s)"
      by (simp_all add: state_race_view_def)
    let ?t = "s\<lparr>sr_sys := (sr_sys s)\<lparr>stx_shared := (stx_shared (sr_sys s))
        \<lparr>shst_senders := shst_senders (stx_shared (sr_sys s)) + 1\<rparr>,
      stx_sender_handles := stx_sender_handles (sr_sys s) + 1\<rparr>\<rparr>"
    obtain u where "state_exec act (state_race_view s) = Inr u" by (rule state_race_view_runs [OF inv s(2)])
    with 1 s(1) have "\<not> isize_max < shst_senders (stx_shared (sr_sys s))"
      by (auto simp: state_race_view_def state_sender_clone_def Let_def and_then_eq_Inr split: if_splits)
    then have "state_race_exec (Sr_Call act) s = Inr ?t" "state_exec act (state_race_view s) = Inr (state_race_view ?t)"
      using 1 s(1) by (simp_all add: state_race_view_def state_sender_clone_def state_raise_def Let_def del: state_raise_simps)
    with s inv enabled show ?thesis by (auto simp: state_race_extra_def)
  next
    case 2
    with enabled state_race_counts(2) [OF inv] have s: "\<not> sr_receiver_closing s" "state_enabled act (state_race_view s)"
      by (simp_all add: state_race_view_def)
    let ?t = "s\<lparr>sr_sys := (sr_sys s)\<lparr>stx_shared := (stx_shared (sr_sys s))
        \<lparr>shst_receivers := shst_receivers (stx_shared (sr_sys s)) + 1\<rparr>,
      stx_receiver_handles := stx_receiver_handles (sr_sys s) + 1\<rparr>\<rparr>"
    obtain u where "state_exec act (state_race_view s) = Inr u" by (rule state_race_view_runs [OF inv s(2)])
    with 2 s(1) have "\<not> isize_max < shst_receivers (stx_shared (sr_sys s))"
      by (auto simp: state_race_view_def state_receiver_clone_def Let_def and_then_eq_Inr split: if_splits)
    then have "state_race_exec (Sr_Call act) s = Inr ?t" "state_exec act (state_race_view s) = Inr (state_race_view ?t)"
      using 2 s(1) by (simp_all add: state_race_view_def state_receiver_clone_def state_raise_def Let_def del: state_raise_simps)
    with s inv enabled show ?thesis by (auto simp: state_race_extra_def)
  qed
qed

lemma state_race_sender_follows:
  assumes inv: "state_race_inv s"
  shows "state_race_enabled Sr_Count_Sender s \<Longrightarrow> returns (state_race_exec Sr_Count_Sender s) (state_race_step Sr_Count_Sender s)"
    and "state_race_enabled Sr_Close_Sender s \<Longrightarrow> returns (state_race_exec Sr_Close_Sender s) (state_race_step Sr_Close_Sender s)"
proof -
  note views = state_race_view_def state_raise_def state_sender_drop_def Let_def
  assume "state_race_enabled Sr_Count_Sender s"
  with state_race_counts [OF inv] have s: "0 < stx_sender_handles (sr_sys s)" "\<not> sr_sender_closing s"
    "unat (shst_senders (stx_shared (sr_sys s))) = stx_sender_handles (sr_sys s)" by simp_all
  define t where "t = s\<lparr>sr_sys := (sr_sys s)\<lparr>stx_shared := (stx_shared (sr_sys s))
      \<lparr>shst_senders := shst_senders (stx_shared (sr_sys s)) - 1\<rparr>, stx_sender_handles := stx_sender_handles (sr_sys s) - 1\<rparr>,
      sr_sender_closing := (shst_senders (stx_shared (sr_sys s)) = 1)\<rparr>"
  have run: "state_race_exec Sr_Count_Sender s = Inr t"
    using s(2) by (simp add: t_def state_sender_count_down_def)
  have last: "state_race_view t = state_race_view s" if "shst_senders (stx_shared (sr_sys s)) = 1"
    using that s by (simp add: t_def views del: state_raise_simps)
  have other: "state_exec Sb_Drop_Sender (state_race_view s) = Inr (state_race_view t)"
    if "shst_senders (stx_shared (sr_sys s)) \<noteq> 1"
    using that s by (simp add: t_def views del: state_raise_simps)
  have "state_enabled Sb_Drop_Sender (state_race_view s)" using s(1) by (simp add: state_race_view_def)
  with last other have "mapped_step state_enabled state_exec state_race_view (state_race_call Sr_Count_Sender s) s t"
    by (cases "shst_senders (stx_shared (sr_sys s)) = 1") (simp_all del: state_exec.simps)
  moreover have "sr_sender_closing t \<longrightarrow> stx_sender_handles (sr_sys t) = 0" using s(3) by (auto simp: t_def)
  moreover have "sr_receiver_closing t \<longrightarrow> stx_receiver_handles (sr_sys t) = 0" using inv by (simp add: t_def state_race_extra_def)
  ultimately have "state_race_step Sr_Count_Sender s t" by (simp add: state_race_extra_def)
  with run show "returns (state_race_exec Sr_Count_Sender s) (state_race_step Sr_Count_Sender s)" by simp
next
  assume "state_race_enabled Sr_Close_Sender s"
  with state_race_counts [OF inv] inv have s: "sr_sender_closing s" "shst_senders (stx_shared (sr_sys s)) = 0"
    "stx_sender_handles (sr_sys s) = 0" by (simp_all add: state_race_extra_def)
  then have e: "state_enabled Sb_Drop_Sender (state_race_view s)" by (simp add: state_race_view_def)
  then obtain t' where t': "state_exec Sb_Drop_Sender (state_race_view s) = Inr t'" by (rule state_race_view_runs [OF inv])
  with s obtain w ch st where close: "state_close (stx_chan (sr_sys s)) = Inr (st, w, ch)"
    by (auto simp: state_sender_drop_def state_race_view_def Let_def and_then_eq_Inr)
  define t where "t = s\<lparr>sr_sys := (sr_sys s)\<lparr>stx_shared := (stx_shared (sr_sys s))\<lparr>shst_channel := ch\<rparr>,
      stx_woken := stx_woken (sr_sys s) @ w\<rparr>, sr_sender_closing := False\<rparr>"
  have "state_race_exec Sr_Close_Sender s = Inr t"
    using close by (simp add: t_def state_race_close_def shared_state_close_def)
  moreover have "state_exec Sb_Drop_Sender (state_race_view s) = Inr (state_race_view t)"
    using s close by (simp add: t_def state_race_view_def state_raise_def state_sender_drop_def Let_def del: state_raise_simps)
  with e inv s have "state_race_step Sr_Close_Sender s t"
    by (auto simp: t_def state_race_extra_def simp del: state_exec.simps)
  ultimately show "returns (state_race_exec Sr_Close_Sender s) (state_race_step Sr_Close_Sender s)" by simp
qed

lemma state_race_receiver_follows:
  assumes inv: "state_race_inv s"
  shows "state_race_enabled Sr_Count_Receiver s \<Longrightarrow> returns (state_race_exec Sr_Count_Receiver s) (state_race_step Sr_Count_Receiver s)"
    and "state_race_enabled Sr_Close_Receiver s \<Longrightarrow> returns (state_race_exec Sr_Close_Receiver s) (state_race_step Sr_Close_Receiver s)"
proof -
  note views = state_race_view_def state_raise_def state_receiver_drop_def Let_def
  assume "state_race_enabled Sr_Count_Receiver s"
  with state_race_counts [OF inv] have s: "0 < stx_receiver_handles (sr_sys s)" "\<not> sr_receiver_closing s"
    "unat (shst_receivers (stx_shared (sr_sys s))) = stx_receiver_handles (sr_sys s)" by simp_all
  define t where "t = s\<lparr>sr_sys := (sr_sys s)\<lparr>stx_shared := (stx_shared (sr_sys s))
      \<lparr>shst_receivers := shst_receivers (stx_shared (sr_sys s)) - 1\<rparr>, stx_receiver_handles := stx_receiver_handles (sr_sys s) - 1\<rparr>,
      sr_receiver_closing := (shst_receivers (stx_shared (sr_sys s)) = 1)\<rparr>"
  have run: "state_race_exec Sr_Count_Receiver s = Inr t"
    using s(2) by (simp add: t_def state_receiver_count_down_def)
  have last: "state_race_view t = state_race_view s" if "shst_receivers (stx_shared (sr_sys s)) = 1"
    using that s by (simp add: t_def views del: state_raise_simps)
  have other: "state_exec Sb_Drop_Receiver (state_race_view s) = Inr (state_race_view t)"
    if "shst_receivers (stx_shared (sr_sys s)) \<noteq> 1"
    using that s by (simp add: t_def views del: state_raise_simps)
  have "state_enabled Sb_Drop_Receiver (state_race_view s)" using s(1) by (simp add: state_race_view_def)
  with last other have "mapped_step state_enabled state_exec state_race_view (state_race_call Sr_Count_Receiver s) s t"
    by (cases "shst_receivers (stx_shared (sr_sys s)) = 1") (simp_all del: state_exec.simps)
  moreover have "sr_receiver_closing t \<longrightarrow> stx_receiver_handles (sr_sys t) = 0" using s(3) by (auto simp: t_def)
  moreover have "sr_sender_closing t \<longrightarrow> stx_sender_handles (sr_sys t) = 0" using inv by (simp add: t_def state_race_extra_def)
  ultimately have "state_race_step Sr_Count_Receiver s t" by (simp add: state_race_extra_def)
  with run show "returns (state_race_exec Sr_Count_Receiver s) (state_race_step Sr_Count_Receiver s)" by simp
next
  assume "state_race_enabled Sr_Close_Receiver s"
  with state_race_counts [OF inv] inv have s: "sr_receiver_closing s" "shst_receivers (stx_shared (sr_sys s)) = 0"
    "stx_receiver_handles (sr_sys s) = 0" by (simp_all add: state_race_extra_def)
  then have e: "state_enabled Sb_Drop_Receiver (state_race_view s)" by (simp add: state_race_view_def)
  then obtain t' where t': "state_exec Sb_Drop_Receiver (state_race_view s) = Inr t'" by (rule state_race_view_runs [OF inv])
  with s obtain w ch st where close: "state_close (stx_chan (sr_sys s)) = Inr (st, w, ch)"
    by (auto simp: state_receiver_drop_def state_race_view_def Let_def and_then_eq_Inr)
  define t where "t = s\<lparr>sr_sys := (sr_sys s)\<lparr>stx_shared := (stx_shared (sr_sys s))\<lparr>shst_channel := ch\<rparr>,
      stx_woken := stx_woken (sr_sys s) @ w\<rparr>, sr_receiver_closing := False\<rparr>"
  have "state_race_exec Sr_Close_Receiver s = Inr t"
    using close by (simp add: t_def state_race_close_def shared_state_close_def)
  moreover have "state_exec Sb_Drop_Receiver (state_race_view s) = Inr (state_race_view t)"
    using s close by (simp add: t_def state_race_view_def state_raise_def state_receiver_drop_def Let_def del: state_raise_simps)
  with e inv s have "state_race_step Sr_Close_Receiver s t"
    by (auto simp: t_def state_race_extra_def simp del: state_exec.simps)
  ultimately show "returns (state_race_exec Sr_Close_Receiver s) (state_race_step Sr_Close_Receiver s)" by simp
qed

lemma state_race_exec_follows:
  assumes "state_race_inv s" "state_race_enabled act s"
  shows "returns (state_race_exec act s) (state_race_step act s)"
  using assms(2) state_race_call_follows [OF assms(1)] state_race_sender_follows [OF assms(1)]
    state_race_receiver_follows [OF assms(1)]
  by (cases act) (auto simp del: state_race_exec.simps state_race_enabled.simps)

interpretation srs: refinement_mapping "\<lambda>s. s = state_sys_new" state_enabled state_exec
    "\<lambda>s. s = state_race_start" state_race_enabled state_race_exec state_race_view state_race_call state_race_extra
  by unfold_locales (simp add: state_race_extra_def state_race_start_def state_race_view_def state_raise_def,
      blast intro: state_race_exec_follows)

section \<open>Drops are atomic\<close>

text \<open>
  C32: whatever the interleaving of the steps of concurrent drops with each other and with all other
  calls, the state broadcast channel behaves as if every drop ran at one moment, the one that
  \<open>state_race_call\<close> gives: each step is that call of the system in which drops are atomic, or
  nothing that can be seen there. No step faults, and once no drop is under way, a channel without senders or without receivers is closed.
\<close>

theorem state_drops_linearize:
  assumes "state_race_reachable s"
  shows "state_reachable (state_race_view s) \<and>
    (state_race_enabled act s \<longrightarrow>
       (\<exists>t. state_race_exec act s = Inr t \<and> mapped_step state_enabled state_exec state_race_view (state_race_call act s) s t)) \<and>
    (\<not> sr_sender_closing s \<longrightarrow> \<not> sr_receiver_closing s \<longrightarrow> state_race_view s = sr_sys s \<and>
       (stx_sender_handles (sr_sys s) = 0 \<or> stx_receiver_handles (sr_sys s) = 0 \<longrightarrow> stc_is_closed (stx_chan (sr_sys s))))"
proof -
  from srs.view_reach [OF assms] have reach: "state_reachable (state_race_view s)" by blast
  then obtain S where "state_sys_rep (state_race_view s) S" using state_reach_rep by blast
  from state_sys_repD(1,7) [OF this] have
    "stx_sender_handles (state_race_view s) = 0 \<or> stx_receiver_handles (state_race_view s) = 0 \<longrightarrow>
      stc_is_closed (stx_chan (state_race_view s))"
    by (auto simp: state_abs_def)
  moreover have "state_race_view s = sr_sys s" if "\<not> sr_sender_closing s" "\<not> sr_receiver_closing s"
    using that by (simp add: state_race_view_def state_raise_def)
  ultimately show ?thesis using reach srs.step_mapped [OF assms] by auto
qed

abbreviation state_race_demo_acts :: "nat state_race_action list" where
  "state_race_demo_acts \<equiv> [Sr_Call (Sb_Receive 2 (State_Id 0)), Sr_Count_Sender, Sr_Call (Sb_Poll 2 (Waker 2 0)),
     Sr_Close_Sender, Sr_Call (Sb_Poll 2 (Waker 2 0))]"

lemma state_race_demo_run:
  "\<exists>s. exec_all state_race_enabled state_race_exec state_race_demo_acts state_race_start = Some s \<and>
     \<not> sr_sender_closing s \<and> \<not> sr_receiver_closing s \<and> stx_sender_handles (sr_sys s) = 0 \<and>
     stx_woken (sr_sys s) = [Waker 2 0]"
  by (simp add: state_race_start_def state_sender_count_down_def state_race_close_def shared_state_close_def
      state_eval ll_eval data_of_def)

theorem state_drops_linearize_witness:
  "\<exists>s :: nat state_race_sys. stx_sender_handles (sr_sys s) = 0 \<and> stx_woken (sr_sys s) = [Waker 2 0] \<and>
     stc_is_closed (stx_chan (sr_sys s))"
proof -
  from state_race_demo_run obtain s where
    s: "exec_all state_race_enabled state_race_exec state_race_demo_acts state_race_start = Some s"
    "\<not> sr_sender_closing s" "\<not> sr_receiver_closing s" "stx_sender_handles (sr_sys s) = 0"
    "stx_woken (sr_sys s) = [Waker 2 0]" by blast
  have "state_race_reachable s" by (rule exec_all_reach [OF s(1) reach_init]) simp
  from state_drops_linearize [OF this] s(2-5) show ?thesis by blast
qed

end
