(* ===== verification/Pairing_Heap.thy ===== *)
theory Pairing_Heap
  imports Prelude
begin

text \<open>
  The intrusive pairing heap of \<^verbatim>\<open>src/intrusive_pairing_heap.rs\<close>, pointer assignment by pointer
  assignment over a store of nodes, with the functional pairing heap on trees of addresses as its
  reference: \<open>ht_rep\<close> relates a store to a tree, and every operation on pointers is shown to
  return and to do what the function on trees does. On top of that the heap is a priority queue:
  the locale \<open>priority_queue\<close> is the interface that the timer uses.
\<close>

section \<open>Data\<close>

text \<open>The links of a \<open>HeapNode\<close>, and the node, which adds the data.\<close>

record heap_links =
  hn_parent :: "addr option"
  hn_prev :: "addr option"
  hn_next :: "addr option"
  hn_first_child :: "addr option"

record 'a heap_node = heap_links +
  hn_data :: 'a

type_synonym 'a heap_store = "addr \<rightharpoonup> 'a heap_node"

record pairing_heap =
  ph_root :: "addr option"

definition heap_node_new :: "'a \<Rightarrow> 'a heap_node" where
  "heap_node_new d =
     \<lparr>hn_parent = None, hn_prev = None, hn_next = None, hn_first_child = None, hn_data = d\<rparr>"

definition heap_new :: pairing_heap where
  "heap_new = \<lparr>ph_root = None\<rparr>"

text \<open>\<open>Deref\<close> and \<open>DerefMut\<close> of a node reach the data only.\<close>

definition heap_read_data :: "'a heap_store \<Rightarrow> addr \<Rightarrow> 'a res" where
  "heap_read_data h p = and_then (deref h p) (\<lambda>n. Inr (hn_data n))"

definition heap_update_data :: "addr \<Rightarrow> ('a \<Rightarrow> 'a) \<Rightarrow> 'a heap_store \<Rightarrow> 'a heap_store res" where
  "heap_update_data p f h = update_node p (hn_data_update f) h"

abbreviation set_parent :: "addr \<Rightarrow> addr option \<Rightarrow> 'a heap_store \<Rightarrow> 'a heap_store res" where
  "set_parent p v \<equiv> update_node p (hn_parent_update (\<lambda>_. v))"

abbreviation set_hprev :: "addr \<Rightarrow> addr option \<Rightarrow> 'a heap_store \<Rightarrow> 'a heap_store res" where
  "set_hprev p v \<equiv> update_node p (hn_prev_update (\<lambda>_. v))"

abbreviation set_hnext :: "addr \<Rightarrow> addr option \<Rightarrow> 'a heap_store \<Rightarrow> 'a heap_store res" where
  "set_hnext p v \<equiv> update_node p (hn_next_update (\<lambda>_. v))"

abbreviation set_first_child :: "addr \<Rightarrow> addr option \<Rightarrow> 'a heap_store \<Rightarrow> 'a heap_store res" where
  "set_first_child p v \<equiv> update_node p (hn_first_child_update (\<lambda>_. v))"

section \<open>Operations\<close>

text \<open>
  \<open>lesser\<close> stands for \<open><\<close> of the type of the data (\<open>T: Ord\<close>), a total function here; the drop bomb
  of \<open>safe_lesser\<close> only acts when a comparison panics.
\<close>

definition safe_lesser :: "('a \<Rightarrow> 'a \<Rightarrow> bool) \<Rightarrow> 'a \<Rightarrow> 'a \<Rightarrow> bool" where
  "safe_lesser lesser a b = lesser a b"

definition heap_is_root :: "'a heap_node \<Rightarrow> bool res" where
  "heap_is_root n =
     (if hn_parent n = None
      then and_then (assert_that (hn_prev n = None) ''assertion failed: prev == None'') (\<lambda>_.
           and_then (assert_that (hn_next n = None) ''assertion failed: next == None'') (\<lambda>_.
           Inr True))
      else Inr False)"

definition add_child :: "('a \<Rightarrow> 'a \<Rightarrow> bool) \<Rightarrow> addr \<Rightarrow> addr \<Rightarrow> 'a heap_store \<Rightarrow> 'a heap_store res" where
  "add_child lesser parent child h =
     and_then (deref h child) (\<lambda>c.
     and_then (deref h parent) (\<lambda>p.
     and_then (assert_that (\<not> safe_lesser lesser (hn_data c) (hn_data p))
       ''assertion failed: !safe_lesser(child, parent)'') (\<lambda>_.
     and_then (set_first_child parent None h) (\<lambda>h.
     and_then (case hn_first_child p of
         Some old_first_child \<Rightarrow>
           and_then (set_hnext child (Some old_first_child) h) (\<lambda>h.
           and_then (deref h old_first_child) (\<lambda>old.
           and_then (assert_that (hn_prev old = None) ''assertion failed: prev == None'') (\<lambda>_.
           set_hprev old_first_child (Some child) h)))
       | None \<Rightarrow> Inr h) (\<lambda>h.
     and_then (set_first_child parent (Some child) h) (\<lambda>h.
     set_parent child (Some parent) h))))))"

definition meld :: "('a \<Rightarrow> 'a \<Rightarrow> bool) \<Rightarrow> addr \<Rightarrow> addr \<Rightarrow> 'a heap_store \<Rightarrow> (addr \<times> 'a heap_store) res" where
  "meld lesser left right h =
     and_then (deref h left) (\<lambda>l.
     and_then (heap_is_root l) (\<lambda>b.
     and_then (assert_that b ''assertion failed: left.is_root()'') (\<lambda>_.
     and_then (deref h right) (\<lambda>r.
     and_then (heap_is_root r) (\<lambda>b.
     and_then (assert_that b ''assertion failed: right.is_root()'') (\<lambda>_.
     if safe_lesser lesser (hn_data l) (hn_data r)
     then and_then (add_child lesser left right h) (\<lambda>h. Inr (left, h))
     else and_then (add_child lesser right left h) (\<lambda>h. Inr (right, h))))))))"

definition maybe_meld ::
  "('a \<Rightarrow> 'a \<Rightarrow> bool) \<Rightarrow> addr option \<Rightarrow> addr \<Rightarrow> 'a heap_store \<Rightarrow> (addr \<times> 'a heap_store) res" where
  "maybe_meld lesser left right h =
     (case left of Some left \<Rightarrow> meld lesser left right h | None \<Rightarrow> Inr (right, h))"

partial_function (option) last_child_loop :: "addr \<Rightarrow> 'a heap_store \<Rightarrow> addr res option" where
  "last_child_loop cur h =
     (case h cur of
        None \<Rightarrow> Some (Inl (Dangling cur))
      | Some n \<Rightarrow>
          (case hn_next n of
             Some next \<Rightarrow> last_child_loop next h
           | None \<Rightarrow> Some (Inr cur)))"

definition last_child :: "addr \<Rightarrow> 'a heap_store \<Rightarrow> addr res" where
  "last_child first_child h = run_loop (last_child_loop first_child h)"

definition unlink_prev :: "addr \<Rightarrow> 'a heap_store \<Rightarrow> (addr option \<times> 'a heap_store) res" where
  "unlink_prev node h =
     and_then (deref h node) (\<lambda>n.
     and_then (assert_that (hn_next n = None) ''assertion failed: next == None'') (\<lambda>_.
     and_then (set_hprev node None h) (\<lambda>h.
     case hn_prev n of
       None \<Rightarrow> Inr (None, h)
     | Some prev \<Rightarrow>
         and_then (deref h prev) (\<lambda>p.
         and_then (assert_that (hn_next p = Some node) ''assertion failed: prev.next == Some(node)'') (\<lambda>_.
         and_then (set_hnext prev None h) (\<lambda>h.
         Inr (Some prev, h)))))))"

text \<open>\<open>node.parent.take()\<close>, compared with the common parent.\<close>

definition take_parent :: "addr option \<Rightarrow> addr \<Rightarrow> 'a heap_store \<Rightarrow> 'a heap_store res" where
  "take_parent common_parent node h =
     and_then (deref h node) (\<lambda>n.
     and_then (set_parent node None h) (\<lambda>h.
     and_then (assert_that (hn_parent n = common_parent) ''assertion failed: parent == common_parent'') (\<lambda>_.
     Inr h)))"

text \<open>
  The body of the loop of \<open>merge_children\<close>: it returns the merged root (\<open>Inl\<close>), or continues with
  the next unprocessed child and the accumulator (\<open>Inr\<close>).
\<close>

definition merge_children_step ::
  "('a \<Rightarrow> 'a \<Rightarrow> bool) \<Rightarrow> addr option \<Rightarrow> addr \<Rightarrow> addr option \<Rightarrow> 'a heap_store \<Rightarrow>
   ((addr + addr \<times> addr) \<times> 'a heap_store) res" where
  "merge_children_step lesser common_parent node current h =
     and_then (take_parent common_parent node h) (\<lambda>h.
     and_then (unlink_prev node h) (\<lambda>(prev, h).
     case prev of
       None \<Rightarrow> and_then (maybe_meld lesser current node h) (\<lambda>(r, h). Inr (Inl r, h))
     | Some prev \<Rightarrow>
         and_then (take_parent common_parent prev h) (\<lambda>h.
         and_then (unlink_prev prev h) (\<lambda>(prev_prev, h).
         and_then (meld lesser prev node h) (\<lambda>(m, h).
         and_then (maybe_meld lesser current m h) (\<lambda>(cur, h).
         case prev_prev of
           Some prev_prev \<Rightarrow> Inr (Inr (prev_prev, cur), h)
         | None \<Rightarrow> Inr (Inl cur, h)))))))"

partial_function (option) merge_children_loop ::
  "('a \<Rightarrow> 'a \<Rightarrow> bool) \<Rightarrow> addr option \<Rightarrow> addr \<Rightarrow> addr option \<Rightarrow> 'a heap_store \<Rightarrow>
   (addr \<times> 'a heap_store) res option" where
  "merge_children_loop lesser common_parent node current h =
     (case merge_children_step lesser common_parent node current h of
        Inl e \<Rightarrow> Some (Inl e)
      | Inr (Inl r, h) \<Rightarrow> Some (Inr (r, h))
      | Inr (Inr (node, cur), h) \<Rightarrow> merge_children_loop lesser common_parent node (Some cur) h)"

definition merge_children ::
  "('a \<Rightarrow> 'a \<Rightarrow> bool) \<Rightarrow> addr \<Rightarrow> 'a heap_store \<Rightarrow> (addr \<times> 'a heap_store) res" where
  "merge_children lesser first_child h =
     and_then (deref h first_child) (\<lambda>n.
     let common_parent = hn_parent n in
     and_then (assert_that (common_parent \<noteq> None) ''assertion failed: common_parent.is_some()'') (\<lambda>_.
     and_then (last_child first_child h) (\<lambda>node.
     run_loop (merge_children_loop lesser common_parent node None h))))"

definition heap_insert ::
  "('a \<Rightarrow> 'a \<Rightarrow> bool) \<Rightarrow> pairing_heap \<Rightarrow> addr \<Rightarrow> 'a heap_store \<Rightarrow> (pairing_heap \<times> 'a heap_store) res" where
  "heap_insert lesser hp node h =
     and_then (deref h node) (\<lambda>n.
     and_then (heap_is_root n) (\<lambda>b.
     and_then (assert_that b ''assertion failed: node.is_root()'') (\<lambda>_.
     and_then (assert_that (hn_first_child n = None) ''assertion failed: first_child == None'') (\<lambda>_.
     case ph_root hp of
       Some root \<Rightarrow> and_then (meld lesser root node h) (\<lambda>(r, h). Inr (hp\<lparr>ph_root := Some r\<rparr>, h))
     | None \<Rightarrow> Inr (hp\<lparr>ph_root := Some node\<rparr>, h)))))"

definition heap_peek_min :: "pairing_heap \<Rightarrow> addr option" where
  "heap_peek_min hp = ph_root hp"

text \<open>Taking a node with a parent out of its list of siblings.\<close>

definition heap_unlink :: "'a heap_node \<Rightarrow> addr \<Rightarrow> addr \<Rightarrow> 'a heap_store \<Rightarrow> 'a heap_store res" where
  "heap_unlink n parent node h =
     and_then (case hn_prev n of
         Some prev \<Rightarrow> set_hnext prev (hn_next n) h
       | None \<Rightarrow> set_first_child parent (hn_next n) h) (\<lambda>h.
     and_then (case hn_next n of
         Some next \<Rightarrow> set_hprev next (hn_prev n) h
       | None \<Rightarrow> Inr h) (\<lambda>h.
     and_then (set_hnext node None h) (\<lambda>h.
     set_hprev node None h)))"

definition heap_remove ::
  "('a \<Rightarrow> 'a \<Rightarrow> bool) \<Rightarrow> pairing_heap \<Rightarrow> addr \<Rightarrow> 'a heap_store \<Rightarrow> (pairing_heap \<times> 'a heap_store) res" where
  "heap_remove lesser hp node h =
     and_then (deref h node) (\<lambda>n.
     and_then (set_parent node None h) (\<lambda>h.
     and_then (case hn_parent n of
         Some parent \<Rightarrow> and_then (heap_unlink n parent node h) (\<lambda>h. Inr (hp, h))
       | None \<Rightarrow>
           and_then (assert_that (hn_next n = None) ''assertion failed: next == None'') (\<lambda>_.
           and_then (assert_that (hn_prev n = None) ''assertion failed: prev == None'') (\<lambda>_.
           and_then (assert_that (ph_root hp = Some node) ''assertion failed: root == Some(node)'') (\<lambda>_.
           Inr (hp\<lparr>ph_root := None\<rparr>, h))))) (\<lambda>(hp, h).
     case hn_first_child n of
       None \<Rightarrow> Inr (hp, h)
     | Some first_child \<Rightarrow>
         and_then (set_first_child node None h) (\<lambda>h.
         and_then (merge_children lesser first_child h) (\<lambda>(children, h).
         case hn_parent n of
           Some parent \<Rightarrow> and_then (add_child lesser parent children h) (\<lambda>h. Inr (hp, h))
         | None \<Rightarrow> Inr (hp\<lparr>ph_root := Some children\<rparr>, h))))))"

section \<open>Links and data of a store\<close>

definition links :: "'a heap_store \<Rightarrow> addr \<rightharpoonup> heap_links" where
  "links h p = map_option heap_links.truncate (h p)"

definition heap_data :: "'a heap_store \<Rightarrow> addr \<rightharpoonup> 'a" where
  "heap_data h p = map_option hn_data (h p)"

definition blank_links :: heap_links where
  "blank_links = \<lparr>hn_parent = None, hn_prev = None, hn_next = None, hn_first_child = None\<rparr>"

named_theorems links_wp \<open>rules for reads and writes of the links of a node\<close>

lemma links_dom: "links h p = None \<longleftrightarrow> heap_data h p = None"
  by (simp add: links_def heap_data_def)

lemma links_eq_Some:
  "links h p = Some l \<longleftrightarrow> (\<exists>n. h p = Some n \<and> l = heap_links.truncate n)"
  by (auto simp: links_def)

lemma links_upd: "links (h(p \<mapsto> n)) = (links h)(p \<mapsto> heap_links.truncate n)"
  by (auto simp: links_def)

lemma heap_data_upd: "heap_data (h(p \<mapsto> n)) = (heap_data h)(p \<mapsto> hn_data n)"
  by (auto simp: heap_data_def)

lemma heap_data_at: "h p = Some n \<Longrightarrow> heap_data h p = Some (hn_data n)"
  by (simp add: heap_data_def)

lemma truncate_sel [simp]:
  "hn_parent (heap_links.truncate n) = hn_parent n" "hn_prev (heap_links.truncate n) = hn_prev n"
  "hn_next (heap_links.truncate n) = hn_next n" "hn_first_child (heap_links.truncate n) = hn_first_child n"
  by (simp_all add: heap_links.truncate_def)

lemma deref_links_wp [links_wp]:
  assumes "links h p = Some l"
    and "\<And>n. hn_parent n = hn_parent l \<Longrightarrow> hn_prev n = hn_prev l \<Longrightarrow> hn_next n = hn_next l \<Longrightarrow>
      hn_first_child n = hn_first_child l \<Longrightarrow> heap_data h p = Some (hn_data n) \<Longrightarrow> Q n"
  shows "returns (deref h p) Q"
  using assms by (auto simp: links_eq_Some deref_def heap_data_def)

lemma update_links_wp:
  assumes "links h p = Some l"
    and "\<And>n. heap_links.truncate (g n) = gl (heap_links.truncate n)" "\<And>n. hn_data (g n) = hn_data n"
    and Q: "\<And>h'. links h' = (links h)(p \<mapsto> gl l) \<Longrightarrow> heap_data h' = heap_data h \<Longrightarrow> Q h'"
  shows "returns (update_node p g h) Q"
proof -
  from assms(1) obtain n where n: "h p = Some n" "l = heap_links.truncate n" by (auto simp: links_eq_Some)
  have "links (h(p \<mapsto> g n)) = (links h)(p \<mapsto> gl l)"
    using n assms(2) by (auto simp: links_def)
  moreover have "heap_data (h(p \<mapsto> g n)) = heap_data h"
    using n assms(3) by (auto simp: heap_data_def)
  ultimately show ?thesis using n Q by simp
qed

lemma set_parent_wp [links_wp]:
  "links h p = Some l \<Longrightarrow>
   (\<And>h'. links h' = (links h)(p \<mapsto> l\<lparr>hn_parent := v\<rparr>) \<Longrightarrow> heap_data h' = heap_data h \<Longrightarrow> Q h') \<Longrightarrow>
   returns (set_parent p v h) Q"
  by (rule update_links_wp [where gl = "hn_parent_update (\<lambda>_. v)"]) (simp_all add: heap_links.truncate_def)

lemma set_hprev_wp [links_wp]:
  "links h p = Some l \<Longrightarrow>
   (\<And>h'. links h' = (links h)(p \<mapsto> l\<lparr>hn_prev := v\<rparr>) \<Longrightarrow> heap_data h' = heap_data h \<Longrightarrow> Q h') \<Longrightarrow>
   returns (set_hprev p v h) Q"
  by (rule update_links_wp [where gl = "hn_prev_update (\<lambda>_. v)"]) (simp_all add: heap_links.truncate_def)

lemma set_hnext_wp [links_wp]:
  "links h p = Some l \<Longrightarrow>
   (\<And>h'. links h' = (links h)(p \<mapsto> l\<lparr>hn_next := v\<rparr>) \<Longrightarrow> heap_data h' = heap_data h \<Longrightarrow> Q h') \<Longrightarrow>
   returns (set_hnext p v h) Q"
  by (rule update_links_wp [where gl = "hn_next_update (\<lambda>_. v)"]) (simp_all add: heap_links.truncate_def)

lemma set_first_child_wp [links_wp]:
  "links h p = Some l \<Longrightarrow>
   (\<And>h'. links h' = (links h)(p \<mapsto> l\<lparr>hn_first_child := v\<rparr>) \<Longrightarrow> heap_data h' = heap_data h \<Longrightarrow> Q h') \<Longrightarrow>
   returns (set_first_child p v h) Q"
  by (rule update_links_wp [where gl = "hn_first_child_update (\<lambda>_. v)"]) (simp_all add: heap_links.truncate_def)

lemma heap_update_data_wp:
  assumes "heap_data h p = Some d"
    and "\<And>h'. links h' = links h \<Longrightarrow> heap_data h' = (heap_data h)(p \<mapsto> f d) \<Longrightarrow> Q h'"
  shows "returns (heap_update_data p f h) Q"
proof -
  from assms(1) obtain n where n: "h p = Some n" "d = hn_data n" by (auto simp: heap_data_def)
  have "links (h(p \<mapsto> hn_data_update f n)) = links h"
    using n by (auto simp: links_def heap_links.truncate_def)
  moreover have "heap_data (h(p \<mapsto> hn_data_update f n)) = (heap_data h)(p \<mapsto> f d)"
    using n by (auto simp: heap_data_def)
  ultimately show ?thesis using n assms(2) by (simp add: heap_update_data_def)
qed

lemma returns_heap_is_root [simp]:
  "returns (heap_is_root n) Q \<longleftrightarrow>
    (if hn_parent n = None then hn_prev n = None \<and> hn_next n = None \<and> Q True else Q False)"
  by (simp add: heap_is_root_def)

section \<open>Trees in a store\<close>

text \<open>
  The shape of a heap: a node with the list of its children, from \<open>first_child\<close> on. \<open>linked L par
  prv nxt t\<close> says that the links \<open>L\<close> spell out the tree \<open>t\<close> under the parent \<open>par\<close>, between the
  siblings \<open>prv\<close> and \<open>nxt\<close>; \<open>linked_all\<close> that they spell out a list of siblings.
\<close>

datatype heap_tree = Heap_Tree (ht_root: addr) (ht_children: "heap_tree list")

fun ht_nodes :: "heap_tree \<Rightarrow> addr list" where
  "ht_nodes (Heap_Tree a ts) = a # concat (map ht_nodes ts)"

abbreviation all_nodes :: "heap_tree list \<Rightarrow> addr list" where
  "all_nodes ts \<equiv> concat (map ht_nodes ts)"

definition first_of :: "heap_tree list \<Rightarrow> addr option \<Rightarrow> addr option" where
  "first_of ts nxt = (case ts of [] \<Rightarrow> nxt | t # _ \<Rightarrow> Some (ht_root t))"

definition last_of :: "addr option \<Rightarrow> heap_tree list \<Rightarrow> addr option" where
  "last_of prv ts = (if ts = [] then prv else Some (ht_root (last ts)))"

fun linked :: "(addr \<rightharpoonup> heap_links) \<Rightarrow> addr option \<Rightarrow> addr option \<Rightarrow> addr option \<Rightarrow> heap_tree \<Rightarrow> bool"
  and linked_all :: "(addr \<rightharpoonup> heap_links) \<Rightarrow> addr option \<Rightarrow> addr option \<Rightarrow> heap_tree list \<Rightarrow> addr option \<Rightarrow> bool"
where
  "linked L par prv nxt (Heap_Tree a ts) \<longleftrightarrow>
     L a = Some \<lparr>hn_parent = par, hn_prev = prv, hn_next = nxt, hn_first_child = first_of ts None\<rparr> \<and>
     linked_all L (Some a) None ts None"
| "linked_all L par prv [] nxt \<longleftrightarrow> True"
| "linked_all L par prv (t # ts) nxt \<longleftrightarrow>
     linked L par prv (first_of ts nxt) t \<and> linked_all L par (Some (ht_root t)) ts nxt"

lemma first_of_simps [simp]:
  "first_of [] nxt = nxt" "first_of (t # ts) nxt = Some (ht_root t)"
  by (simp_all add: first_of_def)

lemma last_of_simps [simp]:
  "last_of prv [] = prv" "last_of prv (ts @ [t]) = Some (ht_root t)"
  by (simp_all add: last_of_def)

lemma last_of_Cons [simp]: "last_of prv (t # ts) = last_of (Some (ht_root t)) ts"
  by (simp add: last_of_def)

lemma first_of_append [simp]: "first_of (ts @ us) nxt = first_of ts (first_of us nxt)"
  by (cases ts) simp_all

lemma ht_root_in [simp]: "ht_root t \<in> set (ht_nodes t)"
  by (cases t) simp

lemma linked_all_append [simp]:
  "linked_all L par prv (ts @ us) nxt \<longleftrightarrow>
    linked_all L par prv ts (first_of us nxt) \<and> linked_all L par (last_of prv ts) us nxt"
  by (induction ts arbitrary: prv) auto

lemma linked_frame:
  "(\<And>x. x \<in> set (ht_nodes t) \<Longrightarrow> L' x = L x) \<Longrightarrow> linked L par prv nxt t \<Longrightarrow> linked L' par prv nxt t"
  "(\<And>x. x \<in> set (all_nodes ts) \<Longrightarrow> L' x = L x) \<Longrightarrow> linked_all L par prv ts nxt \<Longrightarrow> linked_all L' par prv ts nxt"
  by (induction L par prv nxt t and L par prv ts nxt rule: linked_linked_all.induct) auto

lemma linked_upd_outside [simp]:
  "p \<notin> set (ht_nodes t) \<Longrightarrow> linked (L(p := l)) par prv nxt t = linked L par prv nxt t"
  "p \<notin> set (all_nodes ts) \<Longrightarrow> linked_all (L(p := l)) par prv ts nxt = linked_all L par prv ts nxt"
  by (rule iffI; erule linked_frame(1) [rotated]; auto) (rule iffI; erule linked_frame(2) [rotated]; auto)

lemma linked_root:
  "linked L par prv nxt t \<Longrightarrow> L (ht_root t) = Some \<lparr>hn_parent = par, hn_prev = prv, hn_next = nxt,
     hn_first_child = first_of (ht_children t) None\<rparr>"
  by (cases t) simp

lemma linked_node:
  assumes "linked (links h) par prv nxt t"
  obtains n where "h (ht_root t) = Some n" "hn_parent n = par" "hn_prev n = prv" "hn_next n = nxt"
    "hn_first_child n = first_of (ht_children t) None"
  using linked_root [OF assms] that by (auto simp: links_eq_Some heap_links.truncate_def)

lemma linked_dom:
  "linked L par prv nxt t \<Longrightarrow> x \<in> set (ht_nodes t) \<Longrightarrow> L x \<noteq> None"
  "linked_all L par prv ts nxt \<Longrightarrow> x \<in> set (all_nodes ts) \<Longrightarrow> L x \<noteq> None"
  by (induction L par prv nxt t and L par prv ts nxt rule: linked_linked_all.induct) auto

text \<open>What an operation changes: only links, and only those of the given nodes.\<close>

definition relinks :: "addr set \<Rightarrow> 'a heap_store \<Rightarrow> 'a heap_store \<Rightarrow> bool" where
  "relinks A h h' \<longleftrightarrow> heap_data h' = heap_data h \<and> (\<forall>x. x \<notin> A \<longrightarrow> links h' x = links h x)"

lemma relinks_refl [simp]: "relinks A h h"
  by (simp add: relinks_def)

lemma relinks_trans: "relinks A h h' \<Longrightarrow> relinks B h' h'' \<Longrightarrow> A \<union> B \<subseteq> C \<Longrightarrow> relinks C h h''"
  unfolding relinks_def by (metis UnCI subsetD)

lemma relinks_upd:
  "links h' = (links h)(p \<mapsto> l) \<Longrightarrow> heap_data h' = heap_data h \<Longrightarrow> p \<in> A \<Longrightarrow> relinks A h h'"
  by (auto simp: relinks_def)

lemma relinks_linked:
  "relinks A h h' \<Longrightarrow> A \<inter> set (ht_nodes t) = {} \<Longrightarrow> linked (links h) par prv nxt t \<Longrightarrow> linked (links h') par prv nxt t"
  "relinks A h h' \<Longrightarrow> A \<inter> set (all_nodes ts) = {} \<Longrightarrow> linked_all (links h) par prv ts nxt \<Longrightarrow>
    linked_all (links h') par prv ts nxt"
  by (auto simp: relinks_def elim!: linked_frame [rotated])

section \<open>The functional pairing heap\<close>

text \<open>The same operations on trees; \<open>D\<close> gives the data of a node.\<close>

definition tree_meld :: "('a \<Rightarrow> 'a \<Rightarrow> bool) \<Rightarrow> (addr \<Rightarrow> 'a) \<Rightarrow> heap_tree \<Rightarrow> heap_tree \<Rightarrow> heap_tree" where
  "tree_meld lesser D t u =
     (if lesser (D (ht_root t)) (D (ht_root u))
      then Heap_Tree (ht_root t) (u # ht_children t)
      else Heap_Tree (ht_root u) (t # ht_children u))"

definition tree_maybe_meld ::
  "('a \<Rightarrow> 'a \<Rightarrow> bool) \<Rightarrow> (addr \<Rightarrow> 'a) \<Rightarrow> heap_tree option \<Rightarrow> heap_tree \<Rightarrow> heap_tree" where
  "tree_maybe_meld lesser D cur u = (case cur of Some t \<Rightarrow> tree_meld lesser D t u | None \<Rightarrow> u)"

text \<open>Merging a list of siblings in pairs, from the last one on; the list comes reversed.\<close>

fun tree_merge ::
  "('a \<Rightarrow> 'a \<Rightarrow> bool) \<Rightarrow> (addr \<Rightarrow> 'a) \<Rightarrow> heap_tree option \<Rightarrow> heap_tree list \<Rightarrow> heap_tree option" where
  "tree_merge lesser D cur [] = cur"
| "tree_merge lesser D cur [t] = Some (tree_maybe_meld lesser D cur t)"
| "tree_merge lesser D cur (t # u # ts) =
     tree_merge lesser D (Some (tree_maybe_meld lesser D cur (tree_meld lesser D u t))) ts"

abbreviation opt_list :: "heap_tree option \<Rightarrow> heap_tree list" where
  "opt_list cur \<equiv> (case cur of None \<Rightarrow> [] | Some t \<Rightarrow> [t])"

text \<open>Taking out a node below the root: its children, merged, become the first child of its parent.\<close>

fun tree_remove_below ::
  "('a \<Rightarrow> 'a \<Rightarrow> bool) \<Rightarrow> (addr \<Rightarrow> 'a) \<Rightarrow> addr \<Rightarrow> heap_tree \<Rightarrow> heap_tree" where
  "tree_remove_below lesser D a (Heap_Tree p ts) =
     (case find (\<lambda>t. ht_root t = a) ts of
        Some t \<Rightarrow> Heap_Tree p (opt_list (tree_merge lesser D None (rev (ht_children t))) @
                   filter (\<lambda>t. ht_root t \<noteq> a) ts)
      | None \<Rightarrow> Heap_Tree p (map (tree_remove_below lesser D a) ts))"

definition tree_insert ::
  "('a \<Rightarrow> 'a \<Rightarrow> bool) \<Rightarrow> (addr \<Rightarrow> 'a) \<Rightarrow> heap_tree option \<Rightarrow> addr \<Rightarrow> heap_tree option" where
  "tree_insert lesser D T a = Some (tree_maybe_meld lesser D T (Heap_Tree a []))"

definition tree_remove ::
  "('a \<Rightarrow> 'a \<Rightarrow> bool) \<Rightarrow> (addr \<Rightarrow> 'a) \<Rightarrow> heap_tree option \<Rightarrow> addr \<Rightarrow> heap_tree option" where
  "tree_remove lesser D T a =
     (case T of
        None \<Rightarrow> None
      | Some t \<Rightarrow> if ht_root t = a then tree_merge lesser D None (rev (ht_children t))
                 else Some (tree_remove_below lesser D a t))"

lemma tree_merge_None: "tree_merge lesser D cur ts = None \<longleftrightarrow> cur = None \<and> ts = []"
  by (induction lesser D cur ts rule: tree_merge.induct) auto

section \<open>The pointer operations implement those on trees\<close>

abbreviation heap_val :: "'a heap_store \<Rightarrow> addr \<Rightarrow> 'a" where
  "heap_val h a \<equiv> the (heap_data h a)"

lemma add_child_wp:
  assumes t: "linked (links h) par prv nxt t" and u: "linked (links h) par' None None u"
    and dist: "distinct (ht_nodes t @ ht_nodes u)"
    and ord: "\<not> lesser (heap_val h (ht_root u)) (heap_val h (ht_root t))"
    and Q: "\<And>h'. linked (links h') par prv nxt (Heap_Tree (ht_root t) (u # ht_children t)) \<Longrightarrow>
      relinks (set (ht_nodes t @ ht_nodes u)) h h' \<Longrightarrow> Q h'"
  shows "returns (add_child lesser (ht_root t) (ht_root u) h) Q"
proof -
  obtain p ts where tt: "t = Heap_Tree p ts" by (cases t)
  obtain c cs where uu: "u = Heap_Tree c cs" by (cases u)
  obtain np where np: "h p = Some np" "hn_parent np = par" "hn_prev np = prv" "hn_next np = nxt"
      "hn_first_child np = first_of ts None"
    using t unfolding tt by (rule linked_node) simp_all
  obtain nc where nc: "h c = Some nc" "hn_parent nc = par'" "hn_prev nc = None" "hn_next nc = None"
      "hn_first_child nc = first_of cs None"
    using u unfolding uu by (rule linked_node) simp_all
  note run = add_child_def safe_lesser_def relinks_def links_upd heap_data_upd heap_data_at fun_upd_idem
    heap_links.truncate_def
  have "returns (add_child lesser p c h)
      (\<lambda>h'. linked (links h') par prv nxt (Heap_Tree p (u # ts)) \<and> relinks (set (ht_nodes t @ ht_nodes u)) h h')"
  proof (cases ts)
    case Nil
    have "p \<noteq> c" "\<forall>x\<in>{p, c}. x \<notin> set (all_nodes cs)" using dist tt uu by auto
    with t u ord np nc tt uu Nil show ?thesis by (simp add: run)
  next
    case (Cons s us)
    obtain b bs where s: "s = Heap_Tree b bs" by (cases s)
    from t tt Cons have "linked (links h) (Some p) None (first_of us None) s" by simp
    then obtain nb where nb: "h b = Some nb" "hn_parent nb = Some p" "hn_prev nb = None" "hn_next nb = first_of us None"
        "hn_first_child nb = first_of bs None"
      unfolding s by (rule linked_node) simp_all
    have "distinct [p, c, b]" "\<forall>x\<in>{p, c, b}. x \<notin> set (all_nodes cs) \<and> x \<notin> set (all_nodes bs) \<and> x \<notin> set (all_nodes us)"
      using dist tt uu Cons s by auto
    with t u ord np nc nb tt uu Cons s show ?thesis by (simp add: run)
  qed
  then show ?thesis using tt uu Q by (auto simp: returns_iff)
qed

text \<open>A detached tree: its root has neither parent nor siblings.\<close>

abbreviation detached :: "'a heap_store \<Rightarrow> heap_tree \<Rightarrow> bool" where
  "detached h t \<equiv> linked (links h) None None None t"

abbreviation opt_nodes :: "heap_tree option \<Rightarrow> addr list" where
  "opt_nodes T \<equiv> all_nodes (opt_list T)"

lemma tree_meld_nodes [simp]:
  "set (ht_nodes (tree_meld lesser D t u)) = set (ht_nodes t) \<union> set (ht_nodes u)"
  "distinct (ht_nodes (tree_meld lesser D t u)) \<longleftrightarrow> distinct (ht_nodes t @ ht_nodes u)"
  by (cases t; cases u; auto simp: tree_meld_def)+

lemma tree_maybe_meld_nodes [simp]:
  "set (ht_nodes (tree_maybe_meld lesser D cur u)) = set (opt_nodes cur) \<union> set (ht_nodes u)"
  "distinct (ht_nodes (tree_maybe_meld lesser D cur u)) \<longleftrightarrow> distinct (opt_nodes cur @ ht_nodes u)"
  by (auto simp: tree_maybe_meld_def split: option.splits)

lemma tree_merge_nodes [simp]:
  "set (opt_nodes (tree_merge lesser D cur ts)) = set (opt_nodes cur) \<union> set (all_nodes ts)"
  "distinct (opt_nodes (tree_merge lesser D cur ts)) \<longleftrightarrow> distinct (opt_nodes cur @ all_nodes ts)"
  by (induction lesser D cur ts rule: tree_merge.induct) auto

lemma distinct_all_nodes_rev [simp]: "distinct (all_nodes (rev ts)) \<longleftrightarrow> distinct (all_nodes ts)"
  by (induction ts) auto

lemma heap_val_relinks: "relinks A h h' \<Longrightarrow> heap_val h' = heap_val h"
  by (auto simp: relinks_def)

lemma take_parent_wp:
  assumes "linked (links h) par prv nxt t" "distinct (ht_nodes t)"
    and Q: "\<And>h'. linked (links h') None prv nxt t \<Longrightarrow> relinks {ht_root t} h h' \<Longrightarrow> Q h'"
  shows "returns (take_parent par (ht_root t) h) Q"
  using assms(1,2) by (cases t) (auto simp: take_parent_def relinks_def intro!: links_wp Q)

lemma unlink_prev_wp:
  assumes ts: "linked_all (links h) par None ts (Some (ht_root t))"
    and t: "linked (links h) par' (last_of None ts) None t" and dist: "distinct (all_nodes (ts @ [t]))"
    and Q: "\<And>h'. linked_all (links h') par None ts None \<Longrightarrow> linked (links h') par' None None t \<Longrightarrow>
      relinks (set (all_nodes (ts @ [t]))) h h' \<Longrightarrow> Q (last_of None ts, h')"
  shows "returns (unlink_prev (ht_root t) h) Q"
proof -
  obtain a cs where tt: "t = Heap_Tree a cs" by (cases t)
  show ?thesis
  proof (cases ts rule: rev_cases)
    case Nil
    show ?thesis
      using t dist Q [unfolded Nil tt]
      by (auto simp: unlink_prev_def tt Nil relinks_def intro!: links_wp)
  next
    case (snoc us u)
    obtain b bs where u: "u = Heap_Tree b bs" by (cases u)
    show ?thesis
      using ts t dist Q [unfolded snoc tt u]
      by (auto simp: unlink_prev_def tt snoc u relinks_def intro!: links_wp)
  qed
qed

text \<open>The same two facts as runs of the code, for the steps of the loop below.\<close>

lemma take_parent_run:
  assumes "linked (links h) par prv nxt t" "distinct (ht_nodes t)"
  obtains h' where "take_parent par (ht_root t) h = Inr h'" "linked (links h') None prv nxt t"
    "relinks {ht_root t} h h'"
  using take_parent_wp [OF assms, where Q = "\<lambda>h'. linked (links h') None prv nxt t \<and> relinks {ht_root t} h h'"]
  by (auto simp: returns_iff)

lemma unlink_prev_run:
  assumes "linked_all (links h) par None ts (Some (ht_root t))"
    and "linked (links h) par' (last_of None ts) None t" "distinct (all_nodes (ts @ [t]))"
  obtains h' where "unlink_prev (ht_root t) h = Inr (last_of None ts, h')" "linked_all (links h') par None ts None"
    "linked (links h') par' None None t" "relinks (set (all_nodes (ts @ [t]))) h h'"
proof -
  have "returns (unlink_prev (ht_root t) h) (\<lambda>(p, h'). p = last_of None ts \<and> linked_all (links h') par None ts None \<and>
      linked (links h') par' None None t \<and> relinks (set (all_nodes (ts @ [t]))) h h')"
    by (rule unlink_prev_wp [OF assms]) simp_all
  then show ?thesis using that by (auto simp: returns_iff)
qed

locale weak_order =
  fixes lesser :: "'a \<Rightarrow> 'a \<Rightarrow> bool"
  assumes asym: "lesser a b \<Longrightarrow> \<not> lesser b a"
    and not_lesser_trans: "\<not> lesser b a \<Longrightarrow> \<not> lesser c b \<Longrightarrow> \<not> lesser c a"
begin

lemma meld_wp:
  assumes t: "detached h t" and u: "detached h u" and dist: "distinct (ht_nodes t @ ht_nodes u)"
    and Q: "\<And>h'. detached h' (tree_meld lesser (heap_val h) t u) \<Longrightarrow>
      relinks (set (ht_nodes t @ ht_nodes u)) h h' \<Longrightarrow> Q (ht_root (tree_meld lesser (heap_val h) t u), h')"
  shows "returns (meld lesser (ht_root t) (ht_root u) h) Q"
proof -
  let ?t = "ht_root t" and ?u = "ht_root u"
  have dist': "distinct (ht_nodes u @ ht_nodes t)" using dist by auto
  have lu: "links h ?u = Some \<lparr>hn_parent = None, hn_prev = None, hn_next = None,
      hn_first_child = first_of (ht_children u) None\<rparr>"
    and lt: "links h ?t = Some \<lparr>hn_parent = None, hn_prev = None, hn_next = None,
      hn_first_child = first_of (ht_children t) None\<rparr>"
    using linked_root [OF t] linked_root [OF u] by simp_all
  show ?thesis
  proof (cases "lesser (heap_val h ?t) (heap_val h ?u)")
    case True
    then show ?thesis
      using lt lu asym [OF True] Q [unfolded tree_meld_def]
      by (auto simp: meld_def safe_lesser_def intro!: links_wp add_child_wp [OF t u dist])
  next
    case False
    then show ?thesis
      using lt lu Q [unfolded tree_meld_def]
      by (auto simp: meld_def safe_lesser_def Un_commute intro!: links_wp add_child_wp [OF u t dist'])
  qed
qed

lemma meld_run:
  assumes "detached h t" "detached h u" "distinct (ht_nodes t @ ht_nodes u)"
  obtains h' where "meld lesser (ht_root t) (ht_root u) h = Inr (ht_root (tree_meld lesser (heap_val h) t u), h')"
    "detached h' (tree_meld lesser (heap_val h) t u)" "relinks (set (ht_nodes t @ ht_nodes u)) h h'"
proof -
  have "returns (meld lesser (ht_root t) (ht_root u) h) (\<lambda>(r, h'). r = ht_root (tree_meld lesser (heap_val h) t u) \<and>
      detached h' (tree_meld lesser (heap_val h) t u) \<and> relinks (set (ht_nodes t @ ht_nodes u)) h h')"
    by (rule meld_wp [OF assms]) simp_all
  then show ?thesis using that by (auto simp: returns_iff)
qed

lemma maybe_meld_run:
  assumes "\<And>c. cur = Some c \<Longrightarrow> detached h c" "detached h u" "distinct (opt_nodes cur @ ht_nodes u)"
  obtains h' where "maybe_meld lesser (map_option ht_root cur) (ht_root u) h =
      Inr (ht_root (tree_maybe_meld lesser (heap_val h) cur u), h')"
    "detached h' (tree_maybe_meld lesser (heap_val h) cur u)" "relinks (set (opt_nodes cur @ ht_nodes u)) h h'"
proof (cases cur)
  case None
  show ?thesis
    by (rule that [of h]) (use None assms(2) in \<open>simp_all add: maybe_meld_def tree_maybe_meld_def\<close>)
next
  case (Some c)
  with assms have "detached h c" "distinct (ht_nodes c @ ht_nodes u)" by simp_all
  from meld_run [OF this(1) assms(2) this(2)] obtain h' where
    "meld lesser (ht_root c) (ht_root u) h = Inr (ht_root (tree_meld lesser (heap_val h) c u), h')"
    "detached h' (tree_meld lesser (heap_val h) c u)" "relinks (set (ht_nodes c @ ht_nodes u)) h h'" .
  with Some show ?thesis
    by (intro that [of h']) (simp_all add: maybe_meld_def tree_maybe_meld_def)
qed

lemma merge_single_run:
  assumes t: "linked (links h) par None None t" and cur: "\<And>c. cur = Some c \<Longrightarrow> detached h c"
    and dist: "distinct (ht_nodes t @ opt_nodes cur)"
  defines "m \<equiv> tree_maybe_meld lesser (heap_val h) cur t"
  obtains h' where "merge_children_step lesser par (ht_root t) (map_option ht_root cur) h = Inr (Inl (ht_root m), h')"
    "detached h' m" "relinks (set (ht_nodes t @ opt_nodes cur)) h h'"
proof -
  let ?N = "set (ht_nodes t @ opt_nodes cur)"
  have dt: "distinct (ht_nodes t)" using dist by simp
  obtain h1 where 1: "take_parent par (ht_root t) h = Inr h1" "detached h1 t" "relinks {ht_root t} h h1"
    by (rule take_parent_run [OF t dt])
  obtain h2 where 2: "unlink_prev (ht_root t) h1 = Inr (None, h2)" "detached h2 t" "relinks (set (ht_nodes t)) h1 h2"
    by (rule unlink_prev_run [of h1 None "[]" t None]) (use 1(2) dt in auto)
  have h2: "relinks (set (ht_nodes t)) h h2" by (rule relinks_trans [OF 1(3) 2(3)]) simp
  have cur2: "detached h2 c" if "cur = Some c" for c
    using cur [OF that] dist that by (intro relinks_linked(1) [OF h2]) auto
  have dist': "distinct (opt_nodes cur @ ht_nodes t)" using dist by auto
  obtain h3 where 3: "maybe_meld lesser (map_option ht_root cur) (ht_root t) h2 = Inr (ht_root m, h3)"
      "detached h3 m" "relinks (set (opt_nodes cur @ ht_nodes t)) h2 h3"
    by (rule maybe_meld_run [OF cur2 2(2) dist']) (simp_all add: m_def heap_val_relinks [OF h2])
  have "relinks ?N h h3" by (rule relinks_trans [OF h2 3(3)]) auto
  with 1 2 3 that show ?thesis by (simp add: merge_children_step_def)
qed

lemma merge_pair_run:
  assumes ts: "linked_all (links h) par None (ts @ [u, t]) None" and cur: "\<And>c. cur = Some c \<Longrightarrow> detached h c"
    and dist: "distinct (all_nodes (ts @ [u, t]) @ opt_nodes cur)"
  defines "m \<equiv> tree_maybe_meld lesser (heap_val h) cur (tree_meld lesser (heap_val h) u t)"
  obtains h' where "merge_children_step lesser par (ht_root t) (map_option ht_root cur) h =
      Inr (case last_of None ts of None \<Rightarrow> Inl (ht_root m) | Some v \<Rightarrow> Inr (v, ht_root m), h')"
    "detached h' m" "linked_all (links h') par None ts None"
    "relinks (set (all_nodes (ts @ [u, t]) @ opt_nodes cur)) h h'"
proof -
  let ?D = "heap_val h" and ?N = "set (all_nodes (ts @ [u, t]) @ opt_nodes cur)"
  have d: "distinct (ht_nodes t)" "distinct (ht_nodes u)" "distinct (all_nodes ((ts @ [u]) @ [t]))"
    "distinct (all_nodes (ts @ [u]))"
    using dist by auto
  have l: "linked (links h) par (Some (ht_root u)) None t" "linked_all (links h) par None (ts @ [u]) (Some (ht_root t))"
    using ts by simp_all
  obtain h1 where 1: "take_parent par (ht_root t) h = Inr h1" "linked (links h1) None (Some (ht_root u)) None t"
      "relinks {ht_root t} h h1"
    by (rule take_parent_run [OF l(1) d(1)])
  have ts1: "linked_all (links h1) par None (ts @ [u]) (Some (ht_root t))"
    using l(2) dist by (intro relinks_linked(2) [OF 1(3)]) auto
  obtain h2 where 2: "unlink_prev (ht_root t) h1 = Inr (Some (ht_root u), h2)" "linked_all (links h2) par None (ts @ [u]) None"
      "detached h2 t" "relinks (set (all_nodes ((ts @ [u]) @ [t]))) h1 h2"
    by (rule unlink_prev_run [OF ts1 _ d(3), of None]) (use 1(2) in auto)
  have "linked (links h2) par (last_of None ts) None u" using 2(2) by simp
  then obtain h3 where 3: "take_parent par (ht_root u) h2 = Inr h3" "linked (links h3) None (last_of None ts) None u"
      "relinks {ht_root u} h2 h3"
    by (rule take_parent_run [OF _ d(2)])
  have ts3: "linked_all (links h3) par None ts (Some (ht_root u))" "detached h3 t"
    using 2(2,3) dist ht_root_in [of u] by (auto intro!: relinks_linked [OF 3(3)] simp del: ht_root_in)
  obtain h4 where 4: "unlink_prev (ht_root u) h3 = Inr (last_of None ts, h4)" "linked_all (links h4) par None ts None"
      "detached h4 u" "relinks (set (all_nodes (ts @ [u]))) h3 h4"
    by (rule unlink_prev_run [OF ts3(1) 3(2) d(4)])
  have t4: "detached h4 t"
    by (rule relinks_linked(1) [OF 4(4) _ ts3(2)]) (use dist in auto)
  have h2: "relinks (set (all_nodes (ts @ [u, t]))) h h2" by (rule relinks_trans [OF 1(3) 2(4)]) auto
  have h3: "relinks (set (all_nodes (ts @ [u, t]))) h h3" by (rule relinks_trans [OF h2 3(3)]) auto
  have h4: "relinks (set (all_nodes (ts @ [u, t]))) h h4" by (rule relinks_trans [OF h3 4(4)]) auto
  obtain h5 where 5: "meld lesser (ht_root u) (ht_root t) h4 = Inr (ht_root (tree_meld lesser ?D u t), h5)"
      "detached h5 (tree_meld lesser ?D u t)" "relinks (set (ht_nodes u @ ht_nodes t)) h4 h5"
    by (rule meld_run [OF 4(3) t4]) (use dist in \<open>auto simp: heap_val_relinks [OF h4]\<close>)
  have h5: "relinks (set (all_nodes (ts @ [u, t]))) h h5" by (rule relinks_trans [OF h4 5(3)]) auto
  have ts5: "linked_all (links h5) par None ts None"
    by (rule relinks_linked(2) [OF 5(3) _ 4(2)]) (use dist in auto)
  have cur5: "detached h5 c" if "cur = Some c" for c
    using cur [OF that] dist that by (intro relinks_linked(1) [OF h5]) auto
  obtain h6 where 6: "maybe_meld lesser (map_option ht_root cur) (ht_root (tree_meld lesser ?D u t)) h5 = Inr (ht_root m, h6)"
      "detached h6 m" "relinks (set (opt_nodes cur @ ht_nodes (tree_meld lesser ?D u t))) h5 h6"
    by (rule maybe_meld_run [OF cur5 5(2)]) (use dist in \<open>auto simp: m_def heap_val_relinks [OF h5]\<close>)
  have "relinks ?N h h6" by (rule relinks_trans [OF h5 6(3)]) auto
  moreover have "linked_all (links h6) par None ts None"
    by (rule relinks_linked(2) [OF 6(3) _ ts5]) (use dist in auto)
  ultimately show ?thesis
    using 1(1) 2(1) 3(1) 4(1) 5(1) 6(1,2)
    by (intro that [of h6]) (simp_all add: merge_children_step_def split: option.split)
qed

lemma last_child_run:
  "linked_all (links h) par prv (ts @ [t]) None \<Longrightarrow>
   run_loop (last_child_loop (ht_root (hd (ts @ [t]))) h) = Inr (ht_root t)"
proof (induction ts arbitrary: prv)
  case Nil
  then have "linked (links h) par prv None t" by simp
  then obtain n where "h (ht_root t) = Some n" "hn_next n = None" by (rule linked_node)
  then show ?case by (simp add: last_child_loop.simps)
next
  case (Cons u ts)
  then have "linked (links h) par prv (Some (ht_root (hd (ts @ [t])))) u"
    by (cases ts) simp_all
  then obtain n where "h (ht_root u) = Some n" "hn_next n = Some (ht_root (hd (ts @ [t])))" by (rule linked_node)
  then show ?case
    using Cons.IH [of "Some (ht_root u)"] Cons.prems by (simp add: last_child_loop.simps [of "ht_root u"])
qed

lemma merge_loop_run:
  assumes "rts \<noteq> []" "linked_all (links h) par None (rev rts) None" "\<And>c. cur = Some c \<Longrightarrow> detached h c"
    and "distinct (all_nodes (rev rts) @ opt_nodes cur)"
  shows "\<exists>m h'. run_loop (merge_children_loop lesser par (ht_root (hd rts)) (map_option ht_root cur) h) = Inr (ht_root m, h') \<and>
    tree_merge lesser (heap_val h) cur rts = Some m \<and> detached h' m \<and> relinks (set (all_nodes rts @ opt_nodes cur)) h h'"
  using assms
proof (induction "length rts" arbitrary: rts cur h rule: less_induct)
  case less
  show ?case
  proof (cases rts)
    case Nil
    with less.prems show ?thesis by simp
  next
    case (Cons t rest)
    show ?thesis
    proof (cases rest)
      case Nil
      have "linked (links h) par None None t" "distinct (ht_nodes t @ opt_nodes cur)"
        using less.prems Cons Nil by simp_all
      from merge_single_run [OF this(1) less.prems(3) this(2)] obtain h' where
        "merge_children_step lesser par (ht_root t) (map_option ht_root cur) h =
          Inr (Inl (ht_root (tree_maybe_meld lesser (heap_val h) cur t)), h')"
        "detached h' (tree_maybe_meld lesser (heap_val h) cur t)" "relinks (set (ht_nodes t @ opt_nodes cur)) h h'"
        by blast
      with Cons Nil show ?thesis by (simp add: merge_children_loop.simps)
    next
      case (Cons u ts)
      let ?m = "tree_maybe_meld lesser (heap_val h) cur (tree_meld lesser (heap_val h) u t)"
      note rts = \<open>rts = t # rest\<close> Cons
      have "linked_all (links h) par None (rev ts @ [u, t]) None" "distinct (all_nodes (rev ts @ [u, t]) @ opt_nodes cur)"
        using less.prems rts by simp_all
      from merge_pair_run [OF this(1) less.prems(3) this(2)] obtain h' where h':
        "merge_children_step lesser par (ht_root t) (map_option ht_root cur) h =
          Inr (case last_of None (rev ts) of None \<Rightarrow> Inl (ht_root ?m) | Some v \<Rightarrow> Inr (v, ht_root ?m), h')"
        "detached h' ?m" "linked_all (links h') par None (rev ts) None"
        "relinks (set (all_nodes (rev ts @ [u, t]) @ opt_nodes cur)) h h'"
        by blast
      show ?thesis
      proof (cases ts)
        case Nil
        with h' rts show ?thesis by (simp add: merge_children_loop.simps Un_assoc Un_left_commute)
      next
        case (Cons v vs)
        have "distinct (all_nodes (rev ts) @ opt_nodes (Some ?m))"
          using less.prems(4) rts by auto
        then obtain m h'' where m: "run_loop (merge_children_loop lesser par (ht_root v) (Some (ht_root ?m)) h') = Inr (ht_root m, h'')"
          "tree_merge lesser (heap_val h') (Some ?m) ts = Some m" "detached h'' m"
          "relinks (set (all_nodes ts @ opt_nodes (Some ?m))) h' h''"
          using less.hyps [of ts h' "Some ?m"] h'(2,3) rts Cons by auto
        have "relinks (set (all_nodes rts @ opt_nodes cur)) h h''"
          by (rule relinks_trans [OF h'(4) m(4)]) (use rts in auto)
        with m(1,2,3) h' rts Cons show ?thesis
          by (simp add: heap_val_relinks [OF h'(4)] merge_children_loop.simps [of lesser par "ht_root t"])
      qed
    qed
  qed
qed

lemma merge_children_run:
  assumes "linked_all (links h) (Some p) None ts None" "ts \<noteq> []" "distinct (all_nodes ts)"
  obtains m h' where "merge_children lesser (ht_root (hd ts)) h = Inr (ht_root m, h')"
    "tree_merge lesser (heap_val h) None (rev ts) = Some m" "detached h' m" "relinks (set (all_nodes ts)) h h'"
proof -
  from assms(2) obtain us t where ts: "ts = us @ [t]" by (cases ts rule: rev_cases) auto
  from assms(1,2) have "linked (links h) (Some p) None (first_of (tl ts) None) (hd ts)" by (cases ts) simp_all
  then obtain n where "h (ht_root (hd ts)) = Some n" "hn_parent n = Some p" by (rule linked_node)
  moreover have "run_loop (last_child_loop (ht_root (hd ts)) h) = Inr (ht_root t)"
    using last_child_run [of h "Some p" None us t] assms(1) ts by simp
  moreover obtain m h' where "run_loop (merge_children_loop lesser (Some p) (ht_root t) None h) = Inr (ht_root m, h')"
    "tree_merge lesser (heap_val h) None (rev ts) = Some m" "detached h' m" "relinks (set (all_nodes ts)) h h'"
    using merge_loop_run [of "rev ts" h "Some p" None] assms ts by (auto simp: Un_commute)
  ultimately show ?thesis
    by (intro that [of m h']) (auto simp: merge_children_def last_child_def)
qed

end

end
