(* ===== verification/Pairing_Heap_Queue.thy ===== *)
theory Pairing_Heap_Queue
  imports Pairing_Heap
begin

text \<open>
  Removal from the pairing heap of \<^verbatim>\<open>src/intrusive_pairing_heap.rs\<close> at any position, and the
  heap as a priority queue: \<open>ht_rep\<close> relates a store to an ordered tree, the operations of
  \<^verbatim>\<open>Pairing_Heap\<close> do to the store what the functional heap does to the tree, and the locale
  \<open>priority_queue\<close>, interpreted for every weak order, is what the timer relies on.
\<close>

text \<open>
  The order of a heap: no child is lesser than its parent.
\<close>

fun heap_ordered :: "('a \<Rightarrow> 'a \<Rightarrow> bool) \<Rightarrow> (addr \<Rightarrow> 'a) \<Rightarrow> heap_tree \<Rightarrow> bool" where
  "heap_ordered lesser D (Heap_Tree a ts) \<longleftrightarrow>
     (\<forall>t\<in>set ts. \<not> lesser (D (ht_root t)) (D a) \<and> heap_ordered lesser D t)"

lemma heap_ordered_cong:
  "(\<And>x. x \<in> set (ht_nodes t) \<Longrightarrow> D' x = D x) \<Longrightarrow> heap_ordered lesser D' t = heap_ordered lesser D t"
  by (induction t) (simp, metis ht_root_in)

lemma heap_ordered_children:
  "heap_ordered lesser D t \<Longrightarrow> u \<in> set (ht_children t) \<Longrightarrow>
    \<not> lesser (D (ht_root u)) (D (ht_root t)) \<and> heap_ordered lesser D u"
  by (cases t) simp

lemma tree_remove_below_root [simp]: "ht_root (tree_remove_below lesser D a t) = ht_root t"
  by (cases t) (simp split: option.split)

lemma tree_remove_below_absent: "a \<notin> set (ht_nodes t) \<Longrightarrow> tree_remove_below lesser D a t = t"
proof (induction t)
  case (Heap_Tree p ts)
  have "find (\<lambda>t. ht_root t = a) ts = None"
    using Heap_Tree.prems ht_root_in by (fastforce simp: find_None_iff)
  with Heap_Tree show ?case by (auto intro!: map_idI)
qed

lemma child_split:
  assumes "t \<in> set ts" "distinct (all_nodes ts)" "a \<in> set (ht_nodes t)"
  obtains us vs where "ts = us @ t # vs" "a \<notin> set (all_nodes us)" "a \<notin> set (all_nodes vs)"
proof -
  from assms(1) obtain us vs where "ts = us @ t # vs" by (auto simp: in_set_conv_decomp)
  moreover from this assms have "a \<notin> set (all_nodes us)" "a \<notin> set (all_nodes vs)" by auto
  ultimately show ?thesis by (rule that)
qed

lemma find_child:
  assumes "find (\<lambda>t. ht_root t = a) ts = Some t" "distinct (all_nodes ts)"
  obtains us vs where "ht_root t = a" "ts = us @ t # vs" "filter (\<lambda>t. ht_root t \<noteq> a) ts = us @ vs"
proof -
  from assms(1) have t: "ht_root t = a" "t \<in> set ts" by (auto simp: find_Some_iff)
  with ht_root_in [of t] have "a \<in> set (ht_nodes t)" by simp
  from child_split [OF t(2) assms(2) this] obtain us vs where
    s: "ts = us @ t # vs" "a \<notin> set (all_nodes us)" "a \<notin> set (all_nodes vs)" .
  then have "\<forall>u\<in>set (us @ vs). ht_root u \<noteq> a" using ht_root_in by fastforce
  with that s t(1) show ?thesis by (simp add: filter_id_conv)
qed

lemma unlink_wp:
  assumes t: "linked (links h) par prv nxt (Heap_Tree p (ts @ Heap_Tree a cs # us))"
    and dist: "distinct (ht_nodes (Heap_Tree p (ts @ Heap_Tree a cs # us)))"
    and n: "hn_prev n = last_of None ts" "hn_next n = first_of us None"
  shows "returns (and_then (set_parent a None h) (heap_unlink n p a))
    (\<lambda>h'. linked (links h') par prv nxt (Heap_Tree p (ts @ us)) \<and>
       links h' a = Some (blank_links\<lparr>hn_first_child := first_of cs None\<rparr>) \<and>
       linked_all (links h') (Some a) None cs None \<and>
       relinks (set (ht_nodes (Heap_Tree p (ts @ Heap_Tree a cs # us)))) h h')"
proof -
  have "linked (links h) (Some p) (last_of None ts) (first_of us None) (Heap_Tree a cs)" using t by simp
  then obtain na where na: "h a = Some na" "hn_parent na = Some p" "hn_prev na = last_of None ts"
      "hn_next na = first_of us None" "hn_first_child na = first_of cs None"
    by (rule linked_node) simp_all
  from t obtain np where np: "h p = Some np" "hn_parent np = par" "hn_prev np = prv" "hn_next np = nxt"
      "hn_first_child np = first_of (ts @ Heap_Tree a cs # us) None"
    by (rule linked_node) simp_all
  note a_p = na np
  note run = heap_unlink_def blank_links_def relinks_def links_upd heap_data_upd heap_data_at fun_upd_idem heap_links.truncate_def
  show ?thesis
  proof (cases ts rule: rev_cases)
    case Nil
    show ?thesis
    proof (cases us)
      case Nil
      have "distinct [p, a]" "\<forall>x\<in>{p, a}. x \<notin> set (all_nodes cs)"
        using dist \<open>ts = []\<close> Nil by auto
      with \<open>ts = []\<close> Nil t n a_p show ?thesis by (simp add: run)
    next
      case (Cons v vs)
      obtain b bs where v: "v = Heap_Tree b bs" by (cases v)
      from t \<open>ts = []\<close> Cons have "linked (links h) (Some p) (Some a) (first_of vs None) v" by simp
      then obtain nb where nb: "h b = Some nb" "hn_parent nb = Some p" "hn_prev nb = Some a" "hn_next nb = first_of vs None"
          "hn_first_child nb = first_of bs None"
        unfolding v by (rule linked_node) simp_all
      have "distinct [p, a, b]" "\<forall>x\<in>{p, a, b}. x \<notin> set (all_nodes cs) \<and> x \<notin> set (all_nodes bs) \<and> x \<notin> set (all_nodes vs)"
        using dist \<open>ts = []\<close> Cons v by auto
      with \<open>ts = []\<close> Cons v t n a_p nb show ?thesis by (simp add: run)
    qed
  next
    case (snoc ws w)
    obtain c ds where "w = Heap_Tree c ds" by (cases w)
    note w = snoc this
    from t w have "linked (links h) (Some p) (last_of None ws) (Some a) w" by simp
    then obtain nc where nc: "h c = Some nc" "hn_parent nc = Some p" "hn_prev nc = last_of None ws" "hn_next nc = Some a"
        "hn_first_child nc = first_of ds None"
      unfolding w(2) by (rule linked_node) simp_all
    show ?thesis
    proof (cases us)
      case Nil
      have "distinct [p, a, c]" "\<forall>x\<in>{p, a, c}. x \<notin> set (all_nodes cs) \<and> x \<notin> set (all_nodes ds) \<and> x \<notin> set (all_nodes ws)"
        using dist Nil w by auto
      with Nil w t n a_p nc show ?thesis by (simp add: run)
    next
      case (Cons v vs)
      obtain b bs where v: "v = Heap_Tree b bs" by (cases v)
      from t Cons have "linked (links h) (Some p) (Some a) (first_of vs None) v" by simp
      then obtain nb where nb: "h b = Some nb" "hn_parent nb = Some p" "hn_prev nb = Some a" "hn_next nb = first_of vs None"
          "hn_first_child nb = first_of bs None"
        unfolding v by (rule linked_node) simp_all
      have "distinct [p, a, b, c]" "\<forall>x\<in>{p, a, b, c}. x \<notin> set (all_nodes cs) \<and> x \<notin> set (all_nodes ds) \<and>
          x \<notin> set (all_nodes ws) \<and> x \<notin> set (all_nodes bs) \<and> x \<notin> set (all_nodes vs)"
        using dist Cons v w by auto
      with Cons v w t n a_p nb nc show ?thesis by (simp add: run)
    qed
  qed
qed

context weak_order begin

lemma not_lesser_refl [simp]: "\<not> lesser a a"
  using asym [of a a] by auto

lemma tree_meld_ordered:
  "heap_ordered lesser D t \<Longrightarrow> heap_ordered lesser D u \<Longrightarrow> heap_ordered lesser D (tree_meld lesser D t u)"
  by (cases t; cases u) (auto simp: tree_meld_def dest: asym)

lemma tree_maybe_meld_ordered:
  "(\<And>c. cur = Some c \<Longrightarrow> heap_ordered lesser D c) \<Longrightarrow> heap_ordered lesser D u \<Longrightarrow>
   heap_ordered lesser D (tree_maybe_meld lesser D cur u)"
  by (auto simp: tree_maybe_meld_def tree_meld_ordered split: option.split)

lemma tree_maybe_meld_root:
  "(\<And>c. cur = Some c \<Longrightarrow> P (ht_root c)) \<Longrightarrow> P (ht_root u) \<Longrightarrow> P (ht_root (tree_maybe_meld lesser D cur u))"
  by (auto simp: tree_maybe_meld_def tree_meld_def split: option.split)

lemma tree_merge_ordered:
  "tree_merge lesser D cur ts = Some m \<Longrightarrow> (\<And>c. cur = Some c \<Longrightarrow> heap_ordered lesser D c \<and> P (ht_root c)) \<Longrightarrow>
   (\<And>t. t \<in> set ts \<Longrightarrow> heap_ordered lesser D t \<and> P (ht_root t)) \<Longrightarrow> heap_ordered lesser D m \<and> P (ht_root m)"
proof (induction "length ts" arbitrary: ts cur rule: less_induct)
  case less
  show ?case
  proof (cases ts)
    case (Cons t rest)
    show ?thesis
    proof (cases rest)
      case Nil
      with Cons less.prems show ?thesis
        using tree_maybe_meld_ordered [of cur D t] tree_maybe_meld_root [of cur P t D] by auto
    next
      case (Cons u us)
      let ?c = "tree_maybe_meld lesser D cur (tree_meld lesser D u t)"
      have "heap_ordered lesser D (tree_meld lesser D u t) \<and> P (ht_root (tree_meld lesser D u t))"
        using less.prems(3) [of t] less.prems(3) [of u] \<open>ts = t # rest\<close> Cons tree_meld_ordered [of D u t]
        by (auto simp: tree_meld_def)
      with less.prems(2) have "heap_ordered lesser D ?c \<and> P (ht_root ?c)"
        using tree_maybe_meld_ordered [of cur D "tree_meld lesser D u t"]
          tree_maybe_meld_root [of cur P "tree_meld lesser D u t" D] by auto
      with less.hyps [of us "Some ?c"] less.prems \<open>ts = t # rest\<close> Cons show ?thesis by auto
    qed
  qed (use less.prems in auto)
qed

lemma heap_ordered_min: "heap_ordered lesser D t \<Longrightarrow> x \<in> set (ht_nodes t) \<Longrightarrow> \<not> lesser (D x) (D (ht_root t))"
proof (induction t)
  case (Heap_Tree a ts)
  show ?case
  proof (cases "x = a")
    case False
    with Heap_Tree.prems obtain t where t: "t \<in> set ts" "x \<in> set (ht_nodes t)" by auto
    with Heap_Tree have "\<not> lesser (D x) (D (ht_root t))" "\<not> lesser (D (ht_root t)) (D a)" by auto
    then show ?thesis using not_lesser_trans by simp
  qed simp
qed

text \<open>A removed node gives up its children, which are merged into one tree.\<close>

lemma take_children_run:
  assumes a: "links h a = Some (blank_links\<lparr>hn_first_child := first_of cs None\<rparr>)"
    and cs: "linked_all (links h) (Some a) None cs None" "distinct (a # all_nodes cs)" "cs = s # ss"
  obtains h1 m h2 where "set_first_child a None h = Inr h1"
    "merge_children lesser (ht_root s) h1 = Inr (ht_root m, h2)"
    "tree_merge lesser (heap_val h) None (rev cs) = Some m" "detached h2 m" "links h2 a = Some blank_links"
    "relinks (insert a (set (all_nodes cs))) h h2" "set (ht_nodes m) = set (all_nodes cs)" "distinct (ht_nodes m)"
proof -
  from a have "returns (set_first_child a None h) (\<lambda>h1. links h1 = (links h)(a \<mapsto> blank_links) \<and> heap_data h1 = heap_data h)"
    by (auto simp: blank_links_def intro!: links_wp)
  then obtain h1 where 1: "set_first_child a None h = Inr h1" "links h1 = (links h)(a \<mapsto> blank_links)"
      "heap_data h1 = heap_data h"
    by (auto simp: returns_iff)
  then have h1: "relinks {a} h h1" by (simp add: relinks_def)
  have "linked_all (links h1) (Some a) None cs None" "distinct (all_nodes cs)" using cs(1,2) 1(2) by simp_all
  from merge_children_run [OF this(1) _ this(2)] cs(3) obtain m h2 where
    2: "merge_children lesser (ht_root s) h1 = Inr (ht_root m, h2)" "tree_merge lesser (heap_val h1) None (rev cs) = Some m"
      "detached h2 m" "relinks (set (all_nodes cs)) h1 h2"
    by auto
  have m: "tree_merge lesser (heap_val h) None (rev cs) = Some m" using 2(2) heap_val_relinks [OF h1] by simp
  have "set (ht_nodes m) = set (all_nodes cs)" "distinct (ht_nodes m)"
    using tree_merge_nodes [of lesser "heap_val h" None "rev cs"] m cs(2) by (simp_all add: Un_commute)
  moreover have "links h2 a = Some blank_links" using 2(4) 1(2) cs(2) by (auto simp: relinks_def)
  moreover have "relinks (insert a (set (all_nodes cs))) h h2" by (rule relinks_trans [OF h1 2(4)]) simp
  ultimately show ?thesis using that 1(1) 2(1,3) m by blast
qed

lemma remove_child_run:
  assumes t: "linked (links h) par prv nxt (Heap_Tree p (us @ Heap_Tree a cs # vs))"
    and dist: "distinct (ht_nodes (Heap_Tree p (us @ Heap_Tree a cs # vs)))"
    and ord: "heap_ordered lesser (heap_val h) (Heap_Tree p (us @ Heap_Tree a cs # vs))"
  shows "\<exists>h'. heap_remove lesser hp a h = Inr (hp, h') \<and>
    linked (links h') par prv nxt (Heap_Tree p (opt_list (tree_merge lesser (heap_val h) None (rev cs)) @ us @ vs)) \<and>
    links h' a = Some blank_links \<and> relinks (set (ht_nodes (Heap_Tree p (us @ Heap_Tree a cs # vs)))) h h'"
proof -
  let ?N = "set (ht_nodes (Heap_Tree p (us @ Heap_Tree a cs # vs)))"
  have "linked (links h) (Some p) (last_of None us) (first_of vs None) (Heap_Tree a cs)" using t by simp
  then obtain n where n: "h a = Some n" "hn_parent n = Some p" "hn_prev n = last_of None us"
      "hn_next n = first_of vs None" "hn_first_child n = first_of cs None"
    by (rule linked_node) simp_all
  obtain h1 h2 where 1: "set_parent a None h = Inr h1" "heap_unlink n p a h1 = Inr h2"
      "linked (links h2) par prv nxt (Heap_Tree p (us @ vs))"
      "links h2 a = Some (blank_links\<lparr>hn_first_child := first_of cs None\<rparr>)"
      "linked_all (links h2) (Some a) None cs None" "relinks ?N h h2"
    using unlink_wp [OF t dist n(3,4)] by (auto simp: returns_iff and_then_eq_Inr)
  show ?thesis
  proof (cases cs)
    case Nil
    with 1 n show ?thesis by (simp add: heap_remove_def blank_links_def)
  next
    case (Cons s ss)
    have "distinct (a # all_nodes cs)" using dist by simp
    from take_children_run [OF 1(4,5) this Cons] obtain h3 m h4 where
      4: "set_first_child a None h2 = Inr h3" "merge_children lesser (ht_root s) h3 = Inr (ht_root m, h4)"
        "tree_merge lesser (heap_val h2) None (rev cs) = Some m" "detached h4 m" "links h4 a = Some blank_links"
        "relinks (insert a (set (all_nodes cs))) h2 h4"
      and nm: "set (ht_nodes m) = set (all_nodes cs)" "distinct (ht_nodes m)" .
    have m: "tree_merge lesser (heap_val h) None (rev cs) = Some m" using 4(3) heap_val_relinks [OF 1(6)] by simp
    have t4: "linked (links h4) par prv nxt (Heap_Tree p (us @ vs))"
      by (rule relinks_linked(1) [OF 4(6) _ 1(3)]) (use dist in auto)
    have h4: "relinks ?N h h4" by (rule relinks_trans [OF 1(6) 4(6)]) auto
    have "heap_ordered lesser (heap_val h) m \<and> \<not> lesser (heap_val h (ht_root m)) (heap_val h p)"
    proof (rule tree_merge_ordered [OF m])
      fix c assume "c \<in> set (rev cs)"
      with ord have "\<not> lesser (heap_val h (ht_root c)) (heap_val h a)" "heap_ordered lesser (heap_val h) c"
        "\<not> lesser (heap_val h a) (heap_val h p)" by auto
      then show "heap_ordered lesser (heap_val h) c \<and> \<not> lesser (heap_val h (ht_root c)) (heap_val h p)"
        using not_lesser_trans by blast
    qed simp
    then have "\<not> lesser (heap_val h4 (ht_root m)) (heap_val h4 (ht_root (Heap_Tree p (us @ vs))))"
      using h4 by (simp add: relinks_def)
    moreover have "distinct (ht_nodes (Heap_Tree p (us @ vs)) @ ht_nodes m)" using dist nm by auto
    ultimately have "returns (add_child lesser (ht_root (Heap_Tree p (us @ vs))) (ht_root m) h4)
        (\<lambda>h5. linked (links h5) par prv nxt (Heap_Tree p (m # us @ vs)) \<and>
          relinks (set (ht_nodes (Heap_Tree p (us @ vs)) @ ht_nodes m)) h4 h5)"
      by (intro add_child_wp [OF t4 4(4)]) simp_all
    then obtain h5 where 5: "add_child lesser p (ht_root m) h4 = Inr h5"
        "linked (links h5) par prv nxt (Heap_Tree p (m # us @ vs))"
        "relinks (set (ht_nodes (Heap_Tree p (us @ vs)) @ ht_nodes m)) h4 h5"
      by (auto simp: returns_iff)
    have "relinks ?N h h5" by (rule relinks_trans [OF h4 5(3)]) (use nm in auto)
    moreover have "links h5 a = Some blank_links" using 5(3) nm dist 4(5) by (auto simp: relinks_def)
    ultimately show ?thesis
      using n 1(1,2) 4(1,2) 5(1,2) m Cons by (simp add: heap_remove_def)
  qed
qed

lemma remove_below_run:
  assumes "linked (links h) par prv nxt t" "distinct (ht_nodes t)" "heap_ordered lesser (heap_val h) t"
    and "a \<in> set (ht_nodes t)" "a \<noteq> ht_root t"
  shows "\<exists>h'. heap_remove lesser hp a h = Inr (hp, h') \<and>
    linked (links h') par prv nxt (tree_remove_below lesser (heap_val h) a t) \<and>
    links h' a = Some blank_links \<and> relinks (set (ht_nodes t)) h h'"
  using assms
proof (induction t arbitrary: par prv nxt)
  case (Heap_Tree p ts)
  have d: "distinct (all_nodes ts)" using Heap_Tree.prems(2) by simp
  show ?case
  proof (cases "find (\<lambda>t. ht_root t = a) ts")
    case (Some t)
    from find_child [OF this d] obtain us vs where
      s: "ht_root t = a" "ts = us @ t # vs" "filter (\<lambda>t. ht_root t \<noteq> a) ts = us @ vs" .
    obtain cs where t: "t = Heap_Tree a cs" using s(1) by (cases t) simp
    from remove_child_run [of h par prv nxt p us a cs vs hp] Heap_Tree.prems(1-3) s(2) t show ?thesis
      using Some s(3) by simp
  next
    case None
    from Heap_Tree.prems(4,5) obtain u where u: "u \<in> set ts" "a \<in> set (ht_nodes u)" by auto
    from None u(1) have "a \<noteq> ht_root u" by (auto simp: find_None_iff)
    obtain us vs where s: "ts = us @ u # vs" "a \<notin> set (all_nodes us)" "a \<notin> set (all_nodes vs)"
      by (rule child_split [OF u(1) d u(2)])
    have "linked (links h) (Some p) (last_of None us) (first_of vs None) u" "distinct (ht_nodes u)"
      "heap_ordered lesser (heap_val h) u"
      using Heap_Tree.prems(1-3) s(1) by auto
    from Heap_Tree.IH [OF u(1) this u(2) \<open>a \<noteq> ht_root u\<close>] obtain h' where
      h': "heap_remove lesser hp a h = Inr (hp, h')"
        "linked (links h') (Some p) (last_of None us) (first_of vs None) (tree_remove_below lesser (heap_val h) a u)"
        "links h' a = Some blank_links" "relinks (set (ht_nodes u)) h h'"
      by blast
    have r: "map (tree_remove_below lesser (heap_val h) a) ts = us @ tree_remove_below lesser (heap_val h) a u # vs"
      using s by (auto intro!: map_idI tree_remove_below_absent)
    have "linked_all (links h') (Some p) None us (Some (ht_root u))" "linked_all (links h') (Some p) (Some (ht_root u)) vs None"
      using Heap_Tree.prems(1,2) s(1) by (auto intro!: relinks_linked(2) [OF h'(4)])
    moreover have "links h' p = links h p" using h'(4) Heap_Tree.prems(2) s(1) by (auto simp: relinks_def)
    ultimately have "linked (links h') par prv nxt (tree_remove_below lesser (heap_val h) a (Heap_Tree p ts))"
      using h'(2) None Heap_Tree.prems(1) unfolding s(1) [symmetric]
      by (simp add: r) (simp add: s(1))
    moreover have "relinks (set (ht_nodes (Heap_Tree p ts))) h h'"
      using h'(4) s(1) by (auto simp: relinks_def)
    ultimately show ?thesis using h'(1,3) by blast
  qed
qed

end

section \<open>Representation of a heap\<close>

text \<open>
  \<open>ht_rep lesser h hp T\<close>: in the store \<open>h\<close> the heap \<open>hp\<close> is the ordered tree \<open>T\<close> (none if it is
  empty), and every other live node has no links.
\<close>

definition ht_rep ::
  "('a \<Rightarrow> 'a \<Rightarrow> bool) \<Rightarrow> 'a heap_store \<Rightarrow> pairing_heap \<Rightarrow> heap_tree option \<Rightarrow> bool" where
  "ht_rep lesser h hp T \<longleftrightarrow>
     ph_root hp = map_option ht_root T \<and> distinct (opt_nodes T) \<and>
     (\<forall>t. T = Some t \<longrightarrow> detached h t \<and> heap_ordered lesser (heap_val h) t) \<and>
     (\<forall>a. a \<notin> set (opt_nodes T) \<longrightarrow> links h a = None \<or> links h a = Some blank_links)"

lemma ht_rep_empty: "(\<And>a. links h a = None \<or> links h a = Some blank_links) \<Longrightarrow> ht_rep lesser h heap_new None"
  by (simp add: ht_rep_def heap_new_def)

lemma tree_insert_nodes [simp]: "set (opt_nodes (tree_insert lesser D T a)) = insert a (set (opt_nodes T))"
  by (simp add: tree_insert_def)

lemma tree_remove_below_nodes:
  "distinct (ht_nodes t) \<Longrightarrow> a \<in> set (ht_nodes t) \<Longrightarrow> a \<noteq> ht_root t \<Longrightarrow>
    set (ht_nodes (tree_remove_below lesser D a t)) = set (ht_nodes t) - {a} \<and>
    distinct (ht_nodes (tree_remove_below lesser D a t))"
proof (induction t)
  case (Heap_Tree p ts)
  have d: "distinct (all_nodes ts)" "p \<notin> set (all_nodes ts)" using Heap_Tree.prems(1) by simp_all
  show ?case
  proof (cases "find (\<lambda>t. ht_root t = a) ts")
    case (Some t)
    from find_child [OF this d(1)] obtain us vs where
      s: "ht_root t = a" "ts = us @ t # vs" "filter (\<lambda>t. ht_root t \<noteq> a) ts = us @ vs" .
    obtain cs where t: "t = Heap_Tree a cs" using s(1) by (cases t) simp
    let ?m = "opt_list (tree_merge lesser D None (rev cs))"
    have m: "set (all_nodes ?m) = set (all_nodes cs)" "distinct (all_nodes ?m) \<longleftrightarrow> distinct (all_nodes cs)"
      using tree_merge_nodes [of lesser D None "rev cs"] by simp_all
    have "a \<notin> set (all_nodes us)" "a \<notin> set (all_nodes vs)" "a \<notin> set (all_nodes cs)" "p \<noteq> a"
      using d s(2) t by auto
    with Some s t d m show ?thesis by auto
  next
    case None
    from Heap_Tree.prems(2,3) obtain u where u: "u \<in> set ts" "a \<in> set (ht_nodes u)" by auto
    from None u(1) have "a \<noteq> ht_root u" by (auto simp: find_None_iff)
    obtain us vs where s: "ts = us @ u # vs" "a \<notin> set (all_nodes us)" "a \<notin> set (all_nodes vs)"
      by (rule child_split [OF u(1) d(1) u(2)])
    have r: "map (tree_remove_below lesser D a) ts = us @ tree_remove_below lesser D a u # vs"
      using s by (auto intro!: map_idI tree_remove_below_absent)
    have IH: "set (ht_nodes (tree_remove_below lesser D a u)) = set (ht_nodes u) - {a}"
      "distinct (ht_nodes (tree_remove_below lesser D a u))"
      using Heap_Tree.IH [OF u(1) _ u(2) \<open>a \<noteq> ht_root u\<close>] d(1) s(1) by auto
    have "p \<noteq> a" using d(2) u by auto
    have r': "tree_remove_below lesser D a (Heap_Tree p ts) = Heap_Tree p (us @ tree_remove_below lesser D a u # vs)"
      using None r by simp
    have n: "set (ht_nodes (Heap_Tree p ts)) = insert p (set (all_nodes us) \<union> set (ht_nodes u) \<union> set (all_nodes vs))"
      using s(1) by auto
    have "distinct (all_nodes (us @ tree_remove_below lesser D a u # vs))"
      using d(1) IH unfolding s(1) by (simp, blast)
    moreover have "p \<notin> set (all_nodes (us @ tree_remove_below lesser D a u # vs))"
      using d(2) IH(1) unfolding s(1) by simp
    moreover have "insert p (set (all_nodes (us @ tree_remove_below lesser D a u # vs))) = set (ht_nodes (Heap_Tree p ts)) - {a}"
      using IH(1) s(2,3) \<open>p \<noteq> a\<close> unfolding n by auto
    ultimately show ?thesis unfolding r' by simp
  qed
qed

lemma tree_remove_nodes:
  assumes "distinct (opt_nodes T)" "a \<in> set (opt_nodes T)"
  shows "set (opt_nodes (tree_remove lesser D T a)) = set (opt_nodes T) - {a}"
    and "distinct (opt_nodes (tree_remove lesser D T a))"
proof -
  from assms obtain t where t: "T = Some t" "distinct (ht_nodes t)" "a \<in> set (ht_nodes t)" by (cases T) auto
  have "set (opt_nodes (tree_remove lesser D T a)) = set (opt_nodes T) - {a} \<and>
    distinct (opt_nodes (tree_remove lesser D T a))"
  proof (cases "ht_root t = a")
    case True
    then obtain ts where "t = Heap_Tree a ts" by (cases t) simp
    with t tree_merge_nodes [of lesser D None "rev ts"] show ?thesis by (auto simp: tree_remove_def)
  next
    case False
    with t tree_remove_below_nodes [of t a lesser D] show ?thesis by (auto simp: tree_remove_def)
  qed
  then show "set (opt_nodes (tree_remove lesser D T a)) = set (opt_nodes T) - {a}"
    "distinct (opt_nodes (tree_remove lesser D T a))" by blast+
qed

context weak_order begin

lemma tree_remove_below_ordered:
  "heap_ordered lesser D t \<Longrightarrow> distinct (ht_nodes t) \<Longrightarrow> heap_ordered lesser D (tree_remove_below lesser D a t)"
proof (induction t)
  case (Heap_Tree p ts)
  have d: "distinct (all_nodes ts)" using Heap_Tree.prems(2) by simp
  show ?case
  proof (cases "find (\<lambda>t. ht_root t = a) ts")
    case (Some t)
    then have t: "t \<in> set ts" by (auto simp: find_Some_iff)
    have "heap_ordered lesser D m \<and> \<not> lesser (D (ht_root m)) (D p)"
      if "tree_merge lesser D None (rev (ht_children t)) = Some m" for m
    proof (rule tree_merge_ordered [OF that])
      fix c assume c: "c \<in> set (rev (ht_children t))"
      have "\<not> lesser (D (ht_root t)) (D p)" "heap_ordered lesser D t" using Heap_Tree.prems(1) t by auto
      with heap_ordered_children [of lesser D t c] c
      show "heap_ordered lesser D c \<and> \<not> lesser (D (ht_root c)) (D p)"
        using not_lesser_trans by auto
    qed simp
    with Some Heap_Tree.prems(1) show ?thesis by (auto split: option.splits)
  next
    case None
    have "heap_ordered lesser D (tree_remove_below lesser D a u)" if "u \<in> set ts" for u
      using Heap_Tree.IH [OF that] Heap_Tree.prems(1) d that
      by (auto dest: distinct_concat intro: distinct_map [THEN iffD1])
        (auto simp: in_set_conv_decomp)
    with None Heap_Tree.prems(1) show ?thesis by auto
  qed
qed

lemma heap_insert_run:
  assumes rep: "ht_rep lesser h hp T" and a: "heap_data h a \<noteq> None" "a \<notin> set (opt_nodes T)"
  shows "returns (heap_insert lesser hp a h)
    (\<lambda>(hp', h'). ht_rep lesser h' hp' (tree_insert lesser (heap_val h) T a) \<and> heap_data h' = heap_data h)"
proof -
  from rep a have la: "links h a = Some blank_links" using links_dom [of h a] by (auto simp: ht_rep_def)
  then have da: "detached h (Heap_Tree a [])" by (simp add: blank_links_def)
  then obtain n where n: "h a = Some n" "hn_parent n = None" "hn_prev n = None" "hn_next n = None" "hn_first_child n = None"
    by (rule linked_node) simp_all
  let ?t = "tree_maybe_meld lesser (heap_val h) T (Heap_Tree a [])"
  have dist: "distinct (opt_nodes T @ ht_nodes (Heap_Tree a []))" using rep a(2) by (auto simp: ht_rep_def)
  have ordered: "heap_ordered lesser (heap_val h) ?t"
    using rep by (intro tree_maybe_meld_ordered) (auto simp: ht_rep_def)
  have T: "detached h t" if "T = Some t" for t using rep that by (simp add: ht_rep_def)
  obtain h' where h0: "maybe_meld lesser (map_option ht_root T) (ht_root (Heap_Tree a [])) h = Inr (ht_root ?t, h')"
      "detached h' ?t" "relinks (set (opt_nodes T @ ht_nodes (Heap_Tree a []))) h h'"
    by (rule maybe_meld_run [OF T da dist])
  define r where "r = ht_root ?t"
  have h': "maybe_meld lesser (ph_root hp) a h = Inr (r, h')" "detached h' ?t"
      "relinks (set (opt_nodes T @ ht_nodes (Heap_Tree a []))) h h'"
    using h0 rep unfolding r_def by (simp_all add: ht_rep_def)
  have "ht_rep lesser h' (hp\<lparr>ph_root := Some r\<rparr>) (tree_insert lesser (heap_val h) T a)"
    using rep a ordered h'(2,3) unfolding r_def by (auto simp: ht_rep_def tree_insert_def relinks_def)
  moreover have "heap_data h' = heap_data h" using h'(3) by (simp add: relinks_def)
  moreover have "heap_insert lesser hp a h = Inr (hp\<lparr>ph_root := Some r\<rparr>, h')"
    using h'(1) n by (cases "ph_root hp") (simp_all add: heap_insert_def maybe_meld_def heap_is_root_def)
  ultimately show ?thesis by simp
qed

lemma heap_remove_root_run:
  assumes t: "detached h (Heap_Tree a ts)" and dist: "distinct (ht_nodes (Heap_Tree a ts))"
    and root: "ph_root hp = Some a"
  defines "M \<equiv> tree_merge lesser (heap_val h) None (rev ts)"
  shows "\<exists>h'. heap_remove lesser hp a h = Inr (hp\<lparr>ph_root := map_option ht_root M\<rparr>, h') \<and>
    (\<forall>m. M = Some m \<longrightarrow> detached h' m) \<and> links h' a = Some blank_links \<and>
    relinks (set (ht_nodes (Heap_Tree a ts))) h h'"
proof -
  obtain n where n: "h a = Some n" "hn_parent n = None" "hn_prev n = None" "hn_next n = None"
      "hn_first_child n = first_of ts None"
    using t by (rule linked_node) simp_all
  have "returns (set_parent a None h) (\<lambda>h1. links h1 = links h \<and> heap_data h1 = heap_data h)"
    using t by (auto simp: fun_upd_idem intro!: links_wp)
  then obtain h1 where 1: "set_parent a None h = Inr h1" "links h1 = links h" "heap_data h1 = heap_data h"
    by (auto simp: returns_iff)
  show ?thesis
  proof (cases ts)
    case Nil
    with 1 n t root show ?thesis
      by (auto simp: heap_remove_def M_def relinks_def blank_links_def)
  next
    case (Cons s ss)
    have "links h1 a = Some (blank_links\<lparr>hn_first_child := first_of ts None\<rparr>)"
      "linked_all (links h1) (Some a) None ts None" "distinct (a # all_nodes ts)"
      using t dist 1(2) by (simp_all add: blank_links_def)
    from take_children_run [OF this Cons] obtain h2 m h3 where
      2: "set_first_child a None h1 = Inr h2" "merge_children lesser (ht_root s) h2 = Inr (ht_root m, h3)"
        "tree_merge lesser (heap_val h1) None (rev ts) = Some m" "detached h3 m" "links h3 a = Some blank_links"
        "relinks (insert a (set (all_nodes ts))) h1 h3" .
    have "relinks (set (ht_nodes (Heap_Tree a ts))) h h3" using 1(2,3) 2(6) by (simp add: relinks_def)
    moreover have "M = Some m" using 1(3) 2(3) by (simp add: M_def)
    ultimately show ?thesis using 1(1) 2(1,2,4,5) n root Cons by (simp add: heap_remove_def)
  qed
qed

lemma heap_remove_run:
  assumes rep: "ht_rep lesser h hp T" and a: "a \<in> set (opt_nodes T)"
  shows "returns (heap_remove lesser hp a h)
    (\<lambda>(hp', h'). ht_rep lesser h' hp' (tree_remove lesser (heap_val h) T a) \<and> heap_data h' = heap_data h)"
proof -
  from rep a obtain t where t: "T = Some t" "a \<in> set (ht_nodes t)" "distinct (ht_nodes t)" "detached h t"
      "heap_ordered lesser (heap_val h) t" "ph_root hp = Some (ht_root t)"
    by (cases T) (auto simp: ht_rep_def)
  have dist: "distinct (opt_nodes T)" using t by simp
  note nodes = tree_remove_nodes [OF dist a, of lesser "heap_val h"]
  have "\<exists>hp' h'. heap_remove lesser hp a h = Inr (hp', h') \<and> ph_root hp' = map_option ht_root (tree_remove lesser (heap_val h) T a) \<and>
    (\<forall>m. tree_remove lesser (heap_val h) T a = Some m \<longrightarrow> detached h' m \<and> heap_ordered lesser (heap_val h) m) \<and>
    links h' a = Some blank_links \<and> relinks (set (ht_nodes t)) h h'"
  proof (cases "ht_root t = a")
    case True
    then obtain ts where ts: "t = Heap_Tree a ts" by (cases t) simp
    have "heap_ordered lesser (heap_val h) m" if "tree_merge lesser (heap_val h) None (rev ts) = Some m" for m
      using tree_merge_ordered [OF that, of "\<lambda>_. True"] t(5) ts by auto
    with heap_remove_root_run [of h a ts hp] t ts True show ?thesis by (fastforce simp: tree_remove_def)
  next
    case False
    with remove_below_run [OF t(4,3,5,2), of hp] tree_remove_below_ordered [OF t(5,3), of a] t
    show ?thesis by (fastforce simp: tree_remove_def)
  qed
  then obtain hp' h' where r: "heap_remove lesser hp a h = Inr (hp', h')"
    "ph_root hp' = map_option ht_root (tree_remove lesser (heap_val h) T a)"
    "\<And>m. tree_remove lesser (heap_val h) T a = Some m \<Longrightarrow> detached h' m \<and> heap_ordered lesser (heap_val h) m"
    "links h' a = Some blank_links" "relinks (set (ht_nodes t)) h h'" by blast
  have "links h' x = None \<or> links h' x = Some blank_links" if "x \<notin> set (opt_nodes (tree_remove lesser (heap_val h) T a))" for x
  proof (cases "x = a")
    case False
    with that nodes(1) t(1) have "x \<notin> set (ht_nodes t)" by auto
    with r(5) rep t(1) show ?thesis by (auto simp: relinks_def ht_rep_def)
  qed (use r(4) in simp)
  moreover have "heap_data h' = heap_data h" using r(5) by (simp add: relinks_def)
  ultimately show ?thesis
    using r(1,2,3) nodes(2) by (auto simp: ht_rep_def)
qed

end

section \<open>The heap as a priority queue\<close>

text \<open>
  The interface that a client uses: \<open>rep h q A\<close> says that the queue holds the nodes \<open>A\<close>, whatever
  its shape. \<open>peek\<close> returns a node that no other is lesser than.
\<close>

locale priority_queue =
  fixes rep :: "'s \<Rightarrow> 'q \<Rightarrow> addr set \<Rightarrow> bool"
    and contents :: "'s \<Rightarrow> addr \<rightharpoonup> 'a"
    and lesser :: "'a \<Rightarrow> 'a \<Rightarrow> bool"
    and update :: "addr \<Rightarrow> ('a \<Rightarrow> 'a) \<Rightarrow> 's \<Rightarrow> 's res"
    and insert_node :: "'q \<Rightarrow> addr \<Rightarrow> 's \<Rightarrow> ('q \<times> 's) res"
    and remove_node :: "'q \<Rightarrow> addr \<Rightarrow> 's \<Rightarrow> ('q \<times> 's) res"
    and peek :: "'q \<Rightarrow> addr option"
  assumes update_law: "rep h q A \<Longrightarrow> contents h a = Some d \<Longrightarrow>
      (\<And>x. lesser (f d) x = lesser d x) \<Longrightarrow> (\<And>x. lesser x (f d) = lesser x d) \<Longrightarrow>
      returns (update a f h) (\<lambda>h'. rep h' q A \<and> contents h' = (contents h)(a \<mapsto> f d))"
    and insert_law: "rep h q A \<Longrightarrow> contents h a \<noteq> None \<Longrightarrow> a \<notin> A \<Longrightarrow>
      returns (insert_node q a h) (\<lambda>(q', h'). rep h' q' (insert a A) \<and> contents h' = contents h)"
    and remove_law: "rep h q A \<Longrightarrow> a \<in> A \<Longrightarrow>
      returns (remove_node q a h) (\<lambda>(q', h'). rep h' q' (A - {a}) \<and> contents h' = contents h)"
    and peek_law: "rep h q A \<Longrightarrow>
      (case peek q of None \<Rightarrow> A = {}
       | Some a \<Rightarrow> a \<in> A \<and> (\<forall>b\<in>A. \<not> lesser (the (contents h b)) (the (contents h a))))"
    and rep_finite: "rep h q A \<Longrightarrow> finite A"
    and rep_dom: "rep h q A \<Longrightarrow> a \<in> A \<Longrightarrow> contents h a \<noteq> None"
begin

text \<open>Registering a node: its data is set and it enters the queue.\<close>

lemma register_wp:
  assumes "rep h q A" "contents h a = Some d" "a \<notin> A"
    and "\<And>x. lesser (f d) x = lesser d x" "\<And>x. lesser x (f d) = lesser x d"
    and Q: "\<And>q' h'. rep h' q' (insert a A) \<Longrightarrow> contents h' = (contents h)(a \<mapsto> f d) \<Longrightarrow> Q (q', h')"
  shows "returns (and_then (update a f h) (insert_node q a)) Q"
proof -
  from update_law [of h q A a d f] assms obtain h1 where
    1: "update a f h = Inr h1" "rep h1 q A" "contents h1 = (contents h)(a \<mapsto> f d)"
    by (auto simp: returns_iff)
  from insert_law [OF 1(2), of a] assms(3) 1 show ?thesis
    by (auto elim!: returns_mono intro!: Q)
qed

text \<open>Popping: the minimum is updated and leaves.\<close>

lemma pop_wp:
  assumes "rep h q A" "contents h a = Some d" "a \<in> A"
    and "\<And>x. lesser (f d) x = lesser d x" "\<And>x. lesser x (f d) = lesser x d"
  obtains h1 q2 h2 where "update a f h = Inr h1" "remove_node q a h1 = Inr (q2, h2)" "rep h2 q2 (A - {a})"
    "contents h2 = (contents h)(a \<mapsto> f d)"
proof -
  from update_law [of h q A a d f] assms obtain h1 where
    1: "update a f h = Inr h1" "rep h1 q A" "contents h1 = (contents h)(a \<mapsto> f d)"
    by (auto simp: returns_iff)
  from remove_law [OF 1(2) assms(3)] 1 that show ?thesis by (auto simp: returns_iff)
qed

end

definition heap_rep ::
  "('a \<Rightarrow> 'a \<Rightarrow> bool) \<Rightarrow> 'a heap_store \<Rightarrow> pairing_heap \<Rightarrow> addr set \<Rightarrow> bool" where
  "heap_rep lesser h hp A \<longleftrightarrow> (\<exists>T. ht_rep lesser h hp T \<and> A = set (opt_nodes T))"

lemma heap_rep_empty: "(\<And>a. links h a = None \<or> links h a = Some blank_links) \<Longrightarrow> heap_rep lesser h heap_new {}"
  unfolding heap_rep_def by (rule exI [of _ None]) (simp add: ht_rep_empty)

text \<open>Nodes come to life unlinked, and die when they are not in the heap.\<close>

lemma heap_rep_alloc:
  assumes "heap_rep lesser h hp A" "h a = None"
  shows "heap_rep lesser (h(a \<mapsto> heap_node_new d)) hp A" "a \<notin> A"
proof -
  from assms obtain T where T: "ht_rep lesser h hp T" "A = set (opt_nodes T)" by (auto simp: heap_rep_def)
  have "links h a = None" using assms(2) by (simp add: links_def)
  with T show a: "a \<notin> A" by (auto simp: ht_rep_def dest: linked_dom(1) split: option.splits)
  have "heap_links.truncate (heap_node_new d) = blank_links"
    by (simp add: heap_node_new_def blank_links_def heap_links.truncate_def)
  moreover have "heap_ordered lesser (heap_val (h(a \<mapsto> heap_node_new d))) t = heap_ordered lesser (heap_val h) t"
    if "T = Some t" for t
    using a T(2) that by (intro heap_ordered_cong) (auto simp: heap_data_upd)
  ultimately have "ht_rep lesser (h(a \<mapsto> heap_node_new d)) hp T"
    using T a by (auto simp: ht_rep_def links_upd)
  with T(2) show "heap_rep lesser (h(a \<mapsto> heap_node_new d)) hp A" by (auto simp: heap_rep_def)
qed

lemma heap_rep_free:
  assumes "heap_rep lesser h hp A" "a \<notin> A"
  shows "heap_rep lesser (h(a := None)) hp A"
proof -
  from assms obtain T where T: "ht_rep lesser h hp T" "A = set (opt_nodes T)" by (auto simp: heap_rep_def)
  have l: "links (h(a := None)) = (links h)(a := None)" by (auto simp: links_def)
  have "heap_ordered lesser (heap_val (h(a := None))) t = heap_ordered lesser (heap_val h) t" if "T = Some t" for t
    using assms(2) T(2) that by (intro heap_ordered_cong) (auto simp: heap_data_def)
  with T assms(2) have "ht_rep lesser (h(a := None)) hp T" by (auto simp: ht_rep_def l)
  with T(2) show ?thesis by (auto simp: heap_rep_def)
qed

lemma heap_rep_update:
  assumes "heap_rep lesser h hp A" "heap_data h a = Some d"
    and f: "\<And>x. lesser (f d) x = lesser d x" "\<And>x. lesser x (f d) = lesser x d"
  shows "returns (heap_update_data a f h) (\<lambda>h'. heap_rep lesser h' hp A \<and> heap_data h' = (heap_data h)(a \<mapsto> f d))"
proof (rule heap_update_data_wp [where f = f, OF assms(2)], intro conjI)
  fix h'
  assume h': "links h' = links h" "heap_data h' = (heap_data h)(a \<mapsto> f d)"
  from assms obtain T where T: "ht_rep lesser h hp T" "A = set (opt_nodes T)" by (auto simp: heap_rep_def)
  have "heap_ordered lesser (heap_val h') t = heap_ordered lesser (heap_val h) t" for t
    using assms(2) f by (induction t) (auto simp: h'(2))
  with T h' have "ht_rep lesser h' hp T" by (simp add: ht_rep_def)
  with T(2) show "heap_rep lesser h' hp A" by (auto simp: heap_rep_def)
qed

lemma heap_rep_peek:
  assumes "weak_order lesser" "heap_rep lesser h hp A"
  shows "case heap_peek_min hp of None \<Rightarrow> A = {}
    | Some a \<Rightarrow> a \<in> A \<and> (\<forall>b\<in>A. \<not> lesser (heap_val h b) (heap_val h a))"
proof -
  from assms(2) obtain T where "ht_rep lesser h hp T" "A = set (opt_nodes T)" by (auto simp: heap_rep_def)
  with weak_order.heap_ordered_min [OF assms(1)] show ?thesis
    by (auto simp: ht_rep_def heap_peek_min_def split: option.split)
qed

context weak_order begin

lemma heap_rep_insert:
  assumes "heap_rep lesser h q A" and a: "heap_data h a \<noteq> None" "a \<notin> A"
  shows "returns (heap_insert lesser q a h) (\<lambda>(q', h'). heap_rep lesser h' q' (insert a A) \<and> heap_data h' = heap_data h)"
proof -
  from assms(1) obtain T where T: "ht_rep lesser h q T" "A = set (opt_nodes T)" by (auto simp: heap_rep_def)
  have *: "heap_rep lesser h' hp' (insert a A)"
    if "ht_rep lesser h' hp' (tree_insert lesser (heap_val h) T a)" for h' hp'
    unfolding heap_rep_def using that T(2) tree_insert_nodes [of lesser "heap_val h" T a] by blast
  have "returns (heap_insert lesser q a h)
    (\<lambda>(hp', h'). ht_rep lesser h' hp' (tree_insert lesser (heap_val h) T a) \<and> heap_data h' = heap_data h)"
    using a T(2) by (intro heap_insert_run [OF T(1)]) simp_all
  then show ?thesis by (rule returns_mono) (auto intro: *)
qed

lemma heap_rep_remove:
  assumes "heap_rep lesser h q A" and a: "a \<in> A"
  shows "returns (heap_remove lesser q a h) (\<lambda>(q', h'). heap_rep lesser h' q' (A - {a}) \<and> heap_data h' = heap_data h)"
proof -
  from assms(1) obtain T where T: "ht_rep lesser h q T" "A = set (opt_nodes T)" by (auto simp: heap_rep_def)
  have "distinct (opt_nodes T)" using T(1) by (simp add: ht_rep_def)
  from tree_remove_nodes(1) [OF this, of a lesser "heap_val h"] T(2) a
  have *: "heap_rep lesser h' hp' (A - {a})"
    if "ht_rep lesser h' hp' (tree_remove lesser (heap_val h) T a)" for h' hp'
    unfolding heap_rep_def using that by blast
  have "returns (heap_remove lesser q a h)
    (\<lambda>(hp', h'). ht_rep lesser h' hp' (tree_remove lesser (heap_val h) T a) \<and> heap_data h' = heap_data h)"
    using a T(2) by (intro heap_remove_run [OF T(1)]) simp
  then show ?thesis by (rule returns_mono) (auto intro: *)
qed

end

sublocale weak_order \<subseteq> pq: priority_queue "heap_rep lesser" heap_data lesser heap_update_data
  "heap_insert lesser" "heap_remove lesser" heap_peek_min
proof unfold_locales
  show "heap_rep lesser h q A \<Longrightarrow> heap_data h a = Some d \<Longrightarrow>
    (\<And>x. lesser (f d) x = lesser d x) \<Longrightarrow> (\<And>x. lesser x (f d) = lesser x d) \<Longrightarrow>
    returns (heap_update_data a f h) (\<lambda>h'. heap_rep lesser h' q A \<and> heap_data h' = (heap_data h)(a \<mapsto> f d))"
    for h q A a d f by (rule heap_rep_update)
next
  show "heap_rep lesser h q A \<Longrightarrow> heap_data h a \<noteq> None \<Longrightarrow> a \<notin> A \<Longrightarrow> returns (heap_insert lesser q a h)
    (\<lambda>(q', h'). heap_rep lesser h' q' (insert a A) \<and> heap_data h' = heap_data h)" for h q A a
    by (rule heap_rep_insert)
next
  show "heap_rep lesser h q A \<Longrightarrow> a \<in> A \<Longrightarrow> returns (heap_remove lesser q a h)
    (\<lambda>(q', h'). heap_rep lesser h' q' (A - {a}) \<and> heap_data h' = heap_data h)" for h q A a
    by (rule heap_rep_remove)
next
  show "heap_rep lesser h q A \<Longrightarrow> (case heap_peek_min q of None \<Rightarrow> A = {}
    | Some a \<Rightarrow> a \<in> A \<and> (\<forall>b\<in>A. \<not> lesser (heap_val h b) (heap_val h a)))" for h q A
    by (rule heap_rep_peek [OF weak_order_axioms])
next
  show "heap_rep lesser h q A \<Longrightarrow> finite A" for h :: "'a heap_store" and q A
    unfolding heap_rep_def by (metis List.finite_set)
next
  fix h :: "'a heap_store" and q A a
  assume "heap_rep lesser h q A" "a \<in> A"
  then obtain t where "detached h t" "a \<in> set (ht_nodes t)"
    by (auto simp: heap_rep_def ht_rep_def split: option.splits)
  from linked_dom(1) [OF this] show "heap_data h a \<noteq> None" by (simp add: links_dom)
qed

section \<open>Properties\<close>

text \<open>
  C4: the pointer heap implements the functional pairing heap. For a live node that is in the heap
  \<open>remove\<close>, for any other one \<open>insert\<close>, returns (no debug assertion fails, no pointer dangles, the
  traversal and the merge of the children end) and leaves exactly the links of the tree that the
  function on trees yields, ordered, with every node outside of it unlinked and all data as it was.
\<close>

theorem heap_refinement:
  assumes "weak_order lesser" "ht_rep lesser h hp T" "heap_data h a \<noteq> None"
  shows "if a \<in> set (opt_nodes T)
    then returns (heap_remove lesser hp a h)
      (\<lambda>(hp', h'). ht_rep lesser h' hp' (tree_remove lesser (heap_val h) T a) \<and> heap_data h' = heap_data h)
    else returns (heap_insert lesser hp a h)
      (\<lambda>(hp', h'). ht_rep lesser h' hp' (tree_insert lesser (heap_val h) T a) \<and> heap_data h' = heap_data h)"
  using weak_order.heap_remove_run [OF assms(1,2)] weak_order.heap_insert_run [OF assms] by simp

text \<open>
  The heap is a priority queue over the set of its nodes. \<open>peek_min\<close> finds a node that no other
  is lesser than, or nothing in an empty heap; \<open>insert\<close> adds the node and \<open>remove\<close> takes out just
  the given one, wherever it is.
\<close>

theorem heap_priority_queue:
  assumes "weak_order lesser" "heap_rep lesser h hp A" "heap_data h a \<noteq> None"
  shows "(case heap_peek_min hp of None \<Rightarrow> A = {}
      | Some m \<Rightarrow> m \<in> A \<and> (\<forall>b\<in>A. \<not> lesser (heap_val h b) (heap_val h m))) \<and>
    (if a \<in> A
     then returns (heap_remove lesser hp a h) (\<lambda>(hp', h'). heap_rep lesser h' hp' (A - {a}) \<and> heap_data h' = heap_data h)
     else returns (heap_insert lesser hp a h) (\<lambda>(hp', h'). heap_rep lesser h' hp' (insert a A) \<and> heap_data h' = heap_data h))"
  using heap_rep_peek [OF assms(1,2)] weak_order.heap_rep_remove [OF assms(1,2), of a]
    weak_order.heap_rep_insert [OF assms] by simp

definition heap_demo :: "nat heap_store" where
  "heap_demo = [1 \<mapsto> \<lparr>hn_parent = Some 2, hn_prev = Some 3, hn_next = None, hn_first_child = None, hn_data = 5\<rparr>,
     2 \<mapsto> \<lparr>hn_parent = None, hn_prev = None, hn_next = None, hn_first_child = Some 3, hn_data = 3\<rparr>,
     3 \<mapsto> \<lparr>hn_parent = Some 2, hn_prev = None, hn_next = Some 1, hn_first_child = None, hn_data = 4\<rparr>]"

lemma less_weak_order: "weak_order ((<) :: nat \<Rightarrow> nat \<Rightarrow> bool)"
  by unfold_locales auto

lemma heap_demo_rep: "ht_rep (<) heap_demo \<lparr>ph_root = Some 2\<rparr> (Some (Heap_Tree 2 [Heap_Tree 3 [], Heap_Tree 1 []]))"
  by (auto simp: ht_rep_def heap_demo_def links_def heap_data_def heap_links.truncate_def)

theorem heap_refinement_witness:
  "\<exists>hp' h'. heap_remove (<) \<lparr>ph_root = Some 2\<rparr> 2 heap_demo = Inr (hp', h') \<and> heap_peek_min hp' = Some 3"
proof -
  have "heap_data heap_demo 2 \<noteq> None" by (simp add: heap_demo_def heap_data_def)
  from heap_refinement [OF less_weak_order heap_demo_rep this] show ?thesis
    by (auto simp: returns_iff ht_rep_def tree_remove_def tree_maybe_meld_def tree_meld_def heap_demo_def
        heap_data_def heap_peek_min_def)
qed

theorem heap_priority_queue_witness:
  "\<exists>hp' h'. heap_remove (<) \<lparr>ph_root = Some 2\<rparr> 3 heap_demo = Inr (hp', h') \<and> heap_rep (<) h' hp' {1, 2}"
proof -
  have "heap_data heap_demo 3 \<noteq> None" by (simp add: heap_demo_def heap_data_def)
  moreover have "heap_rep (<) heap_demo \<lparr>ph_root = Some 2\<rparr> {1, 2, 3}"
    unfolding heap_rep_def by (intro exI conjI, rule heap_demo_rep) auto
  ultimately have "returns (heap_remove (<) \<lparr>ph_root = Some 2\<rparr> 3 heap_demo)
      (\<lambda>(hp', h'). heap_rep (<) h' hp' ({1, 2, 3} - {3}) \<and> heap_data h' = heap_data heap_demo)"
    using heap_priority_queue [OF less_weak_order, of heap_demo "\<lparr>ph_root = Some 2\<rparr>" "{1, 2, 3}" 3] by simp
  moreover have "{1, 2, 3} - {3} = {1, 2 :: nat}" by auto
  ultimately show ?thesis by (auto simp: returns_iff)
qed

end
