(* ===== verification/Pairing_Heap_Check.thy ===== *)
theory Pairing_Heap_Check
  imports Pairing_Heap_Queue
begin

text \<open>
  The checker of \<^verbatim>\<open>src/intrusive_pairing_heap.rs\<close> (module \<open>tests\<close>), which walks a heap and asserts
  that its links are well formed and its data ordered, and the test \<open>insert_and_remove\<close> as a run
  over any schedule. The test covers the schedules of five nodes; the property here is that the
  checker accepts the heap after every action of every schedule.
\<close>

section \<open>The checker\<close>

text \<open>The assertions about one node; the result is the node.\<close>

definition validate_links ::
  "('a \<Rightarrow> 'a \<Rightarrow> bool) \<Rightarrow> addr \<Rightarrow> addr option \<Rightarrow> 'a heap_store \<Rightarrow> 'a heap_node res" where
  "validate_links less_equal node parent h =
     and_then (deref h node) (\<lambda>n.
     and_then (assert_that (hn_parent n = parent) ''assertion failed: node.parent == parent'') (\<lambda>_.
     and_then (case parent of
         None \<Rightarrow> Inr ()
       | Some p \<Rightarrow> and_then (deref h p) (\<lambda>p.
           assert_that (less_equal (hn_data p) (hn_data n)) ''assertion failed: p.data <= node.data'')) (\<lambda>_.
     and_then (case hn_prev n of
         None \<Rightarrow> Inr ()
       | Some prev \<Rightarrow> and_then (deref h prev) (\<lambda>p.
           assert_that (hn_next p = Some node) ''assertion failed: prev.next == Some(node)'')) (\<lambda>_.
     and_then (case hn_next n of
         None \<Rightarrow> Inr ()
       | Some next \<Rightarrow> and_then (deref h next) (\<lambda>q.
           assert_that (hn_prev q = Some node) ''assertion failed: next.prev == Some(node)'')) (\<lambda>_.
     Inr n)))))"

text \<open>The loop over the children of a node, with the recursive call for each of them.\<close>

partial_function (option) validate_children ::
  "('a \<Rightarrow> 'a \<Rightarrow> bool) \<Rightarrow> 'a heap_store \<Rightarrow> addr \<Rightarrow> addr option \<Rightarrow> unit res option" where
  "validate_children less_equal h node child =
     (case child of
        None \<Rightarrow> Some (Inr ())
      | Some c \<Rightarrow>
          (case validate_links less_equal c (Some node) h of
             Inl e \<Rightarrow> Some (Inl e)
           | Inr n \<Rightarrow>
               Option.bind (validate_children less_equal h c (hn_first_child n)) (\<lambda>r.
               case r of
                 Inl e \<Rightarrow> Some (Inl e)
               | Inr _ \<Rightarrow> validate_children less_equal h node (hn_next n))))"

definition validate_heap_node ::
  "('a \<Rightarrow> 'a \<Rightarrow> bool) \<Rightarrow> addr \<Rightarrow> addr option \<Rightarrow> 'a heap_store \<Rightarrow> unit res" where
  "validate_heap_node less_equal node parent h =
     and_then (validate_links less_equal node parent h) (\<lambda>n.
     run_loop (validate_children less_equal h node (hn_first_child n)))"

definition validate_heap :: "('a \<Rightarrow> 'a \<Rightarrow> bool) \<Rightarrow> pairing_heap \<Rightarrow> 'a heap_store \<Rightarrow> unit res" where
  "validate_heap less_equal hp h =
     (case ph_root hp of
        Some root \<Rightarrow> validate_heap_node less_equal root None h
      | None \<Rightarrow> Inr ())"

section \<open>Schedules\<close>

datatype heap_schedule_action = Act_Insert addr | Act_Remove addr

text \<open>One action of the test with the assertions that follow it.\<close>

fun schedule_step ::
  "('a \<Rightarrow> 'a \<Rightarrow> bool) \<Rightarrow> heap_schedule_action \<Rightarrow> pairing_heap \<Rightarrow> 'a heap_store \<Rightarrow>
   (pairing_heap \<times> 'a heap_store) res" where
  "schedule_step lesser (Act_Insert n) hp h =
     and_then (heap_insert lesser hp n h) (\<lambda>(hp, h).
     and_then (validate_heap (\<lambda>a b. \<not> lesser b a) hp h) (\<lambda>_.
     Inr (hp, h)))"
| "schedule_step lesser (Act_Remove n) hp h =
     and_then (heap_remove lesser hp n h) (\<lambda>(hp, h).
     and_then (deref h n) (\<lambda>node.
     and_then (heap_is_root node) (\<lambda>is_root.
     and_then (assert_that is_root ''assertion failed: nodes[n].is_root()'') (\<lambda>_.
     and_then (assert_that (hn_first_child node = None) ''assertion failed: nodes[n].first_child == None'') (\<lambda>_.
     and_then (validate_heap (\<lambda>a b. \<not> lesser b a) hp h) (\<lambda>_.
     Inr (hp, h)))))))"

fun run_schedule ::
  "('a \<Rightarrow> 'a \<Rightarrow> bool) \<Rightarrow> heap_schedule_action list \<Rightarrow> pairing_heap \<Rightarrow> 'a heap_store \<Rightarrow>
   (pairing_heap \<times> 'a heap_store) res" where
  "run_schedule lesser [] hp h = Inr (hp, h)"
| "run_schedule lesser (a # as) hp h =
     and_then (schedule_step lesser a hp h) (\<lambda>(hp, h). run_schedule lesser as hp h)"

text \<open>A schedule inserts nodes that are not in the heap and removes nodes that are.\<close>

fun schedule_ok :: "addr set \<Rightarrow> heap_schedule_action list \<Rightarrow> addr set \<Rightarrow> bool" where
  "schedule_ok nodes [] A \<longleftrightarrow> True"
| "schedule_ok nodes (Act_Insert n # as) A \<longleftrightarrow> n \<in> nodes \<and> n \<notin> A \<and> schedule_ok nodes as (insert n A)"
| "schedule_ok nodes (Act_Remove n # as) A \<longleftrightarrow> n \<in> A \<and> schedule_ok nodes as (A - {n})"

section \<open>The checker accepts every heap\<close>

text \<open>What the siblings around a node have to satisfy.\<close>

definition prev_ok :: "'a heap_store \<Rightarrow> addr option \<Rightarrow> addr option \<Rightarrow> bool" where
  "prev_ok h prv cur \<longleftrightarrow> (\<forall>q. prv = Some q \<longrightarrow> (\<exists>m. h q = Some m \<and> hn_next m = cur))"

lemma validate_links_ok:
  assumes t: "linked (links h) (Some a) prv nxt t" and prev: "prev_ok h prv (Some (ht_root t))"
    and nxt: "\<forall>q. nxt = Some q \<longrightarrow> (\<exists>m. h q = Some m \<and> hn_prev m = Some (ht_root t))"
    and a: "h a = Some p" "le (hn_data p) (heap_val h (ht_root t))"
  obtains n where "h (ht_root t) = Some n" "validate_links le (ht_root t) (Some a) h = Inr n"
    "hn_first_child n = first_of (ht_children t) None" "hn_next n = nxt"
proof -
  from t obtain n where n: "h (ht_root t) = Some n" "hn_parent n = Some a" "hn_prev n = prv" "hn_next n = nxt"
    "hn_first_child n = first_of (ht_children t) None" by (rule linked_node)
  have "validate_links le (ht_root t) (Some a) h = Inr n"
    using n prev nxt a by (auto simp: validate_links_def prev_ok_def heap_data_at split: option.split)
  with n that show ?thesis by blast
qed

lemma validate_children_ok:
  assumes "linked (links h) par prv nxt t" "heap_ordered lesser (heap_val h) t"
  shows "validate_children (\<lambda>a b. \<not> lesser b a) h (ht_root t) (first_of (ht_children t) None) = Some (Inr ())"
  using assms
proof (induction t arbitrary: par prv nxt)
  case (Heap_Tree a ts)
  let ?le = "\<lambda>a b. \<not> lesser b a"
  from linked_node [OF Heap_Tree.prems(1)] obtain p where p: "h a = Some p" by auto
  have "validate_children ?le h a (first_of us None) = Some (Inr ())"
    if "set us \<subseteq> set ts" "linked_all (links h) (Some a) prv us None" "prev_ok h prv (first_of us None)" for us prv
    using that
  proof (induction us arbitrary: prv)
    case Nil
    then show ?case by (simp add: validate_children.simps)
  next
    case (Cons t us)
    from Cons.prems have t: "t \<in> set ts" "linked (links h) (Some a) prv (first_of us None) t"
      "linked_all (links h) (Some a) (Some (ht_root t)) us None" by simp_all
    with Heap_Tree.prems(2) have o: "\<not> lesser (heap_val h (ht_root t)) (heap_val h a)"
      "heap_ordered lesser (heap_val h) t" by simp_all
    have nxt: "\<forall>q. first_of us None = Some q \<longrightarrow> (\<exists>m. h q = Some m \<and> hn_prev m = Some (ht_root t))"
      using t(3) by (cases us) (auto elim: linked_node)
    have prev: "prev_ok h prv (Some (ht_root t))" using Cons.prems(3) by simp
    have le: "?le (hn_data p) (heap_val h (ht_root t))" using o(1) p by (simp add: heap_data_at)
    obtain n where n: "h (ht_root t) = Some n" "validate_links ?le (ht_root t) (Some a) h = Inr n"
      "hn_first_child n = first_of (ht_children t) None" "hn_next n = first_of us None"
      by (rule validate_links_ok [where le = ?le, OF t(2) prev nxt p le])
    have "prev_ok h (Some (ht_root t)) (first_of us None)" using n(1,4) by (simp add: prev_ok_def)
    with Cons.IH [of "Some (ht_root t)"] Cons.prems(1) t(3)
    have "validate_children ?le h a (first_of us None) = Some (Inr ())" by simp
    with Heap_Tree.IH [OF t(1,2) o(2)] n show ?case
      by (simp add: validate_children.simps [of _ _ a])
  qed
  from this [of ts None] Heap_Tree.prems(1) show ?case by (simp add: prev_ok_def)
qed

lemma validate_heap_ok:
  assumes "ht_rep lesser h hp T"
  shows "validate_heap (\<lambda>a b. \<not> lesser b a) hp h = Inr ()"
proof (cases T)
  case None
  with assms show ?thesis by (simp add: validate_heap_def ht_rep_def)
next
  case (Some t)
  with assms have t: "detached h t" "heap_ordered lesser (heap_val h) t" "ph_root hp = Some (ht_root t)"
    by (simp_all add: ht_rep_def)
  from linked_node [OF t(1)] obtain n where n: "h (ht_root t) = Some n" "hn_parent n = None" "hn_prev n = None"
    "hn_next n = None" "hn_first_child n = first_of (ht_children t) None" .
  with validate_children_ok [OF t(1,2)] t(3) show ?thesis
    by (simp add: validate_heap_def validate_heap_node_def validate_links_def)
qed

lemma heap_rep_outside:
  assumes "heap_rep lesser h hp A" "h n = Some node" "n \<notin> A"
  shows "hn_parent node = None \<and> hn_prev node = None \<and> hn_next node = None \<and> hn_first_child node = None"
proof -
  from assms have "links h n = Some blank_links"
    by (auto simp: heap_rep_def ht_rep_def links_def)
  with assms(2) show ?thesis by (auto simp: links_eq_Some blank_links_def heap_links.truncate_def)
qed

context weak_order
begin

lemma schedule_step_ok:
  assumes rep: "heap_rep lesser h hp A" and nodes: "nodes \<subseteq> dom (heap_data h)"
    and ok: "schedule_ok nodes (a # as) A"
  shows "returns (schedule_step lesser a hp h) (\<lambda>(hp', h').
    \<exists>A'. heap_rep lesser h' hp' A' \<and> heap_data h' = heap_data h \<and> schedule_ok nodes as A')"
proof (cases a)
  case (Act_Insert n)
  with ok nodes have n: "heap_data h n \<noteq> None" "n \<notin> A" by auto
  from pq.insert_law [OF rep n] obtain hp' h' where
    i: "heap_insert lesser hp n h = Inr (hp', h')" "heap_rep lesser h' hp' (insert n A)" "heap_data h' = heap_data h"
    by (auto simp: returns_iff)
  then have "validate_heap (\<lambda>a b. \<not> lesser b a) hp' h' = Inr ()"
    by (auto simp: heap_rep_def intro: validate_heap_ok)
  with i ok Act_Insert show ?thesis by auto
next
  case (Act_Remove n)
  with ok have n: "n \<in> A" by simp
  from pq.remove_law [OF rep n] obtain hp' h' where
    r: "heap_remove lesser hp n h = Inr (hp', h')" "heap_rep lesser h' hp' (A - {n})" "heap_data h' = heap_data h"
    by (auto simp: returns_iff)
  then have "validate_heap (\<lambda>a b. \<not> lesser b a) hp' h' = Inr ()"
    by (auto simp: heap_rep_def intro: validate_heap_ok)
  moreover have "heap_data h' n \<noteq> None" using pq.rep_dom [OF rep n] r(3) by simp
  then obtain node where node: "h' n = Some node" by (auto simp: heap_data_def)
  moreover note heap_rep_outside [OF r(2) node]
  ultimately show ?thesis using r ok Act_Remove by (auto simp: heap_is_root_def)
qed

lemma run_schedule_ok:
  "heap_rep lesser h hp A \<Longrightarrow> nodes \<subseteq> dom (heap_data h) \<Longrightarrow> schedule_ok nodes as A \<Longrightarrow>
   returns (run_schedule lesser as hp h) (\<lambda>(hp', h'). \<exists>A'. heap_rep lesser h' hp' A' \<and> heap_data h' = heap_data h)"
proof (induction as arbitrary: h hp A)
  case (Cons a as)
  from schedule_step_ok [OF Cons.prems] obtain hp' h' A' where
    s: "schedule_step lesser a hp h = Inr (hp', h')" "heap_rep lesser h' hp' A'" "heap_data h' = heap_data h"
      "schedule_ok nodes as A'"
    by (auto simp: returns_iff)
  with Cons.IH [OF s(2) _ s(4)] Cons.prems(2) show ?case by simp
qed auto

end

section \<open>Properties\<close>

text \<open>
  C27: the links of a heap are always well formed. On fresh nodes with any data, every schedule of
  insertions and removals runs through: no assertion of the heap or of the checker fails after any
  action (parents, siblings, order of the data, and the links of a removed node), no pointer
  dangles, and the walk of the checker ends. Removed nodes can be inserted again.
\<close>

theorem heap_schedules_valid:
  assumes "weak_order lesser" "\<forall>a n. h a = Some n \<longrightarrow> (\<exists>d. n = heap_node_new d)"
    and "schedule_ok (dom h) as {}"
  shows "returns (run_schedule lesser as heap_new h) (\<lambda>(hp', h'). heap_data h' = heap_data h)"
proof -
  have "links h a = None \<or> links h a = Some blank_links" for a
  proof (cases "h a")
    case (Some n)
    with assms(2) obtain d where "n = heap_node_new d" by blast
    with Some show ?thesis by (simp add: links_def blank_links_def heap_node_new_def heap_links.truncate_def)
  qed (simp add: links_def)
  then have "heap_rep lesser h heap_new {}" by (rule heap_rep_empty)
  moreover have "dom h \<subseteq> dom (heap_data h)" by (auto simp: heap_data_def)
  ultimately have "returns (run_schedule lesser as heap_new h)
      (\<lambda>(hp', h'). \<exists>A'. heap_rep lesser h' hp' A' \<and> heap_data h' = heap_data h)"
    using assms(3) by (rule weak_order.run_schedule_ok [OF assms(1)])
  then show ?thesis by (rule returns_mono) auto
qed

theorem heap_schedules_valid_witness:
  "returns (run_schedule (<)
     [Act_Insert 0, Act_Insert 1, Act_Insert 2, Act_Remove 0, Act_Insert 0, Act_Remove 2, Act_Remove 0, Act_Remove 1]
     heap_new [0 \<mapsto> heap_node_new (3 :: nat), 1 \<mapsto> heap_node_new 1, 2 \<mapsto> heap_node_new 3])
   (\<lambda>(hp', h'). heap_data h' 1 = Some 1)"
proof -
  let ?h = "[0 \<mapsto> heap_node_new (3 :: nat), 1 \<mapsto> heap_node_new 1, 2 \<mapsto> heap_node_new 3]"
  have "\<forall>a n. ?h a = Some n \<longrightarrow> (\<exists>d. n = heap_node_new d)" by auto
  moreover have "schedule_ok (dom ?h)
    [Act_Insert 0, Act_Insert 1, Act_Insert 2, Act_Remove 0, Act_Insert 0, Act_Remove 2, Act_Remove 0, Act_Remove 1] {}"
    by auto
  ultimately have "returns (run_schedule (<)
      [Act_Insert 0, Act_Insert 1, Act_Insert 2, Act_Remove 0, Act_Insert 0, Act_Remove 2, Act_Remove 0, Act_Remove 1]
      heap_new ?h) (\<lambda>(hp', h'). heap_data h' = heap_data ?h)"
    by (rule heap_schedules_valid [OF less_weak_order])
  moreover have "heap_data ?h 1 = Some 1" by (simp add: heap_data_def heap_node_new_def)
  ultimately show ?thesis by (auto elim!: returns_mono simp del: run_schedule.simps)
qed

end
