(* ===== verification/Timer.thy ===== *)
theory Timer
  imports Pairing_Heap_Queue
begin

text \<open>
  The timer of \<^verbatim>\<open>src/timer/inner.rs\<close> on top of the pairing heap, with the \<open>MockClock\<close> of
  \<^verbatim>\<open>src/timer/clock.rs\<close>. \<open>TimerState\<close> holds a \<open>&'static dyn Clock\<close>; here each operation that
  reads the clock takes the reading \<open>now\<close> as an argument, and the system of a timer, its clock and
  its futures passes the time of the clock. The properties: nothing completes early, a check of
  the expirations wakes exactly the futures that are due, in the order of their deadlines.
\<close>

section \<open>Clocks\<close>

record mock_clock =
  mc_now :: usize

definition mock_clock_new :: mock_clock where
  "mock_clock_new = \<lparr>mc_now = 0\<rparr>"

definition mock_clock_set_time :: "u64 \<Rightarrow> mock_clock \<Rightarrow> mock_clock res" where
  "mock_clock_set_time timestamp c =
     (if timestamp > ucast (- 1 :: usize)
      then Inl (Panic ''timestamps bigger than usize::MAX are not supported'')
      else let to_set = ucast timestamp in Inr (c\<lparr>mc_now := to_set\<rparr>))"

definition mock_clock_now :: "mock_clock \<Rightarrow> u64" where
  "mock_clock_now c = ucast (mc_now c)"

text \<open>\<open>core::time::Duration\<close>: seconds, and nanoseconds below a second; and \<open>u64::saturating_add\<close>.\<close>

record duration =
  dur_secs :: u64
  dur_nanos :: "32 word"

definition as_millis :: "duration \<Rightarrow> 128 word" where
  "as_millis d = ucast (dur_secs d) * 1000 + ucast (dur_nanos d div 1000000)"

definition saturating_add :: "u64 \<Rightarrow> u64 \<Rightarrow> u64" where
  "saturating_add a b = (if unat a + unat b < 2 ^ 64 then a + b else - 1)"

section \<open>TimerQueueEntry\<close>

datatype timer_poll_state = Tm_Unregistered | Tm_Registered | Tm_Expired

record timer_entry =
  te_expiry :: u64
  te_task :: "waker option"
  te_state :: timer_poll_state

definition timer_entry_new :: "u64 \<Rightarrow> timer_entry" where
  "timer_entry_new expiry = \<lparr>te_expiry = expiry, te_task = None, te_state = Tm_Unregistered\<rparr>"

text \<open>Entries are compared by expiry alone; \<open><\<close> is derived from \<open>partial_cmp\<close>.\<close>

datatype ordering = Less | Equal | Greater

definition timer_entry_eq :: "timer_entry \<Rightarrow> timer_entry \<Rightarrow> bool" where
  "timer_entry_eq a b \<longleftrightarrow> te_expiry a = te_expiry b"

definition timer_entry_cmp :: "timer_entry \<Rightarrow> timer_entry \<Rightarrow> ordering" where
  "timer_entry_cmp a b =
     (if te_expiry a < te_expiry b then Less else if te_expiry a = te_expiry b then Equal else Greater)"

definition timer_entry_partial_cmp :: "timer_entry \<Rightarrow> timer_entry \<Rightarrow> ordering option" where
  "timer_entry_partial_cmp a b = Some (timer_entry_cmp a b)"

definition timer_entry_lesser :: "timer_entry \<Rightarrow> timer_entry \<Rightarrow> bool" where
  "timer_entry_lesser a b \<longleftrightarrow> timer_entry_partial_cmp a b = Some Less"

lemma timer_entry_lesser_iff [simp]: "timer_entry_lesser a b \<longleftrightarrow> te_expiry a < te_expiry b"
  by (simp add: timer_entry_lesser_def timer_entry_partial_cmp_def timer_entry_cmp_def)

interpretation th: weak_order timer_entry_lesser
  by unfold_locales auto

section \<open>TimerState\<close>

record timer_state =
  ts_waiters :: pairing_heap

definition timer_state_new :: timer_state where
  "timer_state_new = \<lparr>ts_waiters = heap_new\<rparr>"

type_synonym timer_store = "timer_entry heap_store"

definition timer_try_wait ::
  "u64 \<Rightarrow> timer_state \<Rightarrow> addr \<Rightarrow> waker \<Rightarrow> timer_store \<Rightarrow> (unit poll \<times> timer_state \<times> timer_store) res" where
  "timer_try_wait now s wait_node cx h =
     and_then (heap_read_data h wait_node) (\<lambda>e.
     case te_state e of
       Tm_Unregistered \<Rightarrow>
         if now \<ge> te_expiry e
         then and_then (heap_update_data wait_node (te_state_update (\<lambda>_. Tm_Expired)) h) (\<lambda>h.
              Inr (Ready (), s, h))
         else and_then (heap_update_data wait_node (\<lambda>e. e\<lparr>te_task := Some cx, te_state := Tm_Registered\<rparr>) h) (\<lambda>h.
              and_then (heap_insert timer_entry_lesser (ts_waiters s) wait_node h) (\<lambda>(w, h).
              Inr (Pending, s\<lparr>ts_waiters := w\<rparr>, h)))
     | Tm_Registered \<Rightarrow>
         and_then (heap_update_data wait_node (te_task_update (\<lambda>t. update_waker_ref t cx)) h) (\<lambda>h.
         Inr (Pending, s, h))
     | Tm_Expired \<Rightarrow> Inr (Ready (), s, h))"

definition timer_remove_waiter :: "timer_state \<Rightarrow> addr \<Rightarrow> timer_store \<Rightarrow> (timer_state \<times> timer_store) res" where
  "timer_remove_waiter s wait_node h =
     and_then (heap_read_data h wait_node) (\<lambda>e.
     if te_state e = Tm_Registered
     then and_then (heap_remove timer_entry_lesser (ts_waiters s) wait_node h) (\<lambda>(w, h).
          and_then (heap_update_data wait_node (te_state_update (\<lambda>_. Tm_Unregistered)) h) (\<lambda>h.
          Inr (s\<lparr>ts_waiters := w\<rparr>, h)))
     else Inr (s, h))"

definition timer_next_expiration :: "timer_state \<Rightarrow> timer_store \<Rightarrow> u64 option res" where
  "timer_next_expiration s h =
     (case heap_peek_min (ts_waiters s) of
        None \<Rightarrow> Inr None
      | Some first \<Rightarrow> and_then (heap_read_data h first) (\<lambda>e. Inr (Some (te_expiry e))))"

text \<open>
  One round of the loop of \<open>check_expirations\<close>, on the node \<open>first\<close>: nothing if it is not due
  (\<open>break\<close>), else the wakers woken and the new state.
\<close>

definition timer_expire ::
  "u64 \<Rightarrow> addr \<Rightarrow> timer_state \<Rightarrow> timer_store \<Rightarrow> (waker list \<times> timer_state \<times> timer_store) option res" where
  "timer_expire now first s h =
     and_then (heap_read_data h first) (\<lambda>entry.
     if now \<ge> te_expiry entry
     then and_then (heap_update_data first (\<lambda>e. e\<lparr>te_task := None, te_state := Tm_Expired\<rparr>) h) (\<lambda>h.
          and_then (heap_remove timer_entry_lesser (ts_waiters s) first h) (\<lambda>(w, h).
          Inr (Some (wake_opt (te_task entry), s\<lparr>ts_waiters := w\<rparr>, h))))
     else Inr None)"

partial_function (option) timer_check_loop ::
  "u64 \<Rightarrow> timer_state \<Rightarrow> timer_store \<Rightarrow> waker list \<Rightarrow> (waker list \<times> timer_state \<times> timer_store) res option" where
  "timer_check_loop now s h woken =
     (case heap_peek_min (ts_waiters s) of
        None \<Rightarrow> Some (Inr (woken, s, h))
      | Some first \<Rightarrow>
          (case timer_expire now first s h of
             Inl e \<Rightarrow> Some (Inl e)
           | Inr None \<Rightarrow> Some (Inr (woken, s, h))
           | Inr (Some (w, s, h)) \<Rightarrow> timer_check_loop now s h (woken @ w)))"

definition timer_check_expirations ::
  "u64 \<Rightarrow> timer_state \<Rightarrow> timer_store \<Rightarrow> (waker list \<times> timer_state \<times> timer_store) res" where
  "timer_check_expirations now s h = run_loop (timer_check_loop now s h [])"

section \<open>GenericTimerService and its futures\<close>

definition timer_deadline_from_now :: "u64 \<Rightarrow> duration \<Rightarrow> u64" where
  "timer_deadline_from_now now d =
     (let duration_ms = ucast (min (as_millis d) (ucast (- 1 :: u64))) in saturating_add now duration_ms)"

text \<open>\<open>ltf_timer\<close> says whether the reference of the future to its timer is \<open>Some\<close>.\<close>

record local_timer_future =
  ltf_timer :: bool
  ltf_wait_node :: addr

definition local_timer_deadline :: "u64 \<Rightarrow> addr \<Rightarrow> local_timer_future \<times> timer_entry heap_node" where
  "local_timer_deadline timestamp a =
     (\<lparr>ltf_timer = True, ltf_wait_node = a\<rparr>, heap_node_new (timer_entry_new timestamp))"

definition local_timer_delay :: "u64 \<Rightarrow> duration \<Rightarrow> addr \<Rightarrow> local_timer_future \<times> timer_entry heap_node" where
  "local_timer_delay now delay a = local_timer_deadline (timer_deadline_from_now now delay) a"

definition local_timer_future_poll ::
  "u64 \<Rightarrow> local_timer_future \<Rightarrow> waker \<Rightarrow> timer_state \<Rightarrow> timer_store \<Rightarrow>
   (unit poll \<times> local_timer_future \<times> timer_state \<times> timer_store) res" where
  "local_timer_future_poll now f cx s h =
     (if \<not> ltf_timer f then Inl (Panic ''polled TimerFuture after completion'')
      else and_then (timer_try_wait now s (ltf_wait_node f) cx h) (\<lambda>(poll_res, s, h).
           Inr (poll_res, (if is_ready poll_res then f\<lparr>ltf_timer := False\<rparr> else f), s, h)))"

definition local_timer_future_is_terminated :: "local_timer_future \<Rightarrow> bool" where
  "local_timer_future_is_terminated f \<longleftrightarrow> \<not> ltf_timer f"

definition local_timer_future_drop ::
  "local_timer_future \<Rightarrow> timer_state \<Rightarrow> timer_store \<Rightarrow> (timer_state \<times> timer_store) res" where
  "local_timer_future_drop f s h =
     (if ltf_timer f then timer_remove_waiter s (ltf_wait_node f) h else Inr (s, h))"

text \<open>The thread-safe future wraps the local one.\<close>

record timer_future =
  tf_timer_future :: local_timer_future

definition timer_deadline :: "u64 \<Rightarrow> addr \<Rightarrow> timer_future \<times> timer_entry heap_node" where
  "timer_deadline timestamp a =
     (\<lparr>tf_timer_future = \<lparr>ltf_timer = True, ltf_wait_node = a\<rparr>\<rparr>, heap_node_new (timer_entry_new timestamp))"

definition timer_delay :: "u64 \<Rightarrow> duration \<Rightarrow> addr \<Rightarrow> timer_future \<times> timer_entry heap_node" where
  "timer_delay now delay a = timer_deadline (timer_deadline_from_now now delay) a"

definition timer_future_poll ::
  "u64 \<Rightarrow> timer_future \<Rightarrow> waker \<Rightarrow> timer_state \<Rightarrow> timer_store \<Rightarrow>
   (unit poll \<times> timer_future \<times> timer_state \<times> timer_store) res" where
  "timer_future_poll now f cx s h =
     and_then (local_timer_future_poll now (tf_timer_future f) cx s h) (\<lambda>(r, f', s, h).
     Inr (r, f\<lparr>tf_timer_future := f'\<rparr>, s, h))"

definition timer_future_is_terminated :: "timer_future \<Rightarrow> bool" where
  "timer_future_is_terminated f \<longleftrightarrow> local_timer_future_is_terminated (tf_timer_future f)"

section \<open>The operations keep the queue of waiters\<close>

text \<open>
  The nodes in the heap are those that are registered, each with its waker; an expired one is due
  by the clock.
\<close>

abbreviation timer_rep :: "timer_state \<Rightarrow> timer_store \<Rightarrow> addr set \<Rightarrow> bool" where
  "timer_rep s h A \<equiv> heap_rep timer_entry_lesser h (ts_waiters s) A"

definition timer_entries_ok :: "u64 \<Rightarrow> (addr \<rightharpoonup> timer_entry) \<Rightarrow> addr set \<Rightarrow> bool" where
  "timer_entries_ok now D A \<longleftrightarrow>
     (\<forall>a\<in>A. D a \<noteq> None) \<and>
     (\<forall>a e. D a = Some e \<longrightarrow>
        (a \<in> A \<longleftrightarrow> te_state e = Tm_Registered) \<and> (te_state e = Tm_Registered \<longrightarrow> te_task e \<noteq> None) \<and>
        (te_state e = Tm_Expired \<longrightarrow> te_expiry e \<le> now))"

lemma timer_entries_okD:
  "timer_entries_ok now D A \<Longrightarrow> D a = Some e \<Longrightarrow>
   (a \<in> A \<longleftrightarrow> te_state e = Tm_Registered) \<and> (te_state e = Tm_Registered \<longrightarrow> te_task e \<noteq> None) \<and>
   (te_state e = Tm_Expired \<longrightarrow> te_expiry e \<le> now)"
  by (simp add: timer_entries_ok_def)

lemma timer_entry_new_simps [simp]:
  "te_expiry (timer_entry_new d) = d" "te_task (timer_entry_new d) = None"
  "te_state (timer_entry_new d) = Tm_Unregistered"
  by (simp_all add: timer_entry_new_def)

text \<open>What a node becomes when it expires.\<close>

definition expired :: "timer_entry \<Rightarrow> timer_entry" where
  "expired e = e\<lparr>te_task := None, te_state := Tm_Expired\<rparr>"

lemma expired_simps [simp]:
  "te_expiry (expired e) = te_expiry e" "te_task (expired e) = None" "te_state (expired e) = Tm_Expired"
  by (simp_all add: expired_def)

lemma heap_read_data_Some [simp]: "heap_data h a = Some d \<Longrightarrow> heap_read_data h a = Inr d"
  by (auto simp: heap_read_data_def heap_data_def)

lemma timer_try_wait_wp:
  assumes rep: "timer_rep s h A" and ok: "timer_entries_ok now (heap_data h) A" and e: "heap_data h a = Some e"
    and ready: "\<And>h'. te_expiry e \<le> now \<Longrightarrow> te_state e \<noteq> Tm_Registered \<Longrightarrow> timer_rep s h' A \<Longrightarrow>
      heap_data h' = (heap_data h)(a \<mapsto> e\<lparr>te_state := Tm_Expired\<rparr>) \<Longrightarrow> Q (Ready (), s, h')"
    and pending: "\<And>s' h'. te_state e = Tm_Registered \<or> te_state e = Tm_Unregistered \<and> now < te_expiry e \<Longrightarrow>
      timer_rep s' h' (insert a A) \<Longrightarrow>
      heap_data h' = (heap_data h)(a \<mapsto> e\<lparr>te_task := Some cx, te_state := Tm_Registered\<rparr>) \<Longrightarrow> Q (Pending, s', h')"
  shows "returns (timer_try_wait now s a cx h) Q"
proof -
  note d = timer_entries_okD [OF ok e]
  show ?thesis
  proof (cases "te_state e")
    case Tm_Unregistered
    show ?thesis
    proof (cases "te_expiry e \<le> now")
      case True
      have "returns (heap_update_data a (te_state_update (\<lambda>_. Tm_Expired)) h)
          (\<lambda>h'. timer_rep s h' A \<and> heap_data h' = (heap_data h)(a \<mapsto> e\<lparr>te_state := Tm_Expired\<rparr>))"
        by (rule th.pq.update_law [OF rep e]) simp_all
      with Tm_Unregistered True e ready show ?thesis
        by (auto simp: timer_try_wait_def elim!: returns_mono)
    next
      case False
      with Tm_Unregistered d have "a \<notin> A" by simp
      have "returns (and_then (heap_update_data a (\<lambda>e. e\<lparr>te_task := Some cx, te_state := Tm_Registered\<rparr>) h)
          (heap_insert timer_entry_lesser (ts_waiters s) a))
          (\<lambda>(w, h'). heap_rep timer_entry_lesser h' w (insert a A) \<and>
             heap_data h' = (heap_data h)(a \<mapsto> e\<lparr>te_task := Some cx, te_state := Tm_Registered\<rparr>))"
        by (rule th.pq.register_wp [OF rep e \<open>a \<notin> A\<close>]) simp_all
      with Tm_Unregistered False e pending show ?thesis
        by (auto simp: timer_try_wait_def elim!: returns_mono)
    qed
  next
    case Tm_Registered
    with d have "insert a A = A" by auto
    have "returns (heap_update_data a (te_task_update (\<lambda>t. update_waker_ref t cx)) h)
        (\<lambda>h'. timer_rep s h' A \<and> heap_data h' = (heap_data h)(a \<mapsto> e\<lparr>te_task := Some cx\<rparr>))"
      using th.pq.update_law [OF rep e, of "te_task_update (\<lambda>t. update_waker_ref t cx)"] by simp
    moreover have same: "e\<lparr>te_task := Some cx, te_state := Tm_Registered\<rparr> = e\<lparr>te_task := Some cx\<rparr>"
      using Tm_Registered by simp
    ultimately show ?thesis
      using Tm_Registered e pending [where s' = s, unfolded \<open>insert a A = A\<close> same]
      by (auto simp: timer_try_wait_def elim!: returns_mono)
  next
    case Tm_Expired
    then have "e\<lparr>te_state := Tm_Expired\<rparr> = e" by simp
    with Tm_Expired e d rep ready [of h] show ?thesis by (simp add: timer_try_wait_def fun_upd_idem)
  qed
qed

lemma timer_remove_waiter_wp:
  assumes rep: "timer_rep s h A" and ok: "timer_entries_ok now (heap_data h) A" and e: "heap_data h a = Some e"
    and Q: "\<And>s' h' e'. timer_rep s' h' (A - {a}) \<Longrightarrow> heap_data h' = (heap_data h)(a \<mapsto> e') \<Longrightarrow> Q (s', h')"
  shows "returns (timer_remove_waiter s a h) Q"
proof (cases "te_state e = Tm_Registered")
  case True
  with timer_entries_okD [OF ok e] have "a \<in> A" by simp
  from th.pq.remove_law [OF rep this] obtain w h1 where
    1: "heap_remove timer_entry_lesser (ts_waiters s) a h = Inr (w, h1)"
      "heap_rep timer_entry_lesser h1 w (A - {a})" "heap_data h1 = heap_data h"
    by (auto simp: returns_iff)
  then have "returns (heap_update_data a (te_state_update (\<lambda>_. Tm_Unregistered)) h1)
      (\<lambda>h2. heap_rep timer_entry_lesser h2 w (A - {a}) \<and>
        heap_data h2 = (heap_data h)(a \<mapsto> e\<lparr>te_state := Tm_Unregistered\<rparr>))"
    using th.pq.update_law [OF 1(2), of a e "te_state_update (\<lambda>_. Tm_Unregistered)"] e by simp
  with 1(1) True e Q show ?thesis
    by (auto simp: timer_remove_waiter_def elim!: returns_mono)
next
  case False
  with timer_entries_okD [OF ok e] have "A - {a} = A" by auto
  with False e rep Q [where s' = s and h' = h and e' = e] show ?thesis by (simp add: timer_remove_waiter_def fun_upd_idem)
qed

lemma timer_next_expiration_run:
  assumes "timer_rep s h A"
  shows "\<exists>r. timer_next_expiration s h = Inr r \<and>
    (case r of None \<Rightarrow> A = {}
     | Some t \<Rightarrow> (\<exists>a\<in>A. te_expiry (heap_val h a) = t) \<and> (\<forall>a\<in>A. t \<le> te_expiry (heap_val h a)))"
proof (cases "heap_peek_min (ts_waiters s)")
  case None
  with th.pq.peek_law [OF assms] show ?thesis by (simp add: timer_next_expiration_def)
next
  case (Some a)
  with th.pq.peek_law [OF assms] have a: "a \<in> A" "\<forall>b\<in>A. te_expiry (heap_val h a) \<le> te_expiry (heap_val h b)"
    by (auto simp: not_less)
  from th.pq.rep_dom [OF assms a(1)] obtain e where "heap_data h a = Some e" by auto
  with a Some show ?thesis
    by (auto simp: timer_next_expiration_def intro!: bexI [of _ a])
qed

text \<open>The loop of \<open>check_expirations\<close> ends, by induction on the nodes in the heap.\<close>

abbreviation due :: "u64 \<Rightarrow> timer_store \<Rightarrow> addr set \<Rightarrow> addr set" where
  "due now h A \<equiv> {a \<in> A. te_expiry (heap_val h a) \<le> now}"

lemma timer_check_loop_expire:
  assumes rep: "timer_rep s h A" and min: "heap_peek_min (ts_waiters s) = Some a"
    and e: "heap_data h a = Some e" "te_expiry e \<le> now"
  obtains s' h' where "timer_rep s' h' (A - {a})" "heap_data h' = (heap_data h)(a \<mapsto> expired e)"
    "run_loop (timer_check_loop now s h woken) = run_loop (timer_check_loop now s' h' (woken @ wake_opt (te_task e)))"
proof -
  from th.pq.peek_law [OF rep] min have "a \<in> A" by simp
  then obtain h1 w h2 where 1: "heap_update_data a (\<lambda>e. e\<lparr>te_task := None, te_state := Tm_Expired\<rparr>) h = Inr h1"
      "heap_remove timer_entry_lesser (ts_waiters s) a h1 = Inr (w, h2)"
      "heap_rep timer_entry_lesser h2 w (A - {a})" "heap_data h2 = (heap_data h)(a \<mapsto> expired e)"
    by (rule th.pq.pop_wp [OF rep e(1), of "\<lambda>e. e\<lparr>te_task := None, te_state := Tm_Expired\<rparr>"])
      (simp_all add: expired_def)
  with min e that [where s' = "s\<lparr>ts_waiters := w\<rparr>" and h' = h2] show ?thesis
    by (simp add: timer_check_loop.simps [of now s] timer_expire_def)
qed

lemma timer_check_loop_run:
  assumes "timer_rep s h A"
  shows "\<exists>as s' h'. run_loop (timer_check_loop now s h woken) =
      Inr (woken @ concat (map (\<lambda>a. wake_opt (te_task (heap_val h a))) as), s', h') \<and>
    distinct as \<and> set as = due now h A \<and> sorted (map (\<lambda>a. te_expiry (heap_val h a)) as) \<and>
    timer_rep s' h' (A - set as) \<and>
    heap_data h' = (\<lambda>a. if a \<in> set as then map_option expired (heap_data h a) else heap_data h a)"
  using assms
proof (induction "card A" arbitrary: A s h woken rule: less_induct)
  case less
  note rep = less.prems
  note peek = th.pq.peek_law [OF rep]
  show ?case
  proof (cases "heap_peek_min (ts_waiters s)")
    case None
    with peek rep show ?thesis
      by (intro exI [of _ "[]"] exI [of _ s] exI [of _ h]) (simp add: timer_check_loop.simps)
  next
    case (Some a)
    with peek have a: "a \<in> A" "\<forall>b\<in>A. te_expiry (heap_val h a) \<le> te_expiry (heap_val h b)"
      by (auto simp: not_less)
    with th.pq.rep_dom [OF rep] obtain e where e: "heap_data h a = Some e" by auto
    show ?thesis
    proof (cases "te_expiry e \<le> now")
      case False
      with a(2) e have "due now h A = {}" by fastforce
      with False Some e rep show ?thesis
        by (intro exI [of _ "[]"] exI [of _ s] exI [of _ h])
          (simp add: timer_check_loop.simps [of now s] timer_expire_def)
    next
      case True
      with Some rep e obtain s1 h1 where
        1: "timer_rep s1 h1 (A - {a})" "heap_data h1 = (heap_data h)(a \<mapsto> expired e)"
          "run_loop (timer_check_loop now s h woken) =
             run_loop (timer_check_loop now s1 h1 (woken @ wake_opt (te_task e)))"
        by (blast elim: timer_check_loop_expire)
      have "card (A - {a}) < card A" using a(1) th.pq.rep_finite [OF rep] by (rule card_Diff1_less [rotated])
      from less.hyps [OF this 1(1), of "woken @ wake_opt (te_task e)"] obtain as s' h' where
        IH: "run_loop (timer_check_loop now s1 h1 (woken @ wake_opt (te_task e))) =
            Inr ((woken @ wake_opt (te_task e)) @ concat (map (\<lambda>a. wake_opt (te_task (heap_val h1 a))) as), s', h')"
          "distinct as" "set as = due now h1 (A - {a})" "sorted (map (\<lambda>a. te_expiry (heap_val h1 a)) as)"
          "timer_rep s' h' (A - {a} - set as)"
          "heap_data h' = (\<lambda>a. if a \<in> set as then map_option expired (heap_data h1 a) else heap_data h1 a)"
        by blast
      have "a \<notin> set as" using IH(3) by simp
      have same: "heap_val h1 b = heap_val h b" if "b \<noteq> a" for b using 1(2) that by simp
      have maps: "map (\<lambda>a. f (heap_val h1 a)) as = map (\<lambda>a. f (heap_val h a)) as" for f :: "timer_entry \<Rightarrow> 'z"
        using \<open>a \<notin> set as\<close> by (intro map_cong refl arg_cong [where f = f] same) auto
      have "a \<in> due now h A" using True a(1) e by simp
      moreover have "due now h1 (A - {a}) = due now h A - {a}" using same by auto
      ultimately have "set (a # as) = due now h A" unfolding list.set(2) IH(3) by (simp only: insert_Diff)
      moreover have "sorted (map (\<lambda>a. te_expiry (heap_val h a)) (a # as))"
        using IH(3,4) a(2) by (auto simp: maps)
      moreover have "A - {a} - set as = A - set (a # as)" by auto
      moreover have "heap_data h' = (\<lambda>b. if b \<in> set (a # as) then map_option expired (heap_data h b) else heap_data h b)"
        using IH(6) 1(2) e \<open>a \<notin> set as\<close> by (auto simp: fun_eq_iff)
      moreover have "run_loop (timer_check_loop now s h woken) =
          Inr (woken @ concat (map (\<lambda>a. wake_opt (te_task (heap_val h a))) (a # as)), s', h')"
        using e unfolding 1(3) IH(1) maps [of "\<lambda>e. wake_opt (te_task e)"] by simp
      ultimately show ?thesis
        using IH(2,5) \<open>a \<notin> set as\<close> by (intro exI [of _ "a # as"] exI [of _ s'] exI [of _ h']) simp
    qed
  qed
qed

section \<open>The timer with its clock and its futures\<close>

record timer_sys =
  tx_timer :: timer_state
  tx_clock :: mock_clock
  tx_nodes :: timer_store
  tx_futures :: "addr \<rightharpoonup> local_timer_future"
  tx_woken :: "waker list"

datatype timer_action =
    Timer_Deadline addr u64
  | Timer_Delay addr duration
  | Timer_Poll addr waker
  | Timer_Drop addr
  | Timer_Check
  | Timer_Set_Time u64

definition timer_sys_new :: timer_sys where
  "timer_sys_new = \<lparr>tx_timer = timer_state_new, tx_clock = mock_clock_new, tx_nodes = Map.empty,
     tx_futures = Map.empty, tx_woken = []\<rparr>"

abbreviation timer_now :: "timer_sys \<Rightarrow> u64" where
  "timer_now s \<equiv> mock_clock_now (tx_clock s)"

text \<open>The contract of \<open>Clock\<close>: time does not go back.\<close>

fun timer_enabled :: "timer_action \<Rightarrow> timer_sys \<Rightarrow> bool" where
  "timer_enabled (Timer_Deadline a t) s = (tx_nodes s a = None)"
| "timer_enabled (Timer_Delay a d) s = (tx_nodes s a = None)"
| "timer_enabled (Timer_Poll a cx) s =
     (case tx_futures s a of None \<Rightarrow> False | Some f \<Rightarrow> \<not> local_timer_future_is_terminated f)"
| "timer_enabled (Timer_Drop a) s = (tx_futures s a \<noteq> None)"
| "timer_enabled Timer_Check s = True"
| "timer_enabled (Timer_Set_Time t) s = (timer_now s \<le> t)"

fun timer_exec :: "timer_action \<Rightarrow> timer_sys \<Rightarrow> timer_sys res" where
  "timer_exec (Timer_Deadline a t) s =
     (case local_timer_deadline t a of (f, n) \<Rightarrow>
        Inr (s\<lparr>tx_nodes := (tx_nodes s)(a \<mapsto> n), tx_futures := (tx_futures s)(a \<mapsto> f)\<rparr>))"
| "timer_exec (Timer_Delay a d) s =
     (case local_timer_delay (timer_now s) d a of (f, n) \<Rightarrow>
        Inr (s\<lparr>tx_nodes := (tx_nodes s)(a \<mapsto> n), tx_futures := (tx_futures s)(a \<mapsto> f)\<rparr>))"
| "timer_exec (Timer_Poll a cx) s =
     and_then (deref (tx_futures s) a) (\<lambda>f.
     and_then (local_timer_future_poll (timer_now s) f cx (tx_timer s) (tx_nodes s)) (\<lambda>(r, f, t, h).
     Inr (s\<lparr>tx_timer := t, tx_nodes := h, tx_futures := (tx_futures s)(a \<mapsto> f)\<rparr>)))"
| "timer_exec (Timer_Drop a) s =
     and_then (deref (tx_futures s) a) (\<lambda>f.
     and_then (local_timer_future_drop f (tx_timer s) (tx_nodes s)) (\<lambda>(t, h).
     Inr (s\<lparr>tx_timer := t, tx_nodes := h(a := None), tx_futures := (tx_futures s)(a := None)\<rparr>)))"
| "timer_exec Timer_Check s =
     and_then (timer_check_expirations (timer_now s) (tx_timer s) (tx_nodes s)) (\<lambda>(woken, t, h).
     Inr (s\<lparr>tx_timer := t, tx_nodes := h, tx_woken := tx_woken s @ woken\<rparr>))"
| "timer_exec (Timer_Set_Time t) s =
     and_then (mock_clock_set_time t (tx_clock s)) (\<lambda>c. Inr (s\<lparr>tx_clock := c\<rparr>))"

abbreviation timer_reachable :: "timer_sys \<Rightarrow> bool" where
  "timer_reachable \<equiv> reach (\<lambda>s. s = timer_sys_new) timer_enabled timer_exec"

definition timer_futures_ok :: "(addr \<rightharpoonup> timer_entry) \<Rightarrow> (addr \<rightharpoonup> local_timer_future) \<Rightarrow> bool" where
  "timer_futures_ok D fs \<longleftrightarrow>
     (\<forall>a. D a = None \<longleftrightarrow> fs a = None) \<and>
     (\<forall>a f e. fs a = Some f \<longrightarrow> D a = Some e \<longrightarrow>
        ltf_wait_node f = a \<and> (\<not> ltf_timer f \<longrightarrow> te_state e = Tm_Expired))"

text \<open>The nodes that wait are those that are registered.\<close>

definition registered :: "(addr \<rightharpoonup> timer_entry) \<Rightarrow> addr set" where
  "registered D = {a. \<exists>e. D a = Some e \<and> te_state e = Tm_Registered}"

definition timer_inv :: "timer_sys \<Rightarrow> bool" where
  "timer_inv s \<longleftrightarrow>
     (\<exists>A. timer_rep (tx_timer s) (tx_nodes s) A \<and> timer_entries_ok (timer_now s) (heap_data (tx_nodes s)) A) \<and>
     timer_futures_ok (heap_data (tx_nodes s)) (tx_futures s)"

lemma timer_entries_registered: "timer_entries_ok now D A \<Longrightarrow> A = registered D"
  by (auto simp: timer_entries_ok_def registered_def)

lemma timer_invD:
  assumes "timer_inv s"
  shows "timer_rep (tx_timer s) (tx_nodes s) (registered (heap_data (tx_nodes s)))"
    "timer_entries_ok (timer_now s) (heap_data (tx_nodes s)) (registered (heap_data (tx_nodes s)))"
    "timer_futures_ok (heap_data (tx_nodes s)) (tx_futures s)"
  using assms timer_entries_registered by (auto simp: timer_inv_def)

lemma timer_invI:
  "timer_rep (tx_timer s) (tx_nodes s) A \<Longrightarrow> timer_entries_ok (timer_now s) (heap_data (tx_nodes s)) A \<Longrightarrow>
   timer_futures_ok (heap_data (tx_nodes s)) (tx_futures s) \<Longrightarrow> timer_inv s"
  by (auto simp: timer_inv_def)

lemma timer_futures_okD:
  "timer_futures_ok D fs \<Longrightarrow> fs a = Some f \<Longrightarrow>
   \<exists>e. D a = Some e \<and> ltf_wait_node f = a \<and> (\<not> ltf_timer f \<longrightarrow> te_state e = Tm_Expired)"
  by (cases "D a") (auto simp: timer_futures_ok_def)

text \<open>Every call keeps the invariant, and a node once expired stays so until it is dropped.\<close>

definition timer_done :: "timer_sys \<Rightarrow> addr \<Rightarrow> bool" where
  "timer_done s a \<longleftrightarrow> (\<exists>e. heap_data (tx_nodes s) a = Some e \<and> te_state e = Tm_Expired)"

definition timer_guarantee :: "timer_action \<Rightarrow> timer_sys \<Rightarrow> timer_sys \<Rightarrow> bool" where
  "timer_guarantee act s t \<longleftrightarrow>
     timer_inv t \<and> (\<forall>a. timer_done s a \<longrightarrow> act \<noteq> Timer_Drop a \<longrightarrow> timer_done t a)"

lemma timer_new_preserves:
  fixes d :: u64
  assumes inv: "timer_inv s" and fresh: "tx_nodes s a = None"
  defines "t \<equiv> s\<lparr>tx_nodes := (tx_nodes s)(a \<mapsto> heap_node_new (timer_entry_new d)),
     tx_futures := (tx_futures s)(a \<mapsto> \<lparr>ltf_timer = True, ltf_wait_node = a\<rparr>)\<rparr>"
  shows "timer_guarantee act s t"
proof -
  note I = timer_invD [OF inv]
  let ?A = "registered (heap_data (tx_nodes s))"
  note r = heap_rep_alloc(1) [OF I(1) fresh, where d = "timer_entry_new d"] heap_rep_alloc(2) [OF I(1) fresh]
  have h: "heap_data ((tx_nodes s)(a \<mapsto> heap_node_new (timer_entry_new d))) = (heap_data (tx_nodes s))(a \<mapsto> timer_entry_new d)"
    by (simp add: heap_data_upd heap_node_new_def)
  have new: "heap_data (tx_nodes s) a = None" using fresh by (simp add: heap_data_def)
  have "timer_entries_ok (timer_now s) ((heap_data (tx_nodes s))(a \<mapsto> timer_entry_new d)) ?A"
    using I(2) r(2) by (auto simp: timer_entries_ok_def)
  moreover have "timer_futures_ok ((heap_data (tx_nodes s))(a \<mapsto> timer_entry_new d)) (tx_futures t)"
    using I(3) new by (auto simp: timer_futures_ok_def t_def)
  ultimately have "timer_inv t"
    using r(1) unfolding t_def by (intro timer_invI [of _ ?A]) (simp_all add: h)
  with new show ?thesis
    by (auto simp: timer_guarantee_def timer_done_def t_def h)
qed

lemma timer_poll_preserves:
  assumes inv: "timer_inv s" and f: "tx_futures s a = Some f" "ltf_timer f"
    and e: "heap_data (tx_nodes s) a = Some e"
  shows "returns (local_timer_future_poll (timer_now s) f cx (tx_timer s) (tx_nodes s)) (\<lambda>(r, f', t, h).
    timer_guarantee (Timer_Poll a cx) s (s\<lparr>tx_timer := t, tx_nodes := h, tx_futures := (tx_futures s)(a \<mapsto> f')\<rparr>) \<and>
    (if r = Ready () then local_timer_future_is_terminated f' \<and> te_expiry e \<le> timer_now s
     else \<not> local_timer_future_is_terminated f' \<and> te_state e \<noteq> Tm_Expired \<and>
       (te_state e = Tm_Unregistered \<longrightarrow> timer_now s < te_expiry e) \<and>
       heap_data h a = Some (e\<lparr>te_task := Some cx, te_state := Tm_Registered\<rparr>)))"
proof -
  note I = timer_invD [OF inv]
  let ?A = "registered (heap_data (tx_nodes s))"
  from timer_futures_okD [OF I(3) f(1)] e have a: "ltf_wait_node f = a" by simp
  have "returns (timer_try_wait (timer_now s) (tx_timer s) a cx (tx_nodes s)) (\<lambda>(r, t, h).
      if r = Ready ()
      then te_expiry e \<le> timer_now s \<and> te_state e \<noteq> Tm_Registered \<and> timer_rep t h ?A \<and>
        heap_data h = (heap_data (tx_nodes s))(a \<mapsto> e\<lparr>te_state := Tm_Expired\<rparr>)
      else (te_state e = Tm_Registered \<or> te_state e = Tm_Unregistered \<and> timer_now s < te_expiry e) \<and>
        timer_rep t h (insert a ?A) \<and>
        heap_data h = (heap_data (tx_nodes s))(a \<mapsto> e\<lparr>te_task := Some cx, te_state := Tm_Registered\<rparr>))"
    by (rule timer_try_wait_wp [OF I(1,2) e]) simp_all
  moreover have "timer_guarantee (Timer_Poll a cx) s
      (s\<lparr>tx_timer := t, tx_nodes := h, tx_futures := (tx_futures s)(a \<mapsto> f\<lparr>ltf_timer := False\<rparr>)\<rparr>)"
    if "te_expiry e \<le> timer_now s" "te_state e \<noteq> Tm_Registered" "timer_rep t h ?A"
      "heap_data h = (heap_data (tx_nodes s))(a \<mapsto> e\<lparr>te_state := Tm_Expired\<rparr>)" for t h
  proof -
    have "timer_inv (s\<lparr>tx_timer := t, tx_nodes := h, tx_futures := (tx_futures s)(a \<mapsto> f\<lparr>ltf_timer := False\<rparr>)\<rparr>)"
      using that I(2,3) a e by (intro timer_invI [of _ ?A]) (auto simp: timer_entries_ok_def timer_futures_ok_def)
    with that(4) show ?thesis by (auto simp: timer_guarantee_def timer_done_def)
  qed
  moreover have "timer_guarantee (Timer_Poll a cx) s
      (s\<lparr>tx_timer := t, tx_nodes := h, tx_futures := (tx_futures s)(a \<mapsto> f)\<rparr>)"
    if "te_state e = Tm_Registered \<or> te_state e = Tm_Unregistered \<and> timer_now s < te_expiry e" "timer_rep t h (insert a ?A)"
      "heap_data h = (heap_data (tx_nodes s))(a \<mapsto> e\<lparr>te_task := Some cx, te_state := Tm_Registered\<rparr>)" for t h
  proof -
    have "timer_inv (s\<lparr>tx_timer := t, tx_nodes := h, tx_futures := (tx_futures s)(a \<mapsto> f)\<rparr>)"
      using that I(2,3) a e f by (intro timer_invI [of _ "insert a ?A"]) (auto simp: timer_entries_ok_def timer_futures_ok_def)
    with that(1,3) e show ?thesis by (auto simp: timer_guarantee_def timer_done_def)
  qed
  ultimately show ?thesis
    using f a
    by (auto simp: local_timer_future_poll_def local_timer_future_is_terminated_def is_ready_def unit_poll_cases
        split: poll.splits if_splits elim!: returns_mono)
qed

lemma timer_drop_preserves:
  assumes inv: "timer_inv s" and f: "tx_futures s a = Some f"
  shows "returns (timer_exec (Timer_Drop a) s) (timer_guarantee (Timer_Drop a) s)"
proof -
  note I = timer_invD [OF inv]
  let ?A = "registered (heap_data (tx_nodes s))"
  from timer_futures_okD [OF I(3) f] obtain e where
    e: "heap_data (tx_nodes s) a = Some e" "ltf_wait_node f = a" "\<not> ltf_timer f \<longrightarrow> te_state e = Tm_Expired"
    by blast
  have free: "timer_guarantee (Timer_Drop a) s
      (s\<lparr>tx_timer := t, tx_nodes := h(a := None), tx_futures := (tx_futures s)(a := None)\<rparr>)"
    if "timer_rep t h (?A - {a})" "heap_data h = (heap_data (tx_nodes s))(a \<mapsto> e')" for t h e'
  proof -
    have h: "heap_data (h(a := None)) = (heap_data (tx_nodes s))(a := None)"
      using that(2) by (auto simp: heap_data_def fun_eq_iff split: if_splits)
    have "timer_inv (s\<lparr>tx_timer := t, tx_nodes := h(a := None), tx_futures := (tx_futures s)(a := None)\<rparr>)"
    proof (intro timer_invI [of _ "?A - {a}"])
      show "timer_entries_ok (timer_now (s\<lparr>tx_timer := t, tx_nodes := h(a := None), tx_futures := (tx_futures s)(a := None)\<rparr>))
          (heap_data (tx_nodes (s\<lparr>tx_timer := t, tx_nodes := h(a := None), tx_futures := (tx_futures s)(a := None)\<rparr>))) (?A - {a})"
        using I(2) by (auto simp: h timer_entries_ok_def)
    qed (use heap_rep_free [OF that(1), of a] I(3) in \<open>auto simp: h timer_futures_ok_def\<close>)
    then show ?thesis by (auto simp: timer_guarantee_def timer_done_def h)
  qed
  show ?thesis
  proof (cases "ltf_timer f")
    case True
    have "returns (timer_remove_waiter (tx_timer s) a (tx_nodes s)) (\<lambda>(t, h). timer_guarantee (Timer_Drop a) s
      (s\<lparr>tx_timer := t, tx_nodes := h(a := None), tx_futures := (tx_futures s)(a := None)\<rparr>))"
      by (rule timer_remove_waiter_wp [OF I(1,2) e(1)]) (simp add: free)
    then show ?thesis
      using True f e(2) by (auto simp: local_timer_future_drop_def elim!: returns_mono)
  next
    case False
    with e timer_entries_okD [OF I(2) e(1)] have "?A - {a} = ?A" by auto
    with free [of "tx_nodes s" "tx_timer s" e] I(1) False f e show ?thesis
      by (simp add: local_timer_future_drop_def fun_upd_idem)
  qed
qed

lemma timer_check_run:
  assumes inv: "timer_inv s"
  shows "\<exists>as t h. timer_check_expirations (timer_now s) (tx_timer s) (tx_nodes s) =
      Inr (map (\<lambda>a. the (te_task (heap_val (tx_nodes s) a))) as, t, h) \<and>
    distinct as \<and> set as = due (timer_now s) (tx_nodes s) (registered (heap_data (tx_nodes s))) \<and>
    sorted (map (\<lambda>a. te_expiry (heap_val (tx_nodes s) a)) as) \<and>
    timer_rep t h (registered (heap_data (tx_nodes s)) - set as) \<and>
    heap_data h = (\<lambda>a. if a \<in> set as then map_option expired (heap_data (tx_nodes s) a) else heap_data (tx_nodes s) a)"
proof -
  note I = timer_invD [OF inv]
  let ?A = "registered (heap_data (tx_nodes s))"
  from timer_check_loop_run [OF I(1), of "timer_now s" "[]"] obtain as t h where
    run: "timer_check_expirations (timer_now s) (tx_timer s) (tx_nodes s) =
        Inr (concat (map (\<lambda>a. wake_opt (te_task (heap_val (tx_nodes s) a))) as), t, h)"
      "distinct as" "set as = due (timer_now s) (tx_nodes s) ?A"
      "sorted (map (\<lambda>a. te_expiry (heap_val (tx_nodes s) a)) as)" "timer_rep t h (?A - set as)"
      "heap_data h = (\<lambda>a. if a \<in> set as then map_option expired (heap_data (tx_nodes s) a) else heap_data (tx_nodes s) a)"
    unfolding timer_check_expirations_def append_Nil by blast
  have "\<exists>w. te_task (heap_val (tx_nodes s) a) = Some w" if "a \<in> ?A" for a
    using I(2) that by (fastforce simp: timer_entries_ok_def)
  then have "concat (map (\<lambda>a. wake_opt (te_task (heap_val (tx_nodes s) a))) bs) =
      map (\<lambda>a. the (te_task (heap_val (tx_nodes s) a))) bs" if "set bs \<subseteq> ?A" for bs
    using that by (induction bs) fastforce+
  from this [of as] run show ?thesis by auto
qed

lemma timer_check_preserves:
  assumes inv: "timer_inv s"
  shows "returns (timer_exec Timer_Check s) (timer_guarantee Timer_Check s)"
proof -
  note I = timer_invD [OF inv]
  let ?D = "heap_data (tx_nodes s)" and ?A = "registered (heap_data (tx_nodes s))"
  from timer_check_run [OF inv] obtain as w t h where
    run: "timer_check_expirations (timer_now s) (tx_timer s) (tx_nodes s) = Inr (w, t, h)"
      "set as = due (timer_now s) (tx_nodes s) ?A" "timer_rep t h (?A - set as)"
      "heap_data h = (\<lambda>a. if a \<in> set as then map_option expired (?D a) else ?D a)"
    by blast
  have "timer_entries_ok (timer_now s) (\<lambda>a. if a \<in> set as then map_option expired (?D a) else ?D a) (?A - set as)"
    using I(2) run(2) by (auto simp: timer_entries_ok_def)
  moreover have "timer_futures_ok (\<lambda>a. if a \<in> set as then map_option expired (?D a) else ?D a) (tx_futures s)"
    using I(3) by (auto simp: timer_futures_ok_def)
  ultimately have "timer_inv (s\<lparr>tx_timer := t, tx_nodes := h, tx_woken := ws\<rparr>)" for ws
    using run(3,4) by (intro timer_invI [of _ "?A - set as"]) simp_all
  with run(1,4) show ?thesis by (auto simp: timer_guarantee_def timer_done_def)
qed

lemma mock_clock_now_eq [simp]: "mock_clock_now c = mc_now c"
  by (simp add: mock_clock_now_def)

lemma mock_clock_set_time_eq [simp]: "mock_clock_set_time t c = Inr (c\<lparr>mc_now := t\<rparr>)"
  by (simp add: mock_clock_set_time_def Let_def)

lemma timer_set_time_preserves:
  assumes "timer_inv s" "timer_now s \<le> t"
  shows "returns (timer_exec (Timer_Set_Time t) s) (timer_guarantee (Timer_Set_Time t) s)"
proof -
  note I = timer_invD [OF assms(1)]
  have "timer_entries_ok t (heap_data (tx_nodes s)) (registered (heap_data (tx_nodes s)))"
    using I(2) assms(2) by (fastforce simp: timer_entries_ok_def)
  with I show ?thesis
    by (auto simp: timer_guarantee_def timer_done_def intro: timer_invI)
qed

lemma timer_exec_guarantee:
  assumes "timer_inv s" "timer_enabled act s"
  shows "returns (timer_exec act s) (timer_guarantee act s)"
proof (cases act)
  case (Timer_Poll a cx)
  with assms obtain f where f: "tx_futures s a = Some f" "ltf_timer f"
    by (auto simp: local_timer_future_is_terminated_def split: option.splits)
  from timer_futures_okD [OF timer_invD(3) [OF assms(1)] f(1)] obtain e where "heap_data (tx_nodes s) a = Some e" by blast
  from timer_poll_preserves [OF assms(1) f this, of cx] f Timer_Poll show ?thesis
    by (auto elim!: returns_mono)
next
  case (Timer_Deadline a t)
  with assms timer_new_preserves [of s a act t] show ?thesis by (simp add: local_timer_deadline_def)
next
  case (Timer_Delay a d)
  with assms timer_new_preserves [of s a act "timer_deadline_from_now (timer_now s) d"] show ?thesis
    by (simp add: local_timer_delay_def local_timer_deadline_def)
next
  case (Timer_Drop a)
  with assms obtain f where "tx_futures s a = Some f" by auto
  from timer_drop_preserves [OF assms(1) this] Timer_Drop show ?thesis by (simp del: timer_exec.simps)
next
  case Timer_Check
  with timer_check_preserves [OF assms(1)] show ?thesis by (simp del: timer_exec.simps)
next
  case (Timer_Set_Time t)
  with assms timer_set_time_preserves [of s t] show ?thesis by (simp del: timer_exec.simps)
qed

lemma timer_sys_new_inv: "timer_inv timer_sys_new"
proof -
  have "heap_rep timer_entry_lesser Map.empty heap_new {}"
    by (rule heap_rep_empty) (simp add: links_def)
  then show ?thesis
    by (intro timer_invI [of _ "{}"])
      (simp_all add: timer_sys_new_def timer_state_new_def timer_entries_ok_def timer_futures_ok_def heap_data_def)
qed

interpretation tms: transition_system "\<lambda>s. s = timer_sys_new" timer_enabled timer_exec timer_inv
proof unfold_locales
  show "timer_inv s" if "s = timer_sys_new" for s using that by (simp add: timer_sys_new_inv)
  show "returns (timer_exec a s) timer_inv" if "timer_inv s" "timer_enabled a s" for a s
    using timer_exec_guarantee [OF that] by (rule returns_mono) (simp add: timer_guarantee_def)
qed

lemma timer_done_stable:
  "exec_all timer_enabled timer_exec acts s = Some t \<Longrightarrow> timer_inv s \<Longrightarrow> timer_done s a \<Longrightarrow>
   Timer_Drop a \<notin> set acts \<Longrightarrow> timer_done t a"
proof (induction acts arbitrary: s)
  case (Cons act acts)
  then show ?case
    using timer_exec_guarantee [of s act]
    by (auto simp: timer_guarantee_def split: if_splits sum.splits)
qed simp

section \<open>Properties\<close>

lemmas timer_eval =
  timer_sys_new_def timer_state_new_def heap_new_def mock_clock_new_def local_timer_deadline_def
  local_timer_future_poll_def local_timer_future_is_terminated_def timer_try_wait_def
  heap_read_data_def heap_update_data_def heap_insert_def heap_is_root_def meld_def add_child_def
  safe_lesser_def heap_node_new_def timer_entry_new_def deref_def update_node_def

text \<open>A concrete run for the witnesses: deadlines at 5, 3 and 9, and the clock at 6.\<close>

abbreviation timer_demo_acts :: "timer_action list" where
  "timer_demo_acts \<equiv> [Timer_Deadline 1 5, Timer_Poll 1 (Waker 1 0), Timer_Deadline 2 3, Timer_Poll 2 (Waker 2 0),
     Timer_Deadline 3 9, Timer_Poll 3 (Waker 3 0), Timer_Set_Time 6]"

definition timer_demo :: timer_sys where
  "timer_demo = the (exec_all timer_enabled timer_exec timer_demo_acts timer_sys_new)"

lemma timer_demo_run:
  "\<exists>s. exec_all timer_enabled timer_exec timer_demo_acts timer_sys_new = Some s \<and> timer_now s = 6 \<and>
     heap_data (tx_nodes s) 1 = Some \<lparr>te_expiry = 5, te_task = Some (Waker 1 0), te_state = Tm_Registered\<rparr> \<and>
     heap_data (tx_nodes s) 2 = Some \<lparr>te_expiry = 3, te_task = Some (Waker 2 0), te_state = Tm_Registered\<rparr> \<and>
     heap_data (tx_nodes s) 3 = Some \<lparr>te_expiry = 9, te_task = Some (Waker 3 0), te_state = Tm_Registered\<rparr> \<and>
     (\<forall>a. a \<notin> {1, 2, 3} \<longrightarrow> heap_data (tx_nodes s) a = None) \<and>
     tx_futures s 1 = Some \<lparr>ltf_timer = True, ltf_wait_node = 1\<rparr>"
  by (simp add: timer_eval heap_data_def)

lemma timer_demo_facts:
  "exec_all timer_enabled timer_exec timer_demo_acts timer_sys_new = Some timer_demo" "timer_now timer_demo = 6"
  "heap_data (tx_nodes timer_demo) 1 = Some \<lparr>te_expiry = 5, te_task = Some (Waker 1 0), te_state = Tm_Registered\<rparr>"
  "heap_data (tx_nodes timer_demo) 2 = Some \<lparr>te_expiry = 3, te_task = Some (Waker 2 0), te_state = Tm_Registered\<rparr>"
  "heap_data (tx_nodes timer_demo) 3 = Some \<lparr>te_expiry = 9, te_task = Some (Waker 3 0), te_state = Tm_Registered\<rparr>"
  "a \<notin> {1, 2, 3} \<Longrightarrow> heap_data (tx_nodes timer_demo) a = None"
  "tx_futures timer_demo 1 = Some \<lparr>ltf_timer = True, ltf_wait_node = 1\<rparr>"
proof -
  from timer_demo_run obtain s where s: "exec_all timer_enabled timer_exec timer_demo_acts timer_sys_new = Some s"
    "timer_now s = 6"
    "heap_data (tx_nodes s) 1 = Some \<lparr>te_expiry = 5, te_task = Some (Waker 1 0), te_state = Tm_Registered\<rparr>"
    "heap_data (tx_nodes s) 2 = Some \<lparr>te_expiry = 3, te_task = Some (Waker 2 0), te_state = Tm_Registered\<rparr>"
    "heap_data (tx_nodes s) 3 = Some \<lparr>te_expiry = 9, te_task = Some (Waker 3 0), te_state = Tm_Registered\<rparr>"
    "\<forall>a. a \<notin> {1, 2, 3} \<longrightarrow> heap_data (tx_nodes s) a = None"
    "tx_futures s 1 = Some \<lparr>ltf_timer = True, ltf_wait_node = 1\<rparr>" by blast
  moreover from s(1) have "timer_demo = s" unfolding timer_demo_def by simp
  ultimately show "exec_all timer_enabled timer_exec timer_demo_acts timer_sys_new = Some timer_demo" "timer_now timer_demo = 6"
    "heap_data (tx_nodes timer_demo) 1 = Some \<lparr>te_expiry = 5, te_task = Some (Waker 1 0), te_state = Tm_Registered\<rparr>"
    "heap_data (tx_nodes timer_demo) 2 = Some \<lparr>te_expiry = 3, te_task = Some (Waker 2 0), te_state = Tm_Registered\<rparr>"
    "heap_data (tx_nodes timer_demo) 3 = Some \<lparr>te_expiry = 9, te_task = Some (Waker 3 0), te_state = Tm_Registered\<rparr>"
    "a \<notin> {1, 2, 3} \<Longrightarrow> heap_data (tx_nodes timer_demo) a = None"
    "tx_futures timer_demo 1 = Some \<lparr>ltf_timer = True, ltf_wait_node = 1\<rparr>"
    by (simp_all only:) auto
qed

lemma timer_demo_reach: "timer_reachable timer_demo"
  by (rule exec_all_reach [OF timer_demo_facts(1) reach_init]) simp

lemma timer_demo_registered: "registered (heap_data (tx_nodes timer_demo)) = {1, 2, 3}"
proof -
  have "a \<in> {1, 2, 3}" if "heap_data (tx_nodes timer_demo) a = Some e" for a e
    using that timer_demo_facts(6) [of a] by auto
  then show ?thesis using timer_demo_facts(3-5) by (fastforce simp: registered_def)
qed

text \<open>
  C17: a timer future never completes early. A poll returns; it is \<open>Ready\<close> only once the clock has
  reached the deadline, and if it is \<open>Pending\<close> the future is registered with the waker of this
  poll and had not expired before.
\<close>

theorem timer_never_early:
  assumes reach: "timer_reachable s" and f: "tx_futures s a = Some f" "\<not> local_timer_future_is_terminated f"
    and e: "heap_data (tx_nodes s) a = Some e"
  shows "returns (local_timer_future_poll (timer_now s) f cx (tx_timer s) (tx_nodes s)) (\<lambda>(r, f', t, h).
    if r = Ready () then local_timer_future_is_terminated f' \<and> te_expiry e \<le> timer_now s
    else \<not> local_timer_future_is_terminated f' \<and> te_state e \<noteq> Tm_Expired \<and>
      (te_state e = Tm_Unregistered \<longrightarrow> timer_now s < te_expiry e) \<and>
      heap_data h a = Some (e\<lparr>te_task := Some cx, te_state := Tm_Registered\<rparr>))"
proof -
  from f(2) have "ltf_timer f" by (simp add: local_timer_future_is_terminated_def)
  from timer_poll_preserves [OF tms.reach_inv [OF reach] f(1) this e, of cx] show ?thesis
    by (rule returns_mono) auto
qed

theorem timer_never_early_witness:
  "returns (local_timer_future_poll 6 \<lparr>ltf_timer = True, ltf_wait_node = 1\<rparr> (Waker 7 0) (tx_timer timer_demo) (tx_nodes timer_demo))
    (\<lambda>(r, f, t, h). r = Ready () \<and> local_timer_future_is_terminated f \<or>
       r = Pending \<and> map_option te_task (heap_data h 1) = Some (Some (Waker 7 0)))"
proof -
  have "\<not> local_timer_future_is_terminated \<lparr>ltf_timer = True, ltf_wait_node = 1\<rparr>"
    by (simp add: local_timer_future_is_terminated_def)
  from timer_never_early [OF timer_demo_reach timer_demo_facts(7) this timer_demo_facts(3), of "Waker 7 0"] show ?thesis
    unfolding timer_demo_facts(2) by (rule returns_mono) (auto simp: unit_poll_cases split: if_splits)
qed

text \<open>
  C3: a check of the expirations ends and serves exactly the futures that are due: it wakes each of
  them once, with the waker of its last poll, in the order of the deadlines, marks them expired and
  leaves every other future as it was; the next expiration is then the earliest deadline of those
  that still wait, which lies in the future.
\<close>

theorem timer_check_fires:
  assumes "timer_reachable s"
  shows "returns (timer_check_expirations (timer_now s) (tx_timer s) (tx_nodes s)) (\<lambda>(woken, t, h).
    let D = heap_data (tx_nodes s); A = registered D; expiry = (\<lambda>a. te_expiry (the (D a))) in
    \<exists>as. distinct as \<and> set as = {a \<in> A. expiry a \<le> timer_now s} \<and> sorted (map expiry as) \<and>
      woken = map (\<lambda>a. the (te_task (the (D a)))) as \<and>
      heap_data h = (\<lambda>a. if a \<in> set as then map_option expired (D a) else D a) \<and>
      timer_next_expiration t h = Inr (if A = set as then None else Some (Min (expiry ` (A - set as)))))"
proof -
  have inv: "timer_inv s" by (rule tms.reach_inv [OF assms])
  let ?D = "heap_data (tx_nodes s)"
  let ?A = "registered ?D" and ?x = "\<lambda>a. te_expiry (the (?D a))"
  from timer_check_run [OF inv] obtain as t h where
    run: "timer_check_expirations (timer_now s) (tx_timer s) (tx_nodes s) = Inr (map (\<lambda>a. the (te_task (the (?D a)))) as, t, h)"
      "distinct as" "set as = {a \<in> ?A. ?x a \<le> timer_now s}" "sorted (map ?x as)" "timer_rep t h (?A - set as)"
      "heap_data h = (\<lambda>a. if a \<in> set as then map_option expired (?D a) else ?D a)"
    by blast
  from timer_next_expiration_run [OF run(5)] obtain r where r: "timer_next_expiration t h = Inr r"
    "case r of None \<Rightarrow> ?A - set as = {}
     | Some d \<Rightarrow> (\<exists>a\<in>?A - set as. te_expiry (heap_val h a) = d) \<and> (\<forall>a\<in>?A - set as. d \<le> te_expiry (heap_val h a))"
    by blast
  have fin: "finite (?A - set as)" by (rule th.pq.rep_finite [OF run(5)])
  have same: "heap_val h a = the (?D a)" if "a \<in> ?A - set as" for a using that by (simp add: run(6))
  have "set as \<subseteq> ?A" using run(3) by blast
  have "r = (if ?A = set as then None else Some (Min (?x ` (?A - set as))))"
  proof (cases r)
    case None
    with r(2) \<open>set as \<subseteq> ?A\<close> show ?thesis by auto
  next
    case (Some d)
    with r(2) same obtain a where a: "a \<in> ?A - set as" "?x a = d" "\<forall>b\<in>?A - set as. d \<le> ?x b" by fastforce
    then have "Min (?x ` (?A - set as)) = d" using fin by (intro Min_eqI) auto
    with a(1) Some show ?thesis by auto
  qed
  with r(1) have next_exp: "timer_next_expiration t h = Inr (if ?A = set as then None else Some (Min (?x ` (?A - set as))))"
    by simp
  show ?thesis
    unfolding Let_def run(1) returns_simps prod.case
    by (intro exI [of _ as] conjI run(2,3,4,6) next_exp refl)
qed

theorem timer_check_fires_witness:
  "returns (timer_check_expirations 6 (tx_timer timer_demo) (tx_nodes timer_demo))
    (\<lambda>(woken, t, h). set woken = {Waker 2 0, Waker 1 0})"
proof -
  let ?D = "heap_data (tx_nodes timer_demo)"
  have "(\<lambda>a. the (te_task (the (?D a)))) ` {a \<in> {1, 2, 3}. te_expiry (the (?D a)) \<le> 6} = {Waker 2 0, Waker 1 0}"
  proof -
    have "{a \<in> {1, 2, 3}. te_expiry (the (?D a)) \<le> 6} = {1, 2}" using timer_demo_facts(3-5) by auto
    then show ?thesis using timer_demo_facts(3,4) by auto
  qed
  then have wakers: "set woken = {Waker 2 0, Waker 1 0}"
    if "woken = map (\<lambda>a. the (te_task (the (?D a)))) as" "set as = {a \<in> {1, 2, 3}. te_expiry (the (?D a)) \<le> 6}" for woken as
    using that by simp
  from timer_check_fires [OF timer_demo_reach] show ?thesis
    unfolding timer_demo_facts(2) timer_demo_registered Let_def
    by (rule returns_mono) (use wakers in blast)
qed

text \<open>
  C18: no expiry is missed. A future that waits and is due at a check of the expirations completes
  with its next poll, whatever calls happen in between, unless it is dropped.
\<close>

theorem timer_no_missed_expiry:
  assumes reach: "timer_reachable s" and e: "heap_data (tx_nodes s) a = Some e"
    and waits: "te_state e = Tm_Registered" "te_expiry e \<le> timer_now s"
    and check: "timer_exec Timer_Check s = Inr t"
    and run: "exec_all timer_enabled timer_exec acts t = Some u" "Timer_Drop a \<notin> set acts"
    and poll: "timer_enabled (Timer_Poll a cx) u"
  shows "returns (timer_exec (Timer_Poll a cx) u)
    (\<lambda>v. \<exists>f. tx_futures v a = Some f \<and> local_timer_future_is_terminated f)"
proof -
  have inv: "timer_inv s" by (rule tms.reach_inv [OF reach])
  from timer_check_run [OF inv] obtain as w t' h where
    "timer_check_expirations (timer_now s) (tx_timer s) (tx_nodes s) = Inr (w, t', h)"
    "set as = due (timer_now s) (tx_nodes s) (registered (heap_data (tx_nodes s)))"
    "heap_data h = (\<lambda>a. if a \<in> set as then map_option expired (heap_data (tx_nodes s) a) else heap_data (tx_nodes s) a)"
    by blast
  with check e waits have "timer_done t a"
    by (auto simp: timer_done_def registered_def)
  moreover have "timer_inv t"
    using timer_check_preserves [OF inv] check by (simp add: timer_guarantee_def del: timer_exec.simps)
  ultimately have u: "timer_done u a" "timer_inv u"
    using timer_done_stable [OF run(1) _ _ run(2)] tms.exec_all_inv [OF run(1)] by auto
  from poll obtain f where f: "tx_futures u a = Some f" "ltf_timer f"
    by (auto simp: local_timer_future_is_terminated_def split: option.splits)
  from u(1) obtain e' where "heap_data (tx_nodes u) a = Some e'" "te_state e' = Tm_Expired"
    by (auto simp: timer_done_def)
  with timer_poll_preserves [OF u(2) f, of e' cx] f(1) show ?thesis
    by (auto elim!: returns_mono split: if_splits)
qed

theorem timer_no_missed_expiry_witness:
  "\<exists>t. timer_exec Timer_Check timer_demo = Inr t \<and>
    returns (timer_exec (Timer_Poll 1 (Waker 9 0)) t)
      (\<lambda>v. \<exists>f. tx_futures v 1 = Some f \<and> local_timer_future_is_terminated f)"
proof -
  from tms.no_fault [OF timer_demo_reach, of Timer_Check] obtain t where t: "timer_exec Timer_Check timer_demo = Inr t"
    by auto
  then have "tx_futures t 1 = Some \<lparr>ltf_timer = True, ltf_wait_node = 1\<rparr>"
    by (auto simp: and_then_eq_Inr timer_demo_facts(7) simp del: One_nat_def)
  then have "timer_enabled (Timer_Poll 1 (Waker 9 0)) t" by (simp add: local_timer_future_is_terminated_def)
  moreover have "exec_all timer_enabled timer_exec [] t = Some t" by simp
  ultimately have "returns (timer_exec (Timer_Poll 1 (Waker 9 0)) t)
      (\<lambda>v. \<exists>f. tx_futures v 1 = Some f \<and> local_timer_future_is_terminated f)"
    by (intro timer_no_missed_expiry [OF timer_demo_reach timer_demo_facts(3) _ _ t, of "[]"])
      (simp_all only: timer_demo_facts(2) timer_entry.simps, auto)
  with t show ?thesis by blast
qed

text \<open>
  No call of the timer API faults. In every reachable state every permitted call returns, with
  the clock going forward: no debug assertion of the heap fails, no pointer dangles, and the loops
  of a check and of the removals end.
\<close>

theorem timer_no_fault:
  assumes "timer_reachable s" "timer_enabled act s"
  shows "\<exists>t. timer_exec act s = Inr t"
  using tms.no_fault [OF assms] by blast

theorem timer_no_fault_witness: "\<exists>t. timer_exec (Timer_Drop 1) timer_demo = Inr t"
  by (rule timer_no_fault [OF timer_demo_reach]) (simp add: timer_demo_facts(7) del: One_nat_def)

lemma unat_ucast_up: "unat (ucast (x :: 64 word) :: 128 word) = unat x" "unat (ucast (y :: 32 word) :: 128 word) = unat y"
proof -
  have "unat x < 2 ^ LENGTH(64)" "unat y < 2 ^ LENGTH(32)" by (rule unsigned_less)+
  then show "unat (ucast x :: 128 word) = unat x" "unat (ucast y :: 128 word) = unat y"
    by (simp_all add: unsigned_ucast_eq take_bit_nat_eq_self)
qed

lemma unat_max_u64: "unat (- 1 :: u64) = 2 ^ 64 - 1"
  by (simp add: unsigned_minus_1_eq_mask mask_eq_exp_minus_1)

lemma unat_ucast_down: "unat (x :: 128 word) < 2 ^ 64 \<Longrightarrow> unat (ucast x :: 64 word) = unat x"
  by (simp add: unsigned_ucast_eq take_bit_nat_eq_self)

lemma unat_as_millis: "unat (as_millis d) = unat (dur_secs d) * 1000 + unat (dur_nanos d) div 1000000"
proof -
  have s: "unat (dur_secs d) < 2 ^ 64" by (rule unat_usize_less)
  have "unat (dur_nanos d) < 2 ^ LENGTH(32)" by (rule unsigned_less)
  then have n: "unat (dur_nanos d) div 1000000 < 2 ^ 32" by (simp add: less_mult_imp_div_less)
  have n': "unat (dur_nanos d div 1000000) = unat (dur_nanos d) div 1000000" by (simp add: unat_div_distrib)
  have m: "unat (ucast (dur_secs d) * 1000 :: 128 word) = unat (dur_secs d) * 1000"
    using s by (subst unat_mult_lem [THEN iffD1]) (simp_all add: unat_ucast_up)
  show ?thesis
    unfolding as_millis_def using s n
    by (subst unat_add_lem [THEN iffD1]) (simp_all add: unat_ucast_up n' m)
qed

text \<open>
  A delay saturates. The deadline of a delay is the time plus the whole milliseconds of the
  duration, capped at the largest timestamp; it never wraps around to a time in the past.
\<close>

theorem timer_deadline_saturates:
  "unat (timer_deadline_from_now now d) =
     min (2 ^ 64 - 1) (unat now + (unat (dur_secs d) * 1000 + unat (dur_nanos d) div 1000000))"
proof -
  let ?m = "unat (dur_secs d) * 1000 + unat (dur_nanos d) div 1000000"
  let ?c = "min (as_millis d) (ucast (- 1 :: u64))"
  have "unat ?c = min ?m (2 ^ 64 - 1)"
    by (simp add: min_def word_le_nat_alt unat_ucast_up unat_as_millis unat_max_u64)
  moreover from this have "unat ?c < 2 ^ 64" by simp
  ultimately have c: "unat (ucast ?c :: u64) = min ?m (2 ^ 64 - 1)" by (simp add: unat_ucast_down)
  have "unat now < 2 ^ 64" by (rule unat_usize_less)
  then show ?thesis
    unfolding timer_deadline_from_now_def saturating_add_def Let_def c
    by (auto simp: unat_add_no_overflow c unat_max_u64)
qed

end
