(* ===== verification/Std_Clock.thy ===== *)
theory Std_Clock
  imports Timer
begin

text \<open>
  \<open>StdClock\<close> of \<^verbatim>\<open>src/timer/clock.rs\<close>, the clock of the operating system in milliseconds since
  the clock was made. A \<open>std::time::Instant\<close> is the number of nanoseconds on the monotonic clock of
  the system, which the operations that call \<open>Instant::now\<close> take as an argument. Together with
  the timer this bounds how early and how late a delay is due in real time.
\<close>

section \<open>Instants and durations\<close>

type_synonym instant = nat

definition nanos_of :: "duration \<Rightarrow> nat" where
  "nanos_of d = unat (dur_secs d) * 1000000000 + unat (dur_nanos d)"

text \<open>\<open>Duration::from_nanos\<close> in spirit, and \<open>Instant - Instant\<close>, which does not go below zero.\<close>

definition duration_of :: "nat \<Rightarrow> duration" where
  "duration_of n = \<lparr>dur_secs = of_nat (n div 1000000000), dur_nanos = of_nat (n mod 1000000000)\<rparr>"

definition instant_sub :: "instant \<Rightarrow> instant \<Rightarrow> duration" where
  "instant_sub a b = duration_of (a - b)"

section \<open>StdClock\<close>

record std_clock =
  sc_start :: instant

definition std_clock_default :: "instant \<Rightarrow> std_clock" where
  "std_clock_default instant_now = \<lparr>sc_start = instant_now\<rparr>"

definition std_clock_new :: "instant \<Rightarrow> std_clock" where
  "std_clock_new instant_now = std_clock_default instant_now"

definition std_clock_now :: "instant \<Rightarrow> std_clock \<Rightarrow> u64" where
  "std_clock_now instant_now c =
     (let elapsed = instant_sub instant_now (sc_start c) in ucast (as_millis elapsed))"

section \<open>What the clock shows\<close>

lemma duration_of_fields:
  assumes "n < 2 ^ 64 * 1000000"
  shows "unat (dur_secs (duration_of n)) = n div 1000000000"
    and "unat (dur_nanos (duration_of n)) = n mod 1000000000"
proof -
  have "n div 1000000000 < 2 ^ 64" using assms by (simp add: less_mult_imp_div_less)
  then show "unat (dur_secs (duration_of n)) = n div 1000000000"
    by (simp add: duration_of_def unsigned_of_nat take_bit_nat_eq_self)
  have "n mod 1000000000 < 2 ^ LENGTH(32)" by (rule less_trans [of _ 1000000000]) simp_all
  then show "unat (dur_nanos (duration_of n)) = n mod 1000000000"
    by (simp add: duration_of_def unsigned_of_nat take_bit_nat_eq_self)
qed

lemma unat_std_clock_now:
  assumes "i - sc_start c < 2 ^ 64 * 1000000"
  shows "unat (std_clock_now i c) = (i - sc_start c) div 1000000"
proof -
  let ?n = "i - sc_start c"
  have "?n = ?n div 1000000000 * 1000 * 1000000 + ?n mod 1000000000" by simp
  then have "?n div 1000000 = (?n mod 1000000000 + ?n div 1000000000 * 1000 * 1000000) div 1000000"
    by (simp only: add.commute)
  then have "?n div 1000000000 * 1000 + ?n mod 1000000000 div 1000000 = ?n div 1000000"
    by (simp only: div_mult_self1 [OF zero_neq_numeral [symmetric]] add.commute)
  then have m: "unat (as_millis (instant_sub i (sc_start c))) = ?n div 1000000"
    using duration_of_fields [OF assms] by (simp add: unat_as_millis instant_sub_def)
  moreover have "?n div 1000000 < 2 ^ 64" using assms by (simp add: less_mult_imp_div_less)
  ultimately show ?thesis by (simp add: std_clock_now_def unat_ucast_down)
qed

text \<open>The contract of \<open>Clock\<close>: later readings are not smaller, until the milliseconds overflow.\<close>

lemma std_clock_monotone:
  assumes "i \<le> j" "j - sc_start c < 2 ^ 64 * 1000000"
  shows "std_clock_now i c \<le> std_clock_now j c"
proof -
  have "(i - sc_start c) div 1000000 \<le> (j - sc_start c) div 1000000"
    using assms(1) by (intro div_le_mono) simp
  with assms show ?thesis by (simp add: word_le_nat_alt unat_std_clock_now)
qed

lemma rounded_down:
  fixes k n t x :: nat
  assumes "0 < k"
  shows "t div k + n div k \<le> (t + x) div k \<Longrightarrow> n < x + 2 * k"
    and "n \<le> x \<Longrightarrow> t div k + n div k \<le> (t + x) div k"
proof -
  have split: "m = k * (m div k) + m mod k \<and> m mod k < k" for m using assms by simp
  show "n < x + 2 * k" if "t div k + n div k \<le> (t + x) div k"
  proof -
    have "k * (t div k) + k * (n div k) \<le> k * ((t + x) div k)"
      using mult_le_mono2 [OF that, of k] by (simp add: distrib_left)
    with split [of t] split [of n] split [of "t + x"] show ?thesis by linarith
  qed
  show "t div k + n div k \<le> (t + x) div k" if "n \<le> x"
  proof -
    have "t div k + n div k \<le> (t + n) div k" by (simp add: div_add1_eq [of t n k])
    also have "\<dots> \<le> (t + x) div k" using that by (intro div_le_mono) simp
    finally show ?thesis .
  qed
qed

lemma delay_due:
  assumes times: "sc_start c \<le> i0" "i0 \<le> i1" "i1 - sc_start c < (2 ^ 64 - 1) * 1000000"
    and d: "unat (dur_nanos d) < 1000000000"
  defines "ready \<equiv> timer_deadline_from_now (std_clock_now i0 c) d \<le> std_clock_now i1 c"
  shows "ready \<Longrightarrow> nanos_of d < i1 - i0 + 2000000"
    and "nanos_of d \<le> i1 - i0 \<Longrightarrow> ready"
proof -
  let ?t0 = "i0 - sc_start c" and ?t1 = "i1 - sc_start c"
  let ?ms = "unat (dur_secs d) * 1000 + unat (dur_nanos d) div 1000000"
  have t: "unat (std_clock_now i0 c) = ?t0 div 1000000" "unat (std_clock_now i1 c) = ?t1 div 1000000"
    using times by (simp_all add: unat_std_clock_now)
  have t1: "?t1 div 1000000 < 2 ^ 64 - 1" using times(3) by (rule less_mult_imp_div_less)
  have iff: "ready \<longleftrightarrow> ?t0 div 1000000 + ?ms \<le> ?t1 div 1000000"
    using t1 by (auto simp: ready_def word_le_nat_alt timer_deadline_saturates t min_le_iff_disj)
  have ms: "nanos_of d div 1000000 = ?ms"
  proof -
    have "nanos_of d = unat (dur_nanos d) + unat (dur_secs d) * 1000 * 1000000" by (simp add: nanos_of_def)
    then show ?thesis by (simp only: div_mult_self1 [OF zero_neq_numeral [symmetric]] add.commute)
  qed
  have diff: "?t1 = ?t0 + (i1 - i0)" using times(1,2) by simp
  show "nanos_of d < i1 - i0 + 2000000" if ready
    using that rounded_down(1) [of 1000000 ?t0 "nanos_of d" "i1 - i0"] unfolding iff ms [symmetric] diff by simp
  show ready if "nanos_of d \<le> i1 - i0"
    using that rounded_down(2) [of 1000000 "nanos_of d" "i1 - i0" ?t0] unfolding iff ms [symmetric] diff by simp
qed

text \<open>After a check of the expirations a future whose deadline has passed is ready, waiting or not.\<close>

lemma timer_check_then_poll:
  assumes inv: "timer_inv s" and f: "tx_futures s a = Some f" "ltf_timer f"
    and e: "heap_data (tx_nodes s) a = Some e" "te_expiry e \<le> timer_now s"
  shows "returns (timer_exec Timer_Check s) (\<lambda>u.
    returns (local_timer_future_poll (timer_now u) f cx (tx_timer u) (tx_nodes u)) (\<lambda>(r, f', t, h). r = Ready ()))"
proof -
  from timer_check_run [OF inv] obtain as w t h where
    run: "timer_check_expirations (timer_now s) (tx_timer s) (tx_nodes s) = Inr (w, t, h)"
      "set as = due (timer_now s) (tx_nodes s) (registered (heap_data (tx_nodes s)))"
      "heap_data h = (\<lambda>a. if a \<in> set as then map_option expired (heap_data (tx_nodes s) a) else heap_data (tx_nodes s) a)"
    by blast
  let ?u = "s\<lparr>tx_timer := t, tx_nodes := h, tx_woken := tx_woken s @ w\<rparr>"
  have exec: "timer_exec Timer_Check s = Inr ?u" using run(1) by simp
  with timer_check_preserves [OF inv] have u: "timer_inv ?u" by (simp add: timer_guarantee_def del: timer_exec.simps)
  have "te_state e = Tm_Registered \<Longrightarrow> a \<in> set as" using e by (auto simp: run(2) registered_def)
  then obtain e' where e': "heap_data (tx_nodes ?u) a = Some e'" "te_expiry e' = te_expiry e" "te_state e' \<noteq> Tm_Registered"
    using e(1) run(3) by (cases "a \<in> set as") auto
  have "returns (local_timer_future_poll (timer_now ?u) f cx (tx_timer ?u) (tx_nodes ?u)) (\<lambda>(r, f', t, h). r = Ready ())"
    by (rule returns_mono [OF timer_poll_preserves [OF u _ f(2) e'(1), of cx]])
      (use f(1) e(2) e' in \<open>cases "te_state e'"; auto split: if_splits\<close>)+
  then show ?thesis unfolding exec returns_simps .
qed

section \<open>Properties\<close>

text \<open>
  C37: how precise a delay is in real time. A timer runs on the clock of the system, for less than
  \<open>2 ^ 64\<close> milliseconds, and a future was made by \<open>delay\<close> at the instant \<open>i0\<close>. If a poll at \<open>i1\<close>
  returns \<open>Ready\<close>, then the duration, less two milliseconds, has passed (time and duration are
  both rounded down). Once the duration has passed, the first poll returns \<open>Ready\<close>; a future that
  was polled before and waits returns it at the poll that follows a check of the expirations.
\<close>

theorem std_delay_window:
  assumes reach: "timer_reachable s" and f: "tx_futures s a = Some f" "\<not> local_timer_future_is_terminated f"
    and e: "heap_data (tx_nodes s) a = Some e" "te_expiry e = timer_deadline_from_now (std_clock_now i0 c) d"
    and times: "timer_now s = std_clock_now i1 c" "sc_start c \<le> i0" "i0 \<le> i1"
      "i1 - sc_start c < (2 ^ 64 - 1) * 1000000"
    and d: "unat (dur_nanos d) < 1000000000"
  shows "returns (local_timer_future_poll (timer_now s) f cx (tx_timer s) (tx_nodes s)) (\<lambda>(r, f', t, h).
      (r = Ready () \<longrightarrow> nanos_of d < i1 - i0 + 2000000) \<and>
      (te_state e = Tm_Unregistered \<and> nanos_of d \<le> i1 - i0 \<longrightarrow> r = Ready ())) \<and>
    (nanos_of d \<le> i1 - i0 \<longrightarrow> returns (timer_exec Timer_Check s) (\<lambda>u.
      returns (local_timer_future_poll (timer_now u) f cx (tx_timer u) (tx_nodes u)) (\<lambda>(r, f', t, h). r = Ready ())))"
proof -
  from f(2) have live: "ltf_timer f" by (simp add: local_timer_future_is_terminated_def)
  note inv = tms.reach_inv [OF reach]
  note poll = timer_poll_preserves [OF inv f(1) live e(1), of cx]
  note due = delay_due [OF times(2-4) d]
  have due': "nanos_of d < i1 - i0 + 2000000" if "te_expiry e \<le> timer_now s"
    using that due(1) unfolding e(2) times(1) by blast
  have passed: "te_expiry e \<le> timer_now s" if "nanos_of d \<le> i1 - i0"
    using due(2) [OF that] unfolding e(2) times(1) .
  have "returns (local_timer_future_poll (timer_now s) f cx (tx_timer s) (tx_nodes s)) (\<lambda>(r, f', t, h).
      (r = Ready () \<longrightarrow> nanos_of d < i1 - i0 + 2000000) \<and>
      (te_state e = Tm_Unregistered \<and> nanos_of d \<le> i1 - i0 \<longrightarrow> r = Ready ()))"
    using due' passed poll by (auto elim!: returns_mono split: if_splits)
  with timer_check_then_poll [OF inv f(1) live e(1) passed] show ?thesis by blast
qed

text \<open>
  A delay of 1.999999 ms that starts just before the clock shows 1 ms has the deadline 1. A future of
  it that waits, polled at once, is ready after a check of the expirations when the delay has passed.
\<close>

abbreviation early_delay :: duration where
  "early_delay \<equiv> \<lparr>dur_secs = 0, dur_nanos = 1999999\<rparr>"

lemma early_delay_facts:
  "std_clock_now 999999 (std_clock_new 0) = 0" "std_clock_now 2999998 (std_clock_new 0) = 2"
  "timer_deadline_from_now 0 early_delay = 1"
proof -
  have "unat (std_clock_now 999999 (std_clock_new 0)) = unat (0 :: u64)"
    "unat (std_clock_now 2999998 (std_clock_new 0)) = unat (2 :: u64)"
    "unat (timer_deadline_from_now 0 early_delay) = unat (1 :: u64)"
    by (simp_all add: std_clock_new_def std_clock_default_def unat_std_clock_now timer_deadline_saturates)
  then show "std_clock_now 999999 (std_clock_new 0) = 0" "std_clock_now 2999998 (std_clock_new 0) = 2"
    "timer_deadline_from_now 0 early_delay = 1"
    by (simp_all only: word_unat_eq_iff)
qed

theorem std_delay_window_witness:
  "\<exists>s f u. timer_reachable s \<and> tx_futures s 1 = Some f \<and> te_state (the (heap_data (tx_nodes s) 1)) = Tm_Registered \<and>
    timer_exec Timer_Check s = Inr u \<and>
    returns (local_timer_future_poll (timer_now u) f (Waker 1 0) (tx_timer u) (tx_nodes u)) (\<lambda>(r, f', t, h). r = Ready ())"
proof -
  let ?f = "\<lparr>ltf_timer = True, ltf_wait_node = 1\<rparr>"
  let ?acts = "[Timer_Delay 1 early_delay, Timer_Poll 1 (Waker 1 0), Timer_Set_Time 2]"
  have "\<exists>s e. exec_all timer_enabled timer_exec ?acts timer_sys_new = Some s \<and> tx_futures s 1 = Some ?f \<and>
      timer_now s = 2 \<and> heap_data (tx_nodes s) 1 = Some e \<and> te_expiry e = 1 \<and> te_state e = Tm_Registered"
    using early_delay_facts(3) by (simp add: timer_eval local_timer_delay_def heap_data_def)
  then obtain s e where s: "exec_all timer_enabled timer_exec ?acts timer_sys_new = Some s"
    "tx_futures s 1 = Some ?f" "timer_now s = 2" "heap_data (tx_nodes s) 1 = Some e" "te_expiry e = 1"
    "te_state e = Tm_Registered" by blast
  have reach: "timer_reachable s" by (rule exec_all_reach [OF s(1) reach_init]) simp
  have "\<not> local_timer_future_is_terminated ?f" by (simp add: local_timer_future_is_terminated_def)
  note std_delay_window [OF reach s(2) this s(4), of 999999 "std_clock_new 0" early_delay 2999998 "Waker 1 0"]
  moreover have "nanos_of early_delay \<le> 2999998 - 999999" by (simp add: nanos_of_def)
  ultimately have "returns (timer_exec Timer_Check s) (\<lambda>u.
      returns (local_timer_future_poll (timer_now u) ?f (Waker 1 0) (tx_timer u) (tx_nodes u)) (\<lambda>(r, f', t, h). r = Ready ()))"
    using s(3,5) early_delay_facts by (simp add: std_clock_new_def std_clock_default_def del: timer_exec.simps)
  with reach s(2,4,6) show ?thesis by (auto simp: returns_iff simp del: timer_exec.simps)
qed

end
