(* ===== verification/Timer_Service.thy ===== *)
theory Timer_Service
  imports Std_Clock
begin

text \<open>
  \<open>GenericTimerService\<close> of \<^verbatim>\<open>src/timer/inner.rs\<close> over any \<open>Clock\<close> of \<^verbatim>\<open>src/timer/clock.rs\<close>, and
  futures that call it through the trait \<open>TimerAccess\<close>. The locale \<open>clock\<close> is the contract that the
  trait \<open>Clock\<close> documents; it is interpreted for both clocks of the crate. The service over a clock
  that keeps it behaves as the system of \<open>Timer\<close>, whose clock is set by hand.
\<close>

section \<open>The trait Clock\<close>

record 'c clock_ops =
  ck_now :: "'c \<Rightarrow> u64"

definition mock_clock_default :: mock_clock where
  "mock_clock_default = mock_clock_new"

definition mock_clock_ops :: "mock_clock clock_ops" where
  "mock_clock_ops = \<lparr>ck_now = mock_clock_now\<rparr>"

text \<open>\<open>StdClock\<close> reads \<open>Instant::now\<close>, which is part of the world it lives in.\<close>

definition std_clock_ops :: "(instant \<times> std_clock) clock_ops" where
  "std_clock_ops = \<lparr>ck_now = (\<lambda>(instant_now, c). std_clock_now instant_now c)\<rparr>"

text \<open>
  The contract: whatever happens to a clock (\<open>later\<close>), it does not show a smaller time afterwards.
\<close>

locale clock =
  fixes clk :: "'c clock_ops"
    and later :: "'c \<Rightarrow> 'c \<Rightarrow> bool"
  assumes monotone: "later c c' \<Longrightarrow> ck_now clk c \<le> ck_now clk c'"

text \<open>A mock clock that is set forward; the system clock while its milliseconds fit into a \<open>u64\<close>.\<close>

definition mock_later :: "mock_clock \<Rightarrow> mock_clock \<Rightarrow> bool" where
  "mock_later c c' \<longleftrightarrow> (\<exists>t. mock_clock_now c \<le> t \<and> mock_clock_set_time t c = Inr c')"

definition std_later :: "instant \<times> std_clock \<Rightarrow> instant \<times> std_clock \<Rightarrow> bool" where
  "std_later c c' \<longleftrightarrow> snd c' = snd c \<and> fst c \<le> fst c' \<and> fst c' - sc_start (snd c) < 2 ^ 64 * 1000000"

interpretation mock: clock mock_clock_ops mock_later
  by unfold_locales (auto simp: mock_clock_ops_def mock_later_def)

interpretation std: clock std_clock_ops std_later
proof unfold_locales
  fix c c' assume "std_later c c'"
  then show "ck_now std_clock_ops c \<le> ck_now std_clock_ops c'"
    using std_clock_monotone [of "fst c" "fst c'" "snd c"]
    by (auto simp: std_clock_ops_def std_later_def split: prod.splits)
qed

section \<open>GenericTimerService\<close>

record 'c timer_service =
  gts_clock :: 'c
  gts_inner :: timer_state

definition timer_service_new :: "'c \<Rightarrow> 'c timer_service" where
  "timer_service_new c = \<lparr>gts_clock = c, gts_inner = timer_state_new\<rparr>"

definition service_next_expiration :: "'c timer_service \<Rightarrow> timer_store \<Rightarrow> u64 option res" where
  "service_next_expiration svc h = timer_next_expiration (gts_inner svc) h"

definition service_check_expirations ::
  "'c clock_ops \<Rightarrow> 'c timer_service \<Rightarrow> timer_store \<Rightarrow> (waker list \<times> 'c timer_service \<times> timer_store) res" where
  "service_check_expirations clk svc h =
     and_then (timer_check_expirations (ck_now clk (gts_clock svc)) (gts_inner svc) h) (\<lambda>(w, t, h).
     Inr (w, svc\<lparr>gts_inner := t\<rparr>, h))"

definition service_deadline_from_now :: "'c clock_ops \<Rightarrow> duration \<Rightarrow> 'c timer_service \<Rightarrow> u64" where
  "service_deadline_from_now clk d svc = timer_deadline_from_now (ck_now clk (gts_clock svc)) d"

definition service_try_wait ::
  "'c clock_ops \<Rightarrow> 'c timer_service \<Rightarrow> addr \<Rightarrow> waker \<Rightarrow> timer_store \<Rightarrow>
   (unit poll \<times> 'c timer_service \<times> timer_store) res" where
  "service_try_wait clk svc wait_node cx h =
     and_then (timer_try_wait (ck_now clk (gts_clock svc)) (gts_inner svc) wait_node cx h) (\<lambda>(r, t, h).
     Inr (r, svc\<lparr>gts_inner := t\<rparr>, h))"

definition service_remove_waiter ::
  "'c timer_service \<Rightarrow> addr \<Rightarrow> timer_store \<Rightarrow> ('c timer_service \<times> timer_store) res" where
  "service_remove_waiter svc wait_node h =
     and_then (timer_remove_waiter (gts_inner svc) wait_node h) (\<lambda>(t, h).
     Inr (svc\<lparr>gts_inner := t\<rparr>, h))"

section \<open>Futures behind the trait TimerAccess\<close>

record 't timer_access =
  ta_try_wait :: "'t \<Rightarrow> addr \<Rightarrow> waker \<Rightarrow> timer_store \<Rightarrow> (unit poll \<times> 't \<times> timer_store) res"
  ta_remove_waiter :: "'t \<Rightarrow> addr \<Rightarrow> timer_store \<Rightarrow> ('t \<times> timer_store) res"

definition service_access :: "'c clock_ops \<Rightarrow> 'c timer_service timer_access" where
  "service_access clk = \<lparr>ta_try_wait = service_try_wait clk, ta_remove_waiter = service_remove_waiter\<rparr>"

definition access_future_poll ::
  "'t timer_access \<Rightarrow> local_timer_future \<Rightarrow> waker \<Rightarrow> 't \<Rightarrow> timer_store \<Rightarrow>
   (unit poll \<times> local_timer_future \<times> 't \<times> timer_store) res" where
  "access_future_poll access f cx t h =
     (if \<not> ltf_timer f then Inl (Panic ''polled TimerFuture after completion'')
      else and_then (ta_try_wait access t (ltf_wait_node f) cx h) (\<lambda>(poll_res, t, h).
           Inr (poll_res, (if is_ready poll_res then f\<lparr>ltf_timer := False\<rparr> else f), t, h)))"

definition access_future_drop ::
  "'t timer_access \<Rightarrow> local_timer_future \<Rightarrow> 't \<Rightarrow> timer_store \<Rightarrow> ('t \<times> timer_store) res" where
  "access_future_drop access f t h =
     (if ltf_timer f then ta_remove_waiter access t (ltf_wait_node f) h else Inr (t, h))"

section \<open>The service with its futures\<close>

record 'c service_sys =
  tv_service :: "'c timer_service"
  tv_nodes :: timer_store
  tv_futures :: "addr \<rightharpoonup> local_timer_future"
  tv_woken :: "waker list"

datatype 'c service_action =
    Svc_Call timer_action
  | Svc_Tick 'c

definition service_sys_new :: "'c \<Rightarrow> 'c service_sys" where
  "service_sys_new c =
     \<lparr>tv_service = timer_service_new c, tv_nodes = Map.empty, tv_futures = Map.empty, tv_woken = []\<rparr>"

text \<open>The system of \<open>Timer\<close> whose clock shows the same time.\<close>

definition service_view :: "'c clock_ops \<Rightarrow> 'c service_sys \<Rightarrow> timer_sys" where
  "service_view clk s =
     \<lparr>tx_timer = gts_inner (tv_service s), tx_clock = \<lparr>mc_now = ck_now clk (gts_clock (tv_service s))\<rparr>,
      tx_nodes = tv_nodes s, tx_futures = tv_futures s, tx_woken = tv_woken s\<rparr>"

fun service_enabled ::
  "'c clock_ops \<Rightarrow> ('c \<Rightarrow> 'c \<Rightarrow> bool) \<Rightarrow> 'c service_action \<Rightarrow> 'c service_sys \<Rightarrow> bool" where
  "service_enabled clk later (Svc_Call act) s =
     ((case act of Timer_Set_Time _ \<Rightarrow> False | _ \<Rightarrow> True) \<and> timer_enabled act (service_view clk s))"
| "service_enabled clk later (Svc_Tick c) s = later (gts_clock (tv_service s)) c"

fun service_exec :: "'c clock_ops \<Rightarrow> 'c service_action \<Rightarrow> 'c service_sys \<Rightarrow> 'c service_sys res" where
  "service_exec clk (Svc_Tick c) s = Inr (s\<lparr>tv_service := (tv_service s)\<lparr>gts_clock := c\<rparr>\<rparr>)"
| "service_exec clk (Svc_Call (Timer_Deadline a t)) s =
     (case local_timer_deadline t a of (f, n) \<Rightarrow>
        Inr (s\<lparr>tv_nodes := (tv_nodes s)(a \<mapsto> n), tv_futures := (tv_futures s)(a \<mapsto> f)\<rparr>))"
| "service_exec clk (Svc_Call (Timer_Delay a d)) s =
     (case local_timer_deadline (service_deadline_from_now clk d (tv_service s)) a of (f, n) \<Rightarrow>
        Inr (s\<lparr>tv_nodes := (tv_nodes s)(a \<mapsto> n), tv_futures := (tv_futures s)(a \<mapsto> f)\<rparr>))"
| "service_exec clk (Svc_Call (Timer_Poll a cx)) s =
     and_then (deref (tv_futures s) a) (\<lambda>f.
     and_then (access_future_poll (service_access clk) f cx (tv_service s) (tv_nodes s)) (\<lambda>(r, f, svc, h).
     Inr (s\<lparr>tv_service := svc, tv_nodes := h, tv_futures := (tv_futures s)(a \<mapsto> f)\<rparr>)))"
| "service_exec clk (Svc_Call (Timer_Drop a)) s =
     and_then (deref (tv_futures s) a) (\<lambda>f.
     and_then (access_future_drop (service_access clk) f (tv_service s) (tv_nodes s)) (\<lambda>(svc, h).
     Inr (s\<lparr>tv_service := svc, tv_nodes := h(a := None), tv_futures := (tv_futures s)(a := None)\<rparr>)))"
| "service_exec clk (Svc_Call Timer_Check) s =
     and_then (service_check_expirations clk (tv_service s) (tv_nodes s)) (\<lambda>(woken, svc, h).
     Inr (s\<lparr>tv_service := svc, tv_nodes := h, tv_woken := tv_woken s @ woken\<rparr>))"
| "service_exec clk (Svc_Call (Timer_Set_Time t)) s = Inr s"

abbreviation service_reachable :: "'c clock_ops \<Rightarrow> ('c \<Rightarrow> 'c \<Rightarrow> bool) \<Rightarrow> 'c service_sys \<Rightarrow> bool" where
  "service_reachable clk later \<equiv>
     reach (\<lambda>s. \<exists>c. s = service_sys_new c) (service_enabled clk later) (service_exec clk)"

text \<open>What an action of the service is for the timer with the mock clock.\<close>

fun service_act :: "'c clock_ops \<Rightarrow> 'c service_action \<Rightarrow> timer_action" where
  "service_act clk (Svc_Call act) = act"
| "service_act clk (Svc_Tick c) = Timer_Set_Time (ck_now clk c)"

lemma service_view_simps [simp]:
  "tx_timer (service_view clk s) = gts_inner (tv_service s)" "tx_nodes (service_view clk s) = tv_nodes s"
  "tx_futures (service_view clk s) = tv_futures s" "tx_woken (service_view clk s) = tv_woken s"
  "mc_now (tx_clock (service_view clk s)) = ck_now clk (gts_clock (tv_service s))"
  by (simp_all add: service_view_def)

lemma map_sum_and_then: "map_sum id f m = and_then m (\<lambda>x. Inr (f x))"
  by (simp add: and_then_def split: sum.split)

text \<open>The same call does the same to the view, faults included.\<close>

lemma service_call_view:
  assumes "\<And>t. act \<noteq> Timer_Set_Time t"
  shows "map_sum id (service_view clk) (service_exec clk (Svc_Call act) s) = timer_exec act (service_view clk s)"
  using assms
  by (cases act)
    (auto simp: service_view_def local_timer_delay_def service_deadline_from_now_def local_timer_deadline_def
      access_future_poll_def local_timer_future_poll_def service_access_def service_try_wait_def
      access_future_drop_def local_timer_future_drop_def service_remove_waiter_def service_check_expirations_def
      and_then_def split: sum.split)

context clock
begin

lemma service_step_view:
  assumes enabled: "service_enabled clk later act s" and run: "service_exec clk act s = Inr t"
  shows "timer_enabled (service_act clk act) (service_view clk s)"
    "timer_exec (service_act clk act) (service_view clk s) = Inr (service_view clk t)"
proof -
  show "timer_enabled (service_act clk act) (service_view clk s)"
    using enabled monotone by (cases act) auto
  show "timer_exec (service_act clk act) (service_view clk s) = Inr (service_view clk t)"
  proof (cases act)
    case (Svc_Call a)
    with enabled have "\<And>t. a \<noteq> Timer_Set_Time t" by auto
    from service_call_view [OF this, of clk s] Svc_Call run show ?thesis by simp
  next
    case (Svc_Tick c)
    with run show ?thesis by (auto simp: service_view_def)
  qed
qed

lemma service_reach_view: "service_reachable clk later s \<Longrightarrow> timer_reachable (service_view clk s)"
proof (induction rule: reach.induct)
  case (reach_init s)
  then obtain c where s: "s = service_sys_new c" by blast
  have "timer_enabled (Timer_Set_Time (ck_now clk c)) timer_sys_new"
    by (simp add: timer_sys_new_def mock_clock_new_def)
  moreover have "timer_exec (Timer_Set_Time (ck_now clk c)) timer_sys_new = Inr (service_view clk s)"
    by (simp add: s service_view_def service_sys_new_def timer_service_new_def timer_sys_new_def mock_clock_new_def)
  moreover have "timer_reachable timer_sys_new" by (rule reach.reach_init) simp
  ultimately show ?case by (metis reach.reach_step)
next
  case (reach_step s a t)
  from service_step_view [OF reach_step.hyps(2,3)] show ?case
    by (rule reach.reach_step [OF reach_step.IH])
qed

lemma service_runs:
  assumes "service_reachable clk later s" "service_enabled clk later act s"
  shows "\<exists>t. service_exec clk act s = Inr t \<and>
    timer_exec (service_act clk act) (service_view clk s) = Inr (service_view clk t)"
proof -
  have "\<exists>t. service_exec clk act s = Inr t"
  proof (cases act)
    case (Svc_Call a)
    with assms(2) have a: "\<And>t. a \<noteq> Timer_Set_Time t" "timer_enabled a (service_view clk s)" by auto
    from tms.no_fault [OF service_reach_view [OF assms(1)] a(2)] service_call_view [OF a(1), of clk s] Svc_Call
    show ?thesis by (cases "service_exec clk act s") auto
  qed simp
  with service_step_view(2) [OF assms(2)] show ?thesis by blast
qed

end

section \<open>Properties\<close>

text \<open>
  C31: the timer service works on every clock that keeps the contract of \<open>Clock\<close>, in particular on
  both clocks of the crate. Whatever time passes between the calls, a reachable state of the service
  is one of the timer whose clock shows the same time, and every call returns and does there the
  same, through the trait object as directly: the futures are never early, none that is due is
  missed and the checks wake in the order of the deadlines on any clock.
\<close>

theorem timer_service_refines:
  assumes "clock clk later" "service_reachable clk later s"
  shows "timer_reachable (service_view clk s) \<and>
    (service_enabled clk later act s \<longrightarrow> (\<exists>t. service_exec clk act s = Inr t \<and>
      timer_exec (service_act clk act) (service_view clk s) = Inr (service_view clk t)))"
  using clock.service_reach_view [OF assms] clock.service_runs [OF assms, of act] by blast

abbreviation service_demo_acts :: "mock_clock service_action list" where
  "service_demo_acts \<equiv>
     [Svc_Call (Timer_Deadline 1 5), Svc_Call (Timer_Poll 1 (Waker 1 0)), Svc_Tick \<lparr>mc_now = 7\<rparr>, Svc_Call Timer_Check]"

lemma service_demo_run:
  "\<exists>s. exec_all (service_enabled mock_clock_ops mock_later) (service_exec mock_clock_ops) service_demo_acts
     (service_sys_new mock_clock_default) = Some s \<and> tv_woken s = [Waker 1 0] \<and>
     tv_futures s 1 = Some \<lparr>ltf_timer = True, ltf_wait_node = 1\<rparr>"
  by (simp add: timer_eval service_sys_new_def timer_service_new_def service_view_def mock_clock_default_def
      mock_clock_ops_def mock_later_def access_future_poll_def service_access_def service_try_wait_def
      service_check_expirations_def timer_check_expirations_def timer_check_loop.simps timer_expire_def
      heap_peek_min_def heap_remove_def Let_def)

theorem timer_service_refines_witness:
  "\<exists>s t. service_reachable mock_clock_ops mock_later s \<and> tv_woken s = [Waker 1 0] \<and>
     service_exec mock_clock_ops (Svc_Call (Timer_Poll 1 (Waker 2 0))) s = Inr t"
proof -
  from service_demo_run obtain s where
    s: "exec_all (service_enabled mock_clock_ops mock_later) (service_exec mock_clock_ops) service_demo_acts
       (service_sys_new mock_clock_default) = Some s" "tv_woken s = [Waker 1 0]"
      "tv_futures s 1 = Some \<lparr>ltf_timer = True, ltf_wait_node = 1\<rparr>" by blast
  have reach: "service_reachable mock_clock_ops mock_later s" by (rule exec_all_reach [OF s(1) reach_init]) blast
  have "service_enabled mock_clock_ops mock_later (Svc_Call (Timer_Poll 1 (Waker 2 0))) s"
    using s(3) by (simp add: local_timer_future_is_terminated_def)
  with timer_service_refines [OF mock.clock_axioms reach] reach s(2) show ?thesis by blast
qed

end
