(* ===== verification/Unit_Tests.thy ===== *)
theory Unit_Tests
  imports Linked_List Ring_Buffer Pairing_Heap_Check
begin

text \<open>
  The unit tests that the crate keeps beside its data structures: module \<open>tests\<close> of
  \<^verbatim>\<open>src/intrusive_double_linked_list.rs\<close> and \<^verbatim>\<open>src/buffer/ring_buffer.rs\<close>, and \<open>equal_values\<close> of
  \<^verbatim>\<open>src/intrusive_pairing_heap.rs\<close>. A test is a sequence of steps over the state it works on; a
  failed assertion is a panic. The models pass the tests, which checks the translation against what
  the authors of the code expect of it; the test of the ring buffers passes for every buffer that
  keeps the contract.
\<close>

section \<open>Steps\<close>

text \<open>Steps in order, from a state to the state after them.\<close>

fun in_order :: "('s \<Rightarrow> 's res) list \<Rightarrow> 's \<Rightarrow> 's res" where
  "in_order [] s = Inr s"
| "in_order (f # fs) s = and_then (f s) (\<lambda>s. in_order fs s)"

definition unwrap :: "'a option \<Rightarrow> 'a res" where
  "unwrap x = (case x of None \<Rightarrow> Inl (Panic ''called Option::unwrap() on a None value'') | Some v \<Rightarrow> Inr v)"

definition expect_that :: "bool \<Rightarrow> 's \<Rightarrow> 's res" where
  "expect_that b s = and_then (assert_that b ''assertion failed'') (\<lambda>_. Inr s)"

lemma in_order_append: "in_order (fs @ gs) s = and_then (in_order fs s) (in_order gs)"
  by (induction fs arbitrary: s) (auto simp: and_then_def split: sum.split)

section \<open>The linked list\<close>

type_synonym list_test = "linked_list \<times> int store"

definition collect_list :: "list_test \<Rightarrow> (int list \<times> list_test) res" where
  "collect_list s =
     (case s of (l, h) \<Rightarrow>
        and_then (ll_drain (\<lambda>node result. (node, result @ [node])) l h []) (\<lambda>(l, h, result).
        Inr (result, l, h)))"

definition collect_reverse_list :: "list_test \<Rightarrow> (int list \<times> list_test) res" where
  "collect_reverse_list s =
     (case s of (l, h) \<Rightarrow>
        and_then (ll_reverse_drain (\<lambda>node result. (node, result @ [node])) l h []) (\<lambda>(l, h, result).
        Inr (result, l, h)))"

fun add_nodes :: "addr list \<Rightarrow> list_test \<Rightarrow> list_test res" where
  "add_nodes [] s = Inr s"
| "add_nodes (node # nodes) (l, h) =
     and_then (ll_add_front l node h) (\<lambda>(l, h). add_nodes nodes (l, h))"

definition assert_clean :: "addr \<Rightarrow> list_test \<Rightarrow> list_test res" where
  "assert_clean node s =
     and_then (deref (snd s) node) (\<lambda>n.
     and_then (expect_that (ln_next n = None) s) (\<lambda>s.
     expect_that (ln_prev n = None) s))"

text \<open>The steps of the tests: a call with the assertion about its result.\<close>

definition new_list :: "list_test \<Rightarrow> list_test res" where
  "new_list s = Inr (ll_new, snd s)"

definition is_empty_step :: "bool \<Rightarrow> list_test \<Rightarrow> list_test res" where
  "is_empty_step b s = and_then (ll_is_empty (fst s)) (\<lambda>e. expect_that (e = b) s)"

definition peek_first_step :: "int \<Rightarrow> list_test \<Rightarrow> list_test res" where
  "peek_first_step v s =
     and_then (unwrap (ll_peek_first (fst s))) (\<lambda>p.
     and_then (read_data (snd s) p) (\<lambda>d. expect_that (d = v) s))"

definition peek_last_step :: "int option \<Rightarrow> list_test \<Rightarrow> list_test res" where
  "peek_last_step v s =
     (case v of
        None \<Rightarrow> expect_that (ll_peek_last (fst s) = None) s
      | Some v \<Rightarrow>
          and_then (unwrap (ll_peek_last (fst s))) (\<lambda>p.
          and_then (read_data (snd s) p) (\<lambda>d. expect_that (d = v) s)))"

definition pop_last_step :: "list_test \<Rightarrow> list_test res" where
  "pop_last_step s = (case s of (l, h) \<Rightarrow> and_then (ll_remove_last l h) (\<lambda>(_, l, h). Inr (l, h)))"

definition remove_first_step :: "list_test \<Rightarrow> list_test res" where
  "remove_first_step s =
     (case s of (l, h) \<Rightarrow>
        and_then (ll_remove_first l h) (\<lambda>(r, l, h).
        and_then (unwrap r) (\<lambda>removed. assert_clean removed (l, h))))"

definition remove_last_step :: "list_test \<Rightarrow> list_test res" where
  "remove_last_step s =
     (case s of (l, h) \<Rightarrow>
        and_then (ll_remove_last l h) (\<lambda>(r, l, h).
        and_then (unwrap r) (\<lambda>removed. assert_clean removed (l, h))))"

definition remove_step :: "addr \<Rightarrow> bool \<Rightarrow> list_test \<Rightarrow> list_test res" where
  "remove_step node b s =
     (case s of (l, h) \<Rightarrow> and_then (ll_remove l node h) (\<lambda>(r, l, h). expect_that (r = b) (l, h)))"

definition head_step :: "addr option \<Rightarrow> list_test \<Rightarrow> list_test res" where
  "head_step p s = expect_that (ll_head (fst s) = p) s"

definition tail_step :: "addr option \<Rightarrow> list_test \<Rightarrow> list_test res" where
  "tail_step p s = expect_that (ll_tail (fst s) = p) s"

definition next_step :: "addr \<Rightarrow> addr option \<Rightarrow> list_test \<Rightarrow> list_test res" where
  "next_step node p s = and_then (deref (snd s) node) (\<lambda>n. expect_that (ln_next n = p) s)"

definition prev_step :: "addr \<Rightarrow> addr option \<Rightarrow> list_test \<Rightarrow> list_test res" where
  "prev_step node p s = and_then (deref (snd s) node) (\<lambda>n. expect_that (ln_prev n = p) s)"

definition collect_step :: "int list \<Rightarrow> list_test \<Rightarrow> list_test res" where
  "collect_step vs s = and_then (collect_list s) (\<lambda>(items, s). expect_that (items = vs) s)"

definition collect_reverse_step :: "int list \<Rightarrow> list_test \<Rightarrow> list_test res" where
  "collect_reverse_step vs s = and_then (collect_reverse_list s) (\<lambda>(items, s). expect_that (items = vs) s)"

text \<open>The nodes \<open>a\<close>, \<open>b\<close> and \<open>c\<close> at the addresses 1, 2 and 3, and a list.\<close>

abbreviation (input) "node_a \<equiv> (1 :: addr)"
abbreviation (input) "node_b \<equiv> (2 :: addr)"
abbreviation (input) "node_c \<equiv> (3 :: addr)"

definition list_test_start :: list_test where
  "list_test_start =
     (ll_new, [node_a \<mapsto> list_node_new 5, node_b \<mapsto> list_node_new 7, node_c \<mapsto> list_node_new 31])"

definition insert_and_iterate :: "list_test \<Rightarrow> list_test res" where
  "insert_and_iterate =
     (let setup = [is_empty_step True, add_nodes [node_c], peek_first_step 31, is_empty_step False,
            add_nodes [node_b], peek_first_step 7, add_nodes [node_a], peek_first_step 5] in
      in_order ([new_list] @ setup @ [collect_step [5, 7, 31]] @
                [new_list] @ setup @ [collect_reverse_step [31, 7, 5]]))"

definition drain_and_collect :: "list_test \<Rightarrow> list_test res" where
  "drain_and_collect = in_order [new_list, add_nodes [node_c, node_b, node_a], collect_step [5, 7, 31]]"

definition test_peek_last :: "list_test \<Rightarrow> list_test res" where
  "test_peek_last =
     in_order [new_list, add_nodes [node_c, node_b, node_a],
       peek_last_step (Some 31), pop_last_step, peek_last_step (Some 7), pop_last_step,
       peek_last_step (Some 5), pop_last_step, peek_last_step None]"

definition test_remove_first :: "list_test \<Rightarrow> list_test res" where
  "test_remove_first =
     in_order
      ([new_list, add_nodes [node_c, node_b, node_a], remove_first_step, is_empty_step False, collect_step [7, 31]] @
       [new_list, add_nodes [node_c, node_b, node_a], remove_first_step, is_empty_step False, collect_reverse_step [31, 7]] @
       [new_list, add_nodes [node_b, node_a], remove_first_step, is_empty_step False, collect_step [7]] @
       [new_list, add_nodes [node_b, node_a], remove_first_step, is_empty_step False, collect_reverse_step [7]] @
       [new_list, add_nodes [node_a], remove_first_step, is_empty_step True, collect_step []] @
       [new_list, add_nodes [node_a], remove_first_step, is_empty_step True, collect_reverse_step []])"

definition test_remove_last :: "list_test \<Rightarrow> list_test res" where
  "test_remove_last =
     in_order
      ([new_list, add_nodes [node_c, node_b, node_a], remove_last_step, is_empty_step False, collect_step [5, 7]] @
       [new_list, add_nodes [node_c, node_b, node_a], remove_last_step, is_empty_step False, collect_reverse_step [7, 5]] @
       [new_list, add_nodes [node_b, node_a], remove_last_step, is_empty_step False, collect_step [5]] @
       [new_list, add_nodes [node_b, node_a], remove_last_step, is_empty_step False, collect_reverse_step [5]] @
       [new_list, add_nodes [node_a], remove_last_step, is_empty_step True, collect_step []] @
       [new_list, add_nodes [node_a], remove_last_step, is_empty_step True, collect_reverse_step []])"

text \<open>Most cases of \<open>remove_by_address\<close> run twice, collecting forwards and backwards.\<close>

definition remove_head_case :: "(list_test \<Rightarrow> list_test res) list" where
  "remove_head_case =
     [new_list, add_nodes [node_c, node_b, node_a], remove_step node_a True, assert_clean node_a,
      remove_step node_a False, head_step (Some node_b), next_step node_b (Some node_c),
      prev_step node_c (Some node_b), collect_step [7, 31],
      new_list, add_nodes [node_c, node_b, node_a], remove_step node_a True, assert_clean node_a,
      remove_step node_a False, next_step node_b (Some node_c), prev_step node_c (Some node_b),
      collect_reverse_step [31, 7]]"

definition remove_middle_case :: "(list_test \<Rightarrow> list_test res) list" where
  "remove_middle_case =
     (let check = [new_list, add_nodes [node_c, node_b, node_a], remove_step node_b True, assert_clean node_b,
            next_step node_a (Some node_c), prev_step node_c (Some node_a)] in
      check @ [collect_step [5, 31]] @ check @ [collect_reverse_step [31, 5]])"

definition remove_tail_case :: "(list_test \<Rightarrow> list_test res) list" where
  "remove_tail_case =
     (let check = [new_list, add_nodes [node_c, node_b, node_a], remove_step node_c True, assert_clean node_c,
            next_step node_b None, tail_step (Some node_b)] in
      check @ [collect_step [5, 7]] @ check @ [collect_reverse_step [7, 5]])"

definition remove_first_of_two_case :: "(list_test \<Rightarrow> list_test res) list" where
  "remove_first_of_two_case =
     (let check = [new_list, add_nodes [node_b, node_a], remove_step node_a True, assert_clean node_a,
            remove_step node_a False, head_step (Some node_b), tail_step (Some node_b),
            next_step node_b None, prev_step node_b None] in
      check @ [collect_step [7]] @ check @ [collect_reverse_step [7]])"

definition remove_last_of_two_case :: "(list_test \<Rightarrow> list_test res) list" where
  "remove_last_of_two_case =
     (let check = [new_list, add_nodes [node_b, node_a], remove_step node_b True, assert_clean node_b,
            head_step (Some node_a), tail_step (Some node_a), next_step node_a None, prev_step node_a None] in
      check @ [collect_step [5]] @ check @ [collect_reverse_step [5]])"

definition remove_by_address :: "list_test \<Rightarrow> list_test res" where
  "remove_by_address =
     in_order (remove_head_case @ remove_middle_case @ remove_tail_case @
       remove_first_of_two_case @ remove_last_of_two_case @
       [new_list, add_nodes [node_a], remove_step node_a True, assert_clean node_a,
        head_step None, tail_step None, collect_step []] @
       [new_list, add_nodes [node_b], add_nodes [node_a], remove_step node_c False])"

lemmas list_test_eval =
  list_test_start_def new_list_def is_empty_step_def peek_first_step_def peek_last_step_def pop_last_step_def
  remove_first_step_def remove_last_step_def remove_step_def head_step_def tail_step_def next_step_def
  prev_step_def collect_step_def collect_reverse_step_def collect_list_def collect_reverse_list_def
  assert_clean_def expect_that_def unwrap_def

text \<open>Each case of \<open>remove_by_address\<close> leaves the nodes as it found them.\<close>

lemma list_test_cases:
  "in_order remove_head_case list_test_start = Inr list_test_start"
  "in_order remove_middle_case list_test_start = Inr list_test_start"
  "in_order remove_tail_case list_test_start = Inr list_test_start"
  "in_order remove_first_of_two_case list_test_start = Inr list_test_start"
  "in_order remove_last_of_two_case list_test_start = Inr list_test_start"
  by (simp_all add: remove_head_case_def remove_middle_case_def remove_tail_case_def remove_first_of_two_case_def
      remove_last_of_two_case_def list_test_eval ll_eval fun_upd_twist)

lemma list_tests_pass:
  "insert_and_iterate list_test_start = Inr list_test_start"
  "drain_and_collect list_test_start = Inr list_test_start"
  "test_peek_last list_test_start = Inr list_test_start"
  "test_remove_first list_test_start = Inr list_test_start"
  "test_remove_last list_test_start = Inr list_test_start"
  "\<exists>s. remove_by_address list_test_start = Inr s"
  subgoal by (simp add: insert_and_iterate_def list_test_eval ll_eval fun_upd_twist)
  subgoal by (simp add: drain_and_collect_def list_test_eval ll_eval fun_upd_twist)
  subgoal by (simp add: test_peek_last_def list_test_eval ll_eval fun_upd_twist)
  subgoal by (simp add: test_remove_first_def list_test_eval ll_eval fun_upd_twist)
  subgoal by (simp add: test_remove_last_def list_test_eval ll_eval fun_upd_twist)
  subgoal by (simp add: remove_by_address_def in_order_append list_test_cases) (simp add: list_test_eval ll_eval)
  done

section \<open>The ring buffers\<close>

text \<open>The calls of the test, each with the assertion about its result.\<close>

definition expect_push :: "('b, 'v) ring_buf_ops \<Rightarrow> 'v \<Rightarrow> 'b \<Rightarrow> 'b res" where
  "expect_push ops v buf = rb_push ops v buf"

definition expect_pop :: "('b, 'v) ring_buf_ops \<Rightarrow> 'v \<Rightarrow> 'b \<Rightarrow> 'b res" where
  "expect_pop ops v buf = and_then (rb_pop ops buf) (\<lambda>(x, buf). expect_that (x = v) buf)"

definition expect_capacity :: "('b, 'v) ring_buf_ops \<Rightarrow> usize \<Rightarrow> 'b \<Rightarrow> 'b res" where
  "expect_capacity ops n buf = expect_that (rb_capacity ops buf = n) buf"

definition expect_len :: "('b, 'v) ring_buf_ops \<Rightarrow> usize \<Rightarrow> 'b \<Rightarrow> 'b res" where
  "expect_len ops n buf = expect_that (rb_len ops buf = n) buf"

definition expect_empty :: "('b, 'v) ring_buf_ops \<Rightarrow> bool \<Rightarrow> 'b \<Rightarrow> 'b res" where
  "expect_empty ops b buf = expect_that (rb_is_empty ops buf = b) buf"

definition expect_can_push :: "('b, 'v) ring_buf_ops \<Rightarrow> bool \<Rightarrow> 'b \<Rightarrow> 'b res" where
  "expect_can_push ops b buf = expect_that (rb_can_push ops buf = b) buf"

definition test_ring_buf :: "('b, nat) ring_buf_ops \<Rightarrow> 'b \<Rightarrow> 'b res" where
  "test_ring_buf ops =
     in_order
      ([expect_capacity ops 5, expect_len ops 0, expect_empty ops True, expect_can_push ops True] @
       [expect_push ops 1, expect_push ops 2, expect_push ops 3] @
       [expect_capacity ops 5, expect_len ops 3, expect_empty ops False, expect_can_push ops True] @
       [expect_pop ops 1, expect_pop ops 2, expect_len ops 1, expect_empty ops False] @
       [expect_pop ops 3, expect_len ops 0, expect_empty ops True] @
       concat (map (\<lambda>(i, val). [expect_push ops val, expect_len ops (of_nat i + 1), expect_can_push ops (i \<noteq> 4),
         expect_empty ops False]) (enumerate 0 [4, 5, 6, 7, 8])) @
       concat (map (\<lambda>(i, val). [expect_pop ops val, expect_len ops (4 - of_nat i), expect_can_push ops True,
         expect_empty ops (i = 4)]) (enumerate 0 [4, 5, 6, 7, 8])))"

definition test_array_ring_buf :: "nat array_buf res" where
  "test_array_ring_buf = (let buf = array_buf_new 5 in test_ring_buf (array_buf_ops 5) buf)"

definition test_heap_ring_buf :: "nat fixed_heap_buf res" where
  "test_heap_ring_buf = (let buf = fixed_heap_buf_with_capacity 5 in test_ring_buf fixed_heap_buf_ops buf)"

definition test_growing_ring_buf :: "nat growing_heap_buf res" where
  "test_growing_ring_buf = (let buf = growing_heap_buf_with_capacity 5 in test_ring_buf growing_heap_buf_ops buf)"

text \<open>The test runs through on every buffer that keeps the contract and has room for five items.\<close>

definition holds_items :: "('b, 'v) ring_buf_ops \<Rightarrow> ('b \<Rightarrow> bool) \<Rightarrow> ('b \<Rightarrow> 'v list) \<Rightarrow> 'v list \<Rightarrow> 'b \<Rightarrow> bool" where
  "holds_items ops binv items xs b \<longleftrightarrow> binv b \<and> items b = xs \<and> rb_capacity ops b = 5"

context ring_buf
begin

abbreviation holds :: "'a list \<Rightarrow> 'b \<Rightarrow> bool" where
  "holds \<equiv> holds_items ops binv items"

lemma ring_steps:
  shows "holds xs b \<Longrightarrow> length xs < 5 \<Longrightarrow> (\<And>b. holds (xs @ [v]) b \<Longrightarrow> returns (in_order fs b) Q) \<Longrightarrow>
      returns (in_order (expect_push ops v # fs) b) Q"
    and "holds (v # xs) b \<Longrightarrow> (\<And>b. holds xs b \<Longrightarrow> returns (in_order fs b) Q) \<Longrightarrow>
      returns (in_order (expect_pop ops v # fs) b) Q"
    and "holds xs b \<Longrightarrow> c = 5 \<Longrightarrow> returns (in_order fs b) Q \<Longrightarrow> returns (in_order (expect_capacity ops c # fs) b) Q"
    and "holds xs b \<Longrightarrow> unat n = length xs \<Longrightarrow> returns (in_order fs b) Q \<Longrightarrow>
      returns (in_order (expect_len ops n # fs) b) Q"
    and "holds xs b \<Longrightarrow> e = (xs = []) \<Longrightarrow> returns (in_order fs b) Q \<Longrightarrow>
      returns (in_order (expect_empty ops e # fs) b) Q"
    and "holds xs b \<Longrightarrow> e = (length xs < 5) \<Longrightarrow> returns (in_order fs b) Q \<Longrightarrow>
      returns (in_order (expect_can_push ops e # fs) b) Q"
proof -
  show "returns (in_order (expect_push ops v # fs) b) Q"
    if "holds xs b" "length xs < 5" "\<And>b. holds (xs @ [v]) b \<Longrightarrow> returns (in_order fs b) Q"
    using that can_push_law [of b] by (auto simp: holds_items_def expect_push_def intro!: push_wp)
  show "returns (in_order (expect_pop ops v # fs) b) Q"
    if "holds (v # xs) b" "\<And>b. holds xs b \<Longrightarrow> returns (in_order fs b) Q"
    using that by (auto simp: holds_items_def expect_pop_def expect_that_def intro!: pop_wp)
  show "returns (in_order (expect_capacity ops c # fs) b) Q"
    if "holds xs b" "c = 5" "returns (in_order fs b) Q"
    using that by (auto simp: holds_items_def expect_capacity_def expect_that_def)
  show "returns (in_order (expect_len ops n # fs) b) Q"
    if "holds xs b" "unat n = length xs" "returns (in_order fs b) Q"
    using that len_law [of b] by (auto simp: holds_items_def expect_len_def expect_that_def word_unat_eq_iff)
  show "returns (in_order (expect_empty ops e # fs) b) Q"
    if "holds xs b" "e = (xs = [])" "returns (in_order fs b) Q"
    using that is_empty_iff [of b] by (auto simp: holds_items_def expect_empty_def expect_that_def)
  show "returns (in_order (expect_can_push ops e # fs) b) Q"
    if "holds xs b" "e = (length xs < 5)" "returns (in_order fs b) Q"
    using that can_push_law [of b] by (auto simp: holds_items_def expect_can_push_def expect_that_def)
qed

end

lemma test_ring_buf_passes:
  fixes ops :: "('b, nat) ring_buf_ops"
  assumes "ring_buf ops binv items" "holds_items ops binv items [] b"
  shows "returns (test_ring_buf ops b) (holds_items ops binv items [])"
proof -
  note steps = ring_buf.ring_steps [OF assms(1)]
  show ?thesis
    using assms(2) unfolding test_ring_buf_def
    apply (simp add: enumerate_eq_zip numeral_eq_Suc upt_rec del: in_order.simps)
    apply ((rule steps(1), assumption, simp, simp only: append.simps)
      | (rule steps(2), assumption)
      | (rule steps(3), assumption, simp)
      | (rule steps(4), assumption, simp)
      | (rule steps(5), assumption, simp)
      | (rule steps(6), assumption, simp))+
    apply simp
    done
qed

lemma ring_tests_pass:
  "\<exists>b. test_array_ring_buf = Inr b" "\<exists>b. test_heap_ring_buf = Inr b" "\<exists>b. test_growing_ring_buf = Inr b"
proof -
  have "array_buf_inv 5 (array_buf_new 5 :: nat array_buf)" "array_buf_items (array_buf_new 5 :: nat array_buf) = []"
    using array_buf_new_inv by blast+
  with array_buf_capacity_inv [OF this(1)]
  have "holds_items (array_buf_ops 5) (array_buf_inv 5) array_buf_items [] (array_buf_new 5 :: nat array_buf)"
    by (simp add: holds_items_def array_buf_ops_def)
  from test_ring_buf_passes [OF array_ring.ring_buf_axioms this] show "\<exists>b. test_array_ring_buf = Inr b"
    by (auto simp: test_array_ring_buf_def Let_def returns_iff)
  have "holds_items fixed_heap_buf_ops fixed_heap_buf_inv fb_buffer [] (fixed_heap_buf_with_capacity 5 :: nat fixed_heap_buf)"
    by (simp add: holds_items_def fixed_heap_buf_inv_def fixed_heap_buf_ops_def fixed_heap_buf_with_capacity_def
        fixed_heap_buf_capacity_def)
  from test_ring_buf_passes [OF fixed_ring.ring_buf_axioms this] show "\<exists>b. test_heap_ring_buf = Inr b"
    by (auto simp: test_heap_ring_buf_def Let_def returns_iff)
  have "holds_items growing_heap_buf_ops growing_heap_buf_inv gb_buffer [] (growing_heap_buf_with_capacity 5 :: nat growing_heap_buf)"
    by (simp add: holds_items_def growing_heap_buf_inv_def growing_heap_buf_ops_def growing_heap_buf_with_capacity_def
        growing_heap_buf_capacity_def)
  from test_ring_buf_passes [OF growing_ring.ring_buf_axioms this] show "\<exists>b. test_growing_ring_buf = Inr b"
    by (auto simp: test_growing_ring_buf_def Let_def returns_iff)
qed

section \<open>The pairing heap with equal values\<close>

type_synonym heap_test = "pairing_heap \<times> nat heap_store"

definition validate_step :: "heap_test \<Rightarrow> heap_test res" where
  "validate_step s = and_then (validate_heap (\<le>) (fst s) (snd s)) (\<lambda>_. Inr s)"

definition insert_step :: "addr \<Rightarrow> heap_test \<Rightarrow> heap_test res" where
  "insert_step node s = (case s of (heap, h) \<Rightarrow> heap_insert (<) heap node h)"

definition remove_min_step :: "heap_test \<Rightarrow> heap_test res" where
  "remove_min_step s =
     (case s of (heap, h) \<Rightarrow> and_then (unwrap (heap_peek_min heap)) (\<lambda>node. heap_remove (<) heap node h))"

definition equal_values :: "heap_test res" where
  "equal_values =
     in_order
      (concat (map (\<lambda>node. [insert_step node, validate_step]) [0, 1, 2, 3, 4]) @
       concat (replicate 5 [remove_min_step, validate_step]) @
       [\<lambda>s. expect_that (heap_peek_min (fst s) = None) s])
      (heap_new, (\<lambda>a. if a < 5 then Some (heap_node_new 0) else None))"

interpretation less_order: weak_order "(<) :: nat \<Rightarrow> nat \<Rightarrow> bool"
  by (rule less_weak_order)

lemma validate_step_ok:
  "heap_rep (<) (snd s) (fst s) A \<Longrightarrow> validate_step s = Inr s"
  using validate_heap_ok [of "(<)" "snd s" "fst s"]
  by (auto simp: validate_step_def heap_rep_def not_less)

lemma insert_steps_ok:
  assumes "heap_rep (<) h heap A" "distinct ns" "set ns \<inter> A = {}" "\<forall>n\<in>set ns. heap_data h n \<noteq> None"
  shows "returns (in_order (concat (map (\<lambda>node. [insert_step node, validate_step]) ns)) (heap, h))
    (\<lambda>s. heap_rep (<) (snd s) (fst s) (A \<union> set ns))"
  using assms
proof (induction ns arbitrary: heap h A)
  case (Cons n ns)
  from less_order.pq.insert_law [OF Cons.prems(1), of n] Cons.prems obtain heap' h' where
    i: "heap_insert (<) heap n h = Inr (heap', h')" "heap_rep (<) h' heap' (insert n A)" "heap_data h' = heap_data h"
    by (auto simp: returns_iff)
  with Cons.IH [OF i(2)] Cons.prems validate_step_ok [of "(heap', h')" "insert n A"] show ?case
    by (auto simp: insert_step_def)
qed simp

lemma remove_min_steps_ok:
  assumes "heap_rep (<) h heap A"
  shows "returns (in_order (concat (replicate (card A) [remove_min_step, validate_step])) (heap, h))
    (\<lambda>s. heap_rep (<) (snd s) (fst s) {})"
  using assms
proof (induction "card A" arbitrary: heap h A)
  case 0
  with less_order.pq.rep_finite have "A = {}" by (metis card_eq_0_iff)
  with 0 show ?case by simp
next
  case (Suc k)
  then have "A \<noteq> {}" by auto
  with less_order.pq.peek_law [OF Suc.prems] obtain a where a: "heap_peek_min heap = Some a" "a \<in> A"
    by (auto split: option.splits)
  from less_order.pq.remove_law [OF Suc.prems a(2)] obtain heap' h' where
    r: "heap_remove (<) heap a h = Inr (heap', h')" "heap_rep (<) h' heap' (A - {a})"
    by (auto simp: returns_iff)
  from Suc.hyps(2) a(2) have k: "k = card (A - {a})" by (simp add: card_Diff_singleton)
  with Suc.hyps(1) [OF k r(2)] a(1) r validate_step_ok [of "(heap', h')" "A - {a}"] Suc.hyps(2) show ?case
    by (simp add: remove_min_step_def unwrap_def flip: Suc.hyps(2))
qed

lemma equal_values_passes: "\<exists>s. equal_values = Inr s"
proof -
  let ?h = "\<lambda>a. if a < 5 then Some (heap_node_new 0) else None :: nat heap_node option"
  have "links ?h a = None \<or> links ?h a = Some blank_links" for a
    by (simp add: links_def blank_links_def heap_node_new_def heap_links.truncate_def)
  then have "heap_rep (<) ?h heap_new {}" by (rule heap_rep_empty)
  from insert_steps_ok [OF this, of "[0, 1, 2, 3, 4]"] obtain heap h where
    i: "in_order (concat (map (\<lambda>node. [insert_step node, validate_step]) [0, 1, 2, 3, 4])) (heap_new, ?h) = Inr (heap, h)"
      "heap_rep (<) h heap {0, 1, 2, 3, 4}"
    by (auto simp: returns_iff heap_data_def simp del: in_order.simps)
  have "card {0, 1, 2, 3, 4 :: addr} = 5" by simp
  with remove_min_steps_ok [OF i(2)]
  have "returns (in_order (concat (replicate 5 [remove_min_step, validate_step])) (heap, h))
      (\<lambda>s. heap_rep (<) (snd s) (fst s) {})"
    by (simp only:)
  then obtain heap' h' where
    r: "in_order (concat (replicate 5 [remove_min_step, validate_step])) (heap, h) = Inr (heap', h')"
      "heap_rep (<) h' heap' {}"
    unfolding returns_iff by fastforce
  from less_order.pq.peek_law [OF r(2)] have "heap_peek_min heap' = None"
    by (auto split: option.splits)
  then show ?thesis
    unfolding equal_values_def in_order_append i(1) r(1) and_then_def sum.case
    by (simp add: expect_that_def)
qed

end
