(* ===== verification/Pairing_Heap_Schedules.thy ===== *)
theory Pairing_Heap_Schedules
  imports Pairing_Heap_Check "HOL-Library.Multiset"
begin

text \<open>
  The generator of the test \<open>insert_and_remove\<close> of \<^verbatim>\<open>src/intrusive_pairing_heap.rs\<close>: a recursive
  search that takes the actions out of a vector and puts them back in place. It ends, leaves the
  vectors as they were, and hands every schedule to the test, which passes.
\<close>

section \<open>The generator\<close>

text \<open>\<open>Vec::swap_remove\<close> and \<open>swap\<close> of a slice.\<close>

definition swap_remove :: "nat \<Rightarrow> 'a list \<Rightarrow> ('a \<times> 'a list) res" where
  "swap_remove i xs =
     (if i < length xs then Inr (xs ! i, butlast (xs[i := last xs]))
      else Inl (Panic ''swap_remove index should be < len''))"

definition slice_swap :: "nat \<Rightarrow> nat \<Rightarrow> 'a list \<Rightarrow> 'a list res" where
  "slice_swap i j xs =
     (if i < length xs \<and> j < length xs then Inr (xs[i := xs ! j, j := xs ! i])
      else Inl (Panic ''index out of bounds''))"

fun follow_up :: "heap_schedule_action \<Rightarrow> heap_schedule_action list" where
  "follow_up (Act_Insert j) = [Act_Remove j]"
| "follow_up (Act_Remove j) = []"

fun is_insert :: "heap_schedule_action \<Rightarrow> bool" where
  "is_insert (Act_Insert j) = True"
| "is_insert (Act_Remove j) = False"

text \<open>The loop from \<open>i\<close> on, over the \<open>n\<close> actions that were available at its start.\<close>

partial_function (option) schedules_loop ::
  "(heap_schedule_action list \<Rightarrow> unit res) \<Rightarrow> nat \<Rightarrow> nat \<Rightarrow> heap_schedule_action list \<Rightarrow>
   heap_schedule_action list \<Rightarrow> (heap_schedule_action list \<times> heap_schedule_action list) res option" where
  "schedules_loop f i n current available =
     (if n \<le> i then Some (Inr (current, available))
      else case swap_remove i available of
        Inl e \<Rightarrow> Some (Inl e)
      | Inr (action, available) \<Rightarrow>
          (case f (current @ [action]) of
             Inl e \<Rightarrow> Some (Inl e)
           | Inr _ \<Rightarrow>
               Option.bind (schedules_loop f 0 (length (available @ follow_up action)) (current @ [action])
                 (available @ follow_up action)) (\<lambda>r.
               case r of
                 Inl e \<Rightarrow> Some (Inl e)
               | Inr (current, available) \<Rightarrow>
                   (let available = (if is_insert action then butlast available else available) @ [action] in
                    case slice_swap i (length available - 1) available of
                      Inl e \<Rightarrow> Some (Inl e)
                    | Inr available \<Rightarrow> schedules_loop f (Suc i) n (butlast current) available))))"

definition generate_schedules ::
  "heap_schedule_action list \<Rightarrow> heap_schedule_action list \<Rightarrow> (heap_schedule_action list \<Rightarrow> unit res) \<Rightarrow>
   (heap_schedule_action list \<times> heap_schedule_action list) res" where
  "generate_schedules current available f = run_loop (schedules_loop f 0 (length available) current available)"

text \<open>The test, for the first \<open>m\<close> of its five nodes.\<close>

definition insert_and_remove :: "nat \<Rightarrow> unit res" where
  "insert_and_remove m =
     and_then (generate_schedules [] (map Act_Insert [0..<m]) (\<lambda>schedule.
       and_then (run_schedule (<) schedule heap_new (\<lambda>a. if a < 5 then Some (heap_node_new a) else None)) (\<lambda>_.
       Inr ()))) (\<lambda>_. Inr ())"

section \<open>The generator is exhaustive\<close>

lemma swap_remove_undo:
  assumes "i < length xs"
  shows "slice_swap i (length xs - 1) (butlast (xs[i := last xs]) @ [xs ! i]) = Inr xs"
proof (cases xs rule: rev_cases)
  case (snoc ys z)
  with assms consider "i < length ys" | "i = length ys" by fastforce
  then show ?thesis by cases (simp_all add: snoc slice_swap_def list_update_append nth_append)
qed (use assms in simp)

lemma swap_remove_mset:
  assumes "i < length xs"
  shows "mset (butlast (xs[i := last xs])) = mset xs - {#xs ! i#}"
proof (cases xs rule: rev_cases)
  case (snoc ys z)
  with assms consider "i < length ys" | "i = length ys" by fastforce
  then show ?thesis
    by cases (simp_all add: snoc list_update_append nth_append mset_update add_mset_diff_bothsides flip: add_mset_add_single)
qed (use assms in simp)

text \<open>The schedules over the available actions; an insertion makes a removal available.\<close>

fun schedules_of :: "heap_schedule_action multiset \<Rightarrow> heap_schedule_action list \<Rightarrow> bool" where
  "schedules_of A [] \<longleftrightarrow> True"
| "schedules_of A (a # as) \<longleftrightarrow> a \<in># A \<and> schedules_of (A - {#a#} + mset (follow_up a)) as"

text \<open>\<open>f\<close> accepts every schedule that continues \<open>cur\<close>, with \<open>a\<close> next.\<close>

definition accepts_next ::
  "(heap_schedule_action list \<Rightarrow> unit res) \<Rightarrow> heap_schedule_action list \<Rightarrow> heap_schedule_action multiset \<Rightarrow>
   heap_schedule_action \<Rightarrow> bool" where
  "accepts_next f cur A a \<longleftrightarrow>
     (\<forall>as. schedules_of (A - {#a#} + mset (follow_up a)) as \<longrightarrow> f (cur @ a # as) = Inr ())"

definition accepts ::
  "(heap_schedule_action list \<Rightarrow> unit res) \<Rightarrow> heap_schedule_action list \<Rightarrow> heap_schedule_action multiset \<Rightarrow> bool" where
  "accepts f cur A \<longleftrightarrow> (\<forall>as. as \<noteq> [] \<longrightarrow> schedules_of A as \<longrightarrow> f (cur @ as) = Inr ())"

lemma accepts_all_next: "accepts f cur A \<longleftrightarrow> (\<forall>a\<in>#A. accepts_next f cur A a)"
proof
  assume *: "\<forall>a\<in>#A. accepts_next f cur A a"
  show "accepts f cur A"
    unfolding accepts_def
  proof (intro allI impI)
    fix as :: "heap_schedule_action list"
    assume "as \<noteq> []" "schedules_of A as"
    with * show "f (cur @ as) = Inr ()" by (cases as) (auto simp: accepts_next_def)
  qed
qed (auto simp: accepts_def accepts_next_def)

lemma accepts_next_iff:
  "accepts_next f cur A a \<longleftrightarrow>
   f (cur @ [a]) = Inr () \<and> accepts f (cur @ [a]) (A - {#a#} + mset (follow_up a))"
proof
  assume *: "f (cur @ [a]) = Inr () \<and> accepts f (cur @ [a]) (A - {#a#} + mset (follow_up a))"
  show "accepts_next f cur A a"
    unfolding accepts_next_def
  proof (intro allI impI)
    fix as assume "schedules_of (A - {#a#} + mset (follow_up a)) as"
    with * show "f (cur @ a # as) = Inr ()" by (cases "as = []") (auto simp: accepts_def)
  qed
next
  assume *: "accepts_next f cur A a"
  then have "f (cur @ [a]) = Inr ()" unfolding accepts_next_def by (metis schedules_of.simps(1))
  with * show "f (cur @ [a]) = Inr () \<and> accepts f (cur @ [a]) (A - {#a#} + mset (follow_up a))"
    by (auto simp: accepts_next_def accepts_def)
qed

text \<open>Every action taken leaves less work: an insertion counts twice, a removal once.\<close>

fun action_weight :: "heap_schedule_action \<Rightarrow> nat" where
  "action_weight (Act_Insert j) = 2"
| "action_weight (Act_Remove j) = 1"

definition weight :: "heap_schedule_action list \<Rightarrow> nat" where
  "weight xs = sum_mset (image_mset action_weight (mset xs))"

lemma weight_follow_up:
  assumes "i < length xs"
  shows "weight (butlast (xs[i := last xs]) @ follow_up (xs ! i)) < weight xs"
proof -
  have "weight xs = action_weight (xs ! i) + sum_mset (image_mset action_weight (mset xs - {#xs ! i#}))"
    using assms unfolding weight_def by (metis nth_mem_mset sum_mset.remove image_mset_add_mset add_mset_remove_trivial multi_member_split sum_mset.add_mset)
  moreover have "sum_mset (image_mset action_weight (mset (follow_up a))) < action_weight a" for a
    by (cases a) simp_all
  ultimately show ?thesis
    unfolding weight_def mset_append swap_remove_mset [OF assms] image_mset_union sum_mset.union
    by (simp only: add.commute [of "action_weight _"] nat_add_left_cancel_less)
qed

text \<open>What the loop returns: the vectors as they were, or the error of a schedule that \<open>f\<close> rejects.\<close>

definition loop_result ::
  "bool \<Rightarrow> heap_schedule_action list \<Rightarrow> heap_schedule_action list \<Rightarrow>
   (heap_schedule_action list \<times> heap_schedule_action list) res option \<Rightarrow> bool" where
  "loop_result ok current available r \<longleftrightarrow>
     (if ok then r = Some (Inr (current, available)) else \<exists>e. r = Some (Inl e))"

lemma schedules_loop_step:
  assumes i: "i < length xs"
    and inner: "loop_result (accepts f (cur @ [xs ! i]) (mset xs - {#xs ! i#} + mset (follow_up (xs ! i)))) (cur @ [xs ! i])
      (butlast (xs[i := last xs]) @ follow_up (xs ! i))
      (schedules_loop f 0 (length (butlast (xs[i := last xs]) @ follow_up (xs ! i))) (cur @ [xs ! i])
        (butlast (xs[i := last xs]) @ follow_up (xs ! i)))"
  shows "if accepts_next f cur (mset xs) (xs ! i)
    then schedules_loop f i (length xs) cur xs = schedules_loop f (Suc i) (length xs) cur xs
    else \<exists>e. schedules_loop f i (length xs) cur xs = Some (Inl e)"
proof (cases "f (cur @ [xs ! i])")
  case (Inl e)
  with i show ?thesis
    by (simp add: schedules_loop.simps [of f i] swap_remove_def accepts_next_iff)
next
  case (Inr u)
  let ?ys = "butlast (xs[i := last xs])" and ?a = "xs ! i"
  have undo: "(if is_insert ?a then butlast (?ys @ follow_up ?a) else ?ys @ follow_up ?a) @ [?a] = ?ys @ [?a]"
    by (cases ?a) simp_all
  have len: "length (?ys @ [?a]) - 1 = length xs - 1" by simp
  show ?thesis
  proof (cases "accepts f (cur @ [?a]) (mset xs - {#?a#} + mset (follow_up ?a))")
    case True
    with inner have "schedules_loop f 0 (length (?ys @ follow_up ?a)) (cur @ [?a]) (?ys @ follow_up ?a) =
        Some (Inr (cur @ [?a], ?ys @ follow_up ?a))"
      by (simp add: loop_result_def)
    with Inr i True undo swap_remove_undo [OF i] show ?thesis
      unfolding accepts_next_iff by (subst schedules_loop.simps) (simp add: swap_remove_def Let_def)
  next
    case False
    with inner obtain e where
      "schedules_loop f 0 (length (?ys @ follow_up ?a)) (cur @ [?a]) (?ys @ follow_up ?a) = Some (Inl e)"
      by (auto simp: loop_result_def)
    with Inr i False show ?thesis
      unfolding accepts_next_iff by (subst schedules_loop.simps) (simp add: swap_remove_def)
  qed
qed

lemma schedules_loop_correct:
  "loop_result (\<forall>k. i \<le> k \<and> k < length xs \<longrightarrow> accepts_next f cur (mset xs) (xs ! k)) cur xs
     (schedules_loop f i (length xs) cur xs)"
proof (induction "weight xs" arbitrary: i xs cur rule: less_induct)
  case less
  have all: "loop_result (accepts f c (mset ys)) c ys (schedules_loop f 0 (length ys) c ys)"
    if "weight ys < weight xs" for c ys
  proof -
    have "(\<forall>k. 0 \<le> k \<and> k < length ys \<longrightarrow> accepts_next f c (mset ys) (ys ! k)) \<longleftrightarrow> accepts f c (mset ys)"
      by (simp add: accepts_all_next all_set_conv_all_nth)
    with less.hyps [OF that, of 0 c] show ?thesis by simp
  qed
  show ?case
  proof (induction "length xs - i" arbitrary: i)
    case 0
    then show ?case by (simp add: schedules_loop.simps [of f i] loop_result_def)
  next
    case (Suc m)
    then have i: "i < length xs" by simp
    have "mset (butlast (xs[i := last xs]) @ follow_up (xs ! i)) = mset xs - {#xs ! i#} + mset (follow_up (xs ! i))"
      using i by (simp add: swap_remove_mset)
    with all [OF weight_follow_up [OF i], of "cur @ [xs ! i]"] have inner:
      "loop_result (accepts f (cur @ [xs ! i]) (mset xs - {#xs ! i#} + mset (follow_up (xs ! i)))) (cur @ [xs ! i])
        (butlast (xs[i := last xs]) @ follow_up (xs ! i))
        (schedules_loop f 0 (length (butlast (xs[i := last xs]) @ follow_up (xs ! i))) (cur @ [xs ! i])
          (butlast (xs[i := last xs]) @ follow_up (xs ! i)))"
      by metis
    have split: "(\<forall>k. i \<le> k \<and> k < length xs \<longrightarrow> P k) \<longleftrightarrow> P i \<and> (\<forall>k. Suc i \<le> k \<and> k < length xs \<longrightarrow> P k)" for P
      using i by (metis Suc_leD Suc_leI le_eq_less_or_eq)
    have "loop_result (\<forall>k. Suc i \<le> k \<and> k < length xs \<longrightarrow> accepts_next f cur (mset xs) (xs ! k)) cur xs
        (schedules_loop f (Suc i) (length xs) cur xs)"
      using Suc.hyps(2) by (intro Suc.hyps(1)) simp
    with schedules_loop_step [OF i inner] show ?case
      unfolding split [of "\<lambda>k. accepts_next f cur (mset xs) (xs ! k)"]
      by (cases "accepts_next f cur (mset xs) (xs ! i)") (auto simp: loop_result_def)
  qed
qed

lemma generate_schedules_exhaustive:
  "(\<exists>r. generate_schedules cur xs f = Inr r) \<longleftrightarrow> accepts f cur (mset xs)"
  "generate_schedules cur xs f = Inr r \<Longrightarrow> r = (cur, xs)"
proof -
  have "(\<forall>k. 0 \<le> k \<and> k < length xs \<longrightarrow> accepts_next f cur (mset xs) (xs ! k)) \<longleftrightarrow> accepts f cur (mset xs)"
    by (simp add: accepts_all_next all_set_conv_all_nth)
  with schedules_loop_correct [of 0 xs f cur] show
    "(\<exists>r. generate_schedules cur xs f = Inr r) \<longleftrightarrow> accepts f cur (mset xs)"
    "generate_schedules cur xs f = Inr r \<Longrightarrow> r = (cur, xs)"
    by (auto simp: generate_schedules_def loop_result_def split: if_splits)
qed

section \<open>The test passes\<close>

lemma schedules_of_ok:
  assumes "schedules_of M as" "\<forall>x. count M x \<le> 1"
    "\<forall>n. Act_Insert n \<in># M \<longrightarrow> n \<in> nodes \<and> n \<notin> A" "\<forall>n. Act_Remove n \<in># M \<longrightarrow> n \<in> A"
  shows "schedule_ok nodes as A"
  using assms
proof (induction as arbitrary: M A)
  case (Cons a as)
  let ?M = "M - {#a#} + mset (follow_up a)"
  from Cons.prems(1) have a: "a \<in># M" "schedules_of ?M as" by (simp_all only: schedules_of.simps)
  have gone: "a \<notin># M - {#a#}" using spec [OF Cons.prems(2), of a] by (simp add: not_in_iff)
  show ?case
  proof (cases a)
    case (Act_Insert n)
    with a Cons.prems(3) have n: "n \<in> nodes" "n \<notin> A" by auto
    with Cons.prems(4) have "count M (Act_Remove n) = 0" by (meson count_inI)
    with Cons.prems(2-4) Act_Insert gone have "schedule_ok nodes as (insert n A)"
      by (intro Cons.IH [OF a(2)]) (auto dest: in_diffD)
    with n Act_Insert show ?thesis by simp
  next
    case (Act_Remove n)
    with a Cons.prems(4) have n: "n \<in> A" by auto
    from Cons.prems(2-4) Act_Remove gone have "schedule_ok nodes as (A - {n})"
      by (intro Cons.IH [OF a(2)]) (auto dest: in_diffD simp: le_diff_conv intro: le_SucI)
    with n Act_Remove show ?thesis by simp
  qed
qed simp

lemma insert_and_remove_passes:
  assumes "m \<le> 5"
  shows "insert_and_remove m = Inr ()"
proof -
  let ?h = "\<lambda>a. if a < 5 then Some (heap_node_new a) else None :: nat heap_node option"
  have rep: "heap_rep (<) ?h heap_new {}"
    by (rule heap_rep_empty) (simp add: links_def blank_links_def heap_node_new_def heap_links.truncate_def)
  have dom: "{0..<5} \<subseteq> dom (heap_data ?h)" by (auto simp: heap_data_def)
  have "accepts (\<lambda>schedule. and_then (run_schedule (<) schedule heap_new ?h) (\<lambda>_. Inr ())) []
      (mset (map Act_Insert [0..<m]))"
    unfolding accepts_def
  proof (intro allI impI)
    fix as assume sched: "schedules_of (mset (map Act_Insert [0..<m])) as"
    have distinct: "distinct (map Act_Insert [0..<m])" by (simp add: distinct_map inj_on_def)
    from sched have "schedule_ok {0..<5} as {}"
    proof (rule schedules_of_ok)
      show "\<forall>x. count (mset (map Act_Insert [0..<m])) x \<le> 1"
        using distinct by (simp only: distinct_count_atmost_1) simp
    qed (use assms in auto)
    from weak_order.run_schedule_ok [OF less_weak_order rep dom this]
    show "and_then (run_schedule (<) ([] @ as) heap_new ?h) (\<lambda>_. Inr ()) = Inr ()"
      by (auto simp: returns_iff)
  qed
  then obtain r where "generate_schedules [] (map Act_Insert [0..<m])
      (\<lambda>schedule. and_then (run_schedule (<) schedule heap_new ?h) (\<lambda>_. Inr ())) = Inr r"
    unfolding generate_schedules_exhaustive(1) [symmetric] by (elim exE)
  then show ?thesis by (simp only: insert_and_remove_def and_then_simps)
qed

end
