(* ===== verification/Rendezvous.thy ===== *)
theory Rendezvous
  imports Mpmc_System Timer_Service Manual_Reset_Event
begin

text \<open>
  What a client sees of one poll of a future: the result of the poll and the component after it.
  Then the channel of type \<open>LocalUnbufferedChannel\<close> of \<^verbatim>\<open>src/channel/mpmc.rs\<close>, which has no buffer:
  a send is complete when a receiver has taken its value, not before.
\<close>

section \<open>One poll of a future\<close>

definition poll_send ::
  "('b, 'v) ring_buf_ops \<Rightarrow> addr \<Rightarrow> waker \<Rightarrow> ('b, 'v) channel_sys \<Rightarrow>
   (('v channel_send_error + unit) poll \<times> ('b, 'v) channel_sys) res" where
  "poll_send ops a cx s =
     and_then (deref (cy_sends s) a) (\<lambda>f.
     and_then (send_future_poll (channel_send_access ops) f cx (cy_chan s)) (\<lambda>(r, _).
     and_then (channel_exec ops (Ch_Poll_Send a cx) s) (\<lambda>s. Inr (r, s))))"

definition poll_receive ::
  "('b, 'v) ring_buf_ops \<Rightarrow> addr \<Rightarrow> waker \<Rightarrow> ('b, 'v) channel_sys \<Rightarrow>
   ('v option poll \<times> ('b, 'v) channel_sys) res" where
  "poll_receive ops a cx s =
     and_then (deref (cy_recvs s) a) (\<lambda>f.
     and_then (receive_future_poll (channel_receive_access ops) f cx (cy_chan s)) (\<lambda>(r, _).
     and_then (channel_exec ops (Ch_Poll_Receive a cx) s) (\<lambda>s. Inr (r, s))))"

definition poll_wait :: "addr \<Rightarrow> waker \<Rightarrow> event_sys \<Rightarrow> (unit poll \<times> event_sys) res" where
  "poll_wait a cx s =
     and_then (deref (es_futures s) a) (\<lambda>f.
     and_then (wait_future_poll f cx (es_event s) (es_nodes s)) (\<lambda>(r, _).
     and_then (event_exec (Event_Poll a cx) s) (\<lambda>s. Inr (r, s))))"

definition poll_delay ::
  "'c clock_ops \<Rightarrow> addr \<Rightarrow> waker \<Rightarrow> 'c service_sys \<Rightarrow> (unit poll \<times> 'c service_sys) res" where
  "poll_delay clk a cx s =
     and_then (deref (tv_futures s) a) (\<lambda>f.
     and_then (access_future_poll (service_access clk) f cx (tv_service s) (tv_nodes s)) (\<lambda>(r, _).
     and_then (service_exec clk (Svc_Call (Timer_Poll a cx)) s) (\<lambda>s. Inr (r, s))))"

section \<open>Waiting for an event\<close>

lemma event_try_wait_frame:
  assumes "event_try_wait e a cx h = Inr (r, e', h')"
  shows "ev_is_set e' = ev_is_set e \<and>
    (r = Ready () \<longrightarrow> ev_is_set e \<or> (\<exists>n. data_of h a = Some n \<and> ew_state n = Ev_Done))"
proof -
  from assms obtain n where n: "read_data h a = Inr n"
    by (auto simp: event_try_wait_def and_then_eq_Inr)
  then have "data_of h a = Some n" by (simp add: read_data_eq_Inr)
  with n assms show ?thesis
    by (cases "ew_state n") (auto simp: event_try_wait_def and_then_eq_Inr split: if_splits)
qed

lemma event_remove_waiter_frame:
  assumes "event_remove_waiter e a h = Inr (e', h')"
  shows "ev_is_set e' = ev_is_set e"
proof -
  from assms obtain n where "read_data h a = Inr n"
    by (auto simp: event_remove_waiter_def and_then_eq_Inr)
  with assms show ?thesis
    by (cases "ew_state n") (auto simp: event_remove_waiter_def and_then_eq_Inr split: if_splits)
qed

lemma wait_future_poll_frame:
  assumes "wait_future_poll f cx e h = Inr (r, f', e', h')"
  shows "ev_is_set e' = ev_is_set e \<and> (if r = Pending then f' = f else \<not> wf_event f') \<and>
    (r = Ready () \<longrightarrow> ev_is_set e \<or> (\<exists>n. data_of h (wf_wait_node f) = Some n \<and> ew_state n = Ev_Done))"
  using assms
  by (cases r) (auto simp: wait_future_poll_def and_then_eq_Inr dest: event_try_wait_frame split: if_splits)

lemma poll_wait_run:
  assumes reach: "event_reachable i s" and f: "es_futures s a = Some f" "wf_event f"
  shows "returns (poll_wait a cx s) (\<lambda>(r, t). event_reachable i t \<and>
    ev_is_set (es_event t) = ev_is_set (es_event s) \<and> (ev_is_set (es_event s) \<longrightarrow> r = Ready ()) \<and>
    (case r of Pending \<Rightarrow> \<not> event_done t a | Ready _ \<Rightarrow> ev_is_set (es_event s) \<or> event_done s a) \<and>
    (\<exists>f'. es_futures t = (es_futures s)(a \<mapsto> f') \<and> (r = Pending \<longrightarrow> f' = f)))"
proof -
  have en: "event_enabled (Event_Poll a cx) s" using f by (simp add: wait_future_is_terminated_def)
  from evs.no_fault [OF reach en] obtain t where t: "event_exec (Event_Poll a cx) s = Inr t" by blast
  then obtain r f' e h where p: "wait_future_poll f cx (es_event s) (es_nodes s) = Inr (r, f', e, h)"
    "t = s\<lparr>es_event := e, es_nodes := h, es_futures := (es_futures s)(a \<mapsto> f')\<rparr>"
    using f by (auto simp: and_then_eq_Inr deref_eq_Inr)
  from event_poll_preserves [OF evs.reach_inv [OF reach] f, of cx]
  have "wf_event f' \<longrightarrow> \<not> ev_is_set e \<and> \<not> event_done t a"
    unfolding t by (auto simp: p(2) event_done_def)
  moreover have "wf_wait_node f = a"
    using evs.reach_inv [OF reach] f(1) by (auto simp: event_inv_def dest: event_futures_okD)
  ultimately show ?thesis
    using wait_future_poll_frame [OF p(1)] reach_step [OF reach en t] f t p
    by (cases r) (auto simp: poll_wait_def event_done_def split: if_splits simp del: event_exec.simps)
qed

lemma wait_run:
  assumes reach: "event_reachable i s" and free: "es_futures s = Map.empty"
  shows "returns (event_exec (Event_Wait a) s) (\<lambda>t. event_reachable i t \<and>
    ev_is_set (es_event t) = ev_is_set (es_event s) \<and> es_futures t = [a \<mapsto> \<lparr>wf_event = True, wf_wait_node = a\<rparr>] \<and>
    \<not> event_done t a)"
proof -
  have "data_of (es_nodes s) a = None"
    using evs.reach_inv [OF reach] free by (simp add: event_inv_def event_futures_ok_def)
  then have en: "event_enabled (Event_Wait a) s" by (simp add: data_of_def)
  from evs.no_fault [OF reach en] obtain t where t: "event_exec (Event_Wait a) s = Inr t" by blast
  with reach_step [OF reach en t] free show ?thesis
    by (auto simp: event_wait_def event_done_def event_waiter_new_def list_node_new_def)
qed

lemma drop_wait_run:
  assumes reach: "event_reachable i s" and f: "es_futures s a = Some f"
  shows "returns (event_exec (Event_Drop a) s) (\<lambda>t. event_reachable i t \<and>
    ev_is_set (es_event t) = ev_is_set (es_event s) \<and> es_futures t = (es_futures s)(a := None))"
proof -
  have en: "event_enabled (Event_Drop a) s" using f by simp
  from evs.no_fault [OF reach en] obtain t where t: "event_exec (Event_Drop a) s = Inr t" by blast
  then have "ev_is_set (es_event t) = ev_is_set (es_event s) \<and> es_futures t = (es_futures s)(a := None)"
    using f by (auto simp: and_then_eq_Inr wait_future_drop_def dest: event_remove_waiter_frame split: if_splits)
  with reach_step [OF reach en t] t show ?thesis by (simp del: event_exec.simps)
qed

lemma event_set_run:
  assumes reach: "event_reachable i s"
  shows "returns (event_exec Event_Set s) (\<lambda>t. event_reachable i t \<and>
    ev_is_set (es_event t) \<and> es_futures t = es_futures s)"
proof -
  have en: "event_enabled Event_Set s" by simp
  from evs.no_fault [OF reach en] obtain t where t: "event_exec Event_Set s = Inr t" by blast
  from evs.reach_inv [OF reach] obtain xs where "event_waiters_ok (es_event s) (es_nodes s) xs"
    by (auto simp: event_inv_def)
  then have "returns (event_exec Event_Set s) (\<lambda>t. ev_is_set (es_event t) \<and> es_futures t = es_futures s)"
    by (auto intro!: event_set_wp)
  with reach_step [OF reach en t] t show ?thesis by (simp del: event_exec.simps)
qed

lemma event_set_sets:
  assumes "event_set e h = Inr (w, e', h')"
  shows "ev_is_set e'"
  using assms by (auto simp: event_set_def and_then_eq_Inr split: if_splits)

lemma event_stays_set:
  assumes "event_exec act s = Inr t" "act \<noteq> Event_Reset" "ev_is_set (es_event s)"
  shows "ev_is_set (es_event t)"
  using assms
  by (cases act)
    (auto simp: and_then_eq_Inr event_wait_def wait_future_drop_def
      dest: event_set_sets wait_future_poll_frame event_remove_waiter_frame split: if_splits)

section \<open>Waiting for a delay\<close>

context clock
begin

lemma delay_run:
  assumes reach: "service_reachable clk later s" and free: "tv_futures s = Map.empty"
  shows "returns (service_exec clk (Svc_Call (Timer_Delay a d)) s) (\<lambda>t. service_reachable clk later t \<and>
    tv_futures t = [a \<mapsto> \<lparr>ltf_timer = True, ltf_wait_node = a\<rparr>])"
proof -
  have "heap_data (tv_nodes s) a = None"
    using timer_invD(3) [OF tms.reach_inv [OF service_reach_view [OF reach]]] free
    by (simp add: timer_futures_ok_def)
  then have en: "service_enabled clk later (Svc_Call (Timer_Delay a d)) s" by (simp add: heap_data_def)
  from service_runs [OF reach en] obtain t where t: "service_exec clk (Svc_Call (Timer_Delay a d)) s = Inr t" by blast
  with reach_step [OF reach en t] free show ?thesis by (auto simp: local_timer_deadline_def)
qed

lemma poll_delay_run:
  assumes reach: "service_reachable clk later s" and f: "tv_futures s a = Some f" "ltf_timer f"
  shows "returns (poll_delay clk a cx s) (\<lambda>(r, t). service_reachable clk later t \<and>
    (\<exists>f'. tv_futures t = (tv_futures s)(a \<mapsto> f') \<and> (r = Pending \<longrightarrow> f' = f)))"
proof -
  have en: "service_enabled clk later (Svc_Call (Timer_Poll a cx)) s"
    using f by (simp add: local_timer_future_is_terminated_def)
  from service_runs [OF reach en] obtain t where t: "service_exec clk (Svc_Call (Timer_Poll a cx)) s = Inr t" by blast
  then obtain r f' e h where p: "access_future_poll (service_access clk) f cx (tv_service s) (tv_nodes s) = Inr (r, f', e, h)"
    "t = s\<lparr>tv_service := e, tv_nodes := h, tv_futures := (tv_futures s)(a \<mapsto> f')\<rparr>"
    using f by (auto simp: and_then_eq_Inr deref_eq_Inr)
  then have "r = Pending \<longrightarrow> f' = f"
    by (auto simp: access_future_poll_def and_then_eq_Inr split: if_splits)
  with reach_step [OF reach en t] f t p show ?thesis
    by (auto simp: poll_delay_def simp del: service_exec.simps)
qed

lemma drop_delay_run:
  assumes reach: "service_reachable clk later s" and f: "tv_futures s a = Some f"
  shows "returns (service_exec clk (Svc_Call (Timer_Drop a)) s) (\<lambda>t. service_reachable clk later t \<and>
    tv_futures t = (tv_futures s)(a := None))"
proof -
  have en: "service_enabled clk later (Svc_Call (Timer_Drop a)) s" using f by simp
  from service_runs [OF reach en] obtain t where t: "service_exec clk (Svc_Call (Timer_Drop a)) s = Inr t" by blast
  then have "tv_futures t = (tv_futures s)(a := None)" using f by (auto simp: and_then_eq_Inr)
  with reach_step [OF reach en t] t show ?thesis by (simp del: service_exec.simps)
qed

lemma check_run:
  assumes reach: "service_reachable clk later s"
  shows "returns (service_exec clk (Svc_Call Timer_Check) s) (\<lambda>t. service_reachable clk later t \<and>
    tv_futures t = tv_futures s)"
proof -
  have en: "service_enabled clk later (Svc_Call Timer_Check) s" by simp
  from service_runs [OF reach en] obtain t where t: "service_exec clk (Svc_Call Timer_Check) s = Inr t" by blast
  then have "tv_futures t = tv_futures s" by (auto simp: and_then_eq_Inr)
  with reach_step [OF reach en t] t show ?thesis by (simp del: service_exec.simps)
qed

lemma tick_reach:
  "service_reachable clk later s \<Longrightarrow> later (gts_clock (tv_service s)) c \<Longrightarrow>
   service_reachable clk later (s\<lparr>tv_service := (tv_service s)\<lparr>gts_clock := c\<rparr>\<rparr>)"
  by (erule reach_step [of _ _ _ _ "Svc_Tick c"]) simp_all

end

section \<open>A channel without a buffer\<close>

lemma channel_abs_unique:
  assumes "channel_abs ops binv items c S" "channel_abs ops binv items c S'"
  shows "S = S'"
  using assms ll_rep_unique [of "ch_recv_nodes c" "ch_receive_waiters c" "cp_recv S" "cp_recv S'"]
    ll_rep_unique [of "ch_send_nodes c" "ch_send_waiters c" "cp_send S" "cp_send S'"]
  by (auto simp: channel_abs_def)

text \<open>
  At most one send, at address \<open>p\<close>, is in flight. \<open>send_stage\<close> is how far it got: not polled yet
  or waiting, with its value, or complete. The channel is open.
\<close>

datatype 'v stage = Idle | Offered 'v | Taken

definition send_stage :: "addr \<Rightarrow> ('b, 'v) channel_sys \<Rightarrow> 'v stage \<Rightarrow> bool" where
  "send_stage p s st \<longleftrightarrow> \<not> ch_is_closed (cy_chan s) \<and>
     (case st of
        Idle \<Rightarrow> cy_sends s = Map.empty
      | Offered v \<Rightarrow> cy_sends s = [p \<mapsto> \<lparr>sdf_channel = True, sdf_wait_node = p\<rparr>] \<and>
          (\<exists>e. data_of (ch_send_nodes (cy_chan s)) p = Some e \<and> snd_state e \<noteq> Sp_Send_Complete \<and> snd_value e = Some v)
      | Taken \<Rightarrow> cy_sends s = [p \<mapsto> \<lparr>sdf_channel = True, sdf_wait_node = p\<rparr>] \<and>
          (\<exists>e. data_of (ch_send_nodes (cy_chan s)) p = Some e \<and> snd_state e = Sp_Send_Complete))"

definition spec_stage :: "addr \<Rightarrow> 'v channel_spec \<Rightarrow> 'v stage \<Rightarrow> bool" where
  "spec_stage p S st \<longleftrightarrow> \<not> cp_closed S \<and> cp_buf S = [] \<and> cp_cap S = 0 \<and> set (cp_send S) \<subseteq> {p} \<and>
     (case st of
        Idle \<Rightarrow> cp_send S = []
      | Offered v \<Rightarrow> (\<exists>e. cp_sd S p = Some e \<and> snd_state e \<noteq> Sp_Send_Complete \<and> snd_value e = Some v)
      | Taken \<Rightarrow> cp_send S = [] \<and> (\<exists>e. cp_sd S p = Some e \<and> snd_state e = Sp_Send_Complete))"

lemma spec_stage_queue:
  assumes "spec_stage p S st" "cp_senders_ok S"
  shows "cp_send S = [] \<or> cp_send S = [p]"
  using assms by (cases "cp_send S"; cases "tl (cp_send S)") (auto simp: spec_stage_def cp_senders_ok_def)

lemma spec_stage_notify: "spec_stage p (snd (cp_notify S)) st \<longleftrightarrow> spec_stage p S st"
  by (cases st) (simp_all add: spec_stage_def)

lemma spec_stage_notifyD: "cp_notify S = (w, S') \<Longrightarrow> spec_stage p S' st \<longleftrightarrow> spec_stage p S st"
  using spec_stage_notify [of p S st] by simp

lemma spec_stage_recv [simp]:
  "spec_stage p (S\<lparr>cp_rd := rd\<rparr>) st \<longleftrightarrow> spec_stage p S st"
  "spec_stage p (S\<lparr>cp_recv := q\<rparr>) st \<longleftrightarrow> spec_stage p S st"
  by (cases st; simp add: spec_stage_def)+

text \<open>A send is complete once a receiver has its value; until then it waits.\<close>

lemma spec_stage_poll_send:
  assumes st: "spec_stage p S st" "st \<noteq> Idle" and ok: "cp_senders_ok S"
    and poll: "cp_poll_send p cx S = (r, v, w, S')"
  shows "(case st of Taken \<Rightarrow> r = Ready () \<and> v = None | _ \<Rightarrow> r = Pending) \<and> spec_stage p S' st"
proof -
  from st obtain e where e: "cp_sd S p = Some e" by (cases st) (auto simp: spec_stage_def)
  with st poll show ?thesis
    by (cases st; cases "snd_state e")
      (auto simp: cp_poll_send_def Let_def split_def spec_stage_def dest!: spec_stage_notifyD [where p = p and st = st])
qed

lemma spec_stage_poll_recv:
  assumes st: "spec_stage p S st" and ok: "cp_senders_ok S"
    and poll: "cp_poll_recv q cx S = (r, S')"
  shows "(r = Pending \<and> spec_stage p S' st) \<or>
    (\<exists>v w. st = Offered v \<and> r = Ready (Some (v, w)) \<and> spec_stage p S' Taken)"
proof -
  consider (queued) "cp_send S = [p]" | (free) "cp_send S = []" using spec_stage_queue [OF st ok] by blast
  then show ?thesis
  proof cases
    case queued
    with st ok poll show ?thesis
      by (cases st) (auto simp: cp_poll_recv_def cp_try_receive_def cp_complete_sender_def Let_def spec_stage_def
          split: if_splits)
  next
    case free
    with st ok poll show ?thesis
      by (auto simp: cp_poll_recv_def cp_try_receive_def Let_def spec_stage_def split: if_splits stage.splits)
  qed
qed

locale unbuffered = ring_buf +
  assumes no_room: "binv b \<Longrightarrow> rb_capacity ops b = 0"
begin

lemma stage_spec:
  assumes rep: "channel_sys_rep ops binv items s S" and st: "send_stage p s st"
  shows "spec_stage p S st"
proof -
  note S = channel_sys_repD [OF rep]
  note abs = S(1) [unfolded channel_abs_def]
  from abs no_room [of "ch_buffer (cy_chan s)"] have cap: "cp_cap S = 0" by simp
  from cp_invD(1) [OF S(2)] have ok: "length (cp_buf S) \<le> cp_cap S" "set (cp_send S) \<subseteq> dom (cp_sd S)"
    "\<And>a e. cp_sd S a = Some e \<Longrightarrow> a \<in> set (cp_send S) \<longleftrightarrow> snd_state e = Sp_Registered"
    by (auto simp: cp_senders_ok_def)
  from S(3) have dom: "dom (cp_sd S) = dom (cy_sends s)" by (simp add: sends_ok_def)
  show ?thesis
  proof (cases st)
    case Idle
    with st dom have "cp_send S = []" using ok(2) by (auto simp: send_stage_def)
    with Idle st cap ok(1) abs show ?thesis by (simp add: spec_stage_def send_stage_def)
  next
    case (Offered v)
    with st dom have "dom (cp_sd S) = {p}" by (simp add: send_stage_def)
    with Offered st cap ok abs show ?thesis by (auto simp: spec_stage_def send_stage_def)
  next
    case Taken
    with st dom have d: "dom (cp_sd S) = {p}" by (simp add: send_stage_def)
    from Taken st abs obtain e where e: "cp_sd S p = Some e" "snd_state e = Sp_Send_Complete"
      by (auto simp: send_stage_def)
    with ok(3) [OF e(1)] ok(2) d have "cp_send S = []" by (cases "cp_send S") auto
    with Taken st e cap ok(1) abs show ?thesis by (simp add: spec_stage_def send_stage_def)
  qed
qed

lemma spec_stage_send_stage:
  assumes "channel_abs ops binv items (cy_chan s) S" "spec_stage p S st"
    and "cy_sends s = (if st = Idle then Map.empty else [p \<mapsto> \<lparr>sdf_channel = True, sdf_wait_node = p\<rparr>])"
  shows "send_stage p s st"
  using assms by (cases st) (auto simp: send_stage_def spec_stage_def channel_abs_def)

lemma send_run:
  assumes reach: "channel_reachable ops s" and st: "send_stage p s Idle"
  shows "returns (channel_exec ops (Ch_Send p v) s) (\<lambda>t. channel_reachable ops t \<and>
    send_stage p t (Offered v) \<and> cy_recvs t = cy_recvs s \<and> cy_received t = cy_received s)"
proof -
  from channel_reach_rep [OF ring_buf_axioms reach] obtain S where
    rep: "channel_sys_rep ops binv items s S" by blast
  have "cp_sd S p = None"
    using channel_sys_repD(3) [OF rep] st by (auto simp: sends_ok_def send_stage_def)
  with channel_sys_repD(1) [OF rep] have "data_of (ch_send_nodes (cy_chan s)) p = None"
    by (simp add: channel_abs_def)
  then have en: "channel_enabled ops (Ch_Send p v) s" by (simp add: data_of_def)
  from channel_runs [OF reach en] obtain t where t: "channel_exec ops (Ch_Send p v) s = Inr t" by blast
  with reach_step [OF reach en t] st show ?thesis
    by (auto simp: channel_send_def send_stage_def send_waiter_new_def list_node_new_def)
qed

lemma poll_send_run:
  assumes reach: "channel_reachable ops s" and st: "send_stage p s st" "st \<noteq> Idle"
  shows "returns (poll_send ops p cx s) (\<lambda>(r, t). channel_reachable ops t \<and>
    cy_recvs t = cy_recvs s \<and> cy_received t = cy_received s \<and>
    (case st of
       Taken \<Rightarrow> r = Ready (Inr ()) \<and> \<not> ch_is_closed (cy_chan t) \<and> (\<exists>f. cy_sends t = [p \<mapsto> f])
     | _ \<Rightarrow> r = Pending \<and> send_stage p t st))"
proof -
  from channel_reach_rep [OF ring_buf_axioms reach] obtain S where
    rep: "channel_sys_rep ops binv items s S" by blast
  note S = channel_sys_repD [OF rep]
  note spec = stage_spec [OF rep st(1)]
  from st have f: "cy_sends s = [p \<mapsto> \<lparr>sdf_channel = True, sdf_wait_node = p\<rparr>]"
    by (cases st) (auto simp: send_stage_def)
  then have en: "channel_enabled ops (Ch_Poll_Send p cx) s" by (simp add: send_future_is_terminated_def)
  from channel_runs [OF reach en] obtain t where t: "channel_exec ops (Ch_Poll_Send p cx) s = Inr t" by blast
  from sends_okD [OF S(3), of p] f obtain e where
    e: "cp_sd S p = Some e" "snd_state e = Sp_Unregistered \<Longrightarrow> snd_value e \<noteq> None" by auto
  from channel_send_or_register_refines [OF S(1) cp_invD(1) [OF S(2)] e, of cx] obtain r v w c S' where
    run: "channel_state_send_or_register ops p cx (cy_chan s) = Inr (r, v, w, c)"
      "cp_poll_send p cx S = (r, v, w, S')" "channel_abs ops binv items c S'"
    by (auto simp: returns_iff)
  note poll = spec_stage_poll_send [OF spec st(2) cp_invD(1) [OF S(2)] run(2)]
  show ?thesis
  proof (cases "st = Taken")
    case True
    with poll t run f reach_step [OF reach en t] show ?thesis
      by (auto simp: poll_send_def send_future_poll_def channel_send_access_def channel_send_or_register_def
          spec_stage_def channel_abs_def)
  next
    case False
    with poll st(2) have r: "r = Pending" by (cases st) auto
    have tt: "cy_sends t = cy_sends s" "cy_chan t = c" "cy_recvs t = cy_recvs s" "cy_received t = cy_received s"
      using t run(1) f r
      by (auto simp: send_future_poll_def channel_send_access_def channel_send_or_register_def)
    from poll st(2) run(3) have "send_stage p t st"
      by (intro spec_stage_send_stage) (auto simp: tt f)
    with False st(2) r tt t run(1) f reach_step [OF reach en t] show ?thesis
      by (cases st) (auto simp: poll_send_def send_future_poll_def channel_send_access_def channel_send_or_register_def
          simp del: channel_exec.simps)
  qed
qed

lemma drop_send_run:
  assumes reach: "channel_reachable ops s" and f: "\<not> ch_is_closed (cy_chan s)" "cy_sends s = [p \<mapsto> f]"
  shows "returns (channel_exec ops (Ch_Drop_Send p) s) (\<lambda>t. channel_reachable ops t \<and>
    send_stage p t Idle \<and> cy_recvs t = cy_recvs s \<and> cy_received t = cy_received s)"
proof -
  from channel_reach_rep [OF ring_buf_axioms reach] obtain S where
    rep: "channel_sys_rep ops binv items s S" by blast
  note S = channel_sys_repD [OF rep]
  from f have en: "channel_enabled ops (Ch_Drop_Send p) s" by simp
  from channel_runs [OF reach en] obtain t where t: "channel_exec ops (Ch_Drop_Send p) s = Inr t" by blast
  from sends_okD [OF S(3), of p] f obtain e where e: "cp_sd S p = Some e" "sdf_wait_node f = p" by auto
  from channel_remove_send_refines [OF S(1) cp_invD(1) [OF S(2)] e(1)] obtain c where
    c: "channel_state_remove_send_waiter p (cy_chan s) = Inr c"
      "channel_abs ops binv items c (cp_remove_send p S)" by (auto simp: returns_iff)
  then have "\<not> ch_is_closed c"
    using f(1) S(1) by (auto simp: channel_abs_def cp_remove_send_def Let_def split: if_splits)
  with c(1) t f e(2) reach_step [OF reach en t] show ?thesis
    by (cases "sdf_channel f") (auto simp: send_future_drop_def channel_send_access_def send_stage_def)
qed

lemma receive_run:
  assumes reach: "channel_reachable ops s" and st: "send_stage p s st" and free: "cy_recvs s = Map.empty"
  shows "returns (channel_exec ops (Ch_Receive q) s) (\<lambda>t. channel_reachable ops t \<and>
    send_stage p t st \<and> cy_recvs t = [q \<mapsto> \<lparr>rf_channel = True, rf_wait_node = q\<rparr>] \<and> cy_received t = cy_received s)"
proof -
  from channel_reach_rep [OF ring_buf_axioms reach] obtain S where
    rep: "channel_sys_rep ops binv items s S" by blast
  have "cp_rd S q = None"
    using channel_sys_repD(4) [OF rep] free by (auto simp: recvs_ok_def)
  with channel_sys_repD(1) [OF rep] have "data_of (ch_recv_nodes (cy_chan s)) q = None"
    by (simp add: channel_abs_def)
  then have en: "channel_enabled ops (Ch_Receive q) s" by (simp add: data_of_def)
  from channel_runs [OF reach en] obtain t where t: "channel_exec ops (Ch_Receive q) s = Inr t" by blast
  with reach_step [OF reach en t] st free show ?thesis
    by (cases st) (auto simp: channel_receive_def send_stage_def)
qed

lemma poll_receive_run:
  assumes reach: "channel_reachable ops s" and st: "send_stage p s st"
    and f: "cy_recvs s q = Some f" "rf_channel f"
  shows "returns (poll_receive ops q cx s) (\<lambda>(r, t). channel_reachable ops t \<and>
    (r = Pending \<and> send_stage p t st \<and> cy_recvs t = cy_recvs s \<and> cy_received t = cy_received s \<or>
     (\<exists>v f. st = Offered v \<and> r = Ready (Some v) \<and> send_stage p t Taken \<and>
        cy_recvs t = (cy_recvs s)(q \<mapsto> f) \<and> cy_received t = cy_received s @ [v])))"
proof -
  from channel_reach_rep [OF ring_buf_axioms reach] obtain S where
    rep: "channel_sys_rep ops binv items s S" by blast
  note S = channel_sys_repD [OF rep]
  note spec = stage_spec [OF rep st]
  from f have en: "channel_enabled ops (Ch_Poll_Receive q cx) s" by (simp add: receive_future_is_terminated_def)
  from channel_runs [OF reach en] obtain t where t: "channel_exec ops (Ch_Poll_Receive q cx) s = Inr t" by blast
  from recvs_okD [OF S(4) f(1)] obtain e where e: "cp_rd S q = Some e" "rf_wait_node f = q" by auto
  from channel_receive_or_register_refines [OF S(1) cp_invD(1,2) [OF S(2)] e(1), of cx] obtain r c S' where
    run: "channel_state_receive_or_register ops q cx (cy_chan s) = Inr (r, c)"
      "cp_poll_recv q cx S = (r, S')" "channel_abs ops binv items c S'"
    by (auto simp: returns_iff)
  note poll = spec_stage_poll_recv [OF spec cp_invD(1) [OF S(2)] run(2)]
  then have "cy_sends t = cy_sends s \<and> cy_chan t = c"
    using t run(1) f e(2)
    by (auto simp: receive_future_poll_def channel_receive_access_def channel_receive_or_register_def)
  then have sends: "cy_sends t = cy_sends s" and chan: "cy_chan t = c" by simp_all
  have keep: "send_stage p t st'" if "spec_stage p S' st'" "st' = Idle \<longleftrightarrow> st = Idle" for st'
    using that run(3) st sends
    by (intro spec_stage_send_stage) (auto simp: chan send_stage_def split: stage.splits)
  from poll consider
    "r = Pending" "spec_stage p S' st"
    | v w where "st = Offered v" "r = Ready (Some (v, w))" "spec_stage p S' Taken" by blast
  then show ?thesis
    using t run(1) f e(2) reach_step [OF reach en t] keep
    by cases (auto simp: poll_receive_def receive_future_poll_def channel_receive_access_def
        channel_receive_or_register_def fun_upd_idem)
qed

lemma drop_receive_run:
  assumes reach: "channel_reachable ops s" and st: "send_stage p s st" and f: "cy_recvs s q = Some f"
  shows "returns (channel_exec ops (Ch_Drop_Receive q) s) (\<lambda>t. channel_reachable ops t \<and>
    send_stage p t st \<and> cy_recvs t = (cy_recvs s)(q := None) \<and> cy_received t = cy_received s)"
proof -
  from channel_reach_rep [OF ring_buf_axioms reach] obtain S where
    rep: "channel_sys_rep ops binv items s S" by blast
  note S = channel_sys_repD [OF rep]
  note spec = stage_spec [OF rep st]
  from f have en: "channel_enabled ops (Ch_Drop_Receive q) s" by simp
  from channel_runs [OF reach en] obtain t where t: "channel_exec ops (Ch_Drop_Receive q) s = Inr t" by blast
  from recvs_okD [OF S(4) f] obtain e where e: "cp_rd S q = Some e" "rf_wait_node f = q" by auto
  from channel_remove_recv_refines [OF S(1) cp_invD(2) [OF S(2)] e(1)] obtain w c S' where
    run: "channel_state_remove_receive_waiter q (cy_chan s) = Inr (w, c)"
      "cp_remove_recv q S = (w, S')" "channel_abs ops binv items c S'"
    by (auto simp: returns_iff)
  have "spec_stage p S' st"
    using run(2) spec
    by (cases "rw_state e") (auto simp: cp_remove_recv_def e(1) Let_def
        dest!: spec_stage_notifyD [where p = p and st = st])
  then have "send_stage p (s\<lparr>cy_chan := c\<rparr>) st"
    using run(3) st by (intro spec_stage_send_stage) (auto simp: send_stage_def split: stage.splits)
  with run(1) t f e(2) st reach_step [OF reach en t] show ?thesis
    by (cases "rf_channel f") (auto simp: receive_future_drop_def channel_receive_access_def
        channel_remove_receive_waiter_def send_stage_def split: stage.splits)
qed

end

text \<open>The channel of the crate without a buffer.\<close>

interpretation no_buf: unbuffered "array_buf_ops 0" "array_buf_inv 0" array_buf_items
  by unfold_locales (simp add: array_buf_capacity_inv array_buf_ops_def)

end
