(* ===== verification/Cancellation_Example.thy ===== *)
theory Cancellation_Example
  imports Rendezvous
begin

text \<open>
  \<^verbatim>\<open>src/examples/cancellation.rs\<close>: how the primitives work together. A producer sends values over a
  channel without a buffer to a checker, which pauses after each value; a manual reset event
  cancels the producer, which cancels the checker through a second event. The macros \<open>select!\<close> and
  \<open>join!\<close> come from another crate. All that is used of them is documented there: \<open>select!\<close> polls its
  futures in any order, runs the branch of the first that is ready and then drops all of them;
  \<open>join!\<close> polls its futures until all are done and returns their results. So an action is one poll
  of one future of a \<open>select!\<close>, or the code of a task up to its next \<open>select!\<close>, and the actions of
  the tasks, of the thread that cancels and of the one that drives the timer come in any order.
\<close>

section \<open>The tasks\<close>

record search_result =
  highest_fizz :: "usize option"
  highest_buzz :: "usize option"
  highest_fizzbuzz :: "usize option"

definition search_result_default :: search_result where
  "search_result_default = \<lparr>highest_fizz = None, highest_buzz = None, highest_fizzbuzz = None\<rparr>"

text \<open>What the checker does with a value.\<close>

definition check_value :: "usize \<Rightarrow> search_result \<Rightarrow> search_result" where
  "check_value v r =
     (case (v mod 3 = 0, v mod 5 = 0) of
        (True, True) \<Rightarrow> r\<lparr>highest_fizzbuzz := Some v\<rparr>
      | (True, False) \<Rightarrow> r\<lparr>highest_fizz := Some v\<rparr>
      | (False, True) \<Rightarrow> r\<lparr>highest_buzz := Some v\<rparr>
      | (False, False) \<Rightarrow> r)"

text \<open>
  Where a task is: before the next value, in the \<open>select!\<close> with it, after the loop. The checker has
  a second \<open>select!\<close>, in which it pauses.
\<close>

datatype producer_pc = Pr_Next usize | Pr_Select usize | Pr_Goodbye | Pr_Done

datatype checker_pc = Ck_Next | Ck_Select | Ck_Pause | Ck_Delay | Ck_Done

type_synonym unbuffered_channel = "(usize array_buf, usize) channel_sys"
type_synonym std_timer_service = "(instant \<times> std_clock) service_sys"

abbreviation unbuffered_ops :: "(usize array_buf, usize) ring_buf_ops" where
  "unbuffered_ops \<equiv> array_buf_ops 0"

record search =
  se_channel :: unbuffered_channel
  se_cancel :: event_sys
  se_stop :: event_sys
  se_timer :: std_timer_service
  se_producer :: producer_pc
  se_checker :: checker_pc
  se_result :: search_result

text \<open>Where the futures of the tasks lie.\<close>

abbreviation "send_at \<equiv> 2 :: addr"
abbreviation "cancel_at \<equiv> 3 :: addr"
abbreviation "receive_at \<equiv> 4 :: addr"
abbreviation "stop_at \<equiv> 5 :: addr"
abbreviation "delay_at \<equiv> 6 :: addr"

definition fizzbuzz_search :: "instant \<Rightarrow> search" where
  "fizzbuzz_search now =
     \<lparr>se_channel = channel_sys_new (channel_new unbuffered_ops), se_cancel = event_sys_new False,
      se_stop = event_sys_new False, se_timer = service_sys_new (now, std_clock_new now),
      se_producer = Pr_Next 1, se_checker = Ck_Next, se_result = search_result_default\<rparr>"

section \<open>The producer\<close>

text \<open>\<open>for value in 1..max\<close>: the next value and its \<open>select!\<close>, or the end of the loop.\<close>

definition producer_next :: "usize \<Rightarrow> usize \<Rightarrow> search \<Rightarrow> search res" where
  "producer_next limit v s =
     (if v < limit
      then and_then (channel_exec unbuffered_ops (Ch_Send send_at v) (se_channel s)) (\<lambda>ch.
           and_then (event_exec (Event_Wait cancel_at) (se_cancel s)) (\<lambda>ev.
           Inr (s\<lparr>se_channel := ch, se_cancel := ev, se_producer := Pr_Select v\<rparr>)))
      else Inr (s\<lparr>se_producer := Pr_Goodbye\<rparr>))"

text \<open>The end of the \<open>select!\<close>, where its futures are dropped.\<close>

definition producer_leave :: "producer_pc \<Rightarrow> search \<Rightarrow> search res" where
  "producer_leave pc s =
     and_then (channel_exec unbuffered_ops (Ch_Drop_Send send_at) (se_channel s)) (\<lambda>ch.
     and_then (event_exec (Event_Drop cancel_at) (se_cancel s)) (\<lambda>ev.
     Inr (s\<lparr>se_channel := ch, se_cancel := ev, se_producer := pc\<rparr>)))"

definition producer_poll_send :: "waker \<Rightarrow> usize \<Rightarrow> search \<Rightarrow> search res" where
  "producer_poll_send cx v s =
     and_then (poll_send unbuffered_ops send_at cx (se_channel s)) (\<lambda>(r, ch).
     let s = s\<lparr>se_channel := ch\<rparr> in
     case r of
       Pending \<Rightarrow> Inr s
     | Ready (Inl _) \<Rightarrow> Inl (Panic ''This can not happen in this example'')
     | Ready (Inr _) \<Rightarrow> producer_leave (Pr_Next (v + 1)) s)"

definition producer_poll_cancel :: "waker \<Rightarrow> search \<Rightarrow> search res" where
  "producer_poll_cancel cx s =
     and_then (poll_wait cancel_at cx (se_cancel s)) (\<lambda>(r, ev).
     let s = s\<lparr>se_cancel := ev\<rparr> in
     case r of Pending \<Rightarrow> Inr s | Ready _ \<Rightarrow> producer_leave Pr_Goodbye s)"

definition producer_goodbye :: "search \<Rightarrow> search res" where
  "producer_goodbye s =
     and_then (event_exec Event_Set (se_stop s)) (\<lambda>ev.
     Inr (s\<lparr>se_stop := ev, se_producer := Pr_Done\<rparr>))"

section \<open>The checker\<close>

definition checker_next :: "search \<Rightarrow> search res" where
  "checker_next s =
     and_then (channel_exec unbuffered_ops (Ch_Receive receive_at) (se_channel s)) (\<lambda>ch.
     and_then (event_exec (Event_Wait stop_at) (se_stop s)) (\<lambda>ev.
     Inr (s\<lparr>se_channel := ch, se_stop := ev, se_checker := Ck_Select\<rparr>)))"

definition checker_leave :: "checker_pc \<Rightarrow> search \<Rightarrow> search res" where
  "checker_leave pc s =
     and_then (channel_exec unbuffered_ops (Ch_Drop_Receive receive_at) (se_channel s)) (\<lambda>ch.
     and_then (event_exec (Event_Drop stop_at) (se_stop s)) (\<lambda>ev.
     Inr (s\<lparr>se_channel := ch, se_stop := ev, se_checker := pc\<rparr>)))"

definition checker_poll_receive :: "waker \<Rightarrow> search \<Rightarrow> search res" where
  "checker_poll_receive cx s =
     and_then (poll_receive unbuffered_ops receive_at cx (se_channel s)) (\<lambda>(r, ch).
     let s = s\<lparr>se_channel := ch\<rparr> in
     case r of
       Pending \<Rightarrow> Inr s
     | Ready None \<Rightarrow> Inl (Panic ''this is not allowed in this example'')
     | Ready (Some v) \<Rightarrow> checker_leave Ck_Pause (s\<lparr>se_result := check_value v (se_result s)\<rparr>))"

definition duration_from_millis :: "u64 \<Rightarrow> duration" where
  "duration_from_millis ms = \<lparr>dur_secs = ms div 1000, dur_nanos = ucast (ms mod 1000) * 1000000\<rparr>"

definition checker_pause :: "search \<Rightarrow> search res" where
  "checker_pause s =
     and_then (service_exec std_clock_ops (Svc_Call (Timer_Delay delay_at (duration_from_millis 1000))) (se_timer s)) (\<lambda>tv.
     and_then (event_exec (Event_Wait stop_at) (se_stop s)) (\<lambda>ev.
     Inr (s\<lparr>se_timer := tv, se_stop := ev, se_checker := Ck_Delay\<rparr>)))"

definition checker_resume :: "checker_pc \<Rightarrow> search \<Rightarrow> search res" where
  "checker_resume pc s =
     and_then (service_exec std_clock_ops (Svc_Call (Timer_Drop delay_at)) (se_timer s)) (\<lambda>tv.
     and_then (event_exec (Event_Drop stop_at) (se_stop s)) (\<lambda>ev.
     Inr (s\<lparr>se_timer := tv, se_stop := ev, se_checker := pc\<rparr>)))"

definition checker_poll_delay :: "waker \<Rightarrow> search \<Rightarrow> search res" where
  "checker_poll_delay cx s =
     and_then (poll_delay std_clock_ops delay_at cx (se_timer s)) (\<lambda>(r, tv).
     let s = s\<lparr>se_timer := tv\<rparr> in
     case r of Pending \<Rightarrow> Inr s | Ready _ \<Rightarrow> checker_resume Ck_Next s)"

definition checker_poll_stop :: "waker \<Rightarrow> search \<Rightarrow> search res" where
  "checker_poll_stop cx s =
     and_then (poll_wait stop_at cx (se_stop s)) (\<lambda>(r, ev).
     let s = s\<lparr>se_stop := ev\<rparr> in
     case r of
       Pending \<Rightarrow> Inr s
     | Ready _ \<Rightarrow> if se_checker s = Ck_Delay then checker_resume Ck_Done s else checker_leave Ck_Done s)"

section \<open>The other threads\<close>

text \<open>
  One thread sets the token once it has seen the signal, another drives the timer until the program
  ends. Both sleep in between, so an action is one round of their loops.
\<close>

definition signal_thread_cancel :: "search \<Rightarrow> search res" where
  "signal_thread_cancel s =
     and_then (event_exec Event_Set (se_cancel s)) (\<lambda>ev. Inr (s\<lparr>se_cancel := ev\<rparr>))"

definition timer_thread :: "search \<Rightarrow> search res" where
  "timer_thread s =
     and_then (service_exec std_clock_ops (Svc_Call Timer_Check) (se_timer s)) (\<lambda>tv. Inr (s\<lparr>se_timer := tv\<rparr>))"

section \<open>The program\<close>

datatype search_action =
    Sr_Next | Sr_Poll_Send waker | Sr_Poll_Cancel waker | Sr_Goodbye
  | Sr_Receive | Sr_Poll_Receive waker | Sr_Poll_Stop waker | Sr_Pause | Sr_Poll_Delay waker
  | Sr_Cancel | Sr_Time "instant \<times> std_clock" | Sr_Check_Expirations

fun search_enabled :: "search_action \<Rightarrow> search \<Rightarrow> bool" where
  "search_enabled Sr_Next s = (case se_producer s of Pr_Next _ \<Rightarrow> True | _ \<Rightarrow> False)"
| "search_enabled (Sr_Poll_Send cx) s = (case se_producer s of Pr_Select _ \<Rightarrow> True | _ \<Rightarrow> False)"
| "search_enabled (Sr_Poll_Cancel cx) s = (case se_producer s of Pr_Select _ \<Rightarrow> True | _ \<Rightarrow> False)"
| "search_enabled Sr_Goodbye s = (se_producer s = Pr_Goodbye)"
| "search_enabled Sr_Receive s = (se_checker s = Ck_Next)"
| "search_enabled (Sr_Poll_Receive cx) s = (se_checker s = Ck_Select)"
| "search_enabled (Sr_Poll_Stop cx) s = (se_checker s = Ck_Select \<or> se_checker s = Ck_Delay)"
| "search_enabled Sr_Pause s = (se_checker s = Ck_Pause)"
| "search_enabled (Sr_Poll_Delay cx) s = (se_checker s = Ck_Delay)"
| "search_enabled Sr_Cancel s = True"
| "search_enabled (Sr_Time c) s = std_later (gts_clock (tv_service (se_timer s))) c"
| "search_enabled Sr_Check_Expirations s = True"

fun search_exec :: "usize \<Rightarrow> search_action \<Rightarrow> search \<Rightarrow> search res" where
  "search_exec limit Sr_Next s = (case se_producer s of Pr_Next v \<Rightarrow> producer_next limit v s | _ \<Rightarrow> Inr s)"
| "search_exec limit (Sr_Poll_Send cx) s = (case se_producer s of Pr_Select v \<Rightarrow> producer_poll_send cx v s | _ \<Rightarrow> Inr s)"
| "search_exec limit (Sr_Poll_Cancel cx) s = producer_poll_cancel cx s"
| "search_exec limit Sr_Goodbye s = producer_goodbye s"
| "search_exec limit Sr_Receive s = checker_next s"
| "search_exec limit (Sr_Poll_Receive cx) s = checker_poll_receive cx s"
| "search_exec limit (Sr_Poll_Stop cx) s = checker_poll_stop cx s"
| "search_exec limit Sr_Pause s = checker_pause s"
| "search_exec limit (Sr_Poll_Delay cx) s = checker_poll_delay cx s"
| "search_exec limit Sr_Cancel s = signal_thread_cancel s"
| "search_exec limit (Sr_Time c) s =
     and_then (service_exec std_clock_ops (Svc_Tick c) (se_timer s)) (\<lambda>tv. Inr (s\<lparr>se_timer := tv\<rparr>))"
| "search_exec limit Sr_Check_Expirations s = timer_thread s"

abbreviation search_reachable :: "usize \<Rightarrow> search \<Rightarrow> bool" where
  "search_reachable limit \<equiv> reach (\<lambda>s. \<exists>now. s = fizzbuzz_search now) search_enabled (search_exec limit)"

abbreviation search_cancelled :: "search \<Rightarrow> bool" where
  "search_cancelled s \<equiv> ev_is_set (es_event (se_cancel s))"

section \<open>The invariant\<close>

text \<open>
  The futures that exist, and how far the send at hand is. The values received are those below
  \<open>n\<close>: the ones sent before the one at hand, and that one as soon as its send is complete.
\<close>

definition producer_at :: "usize \<Rightarrow> producer_pc \<Rightarrow> usize stage \<Rightarrow> nat \<Rightarrow> event_sys \<Rightarrow> bool" where
  "producer_at limit pc st n ev \<longleftrightarrow> 0 < n \<and> n \<le> max 1 (unat limit) \<and>
     es_futures ev = (case pc of Pr_Select _ \<Rightarrow> [cancel_at \<mapsto> \<lparr>wf_event = True, wf_wait_node = cancel_at\<rparr>] | _ \<Rightarrow> Map.empty) \<and>
     (case pc of
        Pr_Next v \<Rightarrow> st = Idle \<and> n = unat v
      | Pr_Select v \<Rightarrow> v < limit \<and> (event_done ev cancel_at \<longrightarrow> ev_is_set (es_event ev)) \<and>
          (st = Offered v \<and> n = unat v \<or> st = Taken \<and> n = unat v + 1)
      | _ \<Rightarrow> st = Idle \<and> (ev_is_set (es_event ev) \<or> n = max 1 (unat limit)))"

definition producer_ok :: "usize \<Rightarrow> producer_pc \<Rightarrow> unbuffered_channel \<Rightarrow> event_sys \<Rightarrow> bool" where
  "producer_ok limit pc ch ev \<longleftrightarrow>
     (\<exists>st n. send_stage send_at ch st \<and> map unat (cy_received ch) = [1..<n] \<and> producer_at limit pc st n ev)"

definition checker_ok ::
  "checker_pc \<Rightarrow> search_result \<Rightarrow> unbuffered_channel \<Rightarrow> event_sys \<Rightarrow> std_timer_service \<Rightarrow> bool" where
  "checker_ok pc r ch ev tv \<longleftrightarrow>
     cy_recvs ch = (if pc = Ck_Select then [receive_at \<mapsto> \<lparr>rf_channel = True, rf_wait_node = receive_at\<rparr>] else Map.empty) \<and>
     es_futures ev = (if pc = Ck_Select \<or> pc = Ck_Delay then [stop_at \<mapsto> \<lparr>wf_event = True, wf_wait_node = stop_at\<rparr>] else Map.empty) \<and>
     (pc = Ck_Select \<or> pc = Ck_Delay \<longrightarrow> event_done ev stop_at \<longrightarrow> ev_is_set (es_event ev)) \<and>
     tv_futures tv = (if pc = Ck_Delay then [delay_at \<mapsto> \<lparr>ltf_timer = True, ltf_wait_node = delay_at\<rparr>] else Map.empty) \<and>
     r = foldl (\<lambda>r v. check_value v r) search_result_default (cy_received ch)"

definition search_inv :: "usize \<Rightarrow> search \<Rightarrow> bool" where
  "search_inv limit s \<longleftrightarrow>
     channel_reachable unbuffered_ops (se_channel s) \<and> event_reachable False (se_cancel s) \<and>
     event_reachable False (se_stop s) \<and> service_reachable std_clock_ops std_later (se_timer s) \<and>
     producer_ok limit (se_producer s) (se_channel s) (se_cancel s) \<and>
     checker_ok (se_checker s) (se_result s) (se_channel s) (se_stop s) (se_timer s) \<and>
     (ev_is_set (es_event (se_stop s)) \<longleftrightarrow> se_producer s = Pr_Done) \<and>
     (se_checker s = Ck_Done \<longrightarrow> se_producer s = Pr_Done)"

lemma search_invI:
  assumes "channel_reachable unbuffered_ops (se_channel s)" "event_reachable False (se_cancel s)"
    "event_reachable False (se_stop s)" "service_reachable std_clock_ops std_later (se_timer s)"
    "producer_ok limit (se_producer s) (se_channel s) (se_cancel s)"
    "checker_ok (se_checker s) (se_result s) (se_channel s) (se_stop s) (se_timer s)"
    "ev_is_set (es_event (se_stop s)) \<longleftrightarrow> se_producer s = Pr_Done"
    "se_checker s = Ck_Done \<Longrightarrow> se_producer s = Pr_Done"
  shows "search_inv limit s"
  using assms by (simp add: search_inv_def)

lemma search_invD:
  assumes "search_inv limit s"
  shows "channel_reachable unbuffered_ops (se_channel s)" "event_reachable False (se_cancel s)"
    "event_reachable False (se_stop s)" "service_reachable std_clock_ops std_later (se_timer s)"
    "producer_ok limit (se_producer s) (se_channel s) (se_cancel s)"
    "checker_ok (se_checker s) (se_result s) (se_channel s) (se_stop s) (se_timer s)"
    "ev_is_set (es_event (se_stop s)) \<longleftrightarrow> se_producer s = Pr_Done"
    "se_checker s = Ck_Done \<Longrightarrow> se_producer s = Pr_Done"
  using assms by (simp_all add: search_inv_def)

lemma producer_okI:
  "send_stage send_at ch st \<Longrightarrow> map unat (cy_received ch) = [1..<n] \<Longrightarrow> producer_at limit pc st n ev \<Longrightarrow>
   producer_ok limit pc ch ev"
  by (auto simp: producer_ok_def)

lemma checker_ok_frame:
  "checker_ok pc r ch ev tv \<Longrightarrow> cy_recvs ch' = cy_recvs ch \<Longrightarrow> cy_received ch' = cy_received ch \<Longrightarrow>
   checker_ok pc r ch' ev tv"
  by (simp add: checker_ok_def)

section \<open>The steps of the producer keep the invariant\<close>

declare channel_exec.simps [simp del]
declare event_exec.simps [simp del]
declare service_exec.simps [simp del]
declare split_paired_Ex [simp del]

lemma search_inv_init: "search_inv limit (fizzbuzz_search now)"
proof -
  have "send_stage send_at (channel_sys_new (channel_new unbuffered_ops)) Idle"
    by (simp add: send_stage_def channel_sys_new_def channel_new_def channel_state_new_def)
  then show ?thesis
    by (intro search_invI producer_okI [where n = 1])
      (auto simp: fizzbuzz_search_def producer_at_def checker_ok_def channel_sys_new_def event_sys_new_def
        event_state_new_def service_sys_new_def channel_started_def intro!: reach_init)
qed

lemma producer_next_inv:
  assumes inv: "search_inv limit s" and pc: "se_producer s = Pr_Next v"
  shows "returns (producer_next limit v s) (search_inv limit)"
proof -
  note I = search_invD [OF inv]
  from I(5) pc have st: "send_stage send_at (se_channel s) Idle" "es_futures (se_cancel s) = Map.empty"
    "map unat (cy_received (se_channel s)) = [1..<unat v]" "0 < unat v" "unat v \<le> max 1 (unat limit)"
    by (auto simp: producer_ok_def producer_at_def)
  show ?thesis
  proof (cases "v < limit")
    case True
    then have "unat v < unat limit" by (simp add: word_less_nat_alt)
    with True I pc st show ?thesis
      by (auto simp: producer_next_def producer_at_def
          intro!: returns_mono [OF no_buf.send_run [OF I(1) st(1)]] returns_mono [OF wait_run [OF I(2) st(2)]]
            search_invI producer_okI [where st = "Offered v" and n = "unat v"] checker_ok_frame [OF I(6)])
  next
    case False
    with st(4,5) have "unat v = max 1 (unat limit)" by (auto simp: word_less_nat_alt)
    with False I pc st show ?thesis
      by (auto simp: producer_next_def producer_at_def intro!: search_invI producer_okI [where st = Idle])
  qed
qed

text \<open>Leaving the \<open>select!\<close>, from any stage of the send.\<close>

lemma producer_leave_inv:
  assumes inv: "channel_reachable unbuffered_ops (se_channel s)" "event_reachable False (se_cancel s)"
      "event_reachable False (se_stop s)" "service_reachable std_clock_ops std_later (se_timer s)"
      "checker_ok (se_checker s) (se_result s) (se_channel s) (se_stop s) (se_timer s)"
      "\<not> ev_is_set (es_event (se_stop s))" "se_checker s \<noteq> Ck_Done"
    and ch: "\<not> ch_is_closed (cy_chan (se_channel s))" "cy_sends (se_channel s) = [send_at \<mapsto> f]"
    and ev: "es_futures (se_cancel s) = [cancel_at \<mapsto> g]"
    and n: "map unat (cy_received (se_channel s)) = [1..<n]" "0 < n" "n \<le> max 1 (unat limit)"
    and pc: "pc = Pr_Next v \<and> n = unat v \<or> pc = Pr_Goodbye \<and> ev_is_set (es_event (se_cancel s))"
  shows "returns (producer_leave pc s) (\<lambda>t. search_inv limit t \<and> se_producer t = pc)"
proof -
  from ev have g: "es_futures (se_cancel s) cancel_at = Some g" by simp
  from pc inv(6) n ev show ?thesis
    by (auto simp: producer_leave_def producer_at_def inv
        intro!: returns_mono [OF no_buf.drop_send_run [OF inv(1) ch]] returns_mono [OF drop_wait_run [OF inv(2) g]]
          search_invI producer_okI [where st = Idle and n = n] checker_ok_frame [OF inv(5)])
qed

lemma producer_poll_send_inv:
  assumes inv: "search_inv limit s" and pc: "se_producer s = Pr_Select v"
  shows "returns (producer_poll_send cx v s) (search_inv limit)"
proof -
  note I = search_invD [OF inv]
  from I(5) pc obtain st n where st: "send_stage send_at (se_channel s) st"
    "es_futures (se_cancel s) = [cancel_at \<mapsto> \<lparr>wf_event = True, wf_wait_node = cancel_at\<rparr>]"
    "map unat (cy_received (se_channel s)) = [1..<n]" "0 < n" "n \<le> max 1 (unat limit)" "v < limit"
    "st = Offered v \<and> n = unat v \<or> st = Taken \<and> n = unat v + 1"
    "event_done (se_cancel s) cancel_at \<longrightarrow> search_cancelled s"
    by (auto simp: producer_ok_def producer_at_def)
  from st(7) have live: "st \<noteq> Idle" by auto
  have running: "\<not> ev_is_set (es_event (se_stop s))" "se_checker s \<noteq> Ck_Done" using I(7,8) pc by auto
  from st(6) have up: "unat (v + 1) = unat v + 1"
    using unat_usize_less [of limit] unat_add_no_overflow [of v 1] by (simp add: word_less_nat_alt)
  show ?thesis
  proof (cases "st = Taken")
    case True
    with st(7) have n: "n = unat v + 1" by simp
    show ?thesis
      unfolding producer_poll_send_def Let_def
      using True I running st(2-6) n up pc
      by (auto intro!: returns_mono [OF no_buf.poll_send_run [OF I(1) st(1) live]]
          returns_mono [OF producer_leave_inv [where n = n and v = "v + 1"]] checker_ok_frame [OF I(6)])
  next
    case False
    with st(7) have "st = Offered v" "n = unat v" by auto
    with I running st(2-6,8) pc show ?thesis
      unfolding producer_poll_send_def Let_def
      by (auto simp: producer_at_def intro!: returns_mono [OF no_buf.poll_send_run [OF I(1) st(1) live]]
          search_invI producer_okI [where st = "Offered v" and n = "unat v"] checker_ok_frame [OF I(6)])
  qed
qed

lemma producer_poll_cancel_inv:
  assumes inv: "search_inv limit s" and pc: "se_producer s = Pr_Select v"
  shows "returns (producer_poll_cancel cx s) (\<lambda>t. search_inv limit t \<and>
    (search_cancelled s \<longrightarrow> se_producer t = Pr_Goodbye))"
proof -
  note I = search_invD [OF inv]
  let ?f = "\<lparr>wf_event = True, wf_wait_node = cancel_at\<rparr>"
  from I(5) pc obtain st n where st: "send_stage send_at (se_channel s) st" "es_futures (se_cancel s) = [cancel_at \<mapsto> ?f]"
    "map unat (cy_received (se_channel s)) = [1..<n]" "0 < n" "n \<le> max 1 (unat limit)" "v < limit"
    "st = Offered v \<and> n = unat v \<or> st = Taken \<and> n = unat v + 1"
    "event_done (se_cancel s) cancel_at \<longrightarrow> search_cancelled s"
    by (auto simp: producer_ok_def producer_at_def)
  have running: "\<not> ev_is_set (es_event (se_stop s))" "se_checker s \<noteq> Ck_Done" using I(7,8) pc by auto
  from st(1,7) have ch: "\<not> ch_is_closed (cy_chan (se_channel s))"
    "cy_sends (se_channel s) = [send_at \<mapsto> \<lparr>sdf_channel = True, sdf_wait_node = send_at\<rparr>]"
    by (auto simp: send_stage_def)
  show ?thesis
    unfolding producer_poll_cancel_def Let_def
    using I running ch st pc
    by (auto simp: producer_at_def split: poll.splits
        intro!: returns_mono [OF poll_wait_run [OF I(2), of cancel_at ?f]] search_invI
          returns_mono [OF producer_leave_inv [where n = n and f = "\<lparr>sdf_channel = True, sdf_wait_node = send_at\<rparr>"]]
          producer_okI [where st = st and n = n])
qed

lemma producer_goodbye_inv:
  assumes inv: "search_inv limit s" and pc: "se_producer s = Pr_Goodbye"
  shows "returns (producer_goodbye s) (\<lambda>t. search_inv limit t \<and> se_producer t = Pr_Done)"
proof -
  note I = search_invD [OF inv]
  from I(5) pc have "producer_ok limit Pr_Done (se_channel s) (se_cancel s)"
    by (simp add: producer_ok_def producer_at_def)
  with I show ?thesis
    by (auto simp: producer_goodbye_def checker_ok_def intro!: returns_mono [OF event_set_run [OF I(3)]] search_invI)
qed

section \<open>The steps of the checker keep the invariant\<close>

lemma producer_okD:
  "producer_ok limit pc ch ev \<Longrightarrow>
   \<exists>st n. send_stage send_at ch st \<and> map unat (cy_received ch) = [1..<n] \<and> producer_at limit pc st n ev"
  by (simp add: producer_ok_def)

lemma checker_next_inv:
  assumes inv: "search_inv limit s" and pc: "se_checker s = Ck_Next"
  shows "returns (checker_next s) (search_inv limit)"
proof -
  note I = search_invD [OF inv]
  from producer_okD [OF I(5)] obtain st n where st: "send_stage send_at (se_channel s) st"
    "map unat (cy_received (se_channel s)) = [1..<n]" "producer_at limit (se_producer s) st n (se_cancel s)" by blast
  from I(6) pc have free: "cy_recvs (se_channel s) = Map.empty" "es_futures (se_stop s) = Map.empty"
    by (simp_all add: checker_ok_def)
  from I pc st show ?thesis
    by (auto simp: checker_next_def checker_ok_def
        intro!: returns_mono [OF no_buf.receive_run [OF I(1) st(1) free(1)]] returns_mono [OF wait_run [OF I(3) free(2)]]
          search_invI producer_okI [where st = st and n = n])
qed

text \<open>Leaving either \<open>select!\<close>.\<close>

lemma checker_leave_inv:
  assumes inv: "channel_reachable unbuffered_ops (se_channel s)" "event_reachable False (se_cancel s)"
      "event_reachable False (se_stop s)" "service_reachable std_clock_ops std_later (se_timer s)"
      "ev_is_set (es_event (se_stop s)) \<longleftrightarrow> se_producer s = Pr_Done"
    and st: "send_stage send_at (se_channel s) st" "map unat (cy_received (se_channel s)) = [1..<n]"
      "producer_at limit (se_producer s) st n (se_cancel s)"
    and f: "cy_recvs (se_channel s) = [receive_at \<mapsto> f]" "es_futures (se_stop s) = [stop_at \<mapsto> g]"
      "tv_futures (se_timer s) = Map.empty"
      "se_result s = foldl (\<lambda>r v. check_value v r) search_result_default (cy_received (se_channel s))"
    and pc: "pc = Ck_Pause \<or> pc = Ck_Done \<and> se_producer s = Pr_Done"
  shows "returns (checker_leave pc s) (\<lambda>t. search_inv limit t \<and> se_checker t = pc)"
proof -
  from f have live: "cy_recvs (se_channel s) receive_at = Some f" "es_futures (se_stop s) stop_at = Some g" by simp_all
  from inv st f pc show ?thesis
    by (auto simp: checker_leave_def checker_ok_def
        intro!: returns_mono [OF no_buf.drop_receive_run [OF inv(1) st(1) live(1)]]
          returns_mono [OF drop_wait_run [OF inv(3) live(2)]] search_invI producer_okI [where st = st and n = n])
qed

lemma checker_resume_inv:
  assumes inv: "channel_reachable unbuffered_ops (se_channel s)" "event_reachable False (se_cancel s)"
      "event_reachable False (se_stop s)" "service_reachable std_clock_ops std_later (se_timer s)"
      "ev_is_set (es_event (se_stop s)) \<longleftrightarrow> se_producer s = Pr_Done"
      "producer_ok limit (se_producer s) (se_channel s) (se_cancel s)"
    and f: "cy_recvs (se_channel s) = Map.empty" "es_futures (se_stop s) = [stop_at \<mapsto> g]"
      "tv_futures (se_timer s) = [delay_at \<mapsto> f]"
      "se_result s = foldl (\<lambda>r v. check_value v r) search_result_default (cy_received (se_channel s))"
    and pc: "pc = Ck_Next \<or> pc = Ck_Done \<and> se_producer s = Pr_Done"
  shows "returns (checker_resume pc s) (\<lambda>t. search_inv limit t \<and> se_checker t = pc)"
proof -
  from f have live: "tv_futures (se_timer s) delay_at = Some f" "es_futures (se_stop s) stop_at = Some g" by simp_all
  from inv f pc show ?thesis
    by (auto simp: checker_resume_def checker_ok_def
        intro!: returns_mono [OF std.drop_delay_run [OF inv(4) live(1)]]
          returns_mono [OF drop_wait_run [OF inv(3) live(2)]] search_invI)
qed

lemma checker_pause_inv:
  assumes inv: "search_inv limit s" and pc: "se_checker s = Ck_Pause"
  shows "returns (checker_pause s) (search_inv limit)"
proof -
  note I = search_invD [OF inv]
  from I(6) pc have free: "tv_futures (se_timer s) = Map.empty" "es_futures (se_stop s) = Map.empty"
    by (simp_all add: checker_ok_def)
  from I pc show ?thesis
    by (auto simp: checker_pause_def checker_ok_def
        intro!: returns_mono [OF std.delay_run [OF I(4) free(1)]] returns_mono [OF wait_run [OF I(3) free(2)]] search_invI)
qed

lemma checker_poll_delay_inv:
  assumes inv: "search_inv limit s" and pc: "se_checker s = Ck_Delay"
  shows "returns (checker_poll_delay cx s) (search_inv limit)"
proof -
  note I = search_invD [OF inv]
  let ?f = "\<lparr>ltf_timer = True, ltf_wait_node = delay_at\<rparr>" and ?g = "\<lparr>wf_event = True, wf_wait_node = stop_at\<rparr>"
  from I(6) pc have f: "tv_futures (se_timer s) = [delay_at \<mapsto> ?f]" "es_futures (se_stop s) = [stop_at \<mapsto> ?g]"
    by (simp_all add: checker_ok_def)
  from I pc f show ?thesis
    unfolding checker_poll_delay_def Let_def
    by (auto simp: checker_ok_def split: poll.splits
        intro!: returns_mono [OF std.poll_delay_run [OF I(4), of delay_at ?f]]
          returns_mono [OF checker_resume_inv [where g = ?g]]
          search_invI)
qed

text \<open>A value is taken from the producer: its send is complete.\<close>

lemma producer_at_taken:
  assumes "producer_at limit pc (Offered v) n ev" "map unat xs = [1..<n]"
  shows "producer_at limit pc Taken (n + 1) ev \<and> map unat (xs @ [v]) = [1..<n + 1]"
proof -
  from assms have n: "pc = Pr_Select v" "n = unat v" "0 < n" "v < limit"
    by (cases pc; simp add: producer_at_def)+
  then have "n + 1 \<le> unat limit" by (simp add: word_less_nat_alt)
  with assms n show ?thesis by (auto simp: producer_at_def)
qed

lemma checker_poll_receive_inv:
  assumes inv: "search_inv limit s" and pc: "se_checker s = Ck_Select"
  shows "returns (checker_poll_receive cx s) (search_inv limit)"
proof -
  note I = search_invD [OF inv]
  let ?f = "\<lparr>rf_channel = True, rf_wait_node = receive_at\<rparr>" and ?g = "\<lparr>wf_event = True, wf_wait_node = stop_at\<rparr>"
  from producer_okD [OF I(5)] obtain st n where st: "send_stage send_at (se_channel s) st"
    "map unat (cy_received (se_channel s)) = [1..<n]" "producer_at limit (se_producer s) st n (se_cancel s)" by blast
  from I(6) pc have f: "cy_recvs (se_channel s) = [receive_at \<mapsto> ?f]" "es_futures (se_stop s) = [stop_at \<mapsto> ?g]"
    "tv_futures (se_timer s) = Map.empty"
    "se_result s = foldl (\<lambda>r v. check_value v r) search_result_default (cy_received (se_channel s))"
    by (simp_all add: checker_ok_def)
  have taken: "returns (checker_leave Ck_Pause (s\<lparr>se_channel := ch, se_result := r\<rparr>)) (search_inv limit)"
    if "r = check_value v (se_result s)" "st = Offered v" "channel_reachable unbuffered_ops ch" "send_stage send_at ch Taken"
      "cy_recvs ch = [receive_at \<mapsto> f']" "cy_received ch = cy_received (se_channel s) @ [v]" for ch v f' r
    using producer_at_taken [OF st(3) [unfolded that(2)] st(2)] that I f(2,3,4)
    by (intro returns_mono [OF checker_leave_inv [where st = Taken and n = "n + 1" and f = f' and g = ?g]]) auto
  show ?thesis
    unfolding checker_poll_receive_def Let_def
    using I pc st f
    by (auto simp: checker_ok_def split: poll.splits option.splits intro!: taken
        returns_mono [OF no_buf.poll_receive_run [OF I(1) st(1), of receive_at ?f]] search_invI
        producer_okI [where st = st and n = n])
qed

lemma checker_poll_stop_inv:
  assumes inv: "search_inv limit s" and pc: "se_checker s = Ck_Select \<or> se_checker s = Ck_Delay"
  shows "returns (checker_poll_stop cx s) (\<lambda>t. search_inv limit t \<and>
    (se_producer s = Pr_Done \<longrightarrow> se_checker t = Ck_Done))"
proof -
  note I = search_invD [OF inv]
  let ?g = "\<lparr>wf_event = True, wf_wait_node = stop_at\<rparr>"
  from producer_okD [OF I(5)] obtain st n where st: "send_stage send_at (se_channel s) st"
    "map unat (cy_received (se_channel s)) = [1..<n]" "producer_at limit (se_producer s) st n (se_cancel s)" by blast
  from I(6) pc have g: "es_futures (se_stop s) = [stop_at \<mapsto> ?g]"
    "event_done (se_stop s) stop_at \<longrightarrow> ev_is_set (es_event (se_stop s))"
    "se_result s = foldl (\<lambda>r v. check_value v r) search_result_default (cy_received (se_channel s))"
    by (auto simp: checker_ok_def)
  show ?thesis
  proof (cases "se_checker s = Ck_Delay")
    case True
    with I(6) have f: "cy_recvs (se_channel s) = Map.empty"
      "tv_futures (se_timer s) = [delay_at \<mapsto> \<lparr>ltf_timer = True, ltf_wait_node = delay_at\<rparr>]"
      by (simp_all add: checker_ok_def)
    with True I g show ?thesis
      unfolding checker_poll_stop_def Let_def
      by (auto simp: checker_ok_def split: poll.splits
          intro!: returns_mono [OF poll_wait_run [OF I(3), of stop_at ?g]] search_invI
            returns_mono [OF checker_resume_inv [where f = "\<lparr>ltf_timer = True, ltf_wait_node = delay_at\<rparr>"]])
  next
    case False
    with pc I(6) have f: "cy_recvs (se_channel s) = [receive_at \<mapsto> \<lparr>rf_channel = True, rf_wait_node = receive_at\<rparr>]"
      "tv_futures (se_timer s) = Map.empty" "se_checker s = Ck_Select"
      by (simp_all add: checker_ok_def)
    with st I g show ?thesis
      unfolding checker_poll_stop_def Let_def
      by (auto simp: checker_ok_def split: poll.splits
          intro!: returns_mono [OF poll_wait_run [OF I(3), of stop_at ?g]] search_invI
            returns_mono [OF checker_leave_inv [where f = "\<lparr>rf_channel = True, rf_wait_node = receive_at\<rparr>"
              and st = st and n = n]])
  qed
qed

section \<open>The steps of the other threads keep the invariant\<close>

lemma search_cancel_inv:
  assumes inv: "search_inv limit s"
  shows "returns (search_exec limit Sr_Cancel s) (search_inv limit)"
proof -
  note I = search_invD [OF inv]
  have "producer_ok limit (se_producer s) (se_channel s) ev"
    if "ev_is_set (es_event ev)" "es_futures ev = es_futures (se_cancel s)" for ev
    using producer_okD [OF I(5)] that
    by (auto simp: producer_at_def intro!: producer_okI split: producer_pc.splits)
  with I show ?thesis
    by (auto simp: signal_thread_cancel_def intro!: returns_mono [OF event_set_run [OF I(2)]] search_invI)
qed

lemma search_time_inv:
  assumes inv: "search_inv limit s" and later: "std_later (gts_clock (tv_service (se_timer s))) c"
  shows "returns (search_exec limit (Sr_Time c) s) (search_inv limit)"
  using search_invD [OF inv] std.tick_reach [OF _ later]
  by (auto simp: service_exec.simps checker_ok_def intro!: search_invI)

lemma search_check_inv:
  assumes inv: "search_inv limit s"
  shows "returns (search_exec limit Sr_Check_Expirations s) (search_inv limit)"
proof -
  note I = search_invD [OF inv]
  then show ?thesis
    by (auto simp: timer_thread_def checker_ok_def intro!: returns_mono [OF std.check_run [OF I(4)]] search_invI)
qed

text \<open>Every action of the program returns and keeps the invariant.\<close>

interpretation srch: transition_system "\<lambda>s. \<exists>now. s = fizzbuzz_search now" search_enabled "search_exec limit"
  "search_inv limit" for limit
proof unfold_locales
  show "search_inv limit s" if "\<exists>now. s = fizzbuzz_search now" for s
    using that search_inv_init by blast
  show "returns (search_exec limit a s) (search_inv limit)" if inv: "search_inv limit s" and en: "search_enabled a s" for a s
  proof (cases a)
    case Sr_Next
    with en show ?thesis by (auto intro: producer_next_inv [OF inv] split: producer_pc.splits)
  next
    case (Sr_Poll_Send cx)
    with en show ?thesis by (auto intro: producer_poll_send_inv [OF inv] split: producer_pc.splits)
  next
    case (Sr_Poll_Cancel cx)
    with en show ?thesis
      by (auto intro: returns_mono [OF producer_poll_cancel_inv [OF inv]] split: producer_pc.splits)
  next
    case (Sr_Poll_Stop cx)
    with en show ?thesis by (auto intro: returns_mono [OF checker_poll_stop_inv [OF inv]])
  next
    case Sr_Goodbye
    with en show ?thesis by (auto intro: returns_mono [OF producer_goodbye_inv [OF inv]])
  qed (use en in \<open>auto intro: checker_next_inv [OF inv] checker_poll_receive_inv [OF inv] checker_pause_inv [OF inv]
      checker_poll_delay_inv [OF inv] search_cancel_inv [OF inv] search_time_inv [OF inv] search_check_inv [OF inv]
      simp del: search_exec.simps(10-12)\<close>)
qed

section \<open>The result\<close>

text \<open>What the program looks for: the greatest number up to \<open>k\<close> with a property.\<close>

definition greatest_upto :: "(nat \<Rightarrow> bool) \<Rightarrow> nat \<Rightarrow> nat option" where
  "greatest_upto P k = (case filter P (rev [1..<Suc k]) of [] \<Rightarrow> None | n # _ \<Rightarrow> Some n)"

definition search_summary :: "nat \<Rightarrow> search_result \<Rightarrow> bool" where
  "search_summary k r \<longleftrightarrow>
     map_option unat (highest_fizz r) = greatest_upto (\<lambda>n. 3 dvd n \<and> \<not> 5 dvd n) k \<and>
     map_option unat (highest_buzz r) = greatest_upto (\<lambda>n. 5 dvd n \<and> \<not> 3 dvd n) k \<and>
     map_option unat (highest_fizzbuzz r) = greatest_upto (\<lambda>n. 3 dvd n \<and> 5 dvd n) k"

lemma greatest_upto_simps [simp]:
  "greatest_upto P 0 = None"
  "greatest_upto P (Suc k) = (if P (Suc k) then Some (Suc k) else greatest_upto P k)"
  by (simp_all add: greatest_upto_def)

lemma word_mod_zero: "(v :: usize) mod 3 = 0 \<longleftrightarrow> 3 dvd unat v" "(v :: usize) mod 5 = 0 \<longleftrightarrow> 5 dvd unat v"
  by (simp_all add: word_unat_eq_iff unat_mod dvd_eq_mod_eq_0)

lemma check_values_summary:
  "map unat vs = [1..<Suc k] \<Longrightarrow>
   search_summary k (foldl (\<lambda>r v. check_value v r) search_result_default vs)"
proof (induction k arbitrary: vs)
  case 0
  then show ?case by (simp add: search_summary_def search_result_default_def)
next
  case (Suc k)
  then have "map unat vs = [1..<Suc k] @ [Suc k]" by simp
  then obtain ws v where vs: "vs = ws @ [v]" "map unat ws = [1..<Suc k]" "unat v = Suc k"
    by (auto simp: map_eq_append_conv)
  from Suc.IH [OF vs(2)] show ?case
    by (auto simp: vs(1,3) search_summary_def check_value_def word_mod_zero)
qed

text \<open>
  C12: the search returns the right result, cancelled or not. When both tasks are done, the checker
  has received the values from 1 up to some \<open>k\<close> below the limit, each once and in order, and the
  result holds the greatest number up to \<open>k\<close> in each category; without a cancellation \<open>k\<close> is the last
  value of the search. Every value whose send was reported complete has been checked, whatever the
  order in which the futures of the tasks are polled and the moment of the cancellation.
\<close>

theorem search_results_correct:
  assumes "search_reachable limit s" "se_producer s = Pr_Done" "se_checker s = Ck_Done"
  shows "\<exists>k. map unat (cy_received (se_channel s)) = [1..<Suc k] \<and> k \<le> unat limit - 1 \<and>
    (\<not> search_cancelled s \<longrightarrow> k = unat limit - 1) \<and> search_summary k (se_result s)"
proof -
  note I = search_invD [OF srch.reach_inv [OF assms(1)]]
  from producer_okD [OF I(5)] assms(2) obtain n where
    n: "map unat (cy_received (se_channel s)) = [1..<n]" "0 < n" "n \<le> max 1 (unat limit)"
      "search_cancelled s \<or> n = max 1 (unat limit)"
    by (auto simp: producer_at_def)
  then have "Suc (n - 1) = n" by simp
  with n I(6) check_values_summary [of "cy_received (se_channel s)" "n - 1"] show ?thesis
    by (intro exI [of _ "n - 1"]) (auto simp: checker_ok_def max_def split: if_splits)
qed

lemmas search_eval =
  fizzbuzz_search_def producer_next_def producer_leave_def producer_poll_send_def producer_poll_cancel_def
  producer_goodbye_def checker_next_def checker_leave_def checker_poll_receive_def checker_pause_def
  checker_resume_def checker_poll_delay_def checker_poll_stop_def signal_thread_cancel_def timer_thread_def

abbreviation search_demo_acts :: "search_action list" where
  "search_demo_acts \<equiv>
     [Sr_Next, Sr_Receive, Sr_Poll_Send (Waker 0 0), Sr_Poll_Receive (Waker 0 0), Sr_Poll_Send (Waker 0 0),
      Sr_Next, Sr_Goodbye, Sr_Pause, Sr_Poll_Stop (Waker 0 0)]"

lemma search_demo_run:
  "\<exists>s. exec_all search_enabled (search_exec 2) search_demo_acts (fizzbuzz_search 7) = Some s \<and>
     se_producer s = Pr_Done \<and> se_checker s = Ck_Done"
  by (simp add: search_eval poll_send_def poll_receive_def poll_wait_def Let_def channel_exec.simps event_exec.simps
      service_exec.simps channel_eval event_eval ll_eval service_sys_new_def timer_service_new_def
      channel_new_def array_buf_ops_def array_buf_new_def array_buf_can_push_def array_buf_len_def
      array_buf_capacity_def send_future_drop_def receive_future_drop_def channel_state_remove_send_waiter_def
      channel_state_remove_receive_waiter_def channel_remove_receive_waiter_def
      timer_eval service_deadline_from_now_def access_future_drop_def service_access_def service_remove_waiter_def
      timer_remove_waiter_def)

theorem search_results_correct_witness:
  "\<exists>s k. search_reachable 2 s \<and> map unat (cy_received (se_channel s)) = [1..<Suc k] \<and> k \<le> 1 \<and>
     search_summary k (se_result s)"
proof -
  from search_demo_run obtain s where
    s: "exec_all search_enabled (search_exec 2) search_demo_acts (fizzbuzz_search 7) = Some s"
      "se_producer s = Pr_Done" "se_checker s = Ck_Done" by blast
  have reach: "search_reachable 2 s" by (rule exec_all_reach [OF s(1) reach_init]) blast
  have "unat (2 :: usize) - 1 = 1" by simp
  with search_results_correct [OF reach s(2,3)] reach show ?thesis by metis
qed

text \<open>No future of the search is alive.\<close>

definition search_idle :: "search \<Rightarrow> bool" where
  "search_idle s \<longleftrightarrow> cy_sends (se_channel s) = Map.empty \<and> cy_recvs (se_channel s) = Map.empty \<and>
     es_futures (se_cancel s) = Map.empty \<and> es_futures (se_stop s) = Map.empty \<and> tv_futures (se_timer s) = Map.empty"

lemma search_done_idle:
  assumes "search_inv limit s" "se_producer s = Pr_Done" "se_checker s = Ck_Done"
  shows "search_idle s"
  using search_invD(5,6) [OF assms(1)] assms(2,3)
  by (auto simp: search_idle_def producer_ok_def producer_at_def checker_ok_def send_stage_def)

text \<open>
  A schedule in which each task, once it is cancelled, polls the event of its \<open>select!\<close> first, and
  how many actions it has to go.
\<close>

fun producer_ends :: "waker \<Rightarrow> producer_pc \<Rightarrow> search_action list" where
  "producer_ends cx (Pr_Next v) = [Sr_Next]"
| "producer_ends cx (Pr_Select v) = [Sr_Poll_Cancel cx]"
| "producer_ends cx Pr_Goodbye = [Sr_Goodbye]"
| "producer_ends cx Pr_Done = []"

fun checker_ends :: "waker \<Rightarrow> checker_pc \<Rightarrow> search_action list" where
  "checker_ends cx Ck_Next = [Sr_Receive]"
| "checker_ends cx Ck_Pause = [Sr_Pause]"
| "checker_ends cx Ck_Done = []"
| "checker_ends cx _ = [Sr_Poll_Stop cx]"

fun producer_to_go :: "producer_pc \<Rightarrow> nat" where
  "producer_to_go (Pr_Next v) = 3"
| "producer_to_go (Pr_Select v) = 2"
| "producer_to_go Pr_Goodbye = 1"
| "producer_to_go Pr_Done = 0"

fun checker_to_go :: "checker_pc \<Rightarrow> nat" where
  "checker_to_go Ck_Next = 2"
| "checker_to_go Ck_Pause = 2"
| "checker_to_go Ck_Done = 0"
| "checker_to_go _ = 1"

definition search_to_go :: "search \<Rightarrow> nat" where
  "search_to_go s = producer_to_go (se_producer s) + checker_to_go (se_checker s)"

definition search_ends :: "waker \<Rightarrow> search \<Rightarrow> search_action list" where
  "search_ends cx s = producer_ends cx (se_producer s) @ checker_ends cx (se_checker s)"

lemma poll_wait_exec: "poll_wait a cx s = Inr (r, t) \<Longrightarrow> event_exec (Event_Poll a cx) s = Inr t"
  by (auto simp: poll_wait_def and_then_eq_Inr)

lemmas event_call_stays_set =
  event_stays_set [where act = "Event_Wait a" for a, simplified] event_stays_set [where act = "Event_Drop a" for a, simplified]
  event_stays_set [where act = "Event_Poll a cx" for a cx, simplified] event_stays_set [where act = Event_Set, simplified]

lemma search_stays_cancelled:
  assumes "search_exec limit act s = Inr t" "search_cancelled s"
  shows "search_cancelled t"
proof -
  have leave: "search_cancelled t" if "producer_leave pc s = Inr t" "search_cancelled s" for pc s t
    using that event_call_stays_set(2) by (auto simp: producer_leave_def and_then_eq_Inr)
  have "search_cancelled t" if "producer_poll_cancel cx s = Inr t" for cx
  proof -
    from that obtain r ev where ev: "poll_wait cancel_at cx (se_cancel s) = Inr (r, ev)"
      "(case r of Pending \<Rightarrow> Inr (s\<lparr>se_cancel := ev\<rparr>) | Ready _ \<Rightarrow> producer_leave Pr_Goodbye (s\<lparr>se_cancel := ev\<rparr>)) = Inr t"
      by (auto simp: producer_poll_cancel_def Let_def and_then_eq_Inr)
    have "ev_is_set (es_event ev)" by (rule event_call_stays_set(3) [OF poll_wait_exec [OF ev(1)] assms(2)])
    with ev(2) leave [of Pr_Goodbye "s\<lparr>se_cancel := ev\<rparr>" t] show ?thesis by (auto split: poll.splits)
  qed
  moreover have "search_cancelled t" if "producer_poll_send cx v s = Inr t" for cx v
    using that assms(2)
    by (auto simp: producer_poll_send_def Let_def and_then_eq_Inr split: poll.splits sum.splits
        dest: leave [where s = "s\<lparr>se_channel := ch\<rparr>" for ch, simplified])
  ultimately show ?thesis
    using assms event_call_stays_set
    by (cases act)
      (auto simp: producer_next_def producer_goodbye_def checker_next_def checker_leave_def checker_poll_receive_def
        checker_pause_def checker_resume_def checker_poll_delay_def checker_poll_stop_def signal_thread_cancel_def timer_thread_def
        and_then_eq_Inr Let_def
        split: producer_pc.splits if_splits poll.splits option.splits)
qed

lemma search_ends_step:
  assumes inv: "search_inv limit s" and cancelled: "search_cancelled s" and todo: "search_ends cx s = act # acts"
  shows "search_enabled act s \<and> returns (search_exec limit act s) (\<lambda>t. search_inv limit t \<and> search_cancelled t \<and>
    search_to_go t < search_to_go s)"
proof -
  have en: "search_enabled act s"
    using todo by (cases "se_producer s"; cases "se_checker s") (auto simp: search_ends_def)
  from srch.exec_inv [OF inv en] obtain t where t: "search_exec limit act s = Inr t" "search_inv limit t"
    by (auto simp: returns_iff)
  have "search_to_go t < search_to_go s"
  proof (cases "se_producer s")
    case (Pr_Next v)
    with todo t(1) show ?thesis
      by (auto simp: search_ends_def search_to_go_def producer_next_def and_then_eq_Inr split: if_splits)
  next
    case (Pr_Select v)
    with todo have act: "act = Sr_Poll_Cancel cx" by (simp add: search_ends_def)
    with producer_poll_cancel_inv [OF inv Pr_Select, of cx] t(1) cancelled have "se_producer t = Pr_Goodbye" by simp
    moreover have "se_checker t = se_checker s"
      using t(1) act by (auto simp: search_eval Let_def and_then_eq_Inr split: poll.splits)
    ultimately show ?thesis using Pr_Select by (simp add: search_to_go_def)
  next
    case Pr_Goodbye
    with todo t(1) show ?thesis
      by (auto simp: search_ends_def search_to_go_def producer_goodbye_def and_then_eq_Inr)
  next
    case Pr_Done
    show ?thesis
    proof (cases "se_checker s = Ck_Select \<or> se_checker s = Ck_Delay")
      case True
      with Pr_Done todo have act: "act = Sr_Poll_Stop cx" by (auto simp: search_ends_def)
      with checker_poll_stop_inv [OF inv True, of cx] t(1) Pr_Done have "se_checker t = Ck_Done" by simp
      moreover have "se_producer t = se_producer s"
        using t(1) act by (auto simp: search_eval Let_def and_then_eq_Inr split: poll.splits if_splits)
      ultimately show ?thesis using Pr_Done True by (auto simp: search_to_go_def)
    next
      case False
      with Pr_Done todo t(1) show ?thesis
        by (cases "se_checker s")
          (auto simp: search_ends_def search_to_go_def checker_next_def checker_pause_def and_then_eq_Inr)
    qed
  qed
  with t en search_stays_cancelled [OF t(1) cancelled] show ?thesis by simp
qed

text \<open>The schedule ends both tasks.\<close>

lemma search_ends_run:
  assumes "search_inv limit s" "search_cancelled s"
  shows "\<exists>acts t. length acts \<le> search_to_go s \<and> exec_all search_enabled (search_exec limit) acts s = Some t \<and>
    search_inv limit t \<and> se_producer t = Pr_Done \<and> se_checker t = Ck_Done"
  using assms
proof (induction "search_to_go s" arbitrary: s rule: less_induct)
  case less
  show ?case
  proof (cases "search_ends (Waker 0 0) s")
    case Nil
    then have "se_producer s = Pr_Done \<and> se_checker s = Ck_Done"
      by (cases "se_producer s"; cases "se_checker s") (auto simp: search_ends_def)
    with less.prems show ?thesis by (intro exI [of _ "[]"] exI [of _ s]) simp
  next
    case (Cons act more)
    from search_ends_step [OF less.prems Cons] obtain t where
      t: "search_enabled act s" "search_exec limit act s = Inr t" "search_inv limit t" "search_cancelled t"
        "search_to_go t < search_to_go s" by (auto simp: returns_iff)
    from less.hyps [OF t(5,3,4)] obtain acts u where
      u: "length acts \<le> search_to_go t" "exec_all search_enabled (search_exec limit) acts t = Some u"
        "search_inv limit u" "se_producer u = Pr_Done" "se_checker u = Ck_Done" by blast
    with t show ?thesis by (intro exI [of _ "act # acts"] exI [of _ u]) (simp del: search_exec.simps)
  qed
qed

text \<open>
  C13: the search shuts down gracefully. No step of it panics or faults in a primitive, in
  particular neither of its two \<open>unreachable!\<close> is reached. The checker does not end before the
  producer, and then none of their futures is alive. Once the search is cancelled, both tasks can
  end within five steps, without waiting for the timer or for each other's values.
\<close>

theorem search_shuts_down:
  assumes "search_reachable limit s"
  shows "(search_enabled act s \<longrightarrow> (\<exists>t. search_exec limit act s = Inr t)) \<and>
    (se_checker s = Ck_Done \<longrightarrow> se_producer s = Pr_Done \<and> search_idle s) \<and>
    (search_cancelled s \<longrightarrow> (\<exists>acts t. length acts \<le> 5 \<and>
       exec_all search_enabled (search_exec limit) acts s = Some t \<and>
       se_producer t = Pr_Done \<and> se_checker t = Ck_Done \<and> search_idle t))"
proof -
  note inv = srch.reach_inv [OF assms]
  have "producer_to_go p \<le> 3" "checker_to_go c \<le> 2" for p c by (cases p; simp) (cases c; simp)
  then have bound: "search_to_go s \<le> 5" using add_mono [of _ 3 _ 2] by (fastforce simp: search_to_go_def)
  have "\<exists>acts t. length acts \<le> 5 \<and> exec_all search_enabled (search_exec limit) acts s = Some t \<and>
      se_producer t = Pr_Done \<and> se_checker t = Ck_Done \<and> search_idle t" if "search_cancelled s"
    using search_ends_run [OF inv that] search_done_idle bound by (meson le_trans)
  with srch.no_fault [OF assms] search_invD(8) [OF inv] search_done_idle [OF inv] show ?thesis by blast
qed

lemma search_cancel_run:
  "\<exists>s. exec_all search_enabled (search_exec 9) [Sr_Next, Sr_Poll_Send (Waker 0 0), Sr_Poll_Cancel (Waker 0 0), Sr_Receive, Sr_Cancel]
     (fizzbuzz_search 7) = Some s \<and> search_cancelled s \<and> es_woken (se_cancel s) = [Waker 0 0] \<and> se_producer s = Pr_Select 1"
  by (simp add: search_eval poll_send_def poll_wait_def Let_def channel_exec.simps event_exec.simps
      channel_eval event_eval ll_eval channel_new_def array_buf_ops_def array_buf_new_def array_buf_can_push_def
      array_buf_len_def array_buf_capacity_def)

theorem search_shuts_down_witness:
  "\<exists>s acts t. search_reachable 9 s \<and> se_producer s = Pr_Select 1 \<and> length acts \<le> 5 \<and>
     exec_all search_enabled (search_exec 9) acts s = Some t \<and> se_producer t = Pr_Done \<and> se_checker t = Ck_Done"
proof -
  from search_cancel_run obtain s where
    s: "exec_all search_enabled (search_exec 9) [Sr_Next, Sr_Poll_Send (Waker 0 0), Sr_Poll_Cancel (Waker 0 0),
        Sr_Receive, Sr_Cancel] (fizzbuzz_search 7) = Some s" "search_cancelled s" "se_producer s = Pr_Select 1" by blast
  have reach: "search_reachable 9 s" by (rule exec_all_reach [OF s(1) reach_init]) blast
  from search_shuts_down [OF reach, of Sr_Cancel] s(2,3) reach show ?thesis by blast
qed

end
