(* ===== verification/Spec2Isabelle.thy ===== *)
theory Spec2Isabelle
  imports Prelude Linked_List Fair_Queue Mutex Mutex_Fairness Mutex_Guard Manual_Reset_Event
    Semaphore Semaphore_Fairness Ring_Buffer Channel_Future Arc Mpmc Mpmc_Invariant Mpmc_System
    Mpmc_Shared Oneshot Oneshot_Broadcast Oneshot_Shared State_Broadcast State_Shared Semaphore_Shared Mpmc_Arc
    Refinement_Mapping Mpmc_Stream Mpmc_Races State_Races
    Pairing_Heap Pairing_Heap_Queue Pairing_Heap_Check Timer Std_Clock Timer_Service Unit_Tests Pairing_Heap_Schedules
    Rendezvous Cancellation_Example
begin

text \<open>
  A verification library for futures-intrusive, a Rust crate of synchronisation primitives for
  asynchronous tasks: mutex, semaphore, manual reset event, several kinds of channel, and a timer.

  \<^bold>\<open>How the program works.\<close> A primitive keeps a small state and an intrusive queue of waiters under a
  lock. A future of the primitive owns a wait node and hands it to the queue by address when it has
  to wait; a call that makes progress possible (unlock, release, set, send, receive, close, a check
  of the timers) takes nodes out of the queue, or marks them notified, and wakes the wakers stored
  in them. Dropping a future takes its node out of the queue again. What can go wrong is what the
  properties rule out: dangling or corrupted links, a lost wakeup, a value delivered twice or never,
  permits or locks that are not conserved, overtaking in the fair variants, an assertion that fails.

  \<^bold>\<open>Theories and the code they model.\<close>
  \<^item> Prelude: results of fallible code, stores of pinned nodes, machine integers, wakers and \<open>Poll\<close>,
    \<^verbatim>\<open>utils/mod.rs\<close>, and the locale \<open>transition_system\<close> with the reachable-state invariant.
  \<^item> Linked_List: \<^verbatim>\<open>intrusive_double_linked_list.rs\<close>, on pointers; \<open>ll_rep\<close> abstracts a list to the
    addresses in it. Locale \<open>wait_queue\<close>, the interface the primitives use, interpreted as \<open>lq\<close>.
  \<^item> Mutex, Semaphore, Manual_Reset_Event: \<^verbatim>\<open>sync/mutex.rs\<close>, \<^verbatim>\<open>sync/semaphore.rs\<close> (borrowed and
    shared), \<^verbatim>\<open>sync/manual_reset_event.rs\<close>. Mutex_Guard adds the protected value and the guards
    that dereference to it.
  \<^item> Fair_Queue, Mutex_Fairness, Semaphore_Fairness: locale \<open>fair_queue\<close>, bounded overtaking in the
    fair variants, proved once and interpreted for both.
  \<^item> Ring_Buffer: \<^verbatim>\<open>buffer/ring_buffer.rs\<close>; locale \<open>ring_buf\<close> is the contract of the trait
    \<open>RingBuf\<close>, interpreted for \<open>ArrayBuf\<close> (indices and uninitialised cells), \<open>FixedHeapBuf\<close> and
    \<open>GrowingHeapBuf\<close>.
  \<^item> Channel_Future: \<^verbatim>\<open>channel/channel_future.rs\<close>, \<^verbatim>\<open>channel/error.rs\<close>; the access traits that the
    futures call are records of operations.
  \<^item> Mpmc, Mpmc_Invariant, Mpmc_System, Mpmc_Shared: \<^verbatim>\<open>channel/mpmc.rs\<close>; the operations with their
    pointer-free specification, the invariant, the system of a channel with its futures, and the
    counted handles. All of it is proved once for every \<open>ring_buf\<close>. Mpmc_Stream: the two streams,
    the shared one with the receiver and the references it owns.
  \<^item> Oneshot, Oneshot_Broadcast: \<^verbatim>\<open>channel/oneshot.rs\<close>, \<^verbatim>\<open>channel/oneshot_broadcast.rs\<close>; the locale
    \<open>value_channel\<close> holds what both promise and is interpreted for each.
  \<^item> State_Broadcast: \<^verbatim>\<open>channel/state_broadcast.rs\<close>, with its futures and counted handles.
  \<^item> Arc: the counted reference \<open>Arc\<close>, the futures of the channels that own one, and the counting
    of owners. Oneshot_Shared, State_Shared, Mpmc_Arc, Semaphore_Shared: the modules \<open>shared\<close> of
    the channels and the semaphore, in which every handle, future and releaser owns a reference to
    the allocation; the locale \<open>shared_value_channel\<close> covers both oneshot channels.
  \<^item> Refinement_Mapping, Mpmc_Races, State_Races: the drops of counted senders and receivers as the
    atomic steps they are made of, interleaved with everything else; the locale
    \<open>refinement_mapping\<close> maps such a system to the one where a drop is one action, except that the
    drop of the last receiver of Mpmc_Races is two: it closes the channel first, and drops the
    buffered items later, in between which others may receive them.
  \<^item> Pairing_Heap, Pairing_Heap_Queue: \<^verbatim>\<open>intrusive_pairing_heap.rs\<close>, on pointers, against the
    functional pairing heap on trees of addresses (\<open>ht_rep\<close>); the locale \<open>priority_queue\<close> is its
    interface, which every \<open>weak_order\<close> gives. Pairing_Heap_Check: the checker \<open>validate_heap\<close> of its
    unit tests and runs over schedules of insertions and removals; Pairing_Heap_Schedules: the
    recursive generator of all schedules.
  \<^item> Timer, Std_Clock, Timer_Service: \<^verbatim>\<open>timer/inner.rs\<close> and \<^verbatim>\<open>timer/clock.rs\<close>. Timer takes the time as
    an argument; Timer_Service puts it behind the trait \<open>Clock\<close>, whose contract is the locale
    \<open>clock\<close>, interpreted for \<open>MockClock\<close> and \<open>StdClock\<close>.
  \<^item> Rendezvous, Cancellation_Example: \<^verbatim>\<open>examples/cancellation.rs\<close>, where an unbuffered channel, two events and
    the timer work together. Rendezvous has one poll of each kind of future with its result, and
    the locale \<open>unbuffered\<close> of channels without a buffer, interpreted for that of the crate.
  \<^item> Unit_Tests: the tests in the modules of the lists, the ring buffers and the heap, as sequences
    of calls that are proved to pass.

  \<^bold>\<open>How code and model correspond.\<close> A struct is a record with its fields under a short prefix, an
  enum a datatype, a method one definition with the name of the component before its own
  (\<open>MutexState::try_lock\<close> is \<open>mutex_try_lock\<close>; \<open>_api\<close> marks the public wrapper where the names
  clash). State is passed explicitly; a definition returns the new state and the wakers it woke, in
  order. \<open>usize\<close> and \<open>u64\<close> are 64-bit words. A panic, a failed debug assertion and an overflow are
  \<open>Panic\<close>, so the model is the build with debug assertions; an access to a node that is not alive is
  \<open>Dangling\<close>; a loop that does not end is \<open>Diverges\<close>. Loops are \<open>partial_function (option)\<close> and
  their termination is proved, no fuel is used. Nodes live in a store that maps the address of every
  live node to its contents: creating a future adds its node, dropping it removes it. An
  \<open>Option\<close> of a reference to the primitive in a future is a \<open>bool\<close>. \<open>Clone\<close> of a value or a waker
  is the identity. \<open>Arc\<close> is a value with its count and whether the allocation is alive: an access
  after it was freed is \<open>Dangling\<close>, so that absence of faults is absence of use after free. The
  counts of senders and receivers that the code keeps itself are modelled as well. A theory ending
  in \<open>_Shared\<close> or \<open>_Arc\<close> refines the system of its component without counted references.

  \<^bold>\<open>Systems.\<close> For each primitive a record \<open>_sys\<close> holds the primitive with all its futures, guards or
  handles; \<open>_action\<close> is a call of the public API, \<open>_enabled\<close> the calls that ownership and the
  documented contract allow (no poll after completion, a fresh address for a new future), \<open>_exec\<close>
  runs the code. Every call but the drop of a counted handle is one critical section under the lock
  of the primitive, and wakers run outside the model, so every concurrent execution is a sequence of
  such actions; for the drops this is what Mpmc_Races and State_Races prove (with two actions for
  the last receiver of the channel). A handle or future gives
  up its reference to the allocation in the same action as the call that ends it; until then the
  code keeps it as well, so nothing is freed earlier than in the model. Fields of a system
  that record the past (values sent and received, permits added, wakers woken) are read by the
  properties only.

  \<^bold>\<open>What the lemmas show.\<close> For each operation: it returns under the representation of the queue and
  does what a pointer-free specification says. For each system: an invariant that every action
  keeps, hence no action faults in a reachable state. On top of that the properties, named C1 to
  C40 in the theories: no lost wakeup (C1, C7, C14, C15, C18, C20, C24), mutual exclusion and
  conservation of permits (C5, C10), order and bounded overtaking (C2, C3, C6, C16), delivery (C2,
  C19, C22, C23), refinement of a specification or of a system without counts (C4, C9, C21, C28,
  C30, C31, C33), memory safety of the counted references (C8, C9, C21, C30), races between
  handles (C11, C32), well-formed pointers (C27), time (C17, C37), round trips (C29), closing and
  errors (C26, C34, C35), termination (C36), equivalence of the two streams (C40), a program on
  top of the primitives (C12, C13) and absence of faults (C13, C25). C38 and C39 are defects of
  the semaphore: the calls after which a future is left to wait although the permits suffice for
  it. \<open>broadcast_drop_closes_early\<close> is one of the broadcast channel: it closes with
  the first receiver that is dropped, while its documentation says with the last.

  \<^bold>\<open>Not modelled.\<close> \<open>NoopLock\<close> and the \<open>lock_api\<close> mutexes (a call is atomic), the \<open>RealArray\<close>
  marker trait, \<open>Debug\<close>, \<open>Send\<close> and \<open>Sync\<close> implementations, type aliases and exports (no
  behaviour), a panic inside a comparison, a waker or the drop of a value, and a counter of
  references that overflows. The other example, the benchmarks and the integration tests are clients
  on executors of other crates. Of the example that is modelled, the macros \<open>select!\<close> and \<open>join!\<close> of
  such a crate appear as the freedom to poll the futures in any order.
\<close>

end
